(* ===== verification/Prelude.thy ===== *)
theory Prelude
  imports Main "HOL-Library.Word"
begin

text \<open>
  Shared vocabulary of the development: the machine types of the C code, the three ways
  a C function of the repository can end, sequencing of calls that are checked with
  \<open>if(!f(...)) return false;\<close>, and the byte order conversions.

  A C call ends in one of three ways. \<open>Ok v\<close>: it returned and reported success
  (\<open>true\<close>, a non-null pointer), with the values it handed back. \<open>Fail\<close>: it returned and
  reported failure (\<open>false\<close>, \<open>NULL\<close>). \<open>Fault\<close>: it touched memory it has no access to,
  or ran into other undefined behaviour, so that nothing is promised about what follows.
\<close>

unbundle bit_operations_syntax

section \<open>Machine types\<close>

type_synonym u8 = "8 word"
type_synonym u32 = "32 word"
type_synonym u64 = "64 word"
type_synonym addr = "64 word"

named_theorems view_simps \<open>what an operation does on a buffer with known contents\<close>

section \<open>Outcomes and sequencing\<close>

datatype 'a result = Ok 'a | Fail | Fault

type_synonym ('a, 's) call = "'s \<Rightarrow> 'a result \<times> 's"

definition call_bind :: "('a, 's) call \<Rightarrow> ('a \<Rightarrow> ('b, 's) call) \<Rightarrow> ('b, 's) call" where
  "call_bind f g s =
     (case f s of
        (Ok a, s') \<Rightarrow> g a s'
      | (Fail, s') \<Rightarrow> (Fail, s')
      | (Fault, s') \<Rightarrow> (Fault, s'))"

definition call_map :: "('a \<Rightarrow> 'b) \<Rightarrow> ('a, 's) call \<Rightarrow> ('b, 's) call" where
  "call_map h f = call_bind f (\<lambda>a s. (Ok (h a), s))"

lemma call_bind_Ok [simp]: "f s = (Ok a, s') \<Longrightarrow> call_bind f g s = g a s'"
  by (simp add: call_bind_def)

lemma call_bind_Fail [simp]: "f s = (Fail, s') \<Longrightarrow> call_bind f g s = (Fail, s')"
  by (simp add: call_bind_def)

lemma call_bind_Fault [simp]: "f s = (Fault, s') \<Longrightarrow> call_bind f g s = (Fault, s')"
  by (simp add: call_bind_def)

lemma call_bind_OkE:
  assumes "call_bind f g s = (Ok b, t)"
  obtains a s' where "f s = (Ok a, s')" and "g a s' = (Ok b, t)"
  using assms by (auto simp: call_bind_def split: prod.splits result.splits)

lemma call_bind_not_Fault:
  assumes "fst (f s) \<noteq> Fault"
    and "\<And>a s'. f s = (Ok a, s') \<Longrightarrow> fst (g a s') \<noteq> Fault"
  shows "fst (call_bind f g s) \<noteq> Fault"
  using assms by (auto simp: call_bind_def split: prod.splits result.splits)

lemma call_map_Ok [simp]: "f s = (Ok a, s') \<Longrightarrow> call_map h f s = (Ok (h a), s')"
  by (simp add: call_map_def)

lemma call_map_Fail [simp]: "f s = (Fail, s') \<Longrightarrow> call_map h f s = (Fail, s')"
  by (simp add: call_map_def)

lemma call_map_Fault [simp]: "f s = (Fault, s') \<Longrightarrow> call_map h f s = (Fault, s')"
  by (simp add: call_map_def)

section \<open>Big-endian byte sequences\<close>

definition be32 :: "u32 \<Rightarrow> u8 list" where
  "be32 u = [ucast (drop_bit 24 u), ucast (drop_bit 16 u), ucast (drop_bit 8 u), ucast u]"

definition de32 :: "u8 list \<Rightarrow> u32" where
  "de32 bs = push_bit 24 (ucast (bs ! 0)) OR push_bit 16 (ucast (bs ! 1))
     OR push_bit 8 (ucast (bs ! 2)) OR ucast (bs ! 3)"

definition be64 :: "u64 \<Rightarrow> u8 list" where
  "be64 u = be32 (ucast (drop_bit 32 u)) @ be32 (ucast u)"

definition de64 :: "u8 list \<Rightarrow> u64" where
  "de64 bs = push_bit 32 (ucast (de32 (take 4 bs))) OR ucast (de32 (drop 4 bs))"

lemma length_be32 [simp]: "length (be32 u) = 4"
  by (simp add: be32_def)

lemma length_be64 [simp]: "length (be64 u) = 8"
  by (simp add: be64_def)

lemma be32_not_Nil [simp]: "be32 u \<noteq> []"
  by (simp add: be32_def)

lemma be64_not_Nil [simp]: "be64 u \<noteq> []"
  by (simp add: be64_def)

lemma bit_u8_beyond [simp]: "8 \<le> n \<Longrightarrow> \<not> bit (a :: u8) n"
  by (simp add: impossible_bit)

lemma bit_u32_beyond [simp]: "32 \<le> n \<Longrightarrow> \<not> bit (a :: u32) n"
  by (simp add: impossible_bit)

lemma list_of_length_1:
  assumes "length xs = 1"
  obtains a where "xs = [a]"
  using assms by (auto simp: length_Suc_conv)

lemma list_of_length_2:
  assumes "length xs = 2"
  obtains a b where "xs = [a, b]"
  using assms by (auto simp: numeral_eq_Suc length_Suc_conv)

lemma list_from_2:
  assumes "2 \<le> length xs"
  obtains a b ys where "xs = a # b # ys"
  using assms by (cases xs; cases "tl xs") auto

lemma list_of_length_4:
  assumes "length bs = 4"
  obtains a b c d where "bs = [a, b, c, d]"
  using assms by (auto simp: numeral_eq_Suc length_Suc_conv)

lemma de32_be32 [simp]: "de32 (be32 u) = u"
proof (rule bit_word_eqI)
  fix n assume "n < LENGTH(32)"
  then consider "n < 8" | "8 \<le> n" "n < 16" | "16 \<le> n" "n < 24" | "24 \<le> n" "n < 32"
    by fastforce
  then show "bit (de32 (be32 u)) n \<longleftrightarrow> bit u n"
    by cases (auto simp: de32_def be32_def bit_simps)
qed

lemma be32_de32 [simp]: "length bs = 4 \<Longrightarrow> be32 (de32 bs) = bs"
proof (erule list_of_length_4)
  fix a b c d assume "bs = [a, b, c, d]"
  then show "be32 (de32 bs) = bs"
    by (auto simp: be32_def de32_def bit_simps intro!: bit_word_eqI dest: bit_imp_le_length)
qed

lemma de64_be64 [simp]: "de64 (be64 u) = u"
proof (rule bit_word_eqI)
  fix n assume "n < LENGTH(64)"
  then consider "n < 32" | "32 \<le> n" "n < 64" by fastforce
  then show "bit (de64 (be64 u)) n \<longleftrightarrow> bit u n"
    by cases (auto simp: de64_def be64_def bit_simps)
qed

lemma be64_de64 [simp]: "length bs = 8 \<Longrightarrow> be64 (de64 bs) = bs"
proof -
  assume "length bs = 8"
  have hi: "ucast (drop_bit 32 (de64 bs)) = de32 (take 4 bs)"
    by (auto simp: de64_def bit_simps intro!: bit_word_eqI dest: bit_imp_le_length)
  have lo: "ucast (de64 bs) = de32 (drop 4 bs)"
    by (auto simp: de64_def bit_simps intro!: bit_word_eqI dest: bit_imp_le_length)
  show ?thesis using \<open>length bs = 8\<close> by (simp add: be64_def hi lo)
qed

lemma be32_inject [simp]: "be32 u = be32 v \<longleftrightarrow> u = v"
  by (metis de32_be32)

lemma be64_inject [simp]: "be64 u = be64 v \<longleftrightarrow> u = v"
  by (metis de64_be64)

section \<open>Overwriting part of a list\<close>

definition overwrite :: "nat \<Rightarrow> 'a list \<Rightarrow> 'a list \<Rightarrow> 'a list" where
  "overwrite pos bs buf = take pos buf @ bs @ drop (pos + length bs) buf"

definition part :: "'a list \<Rightarrow> nat \<Rightarrow> nat \<Rightarrow> 'a list" where
  "part buf pos n = take n (drop pos buf)"

lemma length_overwrite [simp]: "pos + length bs \<le> length buf \<Longrightarrow> length (overwrite pos bs buf) = length buf"
  by (simp add: overwrite_def)

lemma nth_overwrite:
  "pos + length bs \<le> length buf \<Longrightarrow> i < length buf \<Longrightarrow>
   overwrite pos bs buf ! i = (if pos \<le> i \<and> i < pos + length bs then bs ! (i - pos) else buf ! i)"
  by (auto simp: overwrite_def nth_append)

lemma part_overwrite [simp]: "pos + length bs \<le> length buf \<Longrightarrow> part (overwrite pos bs buf) pos (length bs) = bs"
  by (simp add: part_def overwrite_def)

lemma overwrite_append:
  "pos + length (xs @ ys) \<le> length buf \<Longrightarrow>
   overwrite (pos + length xs) ys (overwrite pos xs buf) = overwrite pos (xs @ ys) buf"
  by (simp add: overwrite_def algebra_simps)

lemma part_cong:
  "pos + n \<le> length buf \<Longrightarrow> length buf' = length buf \<Longrightarrow>
   (\<And>i. pos \<le> i \<Longrightarrow> i < pos + n \<Longrightarrow> buf' ! i = buf ! i) \<Longrightarrow> part buf' pos n = part buf pos n"
  by (rule nth_equalityI) (simp_all add: part_def)

lemma length_part [simp]: "pos + n \<le> length buf \<Longrightarrow> length (part buf pos n) = n"
  by (simp add: part_def)

lemma part_part: "a + b \<le> n \<Longrightarrow> part (part buf pos n) a b = part buf (pos + a) b"
  by (simp add: part_def take_drop min_def add.commute)

lemma part_overwrite_part:
  "pos + length bs \<le> length buf \<Longrightarrow> a + n \<le> length bs \<Longrightarrow> part (overwrite pos bs buf) (pos + a) n = part bs a n"
  using part_part [of a n "length bs" "overwrite pos bs buf" pos] by simp

section \<open>Small facts on words\<close>

lemma unat_lt_64 [simp]: "unat (a :: u64) < 18446744073709551616"
  using unsigned_less [of a, where ?'a = nat] by simp

lemma unat_lt_32 [simp]: "unat (a :: u32) < 4294967296"
  using unsigned_less [of a, where ?'a = nat] by simp

lemma unat_lt_8 [simp]: "unat (a :: u8) < 256"
  using unsigned_less [of a, where ?'a = nat] by simp

lemma unat_add_no_wrap:
  "unat (a :: 'w::len word) + unat b < 2 ^ LENGTH('w) \<Longrightarrow> unat (a + b) = unat a + unat b"
  by (simp add: unat_word_ariths)

lemma unat_of_nat_small:
  "n < 2 ^ LENGTH('w) \<Longrightarrow> unat (of_nat n :: 'w::len word) = n"
  by (simp add: unat_of_nat)

lemma unat_max64 [simp]: "unat (- 1 :: u64) = 18446744073709551615"
  by (simp add: unsigned_minus_1_eq_mask mask_eq_exp_minus_1)

lemma unat_neg_of_nat64:
  "0 < k \<Longrightarrow> k < 18446744073709551616 \<Longrightarrow> unat (- of_nat k :: u64) = 18446744073709551616 - k"
proof -
  assume k: "0 < k" "k < 18446744073709551616"
  have "(of_nat (18446744073709551616 - k) :: u64) = - of_nat k"
    using k by (simp add: of_nat_diff)
  moreover have "unat (of_nat (18446744073709551616 - k) :: u64) = 18446744073709551616 - k"
    using k by (simp add: unat_of_nat del: of_nat_diff)
  ultimately show ?thesis by (simp del: of_nat_diff)
qed

lemma unat_Suc64: "a \<noteq> - 1 \<Longrightarrow> unat (a + 1 :: u64) = Suc (unat a)"
  by (metis add.commute add_eq_0_iff minus_equation_iff unatSuc)

lemma unat_of_nat64 [simp]: "n < 18446744073709551616 \<Longrightarrow> unat (of_nat n :: u64) = n"
  by (simp add: unat_of_nat)

text \<open>Clearing the low bits rounds down to a multiple; keeping them is a remainder.\<close>

lemma unat_and_mask: "unat (x AND mask k :: 'w::len word) = unat x mod 2 ^ k"
proof -
  have "unat (take_bit k x) = take_bit k (unat x)" by (rule unsigned_take_bit_eq)
  then show ?thesis by (simp only: take_bit_eq_mask [symmetric] take_bit_eq_mod)
qed

lemma unat_and_not_mask: "unat (x AND NOT (mask k) :: 'w::len word) = unat x - unat x mod 2 ^ k"
proof -
  have "x - (x AND mask k) = x AND NOT (x AND mask k)"
    by (rule disjunctive_diff_eq_and_not) (auto simp: bit_eq_iff bit_simps)
  also have "\<dots> = x AND NOT (mask k)"
    by (auto simp: bit_eq_iff bit_simps)
  finally have "x AND NOT (mask k) = x - (x AND mask k)" by simp
  moreover have "x AND mask k \<le> x"
    by (simp add: word_le_nat_alt unat_and_mask)
  ultimately show ?thesis by (simp add: unat_sub unat_and_mask)
qed

end
