(* ===== verification/CMem.thy ===== *)
theory CMem
  imports Prelude
begin

text \<open>
  The memory the C code reads and writes, byte by byte, and the calls of the C library the
  repository makes on it (\<open>strlen\<close>, \<open>strncmp\<close>, \<open>memcpy\<close> and integer loads and stores).
  A memory is a partial map: an address it has no byte for belongs to no object the program
  may touch, so an access there is undefined behaviour and the operation returns \<open>None\<close>.
  Addresses are 64 bit words and pointer arithmetic wraps, as \<open>uint8_t *\<close> arithmetic does on
  the machines the plugin is built for; integers are stored least significant byte first.
\<close>

type_synonym mem = "addr \<rightharpoonup> u8"

section \<open>Loads and stores\<close>

primrec ld :: "mem \<Rightarrow> addr \<Rightarrow> nat \<Rightarrow> u8 list option" where
  "ld m a 0 = Some []"
| "ld m a (Suc n) = (case m a of None \<Rightarrow> None | Some b \<Rightarrow> map_option (Cons b) (ld m (a + 1) n))"

primrec st :: "mem \<Rightarrow> addr \<Rightarrow> u8 list \<Rightarrow> mem option" where
  "st m a [] = Some m"
| "st m a (b # bs) = (if m a = None then None else st (m(a \<mapsto> b)) (a + 1) bs)"

definition ld32 :: "mem \<Rightarrow> addr \<Rightarrow> u32 option" where
  "ld32 m a = map_option (\<lambda>bs. de32 (rev bs)) (ld m a 4)"

definition ld64 :: "mem \<Rightarrow> addr \<Rightarrow> u64 option" where
  "ld64 m a = map_option (\<lambda>bs. de64 (rev bs)) (ld m a 8)"

definition st32 :: "mem \<Rightarrow> addr \<Rightarrow> u32 \<Rightarrow> mem option" where
  "st32 m a u = st m a (rev (be32 u))"

definition st64 :: "mem \<Rightarrow> addr \<Rightarrow> u64 \<Rightarrow> mem option" where
  "st64 m a u = st m a (rev (be64 u))"

text \<open>The byte order macros of \<open>endian.h\<close> on such a machine: both directions swap.\<close>

definition htobe32 :: "u32 \<Rightarrow> u32" where
  "htobe32 u = de32 (rev (be32 u))"

definition be32toh :: "u32 \<Rightarrow> u32" where
  "be32toh u = de32 (rev (be32 u))"

definition htobe64 :: "u64 \<Rightarrow> u64" where
  "htobe64 u = de64 (rev (be64 u))"

definition be64toh :: "u64 \<Rightarrow> u64" where
  "be64toh u = de64 (rev (be64 u))"

lemma st32_htobe32 [simp]: "st32 m a (htobe32 u) = st m a (be32 u)"
  by (simp add: st32_def htobe32_def)

lemma st64_htobe64 [simp]: "st64 m a (htobe64 u) = st m a (be64 u)"
  by (simp add: st64_def htobe64_def)

lemma be32toh_htobe32 [simp]: "be32toh (htobe32 u) = u"
  by (simp add: be32toh_def htobe32_def)

lemma be64toh_htobe64 [simp]: "be64toh (htobe64 u) = u"
  by (simp add: be64toh_def htobe64_def)

section \<open>A region with known contents\<close>

primrec mem_at :: "mem \<Rightarrow> addr \<Rightarrow> u8 list \<Rightarrow> bool" where
  "mem_at m a [] \<longleftrightarrow> True"
| "mem_at m a (b # bs) \<longleftrightarrow> m a = Some b \<and> mem_at m (a + 1) bs"

lemma mem_at_append [simp]:
  "mem_at m a (xs @ ys) \<longleftrightarrow> mem_at m a xs \<and> mem_at m (a + of_nat (length xs)) ys"
  by (induction xs arbitrary: a) (auto simp: algebra_simps)

lemma length_ld: "ld m a n = Some bs \<Longrightarrow> length bs = n"
  by (induction n arbitrary: a bs) (auto split: option.splits)

lemma ld_iff_mem_at: "ld m a n = Some bs \<longleftrightarrow> length bs = n \<and> mem_at m a bs"
proof (induction n arbitrary: a bs)
  case 0
  then show ?case by auto
next
  case (Suc n)
  then show ?case by (cases bs) (auto split: option.splits)
qed

lemma ld_mem_at: "mem_at m a bs \<Longrightarrow> ld m a (length bs) = Some bs"
  by (simp add: ld_iff_mem_at)

lemma mem_at_split:
  "mem_at m a bs \<Longrightarrow> n \<le> length bs
   \<Longrightarrow> mem_at m a (take n bs) \<and> mem_at m (a + of_nat n) (drop n bs)"
  using mem_at_append [of m a "take n bs" "drop n bs"] by simp

lemma ld_take: "mem_at m a bs \<Longrightarrow> n \<le> length bs \<Longrightarrow> ld m a n = Some (take n bs)"
  by (simp add: ld_iff_mem_at mem_at_split)

lemma ld32_view [view_simps]:
  "mem_at m a bs \<Longrightarrow> 4 \<le> length bs \<Longrightarrow> map_option be32toh (ld32 m a) = Some (de32 (take 4 bs))"
  by (simp add: ld32_def be32toh_def ld_take)

lemma ld64_view [view_simps]:
  "mem_at m a bs \<Longrightarrow> 8 \<le> length bs \<Longrightarrow> map_option be64toh (ld64 m a) = Some (de64 (take 8 bs))"
  by (simp add: ld64_def be64toh_def ld_take)

text \<open>A memory that consists of one object.\<close>

definition region :: "addr \<Rightarrow> u8 list \<Rightarrow> mem" where
  "region a bs = (\<lambda>x. if unat (x - a) < length bs then Some (bs ! unat (x - a)) else None)"

lemma mem_at_nth:
  "(\<And>i. i < length bs \<Longrightarrow> m (a + of_nat i) = Some (bs ! i)) \<Longrightarrow> mem_at m a bs"
proof (induction bs arbitrary: a)
  case Nil
  then show ?case by simp
next
  case (Cons b bs)
  have "m (a + 1 + of_nat i) = Some (bs ! i)" if "i < length bs" for i
    using Cons.prems [of "Suc i"] that by (simp add: algebra_simps)
  with Cons.IH Cons.prems [of 0] show ?case by simp
qed

lemma mem_at_region: "length bs < 2 ^ 64 \<Longrightarrow> mem_at (region a bs) a bs"
  by (rule mem_at_nth) (simp add: region_def)

section \<open>Storing into a region\<close>

text \<open>
  Whatever a store writes stays inside its range: an address whose distance from the start
  is at least the length written keeps its byte.
\<close>

lemma unat_sub_Suc: "(x :: addr) \<noteq> a \<Longrightarrow> unat (x - a) = Suc (unat (x - (a + 1)))"
proof -
  assume "x \<noteq> a"
  then have "x - a \<noteq> 0" by simp
  then have "unat (x - a) = Suc (unat (x - a - 1))"
    by (metis Suc_pred' unat_gt_0 unat_minus_one)
  then show ?thesis by (simp add: algebra_simps)
qed

lemma st_frame:
  "st m a bs = Some m' \<Longrightarrow> length bs \<le> unat (x - a) \<Longrightarrow> m' x = m x"
proof (induction bs arbitrary: m a)
  case Nil
  then show ?case by simp
next
  case (Cons b bs)
  then have "x \<noteq> a" by auto
  with Cons show ?case
    by (auto simp: unat_sub_Suc fun_upd_apply split: if_splits)
qed

lemma mem_at_cong:
  "(\<And>i. i < length bs \<Longrightarrow> m' (a + of_nat i) = m (a + of_nat i)) \<Longrightarrow> mem_at m' a bs \<longleftrightarrow> mem_at m a bs"
proof (induction bs arbitrary: a)
  case Nil
  then show ?case by simp
next
  case (Cons b bs)
  have "m' a = m a" using Cons.prems [of 0] by simp
  moreover have "m' (a + 1 + of_nat i) = m (a + 1 + of_nat i)" if "i < length bs" for i
    using Cons.prems [of "Suc i"] that by (simp add: algebra_simps)
  ultimately show ?case using Cons.IH by simp
qed

lemma st_exists:
  "mem_at m a ys \<Longrightarrow> length bs = length ys \<Longrightarrow> length ys < 2 ^ 64
   \<Longrightarrow> \<exists>m'. st m a bs = Some m' \<and> mem_at m' a bs"
proof (induction bs arbitrary: m a ys)
  case Nil
  then show ?case by simp
next
  case (Cons b bs)
  then obtain y ys' where ys: "ys = y # ys'" by (cases ys) auto
  let ?m = "m(a \<mapsto> b)"
  have off: "a + 1 + of_nat i \<noteq> a" if "i < length ys'" for i
  proof
    assume "a + 1 + of_nat i = a"
    then have "(of_nat (Suc i) :: addr) = 0" by (simp add: algebra_simps)
    then have "unat (of_nat (Suc i) :: addr) = 0" by simp
    moreover have "Suc i < 2 ^ 64" using that Cons.prems ys by simp
    ultimately show False by (simp del: of_nat_Suc)
  qed
  have "mem_at ?m (a + 1) ys'"
    using Cons.prems ys off by (subst mem_at_cong [of ys' ?m "a + 1" m]) auto
  then have "\<exists>m'. st ?m (a + 1) bs = Some m' \<and> mem_at m' (a + 1) bs"
    by (rule Cons.IH) (use Cons.prems ys in auto)
  then obtain m' where m': "st ?m (a + 1) bs = Some m'" "mem_at m' (a + 1) bs" by blast
  have "length bs \<le> unat (a - (a + 1))"
    using Cons.prems ys by simp
  with st_frame [OF m'(1)] have "m' a = Some b" by simp
  with m' Cons.prems ys show ?case by auto
qed

text \<open>
  A store into the middle of a region replaces exactly that part of it, and nothing outside
  the region changes.
\<close>

lemma st_region:
  assumes reg: "mem_at m a (xs @ ys @ zs)" and len: "length bs = length ys"
    and bound: "length (xs @ ys @ zs) < 2 ^ 64"
  shows "\<exists>m'. st m (a + of_nat (length xs)) bs = Some m' \<and> mem_at m' a (xs @ bs @ zs)
    \<and> (\<forall>x. length (xs @ ys @ zs) \<le> unat (x - a) \<longrightarrow> m' x = m x)"
proof -
  let ?p = "a + of_nat (length xs)"
  from reg have parts: "mem_at m a xs" "mem_at m ?p ys"
    "mem_at m (?p + of_nat (length ys)) zs" by simp_all
  from st_exists [OF parts(2) len] bound obtain m' where
    m': "st m ?p bs = Some m'" "mem_at m' ?p bs" by auto
  have before: "m' (a + of_nat i) = m (a + of_nat i)" if "i < length xs" for i
  proof (rule st_frame [OF m'(1)])
    have "a + of_nat i - ?p = - of_nat (length xs - i)"
      using that by (simp add: of_nat_diff algebra_simps)
    moreover have "unat (- of_nat (length xs - i) :: addr) = 2 ^ 64 - (length xs - i)"
      using that bound by (simp add: unat_neg_of_nat64 del: of_nat_diff)
    ultimately show "length bs \<le> unat (a + of_nat i - ?p)"
      using that bound len by simp
  qed
  have after: "m' (?p + of_nat (length ys) + of_nat i) = m (?p + of_nat (length ys) + of_nat i)"
    if "i < length zs" for i
  proof (rule st_frame [OF m'(1)])
    have "?p + of_nat (length ys) + of_nat i - ?p = of_nat (length ys + i)" by simp
    then show "length bs \<le> unat (?p + of_nat (length ys) + of_nat i - ?p)"
      using that bound len by (simp del: of_nat_add)
  qed
  have outside: "m' x = m x" if "length (xs @ ys @ zs) \<le> unat (x - a)" for x
  proof (rule st_frame [OF m'(1)])
    have "unat (x - ?p) = unat (x - a) - length xs"
    proof -
      have le: "of_nat (length xs) \<le> x - a"
        using that bound by (simp add: word_le_nat_alt)
      have "x - ?p = (x - a) - of_nat (length xs)" by simp
      also have "unat \<dots> = unat (x - a) - length xs"
        using unat_sub [OF le] bound by simp
      finally show ?thesis .
    qed
    then show "length bs \<le> unat (x - ?p)" using that len by simp
  qed
  have "mem_at m' a xs" using parts(1) mem_at_cong [of xs m' a m] before by blast
  moreover have "mem_at m' (?p + of_nat (length ys)) zs"
    using parts(3) mem_at_cong [of zs m' "?p + of_nat (length ys)" m] after by blast
  ultimately show ?thesis using m' len outside by auto
qed

section \<open>C strings\<close>

text \<open>
  \<open>c_str m a\<close> is the string at \<open>a\<close>: the bytes up to the first zero. It is \<open>None\<close> when no zero
  is found before memory ends, which is what \<open>strlen\<close> runs into.
\<close>

function c_str :: "mem \<Rightarrow> addr \<Rightarrow> u8 list option" where
  "c_str m a =
     (case m a of
        None \<Rightarrow> None
      | Some b \<Rightarrow> if b = 0 then Some [] else if a = - 1 then None
                 else map_option (Cons b) (c_str m (a + 1)))"
  by pat_completeness auto
termination
proof (relation "measure (\<lambda>(m, a). 2 ^ 64 - unat a)")
  fix m :: mem and a :: addr
  assume "a \<noteq> - 1"
  then have "unat (a + 1) = Suc (unat a)" by (rule unat_Suc64)
  then show "((m, a + 1), m, a) \<in> measure (\<lambda>(m, a). 2 ^ 64 - unat a)"
    using unat_lt_64 [of "a + 1"] by simp
qed simp

declare c_str.simps [simp del]

lemma c_str_view:
  "mem_at m a (s @ 0 # t) \<Longrightarrow> 0 \<notin> set s \<Longrightarrow> unat a + length s < 2 ^ 64 \<Longrightarrow> c_str m a = Some s"
proof (induction s arbitrary: a)
  case Nil
  then show ?case by (subst c_str.simps) simp
next
  case (Cons b s)
  have "a \<noteq> - 1" using Cons.prems(3) by auto
  moreover have "unat (a + 1) = Suc (unat a)"
    using Cons.prems(3) by (subst unat_add_no_wrap) auto
  ultimately show ?case using Cons by (subst c_str.simps) auto
qed

lemma c_str_runs_out:
  "mem_at m a bs \<Longrightarrow> 0 \<notin> set bs \<Longrightarrow> m (a + of_nat (length bs)) = None \<Longrightarrow> c_str m a = None"
proof (induction bs arbitrary: a)
  case Nil
  then show ?case by (subst c_str.simps) simp
next
  case (Cons b bs)
  then have "c_str m (a + 1) = None" by (auto simp: algebra_simps)
  with Cons.prems show ?case by (subst c_str.simps) auto
qed

lemma c_str_Some:
  "c_str m a = Some s \<Longrightarrow> 0 \<notin> set s \<and> mem_at m a (s @ [0])"
proof (induction m a arbitrary: s rule: c_str.induct)
  case (1 m a)
  then show ?case
    by (subst (asm) (2) c_str.simps) (auto simp: add.assoc split: option.splits if_splits)
qed

text \<open>\<open>strncmp(p, s, n) == 0\<close> for a literal \<open>s\<close> given with its terminator, cut at \<open>n\<close> bytes.\<close>

primrec strn_eq :: "mem \<Rightarrow> addr \<Rightarrow> u8 list \<Rightarrow> bool option" where
  "strn_eq m a [] = Some True"
| "strn_eq m a (c # cs) =
     (case m a of
        None \<Rightarrow> None
      | Some b \<Rightarrow> if b \<noteq> c then Some False else if c = 0 then Some True else strn_eq m (a + 1) cs)"

lemma strn_eq_prefix:
  "mem_at m a (cs @ t) \<Longrightarrow> strn_eq m a cs = Some True"
  by (induction cs arbitrary: a) auto

lemma strn_eq_differs:
  "mem_at m a (b # t) \<Longrightarrow> b \<noteq> c \<Longrightarrow> strn_eq m a (c # cs) = Some False"
  by simp

lemma strn_eq_bounded:
  "mem_at m a bs \<Longrightarrow> length cs \<le> length bs \<Longrightarrow> strn_eq m a cs \<noteq> None"
proof (induction cs arbitrary: a bs)
  case Nil
  then show ?case by simp
next
  case (Cons c cs)
  then show ?case by (cases bs) auto
qed

text \<open>Characters of the source's literals, as the bytes C stores for them.\<close>

definition c8 :: "char \<Rightarrow> u8" where
  "c8 c = of_nat (of_char c)"

definition cstr :: "string \<Rightarrow> u8 list" where
  "cstr s = map c8 s"

lemma cstr_simps [simp]: "cstr [] = []" "cstr (c # s) = c8 c # cstr s"
  by (simp_all add: cstr_def)

lemma length_cstr [simp]: "length (cstr s) = length s"
  by (simp add: cstr_def)

end
