(* ===== verification/Osc_Util.thy ===== *)
theory Osc_Util
  imports CMem
begin

text \<open>
  The vocabulary of Open Sound Control in the repository: \<open>osc.lv2/osc.lv2/osc.h\<close> (padding,
  argument types, time tags, the table of mapped URIs) and the helpers of
  \<open>osc.lv2/osc.lv2/util.h\<close> that need no atom: time tag packing, the checks of paths and
  format strings, the translation of OSC patterns for \<open>fnmatch\<close> and the dispatch of a path
  over a tree of hooks. Strings are the lists of their bytes, without the terminating zero.
\<close>

section \<open>Padding\<close>

definition lv2_osc_padded_size :: "u64 \<Rightarrow> u64" where
  "lv2_osc_padded_size sz = (sz + 3) AND NOT 3"

definition pad4 :: "nat \<Rightarrow> nat" where
  "pad4 n = (n + 3) div 4 * 4"

lemma pad4_bounds: "n \<le> pad4 n" "pad4 n \<le> n + 3"
  by (simp_all add: pad4_def)

lemma pad4_dvd [simp]: "4 dvd pad4 n"
  by (simp add: pad4_def)

lemma pad4_minus: "pad4 n - n < 4"
  using pad4_bounds [of n] by linarith

lemma unat_padded_size:
  assumes "unat n + 3 < 2 ^ 64"
  shows "unat (lv2_osc_padded_size n) = pad4 (unat n)"
proof -
  have "unat (n + 3) = unat n + 3"
    using assms by (subst unat_add_no_wrap) auto
  moreover have "(3 :: u64) = mask 2" by (simp add: mask_eq_exp_minus_1)
  ultimately have "unat (lv2_osc_padded_size n) = (unat n + 3) - (unat n + 3) mod 4"
    unfolding lv2_osc_padded_size_def by (simp only: unat_and_not_mask) simp
  then show ?thesis by (simp add: pad4_def minus_mod_eq_div_mult)
qed

lemma padded_size_of_nat:
  "n + 3 < 2 ^ 64 \<Longrightarrow> lv2_osc_padded_size (of_nat n) = of_nat (pad4 n)"
  using pad4_bounds(2) [of n] by (simp add: word_unat_eq_iff unat_padded_size)

section \<open>Argument types\<close>

datatype lv2_osc_type =
    OSC_INT32 | OSC_FLOAT | OSC_STRING | OSC_BLOB
  | OSC_TRUE | OSC_FALSE | OSC_NIL | OSC_IMPULSE
  | OSC_INT64 | OSC_DOUBLE | OSC_TIMETAG
  | OSC_SYMBOL | OSC_CHAR | OSC_MIDI | OSC_RGBA

fun type_char :: "lv2_osc_type \<Rightarrow> u8" where
  "type_char OSC_INT32 = c8 CHR ''i''"
| "type_char OSC_FLOAT = c8 CHR ''f''"
| "type_char OSC_STRING = c8 CHR ''s''"
| "type_char OSC_BLOB = c8 CHR ''b''"
| "type_char OSC_TRUE = c8 CHR ''T''"
| "type_char OSC_FALSE = c8 CHR ''F''"
| "type_char OSC_NIL = c8 CHR ''N''"
| "type_char OSC_IMPULSE = c8 CHR ''I''"
| "type_char OSC_INT64 = c8 CHR ''h''"
| "type_char OSC_DOUBLE = c8 CHR ''d''"
| "type_char OSC_TIMETAG = c8 CHR ''t''"
| "type_char OSC_SYMBOL = c8 CHR ''S''"
| "type_char OSC_CHAR = c8 CHR ''c''"
| "type_char OSC_MIDI = c8 CHR ''m''"
| "type_char OSC_RGBA = c8 CHR ''r''"

definition all_types :: "lv2_osc_type list" where
  "all_types = [OSC_INT32, OSC_FLOAT, OSC_STRING, OSC_BLOB, OSC_TRUE, OSC_FALSE, OSC_NIL,
     OSC_IMPULSE, OSC_INT64, OSC_DOUBLE, OSC_TIMETAG, OSC_SYMBOL, OSC_CHAR, OSC_MIDI, OSC_RGBA]"

text \<open>The \<open>switch\<close> on a type byte: no case is taken for a byte that is no type.\<close>

definition type_of_char :: "u8 \<Rightarrow> lv2_osc_type option" where
  "type_of_char b = find (\<lambda>t. type_char t = b) all_types"

lemma set_all_types [simp]: "set all_types = UNIV"
proof -
  have "t \<in> set all_types" for t by (cases t) (simp_all add: all_types_def)
  then show ?thesis by blast
qed

lemma type_of_char_type_char [simp]: "type_of_char (type_char t) = Some t"
  by (cases t) (simp_all add: type_of_char_def all_types_def c8_def)

lemma type_char_inject [simp]: "type_char t = type_char u \<longleftrightarrow> t = u"
  by (metis option.inject type_of_char_type_char)

lemma type_of_char_Some: "type_of_char b = Some t \<Longrightarrow> b = type_char t"
  by (auto simp: type_of_char_def find_Some_iff)

lemma type_char_nonzero [simp]: "type_char t \<noteq> 0"
  by (cases t) (simp_all add: c8_def)

instantiation lv2_osc_type :: linorder
begin

definition less_eq_lv2_osc_type :: "lv2_osc_type \<Rightarrow> lv2_osc_type \<Rightarrow> bool" where
  "less_eq_lv2_osc_type t u \<longleftrightarrow> type_char t \<le> type_char u"

definition less_lv2_osc_type :: "lv2_osc_type \<Rightarrow> lv2_osc_type \<Rightarrow> bool" where
  "less_lv2_osc_type t u \<longleftrightarrow> type_char t < type_char u"

instance
  by standard
    (auto simp: less_eq_lv2_osc_type_def less_lv2_osc_type_def dest: order_antisym)

end

section \<open>Time tags\<close>

record lv2_osc_timetag =
  integral :: u32
  fraction :: u32

definition lv2_osc_timetag_parse :: "lv2_osc_timetag \<Rightarrow> u64" where
  "lv2_osc_timetag_parse tt = push_bit 32 (ucast (integral tt)) OR ucast (fraction tt)"

definition lv2_osc_timetag_create :: "u64 \<Rightarrow> lv2_osc_timetag" where
  "lv2_osc_timetag_create tt =
     \<lparr>integral = ucast (drop_bit 32 tt), fraction = ucast (tt AND 0xffffffff)\<rparr>"

definition LV2_OSC_IMMEDIATE :: u64 where
  "LV2_OSC_IMMEDIATE = 1"

lemma mask_32: "(0xffffffff :: u64) = mask 32"
  by (simp add: mask_eq_exp_minus_1)

lemma timetag_parse_create [simp]: "lv2_osc_timetag_parse (lv2_osc_timetag_create tt) = tt"
proof (rule bit_word_eqI)
  fix n assume "n < LENGTH(64)"
  then consider "n < 32" | "32 \<le> n" "n < 64" by fastforce
  then show "bit (lv2_osc_timetag_parse (lv2_osc_timetag_create tt)) n \<longleftrightarrow> bit tt n"
    by cases
      (auto simp: lv2_osc_timetag_parse_def lv2_osc_timetag_create_def mask_32 bit_simps)
qed

lemma timetag_create_parse [simp]: "lv2_osc_timetag_create (lv2_osc_timetag_parse t) = t"
proof -
  have "ucast (drop_bit 32 (lv2_osc_timetag_parse t)) = integral t"
    by (auto simp: lv2_osc_timetag_parse_def bit_simps intro!: bit_word_eqI
        dest: bit_imp_le_length)
  moreover have "ucast (lv2_osc_timetag_parse t AND 0xffffffff) = fraction t"
    by (auto simp: lv2_osc_timetag_parse_def mask_32 bit_simps intro!: bit_word_eqI
        dest: bit_imp_le_length)
  ultimately show ?thesis
    by (simp add: lv2_osc_timetag_create_def)
qed

section \<open>Checking paths and formats\<close>

definition slash :: u8 where
  "slash = c8 CHR ''/''"

definition comma :: u8 where
  "comma = c8 CHR '',''"

definition invalid_path_chars :: "u8 list" where
  "invalid_path_chars = [c8 CHR '' '', c8 CHR ''#'']"

text \<open>\<open>isprint\<close> in the C locale.\<close>

definition c_isprint :: "u8 \<Rightarrow> bool" where
  "c_isprint b \<longleftrightarrow> 32 \<le> b \<and> b < 127"

definition lv2_osc_check_path :: "u8 list \<Rightarrow> bool" where
  "lv2_osc_check_path path =
     (case path of
        [] \<Rightarrow> False
      | b # rest \<Rightarrow> if b \<noteq> slash then False
          else list_all (\<lambda>c. c_isprint c \<and> \<not> List.member invalid_path_chars c) rest)"

text \<open>The characters \<open>valid_format_chars\<close> lists: \<open>LV2_OSC_CHAR\<close> and \<open>LV2_OSC_RGBA\<close> are not among them.\<close>

definition valid_format_chars :: "u8 list" where
  "valid_format_chars = map type_char
     [OSC_INT32, OSC_FLOAT, OSC_STRING, OSC_BLOB, OSC_TRUE, OSC_FALSE, OSC_NIL, OSC_IMPULSE,
      OSC_INT64, OSC_DOUBLE, OSC_TIMETAG, OSC_SYMBOL, OSC_MIDI]"

definition lv2_osc_check_fmt :: "u8 list \<Rightarrow> nat \<Rightarrow> bool" where
  "lv2_osc_check_fmt fmt offset =
     (if offset \<noteq> 0 \<and> (fmt = [] \<or> hd fmt \<noteq> comma) then False
      else list_all (\<lambda>c. List.member valid_format_chars c) (drop offset fmt))"

lemma check_path_Cons:
  "lv2_osc_check_path (b # rest) \<longleftrightarrow>
     b = slash \<and> (\<forall>c \<in> set rest. 32 < c \<and> c < 127 \<and> c \<noteq> 35)"
  by (auto simp: lv2_osc_check_path_def c_isprint_def invalid_path_chars_def c8_def list_all_iff
      order.strict_iff_order)

lemma check_fmt_types:
  "lv2_osc_check_fmt (map type_char ts) 0 \<longleftrightarrow> OSC_CHAR \<notin> set ts \<and> OSC_RGBA \<notin> set ts"
proof -
  have "type_char t \<in> set valid_format_chars \<longleftrightarrow> t \<noteq> OSC_CHAR \<and> t \<noteq> OSC_RGBA" for t
    by (cases t) (simp_all add: valid_format_chars_def c8_def)
  then show ?thesis by (auto simp: lv2_osc_check_fmt_def list_all_iff)
qed

section \<open>Patterns\<close>

text \<open>
  \<open>lv2_osc_pattern_match from name len\<close> copies the first \<open>len\<close> bytes of \<open>from\<close> into a buffer of
  \<open>len + nbrace + 1\<close> bytes, turning \<open>{x,y}\<close> into \<open>@(x|y)\<close>, and asks \<open>fnmatch\<close> about the string
  in it (the branch with \<open>FNM_EXTMATCH\<close>, which \<open>meson.build\<close> selects with \<open>_GNU_SOURCE\<close>).
  \<open>fnmatch\<close> is a parameter. \<open>None\<close>: the copy reads beyond the terminator of \<open>from\<close>.
\<close>

definition convert_pattern_char :: "u8 \<Rightarrow> u8 list" where
  "convert_pattern_char b =
     (if b = c8 CHR ''{'' then [c8 CHR ''@'', c8 CHR ''('']
      else if b = comma then [c8 CHR ''|'']
      else if b = c8 CHR ''}'' then [c8 CHR '')'']
      else [b])"

definition count_braces :: "u8 list \<Rightarrow> nat" where
  "count_braces bs = length (filter (\<lambda>b. b = c8 CHR ''{'') bs)"

definition pattern_buffer :: "u8 list \<Rightarrow> u8 list" where
  "pattern_buffer bs =
     (if count_braces bs \<noteq> 0 then concat (map convert_pattern_char bs) else bs)"

definition lv2_osc_pattern_match ::
    "(u8 list \<Rightarrow> u8 list \<Rightarrow> bool) \<Rightarrow> u8 list \<Rightarrow> u8 list \<Rightarrow> nat \<Rightarrow> bool option" where
  "lv2_osc_pattern_match fnm from name len =
     (if len > length from + 1 then None
      else Some (fnm (takeWhile (\<lambda>b. b \<noteq> 0) (pattern_buffer (take len (from @ [0])))) name))"

lemma length_pattern_buffer:
  "length (pattern_buffer bs) = length bs + count_braces bs"
proof -
  have "length (concat (map convert_pattern_char bs)) = length bs + count_braces bs"
    by (induction bs) (auto simp: convert_pattern_char_def count_braces_def comma_def c8_def)
  then show ?thesis by (simp add: pattern_buffer_def)
qed

lemma pattern_match_component:
  "len \<le> length from \<Longrightarrow> lv2_osc_pattern_match fnm from name len
     = Some (fnm (takeWhile (\<lambda>b. b \<noteq> 0) (pattern_buffer (take len from))) name)"
  by (simp add: lv2_osc_pattern_match_def)

section \<open>Dispatch over a tree of hooks\<close>

text \<open>
  A hook has a name, a table of hooks below it or none, and a method (with its data) or none.
  \<open>hooks_loop\<close> is the \<open>for\<close> loop of \<open>_lv2_osc_hooks_internal\<close>: \<open>ptr\<close> and \<open>len\<close> are fixed before
  it, while \<open>from\<close> is the variable its body assigns. The result lists the methods called.
\<close>

datatype 'm hook = Hook (hook_name: "u8 list") (hook_hooks: "'m hook list option") (hook_method: "'m option")

definition component :: "u8 list \<Rightarrow> u8 list" where
  "component from = takeWhile (\<lambda>b. b \<noteq> slash) from"

definition after_slash :: "u8 list \<Rightarrow> u8 list option" where
  "after_slash from = (case dropWhile (\<lambda>b. b \<noteq> slash) from of [] \<Rightarrow> None | _ # r \<Rightarrow> Some r)"

function (sequential)
  hooks_internal :: "(u8 list \<Rightarrow> u8 list \<Rightarrow> bool) \<Rightarrow> u8 list \<Rightarrow> 'm hook list \<Rightarrow> 'm list option" and
  hooks_loop :: "(u8 list \<Rightarrow> u8 list \<Rightarrow> bool) \<Rightarrow> u8 list option \<Rightarrow> nat \<Rightarrow> u8 list \<Rightarrow> 'm hook list
    \<Rightarrow> 'm list option" where
  "hooks_internal fnm from hooks =
     hooks_loop fnm (after_slash from) (length (component from)) from hooks"
| "hooks_loop fnm ptr len from [] = Some []"
| "hooks_loop fnm ptr len from (Hook name sub mth # hs) =
     (case lv2_osc_pattern_match fnm from name len of
        None \<Rightarrow> None
      | Some False \<Rightarrow> hooks_loop fnm ptr len from hs
      | Some True \<Rightarrow>
          (case (sub, ptr) of
             (Some hooks, Some rest) \<Rightarrow>
               (case hooks_internal fnm rest hooks of
                  None \<Rightarrow> None
                | Some called \<Rightarrow> map_option ((@) called) (hooks_loop fnm ptr len rest hs))
           | _ \<Rightarrow>
               (case (mth, ptr) of
                  (Some m, None) \<Rightarrow> map_option (Cons m) (hooks_loop fnm ptr len from hs)
                | _ \<Rightarrow> hooks_loop fnm ptr len from hs)))"
  by pat_completeness auto
termination
  by (relation "measure (\<lambda>x. case x of
        Inl (_, _, hooks) \<Rightarrow> 2 * size_list size hooks + 1
      | Inr (_, _, _, _, hooks) \<Rightarrow> 2 * size_list size hooks)") auto

definition lv2_osc_hooks :: "(u8 list \<Rightarrow> u8 list \<Rightarrow> bool) \<Rightarrow> u8 list \<Rightarrow> 'm hook list \<Rightarrow> 'm list option" where
  "lv2_osc_hooks fnm path hooks = hooks_internal fnm (drop 1 path) hooks"

text \<open>What dispatch is for: every hook is compared with the component of its own level.\<close>

function (sequential) dispatch :: "(u8 list \<Rightarrow> u8 list \<Rightarrow> bool) \<Rightarrow> u8 list \<Rightarrow> 'm hook list \<Rightarrow> 'm list" where
  "dispatch fnm from [] = []"
| "dispatch fnm from (Hook name sub mth # hs) =
     (if fnm (pattern_buffer (component from)) name
      then (case (sub, after_slash from) of
              (Some hooks, Some rest) \<Rightarrow> dispatch fnm rest hooks
            | _ \<Rightarrow> (case (mth, after_slash from) of (Some m, None) \<Rightarrow> [m] | _ \<Rightarrow> []))
      else []) @ dispatch fnm from hs"
  by pat_completeness auto
termination
  by (relation "measure (\<lambda>(_, _, hooks). size_list size hooks)") auto

lemma no_slash:
  assumes "slash \<notin> set path"
  shows "after_slash path = None"
proof -
  have "dropWhile (\<lambda>b. b \<noteq> slash) path = []"
    using assms by (simp only: dropWhile_eq_Nil_conv) metis
  then have "after_slash path = (case [] of [] \<Rightarrow> None | _ # r \<Rightarrow> Some r)"
    by (simp only: after_slash_def)
  then show ?thesis by simp
qed

lemma component_not_0: "0 \<notin> set from \<Longrightarrow> 0 \<notin> set (component from)"
  by (auto simp: component_def dest: set_takeWhileD)

lemma component_match:
  assumes "0 \<notin> set from"
  shows "lv2_osc_pattern_match fnm from name (length (component from))
    = Some (fnm (pattern_buffer (component from)) name)"
proof -
  have le: "length (component from) \<le> length from"
    by (simp add: component_def length_takeWhile_le)
  have "take (length (component from)) from = component from"
    by (simp add: component_def takeWhile_eq_take [symmetric])
  moreover have "0 \<notin> set (pattern_buffer (component from))"
    using component_not_0 [OF assms]
    by (auto simp: pattern_buffer_def convert_pattern_char_def c8_def split: if_splits)
  then have "\<forall>b \<in> set (pattern_buffer (component from)). b \<noteq> 0" by metis
  ultimately show ?thesis
    using le by (simp add: pattern_match_component takeWhile_eq_all_conv [THEN iffD2])
qed

text \<open>At the last level of a path the loop never assigns \<open>from\<close>, and dispatch is as intended.\<close>

lemma hooks_loop_leaf:
  "0 \<notin> set from \<Longrightarrow> after_slash from = None
   \<Longrightarrow> hooks_loop fnm None (length (component from)) from hs = Some (dispatch fnm from hs)"
proof (induction hs)
  case Nil
  then show ?case by simp
next
  case (Cons h hs)
  then show ?case
    by (cases h) (auto simp: component_match split: option.splits)
qed

section \<open>Properties\<close>

text \<open>
  Time tags survive the two conversions: packing what was unpacked gives the 64 bit tag
  back, and unpacking what was packed gives both halves back.
\<close>

theorem timetag_roundtrip:
  "lv2_osc_timetag_parse (lv2_osc_timetag_create tt) = tt \<and>
   lv2_osc_timetag_create (lv2_osc_timetag_parse t) = t"
  by simp

text \<open>
  \<open>lv2_osc_pattern_match\<close> allocates \<open>len + nbrace + 1\<close> bytes, and the converted pattern with
  its terminator is exactly that long, for every pattern: the copy never leaves the buffer.
\<close>

theorem pattern_buffer_exact:
  "length (pattern_buffer bs @ [0]) = length bs + count_braces bs + 1"
  by (simp add: length_pattern_buffer)

text \<open>
  \<open>lv2_osc_check_fmt\<close> accepts a format of valid type characters exactly when it names
  neither a character nor a colour, although both are types the writer and the reader handle.
\<close>

theorem check_fmt_rejects_char_and_rgba:
  "lv2_osc_check_fmt (comma # map type_char ts) 1 \<longleftrightarrow> OSC_CHAR \<notin> set ts \<and> OSC_RGBA \<notin> set ts"
  using check_fmt_types [of ts] by (simp add: lv2_osc_check_fmt_def)

text \<open>
  \<open>lv2_osc_hooks\<close> can call a method whose place in the tree does not match the path: after
  the hook \<open>a\<close> has matched the path \<open>/a/b\<close>, its sibling \<open>b\<close> is compared with the rest of the
  path instead of with \<open>a\<close>, and its hook \<open>b\<close> is called too.
\<close>

theorem hooks_misroute:
  "let eq = (\<lambda>pat name. pat = name);
       a = cstr ''a''; b = cstr ''b'';
       hooks = [Hook a (Some [Hook b None (Some 1)]) None, Hook b (Some [Hook b None (Some (2 :: nat))]) None]
   in lv2_osc_hooks eq (cstr ''/a/b'') hooks = Some [1, 2] \<and> dispatch eq (cstr ''a/b'') hooks = [1]"
  by (simp add: lv2_osc_hooks_def after_slash_def component_def slash_def c8_def lv2_osc_pattern_match_def
      pattern_buffer_def count_braces_def comma_def Let_def)

text \<open>
  On the last component of a path \<open>lv2_osc_hooks\<close> does what dispatch is for: it calls
  exactly the methods of the hooks whose name that component matches, in the order of the table.
\<close>

theorem hooks_leaf:
  "0 \<notin> set path \<and> slash \<notin> set path \<Longrightarrow>
   lv2_osc_hooks fnm (slash # path) hooks = Some (dispatch fnm path hooks)"
  using hooks_loop_leaf [of path fnm hooks] no_slash [of path] by (simp add: lv2_osc_hooks_def)

theorem hooks_leaf_witness:
  "lv2_osc_hooks (\<lambda>pat name. pat = name) (slash # cstr ''a'') [Hook (cstr ''a'') None (Some (1 :: nat))]
    = Some (dispatch (\<lambda>pat name. pat = name) (cstr ''a'') [Hook (cstr ''a'') None (Some 1)])"
  by (rule hooks_leaf) (simp add: slash_def c8_def)

end
