(* ===== verification/Atom.thy ===== *)
theory Atom
  imports CMem
begin

text \<open>
  What the repository uses of LV2's atoms, whose headers are not part of it. An atom is a type
  and a body: bytes, a tuple of atoms, or an object (an identifier, its type, and properties).
  The bodies lie in memory as the LV2 atom documentation lays them out (\<open>body_bytes\<close>). Reading
  a body as something it is not gives \<open>None\<close>. Looking a property up
  (\<open>lv2_atom_object_get\<close>) is a parameter \<open>oget\<close> of the definitions that use it. Forging
  (\<open>lv2_atom_forge_\<dots>\<close>) is a parameter too: a function that performs one call on the state of a
  forge and tells whether it returned a reference.
\<close>

section \<open>Atoms\<close>

datatype atom = Atom (atom_type: u32) (atom_body: abody)
  and abody = Bytes "u8 list" | Tuple "atom list" | Object u32 u32 "aprop list"
  and aprop = Prop (prop_key: u32) (prop_value: atom)

definition pad_to8 :: "u8 list \<Rightarrow> u8 list" where
  "pad_to8 bs = bs @ replicate ((length bs + 7) div 8 * 8 - length bs) 0"

definition le32 :: "u32 \<Rightarrow> u8 list" where
  "le32 u = rev (be32 u)"

definition le64 :: "u64 \<Rightarrow> u8 list" where
  "le64 u = rev (be64 u)"

lemma le32_length [simp]: "length (le32 i) = 4"
  by (simp add: le32_def)

lemma le64_length [simp]: "length (le64 i) = 8"
  by (simp add: le64_def)

lemma length_pad_to8 [simp]: "length (pad_to8 bs) = (length bs + 7) div 8 * 8"
proof -
  have "length bs \<le> (length bs + 7) div 8 * 8" by presburger
  then show ?thesis by (simp add: pad_to8_def)
qed

primrec atom_bytes :: "atom \<Rightarrow> u8 list" and body_bytes :: "abody \<Rightarrow> u8 list" and prop_bytes :: "aprop \<Rightarrow> u8 list" where
  "atom_bytes (Atom t b) = le32 (of_nat (length (body_bytes b))) @ le32 t @ pad_to8 (body_bytes b)"
| "body_bytes (Bytes bs) = bs"
| "body_bytes (Tuple as) = concat (map atom_bytes as)"
| "body_bytes (Object i ot ps) = le32 i @ le32 ot @ concat (map prop_bytes ps)"
| "prop_bytes (Prop k a) = le32 k @ le32 0 @ atom_bytes a"

definition atom_size :: "atom \<Rightarrow> u32" where
  "atom_size a = of_nat (length (body_bytes (atom_body a)))"

text \<open>Reading a body through a cast: \<open>((const LV2_Atom_Int *)atom)->body\<close> and the like.\<close>

definition body_u32 :: "atom \<Rightarrow> u32 option" where
  "body_u32 a = (case atom_body a of
     Bytes bs \<Rightarrow> if 4 \<le> length bs then Some (de32 (rev (take 4 bs))) else None | _ \<Rightarrow> None)"

definition body_u64 :: "atom \<Rightarrow> u64 option" where
  "body_u64 a = (case atom_body a of
     Bytes bs \<Rightarrow> if 8 \<le> length bs then Some (de64 (rev (take 8 bs))) else None | _ \<Rightarrow> None)"

text \<open>\<open>LV2_ATOM_BODY_CONST\<close> as a C string: up to the first zero, which must be there.\<close>

definition bytes_str :: "u8 list \<Rightarrow> u8 list option" where
  "bytes_str bs = (if 0 \<in> set bs then Some (takeWhile (\<lambda>b. b \<noteq> 0) bs) else None)"

definition body_str :: "atom \<Rightarrow> u8 list option" where
  "body_str a = (case atom_body a of Bytes bs \<Rightarrow> bytes_str bs | _ \<Rightarrow> None)"

text \<open>A literal's body is its datatype, its language and its text.\<close>

definition literal_datatype :: "atom \<Rightarrow> u32 option" where
  "literal_datatype a = body_u32 a"

definition literal_contents :: "atom \<Rightarrow> u8 list option" where
  "literal_contents a = (case atom_body a of
     Bytes bs \<Rightarrow> if 8 \<le> length bs then Some (drop 8 bs) else None | _ \<Rightarrow> None)"

definition object_otype :: "abody \<Rightarrow> u32 option" where
  "object_otype b = (case b of Object i ot ps \<Rightarrow> Some ot | _ \<Rightarrow> None)"

definition object_props :: "abody \<Rightarrow> aprop list option" where
  "object_props b = (case b of Object i ot ps \<Rightarrow> Some ps | _ \<Rightarrow> None)"

definition tuple_items :: "atom \<Rightarrow> atom list option" where
  "tuple_items a = (case atom_body a of Tuple as \<Rightarrow> Some as | _ \<Rightarrow> None)"

type_synonym object_get = "aprop list \<Rightarrow> u32 \<Rightarrow> atom option"

text \<open>What the documentation says of \<open>lv2_atom_object_get\<close>, for objects that have no key twice.\<close>

definition finds_values :: "object_get \<Rightarrow> bool" where
  "finds_values oget \<longleftrightarrow> (\<forall>ps k. distinct (map prop_key ps) \<longrightarrow>
     oget ps k = map_of (map (\<lambda>p. (prop_key p, prop_value p)) ps) k)"

definition first_value :: object_get where
  "first_value ps k = map_of (map (\<lambda>p. (prop_key p, prop_value p)) ps) k"

lemma finds_first_value [simp]: "finds_values first_value"
  by (simp add: finds_values_def first_value_def)

section \<open>Forging\<close>

datatype fcall =
    FFrameTime u64
  | FObject u32 u32
  | FTuple
  | FSequenceHead u32
  | FKey u32
  | FUrid u32
  | FInt u32
  | FLong u64
  | FFloat u32
  | FDouble u64
  | FBool bool
  | FString "u8 list"
  | FLiteral "u8 list" u32 u32
  | FAtom u32 u32
  | FWrite "u8 list"
  | FRaw "u8 list"
  | FPad u32
  | FPop

type_synonym 'f forge = "fcall \<Rightarrow> 'f \<Rightarrow> bool \<times> 'f"

text \<open>
  A chain \<open>if(ref) ref = call;\<close>: calls are made until one returns no reference. A call whose
  result the code does not keep is \<open>Loose\<close>: the chain goes on as if it had returned one.
\<close>

datatype fstep = Keep fcall | Loose fcall

fun forge_run :: "'f forge \<Rightarrow> fstep list \<Rightarrow> 'f \<Rightarrow> bool \<times> 'f" where
  "forge_run fd [] f = (True, f)"
| "forge_run fd (Keep c # cs) f = (case fd c f of (ok, f1) \<Rightarrow> if ok then forge_run fd cs f1 else (False, f1))"
| "forge_run fd (Loose c # cs) f = (case fd c f of (ok, f1) \<Rightarrow> forge_run fd cs f1)"

text \<open>A forge with room for everything, which keeps the calls made.\<close>

definition recording :: "fcall list forge" where
  "recording c f = (True, f @ [c])"

definition fstep_call :: "fstep \<Rightarrow> fcall" where
  "fstep_call s = (case s of Keep c \<Rightarrow> c | Loose c \<Rightarrow> c)"

lemma forge_run_recording: "forge_run recording cs f = (True, f @ map fstep_call cs)"
  by (induction recording cs f rule: forge_run.induct) (simp_all add: recording_def fstep_call_def)

lemma forge_run_append:
  "forge_run fd (xs @ ys) f = (case forge_run fd xs f of (ok, f1) \<Rightarrow> if ok then forge_run fd ys f1 else (False, f1))"
  by (induction fd xs f rule: forge_run.induct) (auto split: prod.splits)

text \<open>Every container that is opened is closed: the depth of open containers along a list of calls.\<close>

fun opens :: "fcall \<Rightarrow> bool" where
  "opens (FObject _ _) = True"
| "opens FTuple = True"
| "opens (FSequenceHead _) = True"
| "opens _ = False"

fun nesting :: "nat \<Rightarrow> fcall list \<Rightarrow> nat option" where
  "nesting n [] = Some n"
| "nesting n (FPop # cs) = (case n of 0 \<Rightarrow> None | Suc k \<Rightarrow> nesting k cs)"
| "nesting n (c # cs) = nesting (if opens c then Suc n else n) cs"

definition balanced :: "fcall list \<Rightarrow> bool" where
  "balanced cs \<longleftrightarrow> nesting 0 cs = Some 0"

lemma nesting_append: "nesting n (xs @ ys) = (case nesting n xs of None \<Rightarrow> None | Some k \<Rightarrow> nesting k ys)"
  by (induction n xs rule: nesting.induct) (auto split: nat.splits)

end
