(* ===== verification/Osc_Atom.thy ===== *)
theory Osc_Atom
  imports Osc_Util Atom
begin

text \<open>
  OSC packets as LV2 atoms: the table of URIDs of \<open>osc.lv2/osc.lv2/osc.h\<close> and the functions of
  \<open>osc.lv2/osc.lv2/util.h\<close> that take an atom apart. A getter gets the atoms from the current
  one on and returns what it stores and the atoms from the next one on; \<open>None\<close> is reading a
  body as something it is not. \<open>umap\<close> maps a URI, \<open>oget\<close> looks a key up in an object.
\<close>

section \<open>URIDs\<close>

datatype osc_uri =
    LV2_OSC_Packet
  | LV2_OSC_Bundle | LV2_OSC_bundleTimetag | LV2_OSC_bundleItems
  | LV2_OSC_Message | LV2_OSC_messagePath | LV2_OSC_messageArguments
  | LV2_OSC_Timetag_URI | LV2_OSC_timetagIntegral | LV2_OSC_timetagFraction
  | LV2_OSC_Nil | LV2_OSC_Impulse | LV2_OSC_Char | LV2_OSC_RGBA
  | LV2_MIDI_MidiEvent
  | LV2_ATOM_Int | LV2_ATOM_Long | LV2_ATOM_String | LV2_ATOM_Literal | LV2_ATOM_Float | LV2_ATOM_Double
  | LV2_ATOM_URID | LV2_ATOM_Bool | LV2_ATOM_Tuple | LV2_ATOM_Object | LV2_ATOM_Chunk

record lv2_osc_urid =
  u_Packet :: u32
  u_Bundle :: u32
  u_bundleTimetag :: u32
  u_bundleItems :: u32
  u_Message :: u32
  u_messagePath :: u32
  u_messageArguments :: u32
  u_Timetag :: u32
  u_timetagIntegral :: u32
  u_timetagFraction :: u32
  u_Nil :: u32
  u_Impulse :: u32
  u_Char :: u32
  u_RGBA :: u32
  u_MidiEvent :: u32
  u_Int :: u32
  u_Long :: u32
  u_String :: u32
  u_Literal :: u32
  u_Float :: u32
  u_Double :: u32
  u_URID :: u32
  u_Bool :: u32
  u_Tuple :: u32
  u_Object :: u32
  u_Chunk :: u32

definition lv2_osc_urid_init :: "(osc_uri \<Rightarrow> u32) \<Rightarrow> lv2_osc_urid" where
  "lv2_osc_urid_init umap =
     \<lparr>u_Packet = umap LV2_OSC_Packet,
      u_Bundle = umap LV2_OSC_Bundle, u_bundleTimetag = umap LV2_OSC_bundleTimetag,
      u_bundleItems = umap LV2_OSC_bundleItems,
      u_Message = umap LV2_OSC_Message, u_messagePath = umap LV2_OSC_messagePath,
      u_messageArguments = umap LV2_OSC_messageArguments,
      u_Timetag = umap LV2_OSC_Timetag_URI, u_timetagIntegral = umap LV2_OSC_timetagIntegral,
      u_timetagFraction = umap LV2_OSC_timetagFraction,
      u_Nil = umap LV2_OSC_Nil, u_Impulse = umap LV2_OSC_Impulse, u_Char = umap LV2_OSC_Char,
      u_RGBA = umap LV2_OSC_RGBA,
      u_MidiEvent = umap LV2_MIDI_MidiEvent,
      u_Int = umap LV2_ATOM_Int, u_Long = umap LV2_ATOM_Long, u_String = umap LV2_ATOM_String,
      u_Literal = umap LV2_ATOM_Literal, u_Float = umap LV2_ATOM_Float, u_Double = umap LV2_ATOM_Double,
      u_URID = umap LV2_ATOM_URID, u_Bool = umap LV2_ATOM_Bool, u_Tuple = umap LV2_ATOM_Tuple,
      u_Object = umap LV2_ATOM_Object, u_Chunk = umap LV2_ATOM_Chunk\<rparr>"

text \<open>The host maps different URIs to different numbers: the atom types are then distinguishable.\<close>

definition types_of :: "lv2_osc_urid \<Rightarrow> u32 list" where
  "types_of u = [u_Int u, u_Float u, u_String u, u_Chunk u, u_Long u, u_Double u, u_Object u, u_Bool u,
     u_Literal u, u_URID u, u_MidiEvent u, u_Tuple u]"

definition proper_urid :: "lv2_osc_urid \<Rightarrow> bool" where
  "proper_urid u \<longleftrightarrow> distinct (types_of u) \<and> distinct [u_Nil u, u_Impulse u, u_Char u, u_RGBA u] \<and>
     u_Bundle u \<noteq> u_Message u \<and> u_bundleTimetag u \<noteq> u_bundleItems u \<and>
     u_messagePath u \<noteq> u_messageArguments u \<and> u_timetagIntegral u \<noteq> u_timetagFraction u"

lemma proper_urid_init: "inj umap \<Longrightarrow> proper_urid (lv2_osc_urid_init umap)"
  by (simp add: proper_urid_def types_of_def lv2_osc_urid_init_def inj_eq)

section \<open>Types\<close>

definition lv2_osc_is_packet_type :: "lv2_osc_urid \<Rightarrow> u32 \<Rightarrow> bool" where
  "lv2_osc_is_packet_type u t \<longleftrightarrow> t = u_Packet u"

definition lv2_osc_is_bundle_type :: "lv2_osc_urid \<Rightarrow> u32 \<Rightarrow> bool" where
  "lv2_osc_is_bundle_type u t \<longleftrightarrow> t = u_Bundle u"

definition lv2_osc_is_message_type :: "lv2_osc_urid \<Rightarrow> u32 \<Rightarrow> bool" where
  "lv2_osc_is_message_type u t \<longleftrightarrow> t = u_Message u"

definition lv2_osc_is_message_or_bundle_type :: "lv2_osc_urid \<Rightarrow> u32 \<Rightarrow> bool" where
  "lv2_osc_is_message_or_bundle_type u t \<longleftrightarrow> lv2_osc_is_message_type u t \<or> lv2_osc_is_bundle_type u t"

text \<open>\<open>Fail\<close> is the type \<open>'\0'\<close> of an atom that is no OSC argument.\<close>

definition lv2_osc_argument_type :: "lv2_osc_urid \<Rightarrow> atom \<Rightarrow> lv2_osc_type result" where
  "lv2_osc_argument_type u a =
     (let t = atom_type a in
      if t = u_Int u then Ok OSC_INT32
      else if t = u_Float u then Ok OSC_FLOAT
      else if t = u_String u then Ok OSC_STRING
      else if t = u_Chunk u then Ok OSC_BLOB
      else if t = u_Long u then Ok OSC_INT64
      else if t = u_Double u then Ok OSC_DOUBLE
      else if t = u_Object u \<and> object_otype (atom_body a) = None then Fault
      else if t = u_Object u \<and> object_otype (atom_body a) = Some (u_Timetag u) then Ok OSC_TIMETAG
      else if t = u_Bool u then
        (case body_u32 a of None \<Rightarrow> Fault | Some b \<Rightarrow> Ok (if b \<noteq> 0 then OSC_TRUE else OSC_FALSE))
      else if t = u_Literal u then
        (case literal_datatype a of
           None \<Rightarrow> Fault
         | Some d \<Rightarrow>
             if d = u_Nil u then Ok OSC_NIL
             else if d = u_Impulse u then Ok OSC_IMPULSE
             else if d = u_Char u then Ok OSC_CHAR
             else if d = u_RGBA u then Ok OSC_RGBA
             else Fail)
      else if t = u_URID u then Ok OSC_SYMBOL
      else if t = u_MidiEvent u then Ok OSC_MIDI
      else Fail)"

section \<open>Getters\<close>

type_synonym 'a getter = "atom list \<Rightarrow> ('a \<times> atom list) option"

definition tuple_get :: "(atom \<Rightarrow> 'a option) \<Rightarrow> 'a getter" where
  "tuple_get f as = (case as of [] \<Rightarrow> None | a # rest \<Rightarrow> map_option (\<lambda>v. (v, rest)) (f a))"

definition raw_body :: "atom \<Rightarrow> u8 list option" where
  "raw_body a = (case atom_body a of Bytes bs \<Rightarrow> Some bs | _ \<Rightarrow> None)"

definition lv2_osc_int32_get :: "u32 getter" where
  "lv2_osc_int32_get = tuple_get body_u32"

definition lv2_osc_float_get :: "u32 getter" where
  "lv2_osc_float_get = tuple_get body_u32"

definition lv2_osc_string_get :: "u8 list getter" where
  "lv2_osc_string_get = tuple_get raw_body"

definition lv2_osc_blob_get :: "(u32 \<times> u8 list) getter" where
  "lv2_osc_blob_get = tuple_get (\<lambda>a. map_option (Pair (atom_size a)) (raw_body a))"

definition lv2_osc_int64_get :: "u64 getter" where
  "lv2_osc_int64_get = tuple_get body_u64"

definition lv2_osc_double_get :: "u64 getter" where
  "lv2_osc_double_get = tuple_get body_u64"

text \<open>A time tag whose parts are missing or of another type is the immediate one.\<close>

definition timetag_of :: "lv2_osc_urid \<Rightarrow> object_get \<Rightarrow> atom \<Rightarrow> lv2_osc_timetag option" where
  "timetag_of u oget a =
     (case object_props (atom_body a) of
        None \<Rightarrow> None
      | Some ps \<Rightarrow>
          (case (oget ps (u_timetagIntegral u), oget ps (u_timetagFraction u)) of
             (Some i, Some f) \<Rightarrow>
               if atom_type i = u_Long u \<and> atom_type f = u_Long u
               then (case (body_u64 i, body_u64 f) of
                   (Some x, Some y) \<Rightarrow> Some \<lparr>integral = ucast x, fraction = ucast y\<rparr>
                 | _ \<Rightarrow> None)
               else Some \<lparr>integral = 0, fraction = 1\<rparr>
           | _ \<Rightarrow> Some \<lparr>integral = 0, fraction = 1\<rparr>))"

definition lv2_osc_timetag_get :: "lv2_osc_urid \<Rightarrow> object_get \<Rightarrow> lv2_osc_timetag getter" where
  "lv2_osc_timetag_get u oget = tuple_get (timetag_of u oget)"

definition skip_atom :: "unit getter" where
  "skip_atom = tuple_get (\<lambda>_. Some ())"

definition lv2_osc_true_get :: "unit getter" where "lv2_osc_true_get = skip_atom"
definition lv2_osc_false_get :: "unit getter" where "lv2_osc_false_get = skip_atom"
definition lv2_osc_nil_get :: "unit getter" where "lv2_osc_nil_get = skip_atom"
definition lv2_osc_impulse_get :: "unit getter" where "lv2_osc_impulse_get = skip_atom"

definition lv2_osc_symbol_get :: "u32 getter" where
  "lv2_osc_symbol_get = tuple_get body_u32"

definition lv2_osc_midi_get :: "(u32 \<times> u8 list) getter" where
  "lv2_osc_midi_get = tuple_get (\<lambda>a. map_option (Pair (atom_size a)) (raw_body a))"

definition char_of_literal :: "atom \<Rightarrow> u8 option" where
  "char_of_literal a = (case literal_contents a of Some (c # _) \<Rightarrow> Some c | _ \<Rightarrow> None)"

definition lv2_osc_char_get :: "u8 getter" where
  "lv2_osc_char_get = tuple_get char_of_literal"

text \<open>
  \<open>strtol\<close> in base 16 on \<open>0x\<close> and two characters: the digits there are, up to the first
  character that is none.
\<close>

definition hex_digit :: "u8 \<Rightarrow> u8 option" where
  "hex_digit c =
     (if c8 CHR ''0'' \<le> c \<and> c \<le> c8 CHR ''9'' then Some (c - c8 CHR ''0'')
      else if c8 CHR ''a'' \<le> c \<and> c \<le> c8 CHR ''f'' then Some (c - c8 CHR ''a'' + 10)
      else if c8 CHR ''A'' \<le> c \<and> c \<le> c8 CHR ''F'' then Some (c - c8 CHR ''A'' + 10)
      else None)"

definition strtol_hex2 :: "u8 \<Rightarrow> u8 \<Rightarrow> u8" where
  "strtol_hex2 c d =
     (case hex_digit c of
        None \<Rightarrow> 0
      | Some x \<Rightarrow> (case hex_digit d of None \<Rightarrow> x | Some y \<Rightarrow> 16 * x + y))"

fun rgba_of_text :: "u8 list \<Rightarrow> u8 list option" where
  "rgba_of_text (a # b # c # d # e # f # g # h # _) =
     Some [strtol_hex2 a b, strtol_hex2 c d, strtol_hex2 e f, strtol_hex2 g h]"
| "rgba_of_text _ = None"

definition lv2_osc_rgba_get :: "u8 list getter" where
  "lv2_osc_rgba_get = tuple_get (\<lambda>a. Option.bind (literal_contents a) rgba_of_text)"

section \<open>Bundles and messages\<close>

text \<open>What the getters of a bundle and of a message hand back; \<open>Fail\<close> is the result \<open>false\<close>.\<close>

definition lv2_osc_bundle_body_get :: "lv2_osc_urid \<Rightarrow> object_get \<Rightarrow> abody \<Rightarrow> (atom \<times> atom) result" where
  "lv2_osc_bundle_body_get u oget body =
     (case object_props body of
        None \<Rightarrow> Fault
      | Some ps \<Rightarrow>
          (case oget ps (u_bundleTimetag u) of
             None \<Rightarrow> Fail
           | Some tt \<Rightarrow>
               if atom_type tt \<noteq> u_Object u then Fail
               else (case object_otype (atom_body tt) of
                   None \<Rightarrow> Fault
                 | Some ot \<Rightarrow>
                     if ot \<noteq> u_Timetag u then Fail
                     else (case oget ps (u_bundleItems u) of
                         None \<Rightarrow> Fail
                       | Some items \<Rightarrow> if atom_type items \<noteq> u_Tuple u then Fail else Ok (tt, items)))))"

definition lv2_osc_bundle_get :: "lv2_osc_urid \<Rightarrow> object_get \<Rightarrow> atom \<Rightarrow> (atom \<times> atom) result" where
  "lv2_osc_bundle_get u oget obj = lv2_osc_bundle_body_get u oget (atom_body obj)"

definition lv2_osc_message_body_get :: "lv2_osc_urid \<Rightarrow> object_get \<Rightarrow> abody \<Rightarrow> (atom \<times> atom option) result" where
  "lv2_osc_message_body_get u oget body =
     (case object_props body of
        None \<Rightarrow> Fault
      | Some ps \<Rightarrow>
          (case oget ps (u_messagePath u) of
             None \<Rightarrow> Fail
           | Some path \<Rightarrow>
               if atom_type path \<noteq> u_String u then Fail
               else (case oget ps (u_messageArguments u) of
                   None \<Rightarrow> Ok (path, None)
                 | Some args \<Rightarrow> if atom_type args \<noteq> u_Tuple u then Fail else Ok (path, Some args))))"

definition lv2_osc_message_get :: "lv2_osc_urid \<Rightarrow> object_get \<Rightarrow> atom \<Rightarrow> (atom \<times> atom option) result" where
  "lv2_osc_message_get u oget obj = lv2_osc_message_body_get u oget (atom_body obj)"

section \<open>Unrolling\<close>

text \<open>
  \<open>lv2_osc_body_unroll\<close> calls the method, if there is one, on every message of a packet. The
  recursion goes through what \<open>oget\<close> finds, so it runs on fuel; \<open>None\<close> is running out of it.
  \<open>unroll_items\<close> is the loop over the items of a bundle.
\<close>

type_synonym 's lv2_osc_method = "u8 list \<Rightarrow> atom option \<Rightarrow> 's \<Rightarrow> 's"

fun lv2_osc_body_unroll :: "nat \<Rightarrow> lv2_osc_urid \<Rightarrow> object_get \<Rightarrow> abody \<Rightarrow> 's lv2_osc_method option \<Rightarrow> 's
      \<Rightarrow> (unit result \<times> 's) option"
  and unroll_items :: "nat \<Rightarrow> lv2_osc_urid \<Rightarrow> object_get \<Rightarrow> atom list \<Rightarrow> 's lv2_osc_method option \<Rightarrow> 's
      \<Rightarrow> (unit result \<times> 's) option" where
  "lv2_osc_body_unroll 0 u oget body meth s = None"
| "lv2_osc_body_unroll (Suc n) u oget body meth s =
     (case object_otype body of
        None \<Rightarrow> Some (Fault, s)
      | Some ot \<Rightarrow>
          if ot = u_Bundle u then
            (case lv2_osc_bundle_body_get u oget body of
               Fault \<Rightarrow> Some (Fault, s)
             | Fail \<Rightarrow> Some (Fail, s)
             | Ok (tt, items) \<Rightarrow>
                 (case (timetag_of u oget tt, tuple_items items) of
                    (Some _, Some as) \<Rightarrow> unroll_items n u oget as meth s
                  | _ \<Rightarrow> Some (Fault, s)))
          else if ot = u_Message u then
            (case lv2_osc_message_body_get u oget body of
               Fault \<Rightarrow> Some (Fault, s)
             | Fail \<Rightarrow> Some (Fail, s)
             | Ok (path, args) \<Rightarrow>
                 (case raw_body path of
                    None \<Rightarrow> Some (Fault, s)
                  | Some p \<Rightarrow> Some (Ok (), case meth of None \<Rightarrow> s | Some f \<Rightarrow> f p args s)))
          else Some (Fail, s))"
| "unroll_items n u oget [] meth s = Some (Ok (), s)"
| "unroll_items 0 u oget (a # as) meth s = None"
| "unroll_items (Suc n) u oget (a # as) meth s =
     (case lv2_osc_body_unroll n u oget (atom_body a) meth s of
        None \<Rightarrow> None
      | Some (Ok _, s') \<Rightarrow> unroll_items n u oget as meth s'
      | Some (Fail, s') \<Rightarrow> Some (Fail, s')
      | Some (Fault, s') \<Rightarrow> Some (Fault, s'))"

definition lv2_osc_unroll :: "nat \<Rightarrow> lv2_osc_urid \<Rightarrow> object_get \<Rightarrow> atom \<Rightarrow> 's lv2_osc_method option \<Rightarrow> 's
    \<Rightarrow> (unit result \<times> 's) option" where
  "lv2_osc_unroll n u oget obj meth s = lv2_osc_body_unroll n u oget (atom_body obj) meth s"

end
