(* ===== verification/Osc_Writer.thy ===== *)
theory Osc_Writer
  imports Osc_Util
begin

text \<open>
  \<open>osc.lv2/osc.lv2/writer.h\<close>: the writer that serialises OSC packets into a buffer it is
  given. Its state is the memory and the three pointers of \<open>LV2_OSC_Writer\<close>; every operation
  is the C function of that name. The locale \<open>writer_op\<close> states what all of them promise:
  on a buffer with room, the bytes of the encoding are appended and nothing else changes;
  without room the call fails and everything stays inside the buffer.
\<close>

section \<open>The writer and its operations\<close>

record osc_writer =
  wbuf :: addr
  wptr :: addr
  wend :: addr

type_synonym wstate = "mem \<times> osc_writer"

definition lv2_osc_writer_initialize :: "addr \<Rightarrow> u64 \<Rightarrow> osc_writer" where
  "lv2_osc_writer_initialize buf sz = \<lparr>wbuf = buf, wptr = buf, wend = buf + sz\<rparr>"

definition lv2_osc_writer_get_size :: "osc_writer \<Rightarrow> u64" where
  "lv2_osc_writer_get_size w = (if wptr w > wbuf w then wptr w - wbuf w else 0)"

definition lv2_osc_writer_finalize :: "osc_writer \<Rightarrow> u64 \<times> addr option" where
  "lv2_osc_writer_finalize w =
     (let sz = lv2_osc_writer_get_size w in (sz, if sz \<noteq> 0 then Some (wbuf w) else None))"

definition lv2_osc_writer_overflow :: "osc_writer \<Rightarrow> u64 \<Rightarrow> bool" where
  "lv2_osc_writer_overflow w sz \<longleftrightarrow> wptr w + sz \<ge> wend w"

text \<open>A store through a pointer, which keeps the writer's own fields.\<close>

definition w_store :: "addr \<Rightarrow> u8 list \<Rightarrow> (unit, wstate) call" where
  "w_store a bs = (\<lambda>(m, w). case st m a bs of None \<Rightarrow> (Fault, (m, w)) | Some m' \<Rightarrow> (Ok (), (m', w)))"

definition w_advance :: "u64 \<Rightarrow> (unit, wstate) call" where
  "w_advance n = (\<lambda>(m, w). (Ok (), (m, w\<lparr>wptr := wptr w + n\<rparr>)))"

definition w_check :: "u64 \<Rightarrow> (addr, wstate) call" where
  "w_check n = (\<lambda>(m, w). if lv2_osc_writer_overflow w n then (Fail, (m, w)) else (Ok (wptr w), (m, w)))"

definition lv2_osc_writer_htobe32 :: "u32 \<Rightarrow> (unit, wstate) call" where
  "lv2_osc_writer_htobe32 u =
     call_bind (w_check 4) (\<lambda>p.
     call_bind (w_store p (rev (be32 (htobe32 u)))) (\<lambda>_.
     w_advance 4))"

definition lv2_osc_writer_htobe64 :: "u64 \<Rightarrow> (unit, wstate) call" where
  "lv2_osc_writer_htobe64 u =
     call_bind (w_check 8) (\<lambda>p.
     call_bind (w_store p (rev (be64 (htobe64 u)))) (\<lambda>_.
     w_advance 8))"

definition lv2_osc_writer_add_int32 :: "u32 \<Rightarrow> (unit, wstate) call" where
  "lv2_osc_writer_add_int32 i = lv2_osc_writer_htobe32 i"

definition lv2_osc_writer_add_float :: "u32 \<Rightarrow> (unit, wstate) call" where
  "lv2_osc_writer_add_float f = lv2_osc_writer_htobe32 f"

definition lv2_osc_writer_add_string :: "u8 list \<Rightarrow> (unit, wstate) call" where
  "lv2_osc_writer_add_string s =
     (let rawlen = of_nat (length s + 1); padded = lv2_osc_padded_size rawlen in
      call_bind (w_check padded) (\<lambda>p.
      call_bind (w_store (p + padded - 4) [0, 0, 0, 0]) (\<lambda>_.
      call_bind (w_store p (s @ [0])) (\<lambda>_.
      w_advance padded))))"

definition lv2_osc_writer_add_symbol :: "u8 list \<Rightarrow> (unit, wstate) call" where
  "lv2_osc_writer_add_symbol s = lv2_osc_writer_add_string s"

definition lv2_osc_writer_add_int64 :: "u64 \<Rightarrow> (unit, wstate) call" where
  "lv2_osc_writer_add_int64 h = lv2_osc_writer_htobe64 h"

definition lv2_osc_writer_add_double :: "u64 \<Rightarrow> (unit, wstate) call" where
  "lv2_osc_writer_add_double d = lv2_osc_writer_htobe64 d"

definition lv2_osc_writer_add_timetag :: "u64 \<Rightarrow> (unit, wstate) call" where
  "lv2_osc_writer_add_timetag t = lv2_osc_writer_htobe64 t"

definition lv2_osc_writer_add_blob_inline :: "u32 \<Rightarrow> (addr, wstate) call" where
  "lv2_osc_writer_add_blob_inline len =
     (let len_padded = lv2_osc_padded_size (scast len) in
      call_bind (w_check (4 + len_padded)) (\<lambda>_.
      call_bind (lv2_osc_writer_add_int32 len) (\<lambda>_ (m, w).
        (Ok (wptr w), (m, w\<lparr>wptr := wptr w + len_padded\<rparr>)))))"

text \<open>
  \<open>memcpy(dst, body, len)\<close> with \<open>len\<close> converted to \<open>size_t\<close>, a negative one to a huge one;
  copying more than the source object holds is undefined.
\<close>

definition w_memcpy :: "addr \<Rightarrow> u8 list \<Rightarrow> u32 \<Rightarrow> (unit, wstate) call" where
  "w_memcpy dst body len =
     (let n = unat (scast len :: u64) in
      if length body < n then (\<lambda>s. (Fault, s)) else w_store dst (take n body))"

definition lv2_osc_writer_add_blob :: "u32 \<Rightarrow> u8 list \<Rightarrow> (unit, wstate) call" where
  "lv2_osc_writer_add_blob len body =
     call_bind (lv2_osc_writer_add_blob_inline len) (\<lambda>dst. w_memcpy dst body len)"

definition lv2_osc_writer_add_midi_inline :: "u32 \<Rightarrow> (addr, wstate) call" where
  "lv2_osc_writer_add_midi_inline len =
     (if sint len > 4 then (\<lambda>s. (Fail, s))
      else call_bind (w_check 4) (\<lambda>p. call_bind (w_advance 4) (\<lambda>_ s. (Ok p, s))))"

definition lv2_osc_writer_add_midi :: "u32 \<Rightarrow> u8 list \<Rightarrow> (unit, wstate) call" where
  "lv2_osc_writer_add_midi len m =
     call_bind (lv2_osc_writer_add_midi_inline len) (\<lambda>dst. w_memcpy dst m len)"

definition lv2_osc_writer_add_rgba :: "u8 \<Rightarrow> u8 \<Rightarrow> u8 \<Rightarrow> u8 \<Rightarrow> (unit, wstate) call" where
  "lv2_osc_writer_add_rgba r g b a =
     call_bind (w_check 4) (\<lambda>p.
     call_bind (w_store p [r, g, b, a]) (\<lambda>_.
     w_advance 4))"

definition lv2_osc_writer_add_char :: "u8 \<Rightarrow> (unit, wstate) call" where
  "lv2_osc_writer_add_char c = lv2_osc_writer_add_int32 (scast c)"

definition bundle_tag :: "u8 list" where
  "bundle_tag = cstr ''#bundle'' @ [0]"

text \<open>A frame is the pointer \<open>frame->ref\<close> the push returns.\<close>

definition lv2_osc_writer_push_bundle :: "u64 \<Rightarrow> (addr, wstate) call" where
  "lv2_osc_writer_push_bundle t =
     call_bind (w_check 16) (\<lambda>ref.
     call_bind (w_store ref bundle_tag) (\<lambda>_.
     call_bind (w_advance 8) (\<lambda>_.
     call_bind (lv2_osc_writer_add_timetag t) (\<lambda>_ s. (Ok ref, s)))))"

definition lv2_osc_writer_pop_bundle :: "addr \<Rightarrow> (unit, wstate) call" where
  "lv2_osc_writer_pop_bundle ref = (\<lambda>(m, w).
     let i = ucast (wptr w - ref - 16) :: u32 in
     if sint i \<le> 0 then (Fail, (m, w\<lparr>wptr := ref\<rparr>)) else (Ok (), (m, w)))"

definition lv2_osc_writer_push_item :: "(addr, wstate) call" where
  "lv2_osc_writer_push_item =
     call_bind (w_check 4) (\<lambda>ref. call_bind (w_advance 4) (\<lambda>_ s. (Ok ref, s)))"

definition lv2_osc_writer_pop_item :: "addr \<Rightarrow> (unit, wstate) call" where
  "lv2_osc_writer_pop_item ref = (\<lambda>(m, w).
     let i = ucast (wptr w - ref - 4) :: u32 in
     if sint i \<le> 0 then (Fail, (m, w\<lparr>wptr := ref\<rparr>))
     else w_store ref (rev (be32 (htobe32 i))) (m, w))"

definition lv2_osc_writer_add_path :: "u8 list \<Rightarrow> (unit, wstate) call" where
  "lv2_osc_writer_add_path path = lv2_osc_writer_add_string path"

definition lv2_osc_writer_add_format :: "u8 list \<Rightarrow> (unit, wstate) call" where
  "lv2_osc_writer_add_format fmt =
     (let rawlen = of_nat (length fmt + 1); padded = lv2_osc_padded_size (rawlen + 1) in
      call_bind (w_check padded) (\<lambda>p.
      call_bind (w_store (p + padded - 4) [0, 0, 0, 0]) (\<lambda>_.
      call_bind (w_store p [comma]) (\<lambda>_.
      call_bind (w_advance 1) (\<lambda>_.
      call_bind (w_store (p + 1) (fmt @ [0])) (\<lambda>_.
      w_advance (padded - 1)))))))"

text \<open>
  The variable arguments of a call, each as the type \<open>va_arg\<close> reads it with; \<open>VaBytes\<close> is a
  pointer with the bytes it points to. Reading another type than was passed, or more
  arguments than were passed, is undefined. \<open>d2f\<close> is the conversion from \<open>double\<close> to \<open>float\<close>.
\<close>

datatype va = VaInt u32 | VaLong u64 | VaDouble u64 | VaUnsigned u32 | VaBytes "u8 list"

abbreviation w_fault :: "(unit, wstate) call" where
  "w_fault \<equiv> (\<lambda>s. (Fault, s))"

fun lv2_osc_writer_arg_varlist :: "(u64 \<Rightarrow> u32) \<Rightarrow> u8 list \<Rightarrow> va list \<Rightarrow> (unit, wstate) call" where
  "lv2_osc_writer_arg_varlist d2f [] args = (\<lambda>s. (Ok (), s))"
| "lv2_osc_writer_arg_varlist d2f (c # fmt) args =
     (let next = (\<lambda>call rest. call_bind call (\<lambda>_. lv2_osc_writer_arg_varlist d2f fmt rest)) in
      case type_of_char c of
        None \<Rightarrow> lv2_osc_writer_arg_varlist d2f fmt args
      | Some OSC_INT32 \<Rightarrow>
          (case args of VaInt i # r \<Rightarrow> next (lv2_osc_writer_add_int32 i) r | _ \<Rightarrow> w_fault)
      | Some OSC_FLOAT \<Rightarrow>
          (case args of VaDouble d # r \<Rightarrow> next (lv2_osc_writer_add_float (d2f d)) r | _ \<Rightarrow> w_fault)
      | Some OSC_STRING \<Rightarrow>
          (case args of VaBytes s # r \<Rightarrow> next (lv2_osc_writer_add_string s) r | _ \<Rightarrow> w_fault)
      | Some OSC_BLOB \<Rightarrow>
          (case args of VaInt len # VaBytes b # r \<Rightarrow> next (lv2_osc_writer_add_blob len b) r | _ \<Rightarrow> w_fault)
      | Some OSC_TRUE \<Rightarrow> lv2_osc_writer_arg_varlist d2f fmt args
      | Some OSC_FALSE \<Rightarrow> lv2_osc_writer_arg_varlist d2f fmt args
      | Some OSC_NIL \<Rightarrow> lv2_osc_writer_arg_varlist d2f fmt args
      | Some OSC_IMPULSE \<Rightarrow> lv2_osc_writer_arg_varlist d2f fmt args
      | Some OSC_INT64 \<Rightarrow>
          (case args of VaLong h # r \<Rightarrow> next (lv2_osc_writer_add_int64 h) r | _ \<Rightarrow> w_fault)
      | Some OSC_DOUBLE \<Rightarrow>
          (case args of VaDouble d # r \<Rightarrow> next (lv2_osc_writer_add_double d) r | _ \<Rightarrow> w_fault)
      | Some OSC_TIMETAG \<Rightarrow>
          (case args of VaLong t # r \<Rightarrow> next (lv2_osc_writer_add_timetag t) r | _ \<Rightarrow> w_fault)
      | Some OSC_MIDI \<Rightarrow>
          (case args of VaInt len # VaBytes m # r \<Rightarrow> next (lv2_osc_writer_add_midi len m) r | _ \<Rightarrow> w_fault)
      | Some OSC_SYMBOL \<Rightarrow>
          (case args of VaBytes s # r \<Rightarrow> next (lv2_osc_writer_add_symbol s) r | _ \<Rightarrow> w_fault)
      | Some OSC_CHAR \<Rightarrow>
          (case args of VaInt i # r \<Rightarrow> next (lv2_osc_writer_add_char (ucast i)) r | _ \<Rightarrow> w_fault)
      | Some OSC_RGBA \<Rightarrow>
          (case args of VaUnsigned r # VaUnsigned g # VaUnsigned b # VaUnsigned a # rest \<Rightarrow>
             next (lv2_osc_writer_add_rgba (ucast r) (ucast g) (ucast b) (ucast a)) rest
           | _ \<Rightarrow> w_fault))"

definition lv2_osc_writer_arg_vararg :: "(u64 \<Rightarrow> u32) \<Rightarrow> u8 list \<Rightarrow> va list \<Rightarrow> (unit, wstate) call" where
  "lv2_osc_writer_arg_vararg d2f fmt args = lv2_osc_writer_arg_varlist d2f fmt args"

definition lv2_osc_writer_message_varlist ::
    "(u64 \<Rightarrow> u32) \<Rightarrow> u8 list \<Rightarrow> u8 list \<Rightarrow> va list \<Rightarrow> (unit, wstate) call" where
  "lv2_osc_writer_message_varlist d2f path fmt args =
     call_bind (lv2_osc_writer_add_path path) (\<lambda>_.
     call_bind (lv2_osc_writer_add_format fmt) (\<lambda>_.
     lv2_osc_writer_arg_varlist d2f fmt args))"

definition lv2_osc_writer_message_vararg ::
    "(u64 \<Rightarrow> u32) \<Rightarrow> u8 list \<Rightarrow> u8 list \<Rightarrow> va list \<Rightarrow> (unit, wstate) call" where
  "lv2_osc_writer_message_vararg d2f path fmt args = lv2_osc_writer_message_varlist d2f path fmt args"

section \<open>The contract of the writer's operations\<close>

text \<open>
  \<open>wview s out rest\<close>: the buffer holds \<open>out\<close>, what has been written, and then \<open>rest\<close>, the
  room left with whatever bytes are in it. The buffer ends at least 8 GiB below the top of
  the address space, so adding a size to a pointer does not wrap for any 32 bit size.
\<close>

definition wview :: "wstate \<Rightarrow> u8 list \<Rightarrow> u8 list \<Rightarrow> bool" where
  "wview s out rest \<longleftrightarrow> (case s of (m, w) \<Rightarrow>
     mem_at m (wbuf w) (out @ rest) \<and>
     wptr w = wbuf w + of_nat (length out) \<and>
     wend w = wbuf w + of_nat (length (out @ rest)) \<and>
     unat (wbuf w) + length (out @ rest) + 2 ^ 33 \<le> 2 ^ 64)"

definition wsame :: "wstate \<Rightarrow> wstate \<Rightarrow> bool" where
  "wsame s s' \<longleftrightarrow> (case (s, s') of ((m, w), (m', w')) \<Rightarrow>
     wbuf w' = wbuf w \<and> wend w' = wend w \<and>
     (\<forall>x. unat (wend w - wbuf w) \<le> unat (x - wbuf w) \<longrightarrow> m' x = m x))"

lemma wsame_refl [simp]: "wsame s s"
  by (cases s) (simp add: wsame_def)

lemma wsame_trans: "wsame s t \<Longrightarrow> wsame t u \<Longrightarrow> wsame s u"
  by (cases s; cases t; cases u) (auto simp: wsame_def)

lemma overflow_view:
  assumes "wview (m, w) out rest" and "unat n \<le> 2 ^ 33 - 1"
  shows "lv2_osc_writer_overflow w n \<longleftrightarrow> length rest \<le> unat n"
proof -
  have bound: "unat (wbuf w) + length out + length rest + 2 ^ 33 \<le> 2 ^ 64"
    using assms by (simp add: wview_def)
  then have "unat (wptr w) = unat (wbuf w) + length out"
    using assms by (simp add: wview_def unat_word_ariths)
  then have "unat (wptr w + n) = unat (wbuf w) + length out + unat n"
    using assms(2) bound by (simp add: unat_word_ariths)
  moreover have "unat (wend w) = unat (wbuf w) + length out + length rest"
    using assms bound by (simp add: wview_def unat_word_ariths flip: of_nat_add)
  ultimately show ?thesis
    by (auto simp: lv2_osc_writer_overflow_def word_le_nat_alt)
qed

lemma w_check_view [view_simps]:
  assumes "wview s out rest" and "unat n \<le> 2 ^ 33 - 1"
  shows "w_check n s = (if length rest \<le> unat n then (Fail, s) else (Ok (wptr (snd s)), s))"
  using assms by (cases s) (simp add: w_check_def overflow_view)

text \<open>Storing at distance \<open>k\<close> from the write pointer.\<close>

lemma w_store_view:
  assumes "wview (m, w) out rest" and "k + length bs \<le> length rest"
  shows "\<exists>m'. w_store (wptr w + of_nat k) bs (m, w) = (Ok (), (m', w)) \<and>
    wview (m', w) out (take k rest @ bs @ drop (k + length bs) rest) \<and> wsame (m, w) (m', w)"
proof -
  let ?xs = "out @ take k rest" and ?ys = "take (length bs) (drop k rest)"
    and ?zs = "drop (k + length bs) rest"
  have parts: "?xs @ ?ys @ ?zs = out @ rest"
    by (metis append.assoc append_take_drop_id drop_drop add.commute)
  have lens: "length ?ys = length bs" "length ?xs = length out + k"
    using assms(2) by simp_all
  have bound: "length (?xs @ ?ys @ ?zs) < 2 ^ 64"
    using assms(1) unfolding parts by (simp add: wview_def)
  have "mem_at m (wbuf w) (?xs @ ?ys @ ?zs)"
    using assms(1) unfolding parts by (simp add: wview_def)
  from st_region [OF this lens(1) [symmetric] bound] obtain m' where
    m': "st m (wbuf w + of_nat (length ?xs)) bs = Some m'"
      "mem_at m' (wbuf w) (?xs @ bs @ ?zs)"
      "\<forall>x. length (out @ rest) \<le> unat (x - wbuf w) \<longrightarrow> m' x = m x"
    unfolding parts by blast
  have "wptr w + of_nat k = wbuf w + of_nat (length ?xs)"
    using assms(1) lens by (simp add: wview_def)
  then have "w_store (wptr w + of_nat k) bs (m, w) = (Ok (), (m', w))"
    using m'(1) by (simp add: w_store_def)
  moreover have "wview (m', w) out (take k rest @ bs @ ?zs)"
    using assms m'(2) by (simp add: wview_def)
  moreover have "wsame (m, w) (m', w)"
    using assms(1) m'(3) by (simp add: wsame_def wview_def flip: of_nat_add)
  ultimately show ?thesis by blast
qed

text \<open>Storing in the part already written, which a popped item does.\<close>

lemma w_store_written:
  assumes "wview (m, w) (xs @ ys @ zs) rest" and "length bs = length ys"
  shows "\<exists>m'. w_store (wbuf w + of_nat (length xs)) bs (m, w) = (Ok (), (m', w)) \<and>
    wview (m', w) (xs @ bs @ zs) rest \<and> wsame (m, w) (m', w)"
proof -
  have "mem_at m (wbuf w) (xs @ ys @ (zs @ rest))"
    using assms(1) by (simp add: wview_def)
  moreover have "length (xs @ ys @ (zs @ rest)) < 2 ^ 64"
    using assms(1) by (simp add: wview_def)
  ultimately obtain m' where
    m': "st m (wbuf w + of_nat (length xs)) bs = Some m'"
      "mem_at m' (wbuf w) (xs @ bs @ (zs @ rest))"
      "\<forall>x. length (xs @ ys @ (zs @ rest)) \<le> unat (x - wbuf w) \<longrightarrow> m' x = m x"
    using st_region [of m "wbuf w" xs ys "zs @ rest" bs] assms(2) by blast
  have "wview (m', w) (xs @ bs @ zs) rest"
    using assms m'(2) by (simp add: wview_def)
  moreover have "wsame (m, w) (m', w)"
  proof -
    have "unat (wend w - wbuf w) = length (xs @ ys @ (zs @ rest))"
      using assms(1) by (simp add: wview_def flip: of_nat_add)
    then show ?thesis using m'(3) by (simp add: wsame_def)
  qed
  ultimately show ?thesis using m'(1) by (simp add: w_store_def)
qed

lemma w_advance_view:
  assumes "wview (m, w) out rest" and "n \<le> length rest"
  shows "w_advance (of_nat n) (m, w) = (Ok (), (m, w\<lparr>wptr := wptr w + of_nat n\<rparr>)) \<and>
    wview (m, w\<lparr>wptr := wptr w + of_nat n\<rparr>) (out @ take n rest) (drop n rest) \<and>
    wsame (m, w) (m, w\<lparr>wptr := wptr w + of_nat n\<rparr>)"
  using assms mem_at_split [of m "wbuf w + of_nat (length out)" rest n]
  by (simp add: w_advance_def wview_def wsame_def algebra_simps)

definition fits :: "nat \<Rightarrow> u8 list \<Rightarrow> bool" where
  "fits n rest \<longleftrightarrow> n < length rest \<or> n = 0"

locale writer_op =
  fixes oper :: "(unit, wstate) call" and enc :: "u8 list \<Rightarrow> u8 list"
  assumes room: "wview s out rest \<Longrightarrow> fits (length (enc rest)) rest \<Longrightarrow>
      \<exists>s'. oper s = (Ok (), s') \<and> wview s' (out @ enc rest) (drop (length (enc rest)) rest) \<and> wsame s s'"
    and full: "wview s out rest \<Longrightarrow> \<not> fits (length (enc rest)) rest \<Longrightarrow>
      \<exists>s' out' rest'. oper s = (Fail, s') \<and> wview s' out' rest' \<and> wsame s s'"
begin

lemma outcome:
  assumes "wview s out rest"
  obtains (Ok) s' where "fits (length (enc rest)) rest" "oper s = (Ok (), s')"
      "wview s' (out @ enc rest) (drop (length (enc rest)) rest)" "wsame s s'"
    | (Fail) s' out' rest' where "\<not> fits (length (enc rest)) rest" "oper s = (Fail, s')"
      "wview s' out' rest'" "wsame s s'"
  using room [OF assms] full [OF assms] by blast

lemma never_faults: "wview s out rest \<Longrightarrow> fst (oper s) \<noteq> Fault"
  by (erule outcome) auto

lemma keeps_buffer: "wview s out rest \<Longrightarrow> \<exists>out' rest'. wview (snd (oper s)) out' rest' \<and> wsame s (snd (oper s))"
  by (erule outcome) auto

lemma succeeds_iff: "wview s out rest \<Longrightarrow> fst (oper s) = Ok () \<longleftrightarrow> fits (length (enc rest)) rest"
  by (erule outcome) auto

lemma appends: "wview s out rest \<Longrightarrow> oper s = (Ok (), s') \<Longrightarrow>
    wview s' (out @ enc rest) (drop (length (enc rest)) rest) \<and> wsame s s'"
  by (erule outcome) auto

end

text \<open>Doing nothing, and one operation after another, keep the contract.\<close>

lemma writer_op_skip: "writer_op (\<lambda>s. (Ok (), s)) (\<lambda>_. [])"
  by unfold_locales (auto simp: fits_def)

lemma writer_op_bind:
  assumes f: "writer_op f e1" and g: "writer_op g e2"
  shows "writer_op (call_bind f (\<lambda>_. g)) (\<lambda>rest. e1 rest @ e2 (drop (length (e1 rest)) rest))"
proof (unfold_locales, goal_cases)
  case (1 s out rest)
  let ?r = "drop (length (e1 rest)) rest"
  from 1 have fit: "fits (length (e1 rest)) rest" "fits (length (e2 ?r)) ?r"
    by (auto simp: fits_def)
  from writer_op.room [OF f 1(1) fit(1)] obtain s1 where
    s1: "f s = (Ok (), s1)" "wview s1 (out @ e1 rest) ?r" "wsame s s1" by blast
  from writer_op.room [OF g s1(2) fit(2)] s1 wsame_trans show ?case
    by (fastforce simp: add.commute)
next
  case (2 s out rest)
  let ?r = "drop (length (e1 rest)) rest"
  show ?case
  proof (cases "fits (length (e1 rest)) rest")
    case True
    from writer_op.room [OF f 2(1) True] obtain s1 where
      s1: "f s = (Ok (), s1)" "wview s1 (out @ e1 rest) ?r" "wsame s s1" by blast
    have "\<not> fits (length (e2 ?r)) ?r" using 2 True by (auto simp: fits_def)
    from writer_op.full [OF g s1(2) this] s1 wsame_trans show ?thesis by fastforce
  next
    case False
    from writer_op.full [OF f 2(1) False] show ?thesis by fastforce
  qed
qed

lemma writer_op_cong: "writer_op f e \<Longrightarrow> (\<And>rest. e' rest = e rest) \<Longrightarrow> writer_op f e'"
  by (simp add: writer_op_def)

section \<open>Every operation keeps the contract\<close>

lemma writer_op_put:
  assumes "length bs = k" and "0 < k" and "k < 2 ^ 33" and "n = of_nat k"
  shows "writer_op (call_bind (w_check n) (\<lambda>p. call_bind (w_store p bs) (\<lambda>_. w_advance n))) (\<lambda>_. bs)"
proof (unfold_locales, goal_cases)
  case (1 s out rest)
  obtain m w where s: "s = (m, w)" by (cases s)
  have k: "k < length rest" using 1 assms by (auto simp: fits_def)
  have chk: "w_check n s = (Ok (wptr w), s)"
    using 1(1) k assms by (simp add: w_check_view s)
  from w_store_view [OF 1(1) [unfolded s], of 0 bs] k assms obtain m' where
    m': "w_store (wptr w) bs (m, w) = (Ok (), (m', w))"
      "wview (m', w) out (bs @ drop k rest)" "wsame (m, w) (m', w)" by auto
  from w_advance_view [OF m'(2), of k] m' assms chk show ?case
    by (auto simp: s intro: wsame_trans)
next
  case (2 s out rest)
  then have "w_check n s = (Fail, s)"
    using assms by (simp add: w_check_view fits_def)
  with 2 show ?case by auto
qed

lemma writer_op_htobe32: "writer_op (lv2_osc_writer_htobe32 u) (\<lambda>_. be32 u)"
  unfolding lv2_osc_writer_htobe32_def htobe32_def
  by (simp add: writer_op_put [where k = 4])

lemma writer_op_htobe64: "writer_op (lv2_osc_writer_htobe64 u) (\<lambda>_. be64 u)"
  unfolding lv2_osc_writer_htobe64_def htobe64_def
  by (simp add: writer_op_put [where k = 8])

interpretation w_int32: writer_op "lv2_osc_writer_add_int32 i" "\<lambda>_. be32 i" for i
  unfolding lv2_osc_writer_add_int32_def by (rule writer_op_htobe32)

interpretation w_float: writer_op "lv2_osc_writer_add_float f" "\<lambda>_. be32 f" for f
  unfolding lv2_osc_writer_add_float_def by (rule writer_op_htobe32)

interpretation w_int64: writer_op "lv2_osc_writer_add_int64 h" "\<lambda>_. be64 h" for h
  unfolding lv2_osc_writer_add_int64_def by (rule writer_op_htobe64)

interpretation w_double: writer_op "lv2_osc_writer_add_double d" "\<lambda>_. be64 d" for d
  unfolding lv2_osc_writer_add_double_def by (rule writer_op_htobe64)

interpretation w_timetag: writer_op "lv2_osc_writer_add_timetag t" "\<lambda>_. be64 t" for t
  unfolding lv2_osc_writer_add_timetag_def by (rule writer_op_htobe64)

interpretation w_char: writer_op "lv2_osc_writer_add_char c" "\<lambda>_. be32 (scast c)" for c
  unfolding lv2_osc_writer_add_char_def by (rule w_int32.writer_op_axioms)

interpretation w_rgba: writer_op "lv2_osc_writer_add_rgba r g b a" "\<lambda>_. [r, g, b, a]" for r g b a
  unfolding lv2_osc_writer_add_rgba_def by (simp add: writer_op_put [where k = 4])

definition enc_string :: "u8 list \<Rightarrow> u8 list" where
  "enc_string s = s @ replicate (pad4 (length s + 1) - length s) 0"

lemma length_enc_string [simp]: "length (enc_string s) = pad4 (length s + 1)"
  using pad4_bounds(1) [of "length s + 1"] by (simp add: enc_string_def)

lemma pad4_ge4: "0 < n \<Longrightarrow> 4 \<le> pad4 n"
  by (simp add: pad4_def)

lemma enc_string_Cons0: "\<exists>k < 4. enc_string s = s @ 0 # replicate k 0"
proof -
  define k where "k = pad4 (length s + 1) - (length s + 1)"
  have "pad4 (length s + 1) - length s = Suc k"
    using pad4_bounds(1) [of "length s + 1"] by (simp add: k_def)
  moreover have "k < 4" using pad4_minus by (simp add: k_def)
  ultimately show ?thesis by (auto simp: enc_string_def)
qed

text \<open>The zeros stored first are what remains of the last word once the text is in place.\<close>

lemma text_over_blank:
  assumes "length t = n" and "k - 4 < n" and "n \<le> k" and "4 \<le> k" and "k < length rest"
  shows "t @ drop n (take (k - 4) rest @ replicate 4 0 @ drop k rest)
    = (t @ replicate (k - n) 0) @ drop k rest"
  using assms by simp

lemma writer_op_string:
  assumes len: "length s < 2 ^ 32"
  shows "writer_op (lv2_osc_writer_add_string s) (\<lambda>_. enc_string s)"
proof -
  define n k where "n = length s + 1" and "k = pad4 n"
  have k: "4 \<le> k" "n \<le> k" "k - 4 < n" "k < 2 ^ 33 - 1"
    using pad4_bounds [of n] len pad4_ge4 [of n] by (simp_all add: n_def k_def)
  have padded: "lv2_osc_padded_size (of_nat (length s + 1)) = of_nat k"
    unfolding k_def n_def by (rule padded_size_of_nat) (use len in simp)
  have enc: "enc_string s = (s @ [0]) @ replicate (k - n) 0"
    using k(2) by (simp add: enc_string_def n_def k_def Suc_diff_Suc flip: replicate_Suc)
  have blank: "[0, 0, 0, 0] = replicate 4 (0 :: u8)" by (simp add: numeral_eq_Suc)
  have at: "p + of_nat k - 4 = p + of_nat (k - 4)" for p :: addr
    using k(1) by (simp add: of_nat_diff)
  note unf = lv2_osc_writer_add_string_def Let_def padded blank at
  show ?thesis
  proof (unfold_locales, goal_cases)
    case (1 st out rest)
    obtain m w where s: "st = (m, w)" by (cases st)
    have fit: "k < length rest" using 1(2) k(1) by (simp add: fits_def k_def n_def)
    have chk: "w_check (of_nat k) st = (Ok (wptr w), st)"
      using 1(1) fit k by (simp add: w_check_view s)
    let ?r1 = "take (k - 4) rest @ replicate 4 0 @ drop k rest"
    from w_store_view [OF 1(1) [unfolded s], of "k - 4" "replicate 4 0"] fit k obtain m1 where
      m1: "w_store (wptr w + of_nat (k - 4)) (replicate 4 0) (m, w) = (Ok (), (m1, w))"
        "wview (m1, w) out ?r1" "wsame (m, w) (m1, w)"
      by (auto simp del: of_nat_diff replicate.simps)
    from w_store_view [OF m1(2), of 0 "s @ [0]"] fit k obtain m2 where
      m2: "w_store (wptr w) (s @ [0]) (m1, w) = (Ok (), (m2, w))"
        "wview (m2, w) out ((s @ [0]) @ drop n ?r1)" "wsame (m1, w) (m2, w)"
      by (auto simp: n_def)
    have r2: "(s @ [0]) @ drop n ?r1 = enc_string s @ drop k rest"
      unfolding enc by (rule text_over_blank) (use fit k in \<open>simp_all add: n_def\<close>)
    have lenk: "length (enc_string s) = k" by (simp add: n_def k_def)
    from w_advance_view [OF m2(2) [unfolded r2], of k] lenk fit
    have "w_advance (of_nat k) (m2, w) = (Ok (), (m2, w\<lparr>wptr := wptr w + of_nat k\<rparr>))"
      "wview (m2, w\<lparr>wptr := wptr w + of_nat k\<rparr>) (out @ enc_string s) (drop k rest)"
      "wsame (m2, w) (m2, w\<lparr>wptr := wptr w + of_nat k\<rparr>)"
      by (simp_all del: of_nat_diff)
    with m1(1,3) m2(1,3) chk lenk show ?case
      unfolding unf s by (auto intro: wsame_trans simp del: of_nat_diff)
  next
    case (2 st out rest)
    then have "w_check (of_nat k) st = (Fail, st)"
      using k by (auto simp: w_check_view fits_def n_def k_def)
    with 2 show ?case unfolding unf by auto
  qed
qed

lemma store_in_two_steps:
  assumes "fst (call_bind (w_store p (c # xs)) (\<lambda>_. w_advance n) s) \<noteq> Fault"
  shows "call_bind (w_store p [c]) (\<lambda>_. call_bind (w_advance 1) (\<lambda>_.
      call_bind (w_store (p + 1) xs) (\<lambda>_. w_advance (n - 1)))) s
    = call_bind (w_store p (c # xs)) (\<lambda>_. w_advance n) s"
proof -
  obtain m w where s: "s = (m, w)" by (cases s)
  from assms obtain m' where "m p \<noteq> None" "st (m(p \<mapsto> c)) (p + 1) xs = Some m'"
    unfolding s by (cases "st m p (c # xs)") (auto simp: w_store_def split: if_splits)
  then show ?thesis
    unfolding s by (simp add: w_store_def w_advance_def add.assoc)
qed

lemma add_format_eq:
  assumes "fst (lv2_osc_writer_add_string (comma # fmt) ws) \<noteq> Fault"
  shows "lv2_osc_writer_add_format fmt ws = lv2_osc_writer_add_string (comma # fmt) ws"
proof -
  define n where "n = lv2_osc_padded_size (of_nat (length fmt + 1) + 1)"
  have n: "lv2_osc_padded_size (of_nat (length (comma # fmt) + 1)) = n"
    by (simp add: n_def add.commute)
  show ?thesis
    using assms
    unfolding lv2_osc_writer_add_format_def lv2_osc_writer_add_string_def Let_def n n_def [symmetric]
    by (cases "w_check n ws" rule: prod.exhaust, rename_tac r s)
      (auto simp: call_bind_def [of "w_check n"] call_bind_def [of "w_store (_ + n - 4) _"]
        store_in_two_steps split: result.splits prod.splits)
qed

lemma writer_op_eqI:
  assumes op: "writer_op f e" and eq: "\<And>s. fst (f s) \<noteq> Fault \<Longrightarrow> g s = f s"
  shows "writer_op g e"
proof -
  have "g s = f s" if "wview s out rest" for s out rest
    using eq writer_op.never_faults [OF op that] by blast
  then show ?thesis
    using op unfolding writer_op_def by metis
qed

lemma writer_op_format:
  "length fmt + 1 < 2 ^ 32 \<Longrightarrow> writer_op (lv2_osc_writer_add_format fmt) (\<lambda>_. enc_string (comma # fmt))"
  by (rule writer_op_eqI [OF writer_op_string]) (simp_all add: add_format_eq)

text \<open>
  A blob is its length, its bytes, and padding that the writer skips: the call that would
  clear it is commented out in the source, so those bytes are what the buffer held before.
\<close>

definition enc_blob :: "u8 list \<Rightarrow> u8 list \<Rightarrow> u8 list" where
  "enc_blob bs rest = be32 (of_nat (length bs)) @ bs @
     take (pad4 (length bs) - length bs) (drop (4 + length bs) rest)"

lemma fits_enc_blob: "fits (length (enc_blob bs rest)) rest \<longleftrightarrow> 4 + pad4 (length bs) < length rest"
  using pad4_bounds(1) [of "length bs"] by (auto simp: enc_blob_def fits_def)

lemma length_enc_blob:
  "4 + pad4 (length bs) < length rest \<Longrightarrow> length (enc_blob bs rest) = 4 + pad4 (length bs)"
  using pad4_bounds(1) [of "length bs"] by (simp add: enc_blob_def)

lemma sint_of_nat31: "n < 2 ^ 31 \<Longrightarrow> sint (of_nat n :: u32) = int n"
  by (simp add: sint_uint signed_take_bit_int_eq_self_iff uint_nat unat_of_nat)

lemma scast_of_nat31: "n < 2 ^ 31 \<Longrightarrow> scast (of_nat n :: u32) = (of_nat n :: u64)"
  by (simp add: scast_eq sint_of_nat31)

text \<open>Filling a region that the write pointer has already been moved past.\<close>

lemma fill_reserved:
  assumes view: "wview (m, w) out rest" and room: "k \<le> length rest" "length bs \<le> k"
  defines "w' \<equiv> w\<lparr>wptr := wptr w + of_nat k\<rparr>"
  shows "\<exists>m'. w_store (wptr w) bs (m, w') = (Ok (), (m', w')) \<and> wsame (m, w) (m', w') \<and>
    wview (m', w') (out @ bs @ take (k - length bs) (drop (length bs) rest)) (drop k rest)"
proof -
  from w_store_view [OF view, of 0 bs] room obtain m' where
    m': "w_store (wptr w) bs (m, w) = (Ok (), (m', w))"
      "wview (m', w) out (bs @ drop (length bs) rest)" "wsame (m, w) (m', w)" by auto
  have "w_store (wptr w) bs (m, w') = (Ok (), (m', w'))"
    using m'(1) by (simp add: w_store_def split: option.splits)
  with w_advance_view [OF m'(2), of k] m'(3) room show ?thesis
    unfolding w'_def by (auto intro: wsame_trans)
qed

lemma writer_op_blob:
  assumes len: "length bs < 2 ^ 31"
  shows "writer_op (lv2_osc_writer_add_blob (of_nat (length bs)) bs) (enc_blob bs)"
proof -
  define n k where "n = length bs" and "k = pad4 n"
  have k: "n \<le> k" "4 + k < 2 ^ 33 - 1"
    using pad4_bounds [of n] len by (simp_all add: n_def k_def)
  have sc: "scast (of_nat n :: u32) = (of_nat n :: u64)"
    using len by (simp add: n_def scast_of_nat31)
  have padded: "lv2_osc_padded_size (scast (of_nat n :: u32)) = of_nat k"
    unfolding sc k_def by (rule padded_size_of_nat) (use len in \<open>simp add: n_def\<close>)
  have four: "4 + of_nat k = (of_nat (4 + k) :: u64)" by simp
  have copy: "w_memcpy p bs (of_nat n) = w_store p bs" for p
    unfolding w_memcpy_def sc using len by (simp add: n_def)
  note unf = lv2_osc_writer_add_blob_def lv2_osc_writer_add_blob_inline_def Let_def
    n_def [symmetric] padded four copy
  show ?thesis
  proof (unfold_locales, goal_cases)
    case (1 st out rest)
    have fit: "4 + k < length rest" using 1(2) by (simp add: fits_enc_blob n_def k_def)
    have chk: "w_check (of_nat (4 + k)) st = (Ok (wptr (snd st)), st)"
      using 1(1) fit k by (simp add: w_check_view del: of_nat_add)
    have "fits (length (be32 (of_nat n))) rest" using fit by (simp add: fits_def)
    from w_int32.room [OF 1(1) this] obtain m1 w1 where
      s1: "lv2_osc_writer_add_int32 (of_nat n) st = (Ok (), (m1, w1))"
        "wview (m1, w1) (out @ be32 (of_nat n)) (drop 4 rest)" "wsame st (m1, w1)" by auto
    let ?w2 = "w1\<lparr>wptr := wptr w1 + of_nat k\<rparr>"
    have "k \<le> length (drop 4 rest)" "length bs \<le> k" using fit k by (simp_all add: n_def)
    from fill_reserved [OF s1(2) this] obtain m2 where
      m2: "w_store (wptr w1) bs (m1, ?w2) = (Ok (), (m2, ?w2))" "wsame (m1, w1) (m2, ?w2)"
        "wview (m2, ?w2) ((out @ be32 (of_nat n)) @ bs @ take (k - n) (drop n (drop 4 rest)))
           (drop k (drop 4 rest))" unfolding n_def by blast
    have "lv2_osc_writer_add_blob (of_nat (length bs)) bs st = (Ok (), (m2, ?w2))"
      unfolding unf using chk s1(1) m2(1) by (simp add: call_bind_def)
    moreover have "wview (m2, ?w2) (out @ enc_blob bs rest) (drop (length (enc_blob bs rest)) rest)"
      using m2(3) fit k(1) by (simp add: enc_blob_def n_def k_def add.commute)
    ultimately show ?case using s1(3) m2(2) by (blast intro: wsame_trans)
  next
    case (2 st out rest)
    then have "w_check (of_nat (4 + k)) st = (Fail, st)"
      using k by (simp add: w_check_view fits_enc_blob n_def k_def del: of_nat_add)
    with 2 show ?case unfolding unf by (auto simp: call_bind_def)
  qed
qed

text \<open>A MIDI message of fewer than four bytes is padded the same way.\<close>

definition enc_midi :: "u8 list \<Rightarrow> u8 list \<Rightarrow> u8 list" where
  "enc_midi ms rest = ms @ take (4 - length ms) (drop (length ms) rest)"

lemma fits_enc_midi: "length ms \<le> 4 \<Longrightarrow> ms \<noteq> [] \<Longrightarrow> fits (length (enc_midi ms rest)) rest \<longleftrightarrow> 4 < length rest"
  by (auto simp: enc_midi_def fits_def)

lemma writer_op_midi:
  assumes len: "length ms \<le> 4" "ms \<noteq> []"
  shows "writer_op (lv2_osc_writer_add_midi (of_nat (length ms)) ms) (enc_midi ms)"
proof -
  have sc: "scast (of_nat (length ms) :: u32) = (of_nat (length ms) :: u64)"
    using len by (simp add: scast_of_nat31)
  have small: "\<not> sint (of_nat (length ms) :: u32) > 4"
    using len by (subst sint_of_nat31) simp_all
  have copy: "w_memcpy p ms (of_nat (length ms)) = w_store p ms" for p
    using len by (simp add: w_memcpy_def sc)
  note unf = lv2_osc_writer_add_midi_def lv2_osc_writer_add_midi_inline_def copy
  show ?thesis
  proof (unfold_locales, goal_cases)
    case (1 st out rest)
    obtain m w where s: "st = (m, w)" by (cases st)
    have fit: "4 < length rest" using 1(2) len by (simp add: fits_enc_midi)
    have chk: "w_check 4 st = (Ok (wptr w), st)"
      using 1(1) fit by (simp add: w_check_view s)
    let ?w2 = "w\<lparr>wptr := wptr w + 4\<rparr>"
    from fill_reserved [OF 1(1) [unfolded s], of 4 ms] fit len obtain m2 where
      m2: "w_store (wptr w) ms (m, ?w2) = (Ok (), (m2, ?w2))" "wsame (m, w) (m2, ?w2)"
        "wview (m2, ?w2) (out @ enc_midi ms rest) (drop 4 rest)" by (auto simp: enc_midi_def)
    have "lv2_osc_writer_add_midi (of_nat (length ms)) ms st = (Ok (), (m2, ?w2))"
      unfolding unf using chk small m2(1) by (simp add: call_bind_def s w_advance_def)
    then show ?case using m2 fit len by (auto simp: s enc_midi_def)
  next
    case (2 st out rest)
    then have "w_check 4 st = (Fail, st)"
      using len by (simp add: w_check_view fits_enc_midi)
    with 2 small show ?case unfolding unf by (auto simp: call_bind_def)
  qed
qed

lemma writer_midi_too_long: "sint len > 4 \<Longrightarrow> lv2_osc_writer_add_midi len ms s = (Fail, s)"
  by (simp add: lv2_osc_writer_add_midi_def lv2_osc_writer_add_midi_inline_def call_bind_def)

lemma writer_op_symbol:
  "length s < 2 ^ 32 \<Longrightarrow> writer_op (lv2_osc_writer_add_symbol s) (\<lambda>_. enc_string s)"
  unfolding lv2_osc_writer_add_symbol_def by (rule writer_op_string)

lemma writer_op_path:
  "length s < 2 ^ 32 \<Longrightarrow> writer_op (lv2_osc_writer_add_path s) (\<lambda>_. enc_string s)"
  unfolding lv2_osc_writer_add_path_def by (rule writer_op_string)

end
