(* ===== verification/Osc_Message.thy ===== *)
theory Osc_Message
  imports Osc_Writer
begin

text \<open>
  What the writer is for, stated over abstract OSC values: an argument, its type, how a
  caller passes it to a variadic function, and the bytes OSC gives it. The operations of
  \<open>Osc_Writer\<close> that work on whole argument lists, messages, items and bundles implement this
  encoding.
\<close>

section \<open>Arguments\<close>

datatype osc_arg =
    AInt u32 | AFloat u32 | AString "u8 list" | ABlob "u8 list"
  | ATrue | AFalse | ANil | AImpulse
  | ALong u64 | ADouble u64 | ATimetag u64
  | ASymbol "u8 list" | AChar u8 | AMidi "u8 list" | ARgba u8 u8 u8 u8

fun arg_type :: "osc_arg \<Rightarrow> lv2_osc_type" where
  "arg_type (AInt _) = OSC_INT32"
| "arg_type (AFloat _) = OSC_FLOAT"
| "arg_type (AString _) = OSC_STRING"
| "arg_type (ABlob _) = OSC_BLOB"
| "arg_type ATrue = OSC_TRUE"
| "arg_type AFalse = OSC_FALSE"
| "arg_type ANil = OSC_NIL"
| "arg_type AImpulse = OSC_IMPULSE"
| "arg_type (ALong _) = OSC_INT64"
| "arg_type (ADouble _) = OSC_DOUBLE"
| "arg_type (ATimetag _) = OSC_TIMETAG"
| "arg_type (ASymbol _) = OSC_SYMBOL"
| "arg_type (AChar _) = OSC_CHAR"
| "arg_type (AMidi _) = OSC_MIDI"
| "arg_type (ARgba _ _ _ _) = OSC_RGBA"

definition arg_fmt :: "osc_arg list \<Rightarrow> u8 list" where
  "arg_fmt as = map (\<lambda>a. type_char (arg_type a)) as"

text \<open>
  How an argument is passed: C promotes a \<open>float\<close> to \<open>double\<close> (\<open>f2d\<close>) and a \<open>char\<close> to \<open>int\<close>,
  and the callers of the repository pass the colour components as \<open>unsigned\<close>.
\<close>

fun arg_va :: "(u32 \<Rightarrow> u64) \<Rightarrow> osc_arg \<Rightarrow> va list" where
  "arg_va f2d (AInt i) = [VaInt i]"
| "arg_va f2d (AFloat f) = [VaDouble (f2d f)]"
| "arg_va f2d (AString s) = [VaBytes s]"
| "arg_va f2d (ABlob b) = [VaInt (of_nat (length b)), VaBytes b]"
| "arg_va f2d ATrue = []"
| "arg_va f2d AFalse = []"
| "arg_va f2d ANil = []"
| "arg_va f2d AImpulse = []"
| "arg_va f2d (ALong h) = [VaLong h]"
| "arg_va f2d (ADouble d) = [VaDouble d]"
| "arg_va f2d (ATimetag t) = [VaLong t]"
| "arg_va f2d (ASymbol s) = [VaBytes s]"
| "arg_va f2d (AChar c) = [VaInt (scast c)]"
| "arg_va f2d (AMidi m) = [VaInt (of_nat (length m)), VaBytes m]"
| "arg_va f2d (ARgba r g b a) = [VaUnsigned (ucast r), VaUnsigned (ucast g), VaUnsigned (ucast b), VaUnsigned (ucast a)]"

definition arg_vas :: "(u32 \<Rightarrow> u64) \<Rightarrow> osc_arg list \<Rightarrow> va list" where
  "arg_vas f2d as = concat (map (arg_va f2d) as)"

text \<open>The bytes of an argument, where \<open>rest\<close> is what the buffer held: padding keeps its old bytes.\<close>

fun arg_enc :: "osc_arg \<Rightarrow> u8 list \<Rightarrow> u8 list" where
  "arg_enc (AInt i) rest = be32 i"
| "arg_enc (AFloat f) rest = be32 f"
| "arg_enc (AString s) rest = enc_string s"
| "arg_enc (ABlob b) rest = enc_blob b rest"
| "arg_enc ATrue rest = []"
| "arg_enc AFalse rest = []"
| "arg_enc ANil rest = []"
| "arg_enc AImpulse rest = []"
| "arg_enc (ALong h) rest = be64 h"
| "arg_enc (ADouble d) rest = be64 d"
| "arg_enc (ATimetag t) rest = be64 t"
| "arg_enc (ASymbol s) rest = enc_string s"
| "arg_enc (AChar c) rest = be32 (scast c)"
| "arg_enc (AMidi m) rest = enc_midi m rest"
| "arg_enc (ARgba r g b a) rest = [r, g, b, a]"

fun args_enc :: "osc_arg list \<Rightarrow> u8 list \<Rightarrow> u8 list" where
  "args_enc [] rest = []"
| "args_enc (a # as) rest = arg_enc a rest @ args_enc as (drop (length (arg_enc a rest)) rest)"

fun arg_ok :: "osc_arg \<Rightarrow> bool" where
  "arg_ok (AString s) \<longleftrightarrow> 0 \<notin> set s \<and> length s < 2 ^ 31 - 1"
| "arg_ok (ASymbol s) \<longleftrightarrow> 0 \<notin> set s \<and> length s < 2 ^ 31 - 1"
| "arg_ok (ABlob b) \<longleftrightarrow> length b < 2 ^ 31"
| "arg_ok (AMidi m) \<longleftrightarrow> m \<noteq> [] \<and> length m \<le> 4"
| "arg_ok _ \<longleftrightarrow> True"

definition floats_kept :: "(u64 \<Rightarrow> u32) \<Rightarrow> (u32 \<Rightarrow> u64) \<Rightarrow> osc_arg list \<Rightarrow> bool" where
  "floats_kept d2f f2d as \<longleftrightarrow> list_all (\<lambda>a. case a of AFloat f \<Rightarrow> d2f (f2d f) = f | _ \<Rightarrow> True) as"

lemma floats_kept_simps [simp]:
  "floats_kept d2f f2d []"
  "floats_kept d2f f2d (a # as) \<longleftrightarrow>
     (case a of AFloat f \<Rightarrow> d2f (f2d f) = f | _ \<Rightarrow> True) \<and> floats_kept d2f f2d as"
  by (simp_all add: floats_kept_def)

lemma ucast_scast_char [simp]: "ucast (scast (c :: u8) :: u32) = c"
  by (rule bit_word_eqI) (simp add: bit_simps)

lemma ucast_ucast_u8 [simp]: "ucast (ucast (c :: u8) :: u32) = c"
  by (rule bit_word_eqI) (simp add: bit_simps)

lemmas writer_arg_ops =
  w_int32.writer_op_axioms w_float.writer_op_axioms w_int64.writer_op_axioms
  w_double.writer_op_axioms w_timetag.writer_op_axioms w_rgba.writer_op_axioms
  w_char.writer_op_axioms writer_op_string writer_op_symbol writer_op_blob writer_op_midi

lemma arg_fmt_simps [simp]:
  "arg_fmt [] = []" "arg_fmt (a # as) = type_char (arg_type a) # arg_fmt as"
  by (simp_all add: arg_fmt_def)

lemma arg_vas_simps [simp]:
  "arg_vas f2d [] = []" "arg_vas f2d (a # as) = arg_va f2d a @ arg_vas f2d as"
  by (simp_all add: arg_vas_def)

lemma writer_op_skipped:
  "writer_op f (args_enc as) \<Longrightarrow> arg_enc a = (\<lambda>_. []) \<Longrightarrow> writer_op f (args_enc (a # as))"
  by (erule writer_op_cong) simp

lemma writer_op_next:
  assumes "writer_op f (arg_enc a)" and "writer_op g (args_enc as)"
  shows "writer_op (call_bind f (\<lambda>_. g)) (args_enc (a # as))"
  by (rule writer_op_cong [OF writer_op_bind [OF assms]]) simp

lemma arg_enc_ops:
  "arg_enc (AInt i) = (\<lambda>_. be32 i)" "arg_enc (AFloat i) = (\<lambda>_. be32 i)"
  "arg_enc (AString s) = (\<lambda>_. enc_string s)" "arg_enc (ABlob b) = enc_blob b"
  "arg_enc (ALong h) = (\<lambda>_. be64 h)" "arg_enc (ADouble h) = (\<lambda>_. be64 h)"
  "arg_enc (ATimetag h) = (\<lambda>_. be64 h)" "arg_enc (ASymbol s) = (\<lambda>_. enc_string s)"
  "arg_enc (AChar c) = (\<lambda>_. be32 (scast c))" "arg_enc (AMidi m) = enc_midi m"
  "arg_enc ATrue = (\<lambda>_. [])" "arg_enc AFalse = (\<lambda>_. [])"
  "arg_enc ANil = (\<lambda>_. [])" "arg_enc AImpulse = (\<lambda>_. [])"
  "arg_enc (ARgba r g b' a) = (\<lambda>_. [r, g, b', a])"
  by (rule ext, simp)+

text \<open>Reading one argument off the list and writing it is one operation with the contract.\<close>

lemma arg_varlist_refines:
  "list_all arg_ok as \<Longrightarrow> floats_kept d2f f2d as
   \<Longrightarrow> writer_op (lv2_osc_writer_arg_varlist d2f (arg_fmt as) (arg_vas f2d as)) (args_enc as)"
proof (induction as)
  case Nil
  show ?case
    by (rule writer_op_cong [where e = "\<lambda>_. []"]) (simp_all add: writer_op_skip)
next
  case (Cons a as)
  then have IH: "writer_op (lv2_osc_writer_arg_varlist d2f (arg_fmt as) (arg_vas f2d as)) (args_enc as)"
    by simp
  from Cons.prems show ?case
    by (cases a)
      (simp_all del: type_char.simps args_enc.simps arg_enc.simps add: writer_op_skipped [OF IH]
        writer_op_next [OF _ IH] arg_enc_ops writer_arg_ops)
qed


section \<open>Messages\<close>

definition message_enc :: "u8 list \<Rightarrow> osc_arg list \<Rightarrow> u8 list \<Rightarrow> u8 list" where
  "message_enc path as rest =
     (let head = enc_string path @ enc_string (comma # arg_fmt as)
      in head @ args_enc as (drop (length head) rest))"

lemma length_arg_fmt [simp]: "length (arg_fmt as) = length as"
  by (simp add: arg_fmt_def)

lemma message_varlist_refines:
  assumes "length path < 2 ^ 31" and "length as < 2 ^ 31" and "list_all arg_ok as"
    and "floats_kept d2f f2d as"
  shows "writer_op (lv2_osc_writer_message_varlist d2f path (arg_fmt as) (arg_vas f2d as)) (message_enc path as)"
  unfolding lv2_osc_writer_message_varlist_def
  by (rule writer_op_cong [OF writer_op_bind [OF writer_op_path
        writer_op_bind [OF writer_op_format arg_varlist_refines]]])
    (use assms in \<open>simp_all add: message_enc_def Let_def add.commute\<close>)

lemma message_enc_not_Nil [simp]: "message_enc path as rest \<noteq> []"
  by (simp add: message_enc_def enc_string_def Let_def)

section \<open>Items and bundles\<close>

text \<open>
  An item is pushed, its content written, and its size filled in when it is popped: the
  composition of the three calls is again one operation with the contract, as long as the
  content is neither empty nor beyond what an \<open>int32_t\<close> can count.
\<close>

definition writer_item :: "(unit, wstate) call \<Rightarrow> (unit, wstate) call" where
  "writer_item f = call_bind lv2_osc_writer_push_item (\<lambda>ref. call_bind f (\<lambda>_. lv2_osc_writer_pop_item ref))"

definition writer_bundle :: "u64 \<Rightarrow> (unit, wstate) call \<Rightarrow> (unit, wstate) call" where
  "writer_bundle t f =
     call_bind (lv2_osc_writer_push_bundle t) (\<lambda>ref. call_bind f (\<lambda>_. lv2_osc_writer_pop_bundle ref))"

definition item_enc :: "(u8 list \<Rightarrow> u8 list) \<Rightarrow> u8 list \<Rightarrow> u8 list" where
  "item_enc e rest = (let body = e (drop 4 rest) in be32 (of_nat (length body)) @ body)"

definition bundle_enc :: "u64 \<Rightarrow> (u8 list \<Rightarrow> u8 list) \<Rightarrow> u8 list \<Rightarrow> u8 list" where
  "bundle_enc t e rest = bundle_tag @ be64 t @ e (drop 16 rest)"

lemma push_item_view:
  assumes "wview (m, w) out rest" and "4 < length rest"
  shows "\<exists>s'. lv2_osc_writer_push_item (m, w) = (Ok (wptr w), s') \<and>
    wview s' (out @ take 4 rest) (drop 4 rest) \<and> wsame (m, w) s'"
  using w_advance_view [OF assms(1), of 4] assms
  by (simp add: lv2_osc_writer_push_item_def w_check_view call_bind_def)

text \<open>What is left of a pointer difference after the conversion to \<open>int32_t\<close>.\<close>

lemma frame_size:
  assumes "wview (m, w) (xs @ ys @ zs) rest" and "k = of_nat (length ys)" and "length zs < 2 ^ 31"
  shows "(ucast (wptr w - (wbuf w + of_nat (length xs)) - k) :: u32) = of_nat (length zs)"
proof -
  have "wptr w - (wbuf w + of_nat (length xs)) - k = of_nat (length zs)"
    using assms by (simp add: wview_def)
  then show ?thesis using assms(3) by (simp add: unsigned_of_nat take_bit_nat_eq_self)
qed

lemma pop_item_view:
  assumes view: "wview (m, w) (xs @ ys @ zs) rest" and len: "length ys = 4" "zs \<noteq> []" "length zs < 2 ^ 31"
  shows "\<exists>s'. lv2_osc_writer_pop_item (wbuf w + of_nat (length xs)) (m, w) = (Ok (), s') \<and>
    wview s' (xs @ be32 (of_nat (length zs)) @ zs) rest \<and> wsame (m, w) s'"
proof -
  have "sint (of_nat (length zs) :: u32) = int (length zs)"
    using len by (simp add: sint_of_nat31)
  moreover have "(ucast (wptr w - (wbuf w + of_nat (length xs)) - 4) :: u32) = of_nat (length zs)"
    using frame_size [OF view _ len(3), of 4] len by simp
  moreover have "rev (be32 (htobe32 u)) = be32 u" for u by (simp add: htobe32_def)
  ultimately show ?thesis
    using w_store_written [OF view, of "be32 (of_nat (length zs))"] len
    by (auto simp: lv2_osc_writer_pop_item_def Let_def)
qed

lemma length_bundle_tag [simp]: "length bundle_tag = 8"
  by (simp add: bundle_tag_def)

lemma push_bundle_view:
  assumes "wview (m, w) out rest" and "16 < length rest"
  shows "\<exists>s'. lv2_osc_writer_push_bundle t (m, w) = (Ok (wptr w), s') \<and>
    wview s' (out @ bundle_tag @ be64 t) (drop 16 rest) \<and> wsame (m, w) s'"
proof -
  from w_store_view [OF assms(1), of 0 bundle_tag] assms obtain m1 where
    m1: "w_store (wptr w) bundle_tag (m, w) = (Ok (), (m1, w))"
      "wview (m1, w) out (bundle_tag @ drop 8 rest)" "wsame (m, w) (m1, w)" by auto
  from w_advance_view [OF m1(2), of 8] assms have
    m2: "w_advance 8 (m1, w) = (Ok (), (m1, w\<lparr>wptr := wptr w + 8\<rparr>))"
      "wview (m1, w\<lparr>wptr := wptr w + 8\<rparr>) (out @ bundle_tag) (drop 8 rest)"
      "wsame (m1, w) (m1, w\<lparr>wptr := wptr w + 8\<rparr>)" by simp_all
  have "fits (length (be64 t)) (drop 8 rest)" using assms by (simp add: fits_def)
  from w_timetag.room [OF m2(2) this] obtain s' where
    "lv2_osc_writer_add_timetag t (m1, w\<lparr>wptr := wptr w + 8\<rparr>) = (Ok (), s')"
    "wview s' (out @ bundle_tag @ be64 t) (drop 16 rest)" "wsame (m1, w\<lparr>wptr := wptr w + 8\<rparr>) s'"
    by auto
  then show ?thesis
    using assms m1 m2 by (auto simp: lv2_osc_writer_push_bundle_def w_check_view call_bind_def
        intro: wsame_trans)
qed

lemma pop_bundle_view:
  assumes view: "wview (m, w) (xs @ ys @ zs) rest" and len: "length ys = 16" "zs \<noteq> []" "length zs < 2 ^ 31"
  shows "lv2_osc_writer_pop_bundle (wbuf w + of_nat (length xs)) (m, w) = (Ok (), (m, w))"
proof -
  have "sint (of_nat (length zs) :: u32) = int (length zs)"
    using len by (simp add: sint_of_nat31)
  moreover have "(ucast (wptr w - (wbuf w + of_nat (length xs)) - 16) :: u32) = of_nat (length zs)"
    using frame_size [OF view _ len(3), of 16] len by simp
  ultimately show ?thesis using len by (simp add: lv2_osc_writer_pop_bundle_def Let_def)
qed

text \<open>Popping at once after pushing is an error, which takes the frame back.\<close>

lemma pop_bundle_empty:
  assumes view: "wview (m, w) (xs @ ys) rest" and len: "length ys = 16"
  shows "\<exists>s'. lv2_osc_writer_pop_bundle (wbuf w + of_nat (length xs)) (m, w) = (Fail, s') \<and>
    wview s' xs (ys @ rest)"
  using view len by (simp add: lv2_osc_writer_pop_bundle_def wview_def)

lemma pop_item_empty:
  assumes view: "wview (m, w) (xs @ ys) rest" and len: "length ys = 4"
  shows "\<exists>s'. lv2_osc_writer_pop_item (wbuf w + of_nat (length xs)) (m, w) = (Fail, s') \<and>
    wview s' xs (ys @ rest)"
  using view len by (simp add: lv2_osc_writer_pop_item_def wview_def)

definition sized :: "(u8 list \<Rightarrow> u8 list) \<Rightarrow> u8 list \<Rightarrow> bool" where
  "sized e rest \<longleftrightarrow> e rest \<noteq> [] \<and> length (e rest) < 2 ^ 31"

lemma wview_wptr: "wview (m, w) out rest \<Longrightarrow> wptr w = wbuf w + of_nat (length out)"
  by (simp add: wview_def)

lemma wsame_wbuf: "wsame s s' \<Longrightarrow> wbuf (snd s') = wbuf (snd s)"
  by (cases s; cases s') (simp add: wsame_def)

lemma writer_op_item:
  assumes op: "writer_op f e" and sz: "\<And>rest. sized e rest"
  shows "writer_op (writer_item f) (item_enc e)"
proof (unfold_locales, goal_cases)
  case (1 s out rest)
  obtain m w where s: "s = (m, w)" by (cases s)
  let ?body = "e (drop 4 rest)"
  have fit: "4 < length rest" "fits (length ?body) (drop 4 rest)"
    using 1(2) by (auto simp: item_enc_def Let_def fits_def)
  from push_item_view [OF 1(1) [unfolded s] fit(1)] obtain s1 where
    s1: "lv2_osc_writer_push_item (m, w) = (Ok (wptr w), s1)"
      "wview s1 (out @ take 4 rest) (drop 4 rest)" "wsame (m, w) s1" by blast
  from writer_op.room [OF op s1(2) fit(2)] obtain m2 w2 where
    s2: "f s1 = (Ok (), (m2, w2))" "wview (m2, w2) (out @ take 4 rest @ ?body) (drop (length ?body) (drop 4 rest))"
      "wsame s1 (m2, w2)" by auto
  have ref: "wptr w = wbuf w2 + of_nat (length out)"
    using wview_wptr [OF 1(1) [unfolded s]] wsame_wbuf [OF s1(3)] wsame_wbuf [OF s2(3)] by simp
  from pop_item_view [OF s2(2)] sz [of "drop 4 rest"] fit(1) obtain s3 where
    "lv2_osc_writer_pop_item (wptr w) (m2, w2) = (Ok (), s3)" "wsame (m2, w2) s3"
    "wview s3 (out @ item_enc e rest) (drop (length (item_enc e rest)) rest)"
    unfolding ref by (auto simp: sized_def item_enc_def Let_def add.commute)
  with s1 s2 show ?case
    unfolding writer_item_def s by (auto simp: call_bind_def intro: wsame_trans)
next
  case (2 s out rest)
  obtain m w where s: "s = (m, w)" by (cases s)
  show ?case
  proof (cases "4 < length rest")
    case True
    from push_item_view [OF 2(1) [unfolded s] True] obtain s1 where
      s1: "lv2_osc_writer_push_item (m, w) = (Ok (wptr w), s1)"
        "wview s1 (out @ take 4 rest) (drop 4 rest)" "wsame (m, w) s1" by blast
    have "\<not> fits (length (e (drop 4 rest))) (drop 4 rest)"
      using 2(2) True sz [of "drop 4 rest"] by (auto simp: item_enc_def Let_def fits_def)
    from writer_op.full [OF op s1(2) this] s1 show ?thesis
      unfolding writer_item_def s by (fastforce simp: call_bind_def intro: wsame_trans)
  next
    case False
    with 2(1) show ?thesis
      by (auto simp: writer_item_def lv2_osc_writer_push_item_def call_bind_def w_check_view)
  qed
qed

lemma writer_op_bundle:
  assumes op: "writer_op f e" and sz: "\<And>rest. sized e rest"
  shows "writer_op (writer_bundle t f) (bundle_enc t e)"
proof (unfold_locales, goal_cases)
  case (1 s out rest)
  obtain m w where s: "s = (m, w)" by (cases s)
  let ?body = "e (drop 16 rest)"
  have fit: "16 < length rest" "fits (length ?body) (drop 16 rest)"
    using 1(2) by (auto simp: bundle_enc_def fits_def)
  from push_bundle_view [OF 1(1) [unfolded s] fit(1)] obtain s1 where
    s1: "lv2_osc_writer_push_bundle t (m, w) = (Ok (wptr w), s1)"
      "wview s1 (out @ bundle_tag @ be64 t) (drop 16 rest)" "wsame (m, w) s1" by blast
  from writer_op.room [OF op s1(2) fit(2)] obtain m2 w2 where
    s2: "f s1 = (Ok (), (m2, w2))"
      "wview (m2, w2) (out @ (bundle_tag @ be64 t) @ ?body) (drop (length ?body) (drop 16 rest))"
      "wsame s1 (m2, w2)" by auto
  have ref: "wptr w = wbuf w2 + of_nat (length out)"
    using wview_wptr [OF 1(1) [unfolded s]] wsame_wbuf [OF s1(3)] wsame_wbuf [OF s2(3)] by simp
  from pop_bundle_view [OF s2(2)] sz [of "drop 16 rest"] have
    "lv2_osc_writer_pop_bundle (wptr w) (m2, w2) = (Ok (), (m2, w2))"
    unfolding ref by (simp add: sized_def)
  with s1 s2 show ?case
    unfolding writer_bundle_def s
    by (auto simp: call_bind_def bundle_enc_def add.commute intro: wsame_trans)
next
  case (2 s out rest)
  obtain m w where s: "s = (m, w)" by (cases s)
  show ?case
  proof (cases "16 < length rest")
    case True
    from push_bundle_view [OF 2(1) [unfolded s] True] obtain s1 where
      s1: "lv2_osc_writer_push_bundle t (m, w) = (Ok (wptr w), s1)"
        "wview s1 (out @ bundle_tag @ be64 t) (drop 16 rest)" "wsame (m, w) s1" by blast
    have "\<not> fits (length (e (drop 16 rest))) (drop 16 rest)"
      using 2(2) True sz [of "drop 16 rest"] by (auto simp: bundle_enc_def fits_def)
    from writer_op.full [OF op s1(2) this] s1 show ?thesis
      unfolding writer_bundle_def s by (fastforce simp: call_bind_def intro: wsame_trans)
  next
    case False
    with 2(1) show ?thesis
      by (auto simp: writer_bundle_def lv2_osc_writer_push_bundle_def call_bind_def w_check_view)
  qed
qed

section \<open>Bundles of items\<close>

text \<open>Bounds on the bytes of an argument and of a message, whatever the buffer held.\<close>

fun arg_size :: "osc_arg \<Rightarrow> nat" where
  "arg_size (AString s) = pad4 (length s + 1)"
| "arg_size (ASymbol s) = pad4 (length s + 1)"
| "arg_size (ABlob b) = 4 + pad4 (length b)"
| "arg_size (AMidi m) = 4"
| "arg_size (ALong _) = 8"
| "arg_size (ADouble _) = 8"
| "arg_size (ATimetag _) = 8"
| "arg_size ATrue = 0"
| "arg_size AFalse = 0"
| "arg_size ANil = 0"
| "arg_size AImpulse = 0"
| "arg_size _ = 4"

definition message_size :: "u8 list \<Rightarrow> osc_arg list \<Rightarrow> nat" where
  "message_size path as = pad4 (length path + 1) + pad4 (length as + 2) + sum_list (map arg_size as)"

lemma length_arg_enc: "arg_ok a \<Longrightarrow> length (arg_enc a rest) \<le> arg_size a"
proof (cases a)
  case (ABlob b)
  then show ?thesis using pad4_bounds(1) [of "length b"] by (simp add: enc_blob_def)
qed (auto simp: enc_midi_def)

lemma length_args_enc: "list_all arg_ok as \<Longrightarrow> length (args_enc as rest) \<le> sum_list (map arg_size as)"
  by (induction as arbitrary: rest) (auto intro: add_mono length_arg_enc)

lemma length_message_enc: "list_all arg_ok as \<Longrightarrow> length (message_enc path as rest) \<le> message_size path as"
  using length_args_enc by (simp add: message_enc_def Let_def message_size_def)

lemma message_lengths:
  "message_size path as < 2 ^ 31 \<Longrightarrow> length path < 2 ^ 31 \<and> length as < 2 ^ 31"
  using pad4_bounds(1) [of "length path + 1"] pad4_bounds(1) [of "length as + 2"]
  by (simp add: message_size_def)

fun writer_items :: "(unit, wstate) call list \<Rightarrow> (unit, wstate) call" where
  "writer_items [] = (\<lambda>s. (Ok (), s))"
| "writer_items (f # fs) = call_bind (writer_item f) (\<lambda>_. writer_items fs)"

fun items_enc :: "(u8 list \<Rightarrow> u8 list) list \<Rightarrow> u8 list \<Rightarrow> u8 list" where
  "items_enc [] rest = []"
| "items_enc (e # es) rest = item_enc e rest @ items_enc es (drop (length (item_enc e rest)) rest)"

lemma writer_op_items:
  "list_all2 (\<lambda>f e. writer_op f e \<and> (\<forall>rest. sized e rest)) fs es \<Longrightarrow> writer_op (writer_items fs) (items_enc es)"
proof (induction fs es rule: list_all2_induct)
  case Nil
  show ?case by (rule writer_op_cong [where e = "\<lambda>_. []"]) (simp_all add: writer_op_skip)
next
  case (Cons f fs e es)
  have "writer_op (writer_item f) (item_enc e)"
    using Cons.hyps by (intro writer_op_item) auto
  from writer_op_cong [OF writer_op_bind [OF this Cons.IH]] show ?case by simp
qed

section \<open>Properties\<close>

text \<open>A buffer of \<open>n\<close> bytes at a fixed address and a writer at its start.\<close>

definition blank :: "nat \<Rightarrow> mem" where
  "blank n = region 4096 (replicate n 255)"

definition blank_writer :: "nat \<Rightarrow> osc_writer" where
  "blank_writer n = lv2_osc_writer_initialize 4096 (of_nat n)"

lemma wview_blank: "n < 2 ^ 32 \<Longrightarrow> wview (blank n, blank_writer n) [] (replicate n 255)"
  using mem_at_region [of "replicate n 255" 4096]
  by (simp add: wview_def blank_def blank_writer_def lv2_osc_writer_initialize_def)

text \<open>
  C36. \<open>lv2_osc_writer_message_varlist\<close> on a buffer with room appends the OSC encoding of the
  message, path, format and arguments, and touches nothing else; without room it fails, with
  the write pointer still inside the buffer and nothing outside the buffer changed. It never
  touches memory that is not the buffer's.
\<close>

theorem writer_message_contract:
  assumes "wview s out rest" and "length path < 2 ^ 31" and "length as < 2 ^ 31"
    and "list_all arg_ok as" and "floats_kept d2f f2d as"
  shows "let enc = message_enc path as rest;
      res = lv2_osc_writer_message_varlist d2f path (arg_fmt as) (arg_vas f2d as) s
    in if length enc < length rest
       then fst res = Ok () \<and> wview (snd res) (out @ enc) (drop (length enc) rest) \<and> wsame s (snd res)
       else fst res = Fail \<and> (\<exists>out' rest'. wview (snd res) out' rest') \<and> wsame s (snd res)"
proof -
  note op = message_varlist_refines [OF assms(2-5)]
  have "fits (length (message_enc path as rest)) rest \<longleftrightarrow> length (message_enc path as rest) < length rest"
    by (auto simp: fits_def)
  then show ?thesis
    using writer_op.room [OF op assms(1)] writer_op.full [OF op assms(1)]
    by (fastforce simp: Let_def)
qed

theorem writer_message_contract_witness:
  "let enc = message_enc (cstr ''/a'') [AInt 7, AString (cstr ''hi'')] (replicate 64 255);
      res = lv2_osc_writer_message_varlist ucast (cstr ''/a'') (arg_fmt [AInt 7, AString (cstr ''hi'')])
        (arg_vas ucast [AInt 7, AString (cstr ''hi'')]) (blank 64, blank_writer 64)
    in if length enc < 64
       then fst res = Ok () \<and> wview (snd res) ([] @ enc) (drop (length enc) (replicate 64 255)) \<and>
         wsame (blank 64, blank_writer 64) (snd res)
       else fst res = Fail \<and> (\<exists>out' rest'. wview (snd res) out' rest') \<and>
         wsame (blank 64, blank_writer 64) (snd res)"
  using writer_message_contract [OF wview_blank [of 64], of "cstr ''/a''" "[AInt 7, AString (cstr ''hi'')]" ucast ucast]
  by (simp add: c8_def)

text \<open>
  \<open>lv2_osc_writer_overflow\<close> asks for one byte more than the value needs: a value of four
  bytes is refused by a buffer that has exactly four bytes left.
\<close>

theorem writer_refuses_exact_fit:
  "wview s out rest \<Longrightarrow> fst (lv2_osc_writer_add_int32 i s) = Ok () \<longleftrightarrow> 5 \<le> length rest"
  by (simp add: w_int32.succeeds_iff fits_def) linarith

theorem writer_refuses_exact_fit_witness:
  "fst (lv2_osc_writer_add_int32 7 (blank 4, blank_writer 4)) = Ok () \<longleftrightarrow> 5 \<le> length (replicate 4 (255 :: u8))"
  by (rule writer_refuses_exact_fit [OF wview_blank]) simp

text \<open>
  A blob whose length is not a multiple of four is padded with whatever the buffer held
  before: of the bytes sent, those after the blob's own are the old ones.
\<close>

theorem writer_blob_padding_is_stale:
  assumes "wview s out rest" and "length b < 2 ^ 31" and "4 + pad4 (length b) < length rest"
  shows "\<exists>s'. lv2_osc_writer_add_blob (of_nat (length b)) b s = (Ok (), s') \<and>
    wview s' (out @ be32 (of_nat (length b)) @ b @
        take (pad4 (length b) - length b) (drop (4 + length b) rest))
      (drop (4 + pad4 (length b)) rest)"
proof -
  have "fits (length (enc_blob b rest)) rest" using assms(3) by (simp add: fits_enc_blob)
  from writer_op.room [OF writer_op_blob [OF assms(2)] assms(1) this] show ?thesis
    using length_enc_blob [OF assms(3)] by (auto simp: enc_blob_def)
qed

theorem writer_blob_padding_is_stale_witness:
  "\<exists>s'. lv2_osc_writer_add_blob (of_nat (length [1 :: u8])) [1] (blank 16, blank_writer 16) = (Ok (), s') \<and>
    wview s' ([] @ be32 (of_nat (length [1 :: u8])) @ [1] @
        take (pad4 (length [1 :: u8]) - length [1 :: u8]) (drop (4 + length [1 :: u8]) (replicate 16 255)))
      (drop (4 + pad4 (length [1 :: u8])) (replicate 16 255))"
  by (rule writer_blob_padding_is_stale [OF wview_blank]) (simp_all add: pad4_def)

text \<open>
  Popping a bundle right after pushing it fails and takes the frame back: an OSC bundle
  without items cannot be written.
\<close>

theorem writer_refuses_empty_bundle:
  assumes "wview (m, w) out rest" and "16 < length rest"
  shows "\<exists>s'. writer_bundle t (writer_items []) (m, w) = (Fail, s') \<and>
    wview s' out (bundle_tag @ be64 t @ drop 16 rest)"
proof -
  from push_bundle_view [OF assms, of t] obtain m1 w1 where
    s1: "lv2_osc_writer_push_bundle t (m, w) = (Ok (wptr w), (m1, w1))"
      "wview (m1, w1) (out @ (bundle_tag @ be64 t)) (drop 16 rest)" "wbuf w1 = wbuf w"
    by (auto dest: wsame_wbuf)
  have "wptr w = wbuf w1 + of_nat (length out)"
    using wview_wptr [OF assms(1)] s1(3) by simp
  with s1(1) pop_bundle_empty [OF s1(2)] show ?thesis
    by (simp add: writer_bundle_def)
qed

theorem writer_refuses_empty_bundle_witness:
  "\<exists>s'. writer_bundle 1 (writer_items []) (blank 32, blank_writer 32) = (Fail, s') \<and>
    wview s' [] (bundle_tag @ be64 1 @ drop 16 (replicate 32 255))"
  by (rule writer_refuses_empty_bundle [OF wview_blank]) simp_all

end
