(* ===== verification/Osc_Packet.thy ===== *)
theory Osc_Packet
  imports Osc_Atom Osc_Message
begin

text \<open>
  \<open>lv2_osc_writer_packet\<close> of \<open>osc.lv2/osc.lv2/writer.h\<close>: a packet that comes as an atom is
  written as OSC bytes. \<open>unmap\<close> gives the URI of a URID. Abstract packets, with the atoms that
  stand for them and the bytes OSC gives them, state what it is for.
\<close>

section \<open>Scanning colours\<close>

text \<open>
  One conversion \<open>%02hhx\<close> of \<open>sscanf\<close>: white space is skipped, then at most two characters
  form an optionally signed number in base 16. \<open>0x\<close> begins a number and leaves no room for
  its digits, so it does not match.
\<close>

definition c_isspace :: "u8 \<Rightarrow> bool" where
  "c_isspace c \<longleftrightarrow> c = 32 \<or> (9 \<le> c \<and> c \<le> 13)"

fun scan_hex2 :: "u8 list \<Rightarrow> (u8 \<times> u8 list) option" where
  "scan_hex2 [] = None"
| "scan_hex2 (c # cs) =
     (if c_isspace c then scan_hex2 cs
      else if c = c8 CHR ''+'' \<or> c = c8 CHR ''-'' then
        (case cs of
           [] \<Rightarrow> None
         | d # ds \<Rightarrow>
             (case hex_digit d of
                None \<Rightarrow> None
              | Some x \<Rightarrow> Some (if c = c8 CHR ''-'' then - x else x, ds)))
      else
        (case hex_digit c of
           None \<Rightarrow> None
         | Some x \<Rightarrow>
             (case cs of
                [] \<Rightarrow> Some (x, [])
              | d # ds \<Rightarrow>
                  if x = 0 \<and> (d = c8 CHR ''x'' \<or> d = c8 CHR ''X'') then None
                  else (case hex_digit d of None \<Rightarrow> Some (x, cs) | Some y \<Rightarrow> Some (16 * x + y, ds)))))"

definition scan_rgba :: "u8 list \<Rightarrow> u8 list option" where
  "scan_rgba s =
     (case scan_hex2 s of None \<Rightarrow> None | Some (r, s1) \<Rightarrow>
     (case scan_hex2 s1 of None \<Rightarrow> None | Some (g, s2) \<Rightarrow>
     (case scan_hex2 s2 of None \<Rightarrow> None | Some (b, s3) \<Rightarrow>
     (case scan_hex2 s3 of None \<Rightarrow> None | Some (a, _) \<Rightarrow> Some [r, g, b, a]))))"

section \<open>Writing a packet\<close>

abbreviation w_done :: "(unit, wstate) call" where
  "w_done \<equiv> (\<lambda>s. (Ok (), s))"

abbreviation w_fail :: "(unit, wstate) call" where
  "w_fail \<equiv> (\<lambda>s. (Fail, s))"

definition w_with :: "'a option \<Rightarrow> ('a \<Rightarrow> (unit, wstate) call) \<Rightarrow> (unit, wstate) call" where
  "w_with v f = (case v of None \<Rightarrow> w_fault | Some x \<Rightarrow> f x)"

lemma w_with_simps [simp]: "w_with (Some x) f = f x" "w_with None f = w_fault"
  by (simp_all add: w_with_def)

text \<open>The type string is built in an array of 128 bytes; a type \<open>'\0'\<close> in it ends the string.\<close>

fun argument_types :: "lv2_osc_urid \<Rightarrow> atom list \<Rightarrow> u8 list option" where
  "argument_types u [] = Some []"
| "argument_types u (a # as) =
     (case lv2_osc_argument_type u a of
        Fault \<Rightarrow> None
      | Fail \<Rightarrow> map_option (Cons 0) (argument_types u as)
      | Ok t \<Rightarrow> map_option (Cons (type_char t)) (argument_types u as))"

definition packet_format :: "lv2_osc_urid \<Rightarrow> atom list \<Rightarrow> u8 list option" where
  "packet_format u as =
     (case argument_types u as of
        None \<Rightarrow> None
      | Some fmt \<Rightarrow> if 127 < length fmt then None else Some (takeWhile (\<lambda>c. c \<noteq> 0) fmt))"

definition packet_argument :: "lv2_osc_urid \<Rightarrow> object_get \<Rightarrow> (u32 \<Rightarrow> u8 list option) \<Rightarrow> atom \<Rightarrow> (unit, wstate) call" where
  "packet_argument u oget unmap a =
     (let t = atom_type a in
      if t = u_Int u then w_with (body_u32 a) lv2_osc_writer_add_int32
      else if t = u_Float u then w_with (body_u32 a) lv2_osc_writer_add_float
      else if t = u_String u then w_with (body_str a) lv2_osc_writer_add_string
      else if t = u_Chunk u then w_with (raw_body a) (lv2_osc_writer_add_blob (atom_size a))
      else if t = u_Long u then w_with (body_u64 a) lv2_osc_writer_add_int64
      else if t = u_Double u then w_with (body_u64 a) lv2_osc_writer_add_double
      else if t = u_Object u \<and> object_otype (atom_body a) = None then w_fault
      else if t = u_Object u \<and> object_otype (atom_body a) = Some (u_Timetag u)
        then w_with (timetag_of u oget a) (\<lambda>tt. lv2_osc_writer_add_timetag (lv2_osc_timetag_parse tt))
      else if t = u_URID u
        then w_with (body_u32 a) (\<lambda>k. case unmap k of None \<Rightarrow> w_fail | Some s \<Rightarrow> lv2_osc_writer_add_symbol s)
      else if t = u_MidiEvent u
        then w_with (raw_body a) (\<lambda>bs.
          call_bind (lv2_osc_writer_add_midi_inline (atom_size a + 1)) (\<lambda>m.
          call_bind (w_store m [0]) (\<lambda>_. w_store (m + 1) bs)))
      else if t = u_Literal u
        then w_with (literal_datatype a) (\<lambda>d.
          if d = u_Char u then w_with (char_of_literal a) lv2_osc_writer_add_char
          else if d = u_RGBA u
            then w_with (Option.bind (literal_contents a) bytes_str) (\<lambda>s. case scan_rgba s of
                Some [r, g, b, x] \<Rightarrow> lv2_osc_writer_add_rgba r g b x
              | _ \<Rightarrow> w_fail)
          else w_done)
      else w_done)"

fun packet_arguments ::
    "lv2_osc_urid \<Rightarrow> object_get \<Rightarrow> (u32 \<Rightarrow> u8 list option) \<Rightarrow> atom list \<Rightarrow> (unit, wstate) call" where
  "packet_arguments u oget unmap [] = w_done"
| "packet_arguments u oget unmap (a # as) =
     call_bind (packet_argument u oget unmap a) (\<lambda>_. packet_arguments u oget unmap as)"

text \<open>
  The arguments are optional for \<open>lv2_osc_message_body_get\<close>; here they are used as if they were
  not, and a null pointer is dereferenced. A message whose parts are missing or of another
  type is skipped, and the call reports success.
\<close>

definition packet_message ::
    "lv2_osc_urid \<Rightarrow> object_get \<Rightarrow> (u32 \<Rightarrow> u8 list option) \<Rightarrow> abody \<Rightarrow> (unit, wstate) call" where
  "packet_message u oget unmap body =
     (case lv2_osc_message_body_get u oget body of
        Fault \<Rightarrow> w_fault
      | Fail \<Rightarrow> w_done
      | Ok (path, args) \<Rightarrow>
          w_with (body_str path) (\<lambda>p.
          call_bind (lv2_osc_writer_add_path p) (\<lambda>_.
          w_with (Option.bind args tuple_items) (\<lambda>as.
          w_with (packet_format u as) (\<lambda>fmt.
          call_bind (lv2_osc_writer_add_format fmt) (\<lambda>_.
          packet_arguments u oget unmap as))))))"

text \<open>
  The depth of the recursion is bounded by fuel; it goes through what \<open>oget\<close> finds. The code
  between pushing and popping a bundle and its items is \<open>writer_bundle\<close> and \<open>writer_items\<close>.
\<close>

fun lv2_osc_writer_packet ::
    "nat \<Rightarrow> lv2_osc_urid \<Rightarrow> object_get \<Rightarrow> (u32 \<Rightarrow> u8 list option) \<Rightarrow> abody \<Rightarrow> (unit, wstate) call option" where
  "lv2_osc_writer_packet 0 u oget unmap body = None"
| "lv2_osc_writer_packet (Suc n) u oget unmap body =
     (case object_otype body of
        None \<Rightarrow> Some w_fault
      | Some ot \<Rightarrow>
          if ot = u_Bundle u then
            (case lv2_osc_bundle_body_get u oget body of
               Fault \<Rightarrow> Some w_fault
             | Fail \<Rightarrow> Some w_fail
             | Ok (tt, items) \<Rightarrow>
                 (case timetag_of u oget tt of
                    None \<Rightarrow> Some w_fault
                  | Some tag \<Rightarrow>
                      (case tuple_items items of
                         None \<Rightarrow> Some w_fault
                       | Some as \<Rightarrow>
                           map_option (\<lambda>calls. writer_bundle (lv2_osc_timetag_parse tag) (writer_items calls))
                             (those (map (\<lambda>a. lv2_osc_writer_packet n u oget unmap (atom_body a)) as)))))
          else if ot = u_Message u then Some (packet_message u oget unmap body)
          else Some w_fail)"

section \<open>Abstract packets\<close>

datatype packet = PMessage "u8 list" "osc_arg list" | PBundle u64 "packet list"

definition hex_char :: "nat \<Rightarrow> u8" where
  "hex_char n = of_nat (if n < 10 then 48 + n else 87 + n)"

definition hex2 :: "u8 \<Rightarrow> u8 list" where
  "hex2 b = [hex_char (unat b div 16), hex_char (unat b mod 16)]"

definition str_atom :: "lv2_osc_urid \<Rightarrow> u8 list \<Rightarrow> atom" where
  "str_atom u s = Atom (u_String u) (Bytes (s @ [0]))"

definition literal_atom :: "lv2_osc_urid \<Rightarrow> u32 \<Rightarrow> u8 list \<Rightarrow> atom" where
  "literal_atom u d s = Atom (u_Literal u) (Bytes (le32 d @ le32 0 @ s @ [0]))"

definition timetag_atom :: "lv2_osc_urid \<Rightarrow> u64 \<Rightarrow> atom" where
  "timetag_atom u t = Atom (u_Object u) (Object 0 (u_Timetag u)
     [Prop (u_timetagIntegral u) (Atom (u_Long u) (Bytes (le64 (ucast (integral (lv2_osc_timetag_create t)))))),
      Prop (u_timetagFraction u) (Atom (u_Long u) (Bytes (le64 (ucast (fraction (lv2_osc_timetag_create t))))))])"

text \<open>The atom of an argument; \<open>umap\<close> gives the URID of a symbol. A MIDI atom has no port byte.\<close>

fun arg_atom :: "lv2_osc_urid \<Rightarrow> (u8 list \<Rightarrow> u32) \<Rightarrow> osc_arg \<Rightarrow> atom" where
  "arg_atom u umap (AInt i) = Atom (u_Int u) (Bytes (le32 i))"
| "arg_atom u umap (AFloat f) = Atom (u_Float u) (Bytes (le32 f))"
| "arg_atom u umap (AString s) = str_atom u s"
| "arg_atom u umap (ABlob b) = Atom (u_Chunk u) (Bytes b)"
| "arg_atom u umap ATrue = Atom (u_Bool u) (Bytes (le32 1))"
| "arg_atom u umap AFalse = Atom (u_Bool u) (Bytes (le32 0))"
| "arg_atom u umap ANil = literal_atom u (u_Nil u) []"
| "arg_atom u umap AImpulse = literal_atom u (u_Impulse u) []"
| "arg_atom u umap (ALong h) = Atom (u_Long u) (Bytes (le64 h))"
| "arg_atom u umap (ADouble d) = Atom (u_Double u) (Bytes (le64 d))"
| "arg_atom u umap (ATimetag t) = timetag_atom u t"
| "arg_atom u umap (ASymbol s) = Atom (u_URID u) (Bytes (le32 (umap s)))"
| "arg_atom u umap (AChar c) = literal_atom u (u_Char u) [c]"
| "arg_atom u umap (AMidi m) = Atom (u_MidiEvent u) (Bytes (tl m))"
| "arg_atom u umap (ARgba r g b a) = literal_atom u (u_RGBA u) (hex2 r @ hex2 g @ hex2 b @ hex2 a)"

definition tuple_atom :: "lv2_osc_urid \<Rightarrow> atom list \<Rightarrow> atom" where
  "tuple_atom u as = Atom (u_Tuple u) (Tuple as)"

primrec packet_atom :: "lv2_osc_urid \<Rightarrow> (u8 list \<Rightarrow> u32) \<Rightarrow> packet \<Rightarrow> atom" where
  "packet_atom u umap (PMessage path args) = Atom (u_Object u) (Object 0 (u_Message u)
     [Prop (u_messagePath u) (str_atom u path),
      Prop (u_messageArguments u) (tuple_atom u (map (arg_atom u umap) args))])"
| "packet_atom u umap (PBundle t ps) = Atom (u_Object u) (Object 0 (u_Bundle u)
     [Prop (u_bundleTimetag u) (timetag_atom u t),
      Prop (u_bundleItems u) (tuple_atom u (map (packet_atom u umap) ps))])"

primrec packet_enc :: "packet \<Rightarrow> u8 list \<Rightarrow> u8 list" where
  "packet_enc (PMessage path args) = message_enc path args"
| "packet_enc (PBundle t ps) = bundle_enc t (items_enc (map packet_enc ps))"

primrec packet_size :: "packet \<Rightarrow> nat" where
  "packet_size (PMessage path args) = message_size path args"
| "packet_size (PBundle t ps) = 16 + sum_list (map (\<lambda>p. 4 + packet_size p) ps)"

primrec packet_depth :: "packet \<Rightarrow> nat" where
  "packet_depth (PMessage path args) = 1"
| "packet_depth (PBundle t ps) = Suc (Max (set (0 # map packet_depth ps)))"

definition packet_arg_ok :: "(u32 \<Rightarrow> u8 list option) \<Rightarrow> (u8 list \<Rightarrow> u32) \<Rightarrow> osc_arg \<Rightarrow> bool" where
  "packet_arg_ok unmap umap a \<longleftrightarrow> arg_ok a \<and>
     (case a of
        ASymbol s \<Rightarrow> unmap (umap s) = Some s
      | AMidi m \<Rightarrow> m \<noteq> [] \<and> List.hd m = 0
      | AChar c \<Rightarrow> c \<noteq> 0
      | _ \<Rightarrow> True)"

primrec packet_ok :: "(u32 \<Rightarrow> u8 list option) \<Rightarrow> (u8 list \<Rightarrow> u32) \<Rightarrow> packet \<Rightarrow> bool" where
  "packet_ok unmap umap (PMessage path args) \<longleftrightarrow>
     0 \<notin> set path \<and> length args \<le> 127 \<and> list_all (packet_arg_ok unmap umap) args"
| "packet_ok unmap umap (PBundle t ps) \<longleftrightarrow> ps \<noteq> [] \<and> list_all (packet_ok unmap umap) ps"

section \<open>Getters on the atoms of packets\<close>

lemma body_u32_le32 [simp]: "body_u32 (Atom t (Bytes (le32 i @ bs))) = Some i"
  "body_u32 (Atom t (Bytes (le32 i))) = Some i"
  by (simp_all add: body_u32_def le32_def)

lemma body_u64_le64 [simp]: "body_u64 (Atom t (Bytes (le64 i))) = Some i"
  by (simp add: body_u64_def le64_def)

lemma bytes_str_terminated [simp]: "0 \<notin> set s \<Longrightarrow> bytes_str (s @ [0]) = Some s"
  by (auto simp: bytes_str_def takeWhile_append)

lemma literal_atom_simps [simp]:
  "atom_type (literal_atom u d s) = u_Literal u" "literal_datatype (literal_atom u d s) = Some d"
  "literal_contents (literal_atom u d s) = Some (s @ [0])"
  by (simp_all add: literal_atom_def literal_datatype_def literal_contents_def)

lemma finds_pair:
  "finds_values oget \<Longrightarrow> k \<noteq> l \<Longrightarrow> oget [Prop k x, Prop l y] k = Some x \<and> oget [Prop k x, Prop l y] l = Some y"
  by (simp add: finds_values_def)

lemma ucast_ucast_u32 [simp]: "ucast (ucast (x :: u32) :: u64) = x"
  by (rule bit_word_eqI) (simp add: bit_simps)

lemma timetag_of_atom [simp]:
  assumes "proper_urid u" and "finds_values oget"
  shows "timetag_of u oget (timetag_atom u t) = Some (lv2_osc_timetag_create t)"
  using assms finds_pair [OF assms(2), of "u_timetagIntegral u" "u_timetagFraction u"]
  by (simp add: timetag_of_def timetag_atom_def object_props_def proper_urid_def)

lemma argument_type_atom:
  assumes "proper_urid u"
  shows "lv2_osc_argument_type u (arg_atom u umap a) = Ok (arg_type a)"
proof -
  have "distinct (rev (types_of u))" "distinct (rev [u_Nil u, u_Impulse u, u_Char u, u_RGBA u])"
    using assms by (simp_all only: proper_urid_def distinct_rev)
  note d = this [unfolded types_of_def, simplified]
  show ?thesis
    by (cases a) (simp_all add: lv2_osc_argument_type_def Let_def str_atom_def timetag_atom_def object_otype_def d)
qed

lemma argument_types_atoms:
  "proper_urid u \<Longrightarrow> argument_types u (map (arg_atom u umap) as) = Some (arg_fmt as)"
  by (induction as) (simp_all add: argument_type_atom del: type_char.simps)

lemma packet_format_atoms:
  assumes "proper_urid u" and "length as \<le> 127"
  shows "packet_format u (map (arg_atom u umap) as) = Some (arg_fmt as)"
proof -
  have "takeWhile (\<lambda>c. c \<noteq> 0) (arg_fmt as) = arg_fmt as"
    by (rule takeWhile_eq_all_conv [THEN iffD2]) (auto simp: arg_fmt_def)
  with assms show ?thesis by (simp add: packet_format_def argument_types_atoms)
qed

section \<open>Colours\<close>

lemma hex_char_all:
  assumes "n < 16"
  shows "hex_digit (hex_char n) = Some (of_nat n) \<and> \<not> c_isspace (hex_char n) \<and>
    hex_char n \<noteq> c8 CHR ''+'' \<and> hex_char n \<noteq> c8 CHR ''-'' \<and> hex_char n \<noteq> c8 CHR ''x'' \<and>
    hex_char n \<noteq> c8 CHR ''X'' \<and> hex_char n \<noteq> 0"
proof -
  have "list_all (\<lambda>n. hex_digit (hex_char n) = Some (of_nat n) \<and> \<not> c_isspace (hex_char n) \<and>
    hex_char n \<noteq> c8 CHR ''+'' \<and> hex_char n \<noteq> c8 CHR ''-'' \<and> hex_char n \<noteq> c8 CHR ''x'' \<and>
    hex_char n \<noteq> c8 CHR ''X'' \<and> hex_char n \<noteq> 0) [0..<16]" by code_simp
  then show ?thesis using assms by (auto simp: list_all_iff)
qed

lemma hex_parts: "unat (b :: u8) div 16 < 16" "unat b mod 16 < 16"
proof -
  have "unat b < 16 * 16" using unsigned_less [of b] by simp
  then show "unat b div 16 < 16" by (simp add: less_mult_imp_div_less)
qed simp

lemma scan_hex2_hex2 [simp]: "scan_hex2 (hex2 b @ s) = Some (b, s)"
proof -
  have "(of_nat (unat b) :: u8) = of_nat (16 * (unat b div 16) + unat b mod 16)" by simp
  then have "16 * of_nat (unat b div 16) + of_nat (unat b mod 16) = b"
    by (simp only: of_nat_add of_nat_mult of_nat_numeral) simp
  then show ?thesis
    using hex_char_all [OF hex_parts(1) [of b]] hex_char_all [OF hex_parts(2) [of b]] by (simp add: hex2_def)
qed

lemma scan_rgba_text [simp]: "scan_rgba (hex2 r @ hex2 g @ hex2 b @ hex2 a) = Some [r, g, b, a]"
  using scan_hex2_hex2 [of a "[]"] by (simp add: scan_rgba_def)

lemma hex2_no_zero: "0 \<notin> set (hex2 b)"
  using hex_char_all [OF hex_parts(1) [of b]] hex_char_all [OF hex_parts(2) [of b]] by (auto simp: hex2_def)

section \<open>Refinement\<close>

lemma store_two:
  assumes "fst (w_store p (c # xs) s) \<noteq> Fault"
  shows "call_bind (w_store p [c]) (\<lambda>_. w_store (p + 1) xs) s = w_store p (c # xs) s"
proof -
  obtain m w where s: "s = (m, w)" by (cases s)
  from assms obtain m' where "m p \<noteq> None" "st (m(p \<mapsto> c)) (p + 1) xs = Some m'"
    unfolding s by (cases "st m p (c # xs)") (auto simp: w_store_def split: if_splits)
  then show ?thesis unfolding s by (simp add: w_store_def)
qed

lemma writer_op_packet_midi:
  assumes "length bs \<le> 3"
  shows "writer_op (call_bind (lv2_osc_writer_add_midi_inline (of_nat (length bs) + 1)) (\<lambda>m.
      call_bind (w_store m [0]) (\<lambda>_. w_store (m + 1) bs))) (enc_midi (0 # bs))"
proof (rule writer_op_eqI)
  show "writer_op (lv2_osc_writer_add_midi (of_nat (length (0 # bs))) (0 # bs)) (enc_midi (0 # bs))"
    using assms by (intro writer_op_midi) simp_all
  fix s
  assume nf: "fst (lv2_osc_writer_add_midi (of_nat (length (0 # bs))) (0 # bs) s) \<noteq> Fault"
  have sc: "scast (of_nat (Suc (length bs)) :: u32) = (of_nat (Suc (length bs)) :: u64)"
    using assms by (intro scast_of_nat31) simp
  have cp: "w_memcpy p (0 # bs) (of_nat (length (0 # bs))) = w_store p (0 # bs)" for p
    using assms sc by (simp add: w_memcpy_def del: of_nat_Suc)
  show "call_bind (lv2_osc_writer_add_midi_inline (of_nat (length bs) + 1)) (\<lambda>m.
      call_bind (w_store m [0]) (\<lambda>_. w_store (m + 1) bs)) s
    = lv2_osc_writer_add_midi (of_nat (length (0 # bs))) (0 # bs) s"
    using nf unfolding lv2_osc_writer_add_midi_def cp
    by (cases "lv2_osc_writer_add_midi_inline (of_nat (length bs) + 1) s")
      (auto simp: call_bind_def [of "lv2_osc_writer_add_midi_inline _"] add.commute store_two
        simp del: st.simps split: result.splits)
qed

lemma packet_argument_refines:
  assumes u: "proper_urid u" and o: "finds_values oget" and ok: "packet_arg_ok unmap umap a"
  shows "writer_op (packet_argument u oget unmap (arg_atom u umap a)) (arg_enc a)"
proof -
  have "distinct (rev (types_of u))" "distinct (rev [u_Nil u, u_Impulse u, u_Char u, u_RGBA u])" "distinct (types_of u)"
    "distinct [u_Nil u, u_Impulse u, u_Char u, u_RGBA u]"
    using u by (simp_all only: proper_urid_def distinct_rev)
  note d = this [unfolded types_of_def, simplified]
  note unf = packet_argument_def Let_def
  show ?thesis
  proof (cases a)
    case (AMidi m)
    then obtain bs where m: "m = 0 # bs" "length bs \<le> 3"
      using ok by (cases m) (auto simp: packet_arg_ok_def)
    with AMidi writer_op_packet_midi [OF m(2)] show ?thesis
      by (simp add: unf d raw_body_def atom_size_def)
        (metis (no_types, lifting) arg_enc_ops(10))
  next
    case (ARgba r g b x)
    have "0 \<notin> set (hex2 r @ hex2 g @ hex2 b @ hex2 x)" using hex2_no_zero by auto
    from bytes_str_terminated [OF this] have
      "bytes_str (hex2 r @ hex2 g @ hex2 b @ hex2 x @ [0]) = Some (hex2 r @ hex2 g @ hex2 b @ hex2 x)" by simp
    then show ?thesis using ARgba
      by (simp add: unf d arg_enc_ops w_rgba.writer_op_axioms)
  next
    case (ATimetag t)
    have "timetag_of u oget (timetag_atom u t) = Some (lv2_osc_timetag_create t)" using u o by simp
    then show ?thesis using ATimetag
      by (simp add: unf d arg_enc_ops w_timetag.writer_op_axioms timetag_atom_def object_otype_def)
  next
    case (AChar c)
    then show ?thesis
      by (simp add: unf d arg_enc_ops w_char.writer_op_axioms char_of_literal_def)
  next
    case (ABlob b)
    with ok have "length b < 2 ^ 31" by (simp add: packet_arg_ok_def)
    from writer_op_blob [OF this] ABlob show ?thesis
      by (simp add: unf d arg_enc_ops raw_body_def atom_size_def)
  next
    case (AString b)
    with ok show ?thesis
      by (simp add: unf d arg_enc_ops packet_arg_ok_def str_atom_def body_str_def writer_op_string)
  next
    case (ASymbol b)
    with ok show ?thesis
      by (simp add: unf d arg_enc_ops packet_arg_ok_def writer_op_symbol)
  qed (simp_all add: unf d arg_enc_ops writer_arg_ops writer_op_skip object_otype_def)
qed

lemma packet_arguments_refines:
  "proper_urid u \<Longrightarrow> finds_values oget \<Longrightarrow> list_all (packet_arg_ok unmap umap) as \<Longrightarrow>
   writer_op (packet_arguments u oget unmap (map (arg_atom u umap) as)) (args_enc as)"
proof (induction as)
  case Nil
  show ?case by (rule writer_op_cong [where e = "\<lambda>_. []"]) (simp_all add: writer_op_skip)
next
  case (Cons a as)
  from Cons have "writer_op (packet_argument u oget unmap (arg_atom u umap a)) (arg_enc a)"
    by (intro packet_argument_refines) simp_all
  from writer_op_next [OF this Cons.IH] Cons.prems show ?case by (simp del: args_enc.simps)
qed

lemma packet_arg_ok_arg: "list_all (packet_arg_ok unmap umap) as \<Longrightarrow> list_all arg_ok as"
  by (auto simp: list_all_iff packet_arg_ok_def)

lemma packet_message_refines:
  assumes u: "proper_urid u" and o: "finds_values oget" and ok: "packet_ok unmap umap (PMessage path as)"
    and len: "length path < 2 ^ 31"
  shows "writer_op (packet_message u oget unmap (atom_body (packet_atom u umap (PMessage path as)))) (message_enc path as)"
proof -
  have "u_messagePath u \<noteq> u_messageArguments u" using u by (simp add: proper_urid_def)
  note g = finds_pair [OF o this]
  have body: "lv2_osc_message_body_get u oget (atom_body (packet_atom u umap (PMessage path as))) =
      Ok (str_atom u path, Some (tuple_atom u (map (arg_atom u umap) as)))"
    using g by (simp add: lv2_osc_message_body_get_def object_props_def str_atom_def tuple_atom_def)
  have "packet_message u oget unmap (atom_body (packet_atom u umap (PMessage path as))) =
    call_bind (lv2_osc_writer_add_path path) (\<lambda>_. call_bind (lv2_osc_writer_add_format (arg_fmt as)) (\<lambda>_.
      packet_arguments u oget unmap (map (arg_atom u umap) as)))"
    using ok unfolding packet_message_def body
    by (simp add: str_atom_def body_str_def tuple_atom_def tuple_items_def packet_format_atoms [OF u])
  moreover have "writer_op \<dots> (message_enc path as)"
    by (rule writer_op_cong [OF writer_op_bind [OF writer_op_path
          writer_op_bind [OF writer_op_format packet_arguments_refines [OF u o]]]])
      (use ok len in \<open>simp_all add: message_enc_def Let_def add.commute\<close>)
  ultimately show ?thesis by simp
qed

lemma those_all:
  assumes "\<And>x. x \<in> set xs \<Longrightarrow> \<exists>y. f x = Some y \<and> P x y"
  shows "\<exists>ys. those (map f xs) = Some ys \<and> list_all2 P xs ys"
  using assms by (induction xs) fastforce+

lemma length_items_enc:
  assumes "\<And>p rest. p \<in> set ps \<Longrightarrow> length (packet_enc p rest) \<le> packet_size p"
  shows "length (items_enc (map packet_enc ps) rest) \<le> sum_list (map (\<lambda>p. 4 + packet_size p) ps)"
  using assms
proof (induction ps arbitrary: rest)
  case (Cons p ps)
  from Cons.prems [of p] have "length (item_enc (packet_enc p) rest) \<le> 4 + packet_size p"
    by (simp add: item_enc_def Let_def)
  with Cons show ?case by (auto intro!: add_mono)
qed simp

lemma length_packet_enc: "packet_ok unmap umap p \<Longrightarrow> length (packet_enc p rest) \<le> packet_size p"
proof (induction p arbitrary: rest)
  case (PMessage path as)
  then show ?case by (auto intro!: length_message_enc packet_arg_ok_arg)
next
  case (PBundle t ps)
  then show ?case
    by (auto simp: bundle_enc_def list_all_iff intro!: length_items_enc)
qed

lemma packet_enc_not_Nil: "packet_enc p rest \<noteq> []"
  by (cases p) (simp_all add: bundle_enc_def bundle_tag_def)

lemma items_enc_not_Nil: "ps \<noteq> [] \<Longrightarrow> items_enc (map packet_enc ps) rest \<noteq> []"
  by (cases ps) (simp_all add: item_enc_def Let_def)

lemma packet_size_item: "p \<in> set ps \<Longrightarrow> 4 + packet_size p \<le> sum_list (map (\<lambda>p. 4 + packet_size p) ps)"
  by (rule member_le_sum_list) auto

lemma writer_packet_refines:
  assumes u: "proper_urid u" and o: "finds_values oget"
  shows "packet_ok unmap umap p \<Longrightarrow> packet_size p < 2 ^ 31 \<Longrightarrow> packet_depth p \<le> n \<Longrightarrow>
    \<exists>f. lv2_osc_writer_packet n u oget unmap (atom_body (packet_atom u umap p)) = Some f \<and> writer_op f (packet_enc p)"
proof (induction p arbitrary: n)
  case (PMessage path as)
  then obtain k where n: "n = Suc k" by (cases n) auto
  have "u_Message u \<noteq> u_Bundle u" using u by (auto simp: proper_urid_def)
  moreover have "length path < 2 ^ 31" using PMessage.prems(2) message_lengths [of path as] by simp
  ultimately show ?case
    using packet_message_refines [OF u o PMessage.prems(1)]
    by (simp add: n object_otype_def del: packet_ok.simps)
next
  case (PBundle t ps)
  then obtain k where n: "n = Suc k" by (cases n) auto
  let ?f = "\<lambda>p. lv2_osc_writer_packet k u oget unmap (atom_body (packet_atom u umap p))"
  have "\<exists>fs. those (map ?f ps) = Some fs \<and>
    list_all2 (\<lambda>p f. writer_op f (packet_enc p) \<and> (\<forall>rest. sized (packet_enc p) rest)) ps fs"
  proof (rule those_all)
    fix p assume p: "p \<in> set ps"
    have ok: "packet_ok unmap umap p" using PBundle.prems(1) p by (simp add: list_all_iff)
    have sz: "packet_size p < 2 ^ 31" using PBundle.prems(2) packet_size_item [OF p] by simp
    have "packet_depth p \<le> k" using PBundle.prems(3) p by (auto simp: n)
    with PBundle.IH [OF p ok sz] obtain f where "?f p = Some f" "writer_op f (packet_enc p)" by blast
    moreover have "sized (packet_enc p) rest" for rest
      using length_packet_enc [OF ok, of rest] sz by (simp add: sized_def packet_enc_not_Nil)
    ultimately show "\<exists>y. ?f p = Some y \<and> writer_op y (packet_enc p) \<and> (\<forall>rest. sized (packet_enc p) rest)" by blast
  qed
  then obtain fs where fs: "those (map ?f ps) = Some fs"
    and all: "list_all2 (\<lambda>p f. writer_op f (packet_enc p) \<and> (\<forall>rest. sized (packet_enc p) rest)) ps fs" by blast
  have "u_bundleTimetag u \<noteq> u_bundleItems u" using u by (simp add: proper_urid_def)
  note g = finds_pair [OF o this]
  have body: "lv2_osc_bundle_body_get u oget (atom_body (packet_atom u umap (PBundle t ps))) =
      Ok (timetag_atom u t, tuple_atom u (map (packet_atom u umap) ps))"
    using g by (simp add: lv2_osc_bundle_body_get_def object_props_def timetag_atom_def tuple_atom_def object_otype_def)
  have "lv2_osc_writer_packet n u oget unmap (atom_body (packet_atom u umap (PBundle t ps)))
    = Some (writer_bundle t (writer_items fs))"
    using fs u o unfolding n lv2_osc_writer_packet.simps body
    by (simp add: object_otype_def tuple_items_def tuple_atom_def o_def)
  moreover have "writer_op (writer_bundle t (writer_items fs)) (bundle_enc t (items_enc (map packet_enc ps)))"
  proof (rule writer_op_bundle [OF writer_op_items])
    show "list_all2 (\<lambda>f e. writer_op f e \<and> (\<forall>rest. sized e rest)) fs (map packet_enc ps)"
      using all by (auto simp: list_all2_map2 list_all2_conv_all_nth)
    fix rest
    have "length (items_enc (map packet_enc ps) rest) \<le> sum_list (map (\<lambda>p. 4 + packet_size p) ps)"
      using PBundle.prems(1) by (intro length_items_enc length_packet_enc) (auto simp: list_all_iff)
    then show "sized (items_enc (map packet_enc ps)) rest"
      using PBundle.prems(1,2) by (simp add: sized_def items_enc_not_Nil)
  qed
  ultimately show ?case by simp
qed

end
