(* ===== verification/Osc_Reader.thy ===== *)
theory Osc_Reader
  imports Osc_Message
begin

text \<open>
  \<open>osc.lv2/osc.lv2/reader.h\<close>: the reader that takes OSC packets apart in place. Its state is
  the three pointers of \<open>LV2_OSC_Reader\<close>; memory is only read. A getter returns the value it
  stores through its out parameter; on failure the out parameters are not used by any caller
  and are left out. The locale \<open>reader_op\<close> states what the getters of fixed width share.
\<close>

section \<open>The reader and its getters\<close>

record osc_reader =
  rbuf :: addr
  rptr :: addr
  rend :: addr

definition lv2_osc_reader_initialize :: "addr \<Rightarrow> u64 \<Rightarrow> osc_reader" where
  "lv2_osc_reader_initialize buf sz = \<lparr>rbuf = buf, rptr = buf, rend = buf + sz\<rparr>"

definition lv2_osc_reader_overflow :: "osc_reader \<Rightarrow> u64 \<Rightarrow> bool" where
  "lv2_osc_reader_overflow r sz \<longleftrightarrow> rptr r + sz > rend r"

definition r_forward :: "u64 \<Rightarrow> osc_reader \<Rightarrow> osc_reader" where
  "r_forward n r = r\<lparr>rptr := rptr r + n\<rparr>"

definition lv2_osc_reader_be32toh :: "mem \<Rightarrow> (u32, osc_reader) call" where
  "lv2_osc_reader_be32toh m r =
     (if lv2_osc_reader_overflow r 4 then (Fail, r)
      else case ld32 m (rptr r) of None \<Rightarrow> (Fault, r) | Some u \<Rightarrow> (Ok (be32toh u), r_forward 4 r))"

definition lv2_osc_reader_be64toh :: "mem \<Rightarrow> (u64, osc_reader) call" where
  "lv2_osc_reader_be64toh m r =
     (if lv2_osc_reader_overflow r 8 then (Fail, r)
      else case ld64 m (rptr r) of None \<Rightarrow> (Fault, r) | Some u \<Rightarrow> (Ok (be64toh u), r_forward 8 r))"

definition lv2_osc_reader_get_int32 :: "mem \<Rightarrow> (u32, osc_reader) call" where
  "lv2_osc_reader_get_int32 m = lv2_osc_reader_be32toh m"

definition lv2_osc_reader_get_float :: "mem \<Rightarrow> (u32, osc_reader) call" where
  "lv2_osc_reader_get_float m = lv2_osc_reader_be32toh m"

definition lv2_osc_reader_get_int64 :: "mem \<Rightarrow> (u64, osc_reader) call" where
  "lv2_osc_reader_get_int64 m = lv2_osc_reader_be64toh m"

definition lv2_osc_reader_get_timetag :: "mem \<Rightarrow> (u64, osc_reader) call" where
  "lv2_osc_reader_get_timetag m = lv2_osc_reader_be64toh m"

definition lv2_osc_reader_get_double :: "mem \<Rightarrow> (u64, osc_reader) call" where
  "lv2_osc_reader_get_double m = lv2_osc_reader_be64toh m"

text \<open>\<open>strlen\<close> runs before the bounds check.\<close>

definition lv2_osc_reader_get_string :: "mem \<Rightarrow> (addr, osc_reader) call" where
  "lv2_osc_reader_get_string m r =
     (case c_str m (rptr r) of
        None \<Rightarrow> (Fault, r)
      | Some s \<Rightarrow>
          (let str = rptr r; padded = lv2_osc_padded_size (of_nat (length s) + 1) in
           if lv2_osc_reader_overflow r padded then (Fail, r) else (Ok str, r_forward padded r)))"

definition lv2_osc_reader_get_symbol :: "mem \<Rightarrow> (addr, osc_reader) call" where
  "lv2_osc_reader_get_symbol m = lv2_osc_reader_get_string m"

definition lv2_osc_reader_get_midi :: "mem \<Rightarrow> (addr, osc_reader) call" where
  "lv2_osc_reader_get_midi m r =
     (if lv2_osc_reader_overflow r 4 then (Fail, r) else (Ok (rptr r), r_forward 4 r))"

definition lv2_osc_reader_get_blob :: "mem \<Rightarrow> (u32 \<times> addr, osc_reader) call" where
  "lv2_osc_reader_get_blob m =
     call_bind (lv2_osc_reader_get_int32 m) (\<lambda>len r.
       let padded = lv2_osc_padded_size (scast len) in
       if lv2_osc_reader_overflow r padded then (Fail, r) else (Ok (len, rptr r), r_forward padded r))"

definition lv2_osc_reader_get_rgba :: "mem \<Rightarrow> (u8 list, osc_reader) call" where
  "lv2_osc_reader_get_rgba m r =
     (if lv2_osc_reader_overflow r 4 then (Fail, r)
      else case ld m (rptr r) 4 of None \<Rightarrow> (Fault, r) | Some bs \<Rightarrow> (Ok bs, r_forward 4 r))"

definition lv2_osc_reader_get_char :: "mem \<Rightarrow> (u8, osc_reader) call" where
  "lv2_osc_reader_get_char m = call_map ucast (lv2_osc_reader_get_int32 m)"

section \<open>Items of a bundle\<close>

record lv2_osc_item =
  isize :: u32
  ibody :: addr
  itimetag :: u64
  iend :: addr

definition lv2_osc_reader_item_raw :: "mem \<Rightarrow> lv2_osc_item \<Rightarrow> (lv2_osc_item, osc_reader) call" where
  "lv2_osc_reader_item_raw m itm =
     call_bind (lv2_osc_reader_get_int32 m) (\<lambda>sz r.
       if lv2_osc_reader_overflow r (scast sz) then (Fail, r)
       else (Ok (itm\<lparr>isize := sz, ibody := rptr r\<rparr>), r))"

definition lv2_osc_reader_item_begin :: "mem \<Rightarrow> lv2_osc_item \<Rightarrow> u64 \<Rightarrow> (lv2_osc_item, osc_reader) call" where
  "lv2_osc_reader_item_begin m itm len r =
     (if lv2_osc_reader_overflow r len then (Fail, r)
      else let itm1 = itm\<lparr>iend := rptr r + len\<rparr> in
        if lv2_osc_reader_overflow r 16 then (Fail, r)
        else case strn_eq m (rptr r) bundle_tag of
            None \<Rightarrow> (Fault, r)
          | Some False \<Rightarrow> (Fail, r)
          | Some True \<Rightarrow>
              call_bind (lv2_osc_reader_get_timetag m) (\<lambda>t.
                lv2_osc_reader_item_raw m (itm1\<lparr>itimetag := t\<rparr>)) (r_forward 8 r))"

definition lv2_osc_reader_item_is_end :: "osc_reader \<Rightarrow> lv2_osc_item \<Rightarrow> bool" where
  "lv2_osc_reader_item_is_end r itm \<longleftrightarrow> rptr r > iend itm"

definition lv2_osc_reader_item_next :: "mem \<Rightarrow> lv2_osc_item \<Rightarrow> (lv2_osc_item, osc_reader) call" where
  "lv2_osc_reader_item_next m itm r = lv2_osc_reader_item_raw m itm (r_forward (scast (isize itm)) r)"

text \<open>
  The \<open>for\<close> loop of \<open>OSC_READER_BUNDLE_FOREACH\<close>, collecting the items its body sees. The loop
  may not end, so it runs on fuel; \<open>None\<close> is running out of it.
\<close>

definition bundle_begin :: "mem \<Rightarrow> u64 \<Rightarrow> (lv2_osc_item, osc_reader) call" where
  "bundle_begin m len =
     lv2_osc_reader_item_begin m \<lparr>isize = 0, ibody = 0, itimetag = 1, iend = 0\<rparr> len"

fun bundle_iterate :: "nat \<Rightarrow> mem \<Rightarrow> lv2_osc_item result \<times> osc_reader
    \<Rightarrow> (lv2_osc_item list result \<times> osc_reader) option" where
  "bundle_iterate 0 m cur = None"
| "bundle_iterate (Suc n) m (Fault, r) = Some (Fault, r)"
| "bundle_iterate (Suc n) m (Fail, r) = Some (Ok [], r)"
| "bundle_iterate (Suc n) m (Ok itm, r) =
     (if lv2_osc_reader_item_is_end r itm then Some (Ok [], r)
      else map_option (\<lambda>res. case res of
              (Ok itms, r') \<Rightarrow> (Ok (itm # itms), r')
            | (Fail, r') \<Rightarrow> (Fail, r')
            | (Fault, r') \<Rightarrow> (Fault, r'))
        (bundle_iterate n m (lv2_osc_reader_item_next m itm r)))"

definition bundle_foreach :: "nat \<Rightarrow> mem \<Rightarrow> u64 \<Rightarrow> osc_reader
    \<Rightarrow> (lv2_osc_item list result \<times> osc_reader) option" where
  "bundle_foreach fuel m len r = bundle_iterate fuel m (bundle_begin m len r)"

section \<open>Arguments of a message\<close>

text \<open>The union in \<open>LV2_OSC_Arg\<close>; \<open>s\<close>, \<open>b\<close>, \<open>m\<close> and \<open>S\<close> are pointers in the same place.\<close>

datatype arg_union = UInt u32 | UFloat u32 | UPtr addr | ULong u64 | UDouble u64 | UTime u64
  | UChar u8 | URgba "u8 list"

record lv2_osc_arg =
  atype :: addr
  asize :: u32
  aval :: arg_union
  apath :: addr
  aend :: addr

definition set_arg :: "lv2_osc_arg \<Rightarrow> u32 \<Rightarrow> arg_union \<Rightarrow> lv2_osc_arg" where
  "set_arg arg n v = arg\<lparr>asize := n, aval := v\<rparr>"

definition c_strlen_arg :: "mem \<Rightarrow> lv2_osc_arg \<Rightarrow> addr \<Rightarrow> (lv2_osc_arg, osc_reader) call" where
  "c_strlen_arg m arg p r =
     (case c_str m p of None \<Rightarrow> (Fault, r) | Some s \<Rightarrow> (Ok (set_arg arg (of_nat (length s + 1)) (UPtr p)), r))"

definition lv2_osc_reader_arg_raw :: "mem \<Rightarrow> lv2_osc_arg \<Rightarrow> (lv2_osc_arg, osc_reader) call" where
  "lv2_osc_reader_arg_raw m arg r =
     (case m (atype arg) of
        None \<Rightarrow> (Fault, r)
      | Some c \<Rightarrow>
         (case type_of_char c of
            None \<Rightarrow> (Ok arg, r)
          | Some OSC_INT32 \<Rightarrow> call_map (\<lambda>i. set_arg arg 4 (UInt i)) (lv2_osc_reader_get_int32 m) r
          | Some OSC_FLOAT \<Rightarrow> call_map (\<lambda>f. set_arg arg 4 (UFloat f)) (lv2_osc_reader_get_float m) r
          | Some OSC_STRING \<Rightarrow> call_bind (lv2_osc_reader_get_string m) (c_strlen_arg m arg) r
          | Some OSC_BLOB \<Rightarrow> call_map (\<lambda>(len, b). set_arg arg len (UPtr b)) (lv2_osc_reader_get_blob m) r
          | Some OSC_TRUE \<Rightarrow> (Ok arg, r)
          | Some OSC_FALSE \<Rightarrow> (Ok arg, r)
          | Some OSC_NIL \<Rightarrow> (Ok arg, r)
          | Some OSC_IMPULSE \<Rightarrow> (Ok arg, r)
          | Some OSC_INT64 \<Rightarrow> call_map (\<lambda>h. set_arg arg 8 (ULong h)) (lv2_osc_reader_get_int64 m) r
          | Some OSC_DOUBLE \<Rightarrow> call_map (\<lambda>d. set_arg arg 8 (UDouble d)) (lv2_osc_reader_get_double m) r
          | Some OSC_TIMETAG \<Rightarrow> call_map (\<lambda>t. set_arg arg 8 (UTime t)) (lv2_osc_reader_get_timetag m) r
          | Some OSC_MIDI \<Rightarrow> call_map (\<lambda>p. set_arg arg 4 (UPtr p)) (lv2_osc_reader_get_midi m) r
          | Some OSC_SYMBOL \<Rightarrow> call_bind (lv2_osc_reader_get_symbol m) (c_strlen_arg m arg) r
          | Some OSC_CHAR \<Rightarrow> call_map (\<lambda>c. set_arg arg 4 (UChar c)) (lv2_osc_reader_get_char m) r
          | Some OSC_RGBA \<Rightarrow> call_map (\<lambda>bs. set_arg arg 4 (URgba bs)) (lv2_osc_reader_get_rgba m) r))"

definition lv2_osc_reader_arg_begin :: "mem \<Rightarrow> lv2_osc_arg \<Rightarrow> u64 \<Rightarrow> (lv2_osc_arg, osc_reader) call" where
  "lv2_osc_reader_arg_begin m arg len r =
     (if lv2_osc_reader_overflow r len then (Fail, r)
      else let arg1 = arg\<lparr>aend := rptr r + len\<rparr> in
        call_bind (lv2_osc_reader_get_string m) (\<lambda>path.
        call_bind (lv2_osc_reader_get_string m) (\<lambda>type r.
          case m type of
            None \<Rightarrow> (Fault, r)
          | Some c \<Rightarrow> if c \<noteq> comma then (Fail, r)
              else lv2_osc_reader_arg_raw m (arg1\<lparr>apath := path, atype := type + 1\<rparr>) r)) r)"

definition lv2_osc_reader_arg_is_end :: "mem \<Rightarrow> osc_reader \<Rightarrow> lv2_osc_arg \<Rightarrow> bool option" where
  "lv2_osc_reader_arg_is_end m r arg =
     map_option (\<lambda>c. c = 0 \<or> rptr r > aend arg) (m (atype arg))"

definition lv2_osc_reader_arg_next :: "mem \<Rightarrow> lv2_osc_arg \<Rightarrow> (lv2_osc_arg, osc_reader) call" where
  "lv2_osc_reader_arg_next m arg = lv2_osc_reader_arg_raw m (arg\<lparr>atype := atype arg + 1\<rparr>)"

definition message_begin :: "mem \<Rightarrow> u64 \<Rightarrow> (lv2_osc_arg, osc_reader) call" where
  "message_begin m len =
     lv2_osc_reader_arg_begin m \<lparr>atype = 0, asize = 0, aval = UInt 0, apath = 0, aend = 0\<rparr> len"

fun message_iterate :: "nat \<Rightarrow> mem \<Rightarrow> lv2_osc_arg result \<times> osc_reader
    \<Rightarrow> (lv2_osc_arg list result \<times> osc_reader) option" where
  "message_iterate 0 m cur = None"
| "message_iterate (Suc n) m (Fault, r) = Some (Fault, r)"
| "message_iterate (Suc n) m (Fail, r) = Some (Ok [], r)"
| "message_iterate (Suc n) m (Ok arg, r) =
     (case lv2_osc_reader_arg_is_end m r arg of
        None \<Rightarrow> Some (Fault, r)
      | Some True \<Rightarrow> Some (Ok [], r)
      | Some False \<Rightarrow> map_option (\<lambda>res. case res of
              (Ok args, r') \<Rightarrow> (Ok (arg # args), r')
            | (Fail, r') \<Rightarrow> (Fail, r')
            | (Fault, r') \<Rightarrow> (Fault, r'))
          (message_iterate n m (lv2_osc_reader_arg_next m arg r)))"

definition message_foreach :: "nat \<Rightarrow> mem \<Rightarrow> u64 \<Rightarrow> osc_reader
    \<Rightarrow> (lv2_osc_arg list result \<times> osc_reader) option" where
  "message_foreach fuel m len r = message_iterate fuel m (message_begin m len r)"

text \<open>\<open>lv2_osc_reader_arg_varlist\<close> stores through one pointer per value; here it returns the values.\<close>

fun lv2_osc_reader_arg_varlist :: "mem \<Rightarrow> u8 list \<Rightarrow> (arg_union list, osc_reader) call" where
  "lv2_osc_reader_arg_varlist m [] r = (Ok [], r)"
| "lv2_osc_reader_arg_varlist m (c # fmt) r =
     (let also = (\<lambda>get. call_bind get (\<lambda>vs. call_map ((@) vs) (lv2_osc_reader_arg_varlist m fmt)) r) in
      case type_of_char c of
        None \<Rightarrow> lv2_osc_reader_arg_varlist m fmt r
      | Some OSC_INT32 \<Rightarrow> also (call_map (\<lambda>i. [UInt i]) (lv2_osc_reader_get_int32 m))
      | Some OSC_FLOAT \<Rightarrow> also (call_map (\<lambda>f. [UFloat f]) (lv2_osc_reader_get_float m))
      | Some OSC_STRING \<Rightarrow> also (call_map (\<lambda>s. [UPtr s]) (lv2_osc_reader_get_string m))
      | Some OSC_BLOB \<Rightarrow> also (call_map (\<lambda>(len, b). [UInt len, UPtr b]) (lv2_osc_reader_get_blob m))
      | Some OSC_TRUE \<Rightarrow> lv2_osc_reader_arg_varlist m fmt r
      | Some OSC_FALSE \<Rightarrow> lv2_osc_reader_arg_varlist m fmt r
      | Some OSC_NIL \<Rightarrow> lv2_osc_reader_arg_varlist m fmt r
      | Some OSC_IMPULSE \<Rightarrow> lv2_osc_reader_arg_varlist m fmt r
      | Some OSC_INT64 \<Rightarrow> also (call_map (\<lambda>h. [ULong h]) (lv2_osc_reader_get_int64 m))
      | Some OSC_DOUBLE \<Rightarrow> also (call_map (\<lambda>d. [UDouble d]) (lv2_osc_reader_get_double m))
      | Some OSC_TIMETAG \<Rightarrow> also (call_map (\<lambda>t. [UTime t]) (lv2_osc_reader_get_timetag m))
      | Some OSC_MIDI \<Rightarrow> also (call_map (\<lambda>p. [UPtr p]) (lv2_osc_reader_get_midi m))
      | Some OSC_SYMBOL \<Rightarrow> also (call_map (\<lambda>s. [UPtr s]) (lv2_osc_reader_get_symbol m))
      | Some OSC_CHAR \<Rightarrow> also (call_map (\<lambda>c. [UChar c]) (lv2_osc_reader_get_char m))
      | Some OSC_RGBA \<Rightarrow> also (call_map (\<lambda>bs. [URgba bs]) (lv2_osc_reader_get_rgba m)))"

definition lv2_osc_reader_arg_vararg :: "mem \<Rightarrow> u8 list \<Rightarrow> (arg_union list, osc_reader) call" where
  "lv2_osc_reader_arg_vararg m fmt = lv2_osc_reader_arg_varlist m fmt"

definition lv2_osc_reader_is_bundle :: "mem \<Rightarrow> osc_reader \<Rightarrow> bool option" where
  "lv2_osc_reader_is_bundle m r = strn_eq m (rptr r) bundle_tag"

definition lv2_osc_reader_is_message :: "mem \<Rightarrow> osc_reader \<Rightarrow> bool option" where
  "lv2_osc_reader_is_message m r = map_option (\<lambda>c. c = slash) (m (rptr r))"

section \<open>Dispatch over a tree\<close>

text \<open>
  A branch gets a copy of the reader and the argument itself, which it may advance; \<open>run\<close>
  is what the branches do, on the argument and the caller's data.
\<close>

datatype 'b tree = Tree (tree_name: "u8 list") (tree_trees: "'b tree list option") (tree_branch: "'b option")

function (sequential) trees_internal ::
    "(u8 list \<Rightarrow> u8 list \<Rightarrow> bool) \<Rightarrow> ('b \<Rightarrow> osc_reader \<Rightarrow> 's \<Rightarrow> 's) \<Rightarrow> osc_reader \<Rightarrow> u8 list
     \<Rightarrow> 'b tree list \<Rightarrow> (unit, 's) call" where
  "trees_internal fnm run r from [] s = (Ok (), s)"
| "trees_internal fnm run r from (Tree name sub br # ts) s =
     (let ptr = after_slash from; len = length (component from) in
      case lv2_osc_pattern_match fnm from name len of
        None \<Rightarrow> (Fault, s)
      | Some False \<Rightarrow> trees_internal fnm run r from ts s
      | Some True \<Rightarrow>
          (case (sub, ptr) of
             (Some trees, Some rest) \<Rightarrow>
               (let s1 = (case br of None \<Rightarrow> s | Some b \<Rightarrow> run b r s) in
                case trees_internal fnm run r rest trees s1 of
                  (Ok _, s2) \<Rightarrow> trees_internal fnm run r from ts s2
                | (Fail, s2) \<Rightarrow> (Fail, s2)
                | (Fault, s2) \<Rightarrow> (Fault, s2))
           | (_, None) \<Rightarrow> trees_internal fnm run r from ts (case br of None \<Rightarrow> s | Some b \<Rightarrow> run b r s)
           | _ \<Rightarrow> trees_internal fnm run r from ts s))"
  by pat_completeness auto
termination
  by (relation "measure (\<lambda>(_, _, _, _, ts, _). size_list size ts)") auto

text \<open>A message whose start cannot be read gives a null argument, which the code dereferences.\<close>

definition lv2_osc_reader_match ::
    "(u8 list \<Rightarrow> u8 list \<Rightarrow> bool) \<Rightarrow> ('b \<Rightarrow> osc_reader \<Rightarrow> lv2_osc_arg \<times> 'd \<Rightarrow> lv2_osc_arg \<times> 'd) \<Rightarrow> mem \<Rightarrow> u64
     \<Rightarrow> 'b tree list \<Rightarrow> osc_reader \<Rightarrow> 'd \<Rightarrow> (unit result \<times> 'd)" where
  "lv2_osc_reader_match fnm run m len trees r d =
     (case message_begin m len r of
        (Ok arg, r1) \<Rightarrow>
          (case c_str m (apath arg + 1) of
             None \<Rightarrow> (Fault, d)
           | Some from \<Rightarrow> (case trees_internal fnm run r1 from trees (arg, d) of (res, (_, d')) \<Rightarrow> (res, d')))
      | _ \<Rightarrow> (Fault, d))"

text \<open>The branches a path reaches, in the order they are called.\<close>

function (sequential) branches :: "(u8 list \<Rightarrow> u8 list \<Rightarrow> bool) \<Rightarrow> u8 list \<Rightarrow> 'b tree list \<Rightarrow> 'b list" where
  "branches fnm from [] = []"
| "branches fnm from (Tree name sub br # ts) =
     (if fnm (pattern_buffer (component from)) name
      then (case (after_slash from, sub) of
              (Some rest, Some trees) \<Rightarrow> (case br of None \<Rightarrow> [] | Some b \<Rightarrow> [b]) @ branches fnm rest trees
            | (Some rest, None) \<Rightarrow> []
            | (None, _) \<Rightarrow> (case br of None \<Rightarrow> [] | Some b \<Rightarrow> [b]))
      else []) @ branches fnm from ts"
  by pat_completeness auto
termination
  by (relation "measure (\<lambda>(_, _, ts). size_list size ts)") auto

lemma after_slash_no_zero: "0 \<notin> set from \<Longrightarrow> after_slash from = Some rest \<Longrightarrow> 0 \<notin> set rest"
  by (auto simp: after_slash_def split: list.splits dest: set_dropWhileD)
    (metis list.set_intros(2) set_dropWhileD)

lemma trees_internal_branches:
  "0 \<notin> set from \<Longrightarrow>
   trees_internal fnm run r from ts s = (Ok (), fold (\<lambda>b. run b r) (branches fnm from ts) s)"
proof (induction fnm "from" ts arbitrary: s rule: branches.induct)
  case (1 fnm "from")
  then show ?case by simp
next
  case (2 fnm "from" name sub br ts)
  note match = component_match [OF 2(3)]
  have rest: "trees_internal fnm run r from ts s = (Ok (), fold (\<lambda>b. run b r) (branches fnm from ts) s)" for s
    using 2 by blast
  show ?case
  proof (cases "fnm (pattern_buffer (component from)) name")
    case False
    then show ?thesis by (simp add: match rest)
  next
    case hit: True
    show ?thesis
    proof (cases "after_slash from")
      case None
      with hit show ?thesis by (simp add: match rest split: option.split)
    next
      case (Some tail)
      have "trees_internal fnm run r tail trees s = (Ok (), fold (\<lambda>b. run b r) (branches fnm tail trees) s)"
        if "sub = Some trees" for trees s
        using 2(1) [OF hit refl Some that] after_slash_no_zero [OF 2(3) Some] by blast
      with Some hit show ?thesis by (simp add: match rest split: option.split)
    qed
  qed
qed

section \<open>A view of the buffer and the getters' contract\<close>

text \<open>\<open>rview m r bs\<close>: the reader has exactly \<open>bs\<close> before it, 8 GiB below the top of memory.\<close>

definition rview :: "mem \<Rightarrow> osc_reader \<Rightarrow> u8 list \<Rightarrow> bool" where
  "rview m r bs \<longleftrightarrow> mem_at m (rptr r) bs \<and> rend r = rptr r + of_nat (length bs) \<and>
     unat (rptr r) + length bs + 2 ^ 33 \<le> 2 ^ 64"

lemma r_forward_simps [simp]:
  "rptr (r_forward n r) = rptr r + n" "rend (r_forward n r) = rend r" "rbuf (r_forward n r) = rbuf r"
  by (simp_all add: r_forward_def)

lemma r_forward_add [simp]: "r_forward a (r_forward b r) = r_forward (b + a) r"
  by (simp add: r_forward_def add.assoc)

lemma r_forward_0 [simp]: "r_forward 0 r = r"
  by (simp add: r_forward_def)

lemma roverflow_view:
  assumes "rview m r bs" and "unat n < 2 ^ 33"
  shows "lv2_osc_reader_overflow r n \<longleftrightarrow> length bs < unat n"
proof -
  have b: "unat (rptr r) + length bs + 2 ^ 33 \<le> 2 ^ 64" using assms by (simp add: rview_def)
  then have "unat (rptr r + n) = unat (rptr r) + unat n"
    using assms(2) by (simp add: unat_word_ariths)
  moreover have "unat (rend r) = unat (rptr r) + length bs"
    using assms b by (simp add: rview_def unat_word_ariths)
  ultimately show ?thesis by (auto simp: lv2_osc_reader_overflow_def word_less_nat_alt)
qed

lemma rview_forward:
  assumes "rview m r bs" and "n \<le> length bs"
  shows "rview m (r_forward (of_nat n) r) (drop n bs)"
proof -
  have b: "unat (rptr r) + length bs + 2 ^ 33 \<le> 2 ^ 64" using assms by (simp add: rview_def)
  then have "unat (rptr r + of_nat n) = unat (rptr r) + n"
    using assms(2) by (simp add: unat_word_ariths)
  moreover have "rptr r + of_nat (length bs) = rptr r + of_nat n + of_nat (length bs - n)"
    using assms(2) by (simp add: of_nat_diff)
  ultimately show ?thesis
    using assms b mem_at_split [of m "rptr r" bs n] by (simp add: rview_def del: of_nat_diff)
qed

locale reader_op =
  fixes get :: "mem \<Rightarrow> ('a, osc_reader) call" and k :: nat and dec :: "mem \<Rightarrow> addr \<Rightarrow> u8 list \<Rightarrow> 'a"
  assumes enough: "rview m r bs \<Longrightarrow> k \<le> length bs
      \<Longrightarrow> get m r = (Ok (dec m (rptr r) (take k bs)), r_forward (of_nat k) r)"
    and short: "rview m r bs \<Longrightarrow> length bs < k \<Longrightarrow> get m r = (Fail, r)"
begin

lemma never_faults: "rview m r bs \<Longrightarrow> fst (get m r) \<noteq> Fault"
  using enough short by (cases "k \<le> length bs") fastforce+

lemma succeeds_iff: "rview m r bs \<Longrightarrow> (\<exists>v. fst (get m r) = Ok v) \<longleftrightarrow> k \<le> length bs"
  using enough short by (cases "k \<le> length bs") fastforce+

lemma stays_inside: "rview m r bs \<Longrightarrow> \<exists>n \<le> length bs. rview m (snd (get m r)) (drop n bs)"
proof (cases "k \<le> length bs")
  case True
  assume "rview m r bs"
  with True show ?thesis using enough rview_forward by (intro exI [of _ k]) simp
next
  case False
  assume "rview m r bs"
  with False show ?thesis using short by (intro exI [of _ 0]) simp
qed

lemma reads:
  assumes "rview m r (bs @ rest)" and "length bs = k"
  shows "get m r = (Ok (dec m (rptr r) bs), r_forward (of_nat k) r) \<and> rview m (r_forward (of_nat k) r) rest"
  using enough [OF assms(1)] rview_forward [OF assms(1), of k] assms(2) by simp

end

lemma rview_mem_at: "rview m r bs \<Longrightarrow> mem_at m (rptr r) bs"
  by (simp add: rview_def)

lemma be32toh_view:
  "rview m r bs \<Longrightarrow> lv2_osc_reader_be32toh m r =
     (if 4 \<le> length bs then (Ok (de32 (take 4 bs)), r_forward 4 r) else (Fail, r))"
  using ld32_view [OF rview_mem_at, of m r bs]
  by (auto simp: lv2_osc_reader_be32toh_def roverflow_view split: option.splits)

lemma be64toh_view:
  "rview m r bs \<Longrightarrow> lv2_osc_reader_be64toh m r =
     (if 8 \<le> length bs then (Ok (de64 (take 8 bs)), r_forward 8 r) else (Fail, r))"
  using ld64_view [OF rview_mem_at, of m r bs]
  by (auto simp: lv2_osc_reader_be64toh_def roverflow_view split: option.splits)

interpretation r_int32: reader_op lv2_osc_reader_get_int32 4 "\<lambda>_ _. de32"
  by unfold_locales (simp_all add: lv2_osc_reader_get_int32_def be32toh_view)

interpretation r_float: reader_op lv2_osc_reader_get_float 4 "\<lambda>_ _. de32"
  by unfold_locales (simp_all add: lv2_osc_reader_get_float_def be32toh_view)

interpretation r_int64: reader_op lv2_osc_reader_get_int64 8 "\<lambda>_ _. de64"
  by unfold_locales (simp_all add: lv2_osc_reader_get_int64_def be64toh_view)

interpretation r_timetag: reader_op lv2_osc_reader_get_timetag 8 "\<lambda>_ _. de64"
  by unfold_locales (simp_all add: lv2_osc_reader_get_timetag_def be64toh_view)

interpretation r_double: reader_op lv2_osc_reader_get_double 8 "\<lambda>_ _. de64"
  by unfold_locales (simp_all add: lv2_osc_reader_get_double_def be64toh_view)

interpretation r_midi: reader_op lv2_osc_reader_get_midi 4 "\<lambda>_ p _. p"
  by unfold_locales (simp_all add: lv2_osc_reader_get_midi_def roverflow_view)

interpretation r_rgba: reader_op lv2_osc_reader_get_rgba 4 "\<lambda>_ _ bs. bs"
  by unfold_locales (simp_all add: lv2_osc_reader_get_rgba_def roverflow_view ld_take [OF rview_mem_at])

interpretation r_char: reader_op lv2_osc_reader_get_char 4 "\<lambda>_ _ bs. ucast (de32 bs)"
  by unfold_locales (simp_all add: lv2_osc_reader_get_char_def r_int32.enough r_int32.short)

end
