(* ===== verification/Osc_Roundtrip.thy ===== *)
theory Osc_Roundtrip
  imports Osc_Reader
begin

text \<open>
  What the reader makes of the bytes the writer produces. \<open>arg_wire\<close> says which byte strings
  encode an argument (padding that the writer leaves as it was may be anything), \<open>arg_view\<close>
  when an \<open>LV2_OSC_Arg\<close> shows an argument. Reading a well-formed message shows its
  arguments, reading a well-formed bundle shows its items, and what was written reads back.
\<close>

section \<open>Strings and blobs\<close>

lemma get_string_view:
  assumes v: "rview m r (s @ 0 # t)" and nz: "0 \<notin> set s" and len: "length s < 2 ^ 32"
  shows "lv2_osc_reader_get_string m r =
    (if pad4 (length s + 1) \<le> length (s @ 0 # t)
     then (Ok (rptr r), r_forward (of_nat (pad4 (length s + 1))) r) else (Fail, r))"
proof -
  have b: "unat (rptr r) + length (s @ 0 # t) + 2 ^ 33 \<le> 2 ^ 64"
    using v by (simp add: rview_def)
  have str: "c_str m (rptr r) = Some s"
    using v nz b by (intro c_str_view [of m "rptr r" s t]) (simp_all add: rview_def)
  have pad: "lv2_osc_padded_size (of_nat (length s) + 1) = of_nat (pad4 (length s + 1))"
    using padded_size_of_nat [of "length s + 1"] len by (simp add: add.commute)
  have "pad4 (length s + 1) < 2 ^ 33"
    using pad4_bounds(2) [of "length s + 1"] len by simp
  with str v show ?thesis
    by (auto simp: lv2_osc_reader_get_string_def pad roverflow_view)
qed

lemma get_string_reads:
  assumes v: "rview m r (enc_string s @ rest)" and nz: "0 \<notin> set s" and len: "length s < 2 ^ 32"
  shows "lv2_osc_reader_get_string m r = (Ok (rptr r), r_forward (of_nat (pad4 (length s + 1))) r)"
    and "rview m (r_forward (of_nat (pad4 (length s + 1))) r) rest"
    and "c_str m (rptr r) = Some s"
proof -
  obtain k where k: "enc_string s = s @ 0 # replicate k 0"
    using enc_string_Cons0 by blast
  from v have v': "rview m r (s @ 0 # (replicate k 0 @ rest))" by (simp add: k)
  have "pad4 (length s + 1) \<le> length (s @ 0 # (replicate k 0 @ rest))"
    using length_enc_string [of s] by (simp add: k)
  with get_string_view [OF v' nz len] show
    "lv2_osc_reader_get_string m r = (Ok (rptr r), r_forward (of_nat (pad4 (length s + 1))) r)" by simp
  show "rview m (r_forward (of_nat (pad4 (length s + 1))) r) rest"
    using rview_forward [OF v, of "pad4 (length s + 1)"] by simp
  show "c_str m (rptr r) = Some s"
    using v' nz by (intro c_str_view) (auto simp: rview_def)
qed

text \<open>A string without a terminator in the buffer is read past its end.\<close>

lemma get_string_unterminated:
  assumes "rview m r bs" and "0 \<notin> set bs" and "m (rend r) = None"
  shows "lv2_osc_reader_get_string m r = (Fault, r)"
proof -
  have "c_str m (rptr r) = None"
    using assms by (intro c_str_runs_out) (auto simp: rview_def)
  then show ?thesis by (simp add: lv2_osc_reader_get_string_def)
qed

definition blob_wire :: "u8 list \<Rightarrow> u8 list \<Rightarrow> bool" where
  "blob_wire b bs \<longleftrightarrow> (\<exists>pad. bs = be32 (of_nat (length b)) @ b @ pad \<and> length (b @ pad) = pad4 (length b))"

lemma get_blob_reads:
  assumes v: "rview m r (bs @ rest)" and w: "blob_wire b bs" and len: "length b < 2 ^ 31"
  shows "lv2_osc_reader_get_blob m r = (Ok (of_nat (length b), rptr r + 4), r_forward (of_nat (length bs)) r)"
    and "rview m (r_forward (of_nat (length bs)) r) rest" and "mem_at m (rptr r + 4) b"
proof -
  obtain pad where bs: "bs = be32 (of_nat (length b)) @ b @ pad" "length (b @ pad) = pad4 (length b)"
    using w by (auto simp: blob_wire_def)
  have v4: "rview m r (be32 (of_nat (length b)) @ ((b @ pad) @ rest))" using v bs by simp
  from r_int32.reads [OF this] have i:
    "lv2_osc_reader_get_int32 m r = (Ok (of_nat (length b)), r_forward 4 r)"
    "rview m (r_forward 4 r) ((b @ pad) @ rest)" by simp_all
  have sc: "scast (of_nat (length b) :: u32) = (of_nat (length b) :: u64)"
    using len by (rule scast_of_nat31)
  have p: "lv2_osc_padded_size (of_nat (length b)) = of_nat (pad4 (length b))"
    by (rule padded_size_of_nat) (use len in simp)
  have "pad4 (length b) < 2 ^ 33" using pad4_bounds(2) [of "length b"] len by simp
  then have "\<not> lv2_osc_reader_overflow (r_forward 4 r) (of_nat (pad4 (length b)))"
    using bs(2) by (subst roverflow_view [OF i(2)]) simp_all
  then show "lv2_osc_reader_get_blob m r = (Ok (of_nat (length b), rptr r + 4), r_forward (of_nat (length bs)) r)"
    using bs by (simp add: lv2_osc_reader_get_blob_def i sc p)
  show "rview m (r_forward (of_nat (length bs)) r) rest"
    using rview_forward [OF v, of "length bs"] by simp
  show "mem_at m (rptr r + 4) b"
    using rview_mem_at [OF i(2)] by simp
qed

section \<open>Arguments on the wire and in an argument struct\<close>

fun arg_wire :: "osc_arg \<Rightarrow> u8 list \<Rightarrow> bool" where
  "arg_wire (AInt i) bs \<longleftrightarrow> bs = be32 i"
| "arg_wire (AFloat f) bs \<longleftrightarrow> bs = be32 f"
| "arg_wire (AString s) bs \<longleftrightarrow> bs = enc_string s"
| "arg_wire (ABlob b) bs \<longleftrightarrow> blob_wire b bs"
| "arg_wire ATrue bs \<longleftrightarrow> bs = []"
| "arg_wire AFalse bs \<longleftrightarrow> bs = []"
| "arg_wire ANil bs \<longleftrightarrow> bs = []"
| "arg_wire AImpulse bs \<longleftrightarrow> bs = []"
| "arg_wire (ALong h) bs \<longleftrightarrow> bs = be64 h"
| "arg_wire (ADouble d) bs \<longleftrightarrow> bs = be64 d"
| "arg_wire (ATimetag t) bs \<longleftrightarrow> bs = be64 t"
| "arg_wire (ASymbol s) bs \<longleftrightarrow> bs = enc_string s"
| "arg_wire (AChar c) bs \<longleftrightarrow> bs = be32 (scast c)"
| "arg_wire (AMidi m) bs \<longleftrightarrow> length bs = 4 \<and> take (length m) bs = m"
| "arg_wire (ARgba r g b a) bs \<longleftrightarrow> bs = [r, g, b, a]"

fun args_wire :: "osc_arg list \<Rightarrow> u8 list \<Rightarrow> bool" where
  "args_wire [] bs \<longleftrightarrow> bs = []"
| "args_wire (a # as) bs \<longleftrightarrow> (\<exists>x y. bs = x @ y \<and> arg_wire a x \<and> args_wire as y)"

fun arg_shows :: "mem \<Rightarrow> u32 \<Rightarrow> arg_union \<Rightarrow> osc_arg \<Rightarrow> bool" where
  "arg_shows m n v (AInt i) \<longleftrightarrow> n = 4 \<and> v = UInt i"
| "arg_shows m n v (AFloat f) \<longleftrightarrow> n = 4 \<and> v = UFloat f"
| "arg_shows m n v (AString s) \<longleftrightarrow>
     n = of_nat (length s + 1) \<and> (\<exists>p. v = UPtr p \<and> c_str m p = Some s)"
| "arg_shows m n v (ABlob b) \<longleftrightarrow> n = of_nat (length b) \<and> (\<exists>p. v = UPtr p \<and> mem_at m p b)"
| "arg_shows m n v ATrue \<longleftrightarrow> True"
| "arg_shows m n v AFalse \<longleftrightarrow> True"
| "arg_shows m n v ANil \<longleftrightarrow> True"
| "arg_shows m n v AImpulse \<longleftrightarrow> True"
| "arg_shows m n v (ALong h) \<longleftrightarrow> n = 8 \<and> v = ULong h"
| "arg_shows m n v (ADouble d) \<longleftrightarrow> n = 8 \<and> v = UDouble d"
| "arg_shows m n v (ATimetag t) \<longleftrightarrow> n = 8 \<and> v = UTime t"
| "arg_shows m n v (ASymbol s) \<longleftrightarrow>
     n = of_nat (length s + 1) \<and> (\<exists>p. v = UPtr p \<and> c_str m p = Some s)"
| "arg_shows m n v (AChar c) \<longleftrightarrow> n = 4 \<and> v = UChar c"
| "arg_shows m n v (AMidi bs) \<longleftrightarrow> n = 4 \<and> (\<exists>p. v = UPtr p \<and> mem_at m p bs)"
| "arg_shows m n v (ARgba r g b a) \<longleftrightarrow> n = 4 \<and> v = URgba [r, g, b, a]"

definition arg_view :: "mem \<Rightarrow> lv2_osc_arg \<Rightarrow> osc_arg \<Rightarrow> bool" where
  "arg_view m arg a \<longleftrightarrow>
     m (atype arg) = Some (type_char (arg_type a)) \<and> arg_shows m (asize arg) (aval arg) a"

lemma set_arg_simps [simp]:
  "atype (set_arg arg n v) = atype arg" "apath (set_arg arg n v) = apath arg"
  "aend (set_arg arg n v) = aend arg" "asize (set_arg arg n v) = n" "aval (set_arg arg n v) = v"
  by (simp_all add: set_arg_def)

lemma set_arg_same [simp]: "\<exists>n v. arg = set_arg arg n v"
  by (rule exI [of _ "asize arg"], rule exI [of _ "aval arg"]) (simp add: set_arg_def)

lemmas reader_reads = r_int32.reads r_float.reads r_int64.reads r_double.reads r_timetag.reads
  r_char.reads r_rgba.reads r_midi.reads

text \<open>Reading one argument shows it, and leaves the reader after its bytes.\<close>

lemma arg_raw_reads:
  assumes v: "rview m r (bs @ rest)" and w: "arg_wire a bs" and ok: "arg_ok a"
    and c: "m (atype arg) = Some (type_char (arg_type a))"
  shows "\<exists>n v. lv2_osc_reader_arg_raw m arg r = (Ok (set_arg arg n v), r_forward (of_nat (length bs)) r)
    \<and> arg_shows m n v a"
proof -
  note unf = lv2_osc_reader_arg_raw_def c c_strlen_arg_def lv2_osc_reader_get_symbol_def
  show ?thesis
  proof (cases a)
    case (AString s)
    with v w ok have "rview m r (enc_string s @ rest)" "0 \<notin> set s" "length s < 2 ^ 32" by simp_all
    note g = get_string_reads [OF this]
    show ?thesis using AString w g by (simp add: unf del: type_char.simps) blast
  next
    case (ASymbol s)
    with v w ok have "rview m r (enc_string s @ rest)" "0 \<notin> set s" "length s < 2 ^ 32" by simp_all
    note g = get_string_reads [OF this]
    show ?thesis using ASymbol w g by (simp add: unf del: type_char.simps) blast
  next
    case (ABlob b)
    with w ok have "blob_wire b bs" "length b < 2 ^ 31" by simp_all
    note g = get_blob_reads [OF v this]
    show ?thesis using ABlob g by (simp add: unf del: type_char.simps) blast
  next
    case (AMidi x)
    have "length bs = 4" "mem_at m (rptr r) x"
      using AMidi w ok rview_mem_at [OF v] mem_at_split [of m "rptr r" bs "length x"] by auto
    with r_midi.reads [OF v] AMidi show ?thesis
      by (simp add: unf del: type_char.simps) blast
  qed (use v w reader_reads [of m r bs rest] in
      \<open>auto simp: unf simp del: type_char.simps\<close>)
qed

section \<open>Reading a message\<close>

definition message_wire :: "u8 list \<Rightarrow> osc_arg list \<Rightarrow> u8 list \<Rightarrow> bool" where
  "message_wire path as bs \<longleftrightarrow>
     (\<exists>w. bs = enc_string path @ enc_string (comma # arg_fmt as) @ w \<and> args_wire as w)"

lemma rptr_le_rend: "rview m r bs \<Longrightarrow> rptr r \<le> rend r"
  by (simp add: rview_def word_le_nat_alt unat_word_ariths)

lemma whole_fits: "rview m r bs \<Longrightarrow> \<not> lv2_osc_reader_overflow r (of_nat (length bs))"
  by (simp add: rview_def lv2_osc_reader_overflow_def)

text \<open>The loop, from an argument already read on: it shows the others and ends at the type string's end.\<close>

lemma message_iterate_reads:
  assumes "arg_view m arg a" and "mem_at m (atype arg) (arg_fmt (a # as) @ [0])"
    and "rview m r bs" and "args_wire as bs" and "list_all arg_ok as" and "aend arg = rend r"
    and "Suc (length as) < fuel"
  shows "\<exists>args r'. message_iterate fuel m (Ok arg, r) = Some (Ok (arg # args), r') \<and>
    list_all2 (arg_view m) args as \<and> (\<forall>x \<in> set args. apath x = apath arg) \<and> rview m r' []"
  using assms
proof (induction as arbitrary: arg a r bs fuel)
  case Nil
  then have "Suc 0 < fuel" by simp
  then obtain n where fuel: "fuel = Suc (Suc n)"
    by (auto dest: less_imp_Suc_add)
  have here: "m (atype arg) = Some (type_char (arg_type a))" "m (atype arg + 1) = Some 0"
    using Nil.prems by (simp_all add: arg_view_def)
  have "\<not> rptr r > aend arg" using rptr_le_rend [OF Nil.prems(3)] Nil.prems by auto
  moreover have "lv2_osc_reader_arg_next m arg r = (Ok (arg\<lparr>atype := atype arg + 1\<rparr>), r)"
    using here by (simp add: lv2_osc_reader_arg_next_def lv2_osc_reader_arg_raw_def type_of_char_def
        all_types_def c8_def)
  ultimately show ?case
    using here Nil.prems by (simp add: fuel lv2_osc_reader_arg_is_end_def)
next
  case (Cons b as)
  then obtain n where fuel: "fuel = Suc n" "Suc (length as) < n"
    by (cases fuel) auto
  obtain x y where xy: "bs = x @ y" "arg_wire b x" "args_wire as y"
    using Cons.prems(4) by auto
  have c: "m (atype (arg\<lparr>atype := atype arg + 1\<rparr>)) = Some (type_char (arg_type b))"
    using Cons.prems(2) by simp
  have v: "rview m r (x @ y)" and ok: "arg_ok b" using Cons.prems xy by simp_all
  from arg_raw_reads [OF v xy(2) ok c] obtain k w where
    nxt: "lv2_osc_reader_arg_next m arg r =
        (Ok (set_arg (arg\<lparr>atype := atype arg + 1\<rparr>) k w), r_forward (of_nat (length x)) r)"
      "arg_shows m k w b"
    by (auto simp: lv2_osc_reader_arg_next_def)
  let ?arg = "set_arg (arg\<lparr>atype := atype arg + 1\<rparr>) k w" and ?r = "r_forward (of_nat (length x)) r"
  have "\<exists>args r'. message_iterate n m (Ok ?arg, ?r) = Some (Ok (?arg # args), r') \<and>
    list_all2 (arg_view m) args as \<and> (\<forall>x \<in> set args. apath x = apath ?arg) \<and> rview m r' []"
  proof (rule Cons.IH)
    show "arg_view m ?arg b" using c nxt(2) by (simp add: arg_view_def)
    show "mem_at m (atype ?arg) (arg_fmt (b # as) @ [0])" using Cons.prems(2) by (simp add: add.assoc)
    show "rview m ?r y" using rview_forward [OF v, of "length x"] by simp
  qed (use Cons.prems xy fuel in simp_all)
  moreover have "\<not> rptr r > aend arg" using rptr_le_rend [OF Cons.prems(3)] Cons.prems by auto
  moreover have "arg_view m ?arg b" using c nxt(2) by (simp add: arg_view_def)
  moreover have "m (atype arg) = Some (type_char (arg_type a))"
    using Cons.prems(1) by (simp add: arg_view_def)
  ultimately show ?case
    using nxt(1) by (auto simp: fuel(1) lv2_osc_reader_arg_is_end_def)
qed

lemma arg_fmt_no_zero: "0 \<notin> set (comma # arg_fmt as)"
  by (auto simp: arg_fmt_def comma_def c8_def)

lemma enc_string_mem_at: "mem_at m p (enc_string s) \<Longrightarrow> mem_at m p (s @ [0])"
  using enc_string_Cons0 [of s] by auto

text \<open>The start of a message: the first argument is read behind path and format.\<close>

lemma message_begin_raw:
  assumes v: "rview m r bs" and w: "message_wire path as bs"
    and path: "0 \<notin> set path" "length path < 2 ^ 31" and as: "length as < 2 ^ 31"
  obtains arg r2 ws where "args_wire as ws" "rview m r2 ws"
    "message_begin m (of_nat (length bs)) r = lv2_osc_reader_arg_raw m arg r2"
    "apath arg = rptr r" "aend arg = rend r" "mem_at m (atype arg) (arg_fmt as @ [0])"
    "c_str m (rptr r) = Some path" "rend r2 = rend r"
proof -
  obtain ws where ws: "bs = enc_string path @ (enc_string (comma # arg_fmt as) @ ws)" "args_wire as ws"
    using w by (auto simp: message_wire_def)
  have v0: "rview m r (enc_string path @ (enc_string (comma # arg_fmt as) @ ws))" using v ws by simp
  let ?r1 = "r_forward (of_nat (pad4 (length path + 1))) r"
  have "length path < 2 ^ 32" using path by simp
  note p = get_string_reads [OF v0 path(1) this]
  let ?r2 = "r_forward (of_nat (pad4 (length (comma # arg_fmt as) + 1))) ?r1"
  have "length (comma # arg_fmt as) < 2 ^ 32" using as by simp
  note f = get_string_reads [OF p(2) arg_fmt_no_zero this]
  let ?t = "rptr ?r1"
  have fmt: "mem_at m ?t (comma # arg_fmt as @ [0])"
    using enc_string_mem_at [of m ?t "comma # arg_fmt as"] rview_mem_at [OF p(2)] by simp
  define arg where "arg = \<lparr>atype = ?t + 1, asize = 0, aval = UInt 0, apath = rptr r,
    aend = rptr r + of_nat (length bs)\<rparr>"
  have "message_begin m (of_nat (length bs)) r = lv2_osc_reader_arg_raw m arg ?r2"
    using p(1) f(1) fmt whole_fits [OF v]
    by (simp add: message_begin_def lv2_osc_reader_arg_begin_def arg_def)
  moreover have "aend arg = rend r" using v by (simp add: arg_def rview_def)
  ultimately show thesis
    using ws(2) f(2) p(3) fmt by (intro that [of ws ?r2 arg]) (simp_all add: arg_def r_forward_def)
qed

text \<open>It reads at once the first argument there is.\<close>

lemma arg_raw_at_end:
  "m (atype arg) = Some 0 \<Longrightarrow> lv2_osc_reader_arg_raw m arg r = (Ok arg, r)"
  by (simp add: lv2_osc_reader_arg_raw_def type_of_char_def all_types_def c8_def)

lemma message_begin_reads:
  assumes "rview m r bs" and "message_wire path as bs" and "0 \<notin> set path" and "length path < 2 ^ 31"
    and "length as < 2 ^ 31" and "list_all arg_ok as"
  shows "\<exists>arg r1. message_begin m (of_nat (length bs)) r = (Ok arg, r1) \<and> apath arg = rptr r"
proof -
  obtain arg r2 ws where s: "args_wire as ws" "rview m r2 ws"
    "message_begin m (of_nat (length bs)) r = lv2_osc_reader_arg_raw m arg r2"
    "apath arg = rptr r" "mem_at m (atype arg) (arg_fmt as @ [0])"
    using message_begin_raw [OF assms(1-5)] by metis
  show ?thesis
  proof (cases as)
    case Nil
    with s show ?thesis by (simp add: arg_raw_at_end)
  next
    case (Cons a as')
    then obtain x y where "ws = x @ y" "arg_wire a x" using s(1) by auto
    with s Cons assms(6) arg_raw_reads [of m r2 x y a arg] show ?thesis by auto
  qed
qed

lemma message_foreach_reads:
  assumes v: "rview m r bs" and w: "message_wire path as bs"
    and path: "0 \<notin> set path" "length path < 2 ^ 31" and "list_all arg_ok as"
    and "length as < 2 ^ 31" and fuel: "length as + 1 < fuel"
  shows "\<exists>args r'. message_foreach fuel m (of_nat (length bs)) r = Some (Ok args, r') \<and>
    list_all2 (arg_view m) args as \<and> (\<forall>x \<in> set args. apath x = rptr r) \<and>
    c_str m (rptr r) = Some path \<and> rview m r' []"
proof -
  obtain arg r2 ws where s: "args_wire as ws" "rview m r2 ws"
    "message_begin m (of_nat (length bs)) r = lv2_osc_reader_arg_raw m arg r2"
    "apath arg = rptr r" "aend arg = rend r" "mem_at m (atype arg) (arg_fmt as @ [0])"
    "c_str m (rptr r) = Some path" "rend r2 = rend r"
    using message_begin_raw [OF v w path assms(6)] by metis
  show ?thesis
  proof (cases as)
    case Nil
    have "m (atype arg) = Some 0" using s(6) Nil by simp
    moreover from this have "lv2_osc_reader_arg_raw m arg r2 = (Ok arg, r2)" by (rule arg_raw_at_end)
    moreover obtain n where "fuel = Suc n" using fuel by (cases fuel) auto
    ultimately show ?thesis using Nil s
      by (simp add: message_foreach_def lv2_osc_reader_arg_is_end_def)
  next
    case (Cons a as')
    then obtain x y where xy: "ws = x @ y" "arg_wire a x" "args_wire as' y" using s(1) by auto
    have c: "m (atype arg) = Some (type_char (arg_type a))" using s(6) Cons by simp
    have v2: "rview m r2 (x @ y)" and ok: "arg_ok a" using s(2) xy assms(5) Cons by simp_all
    from arg_raw_reads [OF v2 xy(2) ok c] obtain k w where
      first: "lv2_osc_reader_arg_raw m arg r2 = (Ok (set_arg arg k w), r_forward (of_nat (length x)) r2)"
        "arg_shows m k w a" by blast
    let ?arg = "set_arg arg k w" and ?r3 = "r_forward (of_nat (length x)) r2"
    have view: "arg_view m ?arg a" using c first(2) by (simp add: arg_view_def)
    have "\<exists>args r'. message_iterate fuel m (Ok ?arg, ?r3) = Some (Ok (?arg # args), r') \<and>
      list_all2 (arg_view m) args as' \<and> (\<forall>x \<in> set args. apath x = apath ?arg) \<and> rview m r' []"
    proof (rule message_iterate_reads [OF view])
      show "mem_at m (atype ?arg) (arg_fmt (a # as') @ [0])" using s(6) Cons by simp
      show "rview m ?r3 y" using rview_forward [OF v2, of "length x"] by simp
    qed (use assms Cons xy s in \<open>simp_all add: r_forward_def\<close>)
    then show ?thesis using view Cons s first(1)
      by (auto simp: message_foreach_def)
  qed
qed

section \<open>Reading a bundle\<close>

definition item_bytes :: "u8 list \<Rightarrow> u8 list" where
  "item_bytes x = be32 (of_nat (length x)) @ x"

definition bundle_wire :: "u64 \<Rightarrow> u8 list list \<Rightarrow> u8 list" where
  "bundle_wire t xs = bundle_tag @ be64 t @ concat (map item_bytes xs)"

text \<open>An item shows a byte string when a reader set up on it has just that string before it.\<close>

definition item_view :: "mem \<Rightarrow> lv2_osc_item \<Rightarrow> u8 list \<Rightarrow> bool" where
  "item_view m itm x \<longleftrightarrow> isize itm = of_nat (length x) \<and>
     rview m (lv2_osc_reader_initialize (ibody itm) (scast (isize itm))) x"

lemma item_raw_reads:
  assumes v: "rview m r (item_bytes x @ rest)" and len: "length x < 2 ^ 31"
  shows "lv2_osc_reader_item_raw m itm r =
      (Ok (itm\<lparr>isize := of_nat (length x), ibody := rptr r + 4\<rparr>), r_forward 4 r)"
    and "rview m (r_forward 4 r) (x @ rest)"
    and "item_view m (itm\<lparr>isize := of_nat (length x), ibody := rptr r + 4\<rparr>) x"
proof -
  have "rview m r (be32 (of_nat (length x)) @ (x @ rest))" using v by (simp add: item_bytes_def)
  from r_int32.reads [OF this] have i:
    "lv2_osc_reader_get_int32 m r = (Ok (of_nat (length x)), r_forward 4 r)"
    and v4: "rview m (r_forward 4 r) (x @ rest)" by simp_all
  have sc: "scast (of_nat (length x) :: u32) = (of_nat (length x) :: u64)"
    using len by (rule scast_of_nat31)
  have "\<not> lv2_osc_reader_overflow (r_forward 4 r) (of_nat (length x))"
    using len by (subst roverflow_view [OF v4]) simp_all
  then show "lv2_osc_reader_item_raw m itm r =
      (Ok (itm\<lparr>isize := of_nat (length x), ibody := rptr r + 4\<rparr>), r_forward 4 r)"
    by (simp add: lv2_osc_reader_item_raw_def i sc)
  show "rview m (r_forward 4 r) (x @ rest)" by (rule v4)
  show "item_view m (itm\<lparr>isize := of_nat (length x), ibody := rptr r + 4\<rparr>) x"
    using v4 by (simp add: item_view_def rview_def lv2_osc_reader_initialize_def sc)
qed

lemma bundle_iterate_reads:
  assumes "item_view m itm x" and "rview m r (x @ concat (map item_bytes xs))"
    and "length x < 2 ^ 31" and "\<forall>y \<in> set xs. length y < 2 ^ 31"
    and "iend itm = rend r" and "Suc (length xs) < fuel"
  shows "\<exists>itms r'. bundle_iterate fuel m (Ok itm, r) = Some (Ok (itm # itms), r') \<and>
    list_all2 (item_view m) itms xs \<and> (\<forall>i \<in> set itms. itimetag i = itimetag itm) \<and> rview m r' []"
  using assms
proof (induction xs arbitrary: itm x r fuel)
  case Nil
  then have "Suc 0 < fuel" by simp
  then obtain n where fuel: "fuel = Suc (Suc n)"
    by (auto dest: less_imp_Suc_add)
  have sc: "scast (isize itm) = (of_nat (length x) :: u64)"
    using Nil.prems(1,3) by (simp add: item_view_def scast_of_nat31)
  have v': "rview m (r_forward (of_nat (length x)) r) []"
    using rview_forward [OF Nil.prems(2), of "length x"] by simp
  have "\<not> rptr r > iend itm" using rptr_le_rend [OF Nil.prems(2)] Nil.prems by auto
  moreover have "lv2_osc_reader_item_next m itm r = (Fail, r_forward (of_nat (length x)) r)"
    using r_int32.short [OF v']
    by (simp add: lv2_osc_reader_item_next_def lv2_osc_reader_item_raw_def sc)
  ultimately show ?case
    using v' by (simp add: fuel lv2_osc_reader_item_is_end_def)
next
  case (Cons y xs)
  then obtain n where fuel: "fuel = Suc n" "Suc (length xs) < n"
    by (cases fuel) auto
  have sc: "scast (isize itm) = (of_nat (length x) :: u64)"
    using Cons.prems(1,3) by (simp add: item_view_def scast_of_nat31)
  let ?r = "r_forward (of_nat (length x)) r"
  have v': "rview m ?r (item_bytes y @ concat (map item_bytes xs))"
    using rview_forward [OF Cons.prems(2), of "length x"] by simp
  have y: "length y < 2 ^ 31" using Cons.prems by simp
  note nxt = item_raw_reads [OF v' y]
  let ?itm = "itm\<lparr>isize := of_nat (length y), ibody := rptr ?r + 4\<rparr>"
  have "\<exists>itms r'. bundle_iterate n m (Ok ?itm, r_forward 4 ?r) = Some (Ok (?itm # itms), r') \<and>
    list_all2 (item_view m) itms xs \<and> (\<forall>i \<in> set itms. itimetag i = itimetag ?itm) \<and> rview m r' []"
    by (rule Cons.IH [OF nxt(3) [of itm] nxt(2) y]) (use Cons.prems fuel in simp_all)
  moreover have "\<not> rptr r > iend itm" using rptr_le_rend [OF Cons.prems(2)] Cons.prems by auto
  moreover have "lv2_osc_reader_item_next m itm r = (Ok ?itm, r_forward 4 ?r)"
    using nxt(1) by (simp add: lv2_osc_reader_item_next_def sc)
  ultimately show ?case
    using nxt(3) [of itm] by (auto simp: fuel(1) lv2_osc_reader_item_is_end_def)
qed

lemma bundle_foreach_reads:
  assumes v: "rview m r (bundle_wire t xs)" and sizes: "\<forall>x \<in> set xs. length x < 2 ^ 31"
    and fuel: "length xs + 1 < fuel"
  shows "\<exists>itms r'. bundle_foreach fuel m (of_nat (length (bundle_wire t xs))) r = Some (Ok itms, r') \<and>
    list_all2 (item_view m) itms xs \<and> (\<forall>i \<in> set itms. itimetag i = t) \<and> rview m r' []"
proof -
  let ?items = "concat (map item_bytes xs)"
  have room: "\<not> lv2_osc_reader_overflow r 16"
    using v by (subst roverflow_view [OF v]) (simp_all add: bundle_wire_def)
  have tag: "strn_eq m (rptr r) bundle_tag = Some True"
    using rview_mem_at [OF v] strn_eq_prefix [of m "rptr r" bundle_tag "[]"] by (simp add: bundle_wire_def)
  have "rview m (r_forward 8 r) (be64 t @ ?items)"
    using rview_forward [OF v, of 8] by (simp add: bundle_wire_def)
  from r_timetag.reads [OF this] have tt:
    "lv2_osc_reader_get_timetag m (r_forward 8 r) = (Ok t, r_forward 16 r)"
    "rview m (r_forward 16 r) ?items" by simp_all
  define itm where "itm = \<lparr>isize = 0, ibody = 0, itimetag = t, iend = rend r\<rparr>"
  have start: "bundle_begin m (of_nat (length (bundle_wire t xs))) r
      = lv2_osc_reader_item_raw m itm (r_forward 16 r)"
    using whole_fits [OF v] room tag tt(1) v
    by (simp add: bundle_begin_def lv2_osc_reader_item_begin_def itm_def rview_def)
  show ?thesis
  proof (cases xs)
    case Nil
    obtain n where "fuel = Suc n" using fuel by (cases fuel) auto
    moreover have "lv2_osc_reader_item_raw m itm (r_forward 16 r) = (Fail, r_forward 16 r)"
      using r_int32.short [OF tt(2)] Nil by (simp add: lv2_osc_reader_item_raw_def)
    ultimately show ?thesis using Nil tt(2) start by (simp add: bundle_foreach_def)
  next
    case (Cons x ys)
    with tt(2) have v': "rview m (r_forward 16 r) (item_bytes x @ concat (map item_bytes ys))" by simp
    have x: "length x < 2 ^ 31" using sizes Cons by simp
    note first = item_raw_reads [OF v' x]
    let ?itm = "itm\<lparr>isize := of_nat (length x), ibody := rptr (r_forward 16 r) + 4\<rparr>"
    have "\<exists>itms r'. bundle_iterate fuel m (Ok ?itm, r_forward 4 (r_forward 16 r)) = Some (Ok (?itm # itms), r') \<and>
      list_all2 (item_view m) itms ys \<and> (\<forall>i \<in> set itms. itimetag i = itimetag ?itm) \<and> rview m r' []"
      by (rule bundle_iterate_reads [OF first(3) [of itm] first(2) x]) (use sizes fuel Cons in \<open>simp_all add: itm_def\<close>)
    then show ?thesis using first(1,3) [of itm] start Cons
      by (auto simp: bundle_foreach_def itm_def)
  qed
qed

section \<open>Writing, then reading\<close>

lemma arg_wire_enc:
  assumes "arg_ok a" and "fits (length (arg_enc a rest)) rest"
  shows "arg_wire a (arg_enc a rest)"
proof (cases a)
  case (ABlob b)
  then have "4 + pad4 (length b) < length rest"
    using assms(2) by (simp add: fits_enc_blob)
  then show ?thesis
    using ABlob pad4_bounds(1) [of "length b"]
    by (auto simp: blob_wire_def enc_blob_def)
next
  case (AMidi m)
  then have "4 < length rest" using assms by (simp add: fits_enc_midi)
  then show ?thesis using AMidi assms(1) by (simp add: enc_midi_def)
qed simp_all

lemma args_wire_enc:
  "list_all arg_ok as \<Longrightarrow> fits (length (args_enc as rest)) rest \<Longrightarrow> args_wire as (args_enc as rest)"
proof (induction as arbitrary: rest)
  case Nil
  then show ?case by simp
next
  case (Cons a as)
  let ?r = "drop (length (arg_enc a rest)) rest"
  have "fits (length (arg_enc a rest)) rest" "fits (length (args_enc as ?r)) ?r"
    using Cons.prems(2) by (auto simp: fits_def)
  then have "arg_wire a (arg_enc a rest)" "args_wire as (args_enc as ?r)"
    using Cons arg_wire_enc [of a rest] by simp_all
  then show ?case by auto
qed

lemma message_wire_enc:
  assumes "list_all arg_ok as" and "fits (length (message_enc path as rest)) rest"
  shows "message_wire path as (message_enc path as rest)"
proof -
  define head where "head = enc_string path @ enc_string (comma # arg_fmt as)"
  have enc: "message_enc path as rest = head @ args_enc as (drop (length head) rest)"
    by (simp add: message_enc_def head_def)
  have "fits (length (args_enc as (drop (length head) rest))) (drop (length head) rest)"
    using assms(2) unfolding enc by (auto simp: fits_def)
  from args_wire_enc [OF assms(1) this] show ?thesis
    unfolding enc by (auto simp: message_wire_def head_def)
qed

text \<open>The bytes appended to a writer's buffer are what a reader set up on them sees.\<close>

lemma wview_rview:
  assumes "wview (m, w) out rest" and "wview (m', w') (out @ bs) rest'" and "wbuf w' = wbuf w"
  shows "rview m' (lv2_osc_reader_initialize (wptr w) (wptr w' - wptr w)) bs"
    and "wptr w' - wptr w = of_nat (length bs)"
proof -
  have b: "unat (wbuf w) + length (out @ bs) + 2 ^ 33 \<le> 2 ^ 64"
    using assms by (simp add: wview_def)
  then have "unat (wptr w) = unat (wbuf w) + length out"
    using assms by (simp add: wview_def unat_word_ariths)
  with assms b show "rview m' (lv2_osc_reader_initialize (wptr w) (wptr w' - wptr w)) bs"
    by (simp add: wview_def rview_def lv2_osc_reader_initialize_def)
  show "wptr w' - wptr w = of_nat (length bs)"
    using assms by (simp add: wview_def)
qed

section \<open>Bundles of messages\<close>

fun message_ok :: "u8 list \<times> osc_arg list \<Rightarrow> bool" where
  "message_ok (path, as) \<longleftrightarrow> 0 \<notin> set path \<and> list_all arg_ok as \<and> message_size path as < 2 ^ 31"

definition messages_enc :: "(u8 list \<times> osc_arg list) list \<Rightarrow> (u8 list \<Rightarrow> u8 list) list" where
  "messages_enc ms = map (\<lambda>(path, as). message_enc path as) ms"

definition write_messages ::
    "(u64 \<Rightarrow> u32) \<Rightarrow> (u32 \<Rightarrow> u64) \<Rightarrow> (u8 list \<times> osc_arg list) list \<Rightarrow> (unit, wstate) call" where
  "write_messages d2f f2d ms = writer_items
     (map (\<lambda>(path, as). lv2_osc_writer_message_varlist d2f path (arg_fmt as) (arg_vas f2d as)) ms)"

text \<open>What a user of \<open>OSC_READER_BUNDLE_FOREACH\<close> finds in an item that holds a message.\<close>

definition message_seen :: "mem \<Rightarrow> lv2_osc_item \<Rightarrow> u8 list \<times> osc_arg list \<Rightarrow> bool" where
  "message_seen m itm pa \<longleftrightarrow> (case pa of (path, as) \<Rightarrow>
     \<exists>args r'. message_foreach (length as + 2) m (scast (isize itm))
        (lv2_osc_reader_initialize (ibody itm) (scast (isize itm))) = Some (Ok args, r') \<and>
       list_all2 (arg_view m) args as \<and> c_str m (ibody itm) = Some path)"

lemma item_message_seen:
  assumes "item_view m itm x" and "message_wire path as x" and "message_ok (path, as)" and "length x < 2 ^ 31"
  shows "message_seen m itm (path, as)"
proof -
  have sc: "scast (isize itm) = (of_nat (length x) :: u64)"
    using assms(1,4) by (simp add: item_view_def scast_of_nat31)
  let ?r = "lv2_osc_reader_initialize (ibody itm) (of_nat (length x))"
  have v: "rview m ?r x" using assms(1) unfolding item_view_def sc by blast
  have "\<exists>args r'. message_foreach (length as + 2) m (of_nat (length x)) ?r = Some (Ok args, r') \<and>
      list_all2 (arg_view m) args as \<and> (\<forall>x \<in> set args. apath x = rptr ?r) \<and>
      c_str m (rptr ?r) = Some path \<and> rview m r' []"
    by (rule message_foreach_reads [OF v assms(2)]) (use assms(3) message_lengths [of path as] in simp_all)
  then show ?thesis
    by (auto simp: message_seen_def sc lv2_osc_reader_initialize_def)
qed

lemma messages_wire_enc:
  "list_all message_ok ms \<Longrightarrow> fits (length (items_enc (messages_enc ms) rest)) rest \<Longrightarrow>
   \<exists>xs. items_enc (messages_enc ms) rest = concat (map item_bytes xs) \<and>
     list_all2 (\<lambda>x (path, as). message_wire path as x \<and> length x < 2 ^ 31) xs ms"
proof (induction ms arbitrary: rest)
  case Nil
  show ?case by (rule exI [of _ "[]"]) (simp add: messages_enc_def)
next
  case (Cons pa ms)
  obtain path as where pa: "pa = (path, as)" by (cases pa)
  let ?e = "message_enc path as" and ?r = "drop (length (item_enc (message_enc path as) rest)) rest"
  have enc: "items_enc (messages_enc (pa # ms)) rest
      = item_bytes (?e (drop 4 rest)) @ items_enc (messages_enc ms) ?r"
    by (simp add: messages_enc_def pa item_enc_def item_bytes_def Let_def)
  have "fits (length (?e (drop 4 rest))) (drop 4 rest)" "fits (length (items_enc (messages_enc ms) ?r)) ?r"
    using Cons.prems(2) unfolding enc by (auto simp: fits_def item_enc_def item_bytes_def Let_def)
  moreover have "length (?e (drop 4 rest)) < 2 ^ 31"
    using Cons.prems(1) length_message_enc [of as path "drop 4 rest"] by (simp add: pa)
  moreover obtain xs where "items_enc (messages_enc ms) ?r = concat (map item_bytes xs)"
    "list_all2 (\<lambda>x (path, as). message_wire path as x \<and> length x < 2 ^ 31) xs ms"
    using Cons.IH [of ?r] Cons.prems(1) calculation(2) by auto
  ultimately show ?case
    unfolding enc using Cons.prems(1) message_wire_enc [of as path "drop 4 rest"]
    by (intro exI [of _ "?e (drop 4 rest) # xs"]) (simp add: pa)
qed

definition messages_size :: "(u8 list \<times> osc_arg list) list \<Rightarrow> nat" where
  "messages_size ms = sum_list (map (\<lambda>(path, as). 4 + message_size path as) ms)"

lemma sized_message: "message_ok (path, as) \<Longrightarrow> sized (message_enc path as) rest"
  using length_message_enc [of as path rest] by (simp add: sized_def)

lemma length_messages_enc:
  "list_all message_ok ms \<Longrightarrow> length (items_enc (messages_enc ms) rest) \<le> messages_size ms"
proof (induction ms arbitrary: rest)
  case (Cons pa ms)
  then show ?case
    using length_message_enc [of "snd pa" "fst pa" "drop 4 rest"]
    by (cases pa) (auto simp: messages_enc_def messages_size_def item_enc_def Let_def intro!: add_mono)
qed (simp add: messages_enc_def messages_size_def)

lemma writer_op_message:
  "message_ok (path, as) \<Longrightarrow> floats_kept d2f f2d as \<Longrightarrow>
   writer_op (lv2_osc_writer_message_varlist d2f path (arg_fmt as) (arg_vas f2d as)) (message_enc path as)"
  using message_lengths [of path as] by (intro message_varlist_refines) auto

lemma writer_op_messages:
  assumes "list_all message_ok ms" and "list_all (\<lambda>(path, as). floats_kept d2f f2d as) ms"
  shows "writer_op (write_messages d2f f2d ms) (items_enc (messages_enc ms))"
  unfolding write_messages_def messages_enc_def
  by (rule writer_op_items)
    (use assms in \<open>auto simp: list_all2_map1 list_all2_map2 list_all2_same list_all_iff
       intro: writer_op_message sized_message split: prod.splits\<close>)

lemma writer_op_message_bundle:
  assumes "list_all message_ok ms" and "list_all (\<lambda>(path, as). floats_kept d2f f2d as) ms"
    and "ms \<noteq> []" and "messages_size ms < 2 ^ 31"
  shows "writer_op (writer_bundle t (write_messages d2f f2d ms)) (bundle_enc t (items_enc (messages_enc ms)))"
proof (rule writer_op_bundle [OF writer_op_messages [OF assms(1,2)]])
  fix rest
  show "sized (items_enc (messages_enc ms)) rest"
    using length_messages_enc [OF assms(1), of rest] assms(3,4)
    by (cases ms) (auto simp: sized_def messages_enc_def item_enc_def Let_def)
qed

section \<open>Properties\<close>

text \<open>
  C7. Round trip of a message: when the writer has accepted a message, a reader set up on the
  bytes it wrote sees the path and, one by one, exactly the arguments that were passed.
\<close>

theorem message_roundtrip:
  assumes "wview (m, w) out rest"
    and "0 \<notin> set path" and "length path < 2 ^ 31" and "length as < 2 ^ 31"
    and "list_all arg_ok as" and "floats_kept d2f f2d as"
    and "lv2_osc_writer_message_varlist d2f path (arg_fmt as) (arg_vas f2d as) (m, w) = (Ok (), (m', w'))"
  shows "\<exists>args r'. message_foreach (length as + 2) m' (wptr w' - wptr w)
      (lv2_osc_reader_initialize (wptr w) (wptr w' - wptr w)) = Some (Ok args, r') \<and>
    list_all2 (arg_view m') args as \<and> (\<forall>x \<in> set args. apath x = wptr w) \<and>
    c_str m' (wptr w) = Some path"
proof -
  note op = message_varlist_refines [OF assms(3-6)]
  have fit: "fits (length (message_enc path as rest)) rest"
    using writer_op.succeeds_iff [OF op assms(1)] assms(7) by simp
  from writer_op.appends [OF op assms(1,7)] have
    after: "wview (m', w') (out @ message_enc path as rest) (drop (length (message_enc path as rest)) rest)"
      "wbuf w' = wbuf w" by (auto dest: wsame_wbuf)
  note rd = wview_rview [OF assms(1) after]
  from message_foreach_reads [OF rd(1) message_wire_enc [OF assms(5) fit] assms(2,3,5,4), of "length as + 2"]
  show ?thesis unfolding rd(2) by (auto simp: lv2_osc_reader_initialize_def)
qed

theorem message_roundtrip_witness:
  "\<exists>m' w' args r'.
    lv2_osc_writer_message_varlist ucast (cstr ''/a'') (arg_fmt [AInt 5, ABlob [1, 2, 3]])
      (arg_vas ucast [AInt 5, ABlob [1, 2, 3]]) (blank 64, blank_writer 64) = (Ok (), (m', w')) \<and>
    message_foreach 4 m' (wptr w' - wptr (blank_writer 64))
      (lv2_osc_reader_initialize (wptr (blank_writer 64)) (wptr w' - wptr (blank_writer 64))) = Some (Ok args, r') \<and>
    list_all2 (arg_view m') args [AInt 5, ABlob [1, 2, 3]]"
proof -
  let ?as = "[AInt 5, ABlob [1, 2, 3]]" and ?path = "cstr ''/a''"
  have fit: "fits (length (message_enc ?path ?as (replicate 64 255))) (replicate 64 255)"
    by (simp add: message_enc_def Let_def fits_def pad4_def enc_blob_def)
  have ok: "0 \<notin> set ?path" by (simp add: c8_def)
  obtain m' w' where wr: "lv2_osc_writer_message_varlist ucast ?path (arg_fmt ?as) (arg_vas ucast ?as)
      (blank 64, blank_writer 64) = (Ok (), (m', w'))"
    using writer_op.room [OF message_varlist_refines [of ?path ?as ucast ucast] wview_blank [of 64] fit] by auto
  have "\<exists>args r'. message_foreach (length ?as + 2) m' (wptr w' - wptr (blank_writer 64))
      (lv2_osc_reader_initialize (wptr (blank_writer 64)) (wptr w' - wptr (blank_writer 64))) = Some (Ok args, r') \<and>
    list_all2 (arg_view m') args ?as \<and> (\<forall>x \<in> set args. apath x = wptr (blank_writer 64)) \<and>
    c_str m' (wptr (blank_writer 64)) = Some ?path"
    by (rule message_roundtrip [OF wview_blank ok _ _ _ _ wr]) simp_all
  moreover have "length ?as + 2 = 4" by simp
  ultimately show ?thesis using wr by metis
qed

text \<open>
  C8. Round trip of a bundle: when the writer has accepted a bundle of messages, iterating
  over the bytes it wrote gives one item per message, in order, each with the bundle's time
  tag, and reading each item sees that message.
\<close>

theorem bundle_roundtrip:
  assumes "wview (m, w) out rest"
    and "list_all message_ok ms" and "list_all (\<lambda>(path, as). floats_kept d2f f2d as) ms"
    and "ms \<noteq> []" and "messages_size ms < 2 ^ 31"
    and "writer_bundle t (write_messages d2f f2d ms) (m, w) = (Ok (), (m', w'))"
  shows "\<exists>itms r'. bundle_foreach (length ms + 2) m' (wptr w' - wptr w)
      (lv2_osc_reader_initialize (wptr w) (wptr w' - wptr w)) = Some (Ok itms, r') \<and>
    list_all2 (message_seen m') itms ms \<and> (\<forall>i \<in> set itms. itimetag i = t)"
proof -
  note op = writer_op_message_bundle [OF assms(2-5), of t]
  let ?enc = "bundle_enc t (items_enc (messages_enc ms)) rest"
  have fit: "fits (length ?enc) rest"
    using writer_op.succeeds_iff [OF op assms(1)] assms(6) by simp
  from writer_op.appends [OF op assms(1,6)] have
    after: "wview (m', w') (out @ ?enc) (drop (length ?enc) rest)" "wbuf w' = wbuf w"
    by (auto dest: wsame_wbuf)
  have "fits (length (items_enc (messages_enc ms) (drop 16 rest))) (drop 16 rest)"
    using fit by (auto simp: bundle_enc_def fits_def)
  from messages_wire_enc [OF assms(2) this] obtain xs where xs:
    "?enc = bundle_wire t xs"
    "list_all2 (\<lambda>x (path, as). message_wire path as x \<and> length x < 2 ^ 31) xs ms"
    by (auto simp: bundle_enc_def bundle_wire_def)
  note rd = wview_rview [OF assms(1) after, unfolded xs(1)]
  have "\<forall>x \<in> set xs. length x < 2 ^ 31"
    using xs(2) by (auto simp: list_all2_conv_all_nth in_set_conv_nth split: prod.splits)
      (metis surj_pair)
  from bundle_foreach_reads [OF rd(1) this, of "length ms + 2"] obtain itms r' where
    got: "bundle_foreach (length ms + 2) m' (of_nat (length (bundle_wire t xs)))
        (lv2_osc_reader_initialize (wptr w) (wptr w' - wptr w)) = Some (Ok itms, r')"
      "list_all2 (item_view m') itms xs" "\<forall>i \<in> set itms. itimetag i = t"
    using list_all2_lengthD [OF xs(2)] by auto
  have "list_all2 (message_seen m') itms ms"
  proof (rule list_all2_all_nthI)
    show "length itms = length ms"
      using got(2) xs(2) by (simp add: list_all2_lengthD)
    fix n assume n: "n < length itms"
    obtain path as where pa: "ms ! n = (path, as)" by fastforce
    have len: "length itms = length xs" "length xs = length ms"
      using got(2) xs(2) by (simp_all add: list_all2_lengthD)
    have "item_view m' (itms ! n) (xs ! n)"
      by (rule list_all2_nthD [OF got(2) n])
    moreover have "message_wire path as (xs ! n) \<and> length (xs ! n) < 2 ^ 31"
      using list_all2_nthD [OF xs(2), of n] n len by (simp add: pa)
    moreover have "message_ok (path, as)"
      using assms(2) n len by (simp add: list_all_length flip: pa)
    ultimately show "message_seen m' (itms ! n) (ms ! n)"
      using item_message_seen pa by simp
  qed
  with got show ?thesis unfolding rd(2) by blast
qed

theorem bundle_roundtrip_witness:
  "\<exists>m' w' itms r'.
    writer_bundle 1 (write_messages ucast ucast [(cstr ''/a'', [AInt 5]), (cstr ''/b'', [])])
      (blank 128, blank_writer 128) = (Ok (), (m', w')) \<and>
    bundle_foreach 4 m' (wptr w' - wptr (blank_writer 128))
      (lv2_osc_reader_initialize (wptr (blank_writer 128)) (wptr w' - wptr (blank_writer 128))) = Some (Ok itms, r') \<and>
    list_all2 (message_seen m') itms [(cstr ''/a'', [AInt 5]), (cstr ''/b'', [])]"
proof -
  let ?ms = "[(cstr ''/a'', [AInt 5]), (cstr ''/b'', [])]"
  have ok: "list_all message_ok ?ms" "list_all (\<lambda>(path, as). floats_kept ucast ucast as) ?ms" "?ms \<noteq> []"
    "messages_size ?ms < 2 ^ 31"
    by (simp_all add: c8_def message_size_def messages_size_def pad4_def)
  have fit: "fits (length (bundle_enc 1 (items_enc (messages_enc ?ms)) (replicate 128 255))) (replicate 128 255)"
    by (simp add: message_enc_def Let_def fits_def pad4_def bundle_enc_def messages_enc_def item_enc_def)
  obtain m' w' where wr: "writer_bundle 1 (write_messages ucast ucast ?ms)
      (blank 128, blank_writer 128) = (Ok (), (m', w'))"
    using writer_op.room [OF writer_op_message_bundle [OF ok] wview_blank [of 128] fit] by auto
  have "\<exists>itms r'. bundle_foreach (length ?ms + 2) m' (wptr w' - wptr (blank_writer 128))
      (lv2_osc_reader_initialize (wptr (blank_writer 128)) (wptr w' - wptr (blank_writer 128))) = Some (Ok itms, r') \<and>
    list_all2 (message_seen m') itms ?ms \<and> (\<forall>i \<in> set itms. itimetag i = 1)"
    by (rule bundle_roundtrip [OF wview_blank ok wr]) simp
  moreover have "length ?ms + 2 = 4" by simp
  ultimately show ?thesis using wr by metis
qed

text \<open>An item of size -4: reading it and advancing by its size are inverse to each other.\<close>

lemma rptr_forward_le: "rview m r bs \<Longrightarrow> n \<le> length bs \<Longrightarrow> rptr r + of_nat n \<le> rend r"
  using rptr_le_rend [OF rview_forward] by fastforce

lemma item_raw_negative:
  assumes "rview m r (be32 (- 4) @ rest)"
  shows "lv2_osc_reader_item_raw m itm r = (Ok (itm\<lparr>isize := - 4, ibody := rptr r + 4\<rparr>), r_forward 4 r)"
  using r_int32.reads [OF assms] rptr_le_rend [OF assms]
  by (simp add: lv2_osc_reader_item_raw_def lv2_osc_reader_overflow_def not_less)

lemma bundle_iterate_negative:
  assumes "rview m r (be32 (- 4) @ rest)"
  shows "isize i = - 4 \<Longrightarrow> iend i = rend r \<Longrightarrow> bundle_iterate fuel m (Ok i, r_forward 4 r) = None"
proof (induction fuel arbitrary: i)
  case (Suc fuel)
  have "lv2_osc_reader_item_next m i (r_forward 4 r) = (Ok (i\<lparr>isize := - 4, ibody := rptr r + 4\<rparr>), r_forward 4 r)"
    using item_raw_negative [OF assms] Suc.prems by (simp add: lv2_osc_reader_item_next_def)
  moreover have "\<not> rptr r + 4 > iend i"
    using rptr_forward_le [OF assms, of 4] Suc.prems by (simp add: not_less)
  ultimately show ?case
    using Suc by (simp add: lv2_osc_reader_item_is_end_def)
qed simp

text \<open>
  A negative item size makes the loop of \<open>OSC_READER_BUNDLE_FOREACH\<close> run for ever: the size
  passes the bounds check, and advancing by it brings the reader back to the size itself.
\<close>

theorem bundle_negative_size_loops:
  assumes "rview m r (bundle_tag @ be64 t @ be32 (- 4) @ rest)"
  shows "bundle_foreach fuel m (of_nat (20 + length rest)) r = None"
proof -
  have room: "\<not> lv2_osc_reader_overflow r 16"
    by (subst roverflow_view [OF assms]) simp_all
  have tag: "strn_eq m (rptr r) bundle_tag = Some True"
    using rview_mem_at [OF assms] strn_eq_prefix [of m "rptr r" bundle_tag "[]"] by simp
  have "rview m (r_forward 8 r) (be64 t @ be32 (- 4) @ rest)"
    using rview_forward [OF assms, of 8] by simp
  from r_timetag.reads [OF this] have tt:
    "lv2_osc_reader_get_timetag m (r_forward 8 r) = (Ok t, r_forward 16 r)"
    "rview m (r_forward 16 r) (be32 (- 4) @ rest)" by simp_all
  have rend: "rend r = rptr r + of_nat (20 + length rest)"
    using assms by (simp add: rview_def)
  define itm where "itm = \<lparr>isize = - 4, ibody = rptr r + 20, itimetag = t, iend = rend r\<rparr>"
  have "bundle_begin m (of_nat (20 + length rest)) r = (Ok itm, r_forward 4 (r_forward 16 r))"
    using whole_fits [OF assms] room tag tt(1) rend item_raw_negative [OF tt(2)]
    by (simp add: bundle_begin_def lv2_osc_reader_item_begin_def itm_def)
  moreover have "bundle_iterate fuel m (Ok itm, r_forward 4 (r_forward 16 r)) = None"
    by (rule bundle_iterate_negative [OF tt(2)]) (simp_all add: itm_def)
  ultimately show ?thesis by (simp add: bundle_foreach_def)
qed

text \<open>A buffer with known contents and a reader over it.\<close>

lemma rview_region:
  "length bs < 2 ^ 32 \<Longrightarrow> rview (region 4096 bs) (lv2_osc_reader_initialize 4096 (of_nat (length bs))) bs"
  by (simp add: rview_def lv2_osc_reader_initialize_def mem_at_region)

theorem bundle_negative_size_loops_witness:
  "bundle_foreach 1000 (region 4096 (bundle_tag @ be64 1 @ be32 (- 4) @ [])) (of_nat (20 + length ([] :: u8 list)))
     (lv2_osc_reader_initialize 4096 (of_nat (length (bundle_tag @ be64 1 @ be32 (- 4) @ [])))) = None"
  by (rule bundle_negative_size_loops, rule rview_region) simp

text \<open>
  A negative blob length passes the bounds check of \<open>lv2_osc_reader_get_blob\<close>, which then
  succeeds and moves the reader backwards, before the blob and before the buffer it was given.
\<close>

theorem blob_negative_length_rewinds:
  assumes "rview m r (be32 (- 8) @ rest)" and "4 \<le> unat (rptr r)"
  shows "lv2_osc_reader_get_blob m r = (Ok (- 8, rptr r + 4), r_forward (- 4) r) \<and>
    rptr (r_forward (- 4) r) < rptr r"
proof -
  from r_int32.reads [OF assms(1)] have i:
    "lv2_osc_reader_get_int32 m r = (Ok (- 8), r_forward 4 r)" by simp
  have p: "lv2_osc_padded_size (- 8) = - 8"
    by (simp add: lv2_osc_padded_size_def)
  have u: "unat (rptr r - 4) = unat (rptr r) - 4"
    using assms(2) by (subst unat_sub) (simp_all add: word_le_nat_alt)
  have b: "unat (rptr r) + (4 + length rest) + 2 ^ 33 \<le> 2 ^ 64"
    and rend: "rend r = rptr r + of_nat (4 + length rest)"
    using assms by (simp_all add: rview_def)
  have "unat (rend r) = unat (rptr r) + (4 + length rest)"
    unfolding rend using b by (simp add: unat_word_ariths del: of_nat_add)
  with u have "\<not> rptr r - 4 > rend r" by (simp add: word_less_nat_alt)
  then have "lv2_osc_reader_get_blob m r = (Ok (- 8, rptr r + 4), r_forward (- 4) r)"
    by (simp add: lv2_osc_reader_get_blob_def i p lv2_osc_reader_overflow_def)
  moreover have "rptr r - 4 < rptr r"
    using u assms(2) by (simp add: word_less_nat_alt)
  ultimately show ?thesis by simp
qed

theorem blob_negative_length_rewinds_witness:
  "lv2_osc_reader_get_blob (region 4096 (be32 (- 8) @ [])) (lv2_osc_reader_initialize 4096 (of_nat (length (be32 (- 8) @ ([] :: u8 list)))))
     = (Ok (- 8, rptr (lv2_osc_reader_initialize 4096 4) + 4), r_forward (- 4) (lv2_osc_reader_initialize 4096 4)) \<and>
   rptr (r_forward (- 4) (lv2_osc_reader_initialize 4096 4)) < rptr (lv2_osc_reader_initialize 4096 4)"
  using blob_negative_length_rewinds [OF rview_region, of "[]"]
  by (simp add: lv2_osc_reader_initialize_def)

text \<open>
  \<open>lv2_osc_reader_get_string\<close> measures the string before it checks the bounds: a packet
  without a zero byte, at the end of the memory the program has, makes it read beyond it.
\<close>

theorem string_unterminated_faults:
  "rview m r bs \<Longrightarrow> 0 \<notin> set bs \<Longrightarrow> m (rend r) = None \<Longrightarrow> lv2_osc_reader_get_string m r = (Fault, r)"
  by (rule get_string_unterminated)

theorem string_unterminated_faults_witness:
  "lv2_osc_reader_get_string (region 4096 [47, 97]) (lv2_osc_reader_initialize 4096 (of_nat (length [47 :: u8, 97])))
     = (Fault, lv2_osc_reader_initialize 4096 (of_nat (length [47 :: u8, 97])))"
  by (rule string_unterminated_faults [OF rview_region])
    (simp_all add: region_def lv2_osc_reader_initialize_def)

text \<open>
  C40. \<open>_lv2_osc_trees_internal\<close> calls exactly the branches a path reaches, in the order of the
  tables: those of every matching hook on the way, and those of the leaves its last component
  matches, each with its own copy of the reader.
\<close>

theorem trees_dispatch:
  "0 \<notin> set from \<Longrightarrow>
   trees_internal fnm run r from ts s = (Ok (), fold (\<lambda>b. run b r) (branches fnm from ts) s)"
  by (rule trees_internal_branches)

theorem trees_dispatch_witness:
  "trees_internal (\<lambda>pat name. pat = name) (\<lambda>b r s. s @ [b]) (lv2_osc_reader_initialize 0 0) (cstr ''a/b'')
      [Tree (cstr ''a'') (Some [Tree (cstr ''b'') None (Some 1)]) (Some 0),
       Tree (cstr ''b'') (Some [Tree (cstr ''b'') None (Some (2 :: nat))]) None] []
    = (Ok (), fold (\<lambda>b s. s @ [b]) (branches (\<lambda>pat name. pat = name) (cstr ''a/b'')
      [Tree (cstr ''a'') (Some [Tree (cstr ''b'') None (Some 1)]) (Some 0),
       Tree (cstr ''b'') (Some [Tree (cstr ''b'') None (Some (2 :: nat))]) None]) [])"
  by (rule trees_dispatch) (simp add: c8_def)

end
