(* ===== verification/Osc_Forge.thy ===== *)
theory Osc_Forge
  imports Osc_Packet Osc_Roundtrip
begin

text \<open>
  \<open>osc.lv2/osc.lv2/forge.h\<close>: OSC packets are forged as atoms, from variable arguments or from
  the bytes of a packet. The forge is the parameter \<open>fd\<close>; a call of this library is \<open>Ok\<close> when
  it returns a reference. \<open>map_uri\<close> gives the URID of a URI. On the bytes of a packet,
  \<open>lv2_osc_forge_packet\<close> makes exactly the calls that build the packet's atom.
\<close>

section \<open>Forging\<close>

definition forge_steps :: "'f forge \<Rightarrow> fstep list \<Rightarrow> (unit, 'f) call" where
  "forge_steps fd cs f = (case forge_run fd cs f of (ok, f') \<Rightarrow> (if ok then Ok () else Fail, f'))"

text \<open>
  \<open>src\<close> gives the bytes that can be read through a pointer, or \<open>None\<close>. They are read when the
  header of the atom has been forged.
\<close>

definition lv2_osc_forge_chunk :: "'f forge \<Rightarrow> u32 \<Rightarrow> (nat \<Rightarrow> u8 list option) \<Rightarrow> u32 \<Rightarrow> (unit, 'f) call" where
  "lv2_osc_forge_chunk fd type src n =
     call_bind (forge_steps fd [Keep (FAtom n type)]) (\<lambda>_ f.
       case src (unat n) of
         None \<Rightarrow> (Fault, f)
       | Some bs \<Rightarrow> forge_steps fd [Keep (FRaw bs), Loose (FPad n)] f)"

text \<open>The assertion \<open>size <= 3\<close> ends the program when it fails.\<close>

definition lv2_osc_forge_midi :: "'f forge \<Rightarrow> lv2_osc_urid \<Rightarrow> (nat \<Rightarrow> u8 list option) \<Rightarrow> u32 \<Rightarrow> (unit, 'f) call" where
  "lv2_osc_forge_midi fd u src n =
     (if n \<le> 3 then lv2_osc_forge_chunk fd (u_MidiEvent u) src n else (\<lambda>f. (Fault, f)))"

definition lv2_osc_forge_blob :: "'f forge \<Rightarrow> lv2_osc_urid \<Rightarrow> (nat \<Rightarrow> u8 list option) \<Rightarrow> u32 \<Rightarrow> (unit, 'f) call" where
  "lv2_osc_forge_blob fd u src n = lv2_osc_forge_chunk fd (u_Chunk u) src n"

definition lv2_osc_forge_char :: "'f forge \<Rightarrow> lv2_osc_urid \<Rightarrow> u8 \<Rightarrow> (unit, 'f) call" where
  "lv2_osc_forge_char fd u c = forge_steps fd [Keep (FLiteral [c] (u_Char u) 0)]"

text \<open>\<open>sprintf\<close> with \<open>%02x\<close> is \<open>hex2\<close>.\<close>

definition lv2_osc_forge_rgba :: "'f forge \<Rightarrow> lv2_osc_urid \<Rightarrow> u8 \<Rightarrow> u8 \<Rightarrow> u8 \<Rightarrow> u8 \<Rightarrow> (unit, 'f) call" where
  "lv2_osc_forge_rgba fd u r g b a =
     forge_steps fd [Keep (FLiteral (hex2 r @ hex2 g @ hex2 b @ hex2 a) (u_RGBA u) 0)]"

definition timetag_steps :: "lv2_osc_urid \<Rightarrow> lv2_osc_timetag \<Rightarrow> fstep list" where
  "timetag_steps u tt =
     [Keep (FObject 0 (u_Timetag u)),
      Keep (FKey (u_timetagIntegral u)), Keep (FLong (ucast (integral tt))),
      Keep (FKey (u_timetagFraction u)), Keep (FLong (ucast (fraction tt))),
      Loose FPop]"

definition lv2_osc_forge_timetag :: "'f forge \<Rightarrow> lv2_osc_urid \<Rightarrow> lv2_osc_timetag \<Rightarrow> (unit, 'f) call" where
  "lv2_osc_forge_timetag fd u tt = forge_steps fd (timetag_steps u tt)"

definition lv2_osc_forge_bundle_head :: "'f forge \<Rightarrow> lv2_osc_urid \<Rightarrow> lv2_osc_timetag \<Rightarrow> (unit, 'f) call" where
  "lv2_osc_forge_bundle_head fd u tt =
     forge_steps fd ([Keep (FObject 0 (u_Bundle u)), Keep (FKey (u_bundleTimetag u))] @ timetag_steps u tt @
       [Keep (FKey (u_bundleItems u)), Keep FTuple])"

definition lv2_osc_forge_message_head :: "'f forge \<Rightarrow> lv2_osc_urid \<Rightarrow> u8 list \<Rightarrow> (unit, 'f) call" where
  "lv2_osc_forge_message_head fd u path =
     forge_steps fd [Keep (FObject 0 (u_Message u)), Keep (FKey (u_messagePath u)), Keep (FString path),
       Keep (FKey (u_messageArguments u)), Keep FTuple]"

definition lv2_osc_forge_pop :: "'f forge \<Rightarrow> (unit, 'f) call" where
  "lv2_osc_forge_pop fd = forge_steps fd [Loose FPop, Loose FPop]"

section \<open>From variable arguments\<close>

text \<open>An argument may be a null pointer.\<close>

datatype fva = Va va | Null

abbreviation f_fault :: "(unit, 'f) call" where
  "f_fault \<equiv> (\<lambda>f. (Fault, f))"

abbreviation f_fail :: "(unit, 'f) call" where
  "f_fail \<equiv> (\<lambda>f. (Fail, f))"

definition va_src :: "u8 list \<Rightarrow> nat \<Rightarrow> u8 list option" where
  "va_src b n = (if n \<le> length b then Some (take n b) else None)"

fun forge_varargs :: "'f forge \<Rightarrow> lv2_osc_urid \<Rightarrow> (u64 \<Rightarrow> u32) \<Rightarrow> u8 list \<Rightarrow> fva list \<Rightarrow> (unit, 'f) call" where
  "forge_varargs fd u d2f [] args = (\<lambda>f. (Ok (), f))"
| "forge_varargs fd u d2f (c # fmt) args =
     (let one = (\<lambda>call rest. call_bind call (\<lambda>_. forge_varargs fd u d2f fmt rest)) in
      case type_of_char c of
        None \<Rightarrow> forge_varargs fd u d2f fmt args
      | Some OSC_INT32 \<Rightarrow>
          (case args of Va (VaInt i) # r \<Rightarrow> one (forge_steps fd [Keep (FInt i)]) r | _ \<Rightarrow> f_fault)
      | Some OSC_FLOAT \<Rightarrow>
          (case args of Va (VaDouble d) # r \<Rightarrow> one (forge_steps fd [Keep (FFloat (d2f d))]) r | _ \<Rightarrow> f_fault)
      | Some OSC_STRING \<Rightarrow>
          (case args of
             Va (VaBytes s) # r \<Rightarrow> one (forge_steps fd [Keep (FString s)]) r
           | Null # r \<Rightarrow> f_fail | _ \<Rightarrow> f_fault)
      | Some OSC_BLOB \<Rightarrow>
          (case args of
             Va (VaInt n) # Va (VaBytes b) # r \<Rightarrow> one (lv2_osc_forge_blob fd u (va_src b) n) r
           | Va (VaInt n) # Null # r \<Rightarrow> f_fail | _ \<Rightarrow> f_fault)
      | Some OSC_INT64 \<Rightarrow>
          (case args of Va (VaLong h) # r \<Rightarrow> one (forge_steps fd [Keep (FLong h)]) r | _ \<Rightarrow> f_fault)
      | Some OSC_DOUBLE \<Rightarrow>
          (case args of Va (VaDouble d) # r \<Rightarrow> one (forge_steps fd [Keep (FDouble d)]) r | _ \<Rightarrow> f_fault)
      | Some OSC_TIMETAG \<Rightarrow>
          (case args of
             Va (VaUnsigned i) # Va (VaUnsigned x) # r \<Rightarrow>
               one (lv2_osc_forge_timetag fd u \<lparr>integral = i, fraction = x\<rparr>) r
           | _ \<Rightarrow> f_fault)
      | Some OSC_TRUE \<Rightarrow> one (forge_steps fd [Keep (FBool True)]) args
      | Some OSC_FALSE \<Rightarrow> one (forge_steps fd [Keep (FBool False)]) args
      | Some OSC_NIL \<Rightarrow> one (forge_steps fd [Keep (FLiteral [] (u_Nil u) 0)]) args
      | Some OSC_IMPULSE \<Rightarrow> one (forge_steps fd [Keep (FLiteral [] (u_Impulse u) 0)]) args
      | Some OSC_SYMBOL \<Rightarrow>
          (case args of Va (VaUnsigned k) # r \<Rightarrow> one (forge_steps fd [Keep (FUrid k)]) r | _ \<Rightarrow> f_fault)
      | Some OSC_MIDI \<Rightarrow>
          (case args of
             Va (VaInt n) # Va (VaBytes m) # r \<Rightarrow> one (lv2_osc_forge_midi fd u (va_src m) n) r
           | Va (VaInt n) # Null # r \<Rightarrow> f_fail | _ \<Rightarrow> f_fault)
      | Some OSC_CHAR \<Rightarrow>
          (case args of Va (VaInt i) # r \<Rightarrow> one (lv2_osc_forge_char fd u (ucast i)) r | _ \<Rightarrow> f_fault)
      | Some OSC_RGBA \<Rightarrow>
          (case args of
             Va (VaUnsigned r) # Va (VaUnsigned g) # Va (VaUnsigned b) # Va (VaUnsigned a) # rest \<Rightarrow>
               one (lv2_osc_forge_rgba fd u (ucast r) (ucast g) (ucast b) (ucast a)) rest
           | _ \<Rightarrow> f_fault))"

definition lv2_osc_forge_message_varlist ::
    "'f forge \<Rightarrow> lv2_osc_urid \<Rightarrow> (u64 \<Rightarrow> u32) \<Rightarrow> u8 list \<Rightarrow> u8 list \<Rightarrow> fva list \<Rightarrow> (unit, 'f) call" where
  "lv2_osc_forge_message_varlist fd u d2f path fmt args =
     (if \<not> lv2_osc_check_path path \<or> \<not> lv2_osc_check_fmt fmt 0 then f_fail
      else call_bind (lv2_osc_forge_message_head fd u path) (\<lambda>_.
           call_bind (forge_varargs fd u d2f fmt args) (\<lambda>_. lv2_osc_forge_pop fd)))"

definition lv2_osc_forge_message_vararg ::
    "'f forge \<Rightarrow> lv2_osc_urid \<Rightarrow> (u64 \<Rightarrow> u32) \<Rightarrow> u8 list \<Rightarrow> u8 list \<Rightarrow> fva list \<Rightarrow> (unit, 'f) call" where
  "lv2_osc_forge_message_vararg fd u d2f path fmt args = lv2_osc_forge_message_varlist fd u d2f path fmt args"

section \<open>From the bytes of a packet\<close>

text \<open>The \<open>switch\<close> on the type of an argument that has been read; an unknown type is skipped.\<close>

definition forge_argument :: "'f forge \<Rightarrow> lv2_osc_urid \<Rightarrow> (u8 list \<Rightarrow> u32) \<Rightarrow> mem \<Rightarrow> lv2_osc_arg \<Rightarrow> (unit, 'f) call" where
  "forge_argument fd u map_uri m arg f =
     (case m (atype arg) of
        None \<Rightarrow> (Fault, f)
      | Some c \<Rightarrow>
         (case (type_of_char c, aval arg) of
            (None, _) \<Rightarrow> (Ok (), f)
          | (Some OSC_INT32, UInt i) \<Rightarrow> forge_steps fd [Keep (FInt i)] f
          | (Some OSC_FLOAT, UFloat x) \<Rightarrow> forge_steps fd [Keep (FFloat x)] f
          | (Some OSC_STRING, UPtr p) \<Rightarrow>
              (case ld m p (unat (asize arg - 1)) of
                 None \<Rightarrow> (Fault, f) | Some s \<Rightarrow> forge_steps fd [Keep (FString s)] f)
          | (Some OSC_BLOB, UPtr p) \<Rightarrow> lv2_osc_forge_blob fd u (ld m p) (asize arg) f
          | (Some OSC_INT64, ULong h) \<Rightarrow> forge_steps fd [Keep (FLong h)] f
          | (Some OSC_DOUBLE, UDouble d) \<Rightarrow> forge_steps fd [Keep (FDouble d)] f
          | (Some OSC_TIMETAG, UTime t) \<Rightarrow> lv2_osc_forge_timetag fd u (lv2_osc_timetag_create t) f
          | (Some OSC_TRUE, _) \<Rightarrow> forge_steps fd [Keep (FBool True)] f
          | (Some OSC_FALSE, _) \<Rightarrow> forge_steps fd [Keep (FBool False)] f
          | (Some OSC_NIL, _) \<Rightarrow> forge_steps fd [Keep (FLiteral [] (u_Nil u) 0)] f
          | (Some OSC_IMPULSE, _) \<Rightarrow> forge_steps fd [Keep (FLiteral [] (u_Impulse u) 0)] f
          | (Some OSC_SYMBOL, UPtr p) \<Rightarrow>
              (case c_str m p of
                 None \<Rightarrow> (Fault, f) | Some s \<Rightarrow> forge_steps fd [Keep (FUrid (map_uri s))] f)
          | (Some OSC_MIDI, UPtr p) \<Rightarrow> lv2_osc_forge_midi fd u (ld m (p + 1)) (asize arg - 1) f
          | (Some OSC_CHAR, UChar x) \<Rightarrow> lv2_osc_forge_char fd u x f
          | (Some OSC_RGBA, URgba [r, g, b, a]) \<Rightarrow> lv2_osc_forge_rgba fd u r g b a f
          | _ \<Rightarrow> (Fault, f)))"

fun forge_arguments :: "nat \<Rightarrow> 'f forge \<Rightarrow> lv2_osc_urid \<Rightarrow> (u8 list \<Rightarrow> u32) \<Rightarrow> mem
    \<Rightarrow> lv2_osc_arg result \<times> osc_reader \<Rightarrow> 'f \<Rightarrow> (unit result \<times> 'f) option" where
  "forge_arguments 0 fd u map_uri m cur f = None"
| "forge_arguments (Suc n) fd u map_uri m (Fault, r) f = Some (Fault, f)"
| "forge_arguments (Suc n) fd u map_uri m (Fail, r) f = Some (Ok (), f)"
| "forge_arguments (Suc n) fd u map_uri m (Ok arg, r) f =
     (case lv2_osc_reader_arg_is_end m r arg of
        None \<Rightarrow> Some (Fault, f)
      | Some True \<Rightarrow> Some (Ok (), f)
      | Some False \<Rightarrow>
          (case forge_argument fd u map_uri m arg f of
             (Ok _, f1) \<Rightarrow> forge_arguments n fd u map_uri m (lv2_osc_reader_arg_next m arg r) f1
           | (Fail, f1) \<Rightarrow> Some (Fail, f1)
           | (Fault, f1) \<Rightarrow> Some (Fault, f1)))"

text \<open>A bundle within a bundle is a recursive call; loops and recursion share the fuel.\<close>

definition then_pop :: "'f forge \<Rightarrow> (unit result \<times> 'f) option \<Rightarrow> (unit result \<times> 'f) option" where
  "then_pop fd = map_option (\<lambda>(res, f). case res of Ok _ \<Rightarrow> lv2_osc_forge_pop fd f | _ \<Rightarrow> (res, f))"

fun lv2_osc_forge_packet :: "nat \<Rightarrow> 'f forge \<Rightarrow> lv2_osc_urid \<Rightarrow> (u8 list \<Rightarrow> u32) \<Rightarrow> mem \<Rightarrow> addr \<Rightarrow> u64 \<Rightarrow> 'f
      \<Rightarrow> (unit result \<times> 'f) option"
  and forge_items :: "nat \<Rightarrow> 'f forge \<Rightarrow> lv2_osc_urid \<Rightarrow> (u8 list \<Rightarrow> u32) \<Rightarrow> mem
      \<Rightarrow> lv2_osc_item result \<times> osc_reader \<Rightarrow> 'f \<Rightarrow> (unit result \<times> 'f) option" where
  "lv2_osc_forge_packet 0 fd u map_uri m buf n f = None"
| "lv2_osc_forge_packet (Suc k) fd u map_uri m buf n f =
     (let r = lv2_osc_reader_initialize buf n in
      case lv2_osc_reader_is_bundle m r of
        None \<Rightarrow> Some (Fault, f)
      | Some True \<Rightarrow>
          (case bundle_begin m n r of
             (Fault, _) \<Rightarrow> Some (Fault, f)
           | (Fail, _) \<Rightarrow> Some (Fail, f)
           | (Ok itm, r1) \<Rightarrow>
               (case lv2_osc_forge_bundle_head fd u (lv2_osc_timetag_create (itimetag itm)) f of
                  (Ok _, f1) \<Rightarrow> then_pop fd (forge_items k fd u map_uri m (Ok itm, r1) f1)
                | (res, f1) \<Rightarrow> Some (res, f1)))
      | Some False \<Rightarrow>
          (case lv2_osc_reader_is_message m r of
             None \<Rightarrow> Some (Fault, f)
           | Some False \<Rightarrow> Some (Fail, f)
           | Some True \<Rightarrow>
               (case message_begin m n r of
                  (Fault, _) \<Rightarrow> Some (Fault, f)
                | (Fail, _) \<Rightarrow> Some (Fail, f)
                | (Ok arg, r1) \<Rightarrow>
                    (case c_str m (apath arg) of
                       None \<Rightarrow> Some (Fault, f)
                     | Some path \<Rightarrow>
                         (case lv2_osc_forge_message_head fd u path f of
                            (Ok _, f1) \<Rightarrow> then_pop fd (forge_arguments k fd u map_uri m (Ok arg, r1) f1)
                          | (res, f1) \<Rightarrow> Some (res, f1))))))"
| "forge_items 0 fd u map_uri m cur f = None"
| "forge_items (Suc k) fd u map_uri m (Fault, r) f = Some (Fault, f)"
| "forge_items (Suc k) fd u map_uri m (Fail, r) f = Some (Ok (), f)"
| "forge_items (Suc k) fd u map_uri m (Ok itm, r) f =
     (if lv2_osc_reader_item_is_end r itm then Some (Ok (), f)
      else case lv2_osc_forge_packet k fd u map_uri m (ibody itm) (scast (isize itm)) f of
          None \<Rightarrow> None
        | Some (Ok _, f1) \<Rightarrow> forge_items k fd u map_uri m (lv2_osc_reader_item_next m itm r) f1
        | Some (res, f1) \<Rightarrow> Some (res, f1))"

section \<open>The calls that build a packet\<close>

definition timetag_calls :: "lv2_osc_urid \<Rightarrow> u64 \<Rightarrow> fcall list" where
  "timetag_calls u t = map fstep_call (timetag_steps u (lv2_osc_timetag_create t))"

fun arg_calls :: "lv2_osc_urid \<Rightarrow> (u8 list \<Rightarrow> u32) \<Rightarrow> osc_arg \<Rightarrow> fcall list" where
  "arg_calls u map_uri (AInt i) = [FInt i]"
| "arg_calls u map_uri (AFloat f) = [FFloat f]"
| "arg_calls u map_uri (AString s) = [FString s]"
| "arg_calls u map_uri (ABlob b) = [FAtom (of_nat (length b)) (u_Chunk u), FRaw b, FPad (of_nat (length b))]"
| "arg_calls u map_uri ATrue = [FBool True]"
| "arg_calls u map_uri AFalse = [FBool False]"
| "arg_calls u map_uri ANil = [FLiteral [] (u_Nil u) 0]"
| "arg_calls u map_uri AImpulse = [FLiteral [] (u_Impulse u) 0]"
| "arg_calls u map_uri (ALong h) = [FLong h]"
| "arg_calls u map_uri (ADouble d) = [FDouble d]"
| "arg_calls u map_uri (ATimetag t) = timetag_calls u t"
| "arg_calls u map_uri (ASymbol s) = [FUrid (map_uri s)]"
| "arg_calls u map_uri (AChar c) = [FLiteral [c] (u_Char u) 0]"
| "arg_calls u map_uri (AMidi m) =
     [FAtom (of_nat (length (tl m))) (u_MidiEvent u), FRaw (tl m), FPad (of_nat (length (tl m)))]"
| "arg_calls u map_uri (ARgba r g b a) = [FLiteral (hex2 r @ hex2 g @ hex2 b @ hex2 a) (u_RGBA u) 0]"

primrec packet_calls :: "lv2_osc_urid \<Rightarrow> (u8 list \<Rightarrow> u32) \<Rightarrow> packet \<Rightarrow> fcall list" where
  "packet_calls u map_uri (PMessage path as) =
     [FObject 0 (u_Message u), FKey (u_messagePath u), FString path, FKey (u_messageArguments u), FTuple] @
     concat (map (arg_calls u map_uri) as) @ [FPop, FPop]"
| "packet_calls u map_uri (PBundle t ps) =
     [FObject 0 (u_Bundle u), FKey (u_bundleTimetag u)] @ timetag_calls u t @ [FKey (u_bundleItems u), FTuple] @
     concat (map (packet_calls u map_uri) ps) @ [FPop, FPop]"

text \<open>Packets on the wire that can be forged: MIDI messages have their full four bytes there.\<close>

definition forge_arg_ok :: "osc_arg \<Rightarrow> bool" where
  "forge_arg_ok a \<longleftrightarrow> arg_ok a \<and> (case a of AMidi m \<Rightarrow> length m = 4 | _ \<Rightarrow> True)"

primrec forge_ok :: "packet \<Rightarrow> bool" where
  "forge_ok (PMessage path as) \<longleftrightarrow> path \<noteq> [] \<and> path ! 0 = slash \<and> 0 \<notin> set path \<and> length path < 2 ^ 31 \<and>
     length as < 2 ^ 31 \<and> list_all forge_arg_ok as"
| "forge_ok (PBundle t ps) \<longleftrightarrow> ps \<noteq> [] \<and> list_all forge_ok ps"

primrec packet_wire :: "packet \<Rightarrow> u8 list \<Rightarrow> bool" where
  "packet_wire (PMessage path as) = message_wire path as"
| "packet_wire (PBundle t ps) = (\<lambda>bs. \<exists>xs. bs = bundle_wire t xs \<and> list_all2 (\<lambda>w x. w x) (map packet_wire ps) xs)"

primrec packet_fuel :: "packet \<Rightarrow> nat" where
  "packet_fuel (PMessage path as) = length as + 3"
| "packet_fuel (PBundle t ps) = sum_list (map packet_fuel ps) + length ps + 3"

lemma forge_steps_recording [simp]: "forge_steps recording cs f = (Ok (), f @ map fstep_call cs)"
  by (simp add: forge_steps_def forge_run_recording)

lemma fstep_call_simps [simp]: "fstep_call (Keep c) = c" "fstep_call (Loose c) = c"
  by (simp_all add: fstep_call_def)

lemma forge_chunk_recording:
  "src (unat n) = Some bs \<Longrightarrow> lv2_osc_forge_chunk recording t src n f = (Ok (), f @ [FAtom n t, FRaw bs, FPad n])"
  by (simp add: lv2_osc_forge_chunk_def)

lemma c_str_ld: "c_str m p = Some s \<Longrightarrow> ld m p (length s) = Some s"
  using c_str_Some [of m p s] by (simp add: ld_mem_at)

text \<open>An argument that was read is forged with the calls of that argument.\<close>

lemma forge_argument_calls:
  assumes v: "arg_view m arg a" and ok: "forge_arg_ok a"
  shows "forge_argument recording u map_uri m arg f = (Ok (), f @ arg_calls u map_uri a)"
proof -
  have c: "m (atype arg) = Some (type_char (arg_type a))" and sh: "arg_shows m (asize arg) (aval arg) a"
    using v by (simp_all add: arg_view_def)
  note unf = forge_argument_def c
  show ?thesis
  proof (cases a)
    case (AString s)
    then obtain p where p: "aval arg = UPtr p" "c_str m p = Some s" "asize arg = of_nat (length s + 1)"
      using sh by auto
    have "unat (asize arg - 1) = length s"
      using ok AString p(3) by (simp add: forge_arg_ok_def unat_of_nat)
    with AString p c_str_ld [OF p(2)] show ?thesis by (simp add: unf del: type_char.simps)
  next
    case (ABlob b)
    then obtain p where p: "aval arg = UPtr p" "mem_at m p b" "asize arg = of_nat (length b)"
      using sh by auto
    have "ld m p (unat (asize arg)) = Some b"
      using ok ABlob p ld_mem_at [OF p(2)] by (simp add: forge_arg_ok_def unat_of_nat)
    with ABlob p show ?thesis
      by (simp add: unf lv2_osc_forge_blob_def forge_chunk_recording del: type_char.simps)
  next
    case (AMidi x)
    then obtain p b where p: "aval arg = UPtr p" "mem_at m p x" "asize arg = 4" and x: "x = b # tl x" "length (tl x) = 3"
      using sh ok by (cases x) (auto simp: forge_arg_ok_def)
    from p(2) x(1) have "mem_at m (p + 1) (tl x)" by (metis mem_at.simps(2))
    with ld_mem_at [OF this] x have "ld m (p + 1) (unat (3 :: u32)) = Some (tl x)" by simp
    with AMidi p x(2) show ?thesis
      by (simp add: unf lv2_osc_forge_midi_def forge_chunk_recording del: type_char.simps length_tl)
  next
    case (ASymbol s)
    with sh show ?thesis by (auto simp: unf simp del: type_char.simps)
  qed (use sh in \<open>simp_all add: unf lv2_osc_forge_timetag_def lv2_osc_forge_char_def lv2_osc_forge_rgba_def
      timetag_calls_def del: type_char.simps\<close>)
qed

lemma message_iterate_ConsE:
  assumes "message_iterate (Suc n) m (Ok arg, r) = Some (Ok args, r')" and "lv2_osc_reader_arg_is_end m r arg = Some False"
  obtains args' where "args = arg # args'" "message_iterate n m (lv2_osc_reader_arg_next m arg r) = Some (Ok args', r')"
proof -
  from assms obtain q where "message_iterate n m (lv2_osc_reader_arg_next m arg r) = Some q"
    "(case q of (Ok args, r') \<Rightarrow> (Ok (arg # args), r') | (Fail, r') \<Rightarrow> (Fail, r') | (Fault, r') \<Rightarrow> (Fault, r'))
      = (Ok args, r')" by auto
  then show thesis using that by (cases q; cases "fst q") auto
qed

lemma bundle_iterate_ConsE:
  assumes "bundle_iterate (Suc n) m (Ok itm, r) = Some (Ok itms, r')" and "\<not> lv2_osc_reader_item_is_end r itm"
  obtains itms' where "itms = itm # itms'" "bundle_iterate n m (lv2_osc_reader_item_next m itm r) = Some (Ok itms', r')"
proof -
  from assms obtain q where "bundle_iterate n m (lv2_osc_reader_item_next m itm r) = Some q"
    "(case q of (Ok itms, r') \<Rightarrow> (Ok (itm # itms), r') | (Fail, r') \<Rightarrow> (Fail, r') | (Fault, r') \<Rightarrow> (Fault, r'))
      = (Ok itms, r')" by auto
  then show thesis using that by (cases q; cases "fst q") auto
qed

lemma forge_arguments_calls:
  "message_iterate n m cur = Some (Ok args, r') \<Longrightarrow> list_all2 (arg_view m) args as \<Longrightarrow> list_all forge_arg_ok as \<Longrightarrow>
   forge_arguments n recording u map_uri m cur f = Some (Ok (), f @ concat (map (arg_calls u map_uri) as))"
proof (induction n m cur arbitrary: args as f rule: message_iterate.induct)
  case (4 n m arg r)
  show ?case
  proof (cases "lv2_osc_reader_arg_is_end m r arg")
    case None
    with 4 show ?thesis by simp
  next
    case (Some b)
    show ?thesis
    proof (cases b)
      case True
      with 4 Some show ?thesis by simp
    next
      case False
      obtain args' where args: "args = arg # args'"
        "message_iterate n m (lv2_osc_reader_arg_next m arg r) = Some (Ok args', r')"
        by (rule message_iterate_ConsE [OF 4(2)]) (use Some False in auto)
      with 4(3) obtain a as' where as: "as = a # as'" "arg_view m arg a" "list_all2 (arg_view m) args' as'"
        by (cases as) auto
      from forge_argument_calls [OF as(2)] 4(1) [OF Some, OF _ args(2) as(3)] False Some as 4(4)
      show ?thesis by simp
    qed
  qed
qed auto

text \<open>The items of a bundle are forged one by one, by the calls of each packet.\<close>

definition forges :: "lv2_osc_urid \<Rightarrow> (u8 list \<Rightarrow> u32) \<Rightarrow> mem \<Rightarrow> lv2_osc_item \<Rightarrow> packet \<Rightarrow> bool" where
  "forges u map_uri m itm p \<longleftrightarrow> (\<forall>k \<ge> packet_fuel p. \<forall>f.
     lv2_osc_forge_packet k recording u map_uri m (ibody itm) (scast (isize itm)) f
       = Some (Ok (), f @ packet_calls u map_uri p))"

lemma forge_items_calls:
  "bundle_iterate n m cur = Some (Ok itms, r') \<Longrightarrow> list_all2 (forges u map_uri m) itms ps \<Longrightarrow>
   n + sum_list (map packet_fuel ps) \<le> k \<Longrightarrow>
   forge_items k recording u map_uri m cur f = Some (Ok (), f @ concat (map (packet_calls u map_uri) ps))"
proof (induction n m cur arbitrary: itms ps f k rule: bundle_iterate.induct)
  case (3 n m r)
  then obtain j where "k = Suc j" by (cases k) auto
  with 3 show ?case by auto
next
  case (4 n m itm r)
  from 4(4) obtain j where k: "k = Suc j" by (cases k) auto
  show ?case
  proof (cases "lv2_osc_reader_item_is_end r itm")
    case True
    with 4 k show ?thesis by auto
  next
    case False
    obtain itms' where itms: "itms = itm # itms'"
      "bundle_iterate n m (lv2_osc_reader_item_next m itm r) = Some (Ok itms', r')"
      by (rule bundle_iterate_ConsE [OF 4(2) False])
    with 4(3) obtain p ps' where ps: "ps = p # ps'" "forges u map_uri m itm p" "list_all2 (forges u map_uri m) itms' ps'"
      by (cases ps) auto
    have "packet_fuel p \<le> j" "n + sum_list (map packet_fuel ps') \<le> j" using 4(4) ps k by auto
    with 4(1) [OF False itms(2) ps(3)] ps(2) False show ?thesis
      by (simp add: k ps(1) forges_def)
  qed
qed auto

lemma bundle_foreach_first:
  assumes "bundle_foreach n m len r = Some (Ok itms, r')" and "\<forall>i \<in> set itms. itimetag i = t" and "itms \<noteq> []"
  obtains itm r1 where "bundle_begin m len r = (Ok itm, r1)" "itimetag itm = t"
proof -
  obtain j where n: "n = Suc j" using assms(1) by (cases n) (auto simp: bundle_foreach_def)
  obtain res r1 where b: "bundle_begin m len r = (res, r1)" by fastforce
  with assms(1,3) n obtain itm where res: "res = Ok itm"
    by (cases res) (auto simp: bundle_foreach_def)
  then have it: "bundle_iterate (Suc j) m (Ok itm, r1) = Some (Ok itms, r')"
    using assms(1) b n by (simp add: bundle_foreach_def)
  have e: "\<not> lv2_osc_reader_item_is_end r1 itm" using it assms(3) by (auto split: if_splits)
  from bundle_iterate_ConsE [OF it e] assms(2) b res that show thesis by (metis list.set_intros(1))
qed

lemma message_kind:
  assumes v: "rview m r bs" and w: "message_wire path as bs" and path: "path \<noteq> []" "path ! 0 = slash"
  shows "lv2_osc_reader_is_bundle m r = Some False" "lv2_osc_reader_is_message m r = Some True"
proof -
  obtain ws where "bs = path @ ws" using w by (auto simp: message_wire_def enc_string_def)
  moreover have "path = slash # tl path" using path by (cases path) auto
  ultimately have "bs = slash # tl path @ drop (length path) bs"
    by (metis append_Cons append_eq_conv_conj)
  with rview_mem_at [OF v] have "mem_at m (rptr r) (slash # tl path @ drop (length path) bs)" by simp
  then show "lv2_osc_reader_is_bundle m r = Some False" "lv2_osc_reader_is_message m r = Some True"
    by (auto simp: lv2_osc_reader_is_bundle_def lv2_osc_reader_is_message_def bundle_tag_def slash_def c8_def)
qed

text \<open>A bundle: its first item, and the items the loop sees.\<close>

lemma bundle_starts:
  assumes v: "rview m r bs" and bs: "bs = bundle_wire t xs" and ne: "xs \<noteq> []" and n: "length bs < 2 ^ 31"
  obtains itm r1 itms r' where "lv2_osc_reader_is_bundle m r = Some True"
    "bundle_begin m (of_nat (length bs)) r = (Ok itm, r1)" "itimetag itm = t"
    "bundle_iterate (length xs + 2) m (Ok itm, r1) = Some (Ok itms, r')" "list_all2 (item_view m) itms xs"
    "\<forall>x \<in> set xs. length x < 2 ^ 31"
proof -
  have len: "length x < 2 ^ 31" if "x \<in> set xs" for x
  proof -
    have "length x \<le> length (concat (map item_bytes xs))"
      using member_le_sum_list [of "length (item_bytes x)" "map (length \<circ> item_bytes) xs"] that
      by (auto simp: length_concat item_bytes_def o_def)
    with n show ?thesis by (simp add: bs bundle_wire_def)
  qed
  obtain itms r' where got: "bundle_foreach (length xs + 2) m (of_nat (length bs)) r = Some (Ok itms, r')"
    "list_all2 (item_view m) itms xs" "\<forall>i \<in> set itms. itimetag i = t"
    using bundle_foreach_reads [of m r t xs "length xs + 2"] v len by (auto simp: bs)
  have "itms \<noteq> []" using got(2) ne by auto
  with got(1,3) obtain itm r1 where start: "bundle_begin m (of_nat (length bs)) r = (Ok itm, r1)" "itimetag itm = t"
    by (rule bundle_foreach_first)
  have "lv2_osc_reader_is_bundle m r = Some True"
    unfolding lv2_osc_reader_is_bundle_def
    by (rule strn_eq_prefix [OF rview_mem_at [OF v, unfolded bs bundle_wire_def], folded bundle_wire_def bs])
  with start got(1,2) len show thesis by (intro that [of itm r1 itms r']) (simp_all add: bundle_foreach_def)
qed

lemma message_forges:
  assumes v: "rview m (lv2_osc_reader_initialize buf (of_nat (length bs))) bs" and w: "message_wire path as bs"
    and ok: "forge_ok (PMessage path as)" and k: "packet_fuel (PMessage path as) \<le> k"
  shows "lv2_osc_forge_packet k recording u map_uri m buf (of_nat (length bs)) f
    = Some (Ok (), f @ packet_calls u map_uri (PMessage path as))"
proof -
  let ?r = "lv2_osc_reader_initialize buf (of_nat (length bs))"
  obtain j where j: "k = Suc j" "length as + 1 < j" using k by (cases k) auto
  have aok: "list_all arg_ok as" using ok by (auto simp: list_all_iff forge_arg_ok_def)
  have lens: "path \<noteq> []" "path ! 0 = slash" "0 \<notin> set path" "length path < 2 ^ 31" "length as < 2 ^ 31"
    "list_all forge_arg_ok as" using ok by simp_all
  obtain arg r1 where start: "message_begin m (of_nat (length bs)) ?r = (Ok arg, r1)" "apath arg = rptr ?r"
    using message_begin_reads [OF v w lens(3-5) aok] by blast
  obtain args r' where got: "message_foreach j m (of_nat (length bs)) ?r = Some (Ok args, r')"
    "list_all2 (arg_view m) args as" "c_str m (rptr ?r) = Some path"
    using message_foreach_reads [OF v w lens(3,4) aok lens(5) j(2)] by blast
  note kind = message_kind [OF v w lens(1,2)]
  have "forge_arguments j recording u map_uri m (Ok arg, r1) g
    = Some (Ok (), g @ concat (map (arg_calls u map_uri) as))" for g
    by (rule forge_arguments_calls [OF _ got(2)])
      (use got(1) start(1) lens in \<open>simp_all add: message_foreach_def\<close>)
  with kind start got(3) show ?thesis
    by (simp add: j(1) Let_def lv2_osc_forge_message_head_def lv2_osc_forge_pop_def then_pop_def)
qed

lemma forge_packet_calls:
  "rview m (lv2_osc_reader_initialize buf (of_nat (length bs))) bs \<Longrightarrow> packet_wire p bs \<Longrightarrow> forge_ok p \<Longrightarrow>
   length bs < 2 ^ 31 \<Longrightarrow> packet_fuel p \<le> k \<Longrightarrow>
   lv2_osc_forge_packet k recording u map_uri m buf (of_nat (length bs)) f
     = Some (Ok (), f @ packet_calls u map_uri p)"
proof (induction p arbitrary: buf bs k f)
  case (PMessage path as)
  then show ?case by (intro message_forges) simp_all
next
  case (PBundle t ps)
  let ?r = "lv2_osc_reader_initialize buf (of_nat (length bs))"
  obtain j where j: "k = Suc j" "length ps + 2 + sum_list (map packet_fuel ps) \<le> j"
    using PBundle.prems(5) by (cases k) auto
  obtain xs where bs: "bs = bundle_wire t xs" and xs: "list_all2 (\<lambda>p x. packet_wire p x) ps xs"
    using PBundle.prems(2) by (auto simp: list_all2_map1)
  have "xs \<noteq> []" using xs PBundle.prems(3) by auto
  with PBundle.prems(1) bs obtain itm r1 itms r' where kind: "lv2_osc_reader_is_bundle m ?r = Some True"
    and start: "bundle_begin m (of_nat (length bs)) ?r = (Ok itm, r1)" "itimetag itm = t"
    and got: "bundle_iterate (length ps + 2) m (Ok itm, r1) = Some (Ok itms, r')" "list_all2 (item_view m) itms xs"
    and len: "\<forall>x \<in> set xs. length x < 2 ^ 31"
    by (rule bundle_starts [OF _ _ _ PBundle.prems(4)]) (use list_all2_lengthD [OF xs] in auto)
  have "list_all2 (forges u map_uri m) itms ps"
  proof (rule list_all2_all_nthI)
    show "length itms = length ps" using got(2) xs by (simp add: list_all2_lengthD)
    fix n assume n: "n < length itms"
    have lens: "length itms = length xs" "length ps = length xs"
      using got(2) xs by (simp_all add: list_all2_lengthD)
    have view: "item_view m (itms ! n) (xs ! n)" using list_all2_nthD [OF got(2) n] .
    have p: "ps ! n \<in> set ps" and x: "length (xs ! n) < 2 ^ 31" using n lens len by simp_all
    have sc: "scast (isize (itms ! n)) = (of_nat (length (xs ! n)) :: u64)"
      using view x by (simp add: item_view_def scast_of_nat31)
    show "forges u map_uri m (itms ! n) (ps ! n)"
      unfolding forges_def sc
      using PBundle.IH [OF p, of "ibody (itms ! n)" "xs ! n"] view x PBundle.prems(3) p
        list_all2_nthD [OF xs, of n] n lens
      by (simp add: item_view_def sc list_all_iff)
  qed
  from forge_items_calls [OF got(1) this j(2)]
  have items: "forge_items j recording u map_uri m (Ok itm, r1) g
      = Some (Ok (), g @ concat (map (packet_calls u map_uri) ps))" for g .
  from kind start items show ?case
    by (simp add: j(1) Let_def lv2_osc_forge_bundle_head_def lv2_osc_forge_pop_def then_pop_def timetag_calls_def)
qed

end
