(* ===== verification/Osc_Bridge.thy ===== *)
theory Osc_Bridge
  imports Osc_Forge
begin

text \<open>
  Atoms to bytes and back: \<open>lv2_osc_writer_packet\<close> of \<open>writer.h\<close> and \<open>lv2_osc_forge_packet\<close> of
  \<open>forge.h\<close> on the same packets. The bytes the writer leaves make the forge build the atom the
  writer was given; where the two functions stop short of that, the theorems say how.
\<close>

section \<open>What is written can be read\<close>

lemma items_wire_enc:
  assumes "\<And>p rest. p \<in> set ps \<Longrightarrow> fits (length (packet_enc p rest)) rest \<Longrightarrow> packet_wire p (packet_enc p rest)"
    and "fits (length (items_enc (map packet_enc ps) rest)) rest"
  shows "\<exists>xs. items_enc (map packet_enc ps) rest = concat (map item_bytes xs) \<and> list_all2 packet_wire ps xs"
  using assms
proof (induction ps arbitrary: rest)
  case Nil
  show ?case by (rule exI [of _ "[]"]) simp
next
  case (Cons p ps)
  let ?e = "packet_enc p (drop 4 rest)" and ?r = "drop (length (item_enc (packet_enc p) rest)) rest"
  have enc: "items_enc (map packet_enc (p # ps)) rest = item_bytes ?e @ items_enc (map packet_enc ps) ?r"
    by (simp add: item_enc_def item_bytes_def Let_def)
  have "fits (length ?e) (drop 4 rest)" "fits (length (items_enc (map packet_enc ps) ?r)) ?r"
    using Cons.prems(2) unfolding enc by (auto simp: fits_def item_enc_def item_bytes_def Let_def)
  with Cons.prems(1) Cons.IH [of ?r] obtain xs where
    "packet_wire p ?e" "items_enc (map packet_enc ps) ?r = concat (map item_bytes xs)" "list_all2 packet_wire ps xs"
    by auto
  then show ?case unfolding enc by (intro exI [of _ "?e # xs"]) simp
qed

lemma packet_wire_enc:
  "packet_ok unmap umap p \<Longrightarrow> fits (length (packet_enc p rest)) rest \<Longrightarrow> packet_wire p (packet_enc p rest)"
proof (induction p arbitrary: rest)
  case (PMessage path as)
  then show ?case by (auto intro!: message_wire_enc packet_arg_ok_arg)
next
  case (PBundle t ps)
  have "fits (length (items_enc (map packet_enc ps) (drop 16 rest))) (drop 16 rest)"
    using PBundle.prems(2) by (auto simp: bundle_enc_def fits_def)
  from items_wire_enc [OF PBundle.IH this] PBundle.prems(1) obtain xs where
    "items_enc (map packet_enc ps) (drop 16 rest) = concat (map item_bytes xs)" "list_all2 packet_wire ps xs"
    by (auto simp: list_all_iff)
  then show ?case by (auto simp: bundle_enc_def bundle_wire_def list_all2_map1)
qed

lemma path_written:
  assumes "wview s out rest" and "length path < 2 ^ 31" and "pad4 (length path + 1) < length rest"
  shows "\<exists>s'. lv2_osc_writer_add_path path s = (Ok (), s')"
  using writer_op.room [OF writer_op_path assms(1), of path] assms(2,3) by (auto simp: fits_def)

section \<open>The same message from variable arguments\<close>

text \<open>The variable arguments that pass an argument to the forge.\<close>

fun forge_va :: "(u32 \<Rightarrow> u64) \<Rightarrow> (u8 list \<Rightarrow> u32) \<Rightarrow> osc_arg \<Rightarrow> fva list" where
  "forge_va f2d map_uri (AInt i) = [Va (VaInt i)]"
| "forge_va f2d map_uri (AFloat f) = [Va (VaDouble (f2d f))]"
| "forge_va f2d map_uri (AString s) = [Va (VaBytes s)]"
| "forge_va f2d map_uri (ABlob b) = [Va (VaInt (of_nat (length b))), Va (VaBytes b)]"
| "forge_va f2d map_uri (ALong h) = [Va (VaLong h)]"
| "forge_va f2d map_uri (ADouble d) = [Va (VaDouble d)]"
| "forge_va f2d map_uri (ATimetag t) =
     [Va (VaUnsigned (integral (lv2_osc_timetag_create t))), Va (VaUnsigned (fraction (lv2_osc_timetag_create t)))]"
| "forge_va f2d map_uri (ASymbol s) = [Va (VaUnsigned (map_uri s))]"
| "forge_va f2d map_uri (AMidi m) = [Va (VaInt 3), Va (VaBytes (tl m))]"
| "forge_va f2d map_uri (AChar c) = [Va (VaInt (scast c))]"
| "forge_va f2d map_uri (ARgba r g b a) =
     [Va (VaUnsigned (ucast r)), Va (VaUnsigned (ucast g)), Va (VaUnsigned (ucast b)), Va (VaUnsigned (ucast a))]"
| "forge_va f2d map_uri _ = []"

definition forge_vas :: "(u32 \<Rightarrow> u64) \<Rightarrow> (u8 list \<Rightarrow> u32) \<Rightarrow> osc_arg list \<Rightarrow> fva list" where
  "forge_vas f2d map_uri as = concat (map (forge_va f2d map_uri) as)"

lemma forge_vararg_calls:
  assumes "forge_arg_ok a" and "floats_kept d2f f2d [a]"
  shows "forge_varargs recording u d2f (type_char (arg_type a) # fmt) (forge_va f2d map_uri a @ args) f
    = forge_varargs recording u d2f fmt args (f @ arg_calls u map_uri a)"
proof (cases a)
  case (ABlob b)
  then have "unat (of_nat (length b) :: u32) = length b"
    using assms(1) by (simp add: forge_arg_ok_def unat_of_nat)
  then have "va_src b (unat (of_nat (length b) :: u32)) = Some b" by (simp add: va_src_def)
  with ABlob show ?thesis
    by (simp add: Let_def call_bind_def lv2_osc_forge_blob_def forge_chunk_recording del: type_char.simps)
next
  case (AMidi m)
  then have "length (tl m) = 3" "va_src (tl m) (unat (3 :: u32)) = Some (tl m)"
    using assms(1) by (simp_all add: va_src_def forge_arg_ok_def)
  with AMidi show ?thesis
    by (simp add: Let_def call_bind_def lv2_osc_forge_midi_def forge_chunk_recording del: type_char.simps length_tl)
qed (use assms(2) in \<open>simp_all add: Let_def call_bind_def lv2_osc_forge_timetag_def lv2_osc_forge_char_def
    lv2_osc_forge_rgba_def timetag_calls_def timetag_steps_def del: type_char.simps\<close>)

lemma forge_varargs_calls:
  "list_all forge_arg_ok as \<Longrightarrow> floats_kept d2f f2d as \<Longrightarrow>
   forge_varargs recording u d2f (arg_fmt as @ fmt) (forge_vas f2d map_uri as @ args) f
     = forge_varargs recording u d2f fmt args (f @ concat (map (arg_calls u map_uri) as))"
proof (induction as arbitrary: f)
  case Nil
  show ?case by (simp add: arg_fmt_def forge_vas_def)
next
  case (Cons a as)
  from Cons.prems have "forge_arg_ok a" "floats_kept d2f f2d [a]" "floats_kept d2f f2d as"
    by (simp_all add: floats_kept_def)
  with Cons forge_vararg_calls [of a d2f f2d u "arg_fmt as @ fmt" map_uri "forge_vas f2d map_uri as @ args" f]
  show ?case by (simp add: forge_vas_def del: type_char.simps)
qed

lemma message_vararg_calls:
  assumes "lv2_osc_check_path path" and "lv2_osc_check_fmt (arg_fmt as) 0" and "list_all forge_arg_ok as" and "floats_kept d2f f2d as"
  shows "lv2_osc_forge_message_vararg recording u d2f path (arg_fmt as) (forge_vas f2d map_uri as) f
    = (Ok (), f @ packet_calls u map_uri (PMessage path as))"
  using assms(1,2) forge_varargs_calls [OF assms(3,4), of u "[]" map_uri "[]"]
  by (simp add: lv2_osc_forge_message_vararg_def lv2_osc_forge_message_varlist_def call_bind_def
      lv2_osc_forge_message_head_def lv2_osc_forge_pop_def)

lemma nesting_arg: "nesting n (arg_calls u map_uri a) = Some n"
  by (cases a) (simp_all add: timetag_calls_def timetag_steps_def)

lemma nesting_args: "nesting n (concat (map (arg_calls u map_uri) as)) = Some n"
  by (induction as) (simp_all add: nesting_append nesting_arg)

section \<open>A host and a packet\<close>

definition host_urid :: lv2_osc_urid where
  "host_urid = lv2_osc_urid_init (\<lambda>uri. case uri of
     LV2_OSC_Packet \<Rightarrow> 1 | LV2_OSC_Bundle \<Rightarrow> 2 | LV2_OSC_bundleTimetag \<Rightarrow> 3 | LV2_OSC_bundleItems \<Rightarrow> 4
   | LV2_OSC_Message \<Rightarrow> 5 | LV2_OSC_messagePath \<Rightarrow> 6 | LV2_OSC_messageArguments \<Rightarrow> 7
   | LV2_OSC_Timetag_URI \<Rightarrow> 8 | LV2_OSC_timetagIntegral \<Rightarrow> 9 | LV2_OSC_timetagFraction \<Rightarrow> 10
   | LV2_OSC_Nil \<Rightarrow> 11 | LV2_OSC_Impulse \<Rightarrow> 12 | LV2_OSC_Char \<Rightarrow> 13 | LV2_OSC_RGBA \<Rightarrow> 14
   | LV2_MIDI_MidiEvent \<Rightarrow> 15
   | LV2_ATOM_Int \<Rightarrow> 16 | LV2_ATOM_Long \<Rightarrow> 17 | LV2_ATOM_String \<Rightarrow> 18 | LV2_ATOM_Literal \<Rightarrow> 19
   | LV2_ATOM_Float \<Rightarrow> 20 | LV2_ATOM_Double \<Rightarrow> 21 | LV2_ATOM_URID \<Rightarrow> 22 | LV2_ATOM_Bool \<Rightarrow> 23
   | LV2_ATOM_Tuple \<Rightarrow> 24 | LV2_ATOM_Object \<Rightarrow> 25 | LV2_ATOM_Chunk \<Rightarrow> 26)"

lemma proper_host_urid [simp]: "proper_urid host_urid"
  by (simp add: proper_urid_def types_of_def host_urid_def lv2_osc_urid_init_def)

definition sample_packet :: packet where
  "sample_packet = PBundle 1 [PMessage (cstr ''/a'') [AInt 5, ABlob [1, 2, 3], ATrue],
     PBundle 2 [PMessage (cstr ''/b'') []]]"

lemma sample_packet_simps [simp]:
  "packet_ok unmap umap sample_packet" "packet_size sample_packet < 2 ^ 31" "packet_depth sample_packet = 3"
  "forge_ok sample_packet" "packet_fuel sample_packet \<le> 30"
  by (simp_all add: sample_packet_def packet_arg_ok_def forge_arg_ok_def message_size_def pad4_def c8_def slash_def)

lemma sample_packet_fits: "fits (length (packet_enc sample_packet (replicate 128 255))) (replicate 128 255)"
  by (simp add: sample_packet_def bundle_enc_def item_enc_def message_enc_def Let_def fits_def pad4_def enc_blob_def)

section \<open>Properties\<close>

text \<open>
  C19. \<open>lv2_osc_writer_packet\<close> writes a packet that comes as an atom, bundles within bundles
  included, as its OSC encoding when the buffer has room; else it fails and leaves the write
  pointer inside the buffer. No memory outside the buffer is touched. Fuel as large as the depth of the packet is enough.
\<close>

theorem writer_packet_contract:
  assumes "proper_urid u" and "finds_values oget" and "packet_ok unmap umap p" and "packet_size p < 2 ^ 31"
    and "packet_depth p \<le> n" and "wview s out rest"
  shows "\<exists>wr. lv2_osc_writer_packet n u oget unmap (atom_body (packet_atom u umap p)) = Some wr \<and>
    (let enc = packet_enc p rest; res = wr s
     in if length enc < length rest
        then fst res = Ok () \<and> wview (snd res) (out @ enc) (drop (length enc) rest) \<and> wsame s (snd res)
        else fst res = Fail \<and> (\<exists>out' rest'. wview (snd res) out' rest') \<and> wsame s (snd res))"
proof -
  obtain wr where w: "lv2_osc_writer_packet n u oget unmap (atom_body (packet_atom u umap p)) = Some wr"
    and op: "writer_op wr (packet_enc p)"
    using writer_packet_refines [OF assms(1-5)] by blast
  have "fits (length (packet_enc p rest)) rest \<longleftrightarrow> length (packet_enc p rest) < length rest"
    using packet_enc_not_Nil by (auto simp: fits_def)
  with w show ?thesis
    using writer_op.room [OF op assms(6)] writer_op.full [OF op assms(6)] by (fastforce simp: Let_def)
qed

theorem writer_packet_contract_witness:
  "\<exists>wr. lv2_osc_writer_packet 3 host_urid first_value (\<lambda>_. None)
      (atom_body (packet_atom host_urid (\<lambda>_. 0) sample_packet)) = Some wr \<and>
    (let enc = packet_enc sample_packet (replicate 128 255); res = wr (blank 128, blank_writer 128)
     in if length enc < length (replicate 128 (255 :: u8))
        then fst res = Ok () \<and> wview (snd res) ([] @ enc) (drop (length enc) (replicate 128 255)) \<and>
          wsame (blank 128, blank_writer 128) (snd res)
        else fst res = Fail \<and> (\<exists>out' rest'. wview (snd res) out' rest') \<and> wsame (blank 128, blank_writer 128) (snd res))"
  by (rule writer_packet_contract [OF proper_host_urid finds_first_value _ sample_packet_simps(2) _ wview_blank]) simp_all

text \<open>
  C1. A packet goes from its atom to bytes and back: when \<open>lv2_osc_writer_packet\<close> has written a
  packet, \<open>lv2_osc_forge_packet\<close> on the bytes makes exactly the calls of the forge library that
  build the packet's atom, in order, each container closed.
\<close>

theorem packet_roundtrip:
  assumes "proper_urid u" and "finds_values oget" and "packet_ok unmap umap p" and "packet_size p < 2 ^ 31"
    and "packet_depth p \<le> n" and "wview (m, w) out rest"
    and "lv2_osc_writer_packet n u oget unmap (atom_body (packet_atom u umap p)) = Some wr"
    and "wr (m, w) = (Ok (), (m', w'))" and "forge_ok p" and "packet_fuel p \<le> k"
  shows "lv2_osc_forge_packet k recording u umap m' (wptr w) (wptr w' - wptr w) []
    = Some (Ok (), packet_calls u umap p)"
proof -
  have op: "writer_op wr (packet_enc p)"
    using writer_packet_refines [OF assms(1-5)] assms(7) by auto
  let ?enc = "packet_enc p rest"
  have fit: "fits (length ?enc) rest"
    using writer_op.succeeds_iff [OF op assms(6)] assms(8) by simp
  from writer_op.appends [OF op assms(6,8)] have
    after: "wview (m', w') (out @ ?enc) (drop (length ?enc) rest)" "wbuf w' = wbuf w" by (auto dest: wsame_wbuf)
  note rd = wview_rview [OF assms(6) after]
  have "length ?enc < 2 ^ 31" using length_packet_enc [OF assms(3), of rest] assms(4) by simp
  from forge_packet_calls [OF rd(1) [unfolded rd(2)] packet_wire_enc [OF assms(3) fit] assms(9) this assms(10),
      of u umap "[]"]
  show ?thesis by (simp add: rd(2))
qed

theorem packet_roundtrip_witness:
  "\<exists>wr m' w'. lv2_osc_writer_packet 3 host_urid first_value (\<lambda>_. None)
      (atom_body (packet_atom host_urid (\<lambda>_. 0) sample_packet)) = Some wr \<and>
    wr (blank 128, blank_writer 128) = (Ok (), (m', w')) \<and>
    lv2_osc_forge_packet 30 recording host_urid (\<lambda>_. 0) m' (wptr (blank_writer 128))
      (wptr w' - wptr (blank_writer 128)) [] = Some (Ok (), packet_calls host_urid (\<lambda>_. 0) sample_packet)"
proof -
  note args = proper_host_urid finds_first_value sample_packet_simps(1) [of "\<lambda>_. None" "\<lambda>_. 0"] sample_packet_simps(2)
    eq_refl [OF sample_packet_simps(3)]
  obtain wr where wr: "lv2_osc_writer_packet 3 host_urid first_value (\<lambda>_. None)
      (atom_body (packet_atom host_urid (\<lambda>_. 0) sample_packet)) = Some wr" "writer_op wr (packet_enc sample_packet)"
    using writer_packet_refines [OF args] by blast
  obtain m' w' where run: "wr (blank 128, blank_writer 128) = (Ok (), (m', w'))"
    using writer_op.room [OF wr(2) wview_blank [of 128] sample_packet_fits] by auto
  have "128 < (2 :: nat) ^ 32" by simp
  from packet_roundtrip [OF args wview_blank [OF this] wr(1) run sample_packet_simps(4,5)] wr(1) run
  show ?thesis by blast
qed

text \<open>
  C20. On the bytes of any OSC packet, whoever wrote them, \<open>lv2_osc_forge_packet\<close> ends and makes
  the calls that build the packet's atom; within a bundle every packet is forged in its turn.
\<close>

theorem forge_packet_exact:
  assumes "rview m (lv2_osc_reader_initialize buf (of_nat (length bs))) bs" and "packet_wire p bs"
    and "forge_ok p" and "length bs < 2 ^ 31" and "packet_fuel p \<le> k"
  shows "lv2_osc_forge_packet k recording u map_uri m buf (of_nat (length bs)) f
    = Some (Ok (), f @ packet_calls u map_uri p)"
  by (rule forge_packet_calls [OF assms])

theorem forge_packet_exact_witness:
  "let bs = bundle_wire 1 [message_enc (cstr ''/a'') [AInt 7] []] in
   lv2_osc_forge_packet 30 recording host_urid (\<lambda>_. 0) (region 4096 bs) 4096 (of_nat (length bs)) []
     = Some (Ok (), [] @ packet_calls host_urid (\<lambda>_. 0) (PBundle 1 [PMessage (cstr ''/a'') [AInt 7]]))"
proof -
  let ?bs = "bundle_wire 1 [message_enc (cstr ''/a'') [AInt 7] []]"
  have len: "length ?bs < 2 ^ 31"
    by (simp add: bundle_wire_def item_bytes_def message_enc_def Let_def pad4_def)
  then have view: "rview (region 4096 ?bs) (lv2_osc_reader_initialize 4096 (of_nat (length ?bs))) ?bs"
    by (intro rview_region) simp
  have "message_wire (cstr ''/a'') [AInt 7] (message_enc (cstr ''/a'') [AInt 7] [])"
    by (simp add: message_wire_def message_enc_def Let_def)
  then have wire: "packet_wire (PBundle 1 [PMessage (cstr ''/a'') [AInt 7]]) ?bs" by auto
  have ok: "forge_ok (PBundle 1 [PMessage (cstr ''/a'') [AInt 7]])"
    by (simp add: forge_arg_ok_def c8_def slash_def)
  show ?thesis unfolding Let_def
    by (rule forge_packet_exact [OF view wire ok len]) simp
qed

text \<open>
  A message without arguments, which \<open>lv2_osc_message_body_get\<close> accepts, makes
  \<open>lv2_osc_writer_packet\<close> use a null pointer.
\<close>

theorem packet_without_arguments_faults:
  assumes "proper_urid u" and "finds_values oget" and "wview s out rest" and "0 \<notin> set path"
    and "length path < 2 ^ 31" and "pad4 (length path + 1) < length rest"
  shows "lv2_osc_message_get u oget (Atom (u_Object u) (Object 0 (u_Message u) [Prop (u_messagePath u) (str_atom u path)]))
      = Ok (str_atom u path, None) \<and>
    (\<exists>wr. lv2_osc_writer_packet 1 u oget unmap (Object 0 (u_Message u) [Prop (u_messagePath u) (str_atom u path)])
      = Some wr \<and> fst (wr s) = Fault)"
proof -
  have d: "u_messagePath u \<noteq> u_messageArguments u" "u_Message u \<noteq> u_Bundle u"
    using assms(1) by (auto simp: proper_urid_def)
  have g: "oget [Prop (u_messagePath u) a] (u_messagePath u) = Some a"
      "oget [Prop (u_messagePath u) a] (u_messageArguments u) = None" for a
    using assms(2) d by (simp_all add: finds_values_def)
  obtain s1 where "lv2_osc_writer_add_path path s = (Ok (), s1)"
    using path_written [OF assms(3,5,6)] by blast
  then show ?thesis
    using assms(4) d by (simp add: lv2_osc_message_get_def lv2_osc_message_body_get_def object_props_def g
        object_otype_def packet_message_def str_atom_def body_str_def call_bind_def)
qed

theorem packet_without_arguments_faults_witness:
  "lv2_osc_message_get host_urid first_value (Atom (u_Object host_urid)
      (Object 0 (u_Message host_urid) [Prop (u_messagePath host_urid) (str_atom host_urid (cstr ''/a''))]))
      = Ok (str_atom host_urid (cstr ''/a''), None) \<and>
    (\<exists>wr. lv2_osc_writer_packet 1 host_urid first_value (\<lambda>_. None)
      (Object 0 (u_Message host_urid) [Prop (u_messagePath host_urid) (str_atom host_urid (cstr ''/a''))])
      = Some wr \<and> fst (wr (blank 64, blank_writer 64)) = Fault)"
  by (rule packet_without_arguments_faults [OF proper_host_urid finds_first_value wview_blank])
    (simp_all add: c8_def pad4_def)

text \<open>
  The type string is built in 128 bytes, without a check: a message of more than 127
  arguments makes \<open>lv2_osc_writer_packet\<close> write beyond them.
\<close>

theorem packet_format_overflows:
  assumes "proper_urid u" and "finds_values oget" and "wview s out rest" and "0 \<notin> set path"
    and "length path < 2 ^ 31" and "pad4 (length path + 1) < length rest" and "127 < length as"
  shows "\<exists>wr. lv2_osc_writer_packet 1 u oget unmap (atom_body (packet_atom u umap (PMessage path as))) = Some wr \<and>
    fst (wr s) = Fault"
proof -
  have d: "u_messagePath u \<noteq> u_messageArguments u" "u_Message u \<noteq> u_Bundle u"
    using assms(1) by (auto simp: proper_urid_def)
  note g = finds_pair [OF assms(2) d(1)]
  obtain s1 where "lv2_osc_writer_add_path path s = (Ok (), s1)"
    using path_written [OF assms(3,5,6)] by blast
  then show ?thesis
    using assms(4,7) d by (simp add: lv2_osc_message_body_get_def object_props_def g tuple_atom_def tuple_items_def
        object_otype_def packet_message_def str_atom_def body_str_def call_bind_def packet_format_def
        argument_types_atoms [OF assms(1)])
qed

theorem packet_format_overflows_witness:
  "\<exists>wr. lv2_osc_writer_packet 1 host_urid first_value (\<lambda>_. None)
      (atom_body (packet_atom host_urid (\<lambda>_. 0) (PMessage (cstr ''/a'') (replicate 128 ANil)))) = Some wr \<and>
    fst (wr (blank 4096, blank_writer 4096)) = Fault"
  by (rule packet_format_overflows [OF proper_host_urid finds_first_value wview_blank])
    (simp_all add: c8_def pad4_def)

text \<open>
  C31. A message forged from variable arguments and the same message forged from its bytes are
  built by the same calls.
\<close>

theorem forge_vararg_like_bytes:
  assumes "lv2_osc_check_path path" and "lv2_osc_check_fmt (arg_fmt as) 0" and "floats_kept d2f f2d as"
    and "rview m (lv2_osc_reader_initialize buf (of_nat (length bs))) bs" and "message_wire path as bs"
    and "forge_ok (PMessage path as)" and "length bs < 2 ^ 31" and "length as + 3 \<le> k"
  shows "lv2_osc_forge_packet k recording u map_uri m buf (of_nat (length bs)) f
    = Some (lv2_osc_forge_message_vararg recording u d2f path (arg_fmt as) (forge_vas f2d map_uri as) f)"
proof -
  have "list_all forge_arg_ok as" using assms(6) by simp
  from message_vararg_calls [OF assms(1,2) this assms(3)]
  have "lv2_osc_forge_message_vararg recording u d2f path (arg_fmt as) (forge_vas f2d map_uri as) f
      = (Ok (), f @ packet_calls u map_uri (PMessage path as))" .
  with message_forges [OF assms(4-6)] assms(8) show ?thesis by simp
qed

theorem forge_vararg_like_bytes_witness:
  "let bs = message_enc (cstr ''/a'') [AInt 7, AString (cstr ''b'')] [] in
   lv2_osc_forge_packet 30 recording host_urid (\<lambda>_. 0) (region 4096 bs) 4096 (of_nat (length bs)) []
    = Some (lv2_osc_forge_message_vararg recording host_urid ucast (cstr ''/a'')
        (arg_fmt [AInt 7, AString (cstr ''b'')])
        (forge_vas ucast (\<lambda>_. 0) [AInt 7, AString (cstr ''b'')]) [])"
proof -
  let ?as = "[AInt 7, AString (cstr ''b'')]"
  let ?bs = "message_enc (cstr ''/a'') ?as []"
  have len: "length ?bs < 2 ^ 31"
    by (simp add: message_enc_def Let_def pad4_def)
  then have view: "rview (region 4096 ?bs) (lv2_osc_reader_initialize 4096 (of_nat (length ?bs))) ?bs"
    by (intro rview_region) simp
  have wire: "message_wire (cstr ''/a'') ?as ?bs"
    by (simp add: message_wire_def message_enc_def Let_def)
  have ok: "forge_ok (PMessage (cstr ''/a'') ?as)"
    by (simp add: forge_arg_ok_def c8_def slash_def)
  have "lv2_osc_check_path (cstr ''/a'')" "lv2_osc_check_fmt (arg_fmt ?as) 0"
    by code_simp+
  from forge_vararg_like_bytes [OF this _ view wire ok len] show ?thesis unfolding Let_def by simp
qed

text \<open>
  A null pointer for a string, blob or MIDI message makes \<open>lv2_osc_forge_message_varlist\<close>
  return early: the object and the tuple it has opened stay open, behind the arguments forged so far.
\<close>

theorem forge_null_leaves_open:
  assumes "lv2_osc_check_path path" and "lv2_osc_check_fmt (arg_fmt as @ c8 CHR ''s'' # fmt) 0"
    and "list_all forge_arg_ok as" and "floats_kept d2f f2d as"
  shows "\<exists>cs. lv2_osc_forge_message_varlist recording u d2f path (arg_fmt as @ c8 CHR ''s'' # fmt)
      (forge_vas f2d map_uri as @ Null # args) [] = (Fail, cs) \<and> nesting 0 cs = Some 2"
proof -
  have "type_of_char (c8 CHR ''s'') = Some OSC_STRING" by (simp add: type_of_char_def all_types_def c8_def)
  with forge_varargs_calls [OF assms(3,4), of u "c8 CHR ''s'' # fmt" map_uri "Null # args"] assms(1,2)
  have "lv2_osc_forge_message_varlist recording u d2f path (arg_fmt as @ c8 CHR ''s'' # fmt)
      (forge_vas f2d map_uri as @ Null # args) [] = (Fail,
     [FObject 0 (u_Message u), FKey (u_messagePath u), FString path, FKey (u_messageArguments u), FTuple] @
     concat (map (arg_calls u map_uri) as))"
    by (simp add: lv2_osc_forge_message_varlist_def call_bind_def lv2_osc_forge_message_head_def Let_def)
  then show ?thesis by (simp add: nesting_args)
qed

theorem forge_null_leaves_open_witness:
  "\<exists>cs. lv2_osc_forge_message_varlist recording host_urid ucast (cstr ''/a'') (arg_fmt [AInt 7] @ c8 CHR ''s'' # [])
      (forge_vas ucast (\<lambda>_. 0) [AInt 7] @ Null # []) [] = (Fail, cs) \<and> nesting 0 cs = Some 2"
proof (rule forge_null_leaves_open)
  show "lv2_osc_check_path (cstr ''/a'')" "lv2_osc_check_fmt (arg_fmt [AInt 7] @ c8 CHR ''s'' # []) 0"
    by code_simp+
qed (simp_all add: forge_arg_ok_def)

end
