(* ===== verification/Osc_Unroll.thy ===== *)
theory Osc_Unroll
  imports Osc_Bridge
begin

text \<open>
  The functions on atoms of \<open>util.h\<close>: what the getters of arguments read from a tuple, and the
  messages that \<open>lv2_osc_unroll\<close> finds in a packet.
\<close>

section \<open>Getters of arguments\<close>

text \<open>The getter for the type of an argument gives the argument and moves on to the next atom.\<close>

definition getter_reads :: "lv2_osc_urid \<Rightarrow> object_get \<Rightarrow> (u8 list \<Rightarrow> u32) \<Rightarrow> osc_arg \<Rightarrow> atom list \<Rightarrow> bool" where
  "getter_reads u oget umap a rest =
     (let as = arg_atom u umap a # rest in
      case a of
        AInt i \<Rightarrow> lv2_osc_int32_get as = Some (i, rest)
      | AFloat f \<Rightarrow> lv2_osc_float_get as = Some (f, rest)
      | AString s \<Rightarrow> lv2_osc_string_get as = Some (s @ [0], rest)
      | ABlob b \<Rightarrow> lv2_osc_blob_get as = Some ((of_nat (length b), b), rest)
      | ATrue \<Rightarrow> lv2_osc_true_get as = Some ((), rest)
      | AFalse \<Rightarrow> lv2_osc_false_get as = Some ((), rest)
      | ANil \<Rightarrow> lv2_osc_nil_get as = Some ((), rest)
      | AImpulse \<Rightarrow> lv2_osc_impulse_get as = Some ((), rest)
      | ALong h \<Rightarrow> lv2_osc_int64_get as = Some (h, rest)
      | ADouble d \<Rightarrow> lv2_osc_double_get as = Some (d, rest)
      | ATimetag t \<Rightarrow> lv2_osc_timetag_get u oget as = Some (lv2_osc_timetag_create t, rest)
      | ASymbol s \<Rightarrow> lv2_osc_symbol_get as = Some (umap s, rest)
      | AMidi m \<Rightarrow> lv2_osc_midi_get as = Some ((of_nat (length (tl m)), tl m), rest)
      | AChar c \<Rightarrow> lv2_osc_char_get as = Some (c, rest)
      | ARgba r g b x \<Rightarrow> lv2_osc_rgba_get as = Some ([r, g, b, x], rest))"

lemma tuple_get_Cons: "f a = Some v \<Longrightarrow> tuple_get f (a # as) = Some (v, as)"
  by (simp add: tuple_get_def)

lemma strtol_hex2_hex2: "strtol_hex2 (hex_char (unat b div 16)) (hex_char (unat b mod 16)) = b"
proof -
  have "(of_nat (unat b) :: u8) = of_nat (16 * (unat b div 16) + unat b mod 16)" by simp
  then have "16 * of_nat (unat b div 16) + of_nat (unat b mod 16) = b"
    by (simp only: of_nat_add of_nat_mult of_nat_numeral) simp
  then show ?thesis
    using hex_char_all [OF hex_parts(1) [of b]] hex_char_all [OF hex_parts(2) [of b]] by (simp add: strtol_hex2_def)
qed

lemmas getter_defs = lv2_osc_int32_get_def lv2_osc_float_get_def lv2_osc_string_get_def lv2_osc_blob_get_def
  lv2_osc_true_get_def lv2_osc_false_get_def lv2_osc_nil_get_def lv2_osc_impulse_get_def lv2_osc_int64_get_def
  lv2_osc_double_get_def lv2_osc_timetag_get_def lv2_osc_symbol_get_def lv2_osc_midi_get_def lv2_osc_char_get_def
  lv2_osc_rgba_get_def skip_atom_def

section \<open>The messages of a packet\<close>

primrec packet_messages :: "packet \<Rightarrow> (u8 list \<times> osc_arg list) list" where
  "packet_messages (PMessage path as) = [(path, as)]"
| "packet_messages (PBundle t ps) = concat (map packet_messages ps)"

primrec unroll_fuel :: "packet \<Rightarrow> nat" where
  "unroll_fuel (PMessage path as) = 1"
| "unroll_fuel (PBundle t ps) = Suc (sum_list (map (\<lambda>p. Suc (unroll_fuel p)) ps))"

text \<open>The method gets the path with its terminator, and the tuple of the arguments.\<close>

definition visit :: "lv2_osc_urid \<Rightarrow> (u8 list \<Rightarrow> u32) \<Rightarrow> 's lv2_osc_method \<Rightarrow> u8 list \<times> osc_arg list \<Rightarrow> 's \<Rightarrow> 's" where
  "visit u umap meth pa = (case pa of (path, as) \<Rightarrow> meth (path @ [0]) (Some (tuple_atom u (map (arg_atom u umap) as))))"

lemma unroll_items_visits:
  assumes "\<And>p k s. p \<in> set ps \<Longrightarrow> unroll_fuel p \<le> k \<Longrightarrow>
      lv2_osc_body_unroll k u oget (atom_body (packet_atom u umap p)) (Some meth) s
        = Some (Ok (), fold (visit u umap meth) (packet_messages p) s)"
    and "sum_list (map (\<lambda>p. Suc (unroll_fuel p)) ps) \<le> k"
  shows "unroll_items k u oget (map (packet_atom u umap) ps) (Some meth) s
    = Some (Ok (), fold (visit u umap meth) (concat (map packet_messages ps)) s)"
  using assms
proof (induction ps arbitrary: k s)
  case (Cons p ps)
  then obtain j where "k = Suc j" by (cases k) auto
  with Cons show ?case by simp
qed simp

lemma body_unroll_visits:
  assumes u: "proper_urid u" and o: "finds_values oget"
  shows "unroll_fuel p \<le> k \<Longrightarrow> lv2_osc_body_unroll k u oget (atom_body (packet_atom u umap p)) (Some meth) s
    = Some (Ok (), fold (visit u umap meth) (packet_messages p) s)"
proof (induction p arbitrary: k s)
  case (PMessage path as)
  then obtain j where k: "k = Suc j" by (cases k) auto
  have d: "u_messagePath u \<noteq> u_messageArguments u" "u_Message u \<noteq> u_Bundle u" using u by (auto simp: proper_urid_def)
  from d(2) finds_pair [OF o d(1)] show ?case
    by (simp add: k object_otype_def object_props_def lv2_osc_message_body_get_def str_atom_def tuple_atom_def
        raw_body_def visit_def)
next
  case (PBundle t ps)
  then obtain j where k: "k = Suc j" "sum_list (map (\<lambda>p. Suc (unroll_fuel p)) ps) \<le> j" by (cases k) auto
  have "u_bundleTimetag u \<noteq> u_bundleItems u" using u by (simp add: proper_urid_def)
  note g = finds_pair [OF o this]
  have "lv2_osc_bundle_body_get u oget (atom_body (packet_atom u umap (PBundle t ps))) =
      Ok (timetag_atom u t, tuple_atom u (map (packet_atom u umap) ps))"
    using g by (simp add: lv2_osc_bundle_body_get_def object_props_def timetag_atom_def tuple_atom_def object_otype_def)
  with unroll_items_visits [OF PBundle.IH k(2)] u o show ?case
    by (simp add: k(1) object_otype_def tuple_items_def tuple_atom_def)
qed

section \<open>Properties\<close>

text \<open>
  The getter of an argument's type reads the argument from the atom that stands for it,
  whatever its type, and moves on by that one atom.
\<close>

theorem getters_read_arguments:
  assumes "proper_urid u" and "finds_values oget"
  shows "getter_reads u oget umap a rest"
  using timetag_of_atom [OF assms]
  by (cases a) (simp_all add: getter_reads_def Let_def getter_defs tuple_get_Cons str_atom_def raw_body_def atom_size_def
      char_of_literal_def hex2_def strtol_hex2_hex2)

theorem getters_read_arguments_witness:
  "getter_reads host_urid first_value (\<lambda>_. 0) (ARgba 1 2 254 255) [arg_atom host_urid (\<lambda>_. 0) ANil]"
  by (rule getters_read_arguments [OF proper_host_urid finds_first_value])

text \<open>
  C32. \<open>lv2_osc_unroll\<close> ends on every packet and calls the method once on each of its messages,
  those of inner bundles included, in the order of the packet.
\<close>

theorem unroll_visits_messages:
  assumes "proper_urid u" and "finds_values oget" and "unroll_fuel p \<le> k"
  shows "lv2_osc_unroll k u oget (packet_atom u umap p) (Some meth) s
    = Some (Ok (), fold (visit u umap meth) (packet_messages p) s)"
  unfolding lv2_osc_unroll_def by (rule body_unroll_visits [OF assms])

theorem unroll_visits_messages_witness:
  "lv2_osc_unroll 10 host_urid first_value (packet_atom host_urid (\<lambda>_. 0) sample_packet)
      (Some (\<lambda>path args s. s @ [path])) []
    = Some (Ok (), fold (visit host_urid (\<lambda>_. 0) (\<lambda>path args s. s @ [path])) (packet_messages sample_packet) [])"
  by (rule unroll_visits_messages [OF proper_host_urid finds_first_value]) (simp add: sample_packet_def)

end
