(* ===== verification/Props_Table.thy ===== *)
theory Props_Table
  imports CMem "HOL-Library.Multiset"
begin

text \<open>
  The table of properties of \<open>props.lv2/props.h\<close>: its entries, the in-place quicksort
  \<open>_props_qsort\<close> that orders it by property, and the binary search \<open>_props_impl_get\<close>. Arrays
  are lists; an access outside one is \<open>None\<close>. The pivot of the quicksort is a pointer to the
  first element, so its value changes when that element is exchanged.
\<close>

section \<open>Entries\<close>

datatype props_state = PROP_STATE_NONE | PROP_STATE_LOCK | PROP_STATE_RESTORE

record props_def =
  d_property :: "u8 list option"
  d_type :: "u8 list option"
  d_access :: "u8 list option"
  d_offset :: u64
  d_hidden :: bool
  d_max_size :: u32
  d_event_cb :: bool

record props_impl =
  p_property :: u32
  p_type :: u32
  p_access :: u32
  value_size :: u32
  value_body :: addr
  stash_size :: u32
  stash_body :: addr
  p_def :: props_def
  p_state :: props_state
  p_stashing :: bool

section \<open>Sorting\<close>

text \<open>The two inner loops: \<open>i\<close> and \<open>j\<close> are the next positions looked at.\<close>

function scan_up :: "props_impl list \<Rightarrow> nat \<Rightarrow> nat option" where
  "scan_up A i =
     (if i < length A then (if p_property (A ! i) < p_property (A ! 0) then scan_up A (i + 1) else Some i)
      else None)"
  by pat_completeness auto
termination by (relation "measure (\<lambda>(A, i). length A - i)") auto

fun scan_down :: "props_impl list \<Rightarrow> nat \<Rightarrow> nat option" where
  "scan_down A j =
     (if j < length A then
        (if p_property (A ! j) > p_property (A ! 0)
         then (case j of 0 \<Rightarrow> None | Suc k \<Rightarrow> scan_down A k) else Some j)
      else None)"

declare scan_up.simps [simp del] scan_down.simps [simp del]

lemma scan_down_le: "scan_down A j = Some k \<Longrightarrow> k \<le> j"
proof (induction A j rule: scan_down.induct)
  case (1 A j)
  then show ?case by (subst (asm) scan_down.simps) (fastforce split: if_splits nat.splits)
qed

function part_loop :: "props_impl list \<Rightarrow> nat \<Rightarrow> nat \<Rightarrow> (props_impl list \<times> nat) option" where
  "part_loop A i j =
     (case scan_up A i of
        None \<Rightarrow> None
      | Some i1 \<Rightarrow>
          (case scan_down A j of
             None \<Rightarrow> None
           | Some j1 \<Rightarrow> if i1 \<ge> j1 then Some (A, j1)
               else part_loop (A[i1 := A ! j1, j1 := A ! i1]) (i1 + 1) (j1 - 1)))"
  by pat_completeness auto
termination
  by (relation "measure (\<lambda>(A, i, j). j)") (auto dest: scan_down_le)

declare part_loop.simps [simp del]

lemma scan_up_Some:
  "scan_up A i = Some i1 \<Longrightarrow> i \<le> i1 \<and> i1 < length A \<and> p_property (A ! 0) \<le> p_property (A ! i1) \<and>
   (\<forall>x. i \<le> x \<longrightarrow> x < i1 \<longrightarrow> p_property (A ! x) < p_property (A ! 0))"
proof (induction A i rule: scan_up.induct)
  case (1 A i)
  show ?case
  proof (cases "i < length A \<and> p_property (A ! i) < p_property (A ! 0)")
    case True
    then have "scan_up A (i + 1) = Some i1" using 1(2) by (subst (asm) scan_up.simps) simp
    from 1(1) [OF _ _ this] True show ?thesis
      by (metis One_nat_def Suc_leD Suc_leI add.right_neutral add_Suc_right le_neq_implies_less)
  next
    case False
    then show ?thesis using 1(2) by (subst (asm) scan_up.simps) (auto split: if_splits)
  qed
qed

lemma scan_down_Some:
  "scan_down A j = Some j1 \<Longrightarrow> j1 \<le> j \<and> j < length A \<and> p_property (A ! j1) \<le> p_property (A ! 0) \<and>
   (\<forall>x. j1 < x \<longrightarrow> x \<le> j \<longrightarrow> p_property (A ! 0) < p_property (A ! x))"
proof (induction A j rule: scan_down.induct)
  case (1 A j)
  show ?case
  proof (cases "j < length A \<and> p_property (A ! j) > p_property (A ! 0)")
    case True
    then obtain k where k: "j = Suc k" "scan_down A k = Some j1"
      using 1(2) by (subst (asm) scan_down.simps) (auto split: nat.splits)
    from 1(1) [OF _ _ k] True k(1) show ?thesis
      by (auto simp: le_Suc_eq)
  next
    case False
    then show ?thesis using 1(2) by (subst (asm) scan_down.simps) (auto split: if_splits)
  qed
qed

text \<open>A scan that has something to stop at stays inside the array.\<close>

lemma scan_up_stops:
  "i \<le> x \<Longrightarrow> x < length A \<Longrightarrow> p_property (A ! 0) \<le> p_property (A ! x) \<Longrightarrow> \<exists>i1 \<le> x. scan_up A i = Some i1"
proof (induction A i rule: scan_up.induct)
  case (1 A i)
  show ?case
  proof (cases "p_property (A ! i) < p_property (A ! 0)")
    case True
    then have "i \<noteq> x" using 1(4) by auto
    with 1 True show ?thesis by (subst scan_up.simps) auto
  next
    case False
    with 1 show ?thesis by (subst scan_up.simps) auto
  qed
qed

lemma scan_down_stops: "j < length A \<Longrightarrow> \<exists>j1. scan_down A j = Some j1"
proof (induction j)
  case 0
  then show ?case by (subst scan_down.simps) simp
next
  case (Suc j)
  then show ?case by (subst scan_down.simps) auto
qed

text \<open>After a partition every entry up to \<open>m\<close> is at most the pivot, and every later one at least.\<close>

definition split_at :: "props_impl list \<Rightarrow> nat \<Rightarrow> bool" where
  "split_at B m \<longleftrightarrow> (\<exists>q. (\<forall>x \<le> m. p_property (B ! x) \<le> q) \<and>
     (\<forall>y. m < y \<longrightarrow> y < length B \<longrightarrow> q \<le> p_property (B ! y)))"

lemma mset_exchange: "i < length A \<Longrightarrow> j < length A \<Longrightarrow> mset (A[i := A ! j, j := A ! i]) = mset A"
  using mset_swap [of j A i] by simp

lemma part_loop_splits:
  "1 \<le> i \<Longrightarrow> i \<le> j + 1 \<Longrightarrow> j + 1 < length A \<Longrightarrow>
   \<forall>x < i. p_property (A ! x) \<le> p_property (A ! 0) \<Longrightarrow>
   \<forall>y. j < y \<longrightarrow> y < length A \<longrightarrow> p_property (A ! 0) \<le> p_property (A ! y) \<Longrightarrow>
   \<exists>B m. part_loop A i j = Some (B, m) \<and> mset B = mset A \<and> m \<le> j \<and> split_at B m"
proof (induction A i j rule: part_loop.induct)
  case (1 A i j)
  obtain i1 where up: "scan_up A i = Some i1"
    using scan_up_stops [of i "j + 1" A] 1 by auto
  obtain j1 where down: "scan_down A j = Some j1" using scan_down_stops [of j A] 1 by auto
  note u = scan_up_Some [OF up] and d = scan_down_Some [OF down]
  have low: "p_property (A ! x) \<le> p_property (A ! 0)" if "x < i1" for x
    using that 1(5) u by (cases "x < i") (auto intro: less_imp_le)
  have high: "p_property (A ! 0) \<le> p_property (A ! y)" if "j1 < y" "y < length A" for y
    using that 1(6) d by (cases "y \<le> j") (auto intro: less_imp_le)
  show ?case
  proof (cases "i1 \<ge> j1")
    case True
    then have "part_loop A i j = Some (A, j1)" using up down by (simp add: part_loop.simps [of A i j])
    moreover have "p_property (A ! x) \<le> p_property (A ! 0)" if "x \<le> j1" for x
    proof (cases "x < i1")
      case False
      then have "x = j1" using that True by simp
      then show ?thesis using d by simp
    qed (rule low)
    ultimately show ?thesis using d high by (auto simp: split_at_def)
  next
    case False
    let ?A = "A[i1 := A ! j1, j1 := A ! i1]"
    have step: "part_loop A i j = part_loop ?A (i1 + 1) (j1 - 1)"
      using up down False by (simp add: part_loop.simps [of A i j])
    have b: "i1 < length A" "j1 < length A" "1 \<le> i1" using u d 1(2,4) by auto
    have zero: "?A ! 0 = A ! 0" using b False by auto
    have "\<exists>B m. part_loop ?A (i1 + 1) (j1 - 1) = Some (B, m) \<and> mset B = mset ?A \<and> m \<le> j1 - 1 \<and> split_at B m"
    proof (rule "1.IH" [OF up down False])
      show "1 \<le> i1 + 1" "i1 + 1 \<le> j1 - 1 + 1" "j1 - 1 + 1 < length ?A" using b False by auto
      show "\<forall>x < i1 + 1. p_property (?A ! x) \<le> p_property (?A ! 0)"
        using b False low d by (auto simp: zero less_Suc_eq nth_list_update)
      show "\<forall>y. j1 - 1 < y \<longrightarrow> y < length ?A \<longrightarrow> p_property (?A ! 0) \<le> p_property (?A ! y)"
        using b False high u by (auto simp: zero nth_list_update)
    qed
    then show ?thesis using d mset_exchange [OF b(1,2)] unfolding step by fastforce
  qed
qed

lemma partition_splits:
  assumes "2 \<le> length A"
  shows "\<exists>B m. part_loop A 0 (length A - 1) = Some (B, m) \<and> mset B = mset A \<and> m + 1 < length A \<and> split_at B m"
proof -
  have up: "scan_up A 0 = Some 0" using assms by (subst scan_up.simps) auto
  have "length A - 1 < length A" using assms by simp
  then obtain j1 where down: "scan_down A (length A - 1) = Some j1"
    using scan_down_stops by blast
  note d = scan_down_Some [OF down]
  have high: "p_property (A ! 0) < p_property (A ! y)" if "j1 < y" "y < length A" for y
    using that d by auto
  show ?thesis
  proof (cases "j1 = 0")
    case True
    then have "part_loop A 0 (length A - 1) = Some (A, 0)" using up down by (subst part_loop.simps) simp
    then show ?thesis using assms high True by (auto simp: split_at_def intro: less_imp_le)
  next
    case False
    let ?A = "A[0 := A ! j1, j1 := A ! 0]"
    have step: "part_loop A 0 (length A - 1) = part_loop ?A 1 (j1 - 1)"
      using up down False by (subst part_loop.simps) simp
    have b: "j1 < length A" "0 < length A" using d assms by auto
    have zero: "?A ! 0 = A ! j1" using b False by auto
    have "\<exists>B m. part_loop ?A 1 (j1 - 1) = Some (B, m) \<and> mset B = mset ?A \<and> m \<le> j1 - 1 \<and> split_at B m"
    proof (rule part_loop_splits)
      show "\<forall>y. j1 - 1 < y \<longrightarrow> y < length ?A \<longrightarrow> p_property (?A ! 0) \<le> p_property (?A ! y)"
      proof (intro allI impI)
        fix y assume y: "j1 - 1 < y" "y < length ?A"
        show "p_property (?A ! 0) \<le> p_property (?A ! y)"
        proof (cases "y = j1")
          case True
          then have "?A ! y = A ! 0" using b by simp
          then show ?thesis using d unfolding zero by simp
        next
          case False
          then have "p_property (A ! 0) < p_property (A ! y)" "y \<noteq> 0" using high y by auto
          moreover from this have "p_property (A ! j1) \<le> p_property (A ! y)"
            using d by (meson le_less_trans less_imp_le)
          ultimately show ?thesis using False unfolding zero by simp
        qed
      qed
    qed (use b False in auto)
    then show ?thesis using b False mset_exchange [OF b(2,1)] unfolding step by fastforce
  qed
qed

lemma part_loop_length: "part_loop A i j = Some (B, m) \<Longrightarrow> length B = length A"
proof (induction A i j rule: part_loop.induct)
  case (1 A i j)
  then show ?case by (subst (asm) (2) part_loop.simps) (auto split: option.splits if_splits)
qed

function props_qsort :: "props_impl list \<Rightarrow> props_impl list option" where
  "props_qsort A =
     (if length A < 2 then Some A
      else case part_loop A 0 (length A - 1) of
          None \<Rightarrow> None
        | Some (B, j) \<Rightarrow>
            (case props_qsort (take (j + 1) B) of
               None \<Rightarrow> None
             | Some L \<Rightarrow> map_option ((@) L) (props_qsort (drop (j + 1) B))))"
  by pat_completeness auto
termination
proof (relation "measure length", goal_cases)
  case 1
  show ?case by simp
next
  case (2 A x B j)
  then show ?case using partition_splits [of A] part_loop_length [of A 0 "length A - 1" B j] by auto
next
  case (3 A x B j L)
  then show ?case using partition_splits [of A] part_loop_length [of A 0 "length A - 1" B j] by auto
qed

declare props_qsort.simps [simp del]

definition by_property :: "props_impl list \<Rightarrow> bool" where
  "by_property A \<longleftrightarrow> sorted (map p_property A)"

lemma split_at_sets:
  assumes "split_at B m" and "m + 1 \<le> length B"
  shows "\<forall>a \<in> set (take (m + 1) B). \<forall>b \<in> set (drop (m + 1) B). p_property a \<le> p_property b"
proof (intro ballI)
  fix a b assume "a \<in> set (take (m + 1) B)" "b \<in> set (drop (m + 1) B)"
  then obtain x y where "a = B ! x" "x \<le> m" "b = B ! y" "m < y" "y < length B"
    using assms(2) by (auto simp: in_set_conv_nth)
  then show "p_property a \<le> p_property b"
    using assms(1) unfolding split_at_def by (meson order_trans)
qed

lemma props_qsort_sorts: "\<exists>B. props_qsort A = Some B \<and> mset B = mset A \<and> by_property B"
proof (induction A rule: props_qsort.induct)
  case (1 A)
  show ?case
  proof (cases "length A < 2")
    case True
    then show ?thesis by (subst props_qsort.simps) (cases A; cases "tl A"; simp add: by_property_def)
  next
    case False
    then obtain B m where p: "part_loop A 0 (length A - 1) = Some (B, m)" "mset B = mset A"
      "m + 1 < length A" "split_at B m" using partition_splits [of A] by auto
    have len: "length B = length A" using part_loop_length [OF p(1)] .
    from "1.IH"(1) [OF False p(1) refl] obtain L where
      L: "props_qsort (take (m + 1) B) = Some L" "mset L = mset (take (m + 1) B)" "by_property L" by blast
    from "1.IH"(2) [OF False p(1) refl L(1)] obtain R where
      R: "props_qsort (drop (m + 1) B) = Some R" "mset R = mset (drop (m + 1) B)" "by_property R" by blast
    have "mset (L @ R) = mset (take (m + 1) B @ drop (m + 1) B)" by (simp only: mset_append L(2) R(2))
    then have "mset (L @ R) = mset B" by simp
    moreover have "by_property (L @ R)"
      using L(2,3) R(2,3) split_at_sets [OF p(4)] p(3) len
      by (auto simp: by_property_def sorted_append dest!: mset_eq_setD)
    ultimately show ?thesis using p False L R by (subst props_qsort.simps) auto
  qed
qed

section \<open>Searching\<close>

function impl_get_loop :: "props_impl list \<Rightarrow> u32 \<Rightarrow> nat \<Rightarrow> nat \<Rightarrow> nat option" where
  "impl_get_loop A property base N =
     (if N > 1 then
        (let half = N div 2; dst = base + half in
         if dst < length A
         then impl_get_loop A property (if p_property (A ! dst) > property then base else dst) (N - half)
         else None)
      else Some base)"
  by pat_completeness auto
termination by (relation "measure (\<lambda>(_, _, _, N). N)") auto

declare impl_get_loop.simps [simp del]

text \<open>
  The array has room for one entry even when the table is empty; that entry is then not
  initialised, and reading it is an access outside the list.
\<close>

definition props_impl_get :: "props_impl list \<Rightarrow> u32 \<Rightarrow> nat option result" where
  "props_impl_get A property =
     (case impl_get_loop A property 0 (length A) of
        None \<Rightarrow> Fault
      | Some base \<Rightarrow> if base < length A
          then Ok (if p_property (A ! base) = property then Some base else None) else Fault)"

lemma by_property_nth: "by_property A \<Longrightarrow> x \<le> y \<Longrightarrow> y < length A \<Longrightarrow> p_property (A ! x) \<le> p_property (A ! y)"
  using sorted_nth_mono [of "map p_property A" x y] by (simp add: by_property_def)

lemma impl_get_loop_finds:
  assumes "by_property A"
  shows "base + N \<le> length A \<Longrightarrow> 0 < N \<Longrightarrow> \<exists>b. impl_get_loop A property base N = Some b \<and>
    base \<le> b \<and> b < base + N \<and>
    ((\<exists>x. base \<le> x \<and> x < base + N \<and> p_property (A ! x) = property) \<longrightarrow> p_property (A ! b) = property)"
  using assms
proof (induction A property base N rule: impl_get_loop.induct)
  case (1 A property base N)
  show ?case
  proof (cases "N > 1")
    case False
    then have "N = 1" using 1(3) by simp
    moreover from this have "impl_get_loop A property base N = Some base" by (subst impl_get_loop.simps) simp
    ultimately show ?thesis by (intro exI [of _ base]) (auto simp: le_less_Suc_eq)
  next
    case True
    define half where "half = N div 2"
    define dst where "dst = base + half"
    define nb where "nb = (if p_property (A ! dst) > property then base else dst)"
    have h: "0 < half" "half < N" "half \<le> N - half" "dst < length A"
      using True 1(2) by (auto simp: half_def dst_def)
    have step: "impl_get_loop A property base N = impl_get_loop A property nb (N - half)"
      using True h(4) unfolding impl_get_loop.simps [of A property base N] Let_def
        half_def [symmetric] dst_def [symmetric] nb_def by simp
    have nb: "base \<le> nb" "nb + (N - half) \<le> base + N" using h by (auto simp: nb_def dst_def)
    have "\<exists>b. impl_get_loop A property nb (N - half) = Some b \<and> nb \<le> b \<and> b < nb + (N - half) \<and>
      ((\<exists>x. nb \<le> x \<and> x < nb + (N - half) \<and> p_property (A ! x) = property) \<longrightarrow> p_property (A ! b) = property)"
      unfolding nb_def
      by (rule "1.IH" [OF True half_def dst_def h(4)]) (use 1 nb h in \<open>auto simp: nb_def\<close>)
    then obtain b where b: "impl_get_loop A property nb (N - half) = Some b" "nb \<le> b" "b < nb + (N - half)"
      "(\<exists>x. nb \<le> x \<and> x < nb + (N - half) \<and> p_property (A ! x) = property) \<longrightarrow> p_property (A ! b) = property"
      by blast
    have "\<exists>y. nb \<le> y \<and> y < nb + (N - half) \<and> p_property (A ! y) = property"
      if x: "base \<le> x" "x < base + N" "p_property (A ! x) = property" for x
    proof (cases "p_property (A ! dst) > property")
      case True
      then have "\<not> dst \<le> x" using by_property_nth [OF 1(4), of dst x] x 1(2) by auto
      with True x h show ?thesis by (intro exI [of _ x]) (auto simp: nb_def dst_def)
    next
      case False
      show ?thesis
      proof (cases "dst \<le> x")
        case True
        with False x h show ?thesis by (intro exI [of _ x]) (auto simp: nb_def dst_def)
      next
        case lt: False
        then have "p_property (A ! dst) = property"
          using by_property_nth [OF 1(4), of x dst] x h(4) False by auto
        with False h show ?thesis by (intro exI [of _ dst]) (auto simp: nb_def)
      qed
    qed
    with b nb step show ?thesis by (intro exI [of _ b]) auto
  qed
qed

lemma props_impl_get_finds:
  assumes "by_property A" and "A \<noteq> []"
  shows "case props_impl_get A property of
      Ok (Some b) \<Rightarrow> b < length A \<and> p_property (A ! b) = property
    | Ok None \<Rightarrow> property \<notin> p_property ` set A
    | _ \<Rightarrow> False"
proof -
  from impl_get_loop_finds [OF assms(1), of 0 "length A" property] assms(2) obtain b where
    b: "impl_get_loop A property 0 (length A) = Some b" "b < length A"
      "(\<exists>x. x < length A \<and> p_property (A ! x) = property) \<longrightarrow> p_property (A ! b) = property" by auto
  then show ?thesis by (auto simp: props_impl_get_def in_set_conv_nth)
qed

section \<open>Properties\<close>

text \<open>
  \<open>_props_qsort\<close> sorts: for every table it ends, never leaves the array, and the result has
  the same entries ordered by property, although the value of its pivot changes under way.
\<close>

theorem props_qsort_correct:
  "\<exists>B. props_qsort A = Some B \<and> mset B = mset A \<and> sorted (map p_property B)"
  using props_qsort_sorts [of A] by (simp add: by_property_def)

text \<open>
  \<open>_props_impl_get\<close> on a sorted table finds an entry with the property asked for exactly
  when there is one, and returns null otherwise.
\<close>

theorem props_impl_get_correct:
  assumes "sorted (map p_property A)" and "A \<noteq> []"
  shows "case props_impl_get A property of
      Ok (Some b) \<Rightarrow> b < length A \<and> p_property (A ! b) = property
    | Ok None \<Rightarrow> property \<notin> p_property ` set A
    | _ \<Rightarrow> False"
  using props_impl_get_finds [of A] assms by (simp add: by_property_def)

definition sample_def :: props_def where
  "sample_def = \<lparr>d_property = Some [65], d_type = Some [66], d_access = None, d_offset = 0,
     d_hidden = False, d_max_size = 8, d_event_cb = True\<rparr>"

definition sample_impl :: "u32 \<Rightarrow> props_impl" where
  "sample_impl k = \<lparr>p_property = k, p_type = 1, p_access = 2, value_size = 4, value_body = 4096,
     stash_size = 4, stash_body = 8192, p_def = sample_def, p_state = PROP_STATE_NONE, p_stashing = False\<rparr>"

theorem props_impl_get_correct_witness:
  "case props_impl_get (map sample_impl [3, 5, 9]) 5 of
      Ok (Some b) \<Rightarrow> b < length (map sample_impl [3, 5, 9]) \<and> p_property (map sample_impl [3, 5, 9] ! b) = 5
    | Ok None \<Rightarrow> 5 \<notin> p_property ` set (map sample_impl [3, 5, 9])
    | _ \<Rightarrow> False"
  by (rule props_impl_get_correct) (simp_all add: sample_impl_def)

end
