(* ===== verification/Props.thy ===== *)
theory Props
  imports Props_Table Atom
begin

text \<open>
  \<open>props.lv2/props.h\<close>: the properties of a plugin. Values and stashed copies live in memory the
  plugin provides; patch messages are answered through a forge; callbacks are recorded. The
  state of a call is the whole of that, \<open>None\<close> is an access to memory the program does not
  have. The real-time side takes an entry's lock with one attempt, the other side spins.
\<close>

section \<open>State\<close>

datatype lv2_uri =
    PATCH_Get | PATCH_Set | PATCH_Put | PATCH_Patch | PATCH_wildcard | PATCH_add | PATCH_remove
  | PATCH_subject | PATCH_body | PATCH_property | PATCH_value | PATCH_writable | PATCH_readable
  | PATCH_sequenceNumber | PATCH_Ack | PATCH_Error
  | ATOM_Int | ATOM_Long | ATOM_Float | ATOM_Double | ATOM_Bool | ATOM_URID | ATOM_Path | ATOM_Literal
  | ATOM_Vector | ATOM_Object | ATOM_Sequence | STATE_StateChanged
  | Custom "u8 list"

record props_urid =
  subject :: u32
  patch_get :: u32
  patch_set :: u32
  patch_put :: u32
  patch_patch :: u32
  patch_wildcard :: u32
  patch_add :: u32
  patch_remove :: u32
  patch_subject :: u32
  patch_body :: u32
  patch_property :: u32
  patch_value :: u32
  patch_writable :: u32
  patch_readable :: u32
  patch_sequence :: u32
  patch_error :: u32
  patch_ack :: u32
  atom_int :: u32
  atom_long :: u32
  atom_float :: u32
  atom_double :: u32
  atom_bool :: u32
  atom_urid :: u32
  atom_path :: u32
  atom_literal :: u32
  atom_vector :: u32
  atom_object :: u32
  atom_sequence :: u32
  state_StateChanged :: u32

record props =
  urid :: props_urid
  stashing :: bool
  restoring :: bool
  max_size :: u32
  dyn :: bool
  impls :: "props_impl list"

datatype dyn_ev = PROPS_DYN_EV_ADD | PROPS_DYN_EV_REM | PROPS_DYN_EV_SET

datatype pcall = PEvent u32 u32 | PDyn dyn_ev u32 u32 atom

record 'f world =
  pp :: props
  pmem :: mem
  pforge :: 'f
  pref :: bool
  plog :: "pcall list"

section \<open>Locking\<close>

text \<open>
  \<open>atomic_compare_exchange_strong\<close>: on failure it writes the value it found into \<open>expected\<close>.
  The loop of \<open>_props_impl_spin_lock\<close> does not set \<open>expected\<close> back. \<open>env\<close> are the values the
  state has at the attempts, as the other thread leaves it; \<open>None\<close> is spinning on.
\<close>

definition cas :: "props_state \<Rightarrow> props_state \<Rightarrow> props_state \<Rightarrow> bool \<times> props_state \<times> props_state" where
  "cas s expected desired = (if s = expected then (True, desired, expected) else (False, s, s))"

fun spin_loop :: "props_state list \<Rightarrow> props_state \<Rightarrow> props_state \<Rightarrow> props_state option" where
  "spin_loop [] expected desired = None"
| "spin_loop (s # env) expected desired =
     (case cas s expected desired of
        (True, s', _) \<Rightarrow> Some s'
      | (False, _, expected') \<Rightarrow> spin_loop env expected' desired)"

definition props_impl_spin_lock :: "props_state list \<Rightarrow> props_state \<Rightarrow> props_state \<Rightarrow> props_state option" where
  "props_impl_spin_lock env from to = spin_loop env from to"

definition props_impl_try_lock :: "props_impl \<Rightarrow> props_state \<Rightarrow> props_state \<Rightarrow> bool \<times> props_impl" where
  "props_impl_try_lock impl from to =
     (case cas (p_state impl) from to of (ok, s, _) \<Rightarrow> (ok, impl\<lparr>p_state := s\<rparr>))"

definition props_impl_unlock :: "props_impl \<Rightarrow> props_state \<Rightarrow> props_impl" where
  "props_impl_unlock impl to = impl\<lparr>p_state := to\<rparr>"

definition props_restoring_get :: "props \<Rightarrow> bool \<times> props" where
  "props_restoring_get p = (restoring p, p\<lparr>restoring := False\<rparr>)"

definition props_restoring_set :: "props \<Rightarrow> props" where
  "props_restoring_set p = p\<lparr>restoring := True\<rparr>"

section \<open>Patch messages\<close>

definition optional_steps :: "props_urid \<Rightarrow> u32 \<Rightarrow> fstep list" where
  "optional_steps u seq =
     (if subject u \<noteq> 0 then [Keep (FKey (patch_subject u)), Keep (FUrid (subject u))] else []) @
     (if seq \<noteq> 0 then [Keep (FKey (patch_sequence u)), Keep (FInt seq)] else [])"

definition patch_set_head :: "props_urid \<Rightarrow> u32 \<Rightarrow> props_impl \<Rightarrow> u32 \<Rightarrow> fstep list" where
  "patch_set_head u frames impl seq =
     [Keep (FFrameTime (ucast frames)), Keep (FObject 0 (patch_set u))] @ optional_steps u seq @
     [Keep (FKey (patch_property u)), Keep (FUrid (p_property impl)), Loose (FKey (patch_value u)),
      Keep (FAtom (value_size impl) (p_type impl))]"

definition patch_set_rest :: "props_urid \<Rightarrow> u32 \<Rightarrow> u8 list \<Rightarrow> fstep list" where
  "patch_set_rest u frames bs =
     [Keep (FWrite bs), Loose FPop, Keep (FFrameTime (ucast frames)), Keep (FObject 0 (state_StateChanged u)), Loose FPop]"

definition props_patch_set :: "'f forge \<Rightarrow> u32 \<Rightarrow> props_impl \<Rightarrow> u32 \<Rightarrow> 'f world \<Rightarrow> 'f world option" where
  "props_patch_set fd frames impl seq w =
     (let u = urid (pp w) in
      case forge_run fd (patch_set_head u frames impl seq) (pforge w) of
        (False, f) \<Rightarrow> Some (w\<lparr>pforge := f, pref := False\<rparr>)
      | (True, f) \<Rightarrow>
          (case ld (pmem w) (value_body impl) (unat (value_size impl)) of
             None \<Rightarrow> None
           | Some bs \<Rightarrow> (case forge_run fd (patch_set_rest u frames bs) f of
               (ok, f') \<Rightarrow> Some (w\<lparr>pforge := f', pref := ok\<rparr>))))"

definition forge_reply :: "'f forge \<Rightarrow> fstep list \<Rightarrow> 'f world \<Rightarrow> 'f world" where
  "forge_reply fd steps w = (case forge_run fd steps (pforge w) of (ok, f) \<Rightarrow> w\<lparr>pforge := f, pref := ok\<rparr>)"

definition props_patch_get :: "'f forge \<Rightarrow> u32 \<Rightarrow> props_impl \<Rightarrow> u32 \<Rightarrow> 'f world \<Rightarrow> 'f world" where
  "props_patch_get fd frames impl seq w =
     (let u = urid (pp w) in
      forge_reply fd ([Keep (FFrameTime (ucast frames)), Keep (FObject 0 (patch_get u))] @ optional_steps u seq @
        [Keep (FKey (patch_property u)), Keep (FUrid (p_property impl)), Loose FPop]) w)"

definition props_patch_error :: "'f forge \<Rightarrow> u32 \<Rightarrow> u32 \<Rightarrow> 'f world \<Rightarrow> 'f world" where
  "props_patch_error fd frames seq w =
     (let u = urid (pp w) in
      forge_reply fd [Keep (FFrameTime (ucast frames)), Keep (FObject 0 (patch_error u)),
        Keep (FKey (patch_sequence u)), Keep (FInt seq), Loose FPop] w)"

definition props_patch_ack :: "'f forge \<Rightarrow> u32 \<Rightarrow> u32 \<Rightarrow> 'f world \<Rightarrow> 'f world" where
  "props_patch_ack fd frames seq w =
     (let u = urid (pp w) in
      forge_reply fd [Keep (FFrameTime (ucast frames)), Keep (FObject 0 (patch_ack u)),
        Keep (FKey (patch_sequence u)), Keep (FInt seq), Loose FPop] w)"

section \<open>Entries\<close>

definition put_impl :: "nat \<Rightarrow> props_impl \<Rightarrow> 'f world \<Rightarrow> 'f world" where
  "put_impl i impl w = w\<lparr>pp := (pp w)\<lparr>impls := (impls (pp w))[i := impl]\<rparr>\<rparr>"

definition c_memcpy :: "mem \<Rightarrow> addr \<Rightarrow> addr \<Rightarrow> u32 \<Rightarrow> mem option" where
  "c_memcpy m dst src n = (case ld m src (unat n) of None \<Rightarrow> None | Some bs \<Rightarrow> st m dst bs)"

definition props_impl_stash :: "nat \<Rightarrow> 'f world \<Rightarrow> 'f world option" where
  "props_impl_stash i w =
     (case props_impl_try_lock (impls (pp w) ! i) PROP_STATE_NONE PROP_STATE_LOCK of
        (True, impl) \<Rightarrow>
          (case c_memcpy (pmem w) (stash_body impl) (value_body impl) (value_size impl) of
             None \<Rightarrow> None
           | Some m \<Rightarrow> Some (put_impl i (props_impl_unlock (impl\<lparr>p_stashing := False, stash_size := value_size impl\<rparr>)
               PROP_STATE_NONE) (w\<lparr>pmem := m\<rparr>)))
      | (False, impl) \<Rightarrow>
          Some ((put_impl i (impl\<lparr>p_stashing := True\<rparr>) w)\<lparr>pp := (pp (put_impl i (impl\<lparr>p_stashing := True\<rparr>) w))\<lparr>stashing := True\<rparr>\<rparr>))"

text \<open>
  The plugin's callback gets the frames and the entry. It may use the forge and the properties
  again; a plugin's own state lies beside that of the forge. \<open>log_event\<close> is a callback that only
  keeps a record of its calls.
\<close>

type_synonym 'f callback = "u32 \<Rightarrow> props_impl \<Rightarrow> 'f world \<Rightarrow> 'f world option"

definition event_cb :: "'f callback \<Rightarrow> u32 \<Rightarrow> props_impl \<Rightarrow> 'f world \<Rightarrow> 'f world option" where
  "event_cb cb frames impl w = (if d_event_cb (p_def impl) then cb frames impl w else Some w)"

definition log_event :: "'f callback" where
  "log_event frames impl w = Some (w\<lparr>plog := plog w @ [PEvent frames (p_property impl)]\<rparr>)"

definition send_on :: "'f forge \<Rightarrow> u32 \<Rightarrow> nat \<Rightarrow> u32 \<Rightarrow> 'f world \<Rightarrow> 'f world option" where
  "send_on fd frames i seq w =
     (let impl = impls (pp w) ! i in
      if pref w \<and> \<not> d_hidden (p_def impl) then props_patch_set fd frames impl seq w else Some w)"

definition props_impl_restore :: "'f forge \<Rightarrow> 'f callback \<Rightarrow> u32 \<Rightarrow> nat \<Rightarrow> 'f world \<Rightarrow> 'f world option" where
  "props_impl_restore fd cb frames i w =
     (case props_impl_try_lock (impls (pp w) ! i) PROP_STATE_RESTORE PROP_STATE_LOCK of
        (False, _) \<Rightarrow> Some w
      | (True, impl) \<Rightarrow>
          (case c_memcpy (pmem w) (value_body impl) (stash_body impl) (stash_size impl) of
             None \<Rightarrow> None
           | Some m \<Rightarrow>
               (let impl1 = props_impl_unlock (impl\<lparr>p_stashing := False, value_size := stash_size impl\<rparr>) PROP_STATE_NONE in
                Option.bind (send_on fd frames i 0 (put_impl i impl1 (w\<lparr>pmem := m\<rparr>))) (event_cb cb 0 impl1))))"

definition props_impl_set :: "nat \<Rightarrow> u32 \<Rightarrow> u32 \<Rightarrow> u8 list \<Rightarrow> 'f world \<Rightarrow> 'f world option" where
  "props_impl_set i type n body w =
     (let impl = impls (pp w) ! i; limit = d_max_size (p_def impl) in
      if p_type impl = type \<and> (limit = 0 \<or> n \<le> limit)
      then if length body < unat n then None
        else (case st (pmem w) (value_body impl) (take (unat n) body) of
            None \<Rightarrow> None
          | Some m \<Rightarrow> props_impl_stash i (put_impl i (impl\<lparr>value_size := n\<rparr>) (w\<lparr>pmem := m\<rparr>)))
      else Some w)"

definition default_size :: "props_urid \<Rightarrow> u32 \<Rightarrow> u32" where
  "default_size u type =
     (if type = atom_int u \<or> type = atom_float u \<or> type = atom_bool u \<or> type = atom_urid u then 4
      else if type = atom_long u \<or> type = atom_double u then 8
      else if type = atom_literal u then 8
      else if type = atom_vector u then 8
      else if type = atom_object u then 8
      else if type = atom_sequence u then 8
      else 0)"

text \<open>The entry an initialisation makes, and whether it succeeds; \<open>umap\<close> maps a URI, or gives 0.\<close>

definition props_impl_init ::
    "(lv2_uri \<Rightarrow> u32) \<Rightarrow> addr \<Rightarrow> addr \<Rightarrow> props_def \<Rightarrow> props_impl \<Rightarrow> props \<Rightarrow> bool \<times> props_impl \<times> props" where
  "props_impl_init umap value_base stash_base def impl p =
     (case (d_property def, d_type def) of
        (Some prop, Some typ) \<Rightarrow>
          (let type = umap (Custom typ);
               property = umap (Custom prop);
               access = (case d_access def of Some a \<Rightarrow> umap (Custom a) | None \<Rightarrow> umap PATCH_writable) in
           if type = 0 \<or> property = 0 \<or> access = 0 then (False, impl, p)
           else let n = default_size (urid p) type;
                    impl1 = impl\<lparr>p_property := property, p_access := access, p_def := def,
                      value_body := value_base + d_offset def, stash_body := stash_base + d_offset def,
                      p_type := type, value_size := n, stash_size := n, p_state := PROP_STATE_NONE\<rparr>;
                    mx = (if d_max_size def \<noteq> 0 then d_max_size def else n) in
                (True, impl1, if mx > max_size p then p\<lparr>max_size := mx\<rparr> else p))
      | _ \<Rightarrow> (False, impl, p))"

definition map_urids :: "(lv2_uri \<Rightarrow> u32) \<Rightarrow> u8 list option \<Rightarrow> props_urid" where
  "map_urids umap subj =
     \<lparr>subject = (case subj of Some s \<Rightarrow> umap (Custom s) | None \<Rightarrow> 0),
      patch_get = umap PATCH_Get, patch_set = umap PATCH_Set, patch_put = umap PATCH_Put,
      patch_patch = umap PATCH_Patch, patch_wildcard = umap PATCH_wildcard, patch_add = umap PATCH_add,
      patch_remove = umap PATCH_remove, patch_subject = umap PATCH_subject, patch_body = umap PATCH_body,
      patch_property = umap PATCH_property, patch_value = umap PATCH_value,
      patch_writable = umap PATCH_writable, patch_readable = umap PATCH_readable,
      patch_sequence = umap PATCH_sequenceNumber, patch_error = umap PATCH_Error, patch_ack = umap PATCH_Ack,
      atom_int = umap ATOM_Int, atom_long = umap ATOM_Long, atom_float = umap ATOM_Float,
      atom_double = umap ATOM_Double, atom_bool = umap ATOM_Bool, atom_urid = umap ATOM_URID,
      atom_path = umap ATOM_Path, atom_literal = umap ATOM_Literal, atom_vector = umap ATOM_Vector,
      atom_object = umap ATOM_Object, atom_sequence = umap ATOM_Sequence,
      state_StateChanged = umap STATE_StateChanged\<rparr>"

text \<open>The loop stops initialising at the first definition that fails.\<close>

fun init_loop ::
    "(lv2_uri \<Rightarrow> u32) \<Rightarrow> addr \<Rightarrow> addr \<Rightarrow> bool \<Rightarrow> props_def list \<Rightarrow> props_impl list \<Rightarrow> props
     \<Rightarrow> bool \<times> props_impl list \<times> props" where
  "init_loop umap vb sb status (def # defs) (impl # rest) p =
     (if status
      then (case props_impl_init umap vb sb def impl p of
          (ok, impl1, p1) \<Rightarrow> (case init_loop umap vb sb ok defs rest p1 of (st', is, p2) \<Rightarrow> (st', impl1 # is, p2)))
      else (case init_loop umap vb sb False defs rest p of (st', is, p2) \<Rightarrow> (st', impl # is, p2)))"
| "init_loop umap vb sb status defs is p = (status, is, p)"

definition props_init ::
    "(lv2_uri \<Rightarrow> u32) \<Rightarrow> u8 list option \<Rightarrow> props_def list \<Rightarrow> addr \<Rightarrow> addr \<Rightarrow> props \<Rightarrow> (bool \<times> props) option" where
  "props_init umap subj defs value_base stash_base p =
     (let p1 = p\<lparr>urid := map_urids umap subj, restoring := False\<rparr> in
      case init_loop umap value_base stash_base True defs (impls p1) p1 of
        (status, is, p2) \<Rightarrow>
          (case props_qsort is of None \<Rightarrow> None | Some table \<Rightarrow> Some (status, p2\<lparr>impls := table\<rparr>)))"

definition props_dyn :: "bool \<Rightarrow> props \<Rightarrow> props" where
  "props_dyn d p = p\<lparr>dyn := d\<rparr>"

section \<open>Idle\<close>

fun each_index :: "nat list \<Rightarrow> (nat \<Rightarrow> 'w \<Rightarrow> 'w option) \<Rightarrow> 'w \<Rightarrow> 'w option" where
  "each_index [] f w = Some w"
| "each_index (i # is) f w = (case f i w of None \<Rightarrow> None | Some w1 \<Rightarrow> each_index is f w1)"

definition indices :: "'f world \<Rightarrow> nat list" where
  "indices w = [0 ..< length (impls (pp w))]"

definition props_idle :: "'f forge \<Rightarrow> 'f callback \<Rightarrow> u32 \<Rightarrow> 'f world \<Rightarrow> 'f world option" where
  "props_idle fd cb frames w =
     (case props_restoring_get (pp w) of (r, p) \<Rightarrow>
        let w1 = w\<lparr>pp := p\<rparr> in
        case (if r then each_index (indices w1) (props_impl_restore fd cb frames) w1 else Some w1) of
          None \<Rightarrow> None
        | Some w2 \<Rightarrow>
            if stashing (pp w2)
            then (let w3 = w2\<lparr>pp := (pp w2)\<lparr>stashing := False\<rparr>\<rparr> in
                  each_index (indices w3)
                    (\<lambda>i v. if p_stashing (impls (pp v) ! i) then props_impl_stash i v else Some v) w3)
            else Some w2)"

section \<open>Answering patch messages\<close>

text \<open>
  The subject test: an object about another subject is not ours. \<open>None\<close>: the subject has the
  type of a URID but no body to read.
\<close>

definition other_subject :: "props_urid \<Rightarrow> atom option \<Rightarrow> bool option" where
  "other_subject u sub =
     (case sub of
        None \<Rightarrow> Some False
      | Some a \<Rightarrow>
          if subject u = 0 then Some False
          else if atom_type a \<noteq> atom_urid u then Some True
          else map_option (\<lambda>b. b \<noteq> subject u) (body_u32 a))"

definition sequence_number :: "props_urid \<Rightarrow> atom option \<Rightarrow> u32 option" where
  "sequence_number u sequence =
     (case sequence of
        None \<Rightarrow> Some 0
      | Some a \<Rightarrow> if atom_type a = atom_int u then body_u32 a else Some 0)"

definition opt_subject :: "atom option \<Rightarrow> u32 option" where
  "opt_subject sub = (case sub of None \<Rightarrow> Some 0 | Some a \<Rightarrow> body_u32 a)"

definition reply_error :: "'f forge \<Rightarrow> u32 \<Rightarrow> u32 \<Rightarrow> 'f world \<Rightarrow> 'f world" where
  "reply_error fd frames seq w = (if seq \<noteq> 0 \<and> pref w then props_patch_error fd frames seq w else w)"

definition reply_ack :: "'f forge \<Rightarrow> u32 \<Rightarrow> u32 \<Rightarrow> 'f world \<Rightarrow> 'f world" where
  "reply_ack fd frames seq w = (if seq \<noteq> 0 \<and> pref w then props_patch_ack fd frames seq w else w)"

definition advance_get :: "'f forge \<Rightarrow> object_get \<Rightarrow> u32 \<Rightarrow> aprop list \<Rightarrow> 'f world \<Rightarrow> (bool \<times> 'f world) option" where
  "advance_get fd oget frames ps w =
     (let u = urid (pp w); prop = oget ps (patch_property u) in
      case other_subject u (oget ps (patch_subject u)) of
        None \<Rightarrow> None
      | Some True \<Rightarrow> Some (False, w)
      | Some False \<Rightarrow>
          (case sequence_number u (oget ps (patch_sequence u)) of
             None \<Rightarrow> None
           | Some seq \<Rightarrow>
               (case prop of
                  None \<Rightarrow> map_option (Pair True) (each_index (indices w) (\<lambda>i. send_on fd frames i seq) w)
                | Some a \<Rightarrow>
                    if atom_type a = atom_urid u then
                      (case body_u32 a of
                         None \<Rightarrow> None
                       | Some k \<Rightarrow>
                           (case props_impl_get (impls (pp w)) k of
                              Ok (Some i) \<Rightarrow> map_option (Pair True) (send_on fd frames i seq w)
                            | Ok None \<Rightarrow> Some (False, reply_error fd frames seq w)
                            | _ \<Rightarrow> None))
                    else Some (False, reply_error fd frames seq w))))"

text \<open>What a set, and each property of a put, does to an entry that is there.\<close>

definition set_entry :: "'f forge \<Rightarrow> 'f callback \<Rightarrow> u32 \<Rightarrow> u32 \<Rightarrow> nat \<Rightarrow> atom \<Rightarrow> 'f world \<Rightarrow> 'f world option" where
  "set_entry fd cb frames seq i value w =
     (case props_impl_set i (atom_type value) (atom_size value) (body_bytes (atom_body value)) w of
        None \<Rightarrow> None
      | Some w1 \<Rightarrow>
          (case send_on fd frames i seq w1 of
             None \<Rightarrow> None
           | Some w2 \<Rightarrow> event_cb cb frames (impls (pp w2) ! i) w2))"

definition dyn_event :: "dyn_ev \<Rightarrow> u32 \<Rightarrow> u32 \<Rightarrow> atom \<Rightarrow> 'f world \<Rightarrow> 'f world" where
  "dyn_event ev subj k value w = w\<lparr>plog := plog w @ [PDyn ev subj k value]\<rparr>"

text \<open>
  In one place the code tests the pointer \<open>ref\<close> instead of what it points to: the error for a
  malformed set is sent whatever state the forge is in.
\<close>

definition advance_set :: "'f forge \<Rightarrow> 'f callback \<Rightarrow> object_get \<Rightarrow> u32 \<Rightarrow> aprop list \<Rightarrow> 'f world \<Rightarrow> (bool \<times> 'f world) option" where
  "advance_set fd cb oget frames ps w =
     (let u = urid (pp w); sub = oget ps (patch_subject u) in
      case other_subject u sub of
        None \<Rightarrow> None
      | Some True \<Rightarrow> Some (False, w)
      | Some False \<Rightarrow>
          (case sequence_number u (oget ps (patch_sequence u)) of
             None \<Rightarrow> None
           | Some seq \<Rightarrow>
               (case (oget ps (patch_property u), oget ps (patch_value u)) of
                  (Some a, Some value) \<Rightarrow>
                    if atom_type a \<noteq> atom_urid u
                    then Some (False, if seq \<noteq> 0 then props_patch_error fd frames seq w else w)
                    else
                      (case body_u32 a of
                         None \<Rightarrow> None
                       | Some k \<Rightarrow>
                           (case props_impl_get (impls (pp w)) k of
                              Ok (Some i) \<Rightarrow>
                                map_option (\<lambda>w1. (True, reply_ack fd frames seq w1)) (set_entry fd cb frames seq i value w)
                            | Ok None \<Rightarrow>
                                if dyn (pp w)
                                then map_option (\<lambda>subj. (False, dyn_event PROPS_DYN_EV_SET subj k value w)) (opt_subject sub)
                                else Some (False, reply_error fd frames seq w)
                            | _ \<Rightarrow> None))
                | _ \<Rightarrow> Some (False, if seq \<noteq> 0 then props_patch_error fd frames seq w else w))))"

fun put_loop :: "'f forge \<Rightarrow> 'f callback \<Rightarrow> u32 \<Rightarrow> u32 \<Rightarrow> atom option \<Rightarrow> aprop list \<Rightarrow> 'f world \<Rightarrow> 'f world option" where
  "put_loop fd cb frames seq sub [] w = Some w"
| "put_loop fd cb frames seq sub (Prop k value # ps) w =
     (case (case props_impl_get (impls (pp w)) k of
              Ok (Some i) \<Rightarrow> set_entry fd cb frames seq i value w
            | Ok None \<Rightarrow>
                if dyn (pp w)
                then map_option (\<lambda>subj. dyn_event PROPS_DYN_EV_SET subj k value w) (opt_subject sub)
                else Some w
            | _ \<Rightarrow> None) of
        None \<Rightarrow> None
      | Some w1 \<Rightarrow> put_loop fd cb frames seq sub ps w1)"

definition advance_put :: "'f forge \<Rightarrow> 'f callback \<Rightarrow> object_get \<Rightarrow> (u32 \<Rightarrow> bool) \<Rightarrow> u32 \<Rightarrow> aprop list \<Rightarrow> 'f world
    \<Rightarrow> (bool \<times> 'f world) option" where
  "advance_put fd cb oget is_object frames ps w =
     (let u = urid (pp w); sub = oget ps (patch_subject u); body = oget ps (patch_body u) in
      case other_subject u sub of
        None \<Rightarrow> None
      | Some True \<Rightarrow> Some (False, w)
      | Some False \<Rightarrow>
          (case sequence_number u (oget ps (patch_sequence u)) of
             None \<Rightarrow> None
           | Some seq \<Rightarrow>
               (case body of
                  None \<Rightarrow> Some (False, reply_error fd frames seq w)
                | Some b \<Rightarrow>
                    if \<not> is_object (atom_type b) then Some (False, reply_error fd frames seq w)
                    else (case object_props (atom_body b) of
                        None \<Rightarrow> None
                      | Some qs \<Rightarrow>
                          map_option (\<lambda>w1. (True, reply_ack fd frames seq w1)) (put_loop fd cb frames seq sub qs w)))))"

definition dyn_events :: "dyn_ev \<Rightarrow> (u32 \<Rightarrow> bool) \<Rightarrow> u32 \<Rightarrow> atom option \<Rightarrow> 'f world \<Rightarrow> 'f world option" where
  "dyn_events ev is_object subj obj w =
     (case obj of
        None \<Rightarrow> Some w
      | Some a \<Rightarrow>
          if is_object (atom_type a)
          then (case object_props (atom_body a) of
              None \<Rightarrow> None
            | Some qs \<Rightarrow>
                Some (if dyn (pp w) then fold (\<lambda>q. dyn_event ev subj (prop_key q) (prop_value q)) qs w else w))
          else Some w)"

definition advance_patch :: "'f forge \<Rightarrow> object_get \<Rightarrow> (u32 \<Rightarrow> bool) \<Rightarrow> u32 \<Rightarrow> aprop list \<Rightarrow> 'f world
    \<Rightarrow> (bool \<times> 'f world) option" where
  "advance_patch fd oget is_object frames ps w =
     (let u = urid (pp w) in
      case (case oget ps (patch_subject u) of
              None \<Rightarrow> Some 0
            | Some a \<Rightarrow> if atom_type a = atom_urid u then body_u32 a else Some 0) of
        None \<Rightarrow> None
      | Some subj \<Rightarrow>
          (case sequence_number u (oget ps (patch_sequence u)) of
             None \<Rightarrow> None
           | Some seq \<Rightarrow>
               (case dyn_events PROPS_DYN_EV_REM is_object subj (oget ps (patch_remove u)) w of
                  None \<Rightarrow> None
                | Some w1 \<Rightarrow>
                    map_option (\<lambda>w2. (True, reply_ack fd frames seq w2))
                      (dyn_events PROPS_DYN_EV_ADD is_object subj (oget ps (patch_add u)) w1))))"

definition props_advance :: "'f forge \<Rightarrow> 'f callback \<Rightarrow> object_get \<Rightarrow> (u32 \<Rightarrow> bool) \<Rightarrow> u32 \<Rightarrow> atom \<Rightarrow> 'f world
    \<Rightarrow> (bool \<times> 'f world) option" where
  "props_advance fd cb oget is_object frames obj w =
     (if \<not> is_object (atom_type obj) then Some (False, w)
      else case atom_body obj of
          Object i otype ps \<Rightarrow>
            (let u = urid (pp w) in
             if otype = patch_get u then advance_get fd oget frames ps w
             else if otype = patch_set u then advance_set fd cb oget frames ps w
             else if otype = patch_put u then advance_put fd cb oget is_object frames ps w
             else if otype = patch_patch u then advance_patch fd oget is_object frames ps w
             else Some (False, w))
        | _ \<Rightarrow> None)"

section \<open>The plugin's side\<close>

definition props_set :: "'f forge \<Rightarrow> u32 \<Rightarrow> u32 \<Rightarrow> 'f world \<Rightarrow> 'f world option" where
  "props_set fd frames property w =
     (case props_impl_get (impls (pp w)) property of
        Ok (Some i) \<Rightarrow> (case props_impl_stash i w of None \<Rightarrow> None | Some w1 \<Rightarrow> send_on fd frames i 0 w1)
      | Ok None \<Rightarrow> Some w
      | _ \<Rightarrow> None)"

definition props_get :: "'f forge \<Rightarrow> u32 \<Rightarrow> u32 \<Rightarrow> 'f world \<Rightarrow> 'f world option" where
  "props_get fd frames property w =
     (case props_impl_get (impls (pp w)) property of
        Ok (Some i) \<Rightarrow>
          (let impl = impls (pp w) ! i in
           Some (if pref w \<and> \<not> d_hidden (p_def impl) then props_patch_get fd frames impl 0 w else w))
      | Ok None \<Rightarrow> Some w
      | _ \<Rightarrow> None)"

definition props_stash :: "u32 \<Rightarrow> 'f world \<Rightarrow> 'f world option" where
  "props_stash property w =
     (case props_impl_get (impls (pp w)) property of
        Ok (Some i) \<Rightarrow> props_impl_stash i w
      | Ok None \<Rightarrow> Some w
      | _ \<Rightarrow> None)"

text \<open>\<open>strcmp\<close> with the name of an entry that has none is undefined.\<close>

fun props_map :: "props_impl list \<Rightarrow> u8 list \<Rightarrow> u32 option" where
  "props_map [] uri = Some 0"
| "props_map (impl # is) uri =
     (case d_property (p_def impl) of
        None \<Rightarrow> None
      | Some name \<Rightarrow> if name = uri then Some (p_property impl) else props_map is uri)"

definition props_unmap :: "props_impl list \<Rightarrow> u32 \<Rightarrow> u8 list option result" where
  "props_unmap A property =
     (case props_impl_get A property of
        Ok (Some i) \<Rightarrow> Ok (d_property (p_def (A ! i)))
      | Ok None \<Rightarrow> Ok None
      | _ \<Rightarrow> Fault)"

end
