(* ===== verification/Props_State.thy ===== *)
theory Props_State
  imports Props
begin

text \<open>
  \<open>props_save\<close> and \<open>props_restore\<close> of \<open>props.lv2/props.h\<close>, which run outside the real-time
  thread. The host's features, its \<open>store\<close> and \<open>retrieve\<close> callbacks are parameters; files are
  a map from names to contents. The temporary buffer of a save is a list of \<open>max_size\<close> bytes.
  \<open>attempts\<close> gives, for each entry, the states its lock is seen in while it is taken.
\<close>

section \<open>Features and files\<close>

datatype feature =
    MapPath "(u8 list \<Rightarrow> u8 list option) option" "(u8 list \<Rightarrow> u8 list option) option"
  | MakePath "(u8 list \<Rightarrow> u8 list option) option"
  | FreePath
  | OtherFeature "u8 list"

text \<open>\<open>MapPath abstract absolute\<close>: the last feature of a kind is the one kept.\<close>

fun find_map_path :: "feature list \<Rightarrow> ((u8 list \<Rightarrow> u8 list option) option \<times> (u8 list \<Rightarrow> u8 list option) option)
    \<Rightarrow> (u8 list \<Rightarrow> u8 list option) option \<times> (u8 list \<Rightarrow> u8 list option) option" where
  "find_map_path [] acc = acc"
| "find_map_path (MapPath ab ap # fs) acc = find_map_path fs (ab, ap)"
| "find_map_path (_ # fs) acc = find_map_path fs acc"

fun find_make_path :: "feature list \<Rightarrow> (u8 list \<Rightarrow> u8 list option) option \<Rightarrow> (u8 list \<Rightarrow> u8 list option) option" where
  "find_make_path [] acc = acc"
| "find_make_path (MakePath mk # fs) acc = find_make_path fs mk"
| "find_make_path (_ # fs) acc = find_make_path fs acc"

type_synonym files = "u8 list \<Rightarrow> u8 list option"

text \<open>\<open>fopen(to, "wb")\<close> truncates before the source is opened.\<close>

definition copy_file :: "(u8 list \<Rightarrow> bool) \<Rightarrow> u8 list \<Rightarrow> u8 list \<Rightarrow> files \<Rightarrow> bool \<times> files" where
  "copy_file writable to from fs =
     (if \<not> writable to then (False, fs)
      else let fs1 = fs(to \<mapsto> []) in
           case fs1 from of
             None \<Rightarrow> (False, fs1)
           | Some bs \<Rightarrow> (True, fs1(to \<mapsto> bs)))"

definition starts_with :: "u8 list \<Rightarrow> u8 list \<Rightarrow> bool" where
  "starts_with p s \<longleftrightarrow> take (length p) s = p"

definition c_basename :: "u8 list \<Rightarrow> u8 list" where
  "c_basename s = rev (takeWhile (\<lambda>b. b \<noteq> c8 CHR ''/'') (rev s))"

section \<open>Saving\<close>

record stored =
  s_key :: u32
  s_value :: "u8 list"
  s_type :: u32
  s_flags :: u32

record 'f saving =
  sw :: "'f world"
  sfiles :: files
  slog :: "stored list"

definition LV2_STATE_IS_POD :: u32 where
  "LV2_STATE_IS_POD = 1"

definition lock_entry :: "props_state list \<Rightarrow> nat \<Rightarrow> 'f world \<Rightarrow> 'f world option" where
  "lock_entry env i w =
     (case props_impl_spin_lock env PROP_STATE_NONE PROP_STATE_LOCK of
        None \<Rightarrow> None
      | Some s \<Rightarrow> Some (put_impl i ((impls (pp w) ! i)\<lparr>p_state := s\<rparr>) w))"

definition unlock_entry :: "nat \<Rightarrow> props_state \<Rightarrow> 'f world \<Rightarrow> 'f world" where
  "unlock_entry i to w = put_impl i (props_impl_unlock (impls (pp w) ! i) to) w"

definition stored_path ::
    "feature list \<Rightarrow> (u8 list \<Rightarrow> u8 list option) \<Rightarrow> (u8 list \<Rightarrow> bool) \<Rightarrow> u8 list \<Rightarrow> files \<Rightarrow> u8 list option \<times> files" where
  "stored_path features abstract writable text fs =
     (let path = (if starts_with (cstr ''file://'') text then drop 7 text else text) in
      case find_make_path features None of
        Some mk \<Rightarrow>
          if starts_with (cstr ''/tmp'') path
          then (case mk (c_basename path) of
              None \<Rightarrow> (None, fs)
            | Some absolute \<Rightarrow>
                (case copy_file writable absolute path fs of
                   (True, fs1) \<Rightarrow> (abstract absolute, fs1)
                 | (False, fs1) \<Rightarrow> (None, fs1)))
          else (abstract path, fs)
      | None \<Rightarrow> (abstract path, fs))"

definition save_entry ::
    "feature list \<Rightarrow> (u8 list \<Rightarrow> bool) \<Rightarrow> u32 \<Rightarrow> props_state list \<Rightarrow> nat \<Rightarrow> 'f saving \<Rightarrow> 'f saving option" where
  "save_entry features writable flags env i s =
     (let w = sw s; u = urid (pp w); impl = impls (pp w) ! i in
      if p_access impl = patch_readable u then Some s
      else
        (case lock_entry env i w of
           None \<Rightarrow> None
         | Some w1 \<Rightarrow>
             (case ld (pmem w1) (stash_body impl) (unat (stash_size impl)) of
                None \<Rightarrow> None
              | Some bs \<Rightarrow>
                  if max_size (pp w) < stash_size impl then None
                  else
                    (let body = bs @ replicate (unat (max_size (pp w)) - length bs) 0;
                         s1 = s\<lparr>sw := unlock_entry i PROP_STATE_NONE w1\<rparr> in
                     case (fst (find_map_path features (None, None)), p_type impl = atom_path u) of
                       (Some abstract, True) \<Rightarrow>
                         (case bytes_str body of
                            None \<Rightarrow> None
                          | Some text \<Rightarrow>
                              (case stored_path features abstract writable text (sfiles s) of
                                 (None, fs) \<Rightarrow> Some (s1\<lparr>sfiles := fs\<rparr>)
                               | (Some a, fs) \<Rightarrow>
                                   Some (s1\<lparr>sfiles := fs, slog := slog s @
                                     [\<lparr>s_key = p_property impl, s_value = a @ [0], s_type = p_type impl, s_flags = flags\<rparr>]\<rparr>)))
                     | _ \<Rightarrow>
                         Some (s1\<lparr>slog := slog s @
                           [\<lparr>s_key = p_property impl, s_value = bs, s_type = p_type impl, s_flags = flags\<rparr>]\<rparr>)))))"

text \<open>\<open>allocated\<close>: whether \<open>malloc\<close> of the temporary buffer succeeded; if not, nothing is stored and the call still succeeds.\<close>

definition props_save ::
    "feature list \<Rightarrow> (u8 list \<Rightarrow> bool) \<Rightarrow> bool \<Rightarrow> u32 \<Rightarrow> (nat \<Rightarrow> props_impl \<Rightarrow> props_state list) \<Rightarrow> 'f saving
     \<Rightarrow> 'f saving option" where
  "props_save features writable allocated flags attempts s =
     (if allocated
      then each_index (indices (sw s))
             (\<lambda>i v. save_entry features writable (flags OR LV2_STATE_IS_POD) (attempts i (impls (pp (sw v)) ! i)) i v) s
      else Some s)"

section \<open>Restoring\<close>

text \<open>\<open>retrieve\<close> gives the bytes and the type of what is stored under a key.\<close>

definition put_stash :: "nat \<Rightarrow> u8 list \<Rightarrow> props_state list \<Rightarrow> 'f world \<Rightarrow> 'f world option" where
  "put_stash i bs env w =
     (case lock_entry env i w of
        None \<Rightarrow> None
      | Some w1 \<Rightarrow>
          (let impl = (impls (pp w1) ! i)\<lparr>stash_size := of_nat (length bs)\<rparr> in
           case st (pmem w1) (stash_body impl) bs of
             None \<Rightarrow> None
           | Some m \<Rightarrow> Some (unlock_entry i PROP_STATE_RESTORE (put_impl i impl (w1\<lparr>pmem := m\<rparr>)))))"

definition restore_entry ::
    "feature list \<Rightarrow> (u32 \<Rightarrow> (u8 list \<times> u32) option) \<Rightarrow> props_state list \<Rightarrow> nat \<Rightarrow> 'f world \<Rightarrow> 'f world option" where
  "restore_entry features retrieve env i w =
     (let u = urid (pp w); impl = impls (pp w) ! i; limit = d_max_size (p_def impl) in
      if p_access impl = patch_readable u then Some w
      else
        (case retrieve (p_property impl) of
           None \<Rightarrow> Some w
         | Some (body, type) \<Rightarrow>
             if type = p_type impl \<and> (limit = 0 \<or> length body \<le> unat limit)
             then (case (snd (find_map_path features (None, None)), type = atom_path u) of
                 (Some absolute_path, True) \<Rightarrow>
                   (case bytes_str body of
                      None \<Rightarrow> None
                    | Some text \<Rightarrow>
                        (case absolute_path text of
                           None \<Rightarrow> Some w
                         | Some absolute \<Rightarrow> put_stash i (absolute @ [0]) env w))
               | _ \<Rightarrow> put_stash i body env w)
             else Some w))"

definition props_restore ::
    "feature list \<Rightarrow> (u32 \<Rightarrow> (u8 list \<times> u32) option) \<Rightarrow> (nat \<Rightarrow> props_impl \<Rightarrow> props_state list) \<Rightarrow> 'f world
     \<Rightarrow> 'f world option" where
  "props_restore features retrieve attempts w =
     (case each_index (indices w)
             (\<lambda>i v. restore_entry features retrieve (attempts i (impls (pp v) ! i)) i v) w of
        None \<Rightarrow> None
      | Some w1 \<Rightarrow> Some (w1\<lparr>pp := props_restoring_set (pp w1)\<rparr>))"

text \<open>With the other thread at rest, the lock keeps the state it is found in.\<close>

definition undisturbed :: "nat \<Rightarrow> props_impl \<Rightarrow> props_state list" where
  "undisturbed i impl = [p_state impl, p_state impl]"

end
