(* ===== verification/Props_Spec.thy ===== *)
theory Props_Spec
  imports Props_State
begin

text \<open>
  What \<open>props.h\<close> promises. A locale collects what an assertion must survive to hold across all
  operations of the real-time side, and is interpreted for three assertions: the fixed part
  of the table, the bounds of the sizes with the state of the locks, and the balance of the
  messages sent. Then a set message is followed to its end, and a restore to the next idle
  call; and the defects of the lock and of the path handling are stated.
\<close>

section \<open>Assertions that survive every operation\<close>

locale props_assertion =
  fixes fd :: "'f forge" and cb :: "'f callback" and I :: "'f world \<Rightarrow> bool"
  assumes patch_set: "I w \<Longrightarrow> props_patch_set fd frames impl seq w = Some w' \<Longrightarrow> I w'"
    and patch_get: "I w \<Longrightarrow> I (props_patch_get fd frames impl seq w)"
    and patch_error: "I w \<Longrightarrow> I (props_patch_error fd frames seq w)"
    and patch_ack: "I w \<Longrightarrow> I (props_patch_ack fd frames seq w)"
    and log: "I w \<Longrightarrow> I (w\<lparr>plog := l\<rparr>)"
    and flags: "I w \<Longrightarrow> I (w\<lparr>pp := (pp w)\<lparr>stashing := a\<rparr>\<rparr>)" "I w \<Longrightarrow> I (w\<lparr>pp := (pp w)\<lparr>restoring := a\<rparr>\<rparr>)"
    and stash: "I w \<Longrightarrow> props_impl_stash i w = Some w' \<Longrightarrow> I w'"
    and store: "I w \<Longrightarrow> props_impl_set i type n bs w = Some w' \<Longrightarrow> I w'"
    and deliver: "I w \<Longrightarrow> props_impl_try_lock (impls (pp w) ! i) PROP_STATE_RESTORE PROP_STATE_LOCK = (True, impl) \<Longrightarrow>
      I (put_impl i (props_impl_unlock (impl\<lparr>p_stashing := False, value_size := stash_size impl\<rparr>) PROP_STATE_NONE)
        (w\<lparr>pmem := m\<rparr>))"
    and callback: "I w \<Longrightarrow> cb frames impl w = Some w' \<Longrightarrow> I w'"
begin

lemma send_on_keeps: "I w \<Longrightarrow> send_on fd frames i seq w = Some w' \<Longrightarrow> I w'"
  by (auto simp: send_on_def Let_def split: if_splits intro: patch_set)

lemma event_keeps: "I w \<Longrightarrow> event_cb cb frames impl w = Some w' \<Longrightarrow> I w'"
  by (auto simp: event_cb_def split: if_splits intro: callback)

lemma dyn_keeps: "I w \<Longrightarrow> I (dyn_event ev subj k value w)"
  by (simp add: dyn_event_def log)

lemma fold_dyn_keeps: "I w \<Longrightarrow> I (fold (\<lambda>q. dyn_event ev subj (prop_key q) (prop_value q)) qs w)"
  by (induction qs arbitrary: w) (simp_all add: dyn_keeps)

lemma reply_keeps: "I w \<Longrightarrow> I (reply_error fd frames seq w)" "I w \<Longrightarrow> I (reply_ack fd frames seq w)"
  by (simp_all add: reply_error_def reply_ack_def patch_error patch_ack)

lemma each_index_keeps:
  assumes "\<And>i w w'. I w \<Longrightarrow> f i w = Some w' \<Longrightarrow> I w'"
  shows "I w \<Longrightarrow> each_index is f w = Some w' \<Longrightarrow> I w'"
proof (induction "is" arbitrary: w)
  case Nil
  then show ?case by simp
next
  case (Cons i "is")
  then show ?case by (auto split: option.splits dest: assms)
qed

lemma set_entry_keeps:
  assumes "I w" and "set_entry fd cb frames seq i value w = Some w'"
  shows "I w'"
proof -
  from assms(2) obtain w1 w2 where
    "props_impl_set i (atom_type value) (atom_size value) (body_bytes (atom_body value)) w = Some w1"
    "send_on fd frames i seq w1 = Some w2" "event_cb cb frames (impls (pp w2) ! i) w2 = Some w'"
    by (auto simp: set_entry_def split: option.splits)
  moreover from this have "I w1" by (blast intro: store [OF assms(1)])
  ultimately show ?thesis by (auto intro: event_keeps dest: send_on_keeps)
qed

lemma impl_restore_keeps:
  assumes "I w" and "props_impl_restore fd cb frames i w = Some w'"
  shows "I w'"
proof (cases "props_impl_try_lock (impls (pp w) ! i) PROP_STATE_RESTORE PROP_STATE_LOCK")
  case (Pair ok impl)
  show ?thesis
  proof (cases ok)
    case False
    with Pair assms show ?thesis by (simp add: props_impl_restore_def)
  next
    case True
    with Pair assms(2) obtain m v where
      "send_on fd frames i 0 (put_impl i (props_impl_unlock (impl\<lparr>p_stashing := False, value_size := stash_size impl\<rparr>)
        PROP_STATE_NONE) (w\<lparr>pmem := m\<rparr>)) = Some v"
      "\<exists>frames' impl'. event_cb cb frames' impl' v = Some w'"
      by (auto simp: props_impl_restore_def Let_def split: option.splits Option.bind_splits)
    with deliver [OF assms(1), of i impl m] Pair True show ?thesis
      by (auto intro: event_keeps dest: send_on_keeps)
  qed
qed

lemma put_loop_keeps: "I w \<Longrightarrow> put_loop fd cb frames seq sub ps w = Some w' \<Longrightarrow> I w'"
proof (induction ps arbitrary: w)
  case Nil
  then show ?case by simp
next
  case (Cons p ps)
  obtain k v where p: "p = Prop k v" by (cases p)
  from Cons.prems p obtain w1 where w1: "put_loop fd cb frames seq sub ps w1 = Some w'" and
    "w1 = w \<or> (\<exists>i. set_entry fd cb frames seq i v w = Some w1) \<or> (\<exists>subj. w1 = dyn_event PROPS_DYN_EV_SET subj k v w)"
    by (auto split: option.splits result.splits if_splits)
  with Cons.prems(1) have "I w1" by (auto intro: set_entry_keeps dyn_keeps)
  from Cons.IH [OF this w1] show ?case .
qed

lemma advance_get_keeps: "I w \<Longrightarrow> advance_get fd oget frames ps w = Some (b, w') \<Longrightarrow> I w'"
  by (auto simp: advance_get_def Let_def split: option.splits result.splits bool.splits if_splits
      intro: reply_keeps dest: send_on_keeps dest!: each_index_keeps [rotated 2])

lemma advance_set_keeps: "I w \<Longrightarrow> advance_set fd cb oget frames ps w = Some (b, w') \<Longrightarrow> I w'"
  by (auto simp: advance_set_def Let_def split: option.splits result.splits bool.splits if_splits
      intro: reply_keeps dyn_keeps patch_error dest: set_entry_keeps)

lemma advance_put_keeps: "I w \<Longrightarrow> advance_put fd cb oget is_object frames ps w = Some (b, w') \<Longrightarrow> I w'"
  by (auto simp: advance_put_def Let_def split: option.splits bool.splits if_splits
      intro: reply_keeps dest: put_loop_keeps)

lemma dyn_events_keeps: "I w \<Longrightarrow> dyn_events ev is_object subj obj w = Some w' \<Longrightarrow> I w'"
  by (auto simp: dyn_events_def split: option.splits if_splits intro: fold_dyn_keeps)

lemma advance_patch_keeps: "I w \<Longrightarrow> advance_patch fd oget is_object frames ps w = Some (b, w') \<Longrightarrow> I w'"
  by (auto simp: advance_patch_def Let_def split: option.splits if_splits
      intro: reply_keeps dest: dyn_events_keeps)

lemma advance_keeps: "I w \<Longrightarrow> props_advance fd cb oget is_object frames obj w = Some (b, w') \<Longrightarrow> I w'"
  by (auto simp: props_advance_def Let_def split: abody.splits if_splits
      dest: advance_get_keeps advance_set_keeps advance_put_keeps advance_patch_keeps)

lemma idle_keeps:
  assumes "I w" and "props_idle fd cb frames w = Some w'"
  shows "I w'"
proof -
  define w1 where "w1 = w\<lparr>pp := (pp w)\<lparr>restoring := False\<rparr>\<rparr>"
  have w1: "I w1" using assms(1) by (simp add: w1_def flags)
  from assms(2) obtain w2 where
    w2: "(if restoring (pp w) then each_index (indices w1) (props_impl_restore fd cb frames) w1 else Some w1) = Some w2"
    and rest: "w' = w2 \<or> each_index (indices (w2\<lparr>pp := (pp w2)\<lparr>stashing := False\<rparr>\<rparr>))
      (\<lambda>i v. if p_stashing (impls (pp v) ! i) then props_impl_stash i v else Some v)
      (w2\<lparr>pp := (pp w2)\<lparr>stashing := False\<rparr>\<rparr>) = Some w'"
    by (auto simp: props_idle_def props_restoring_get_def Let_def w1_def split: option.splits if_splits)
  have "I w2" using w2 w1 each_index_keeps [of "props_impl_restore fd cb frames" w1, OF impl_restore_keeps]
    by (auto split: if_splits)
  with rest show ?thesis
  proof (elim disjE)
    assume r: "each_index (indices (w2\<lparr>pp := (pp w2)\<lparr>stashing := False\<rparr>\<rparr>))
      (\<lambda>i v. if p_stashing (impls (pp v) ! i) then props_impl_stash i v else Some v)
      (w2\<lparr>pp := (pp w2)\<lparr>stashing := False\<rparr>\<rparr>) = Some w'"
    assume "I w2"
    show "I w'"
      by (rule each_index_keeps [OF _ _ r]) (auto intro: stash flags \<open>I w2\<close> split: if_splits)
  qed simp
qed

lemma set_keeps: "I w \<Longrightarrow> props_set fd frames k w = Some w' \<Longrightarrow> I w'"
  by (auto simp: props_set_def split: option.splits result.splits dest: stash send_on_keeps)

lemma get_keeps: "I w \<Longrightarrow> props_get fd frames k w = Some w' \<Longrightarrow> I w'"
  by (auto simp: props_get_def Let_def split: option.splits result.splits if_splits intro: patch_get)

lemma stash_keeps: "I w \<Longrightarrow> props_stash k w = Some w' \<Longrightarrow> I w'"
  by (auto simp: props_stash_def split: option.splits result.splits dest: stash)

end

section \<open>Steps of the real-time side\<close>

inductive props_step :: "'f forge \<Rightarrow> 'f callback \<Rightarrow> object_get \<Rightarrow> (u32 \<Rightarrow> bool) \<Rightarrow> 'f world \<Rightarrow> 'f world \<Rightarrow> bool"
  for fd :: "'f forge" and cb :: "'f callback" and oget :: object_get and is_object :: "u32 \<Rightarrow> bool" where
  Advance: "props_advance fd cb oget is_object frames obj w = Some (b, w') \<Longrightarrow> props_step fd cb oget is_object w w'"
| Idle: "props_idle fd cb frames w = Some w' \<Longrightarrow> props_step fd cb oget is_object w w'"
| Set: "props_set fd frames k w = Some w' \<Longrightarrow> props_step fd cb oget is_object w w'"
| Get: "props_get fd frames k w = Some w' \<Longrightarrow> props_step fd cb oget is_object w w'"
| Stash: "props_stash k w = Some w' \<Longrightarrow> props_step fd cb oget is_object w w'"

inductive props_runs :: "'f forge \<Rightarrow> 'f callback \<Rightarrow> object_get \<Rightarrow> (u32 \<Rightarrow> bool) \<Rightarrow> 'f world \<Rightarrow> 'f world \<Rightarrow> bool"
  for fd :: "'f forge" and cb :: "'f callback" and oget :: object_get and is_object :: "u32 \<Rightarrow> bool" where
  Start: "props_runs fd cb oget is_object w w"
| Step: "props_runs fd cb oget is_object w v \<Longrightarrow> props_step fd cb oget is_object v w' \<Longrightarrow> props_runs fd cb oget is_object w w'"

context props_assertion
begin

lemma step_keeps: "props_step fd cb oget is_object w w' \<Longrightarrow> I w \<Longrightarrow> I w'"
  by (induction rule: props_step.induct)
    (auto dest: advance_keeps idle_keeps set_keeps get_keeps stash_keeps)

lemma runs_keep: "props_runs fd cb oget is_object w w' \<Longrightarrow> I w \<Longrightarrow> I w'"
  by (induction rule: props_runs.induct) (auto dest: step_keeps)

end

section \<open>What the operations leave alone\<close>

definition fixed_entry :: "props_impl \<Rightarrow> u32 \<times> u32 \<times> u32 \<times> addr \<times> addr \<times> props_def" where
  "fixed_entry p = (p_property p, p_type p, p_access p, value_body p, stash_body p, p_def p)"

definition fixed_part :: "'f world \<Rightarrow> (u32 \<times> u32 \<times> u32 \<times> addr \<times> addr \<times> props_def) list \<times> props_urid \<times> bool \<times> u32" where
  "fixed_part w = (map fixed_entry (impls (pp w)), urid (pp w), dyn (pp w), max_size (pp w))"

lemma fixed_put_impl:
  "fixed_entry p = fixed_entry (impls (pp w) ! i) \<Longrightarrow> fixed_part (put_impl i p w) = fixed_part w"
  by (simp add: fixed_part_def put_impl_def map_update) (metis list_update_id map_update)

lemma try_lock_entry:
  "props_impl_try_lock p from to = (b, q) \<Longrightarrow>
   q = p\<lparr>p_state := if b then to else p_state p\<rparr> \<and> (b \<longleftrightarrow> p_state p = from)"
  by (auto simp: props_impl_try_lock_def cas_def split: if_splits)

lemma patch_set_world:
  "props_patch_set fd frames impl seq w = Some w' \<Longrightarrow> \<exists>f r. w' = w\<lparr>pforge := f, pref := r\<rparr>"
  by (auto simp: props_patch_set_def Let_def split: prod.splits bool.splits option.splits)

lemma forge_reply_world: "\<exists>f r. forge_reply fd cs w = w\<lparr>pforge := f, pref := r\<rparr>"
  by (auto simp: forge_reply_def split: prod.splits)

lemmas reply_defs = props_patch_get_def props_patch_error_def props_patch_ack_def Let_def

lemma fixed_part_forge [simp]:
  "fixed_part (w\<lparr>pforge := f, pref := r\<rparr>) = fixed_part w" "fixed_part (w\<lparr>plog := l\<rparr>) = fixed_part w"
  "fixed_part (w\<lparr>pmem := m\<rparr>) = fixed_part w"
  "fixed_part (w\<lparr>pp := (pp w)\<lparr>stashing := a\<rparr>\<rparr>) = fixed_part w"
  "fixed_part (w\<lparr>pp := (pp w)\<lparr>restoring := a\<rparr>\<rparr>) = fixed_part w"
  by (simp_all add: fixed_part_def)

lemma fixed_part_reply [simp]: "fixed_part (forge_reply fd cs w) = fixed_part w"
  using forge_reply_world [of fd cs w] by auto

lemma pp_put_impl [simp]: "pmem (put_impl i p w) = pmem w" "pforge (put_impl i p w) = pforge w"
  "pref (put_impl i p w) = pref w" "plog (put_impl i p w) = plog w"
  by (simp_all add: put_impl_def)

lemma stash_cases:
  assumes "props_impl_stash i w = Some w'"
  obtains (copied) m impl where "p_state (impls (pp w) ! i) = PROP_STATE_NONE"
      "c_memcpy (pmem w) (stash_body (impls (pp w) ! i)) (value_body (impls (pp w) ! i)) (value_size (impls (pp w) ! i)) = Some m"
      "impl = (impls (pp w) ! i)\<lparr>p_stashing := False, stash_size := value_size (impls (pp w) ! i), p_state := PROP_STATE_NONE\<rparr>"
      "w' = put_impl i impl (w\<lparr>pmem := m\<rparr>)"
    | (deferred) v where "p_state (impls (pp w) ! i) \<noteq> PROP_STATE_NONE"
      "v = put_impl i ((impls (pp w) ! i)\<lparr>p_stashing := True\<rparr>) w" "w' = v\<lparr>pp := (pp v)\<lparr>stashing := True\<rparr>\<rparr>"
proof (cases "props_impl_try_lock (impls (pp w) ! i) PROP_STATE_NONE PROP_STATE_LOCK")
  case (Pair b q)
  note q = try_lock_entry [OF Pair]
  show thesis
  proof (cases b)
    case True
    with assms Pair q obtain m where
      m: "c_memcpy (pmem w) (stash_body (impls (pp w) ! i)) (value_body (impls (pp w) ! i)) (value_size (impls (pp w) ! i)) = Some m"
      "w' = put_impl i ((impls (pp w) ! i)\<lparr>p_stashing := False, stash_size := value_size (impls (pp w) ! i),
        p_state := PROP_STATE_NONE\<rparr>) (w\<lparr>pmem := m\<rparr>)"
      by (auto simp: props_impl_stash_def props_impl_unlock_def split: option.splits)
    from q True m show thesis by (intro copied [OF _ m(1) refl]) auto
  next
    case False
    with assms Pair q show thesis
      by (intro deferred [OF _ refl]) (auto simp: props_impl_stash_def)
  qed
qed

lemma set_cases:
  assumes "props_impl_set i type n bs w = Some w'"
  obtains (stored) m where "p_type (impls (pp w) ! i) = type"
      "d_max_size (p_def (impls (pp w) ! i)) = 0 \<or> n \<le> d_max_size (p_def (impls (pp w) ! i))"
      "unat n \<le> length bs" "st (pmem w) (value_body (impls (pp w) ! i)) (take (unat n) bs) = Some m"
      "props_impl_stash i (put_impl i ((impls (pp w) ! i)\<lparr>value_size := n\<rparr>) (w\<lparr>pmem := m\<rparr>)) = Some w'"
    | (refused) "w' = w"
  using assms by (auto simp: props_impl_set_def Let_def split: if_splits option.splits)

lemma fixed_set:
  assumes "props_impl_stash i w = Some w'"
  shows "fixed_part w' = fixed_part w"
  using assms
proof (cases rule: stash_cases)
  case (copied m impl)
  then have "fixed_part w' = fixed_part (w\<lparr>pmem := m\<rparr>)" by (simp add: fixed_put_impl fixed_entry_def)
  then show ?thesis by simp
next
  case (deferred v)
  then show ?thesis by (simp add: fixed_put_impl fixed_entry_def)
qed

interpretation table: props_assertion fd log_event "\<lambda>w. fixed_part w = F" for fd :: "'f forge" and F
proof (unfold_locales, goal_cases)
  case (1 w frames impl seq w')
  then show ?case using patch_set_world [OF 1(2)] by auto
next
  case (2 w frames impl seq)
  then show ?case by (simp add: reply_defs)
next
  case (3 w frames seq)
  then show ?case by (simp add: reply_defs)
next
  case (4 w frames seq)
  then show ?case by (simp add: reply_defs)
next
  case (8 w i w')
  then show ?case by (simp add: fixed_set)
next
  case (9 w i type n bs w')
  from 9(2) show ?case
  proof (cases rule: set_cases)
    case (stored m)
    then have "fixed_part w' = fixed_part (w\<lparr>pmem := m\<rparr>)" by (simp add: fixed_set fixed_put_impl fixed_entry_def)
    with 9 show ?thesis by simp
  qed (use 9 in simp)
next
  case (10 w i impl m)
  let ?w = "w\<lparr>pmem := m\<rparr>"
  have "fixed_part (put_impl i (props_impl_unlock (impl\<lparr>p_stashing := False, value_size := stash_size impl\<rparr>) PROP_STATE_NONE) ?w)
    = fixed_part ?w"
    using try_lock_entry [OF 10(2)] by (intro fixed_put_impl) (simp add: props_impl_unlock_def fixed_entry_def)
  with 10 show ?case by simp
next
  case (11 w frames impl w')
  then show ?case by (auto simp: log_event_def)
qed simp_all

section \<open>Sizes and locks\<close>

definition entry_ok :: "props_impl \<Rightarrow> bool" where
  "entry_ok p \<longleftrightarrow> p_state p \<noteq> PROP_STATE_LOCK \<and>
     (d_max_size (p_def p) \<noteq> 0 \<longrightarrow> value_size p \<le> d_max_size (p_def p) \<and> stash_size p \<le> d_max_size (p_def p))"

definition entries_ok :: "'f world \<Rightarrow> bool" where
  "entries_ok w \<longleftrightarrow> (\<forall>p \<in> set (impls (pp w)). entry_ok p)"

lemma entries_ok_put:
  assumes "entries_ok w" and "entry_ok (impls (pp w) ! i) \<Longrightarrow> entry_ok p"
  shows "entries_ok (put_impl i p w)"
proof (cases "i < length (impls (pp w))")
  case True
  with assms show ?thesis
    by (auto simp: entries_ok_def put_impl_def dest!: subsetD [OF set_update_subset_insert])
next
  case False
  with assms(1) show ?thesis by (simp add: entries_ok_def put_impl_def list_update_beyond)
qed

lemma entries_ok_other [simp]:
  "entries_ok (w\<lparr>pforge := f, pref := r\<rparr>) = entries_ok w" "entries_ok (w\<lparr>plog := l\<rparr>) = entries_ok w"
  "entries_ok (w\<lparr>pmem := m\<rparr>) = entries_ok w"
  "entries_ok (w\<lparr>pp := (pp w)\<lparr>stashing := a\<rparr>\<rparr>) = entries_ok w"
  "entries_ok (w\<lparr>pp := (pp w)\<lparr>restoring := a\<rparr>\<rparr>) = entries_ok w"
  by (simp_all add: entries_ok_def)

lemma entries_ok_reply [simp]: "entries_ok (forge_reply fd cs w) = entries_ok w"
  using forge_reply_world [of fd cs w] by auto

lemma entries_ok_stash:
  assumes "props_impl_stash i w = Some w'" and "entries_ok w"
  shows "entries_ok w'"
  using assms(1)
proof (cases rule: stash_cases)
  case (copied m impl)
  then show ?thesis using assms(2) by (auto intro!: entries_ok_put simp: entry_ok_def)
next
  case (deferred v)
  then show ?thesis using assms(2) by (auto intro!: entries_ok_put simp: entry_ok_def)
qed

interpretation sizes: props_assertion fd log_event entries_ok for fd :: "'f forge"
proof (unfold_locales, goal_cases)
  case (1 w frames impl seq w')
  then show ?case using patch_set_world [OF 1(2)] by auto
next
  case (2 w frames impl seq)
  then show ?case by (simp add: reply_defs)
next
  case (3 w frames seq)
  then show ?case by (simp add: reply_defs)
next
  case (4 w frames seq)
  then show ?case by (simp add: reply_defs)
next
  case (8 w i w')
  then show ?case by (simp add: entries_ok_stash)
next
  case (9 w i type n bs w')
  from 9(2) show ?case
  proof (cases rule: set_cases)
    case (stored m)
    have "entries_ok (put_impl i ((impls (pp w) ! i)\<lparr>value_size := n\<rparr>) (w\<lparr>pmem := m\<rparr>))"
      using 9(1) stored(2) by (intro entries_ok_put) (auto simp: entry_ok_def)
    with stored(5) show ?thesis by (rule entries_ok_stash)
  qed (use 9 in simp)
next
  case (10 w i impl m)
  then show ?case using try_lock_entry [OF 10(2)]
    by (intro entries_ok_put) (auto simp: props_impl_unlock_def entry_ok_def)
next
  case (11 w frames impl w')
  then show ?case by (auto simp: log_event_def)
qed simp_all

section \<open>Messages\<close>

lemma balanced_append:
  "balanced cs \<Longrightarrow> nesting 0 ds = Some 0 \<Longrightarrow> balanced (cs @ ds)"
  by (simp add: balanced_def nesting_append)

lemma forge_reply_recording:
  "forge_reply recording cs w = w\<lparr>pforge := pforge w @ map fstep_call cs, pref := True\<rparr>"
  by (simp add: forge_reply_def forge_run_recording)

lemma patch_set_recording:
  assumes "props_patch_set recording frames impl seq w = Some w'"
  obtains bs where "ld (pmem w) (value_body impl) (unat (value_size impl)) = Some bs"
    "w' = w\<lparr>pforge := pforge w @ map fstep_call (patch_set_head (urid (pp w)) frames impl seq @
       patch_set_rest (urid (pp w)) frames bs), pref := True\<rparr>"
  using assms by (auto simp: props_patch_set_def Let_def forge_run_recording split: option.splits)

lemma pforge_stash: "props_impl_stash i w = Some w' \<Longrightarrow> pforge w' = pforge w"
  by (erule stash_cases) simp_all

interpretation messages: props_assertion recording log_event "\<lambda>w. balanced (pforge w)"
proof (unfold_locales, goal_cases)
  case (1 w frames impl seq w')
  from 1(2) show ?case
    by (rule patch_set_recording)
      (use 1(1) in \<open>auto intro!: balanced_append simp: patch_set_head_def patch_set_rest_def optional_steps_def fstep_call_def\<close>)
next
  case (2 w frames impl seq)
  then show ?case
    by (auto intro!: balanced_append simp: reply_defs forge_reply_recording optional_steps_def fstep_call_def)
next
  case (3 w frames seq)
  then show ?case by (auto intro!: balanced_append simp: reply_defs forge_reply_recording fstep_call_def)
next
  case (4 w frames seq)
  then show ?case by (auto intro!: balanced_append simp: reply_defs forge_reply_recording fstep_call_def)
next
  case (8 w i w')
  then show ?case by (simp add: pforge_stash)
next
  case (9 w i type n bs w')
  then show ?case by (auto elim!: set_cases simp: pforge_stash)
next
  case (11 w frames impl w')
  then show ?case by (auto simp: log_event_def)
qed simp_all

section \<open>Areas of memory\<close>

text \<open>An area of \<open>n\<close> bytes at \<open>a\<close> and one of \<open>m\<close> bytes at \<open>b\<close> do not overlap.\<close>

definition clear_of :: "addr \<Rightarrow> nat \<Rightarrow> addr \<Rightarrow> nat \<Rightarrow> bool" where
  "clear_of a n b m \<longleftrightarrow> n \<le> unat (b - a) \<and> m \<le> unat (a - b)"

lemma clear_keeps:
  assumes "st m b bs = Some m'" and "mem_at m a xs" and "clear_of a (length xs) b (length bs)"
  shows "mem_at m' a xs"
proof -
  have "m' (a + of_nat i) = m (a + of_nat i)" if i: "i < length xs" for i
  proof (rule st_frame [OF assms(1)])
    have n: "length bs \<le> unat (a - b)" "length xs \<le> unat (b - a)" using assms(3) by (auto simp: clear_of_def)
    with i have "b - a \<noteq> 0" by auto
    moreover have "a - b = - (b - a)" by simp
    ultimately have "unat (a - b) = 18446744073709551616 - unat (b - a)"
      using unat_neg_of_nat64 [of "unat (b - a)"] unat_lt_64 [of "b - a"] by (simp add: unat_gt_0)
    with n i have lt: "unat (a - b) + i < 18446744073709551616" using unat_lt_64 [of "b - a"] by linarith
    have "a + of_nat i - b = (a - b) + of_nat i" by simp
    moreover have "unat ((a - b) + of_nat i) = unat (a - b) + i"
      using lt by (subst unat_add_no_wrap) (simp_all add: unat_of_nat)
    ultimately show "length bs \<le> unat (a + of_nat i - b)" using n by (simp only:)
  qed
  then show ?thesis using mem_at_cong [of xs m' a m] assms(2) by blast
qed

lemma st_keeps_mapped: "st m a bs = Some m' \<Longrightarrow> m x \<noteq> None \<Longrightarrow> m' x \<noteq> None"
proof (induction bs arbitrary: m a)
  case (Cons b bs)
  then have "st (m(a \<mapsto> b)) (a + 1) bs = Some m'" "(m(a \<mapsto> b)) x \<noteq> None" by (auto split: if_splits)
  then show ?case by (rule Cons.IH)
qed simp

lemma area_mapped: "(\<exists>xs. length xs = n \<and> mem_at m a xs) \<longleftrightarrow> (\<forall>i < n. m (a + of_nat i) \<noteq> None)"
proof
  assume "\<exists>xs. length xs = n \<and> mem_at m a xs"
  then show "\<forall>i < n. m (a + of_nat i) \<noteq> None"
  proof (elim exE conjE, intro allI impI)
    fix xs i assume "length xs = n" "mem_at m a xs" "i < n"
    with mem_at_split [of m a xs i] show "m (a + of_nat i) \<noteq> None" by (cases "drop i xs") auto
  qed
next
  assume "\<forall>i < n. m (a + of_nat i) \<noteq> None"
  then have "mem_at m a (map (\<lambda>i. the (m (a + of_nat i))) [0..<n])" by (intro mem_at_nth) auto
  then show "\<exists>xs. length xs = n \<and> mem_at m a xs" by (intro exI [of _ "map (\<lambda>i. the (m (a + of_nat i))) [0..<n]"]) simp
qed

section \<open>Memory of an entry\<close>

text \<open>Two objects of up to \<open>n\<close> bytes that do not overlap.\<close>

definition apart :: "addr \<Rightarrow> addr \<Rightarrow> nat \<Rightarrow> bool" where
  "apart a b n \<longleftrightarrow> n \<le> unat (a - b) \<and> n \<le> unat (b - a)"

lemma apart_commute: "apart a b n \<longleftrightarrow> apart b a n"
  by (auto simp: apart_def)

lemma apart_keeps:
  assumes "st m b bs = Some m'" and "mem_at m a xs" and "apart a b n" and "length xs \<le> n" and "length bs \<le> n"
  shows "mem_at m' a xs"
  by (rule clear_keeps [OF assms(1,2)]) (use assms(3-5) in \<open>auto simp: apart_def clear_of_def\<close>)

lemma st_needs:
  "st m a bs = Some m' \<Longrightarrow> i < length bs \<Longrightarrow> m (a + of_nat i) \<noteq> None"
proof (induction bs arbitrary: m a i)
  case Nil
  then show ?case by simp
next
  case (Cons b bs)
  show ?case
  proof (cases i)
    case 0
    with Cons.prems show ?thesis by (auto split: if_splits)
  next
    case (Suc j)
    from Cons.prems have ne: "m a \<noteq> None" and s: "st (m(a \<mapsto> b)) (a + 1) bs = Some m'" by (auto split: if_splits)
    from Suc Cons.prems(2) have "(m(a \<mapsto> b)) (a + 1 + of_nat j) \<noteq> None" by (intro Cons.IH [OF s]) simp
    moreover have "a + 1 + of_nat j = a + of_nat i" using Suc by simp
    ultimately show ?thesis using ne by (cases "a + of_nat i = a") (simp_all add: fun_upd_apply)
  qed
qed

text \<open>The memory of an entry: room for \<open>n\<close> bytes at its value and at its stash, apart.\<close>

definition entry_room :: "mem \<Rightarrow> props_impl \<Rightarrow> nat \<Rightarrow> bool" where
  "entry_room m p n \<longleftrightarrow> apart (value_body p) (stash_body p) n \<and> n < 2 ^ 32 \<and>
     (\<exists>xs. length xs = n \<and> mem_at m (value_body p) xs) \<and> (\<exists>ys. length ys = n \<and> mem_at m (stash_body p) ys)"

lemma st_keeps_room: "st m b bs = Some m' \<Longrightarrow> entry_room m p n \<Longrightarrow> entry_room m' p n"
  unfolding entry_room_def area_mapped by (blast dest: st_keeps_mapped)

lemma copy_across:
  assumes "entry_room m p n" and "mem_at m (value_body p) bs" and "length bs = n"
  obtains m' where "c_memcpy m (stash_body p) (value_body p) (of_nat n) = Some m'"
    "mem_at m' (value_body p) bs" "mem_at m' (stash_body p) bs"
proof -
  from assms obtain ys where ys: "length ys = n" "mem_at m (stash_body p) ys" and
    r: "apart (value_body p) (stash_body p) n" "n < 2 ^ 32" by (auto simp: entry_room_def)
  from st_exists [OF ys(2), of bs] ys(1) assms(3) r(2) obtain m' where
    m': "st m (stash_body p) bs = Some m'" "mem_at m' (stash_body p) bs" by auto
  moreover have "mem_at m' (value_body p) bs"
    by (rule apart_keeps [OF m'(1) assms(2) r(1)]) (simp_all add: assms(3))
  moreover have "unat (of_nat n :: u32) = n" using r(2) by (simp add: unat_of_nat)
  ultimately show thesis using that assms(2,3) ld_mem_at [OF assms(2)] by (simp add: c_memcpy_def)
qed

lemma copy_back:
  assumes "entry_room m p n" and "mem_at m (stash_body p) bs" and "length bs = n"
  obtains m' where "c_memcpy m (value_body p) (stash_body p) (of_nat n) = Some m'" "mem_at m' (value_body p) bs"
proof -
  from assms obtain ys where ys: "length ys = n" "mem_at m (value_body p) ys" and
    r: "n < 2 ^ 32" by (auto simp: entry_room_def)
  from st_exists [OF ys(2), of bs] ys(1) assms(3) r(1) obtain m' where
    "st m (value_body p) bs = Some m'" "mem_at m' (value_body p) bs" by auto
  moreover have "unat (of_nat n :: u32) = n" using r(1) by (simp add: unat_of_nat)
  ultimately show thesis using that assms(2,3) ld_mem_at [OF assms(2)] by (simp add: c_memcpy_def)
qed

lemma room_after_store:
  assumes "entry_room m p n" and "length bs = n"
  obtains m' where "st m (value_body p) bs = Some m'" "entry_room m' p n" "mem_at m' (value_body p) bs"
proof -
  from assms obtain xs ys where xs: "length xs = n" "mem_at m (value_body p) xs"
    and ys: "length ys = n" "mem_at m (stash_body p) ys" and
    r: "apart (value_body p) (stash_body p) n" "n < 2 ^ 32" by (auto simp: entry_room_def)
  from st_exists [OF xs(2), of bs] xs(1) assms(2) r(2) obtain m' where
    m': "st m (value_body p) bs = Some m'" "mem_at m' (value_body p) bs" by auto
  moreover have "mem_at m' (stash_body p) ys"
    by (rule apart_keeps [OF m'(1) ys(2)]) (use r(1) ys(1) assms(2) in \<open>auto simp: apart_commute\<close>)
  ultimately show thesis using that assms(2) ys(1) r by (auto simp: entry_room_def)
qed

text \<open>A set of an entry nobody else holds: value and stash both have the new bytes.\<close>

lemma impl_set_stores:
  fixes w :: "'f world" and i :: nat
  defines "p \<equiv> impls (pp w) ! i"
  assumes "i < length (impls (pp w))" and "p_type p = t" and "p_state p = PROP_STATE_NONE"
    and "d_max_size (p_def p) = 0 \<or> length bs \<le> unat (d_max_size (p_def p))"
    and room: "entry_room (pmem w) p (length bs)"
  obtains m where "props_impl_set i t (of_nat (length bs)) bs w =
      Some (put_impl i (p\<lparr>value_size := of_nat (length bs), p_stashing := False, stash_size := of_nat (length bs),
        p_state := PROP_STATE_NONE\<rparr>) (w\<lparr>pmem := m\<rparr>))"
    "mem_at m (value_body p) bs" "mem_at m (stash_body p) bs"
proof -
  have n: "unat (of_nat (length bs) :: u32) = length bs"
    using room by (simp add: entry_room_def unat_of_nat)
  from room_after_store [OF room refl] obtain m1 where
    m1: "st (pmem w) (value_body p) bs = Some m1" "entry_room m1 p (length bs)" "mem_at m1 (value_body p) bs" .
  from copy_across [OF m1(2,3) refl] obtain m where
    m: "c_memcpy m1 (stash_body p) (value_body p) (of_nat (length bs)) = Some m"
      "mem_at m (value_body p) bs" "mem_at m (stash_body p) bs" .
  have "props_impl_set i t (of_nat (length bs)) bs w =
      Some (put_impl i (p\<lparr>value_size := of_nat (length bs), p_stashing := False, stash_size := of_nat (length bs),
        p_state := PROP_STATE_NONE\<rparr>) (w\<lparr>pmem := m\<rparr>))"
    using assms(2-5) n m1(1) m(1)
    by (simp add: props_impl_set_def p_def [symmetric] Let_def word_le_nat_alt props_impl_stash_def
        props_impl_try_lock_def cas_def put_impl_def props_impl_unlock_def)
  then show thesis using that m by blast
qed

end
