(* ===== verification/Props_Contract.thy ===== *)
theory Props_Contract
  imports Props_Spec
begin

text \<open>
  The properties of \<open>props.h\<close> across its components: the invariant of the real-time side, a set
  message followed to its end, the way of a value through save, restore and idle, the result
  of an initialisation, and the defects of the lock and of restored paths.
\<close>

section \<open>Loops over the table\<close>

lemma each_index_invariant:
  assumes "each_index [k..<n] f w = Some w'" and "J k w" and "k \<le> n"
    and "\<And>i v v'. k \<le> i \<Longrightarrow> i < n \<Longrightarrow> J i v \<Longrightarrow> f i v = Some v' \<Longrightarrow> J (Suc i) v'"
  shows "J n w'"
  using assms
proof (induction "n - k" arbitrary: k w)
  case 0
  then show ?case by simp
next
  case (Suc d)
  then have kn: "k < n" by simp
  with Suc.prems(1) obtain w1 where w1: "f k w = Some w1" "each_index [Suc k..<n] f w1 = Some w'"
    by (auto simp: upt_conv_Cons split: option.splits)
  show ?case
    by (rule Suc.hyps(1) [OF _ w1(2)]) (use Suc kn w1 in auto)
qed

lemma each_index_idle: "(\<And>i. i \<in> set is \<Longrightarrow> f i w = Some w) \<Longrightarrow> each_index is f w = Some w"
  by (induction "is") auto

lemma map_update_same: "f x = f (xs ! i) \<Longrightarrow> map f (xs[i := x]) = map f xs"
  by (metis list_update_id map_update)

lemma impls_put_impl [simp]: "impls (pp (put_impl i p w)) = (impls (pp w))[i := p]"
  "urid (pp (put_impl i p w)) = urid (pp w)" "stashing (pp (put_impl i p w)) = stashing (pp w)"
  "restoring (pp (put_impl i p w)) = restoring (pp w)" "max_size (pp (put_impl i p w)) = max_size (pp w)"
  "dyn (pp (put_impl i p w)) = dyn (pp w)"
  by (simp_all add: put_impl_def)

section \<open>Saving\<close>

lemma spin_twice: "props_impl_spin_lock [s, s] PROP_STATE_NONE PROP_STATE_LOCK = Some PROP_STATE_LOCK"
  by (simp add: props_impl_spin_lock_def cas_def)

lemma lock_undisturbed: "lock_entry (undisturbed j (impls (pp w) ! i)) i w =
    Some (put_impl i ((impls (pp w) ! i)\<lparr>p_state := PROP_STATE_LOCK\<rparr>) w)"
  by (simp add: lock_entry_def undisturbed_def spin_twice)

lemma save_entry_frees:
  assumes "save_entry features writable flags (undisturbed j (impls (pp (sw s)) ! i)) i s = Some s'"
    and "i < length (impls (pp (sw s)))"
    and "p_access (impls (pp (sw s)) ! i) \<noteq> patch_readable (urid (pp (sw s)))"
  shows "sw s' = put_impl i ((impls (pp (sw s)) ! i)\<lparr>p_state := PROP_STATE_NONE\<rparr>) (sw s)"
  using assms
  by (auto simp: save_entry_def Let_def lock_undisturbed unlock_entry_def props_impl_unlock_def put_impl_def
      split: option.splits if_splits prod.splits bool.splits)

definition saved_upto :: "'f world \<Rightarrow> nat \<Rightarrow> 'f saving \<Rightarrow> bool" where
  "saved_upto w n s \<longleftrightarrow> urid (pp (sw s)) = urid (pp w) \<and> stashing (pp (sw s)) = stashing (pp w) \<and>
     map p_access (impls (pp (sw s))) = map p_access (impls (pp w)) \<and>
     (\<forall>i < n. p_state (impls (pp (sw s)) ! i) = PROP_STATE_NONE)"

lemma save_frees_all:
  assumes "props_save features writable True flags undisturbed s = Some s'"
    and "\<forall>p \<in> set (impls (pp (sw s))). p_access p \<noteq> patch_readable (urid (pp (sw s)))"
  shows "saved_upto (sw s) (length (impls (pp (sw s)))) s'"
proof -
  have "each_index [0..<length (impls (pp (sw s)))] (\<lambda>i v. save_entry features writable (flags OR LV2_STATE_IS_POD)
      (undisturbed i (impls (pp (sw v)) ! i)) i v) s = Some s'"
    using assms(1) by (simp add: props_save_def indices_def)
  then show ?thesis
  proof (rule each_index_invariant [where J = "saved_upto (sw s)"])
    show "saved_upto (sw s) 0 s" by (simp add: saved_upto_def)
  next
    fix i v v'
    assume i: "i < length (impls (pp (sw s)))" and J: "saved_upto (sw s) i v"
      and e: "save_entry features writable (flags OR LV2_STATE_IS_POD) (undisturbed i (impls (pp (sw v)) ! i)) i v = Some v'"
    have len: "length (impls (pp (sw v))) = length (impls (pp (sw s)))"
      using J by (auto simp: saved_upto_def dest: map_eq_imp_length_eq)
    have "map p_access (impls (pp (sw v))) ! i = map p_access (impls (pp (sw s))) ! i"
      using J by (simp add: saved_upto_def)
    then have acc: "p_access (impls (pp (sw v)) ! i) = p_access (impls (pp (sw s)) ! i)"
      using i len by simp
    have "sw v' = put_impl i ((impls (pp (sw v)) ! i)\<lparr>p_state := PROP_STATE_NONE\<rparr>) (sw v)"
      by (rule save_entry_frees [OF e]) (use i len acc assms(2) J in \<open>auto simp: saved_upto_def\<close>)
    moreover from this have "p_state (impls (pp (sw v')) ! j) = PROP_STATE_NONE" if "j < Suc i" for j
      using that J i len by (cases "j = i") (simp_all add: saved_upto_def)
    ultimately show "saved_upto (sw s) (Suc i) v'"
      using J by (simp add: saved_upto_def map_update_same)
  qed simp
qed

lemma impl_restore_unless:
  assumes "p_state (impls (pp w) ! i) \<noteq> PROP_STATE_RESTORE"
  shows "props_impl_restore fd log_event frames i w = Some w"
  using assms by (simp add: props_impl_restore_def props_impl_try_lock_def cas_def)

text \<open>
  Saving a state in the time between a restore and the next idle call loses the restore:
  taking and leaving the lock, a save sets every entry it stores back from \<open>RESTORE\<close>, so that
  the idle call finds nothing to deliver, whatever was pending.
\<close>

theorem props_save_drops_restore:
  assumes "props_save features writable True flags undisturbed s = Some s'"
    and "\<forall>p \<in> set (impls (pp (sw s))). p_access p \<noteq> patch_readable (urid (pp (sw s)))"
    and "\<not> stashing (pp (sw s))"
  shows "props_idle fd log_event frames (sw s') = Some ((sw s')\<lparr>pp := (pp (sw s'))\<lparr>restoring := False\<rparr>\<rparr>)"
proof -
  let ?w = "(sw s')\<lparr>pp := (pp (sw s'))\<lparr>restoring := False\<rparr>\<rparr>"
  note f = save_frees_all [OF assms(1,2)]
  have "length (impls (pp ?w)) = length (impls (pp (sw s)))"
    using f by (auto simp: saved_upto_def dest: map_eq_imp_length_eq)
  with f have "each_index (indices ?w) (props_impl_restore fd log_event frames) ?w = Some ?w"
    by (intro each_index_idle impl_restore_unless) (auto simp: indices_def saved_upto_def)
  with f assms(3) show ?thesis by (simp add: props_idle_def props_restoring_get_def Let_def saved_upto_def)
qed

text \<open>A small instance, for examples: two entries, memory everywhere, a forge that keeps its calls.\<close>

definition sample_urid :: props_urid where
  "sample_urid = \<lparr>subject = 0, patch_get = 101, patch_set = 102, patch_put = 103, patch_patch = 104,
     patch_wildcard = 105, patch_add = 106, patch_remove = 107, patch_subject = 108, patch_body = 109,
     patch_property = 110, patch_value = 111, patch_writable = 2, patch_readable = 112, patch_sequence = 113,
     patch_error = 114, patch_ack = 115, atom_int = 1, atom_long = 116, atom_float = 117, atom_double = 118,
     atom_bool = 119, atom_urid = 120, atom_path = 121, atom_literal = 122, atom_vector = 123,
     atom_object = 124, atom_sequence = 125, state_StateChanged = 126\<rparr>"

definition sample_world :: "fcall list world" where
  "sample_world = \<lparr>pp = \<lparr>urid = sample_urid, stashing = False, restoring = True, max_size = 8, dyn = False,
       impls = [sample_impl 3, (sample_impl 5)\<lparr>p_state := PROP_STATE_RESTORE\<rparr>]\<rparr>,
     pmem = (\<lambda>_. Some 0), pforge = [], pref = True, plog = []\<rparr>"

definition sample_saving :: "fcall list saving" where
  "sample_saving = \<lparr>sw = sample_world, sfiles = (\<lambda>_. None), slog = []\<rparr>"

lemmas sample_defs = sample_urid_def sample_world_def sample_saving_def sample_impl_def sample_def_def

lemma ld_zero [simp]: "ld (\<lambda>_. Some 0) a n = Some (replicate n 0)"
  by (induction n arbitrary: a) auto

lemma save_entry_undisturbed:
  assumes "p_access (impls (pp (sw s)) ! i) \<noteq> patch_readable (urid (pp (sw s)))"
    and "p_type (impls (pp (sw s)) ! i) \<noteq> atom_path (urid (pp (sw s)))" and "i < length (impls (pp (sw s)))"
    and "stash_size (impls (pp (sw s)) ! i) \<le> max_size (pp (sw s))"
    and "ld (pmem (sw s)) (stash_body (impls (pp (sw s)) ! i)) (unat (stash_size (impls (pp (sw s)) ! i))) = Some bs"
  shows "save_entry features writable flags (undisturbed j (impls (pp (sw s)) ! i)) i s =
    Some (s\<lparr>sw := put_impl i ((impls (pp (sw s)) ! i)\<lparr>p_state := PROP_STATE_NONE\<rparr>) (sw s),
      slog := slog s @ [\<lparr>s_key = p_property (impls (pp (sw s)) ! i), s_value = bs,
        s_type = p_type (impls (pp (sw s)) ! i), s_flags = flags\<rparr>]\<rparr>)"
  using assms
  by (simp add: save_entry_def Let_def lock_undisturbed unlock_entry_def props_impl_unlock_def put_impl_def
      not_less split: option.splits)

theorem props_save_drops_restore_witness:
  "\<exists>s'. props_save [] (\<lambda>_. True) True 0 undisturbed sample_saving = Some s' \<and>
     p_state (impls (pp (sw sample_saving)) ! 1) = PROP_STATE_RESTORE \<and>
     props_idle recording log_event 0 (sw s') = Some ((sw s')\<lparr>pp := (pp (sw s'))\<lparr>restoring := False\<rparr>\<rparr>)"
proof -
  obtain s' where s': "props_save [] (\<lambda>_. True) True 0 undisturbed sample_saving = Some s'"
    by (auto simp: props_save_def indices_def upt_conv_Cons sample_defs save_entry_def lock_entry_def
        undisturbed_def props_impl_spin_lock_def cas_def unlock_entry_def props_impl_unlock_def put_impl_def Let_def)
  from props_save_drops_restore [OF s', of recording 0] show ?thesis
    using s' by (auto simp: sample_defs)
qed

section \<open>The real-time side\<close>

text \<open>
  C13. Whatever messages, idle calls and plugin calls happen, in whatever order: the keys, types,
  addresses and definitions of the table stay as they were initialised; no entry is left
  locked; and the sizes of value and stash respect the bound the definition gives.
\<close>

theorem props_invariant:
  assumes "props_runs fd log_event oget is_object w w'" and "entries_ok w"
  shows "fixed_part w' = fixed_part w \<and> entries_ok w'"
  using table.runs_keep [OF assms(1), of "fixed_part w"] sizes.runs_keep [OF assms] by simp

theorem props_invariant_witness:
  "\<exists>w'. props_get recording 0 3 sample_world = Some w' \<and>
     fixed_part w' = fixed_part sample_world \<and> entries_ok w'"
proof -
  obtain w' where w': "props_get recording 0 3 sample_world = Some w'"
    by (auto simp: props_get_def props_impl_get_def impl_get_loop.simps sample_defs Let_def)
  have "props_runs recording log_event first_value (\<lambda>_. True) sample_world w'"
    by (rule props_runs.Step [OF props_runs.Start props_step.Get [OF w']])
  from props_invariant [OF this] w' show ?thesis by (simp add: entries_ok_def entry_ok_def sample_defs)
qed

text \<open>
  The messages a plugin sends about its properties are well nested, whatever it is asked:
  every object opened is closed, and none twice.
\<close>

theorem props_messages_balanced:
  assumes "props_runs recording log_event oget is_object w w'" and "balanced (pforge w)"
  shows "balanced (pforge w')"
  by (rule messages.runs_keep [OF assms])

theorem props_messages_balanced_witness:
  "\<exists>w'. props_get recording 0 3 sample_world = Some w' \<and> length (pforge w') = 5 \<and> balanced (pforge w')"
proof -
  obtain w' where w': "props_get recording 0 3 sample_world = Some w'" and "length (pforge w') = 5"
    by (auto simp: props_get_def props_impl_get_def impl_get_loop.simps sample_defs Let_def
        reply_defs forge_reply_recording optional_steps_def)
  moreover have "props_runs recording log_event first_value (\<lambda>_. True) sample_world w'"
    by (rule props_runs.Step [OF props_runs.Start props_step.Get [OF w']])
  from props_messages_balanced [OF this] have "balanced (pforge w')" by (simp add: sample_defs balanced_def)
  ultimately show ?thesis by blast
qed

section \<open>A set message\<close>

text \<open>The entry after its value and its stash have taken over \<open>n\<close> bytes.\<close>

definition updated :: "props_impl \<Rightarrow> nat \<Rightarrow> props_impl" where
  "updated p n = p\<lparr>value_size := of_nat n, p_stashing := False, stash_size := of_nat n, p_state := PROP_STATE_NONE\<rparr>"

definition set_reply :: "props_urid \<Rightarrow> u32 \<Rightarrow> props_impl \<Rightarrow> u32 \<Rightarrow> u8 list \<Rightarrow> fcall list" where
  "set_reply u frames p seq bs =
     (if d_hidden (p_def p) then []
      else map fstep_call (patch_set_head u frames p seq @ patch_set_rest u frames bs))"

definition ack_reply :: "props_urid \<Rightarrow> u32 \<Rightarrow> u32 \<Rightarrow> fcall list" where
  "ack_reply u frames seq =
     (if seq = 0 then []
      else [FFrameTime (ucast frames), FObject 0 (patch_ack u), FKey (patch_sequence u), FInt seq, FPop])"

lemma set_entry_stores:
  fixes w :: "fcall list world" and i :: nat
  defines "p \<equiv> impls (pp w) ! i"
  assumes "i < length (impls (pp w))" and "p_type p = t" and "p_state p = PROP_STATE_NONE"
    and "d_max_size (p_def p) = 0 \<or> length bs \<le> unat (d_max_size (p_def p))"
    and room: "entry_room (pmem w) p (length bs)" and "pref w"
  obtains m where "set_entry recording log_event frames seq i (Atom t (Bytes bs)) w =
      Some (put_impl i (updated p (length bs)) (w\<lparr>pmem := m,
        pforge := pforge w @ set_reply (urid (pp w)) frames (updated p (length bs)) seq bs,
        plog := plog w @ (if d_event_cb (p_def p) then [PEvent frames (p_property p)] else [])\<rparr>))"
    "mem_at m (value_body p) bs" "mem_at m (stash_body p) bs"
proof -
  let ?n = "of_nat (length bs) :: u32"
  have n: "unat ?n = length bs" using room by (simp add: entry_room_def unat_of_nat)
  obtain m where
    set: "props_impl_set i t ?n bs w = Some (put_impl i (updated p (length bs)) (w\<lparr>pmem := m\<rparr>))"
    and m: "mem_at m (value_body p) bs" "mem_at m (stash_body p) bs"
    using assms(2-6) unfolding p_def updated_def by (rule impl_set_stores)
  have v: "ld m (value_body (updated p (length bs))) (unat ?n) = Some bs"
    using ld_mem_at [OF m(1)] n by (simp add: updated_def)
  have "set_entry recording log_event frames seq i (Atom t (Bytes bs)) w =
      Some (put_impl i (updated p (length bs)) (w\<lparr>pmem := m,
        pforge := pforge w @ set_reply (urid (pp w)) frames (updated p (length bs)) seq bs,
        plog := plog w @ (if d_event_cb (p_def p) then [PEvent frames (p_property p)] else [])\<rparr>))"
    using set v assms(2,7)
    by (simp add: set_entry_def atom_size_def send_on_def Let_def props_patch_set_def forge_run_recording
        set_reply_def event_cb_def log_event_def updated_def put_impl_def)
  then show thesis using that m by blast
qed

lemma impl_get_at:
  assumes "by_property A" and "distinct (map p_property A)" and "i < length A"
  shows "props_impl_get A (p_property (A ! i)) = Ok (Some i)"
proof -
  have "A \<noteq> []" using assms(3) by auto
  from props_impl_get_finds [OF assms(1) this, of "p_property (A ! i)"] assms(2,3) show ?thesis
    by (auto split: result.splits option.splits simp: distinct_conv_nth in_set_conv_nth) (metis nth_mem image_eqI)
qed

text \<open>
  C12. A set message for a known property takes effect: value and stash of the entry have the
  bytes of the message, the new value is announced (unless the property is hidden), the
  plugin's callback is called once, and the request is acknowledged if it has a sequence number.
\<close>

theorem props_set_message:
  fixes w :: "fcall list world" and i :: nat
  defines "u \<equiv> urid (pp w)" and "p \<equiv> impls (pp w) ! i"
  assumes "sorted (map p_property (impls (pp w)))" and "distinct (map p_property (impls (pp w)))"
    and "i < length (impls (pp w))" and "p_state p = PROP_STATE_NONE"
    and "d_max_size (p_def p) = 0 \<or> length bs \<le> unat (d_max_size (p_def p))"
    and "entry_room (pmem w) p (length bs)" and "pref w"
    and "is_object t" and "patch_set u \<noteq> patch_get u"
    and "oget ps (patch_subject u) = None"
    and "oget ps (patch_property u) = Some a" and "atom_type a = atom_urid u" and "body_u32 a = Some (p_property p)"
    and "oget ps (patch_value u) = Some (Atom (p_type p) (Bytes bs))"
    and "sequence_number u (oget ps (patch_sequence u)) = Some seq"
  shows "\<exists>m. props_advance recording log_event oget is_object frames (Atom t (Object oid (patch_set u) ps)) w =
      Some (True, w\<lparr>pp := (pp w)\<lparr>impls := (impls (pp w))[i := updated p (length bs)]\<rparr>, pmem := m,
        pforge := pforge w @ set_reply u frames (updated p (length bs)) seq bs @ ack_reply u frames seq,
        plog := plog w @ (if d_event_cb (p_def p) then [PEvent frames (p_property p)] else [])\<rparr>) \<and>
    mem_at m (value_body p) bs \<and> mem_at m (stash_body p) bs"
proof -
  have get: "props_impl_get (impls (pp w)) (p_property p) = Ok (Some i)"
    using assms(3-5) unfolding p_def by (intro impl_get_at) (simp_all add: by_property_def)
  obtain m where
    set: "set_entry recording log_event frames seq i (Atom (p_type p) (Bytes bs)) w =
      Some (put_impl i (updated p (length bs)) (w\<lparr>pmem := m,
        pforge := pforge w @ set_reply (urid (pp w)) frames (updated p (length bs)) seq bs,
        plog := plog w @ (if d_event_cb (p_def p) then [PEvent frames (p_property p)] else [])\<rparr>))"
    and m: "mem_at m (value_body p) bs" "mem_at m (stash_body p) bs"
    using assms(5-9) unfolding p_def by (rule set_entry_stores [OF _ refl])
  have "props_advance recording log_event oget is_object frames (Atom t (Object oid (patch_set u) ps)) w =
      Some (True, w\<lparr>pp := (pp w)\<lparr>impls := (impls (pp w))[i := updated p (length bs)]\<rparr>, pmem := m,
        pforge := pforge w @ set_reply u frames (updated p (length bs)) seq bs @ ack_reply u frames seq,
        plog := plog w @ (if d_event_cb (p_def p) then [PEvent frames (p_property p)] else [])\<rparr>)"
    using assms(9-17) get set
    by (simp add: props_advance_def Let_def u_def [symmetric] advance_set_def other_subject_def
        reply_ack_def props_patch_ack_def forge_reply_recording ack_reply_def fstep_call_def put_impl_def)
  with m show ?thesis by blast
qed

theorem props_set_message_witness:
  "let ps = [Prop 110 (Atom 120 (Bytes (le32 3))), Prop 111 (Atom 1 (Bytes [7, 0, 0, 0])),
      Prop 113 (Atom 1 (Bytes (le32 9)))] in
   \<exists>m. props_advance recording log_event first_value (\<lambda>_. True) 0 (Atom 9 (Object 0 (patch_set (urid (pp sample_world))) ps)) sample_world =
      Some (True, sample_world\<lparr>pp := (pp sample_world)\<lparr>impls := (impls (pp sample_world))[0 := updated (impls (pp sample_world) ! 0) (length [7, 0, 0, 0 :: u8])]\<rparr>,
        pmem := m,
        pforge := pforge sample_world @ set_reply (urid (pp sample_world)) 0 (updated (impls (pp sample_world) ! 0) (length [7, 0, 0, 0 :: u8])) 9 [7, 0, 0, 0]
          @ ack_reply (urid (pp sample_world)) 0 9,
        plog := plog sample_world @ (if d_event_cb (p_def (impls (pp sample_world) ! 0)) then [PEvent 0 (p_property (impls (pp sample_world) ! 0))] else [])\<rparr>) \<and>
    mem_at m (value_body (impls (pp sample_world) ! 0)) [7, 0, 0, 0] \<and> mem_at m (stash_body (impls (pp sample_world) ! 0)) [7, 0, 0, 0]"
proof -
  have room: "entry_room (pmem sample_world) (impls (pp sample_world) ! 0) (length [7, 0, 0, 0 :: u8])"
    by (auto simp: entry_room_def apart_def sample_defs intro!: exI [of _ "[0, 0, 0, 0]"])
  show ?thesis
    unfolding Let_def
    by (rule props_set_message [where a = "Atom 120 (Bytes (le32 3))"])
      (use room in \<open>simp_all add: sample_defs first_value_def body_u32_def le32_def sequence_number_def\<close>)
qed

section \<open>The way of a stored value\<close>

definition stored_value :: "stored list \<Rightarrow> u32 \<Rightarrow> (u8 list \<times> u32) option" where
  "stored_value log k = map_option (\<lambda>r. (s_value r, s_type r)) (find (\<lambda>r. s_key r = k) log)"

text \<open>A loop over the table whose every round succeeds and keeps an invariant ends with it.\<close>

lemma each_index_total:
  assumes "J k w" and "k \<le> n" and "\<And>i v. k \<le> i \<Longrightarrow> i < n \<Longrightarrow> J i v \<Longrightarrow> \<exists>v'. f i v = Some v' \<and> J (Suc i) v'"
  shows "\<exists>w'. each_index [k..<n] f w = Some w' \<and> J n w'"
  using assms
proof (induction "n - k" arbitrary: k w)
  case (Suc d)
  then have kn: "k < n" by simp
  with Suc.prems obtain w1 where w1: "f k w = Some w1" "J (Suc k) w1" by blast
  have "\<exists>w'. each_index [Suc k..<n] f w1 = Some w' \<and> J n w'"
    by (rule Suc.hyps(1)) (use Suc kn w1 in auto)
  with w1 kn show ?case by (simp add: upt_conv_Cons)
qed simp

lemma map_upt_update: "k < n \<Longrightarrow> (\<And>i. i \<noteq> k \<Longrightarrow> f i = g i) \<Longrightarrow> (map f [0..<n])[k := g k] = map g [0..<n]"
  by (intro nth_equalityI) (auto simp: nth_list_update)

definition record_of :: "u32 \<Rightarrow> props_impl \<Rightarrow> u8 list \<Rightarrow> stored" where
  "record_of flags p bs = \<lparr>s_key = p_property p, s_value = bs, s_type = p_type p, s_flags = flags\<rparr>"

lemma save_stores_all:
  fixes s :: "'f saving" and val :: "nat \<Rightarrow> u8 list"
  assumes ps: "impls (pp (sw s)) = ps" and kept: "\<forall>i < length ps. kept i \<longleftrightarrow> p_access (ps ! i) \<noteq> patch_readable (urid (pp (sw s)))"
    and ok: "\<forall>i < length ps. kept i \<longrightarrow> p_type (ps ! i) \<noteq> atom_path (urid (pp (sw s))) \<and> stash_size (ps ! i) \<le> max_size (pp (sw s)) \<and>
      ld (pmem (sw s)) (stash_body (ps ! i)) (unat (stash_size (ps ! i))) = Some (val i)"
  shows "\<exists>s'. props_save features writable True flags undisturbed s = Some s' \<and>
    slog s' = slog s @ map (\<lambda>i. record_of (flags OR LV2_STATE_IS_POD) (ps ! i) (val i)) (filter kept [0..<length ps]) \<and>
    impls (pp (sw s')) = map (\<lambda>i. if kept i then (ps ! i)\<lparr>p_state := PROP_STATE_NONE\<rparr> else ps ! i) [0..<length ps]"
proof -
  let ?fl = "flags OR LV2_STATE_IS_POD" and ?n = "length ps"
  define tab where "tab k = map (\<lambda>i. if i < k \<and> kept i then (ps ! i)\<lparr>p_state := PROP_STATE_NONE\<rparr> else ps ! i) [0..<?n]" for k
  define J where "J k v \<longleftrightarrow> sw v = (sw s)\<lparr>pp := (pp (sw s))\<lparr>impls := tab k\<rparr>\<rparr> \<and>
      slog v = slog s @ map (\<lambda>i. record_of ?fl (ps ! i) (val i)) (filter kept [0..<k])" for k and v :: "'f saving"
  have "tab 0 = ps" by (simp add: tab_def map_nth)
  then have "J 0 s" by (simp add: J_def ps)
  moreover have "\<exists>v'. save_entry features writable ?fl (undisturbed i (impls (pp (sw v)) ! i)) i v = Some v' \<and> J (Suc i) v'"
    if i: "i < ?n" and J: "J i v" for i v
  proof -
    have at: "impls (pp (sw v)) ! i = ps ! i" "length (impls (pp (sw v))) = ?n" "urid (pp (sw v)) = urid (pp (sw s))"
      "pmem (sw v) = pmem (sw s)" "max_size (pp (sw v)) = max_size (pp (sw s))" using J i by (simp_all add: J_def tab_def)
    show ?thesis
    proof (cases "kept i")
      case True
      have "(tab i)[i := (ps ! i)\<lparr>p_state := PROP_STATE_NONE\<rparr>] = tab (Suc i)"
        using True i by (intro nth_equalityI) (auto simp: tab_def nth_list_update)
      moreover have "save_entry features writable ?fl (undisturbed i (impls (pp (sw v)) ! i)) i v =
          Some (v\<lparr>sw := put_impl i ((ps ! i)\<lparr>p_state := PROP_STATE_NONE\<rparr>) (sw v), slog := slog v @ [record_of ?fl (ps ! i) (val i)]\<rparr>)"
        using save_entry_undisturbed [of v i "val i" features writable ?fl i] True i ok at
        by (simp add: kept record_of_def)
      ultimately show ?thesis using J True by (simp add: J_def put_impl_def)
    next
      case False
      then have "tab (Suc i) = tab i" by (auto simp: tab_def less_Suc_eq)
      moreover have "save_entry features writable ?fl (undisturbed i (impls (pp (sw v)) ! i)) i v = Some v"
        using False at(1,3) kept i by (simp add: save_entry_def)
      ultimately show ?thesis using J False by (simp add: J_def)
    qed
  qed
  ultimately obtain s' where
    "each_index [0..<?n] (\<lambda>i v. save_entry features writable ?fl (undisturbed i (impls (pp (sw v)) ! i)) i v) s = Some s'" "J ?n s'"
    using each_index_total [of J 0 s ?n "\<lambda>i v. save_entry features writable ?fl (undisturbed i (impls (pp (sw v)) ! i)) i v"] by auto
  then show ?thesis
    by (intro exI [of _ s']) (auto simp: props_save_def indices_def ps J_def tab_def)
qed

text \<open>The record of an entry is found under its property.\<close>

lemma find_record:
  assumes "distinct (map p_property ps)" and "i < length ps" and "kept i"
  shows "stored_value (map (\<lambda>i. record_of fl (ps ! i) (val i)) (filter kept [0..<length ps])) (p_property (ps ! i)) = Some (val i, p_type (ps ! i))"
proof -
  have "find (\<lambda>r. s_key r = p_property (ps ! i)) (map (\<lambda>i. record_of fl (ps ! i) (val i)) is) = Some (record_of fl (ps ! i) (val i))"
    if "i \<in> set is" "set is \<subseteq> {..<length ps}" for "is"
    using that
  proof (induction "is")
    case (Cons j js)
    have "p_property (ps ! j) = p_property (ps ! i) \<longleftrightarrow> j = i"
      using assms(1,2) Cons.prems(2) by (simp add: distinct_conv_nth) metis
    with Cons show ?case by (auto simp: record_of_def)
  qed simp
  moreover have "set (filter kept [0..<length ps]) \<subseteq> {..<length ps}" by auto
  ultimately show ?thesis using assms(2,3) by (simp add: stored_value_def) (simp add: record_of_def)
qed

lemma put_stash_stores:
  fixes w :: "'f world" and k :: nat
  defines "q \<equiv> impls (pp w) ! k"
  assumes "k < length (impls (pp w))" and "entry_room (pmem w) q (length bs)"
  obtains m where "put_stash k bs (undisturbed k q) w =
      Some (put_impl k (q\<lparr>stash_size := of_nat (length bs), p_state := PROP_STATE_RESTORE\<rparr>) (w\<lparr>pmem := m\<rparr>))"
    "mem_at m (stash_body q) bs" "entry_room m q (length bs)" "st (pmem w) (stash_body q) bs = Some m"
proof -
  from assms(3) obtain xs ys where xs: "length xs = length bs" "mem_at (pmem w) (value_body q) xs"
    and ys: "length ys = length bs" "mem_at (pmem w) (stash_body q) ys" and
    r: "apart (value_body q) (stash_body q) (length bs)" "length bs < 2 ^ 32"
    by (auto simp: entry_room_def)
  from st_exists [OF ys(2), of bs] ys(1) r(2) obtain m where
    m: "st (pmem w) (stash_body q) bs = Some m" "mem_at m (stash_body q) bs" by auto
  have "mem_at m (value_body q) xs"
    by (rule apart_keeps [OF m(1) xs(2) r(1)]) (use xs(1) in auto)
  with m r xs(1) have room: "entry_room m q (length bs)" by (auto simp: entry_room_def)
  have "put_stash k bs (undisturbed k q) w =
      Some (put_impl k (q\<lparr>stash_size := of_nat (length bs), p_state := PROP_STATE_RESTORE\<rparr>) (w\<lparr>pmem := m\<rparr>))"
    using assms(2) m(1) unfolding put_stash_def q_def lock_undisturbed
    by (simp add: Let_def unlock_entry_def props_impl_unlock_def put_impl_def)
  with m room that show thesis by blast
qed

lemma impl_restore_delivers:
  fixes w :: "fcall list world" and k :: nat
  defines "q \<equiv> impls (pp w) ! k"
  assumes "k < length (impls (pp w))" and "p_state q = PROP_STATE_RESTORE" and "stash_size q = of_nat (length bs)"
    and "mem_at (pmem w) (stash_body q) bs" and room: "entry_room (pmem w) q (length bs)"
  obtains v where "props_impl_restore recording log_event frames k w = Some v"
    "mem_at (pmem v) (value_body q) bs" "impls (pp v) = (impls (pp w))[k := updated q (length bs)]"
    "plog v = plog w @ (if d_event_cb (p_def q) then [PEvent 0 (p_property q)] else [])"
    "st (pmem w) (value_body q) bs = Some (pmem v)" "stashing (pp v) = stashing (pp w)"
proof -
  from copy_back [OF room assms(5) refl] obtain m where
    m: "c_memcpy (pmem w) (value_body q) (stash_body q) (of_nat (length bs)) = Some m" "mem_at m (value_body q) bs" .
  have q: "updated q (length bs) = q\<lparr>p_stashing := False, value_size := of_nat (length bs), p_state := PROP_STATE_NONE\<rparr>"
    using assms(4) unfolding updated_def by (intro props_impl.equality) simp_all
  have n: "unat (of_nat (length bs) :: u32) = length bs" using room by (simp add: entry_room_def unat_of_nat)
  obtain f r where "props_impl_restore recording log_event frames k w =
      event_cb log_event 0 (updated q (length bs)) ((put_impl k (updated q (length bs)) (w\<lparr>pmem := m\<rparr>))\<lparr>pforge := f, pref := r\<rparr>)"
  proof (cases "pref w \<and> \<not> d_hidden (p_def q)")
    case True
    show thesis
      by (rule that [of True "pforge w @ map fstep_call (patch_set_head (urid (pp w)) frames (updated q (length bs)) 0 @
          patch_set_rest (urid (pp w)) frames bs)"])
        (use assms(2,3) m(1) ld_mem_at [OF m(2)] n True in \<open>simp add: q props_impl_restore_def props_impl_try_lock_def
          cas_def assms(4) props_impl_unlock_def Let_def send_on_def q_def [symmetric] props_patch_set_def
          forge_run_recording put_impl_def\<close>)
  next
    case False
    show thesis
      by (rule that [of "pref w" "pforge w"])
        (use assms(2,3) m(1) False in \<open>auto simp: q props_impl_restore_def props_impl_try_lock_def
          cas_def assms(4) props_impl_unlock_def Let_def send_on_def q_def [symmetric] put_impl_def\<close>)
  qed
  then have run: "props_impl_restore recording log_event frames k w =
      Some ((put_impl k (updated q (length bs)) (w\<lparr>pmem := m\<rparr>))\<lparr>pforge := f, pref := r,
        plog := plog w @ (if d_event_cb (p_def q) then [PEvent 0 (p_property q)] else [])\<rparr>)"
    by (auto simp: event_cb_def log_event_def put_impl_def updated_def)
  have "st (pmem w) (value_body q) bs = Some m" using m(1) ld_mem_at [OF assms(5)] n by (simp add: c_memcpy_def)
  with m(2) show thesis by (intro that [OF run]) (simp_all add: put_impl_def)
qed

text \<open>
  The memory of a table for some values: every entry that is kept has room for its value, and what one
  entry uses does not overlap what another uses.
\<close>

definition table_room :: "mem \<Rightarrow> props_impl list \<Rightarrow> (nat \<Rightarrow> bool) \<Rightarrow> (nat \<Rightarrow> u8 list) \<Rightarrow> bool" where
  "table_room m qs kept val \<longleftrightarrow> (\<forall>i < length qs. kept i \<longrightarrow> entry_room m (qs ! i) (length (val i)) \<and>
     (\<forall>j < length qs. kept j \<longrightarrow> j \<noteq> i \<longrightarrow>
        clear_of (stash_body (qs ! i)) (length (val i)) (stash_body (qs ! j)) (length (val j)) \<and>
        clear_of (stash_body (qs ! i)) (length (val i)) (value_body (qs ! j)) (length (val j)) \<and>
        clear_of (value_body (qs ! i)) (length (val i)) (value_body (qs ! j)) (length (val j))))"

lemma st_keeps_table: "st m b bs = Some m' \<Longrightarrow> table_room m qs kept val \<Longrightarrow> table_room m' qs kept val"
  unfolding table_room_def by (blast intro: st_keeps_room)

text \<open>An entry that waits for the next idle call\<close>

definition pending :: "props_impl \<Rightarrow> nat \<Rightarrow> props_impl" where
  "pending q n = q\<lparr>stash_size := of_nat n, p_state := PROP_STATE_RESTORE\<rparr>"

lemma updated_pending [simp]: "updated (pending q n) n = updated q n"
  unfolding updated_def pending_def by (intro props_impl.equality) simp_all

lemma pending_simps [simp]: "value_body (pending q n) = value_body q" "stash_body (pending q n) = stash_body q"
  "p_def (pending q n) = p_def q" "p_property (pending q n) = p_property q" "entry_room m (pending q n) k = entry_room m q k"
  by (simp_all add: pending_def entry_room_def)

lemma restore_stores_all:
  fixes w :: "'f world" and val :: "nat \<Rightarrow> u8 list"
  assumes qs: "impls (pp w) = qs" and kept: "\<forall>i < length qs. kept i \<longleftrightarrow> p_access (qs ! i) \<noteq> patch_readable (urid (pp w))"
    and ok: "\<forall>i < length qs. kept i \<longrightarrow> retrieve (p_property (qs ! i)) = Some (val i, p_type (qs ! i)) \<and>
      p_type (qs ! i) \<noteq> atom_path (urid (pp w)) \<and> (d_max_size (p_def (qs ! i)) = 0 \<or> length (val i) \<le> unat (d_max_size (p_def (qs ! i))))"
    and room: "table_room (pmem w) qs kept val"
  shows "\<exists>m. props_restore features retrieve undisturbed w = Some (w\<lparr>pp := (pp w)\<lparr>restoring := True,
      impls := map (\<lambda>i. if kept i then pending (qs ! i) (length (val i)) else qs ! i) [0..<length qs]\<rparr>, pmem := m\<rparr>) \<and>
    table_room m qs kept val \<and> (\<forall>i < length qs. kept i \<longrightarrow> mem_at m (stash_body (qs ! i)) (val i))"
proof -
  let ?n = "length qs"
  define tab where "tab k = map (\<lambda>i. if i < k \<and> kept i then pending (qs ! i) (length (val i)) else qs ! i) [0..<?n]" for k
  define J where "J k v \<longleftrightarrow> (\<exists>m. v = w\<lparr>pp := (pp w)\<lparr>impls := tab k\<rparr>, pmem := m\<rparr> \<and> table_room m qs kept val \<and>
      (\<forall>i < k. kept i \<longrightarrow> mem_at m (stash_body (qs ! i)) (val i)))" for k and v :: "'f world"
  have "tab 0 = qs" by (simp add: tab_def map_nth)
  then have "J 0 w" using room by (auto simp: J_def qs intro!: exI [of _ "pmem w"])
  moreover have "\<exists>v'. restore_entry features retrieve (undisturbed i (impls (pp v) ! i)) i v = Some v' \<and> J (Suc i) v'"
    if i: "i < ?n" and J: "J i v" for i v
  proof -
    from J obtain m where v: "v = w\<lparr>pp := (pp w)\<lparr>impls := tab i\<rparr>, pmem := m\<rparr>" and m: "table_room m qs kept val"
      and old: "\<forall>j < i. kept j \<longrightarrow> mem_at m (stash_body (qs ! j)) (val j)" by (auto simp: J_def)
    have at: "impls (pp v) ! i = qs ! i" "i < length (impls (pp v))" "urid (pp v) = urid (pp w)" using i by (simp_all add: v tab_def)
    show ?thesis
    proof (cases "kept i")
      case True
      have "entry_room (pmem v) (impls (pp v) ! i) (length (val i))" using m True i at(1) by (simp add: v table_room_def)
      from at(2) this [unfolded at(1)] obtain m' where
        "put_stash i (val i) (undisturbed i (qs ! i)) v =
          Some (put_impl i ((qs ! i)\<lparr>stash_size := of_nat (length (val i)), p_state := PROP_STATE_RESTORE\<rparr>) (v\<lparr>pmem := m'\<rparr>))"
        "mem_at m' (stash_body (qs ! i)) (val i)" "entry_room m' (qs ! i) (length (val i))" "st (pmem v) (stash_body (qs ! i)) (val i) = Some m'"
        by (rule put_stash_stores [of i v, unfolded at(1)])
      then have put: "put_stash i (val i) (undisturbed i (impls (pp v) ! i)) v =
          Some (put_impl i (pending (qs ! i) (length (val i))) (v\<lparr>pmem := m'\<rparr>))"
        and m': "mem_at m' (stash_body (qs ! i)) (val i)" "st m (stash_body (qs ! i)) (val i) = Some m'"
        by (simp_all add: at(1) pending_def) (simp add: v)
      have "mem_at m' (stash_body (qs ! j)) (val j)" if "j < i" "kept j" for j
        using clear_keeps [OF m'(2), of "stash_body (qs ! j)" "val j"] old m that i True by (simp add: table_room_def)
      then have "\<forall>j < Suc i. kept j \<longrightarrow> mem_at m' (stash_body (qs ! j)) (val j)" using m'(1) by (simp add: less_Suc_eq)
      moreover have "(tab i)[i := pending (qs ! i) (length (val i))] = tab (Suc i)"
        using True i by (intro nth_equalityI) (auto simp: tab_def nth_list_update)
      moreover have "restore_entry features retrieve (undisturbed i (impls (pp v) ! i)) i v =
          put_stash i (val i) (undisturbed i (impls (pp v) ! i)) v"
        using ok True i at by (auto simp: restore_entry_def Let_def kept split: option.splits)
      ultimately show ?thesis using put st_keeps_table [OF m'(2) m]
        by (auto simp: J_def v put_impl_def intro!: exI [of _ m'])
    next
      case False
      then have "tab (Suc i) = tab i" by (auto simp: tab_def less_Suc_eq)
      moreover have "restore_entry features retrieve (undisturbed i (impls (pp v) ! i)) i v = Some v"
        using False at(1,3) kept i by (simp add: restore_entry_def)
      ultimately show ?thesis using J False by (auto simp: J_def less_Suc_eq)
    qed
  qed
  ultimately obtain v where
    "each_index [0..<?n] (\<lambda>i v. restore_entry features retrieve (undisturbed i (impls (pp v) ! i)) i v) w = Some v" "J ?n v"
    using each_index_total [of J 0 w ?n "\<lambda>i v. restore_entry features retrieve (undisturbed i (impls (pp v) ! i)) i v"] by auto
  moreover from this(2) obtain m where "v = w\<lparr>pp := (pp w)\<lparr>impls := tab ?n\<rparr>, pmem := m\<rparr>" "table_room m qs kept val"
    "\<forall>i < ?n. kept i \<longrightarrow> mem_at m (stash_body (qs ! i)) (val i)" by (auto simp: J_def)
  moreover have "tab ?n = map (\<lambda>i. if kept i then pending (qs ! i) (length (val i)) else qs ! i) [0..<?n]"
    by (intro nth_equalityI) (simp_all add: tab_def)
  ultimately show ?thesis
    by (intro exI [of _ m]) (simp add: props_restore_def indices_def qs props_restoring_set_def)
qed

definition delivery :: "props_impl \<Rightarrow> pcall list" where
  "delivery q = (if d_event_cb (p_def q) then [PEvent 0 (p_property q)] else [])"

lemma idle_delivers_all:
  fixes w :: "fcall list world" and val :: "nat \<Rightarrow> u8 list"
  assumes flags: "restoring (pp w)" "\<not> stashing (pp w)"
    and tab_is: "impls (pp w) = map (\<lambda>i. if kept i then pending (qs ! i) (length (val i)) else qs ! i) [0..<length qs]"
    and room: "table_room (pmem w) qs kept val" and stash: "\<forall>i < length qs. kept i \<longrightarrow> mem_at (pmem w) (stash_body (qs ! i)) (val i)"
    and rest: "\<forall>i < length qs. \<not> kept i \<longrightarrow> p_state (qs ! i) \<noteq> PROP_STATE_RESTORE"
  shows "\<exists>w2. props_idle recording log_event frames w = Some w2 \<and>
    impls (pp w2) = map (\<lambda>i. if kept i then updated (qs ! i) (length (val i)) else qs ! i) [0..<length qs] \<and>
    (\<forall>i < length qs. kept i \<longrightarrow> mem_at (pmem w2) (value_body (qs ! i)) (val i)) \<and>
    plog w2 = plog w @ concat (map (\<lambda>i. delivery (qs ! i)) (filter kept [0..<length qs]))"
proof -
  let ?n = "length qs" and ?w = "w\<lparr>pp := (pp w)\<lparr>restoring := False\<rparr>\<rparr>"
  define tab where "tab k = map (\<lambda>i. if kept i then (if i < k then updated (qs ! i) (length (val i)) else pending (qs ! i) (length (val i)))
      else qs ! i) [0..<?n]" for k
  define J where "J k v \<longleftrightarrow> impls (pp v) = tab k \<and> \<not> stashing (pp v) \<and> table_room (pmem v) qs kept val \<and>
      (\<forall>i < ?n. kept i \<longrightarrow> (if i < k then mem_at (pmem v) (value_body (qs ! i)) (val i) else mem_at (pmem v) (stash_body (qs ! i)) (val i))) \<and>
      plog v = plog w @ concat (map (\<lambda>i. delivery (qs ! i)) (filter kept [0..<k]))" for k and v :: "fcall list world"
  have "J 0 ?w" using flags room stash by (simp add: J_def tab_def tab_is)
  moreover have "\<exists>v'. props_impl_restore recording log_event frames i v = Some v' \<and> J (Suc i) v'" if i: "i < ?n" and J: "J i v" for i v
  proof (cases "kept i")
    case True
    have at: "impls (pp v) ! i = pending (qs ! i) (length (val i))" "i < length (impls (pp v))"
      using J i True by (simp_all add: J_def tab_def)
    have "p_state (impls (pp v) ! i) = PROP_STATE_RESTORE" "stash_size (impls (pp v) ! i) = of_nat (length (val i))"
      "mem_at (pmem v) (stash_body (impls (pp v) ! i)) (val i)" "entry_room (pmem v) (impls (pp v) ! i) (length (val i))"
      using J i True unfolding at(1) by (auto simp: J_def pending_def entry_room_def table_room_def)
    from at(2) this [unfolded at(1)] obtain v' where
      "props_impl_restore recording log_event frames i v = Some v'" "mem_at (pmem v') (value_body (pending (qs ! i) (length (val i)))) (val i)"
      "impls (pp v') = (impls (pp v))[i := updated (pending (qs ! i) (length (val i))) (length (val i))]"
      "plog v' = plog v @ (if d_event_cb (p_def (pending (qs ! i) (length (val i))))
        then [PEvent 0 (p_property (pending (qs ! i) (length (val i))))] else [])"
      "st (pmem v) (value_body (pending (qs ! i) (length (val i)))) (val i) = Some (pmem v')" "stashing (pp v') = stashing (pp v)"
      by (rule impl_restore_delivers [of i v, unfolded at(1)])
    note v' = this [unfolded updated_pending pending_simps, folded delivery_def]
    have "mem_at (pmem v') (value_body (qs ! j)) (val j)" if "j < i" "kept j" for j
      using clear_keeps [OF v'(5), of "value_body (qs ! j)" "val j"] J that i True by (auto simp: J_def table_room_def)
    moreover have "mem_at (pmem v') (stash_body (qs ! j)) (val j)" if "i < j" "j < ?n" "kept j" for j
      using clear_keeps [OF v'(5), of "stash_body (qs ! j)" "val j"] J that i True by (auto simp: J_def table_room_def)
    moreover have "(tab i)[i := updated (qs ! i) (length (val i))] = tab (Suc i)"
      using True i by (intro nth_equalityI) (auto simp: tab_def nth_list_update)
    moreover have "table_room (pmem v') qs kept val" using J by (intro st_keeps_table [OF v'(5)]) (simp add: J_def)
    ultimately show ?thesis using v' J True by (auto simp: J_def less_Suc_eq not_less_eq_eq le_less)
  next
    case False
    then have "tab (Suc i) = tab i" by (auto simp: tab_def less_Suc_eq)
    moreover have "props_impl_restore recording log_event frames i v = Some v"
      using J i False rest by (intro impl_restore_unless) (simp add: J_def tab_def)
    ultimately show ?thesis using J False by (auto simp: J_def less_Suc_eq)
  qed
  ultimately obtain w2 where "each_index [0..<?n] (props_impl_restore recording log_event frames) ?w = Some w2" "J ?n w2"
    using each_index_total [of J 0 ?w ?n "props_impl_restore recording log_event frames"] by auto
  then show ?thesis using flags(1)
    by (intro exI [of _ w2]) (auto simp: props_idle_def props_restoring_get_def indices_def tab_is J_def tab_def cong: map_cong)
qed

text \<open>
  C14. State round trip: what a save of one instance stores, restored into another instance of the same
  plugin, is delivered by its next idle call: every property that is not read-only has the bytes it had
  in the stash of the first again, value and stash agree in size, the callback is called once for each, in
  the order of the table, and no lock is left taken on either side; read-only properties stay as they were.
  The other threads are at rest meanwhile (\<open>undisturbed\<close>).
\<close>

theorem props_state_roundtrip:
  fixes s :: "'f saving" and w :: "fcall list world" and val :: "nat \<Rightarrow> u8 list"
  defines "ps \<equiv> impls (pp (sw s))" and "qs \<equiv> impls (pp w)" and "u \<equiv> urid (pp w)"
    and "kept \<equiv> (\<lambda>i. p_access (impls (pp w) ! i) \<noteq> patch_readable (urid (pp w)))"
  assumes same: "urid (pp (sw s)) = u" "map (\<lambda>p. (p_property p, p_type p, p_access p)) ps = map (\<lambda>p. (p_property p, p_type p, p_access p)) qs"
    and "distinct (map p_property ps)" and "slog s = []"
    and saved: "\<forall>i < length ps. kept i \<longrightarrow> p_type (ps ! i) \<noteq> atom_path u \<and> stash_size (ps ! i) \<le> max_size (pp (sw s)) \<and>
      ld (pmem (sw s)) (stash_body (ps ! i)) (unat (stash_size (ps ! i))) = Some (val i)"
    and fits: "\<forall>i < length qs. kept i \<longrightarrow> d_max_size (p_def (qs ! i)) = 0 \<or> length (val i) \<le> unat (d_max_size (p_def (qs ! i)))"
    and rest: "\<forall>i < length qs. \<not> kept i \<longrightarrow> p_state (qs ! i) \<noteq> PROP_STATE_RESTORE"
    and room: "table_room (pmem w) qs kept val" and "\<not> stashing (pp w)"
  shows "\<exists>s' w1 w2. props_save features writable True flags undisturbed s = Some s' \<and>
    props_restore features' (stored_value (slog s')) undisturbed w = Some w1 \<and>
    props_idle recording log_event frames w1 = Some w2 \<and>
    impls (pp (sw s')) = map (\<lambda>i. if kept i then (ps ! i)\<lparr>p_state := PROP_STATE_NONE\<rparr> else ps ! i) [0..<length ps] \<and>
    impls (pp w2) = map (\<lambda>i. if kept i then updated (qs ! i) (length (val i)) else qs ! i) [0..<length qs] \<and>
    (\<forall>i < length qs. kept i \<longrightarrow> mem_at (pmem w2) (value_body (qs ! i)) (val i)) \<and>
    plog w2 = plog w @ concat (map (\<lambda>i. delivery (qs ! i)) (filter kept [0..<length qs]))"
proof -
  have len: "length ps = length qs" by (rule map_eq_imp_length_eq [OF same(2)])
  have eq: "p_property (ps ! i) = p_property (qs ! i) \<and> p_type (ps ! i) = p_type (qs ! i) \<and> p_access (ps ! i) = p_access (qs ! i)"
    if "i < length qs" for i using arg_cong [OF same(2), of "\<lambda>xs. xs ! i"] that len by simp
  have kept: "\<forall>i < length ps. kept i \<longleftrightarrow> p_access (ps ! i) \<noteq> patch_readable (urid (pp (sw s)))"
    "\<forall>i < length qs. kept i \<longleftrightarrow> p_access (qs ! i) \<noteq> patch_readable (urid (pp w))"
    using eq len same(1) by (simp_all add: kept_def qs_def u_def)
  obtain s' where save: "props_save features writable True flags undisturbed s = Some s'"
    "slog s' = map (\<lambda>i. record_of (flags OR LV2_STATE_IS_POD) (ps ! i) (val i)) (filter kept [0..<length ps])"
    "impls (pp (sw s')) = map (\<lambda>i. if kept i then (ps ! i)\<lparr>p_state := PROP_STATE_NONE\<rparr> else ps ! i) [0..<length ps]"
    using save_stores_all [OF ps_def [symmetric, THEN meta_eq_to_obj_eq] kept(1), of val features writable flags] saved assms(8) same(1) by auto
  have "stored_value (slog s') (p_property (qs ! i)) = Some (val i, p_type (qs ! i))" if "i < length qs" "kept i" for i
    using find_record [of ps i kept] assms(7) that eq [OF that(1)] len by (simp add: save(2))
  then obtain m where restore: "props_restore features' (stored_value (slog s')) undisturbed w = Some (w\<lparr>pp := (pp w)\<lparr>restoring := True,
      impls := map (\<lambda>i. if kept i then pending (qs ! i) (length (val i)) else qs ! i) [0..<length qs]\<rparr>, pmem := m\<rparr>)"
    and m: "table_room m qs kept val" "\<forall>i < length qs. kept i \<longrightarrow> mem_at m (stash_body (qs ! i)) (val i)"
    using restore_stores_all [OF qs_def [symmetric, THEN meta_eq_to_obj_eq] kept(2) _ room, of "stored_value (slog s')" features'] saved fits eq len
    by (auto simp: u_def)
  obtain w2 where "props_idle recording log_event frames (w\<lparr>pp := (pp w)\<lparr>restoring := True,
      impls := map (\<lambda>i. if kept i then pending (qs ! i) (length (val i)) else qs ! i) [0..<length qs]\<rparr>, pmem := m\<rparr>) = Some w2"
    "impls (pp w2) = map (\<lambda>i. if kept i then updated (qs ! i) (length (val i)) else qs ! i) [0..<length qs]"
    "\<forall>i < length qs. kept i \<longrightarrow> mem_at (pmem w2) (value_body (qs ! i)) (val i)"
    "plog w2 = plog w @ concat (map (\<lambda>i. delivery (qs ! i)) (filter kept [0..<length qs]))"
    using idle_delivers_all [of "w\<lparr>pp := (pp w)\<lparr>restoring := True,
      impls := map (\<lambda>i. if kept i then pending (qs ! i) (length (val i)) else qs ! i) [0..<length qs]\<rparr>, pmem := m\<rparr>" kept qs val frames] m rest assms(13)
    by auto
  with save(1,3) restore show ?thesis by blast
qed

text \<open>Two instances with two properties each; the bytes in memory are the last ones of their addresses, or all 7.\<close>

definition sample_table :: "props_impl list" where
  "sample_table = [sample_impl 3, (sample_impl 5)\<lparr>value_body := 4104, stash_body := 8200\<rparr>]"

definition sample_donor :: "fcall list saving" where
  "sample_donor = \<lparr>sw = sample_world\<lparr>pp := (pp sample_world)\<lparr>impls := sample_table\<rparr>, pmem := (\<lambda>a. Some (ucast a))\<rparr>, sfiles = (\<lambda>_. None), slog = []\<rparr>"

definition sample_instance :: "fcall list world" where
  "sample_instance = sample_world\<lparr>pp := (pp sample_world)\<lparr>restoring := False, impls := sample_table\<rparr>, pmem := (\<lambda>_. Some 7)\<rparr>"

theorem props_state_roundtrip_witness:
  "\<exists>s' w1 w2. props_save [] (\<lambda>_. True) True 0 undisturbed sample_donor = Some s' \<and>
    props_restore [] (stored_value (slog s')) undisturbed sample_instance = Some w1 \<and> props_idle recording log_event 0 w1 = Some w2 \<and>
    \<not> restoring (pp sample_instance) \<and> mem_at (pmem sample_instance) 4096 [7, 7, 7, 7] \<and>
    mem_at (pmem w2) 4096 [0, 1, 2, 3] \<and> mem_at (pmem w2) 4104 [8, 9, 10, 11] \<and> plog w2 = [PEvent 0 3, PEvent 0 5]"
proof -
  define val :: "nat \<Rightarrow> u8 list" where "val i = (if i = 0 then [0, 1, 2, 3] else [8, 9, 10, 11])" for i
  have tab: "impls (pp sample_instance) = sample_table" "impls (pp (sw sample_donor)) = sample_table" "length sample_table = 2"
    "urid (pp sample_instance) = sample_urid" "urid (pp (sw sample_donor)) = sample_urid" "pmem sample_instance = (\<lambda>_. Some 7)"
    "max_size (pp (sw sample_donor)) = 8" "pmem (sw sample_donor) = (\<lambda>a. Some (ucast a))" "plog sample_instance = []"
    by (simp_all add: sample_instance_def sample_donor_def sample_world_def sample_table_def)
  have entries: "sample_table ! 0 = sample_impl 3" "sample_table ! Suc 0 = (sample_impl 5)\<lparr>value_body := 4104, stash_body := 8200\<rparr>"
    by (simp_all add: sample_table_def)
  have upt: "[0..<2] = [0, Suc 0]" by (simp add: upt_rec)
  have ld: "ld (\<lambda>a. Some (ucast a)) 8192 4 = Some [0, 1, 2, 3 :: u8]" "ld (\<lambda>a. Some (ucast a)) 8200 4 = Some [8, 9, 10, 11 :: u8]"
    by (simp_all add: ld_iff_mem_at)
  have area: "\<exists>xs :: u8 list. length xs = n \<and> mem_at (\<lambda>_. Some 7) a xs" for n a
    unfolding area_mapped by simp
  have two: "(\<forall>i < 2. P i) \<longleftrightarrow> P 0 \<and> P (Suc 0)" for P by (auto simp: numeral_2_eq_2 less_Suc_eq)
  have room: "table_room (\<lambda>_. Some 7) sample_table (\<lambda>i. p_access (sample_table ! i) \<noteq> patch_readable sample_urid) val"
    using area by (simp add: table_room_def tab(3) two entries val_def entry_room_def apart_def clear_of_def sample_impl_def)
  have "\<exists>s' w1 w2. props_save [] (\<lambda>_. True) True 0 undisturbed sample_donor = Some s' \<and>
    props_restore [] (stored_value (slog s')) undisturbed sample_instance = Some w1 \<and> props_idle recording log_event 0 w1 = Some w2 \<and>
    impls (pp (sw s')) = map (\<lambda>i. if p_access (impls (pp sample_instance) ! i) \<noteq> patch_readable (urid (pp sample_instance))
      then (impls (pp (sw sample_donor)) ! i)\<lparr>p_state := PROP_STATE_NONE\<rparr> else impls (pp (sw sample_donor)) ! i) [0..<length (impls (pp (sw sample_donor)))] \<and>
    impls (pp w2) = map (\<lambda>i. if p_access (impls (pp sample_instance) ! i) \<noteq> patch_readable (urid (pp sample_instance))
      then updated (impls (pp sample_instance) ! i) (length (val i)) else impls (pp sample_instance) ! i) [0..<length (impls (pp sample_instance))] \<and>
    (\<forall>i < length (impls (pp sample_instance)). p_access (impls (pp sample_instance) ! i) \<noteq> patch_readable (urid (pp sample_instance)) \<longrightarrow>
      mem_at (pmem w2) (value_body (impls (pp sample_instance) ! i)) (val i)) \<and>
    plog w2 = plog sample_instance @ concat (map (\<lambda>i. delivery (impls (pp sample_instance) ! i))
      (filter (\<lambda>i. p_access (impls (pp sample_instance) ! i) \<noteq> patch_readable (urid (pp sample_instance))) [0..<length (impls (pp sample_instance))]))"
  proof (rule props_state_roundtrip)
    show "table_room (pmem sample_instance) (impls (pp sample_instance))
        (\<lambda>i. p_access (impls (pp sample_instance) ! i) \<noteq> patch_readable (urid (pp sample_instance))) val"
      using room by (simp only: tab)
  qed (simp_all add: tab two entries val_def, simp_all add: sample_table_def sample_impl_def sample_donor_def sample_instance_def
    sample_world_def sample_def_def sample_urid_def ld)
  then show ?thesis
    unfolding tab two upt by (simp add: entries val_def sample_impl_def sample_urid_def delivery_def sample_def_def)
      (auto simp: sample_instance_def sample_world_def)
qed

section \<open>Initialisation\<close>

definition entry_of :: "(lv2_uri \<Rightarrow> u32) \<Rightarrow> addr \<Rightarrow> addr \<Rightarrow> props_def \<Rightarrow> props_impl \<Rightarrow> bool" where
  "entry_of umap vb sb d q \<longleftrightarrow> d_property d \<noteq> None \<and> p_def q = d \<and>
     p_property q = umap (Custom (the (d_property d))) \<and> p_property q \<noteq> 0 \<and>
     value_body q = vb + d_offset d \<and> stash_body q = sb + d_offset d \<and> p_state q = PROP_STATE_NONE"

lemma impl_init_entry:
  "props_impl_init umap vb sb d impl p = (True, q, p') \<Longrightarrow>
   entry_of umap vb sb d q \<and> max_size p \<le> max_size p' \<and> d_max_size d \<le> max_size p'"
  by (auto simp: props_impl_init_def entry_of_def Let_def split: option.splits if_splits)

lemma init_loop_False: "fst (init_loop umap vb sb False defs is p) = False"
proof (induction defs arbitrary: "is")
  case Nil
  then show ?case by simp
next
  case (Cons d defs)
  then show ?case by (cases "is") (auto split: prod.splits simp: prod_eq_iff)
qed

lemma init_loop_entries:
  "init_loop umap vb sb True defs is p = (True, qs, p') \<Longrightarrow> length is = length defs \<Longrightarrow>
   list_all2 (entry_of umap vb sb) defs qs \<and> max_size p \<le> max_size p' \<and> (\<forall>d \<in> set defs. d_max_size d \<le> max_size p')"
proof (induction defs arbitrary: "is" qs p)
  case Nil
  then show ?case by simp
next
  case (Cons d defs)
  then obtain q0 rest where i: "is = q0 # rest" by (cases "is") auto
  obtain ok q p1 where e: "props_impl_init umap vb sb d q0 p = (ok, q, p1)" by (cases "props_impl_init umap vb sb d q0 p")
  have ok: ok
    using Cons.prems(1) init_loop_False [of umap vb sb defs rest p1] i e by (cases ok) (auto split: prod.splits)
  with Cons.prems(1) i e obtain qs' where "qs = q # qs'" "init_loop umap vb sb True defs rest p1 = (True, qs', p')"
    by (auto split: prod.splits)
  with Cons.IH [of rest p1 qs'] Cons.prems(2) i impl_init_entry e ok show ?case
    by (fastforce intro: order_trans)
qed

text \<open>
  After a successful initialisation with definitions that map to different properties, every
  definition has its entry: the lookup finds it under its property, it is free, its value and
  stash lie at the definition's offset, its name is what unmapping gives back, and the
  temporary buffer of a save will be wide enough for it.
\<close>

theorem props_init_table:
  assumes "props_init umap subj defs vb sb p = Some (True, p')" and "length (impls p) = length defs"
    and "distinct (map (\<lambda>d. umap (Custom (the (d_property d)))) defs)" and "d \<in> set defs"
  shows "\<exists>i < length (impls p'). props_impl_get (impls p') (umap (Custom (the (d_property d)))) = Ok (Some i) \<and>
    p_def (impls p' ! i) = d \<and> value_body (impls p' ! i) = vb + d_offset d \<and>
    stash_body (impls p' ! i) = sb + d_offset d \<and> p_state (impls p' ! i) = PROP_STATE_NONE \<and>
    props_unmap (impls p') (umap (Custom (the (d_property d)))) = Ok (d_property d) \<and>
    d_max_size d \<le> max_size p'"
proof -
  from assms(1) obtain qs p2 table where
    loop: "init_loop umap vb sb True defs (impls p) (p\<lparr>urid := map_urids umap subj, restoring := False\<rparr>) = (True, qs, p2)"
    and sort: "props_qsort qs = Some table" and p': "p' = p2\<lparr>impls := table\<rparr>"
    by (auto simp: props_init_def Let_def split: prod.splits option.splits)
  from init_loop_entries [OF loop] assms(2) have
    entries: "list_all2 (entry_of umap vb sb) defs qs" and mx: "\<forall>d \<in> set defs. d_max_size d \<le> max_size p2"
    by auto
  from props_qsort_sorts [of qs] sort have ms: "mset table = mset qs" and so: "by_property table" by auto
  have "map p_property qs = map (\<lambda>d. umap (Custom (the (d_property d)))) defs"
    using entries by (induction rule: list_all2_induct) (auto simp: entry_of_def)
  with assms(3) have "distinct (map p_property qs)" by simp
  then have di: "distinct (map p_property table)" using ms by (metis mset_map mset_eq_imp_distinct_iff)
  from entries assms(4) obtain q where "q \<in> set qs" and q: "entry_of umap vb sb d q"
    by (induction rule: list_all2_induct) auto
  with ms obtain i where i: "i < length table" "table ! i = q"
    by (metis in_set_conv_nth mset_eq_setD)
  from impl_get_at [OF so di i(1)] i q have
    "props_impl_get table (umap (Custom (the (d_property d)))) = Ok (Some i)" by (simp add: entry_of_def)
  with i q mx assms(4) p' show ?thesis
    by (intro exI [of _ i]) (auto simp: entry_of_def props_unmap_def)
qed

lemma props_init_total:
  "\<exists>p'. props_init umap subj defs vb sb p =
     Some (fst (init_loop umap vb sb True defs (impls p) (p\<lparr>urid := map_urids umap subj, restoring := False\<rparr>)), p')"
proof (cases "init_loop umap vb sb True defs (impls p) (p\<lparr>urid := map_urids umap subj, restoring := False\<rparr>)")
  case (fields ok qs p2)
  obtain table where "props_qsort qs = Some table" using props_qsort_sorts [of qs] by blast
  with fields show ?thesis by (simp add: props_init_def Let_def)
qed

definition sample_map :: "lv2_uri \<Rightarrow> u32" where
  "sample_map u = (case u of Custom bs \<Rightarrow> 1000 + sum_list (map ucast bs) | ATOM_Int \<Rightarrow> 1 | _ \<Rightarrow> 2)"

theorem props_init_table_witness:
  "\<exists>p'. props_init sample_map None [sample_def\<lparr>d_property := Some [70]\<rparr>, sample_def] 4096 8192 (pp sample_world) = Some (True, p') \<and>
   (\<exists>i < length (impls p'). props_impl_get (impls p') (sample_map (Custom (the (d_property sample_def)))) = Ok (Some i) \<and>
    p_def (impls p' ! i) = sample_def \<and> value_body (impls p' ! i) = 4096 + d_offset sample_def \<and>
    stash_body (impls p' ! i) = 8192 + d_offset sample_def \<and> p_state (impls p' ! i) = PROP_STATE_NONE \<and>
    props_unmap (impls p') (sample_map (Custom (the (d_property sample_def)))) = Ok (d_property sample_def) \<and>
    d_max_size sample_def \<le> max_size p')"
proof -
  let ?defs = "[sample_def\<lparr>d_property := Some [70]\<rparr>, sample_def]"
  have "fst (init_loop sample_map 4096 8192 True ?defs (impls (pp sample_world))
      ((pp sample_world)\<lparr>urid := map_urids sample_map None, restoring := False\<rparr>))"
    by (simp add: sample_defs props_impl_init_def sample_map_def Let_def)
  then obtain p' where p': "props_init sample_map None ?defs 4096 8192 (pp sample_world) = Some (True, p')"
    using props_init_total [of sample_map None ?defs 4096 8192 "pp sample_world"] by auto
  from props_init_table [OF p', of sample_def] show ?thesis
    using p' by (simp add: sample_defs sample_map_def)
qed

section \<open>Defects\<close>

text \<open>
  The spin lock does not exclude: a failed exchange overwrites the expected state, so the
  second attempt on a lock somebody holds succeeds.
\<close>

theorem props_spin_lock_broken:
  "props_impl_spin_lock (PROP_STATE_LOCK # PROP_STATE_LOCK # env) PROP_STATE_NONE PROP_STATE_LOCK = Some PROP_STATE_LOCK"
  by (simp add: props_impl_spin_lock_def cas_def)

text \<open>
  A restored path is checked against the entry's bound before the host makes it absolute, and
  not after: an absolute path longer than the entry's memory is written beyond it.
\<close>

theorem props_restored_path_overruns:
  fixes w :: "'f world" and k :: nat
  defines "q \<equiv> impls (pp w) ! k"
  assumes "k < length (impls (pp w))" and "p_access q \<noteq> patch_readable (urid (pp w))"
    and "p_type q = atom_path (urid (pp w))"
    and "retrieve (p_property q) = Some (path @ [0], p_type q)" and "0 \<notin> set path"
    and "length path < unat (d_max_size (p_def q))"
    and "absolute_path path = Some absolute" and "unat (d_max_size (p_def q)) \<le> length absolute"
    and "pmem w (stash_body q + of_nat (unat (d_max_size (p_def q)))) = None"
  shows "restore_entry [MapPath abstract_path (Some absolute_path)] retrieve (undisturbed k q) k w = None"
proof -
  have "bytes_str (path @ [0]) = Some path"
    using assms(6) by (auto simp: bytes_str_def takeWhile_append)
  moreover have "st (pmem w) (stash_body q) (absolute @ [0]) = None"
  proof (cases "st (pmem w) (stash_body q) (absolute @ [0])")
    case (Some m)
    from st_needs [OF this, of "unat (d_max_size (p_def q))"] assms(9,10) show ?thesis by simp
  qed
  ultimately show ?thesis
    using assms(2-8) unfolding q_def restore_entry_def put_stash_def lock_undisturbed
    by (auto simp: Let_def word_le_nat_alt)
qed

theorem props_restored_path_overruns_witness:
  "let w = sample_world\<lparr>pmem := (\<lambda>a. if a = 8200 then None else Some 0),
      pp := (pp sample_world)\<lparr>impls := [(sample_impl 3)\<lparr>p_type := 121\<rparr>]\<rparr>\<rparr> in
   restore_entry [MapPath None (Some (\<lambda>_. Some (replicate 8 47)))] (\<lambda>_. Some ([97] @ [0], p_type (impls (pp w) ! 0)))
     (undisturbed 0 (impls (pp w) ! 0)) 0 w = None"
  unfolding Let_def
  by (rule props_restored_path_overruns [where path = "[97]" and absolute = "replicate 8 47"]) (simp_all add: sample_defs)

end
