(* ===== verification/Varchunk.thy ===== *)
theory Varchunk
  imports Prelude
begin

text \<open>
  \<open>varchunk/varchunk.h\<close>: the ring buffer of variable sized chunks between one producer and one
  consumer. The buffer is the list of its bytes, \<open>head\<close> and \<open>tail\<close> and the pointers handed
  out are offsets into it, integers are kept at their width. Each operation reads the other
  side's index once and writes its own once, as its last step, so the operations are the
  atomic steps of any interleaving. The invariant ties a buffer to the list of chunks in it;
  the locale \<open>chunk_queue\<close> is what users of the buffer rely on.
\<close>

section \<open>The buffer and its operations\<close>

record varchunk =
  vsize :: u64
  vmask :: u64
  rsvd :: u64
  gapd :: u64
  head :: u64
  tail :: u64
  vbuf :: "u8 list"

text \<open>\<open>~7U\<close> is a 32 bit constant: the mask clears the upper half of a \<open>size_t\<close> as well.\<close>

definition VARCHUNK_PAD :: "u64 \<Rightarrow> u64" where
  "VARCHUNK_PAD sz = (sz + 7) AND 0xFFFFFFF8"

definition get32 :: "u8 list \<Rightarrow> u64 \<Rightarrow> u32 option" where
  "get32 buf p = (if unat p + 4 \<le> length buf then Some (de32 (rev (part buf (unat p) 4))) else None)"

definition put32 :: "u8 list \<Rightarrow> u64 \<Rightarrow> u32 \<Rightarrow> u8 list option" where
  "put32 buf p u = (if unat p + 4 \<le> length buf
     then Some (overwrite (unat p) (rev (be32 u)) buf) else None)"

text \<open>Writing an element header: size, then gap.\<close>

definition put_elmnt :: "u8 list \<Rightarrow> u64 \<Rightarrow> u32 \<Rightarrow> u32 \<Rightarrow> u8 list option" where
  "put_elmnt buf p sz gap =
     (case put32 buf p sz of None \<Rightarrow> None | Some buf1 \<Rightarrow> put32 buf1 (p + 4) gap)"

fun body_size_loop :: "nat \<Rightarrow> u64 \<Rightarrow> u64 \<Rightarrow> u64 option" where
  "body_size_loop 0 minimum sz = None"
| "body_size_loop (Suc fuel) minimum sz =
     (if sz < minimum then body_size_loop fuel minimum (push_bit 1 sz) else Some sz)"

definition varchunk_body_size :: "nat \<Rightarrow> u64 \<Rightarrow> u64 option" where
  "varchunk_body_size fuel minimum = body_size_loop fuel minimum 1"

definition varchunk_init :: "u8 list \<Rightarrow> u64 \<Rightarrow> varchunk" where
  "varchunk_init mem body_size =
     \<lparr>vsize = body_size, vmask = body_size - 1, rsvd = 0, gapd = 0, head = 0, tail = 0, vbuf = mem\<rparr>"

definition reserve :: "u64 \<Rightarrow> u64 \<Rightarrow> varchunk \<Rightarrow> varchunk" where
  "reserve r g vc = vc\<lparr>rsvd := r, gapd := g\<rparr>"

text \<open>The result is the pointer or \<open>None\<close> for \<open>NULL\<close>; \<open>maximum\<close> is \<open>rsvd\<close> of the new state.\<close>

definition varchunk_write_request_max :: "u64 \<Rightarrow> varchunk \<Rightarrow> u64 option \<times> varchunk" where
  "varchunk_write_request_max minimum vc =
     (let h = head vc; t = tail vc;
          padded = 2 * 8 + VARCHUNK_PAD minimum;
          space = (if h > t then ((t - h + vsize vc) AND vmask vc) - 1
                   else if h < t then (t - h) - 1
                   else vsize vc - 1);
          vend = h + space in
      if vend > vsize vc then
        (let len1 = vsize vc - h in
         if len1 < padded then
           (let len2 = vend AND vmask vc in
            if len2 < padded then (None, reserve 0 0 vc) else (Some 8, reserve len2 len1 vc))
         else (Some (h + 8), reserve len1 0 vc))
      else if space < padded then (None, reserve 0 0 vc)
      else (Some (h + 8), reserve space 0 vc))"

definition varchunk_write_request :: "u64 \<Rightarrow> varchunk \<Rightarrow> u64 option \<times> varchunk" where
  "varchunk_write_request minimum vc = varchunk_write_request_max minimum vc"

definition write_advance_raw :: "u64 \<Rightarrow> u64 \<Rightarrow> varchunk \<Rightarrow> varchunk" where
  "write_advance_raw h written vc = vc\<lparr>head := (h + written) AND vmask vc\<rparr>"

text \<open>\<open>None\<close>: the assertion on \<open>written\<close> fails, or the header lies outside the buffer.\<close>

definition varchunk_write_advance :: "u64 \<Rightarrow> varchunk \<Rightarrow> varchunk option" where
  "varchunk_write_advance written vc =
     (if \<not> written \<le> rsvd vc then None
      else let h = head vc in
        case (if gapd vc > 0
              then (case put_elmnt (vbuf vc) h (ucast (gapd vc - 8)) 1 of
                      None \<Rightarrow> None
                    | Some buf1 \<Rightarrow> put_elmnt buf1 0 (ucast written) 0)
              else put_elmnt (vbuf vc) h (ucast written) 0) of
          None \<Rightarrow> None
        | Some buf \<Rightarrow> Some (write_advance_raw h (gapd vc + 8 + VARCHUNK_PAD written) (vc\<lparr>vbuf := buf\<rparr>)))"

definition read_advance_raw :: "u64 \<Rightarrow> u64 \<Rightarrow> varchunk \<Rightarrow> varchunk" where
  "read_advance_raw t n vc = vc\<lparr>tail := (t + n) AND vmask vc\<rparr>"

text \<open>
  The result is \<open>None\<close> for \<open>NULL\<close>, or the pointer and the number of bytes to read;
  \<open>Fault\<close> is a header outside the buffer.
\<close>

definition varchunk_read_request :: "varchunk \<Rightarrow> (u64 \<times> u32) option result \<times> varchunk" where
  "varchunk_read_request vc =
     (let t = tail vc; h = head vc;
          space = (if h > t then h - t else (h - t + vsize vc) AND vmask vc) in
      if space > 0 then
        (let vend = t + space in
         if vend > vsize vc then
           (case get32 (vbuf vc) (t + 4) of
              None \<Rightarrow> (Fault, vc)
            | Some gap \<Rightarrow>
                if gap \<noteq> 0 then
                  (let vc1 = read_advance_raw t (vsize vc - t) vc in
                   case get32 (vbuf vc) 0 of
                     None \<Rightarrow> (Fault, vc1)
                   | Some n \<Rightarrow> (Ok (Some (8, n)), vc1))
                else (case get32 (vbuf vc) t of
                        None \<Rightarrow> (Fault, vc)
                      | Some n \<Rightarrow> (Ok (Some (t + 8, n)), vc)))
         else (case get32 (vbuf vc) t of
                 None \<Rightarrow> (Fault, vc)
               | Some n \<Rightarrow> (Ok (Some (t + 8, n)), vc)))
      else (Ok None, vc))"

definition varchunk_read_advance :: "varchunk \<Rightarrow> varchunk option" where
  "varchunk_read_advance vc =
     (let t = tail vc in
      case get32 (vbuf vc) t of
        None \<Rightarrow> None
      | Some n \<Rightarrow> Some (read_advance_raw t (8 + VARCHUNK_PAD (ucast n)) vc))"

text \<open>The user's store through the pointer a request returned, and its load from one.\<close>

definition chunk_store :: "u64 \<Rightarrow> u8 list \<Rightarrow> varchunk \<Rightarrow> varchunk option" where
  "chunk_store p d vc =
     (if unat p + length d \<le> length (vbuf vc)
      then Some (vc\<lparr>vbuf := overwrite (unat p) d (vbuf vc)\<rparr>)
      else None)"

definition chunk_load :: "u64 \<Rightarrow> u32 \<Rightarrow> varchunk \<Rightarrow> u8 list option" where
  "chunk_load p n vc =
     (if unat p + unat n \<le> length (vbuf vc) then Some (part (vbuf vc) (unat p) (unat n)) else None)"

section \<open>The arithmetic of the indices\<close>

definition pad8 :: "nat \<Rightarrow> nat" where
  "pad8 n = (n + 7) div 8 * 8"

lemma pad8_bounds: "n \<le> pad8 n" "pad8 n \<le> n + 7"
  by (simp_all add: pad8_def)

lemma pad8_dvd [simp]: "8 dvd pad8 n"
  by (simp add: pad8_def)

lemma unat_VARCHUNK_PAD:
  assumes "unat n + 7 < 2 ^ 32"
  shows "unat (VARCHUNK_PAD n) = pad8 (unat n)"
proof -
  have s: "unat (n + 7) = unat n + 7"
    using assms by (subst unat_add_no_wrap) simp_all
  then have "unat (n + 7) mod 2 ^ 32 = unat (n + 7)" using assms by simp
  then have low: "(n + 7) AND mask 32 = n + 7"
    by (simp only: word_unat_eq_iff unat_and_mask)
  have "(0xFFFFFFF8 :: u64) = mask 32 AND NOT (mask 3)"
    by (simp add: mask_eq_exp_minus_1)
  then have "VARCHUNK_PAD n = ((n + 7) AND mask 32) AND NOT (mask 3)"
    by (simp add: VARCHUNK_PAD_def and.assoc)
  then have "VARCHUNK_PAD n = (n + 7) AND NOT (mask 3)" by (simp only: low)
  then have "unat (VARCHUNK_PAD n) = (unat n + 7) - (unat n + 7) mod 8"
    by (simp only: unat_and_not_mask s) simp
  then show ?thesis by (simp add: pad8_def minus_mod_eq_div_mult)
qed

text \<open>The shape every operation keeps: a power of two between 16 bytes and 2 GiB, aligned indices.\<close>

definition shape :: "nat \<Rightarrow> varchunk \<Rightarrow> bool" where
  "shape k vc \<longleftrightarrow> 4 \<le> k \<and> k \<le> 31 \<and> vsize vc = of_nat (2 ^ k) \<and> vmask vc = mask k \<and>
     length (vbuf vc) = 2 ^ k \<and> unat (head vc) < 2 ^ k \<and> unat (tail vc) < 2 ^ k \<and>
     8 dvd unat (head vc) \<and> 8 dvd unat (tail vc)"

definition used :: "nat \<Rightarrow> varchunk \<Rightarrow> nat" where
  "used k vc = (let h = unat (head vc); t = unat (tail vc) in if t \<le> h then h - t else h + 2 ^ k - t)"

lemma shape_bounds:
  assumes "shape k vc"
  shows "(2 :: nat) ^ k \<le> 2147483648" "(16 :: nat) \<le> 2 ^ k" "unat (vsize vc) = 2 ^ k" "8 dvd (2 :: nat) ^ k"
proof -
  have k: "4 \<le> k" "k \<le> 31" using assms by (simp_all add: shape_def)
  have "(2 :: nat) ^ k \<le> 2 ^ 31" using k by (intro power_increasing) simp_all
  then show "(2 :: nat) ^ k \<le> 2147483648" by simp
  have "(2 :: nat) ^ 4 \<le> 2 ^ k" using k by (intro power_increasing) simp_all
  then show "(16 :: nat) \<le> 2 ^ k" by simp
  show "unat (vsize vc) = 2 ^ k"
    using assms \<open>(2 :: nat) ^ k \<le> 2147483648\<close> by (simp add: shape_def unat_of_nat64 del: of_nat_power)
  have "(2 :: nat) ^ 3 dvd 2 ^ k" using k by (intro le_imp_power_dvd) simp
  then show "8 dvd (2 :: nat) ^ k" by simp
qed

text \<open>The free space as the code computes it.\<close>

definition free_space :: "varchunk \<Rightarrow> u64" where
  "free_space vc = (let h = head vc; t = tail vc in
     if h > t then ((t - h + vsize vc) AND vmask vc) - 1
     else if h < t then (t - h) - 1
     else vsize vc - 1)"

lemma unat_diff_nat: "b \<le> a \<Longrightarrow> unat (a - b :: u64) = unat a - unat b"
  by (rule unat_sub)

lemma unat_pred: "0 < unat a \<Longrightarrow> unat (a - 1 :: u64) = unat a - 1"
  by (subst unat_sub) (simp_all add: word_le_nat_alt)

lemma unat_wrap_diff:
  assumes "unat (vs :: u64) = S" and "unat h \<le> S" and "unat (t :: u64) < unat h" and "S < 2 ^ 63"
  shows "unat (t - h + vs) = S - (unat h - unat t)"
proof -
  have eq: "t - h + vs = vs - (h - t)" by simp
  have ht: "unat (h - t) = unat h - unat t"
    using assms by (intro unat_sub) (simp add: word_le_nat_alt)
  have "h - t \<le> vs"
    using assms ht by (simp add: word_le_nat_alt)
  then show ?thesis unfolding eq using assms(1) ht by (simp add: unat_sub)
qed

lemma unat_free_space:
  assumes "shape k vc"
  shows "unat (free_space vc) = 2 ^ k - 1 - used k vc"
proof -
  let ?h = "unat (head vc)" and ?t = "unat (tail vc)"
  note b = shape_bounds [OF assms]
  have ht: "?h < 2 ^ k" "?t < 2 ^ k" and m: "vmask vc = mask k" using assms by (simp_all add: shape_def)
  consider "?t < ?h" | "?h < ?t" | "?h = ?t" by linarith
  then show ?thesis
  proof cases
    case 1
    have "unat (tail vc - head vc + vsize vc) = 2 ^ k - (?h - ?t)"
      by (rule unat_wrap_diff) (use 1 b ht in simp_all)
    moreover from this have "unat ((tail vc - head vc + vsize vc) AND mask k) = 2 ^ k - (?h - ?t)"
      using 1 b(2) by (simp add: unat_and_mask)
    ultimately show ?thesis
      using 1 ht by (simp add: free_space_def Let_def used_def m word_less_nat_alt unat_pred)
  next
    case 2
    then have "unat (tail vc - head vc) = ?t - ?h"
      by (intro unat_sub) (simp add: word_le_nat_alt)
    with 2 ht show ?thesis
      by (simp add: free_space_def Let_def used_def word_less_nat_alt unat_pred)
  next
    case 3
    with b show ?thesis
      by (simp add: free_space_def Let_def used_def word_less_nat_alt unat_pred)
  qed
qed

section \<open>Requesting space\<close>

text \<open>A reservation of \<open>n\<close> bytes: before the end of the buffer, or at its start behind a gap.\<close>

definition reserved :: "nat \<Rightarrow> varchunk \<Rightarrow> nat \<Rightarrow> bool" where
  "reserved k vc n \<longleftrightarrow> n \<le> unat (rsvd vc) \<and> n < 2 ^ 31 \<and>
     (if gapd vc = 0
      then unat (head vc) + 16 + pad8 n \<le> 2 ^ k \<and> used k vc + 16 + pad8 n < 2 ^ k
      else unat (gapd vc) = 2 ^ k - unat (head vc) \<and> used k vc + unat (gapd vc) + 16 + pad8 n < 2 ^ k)"

definition chunk_ptr :: "varchunk \<Rightarrow> nat" where
  "chunk_ptr vc = (if gapd vc = 0 then unat (head vc) + 8 else 8)"

lemma chunk_ptr_vbuf [simp]: "chunk_ptr (vc\<lparr>vbuf := b\<rparr>) = chunk_ptr vc"
  by (simp add: chunk_ptr_def)

lemma reserve_simps [simp]:
  "head (reserve r g vc) = head vc" "tail (reserve r g vc) = tail vc" "vbuf (reserve r g vc) = vbuf vc"
  "vsize (reserve r g vc) = vsize vc" "vmask (reserve r g vc) = vmask vc"
  "rsvd (reserve r g vc) = r" "gapd (reserve r g vc) = g"
  by (simp_all add: reserve_def)

lemma shape_reserve [simp]: "shape k (reserve r g vc) = shape k vc"
  by (simp add: shape_def)

lemma used_reserve [simp]: "used k (reserve r g vc) = used k vc"
  by (simp add: used_def)

lemma used_vbuf [simp]: "used k (vc\<lparr>vbuf := b\<rparr>) = used k vc"
  by (simp add: used_def)

lemma reserved_vbuf [simp]: "reserved k (vc\<lparr>vbuf := b\<rparr>) n = reserved k vc n"
  by (simp add: reserved_def)

lemma used_less: "shape k vc \<Longrightarrow> used k vc < 2 ^ k"
  by (auto simp: shape_def used_def Let_def)

lemma write_request_nat:
  assumes sh: "shape k vc" and m: "unat minimum < 2 ^ 31"
  defines "S \<equiv> 2 ^ k" and "h \<equiv> unat (head vc)" and "P \<equiv> 16 + pad8 (unat minimum)"
    and "F \<equiv> 2 ^ k - 1 - used k vc"
  shows "varchunk_write_request_max minimum vc =
    (if S < h + F then
       (if S - h < P then
          (if h + F - S < P then (None, reserve 0 0 vc)
           else (Some 8, reserve (of_nat (h + F - S)) (of_nat (S - h)) vc))
        else (Some (head vc + 8), reserve (of_nat (S - h)) 0 vc))
     else if F < P then (None, reserve 0 0 vc)
     else (Some (head vc + 8), reserve (of_nat F) 0 vc))"
proof -
  note b = shape_bounds [OF sh]
  have f: "unat (free_space vc) = F" unfolding F_def by (rule unat_free_space [OF sh])
  have F: "F < S" using b(2) by (simp add: F_def S_def)
  have hS: "h < S" and mask: "vmask vc = mask k" using sh by (simp_all add: shape_def h_def S_def)
  have big: "S \<le> 2147483648" using b(1) by (simp add: S_def)
  have vend: "unat (head vc + free_space vc) = h + F"
    using f hS F big by (subst unat_add_no_wrap) (simp_all add: h_def)
  have len1: "unat (vsize vc - head vc) = S - h"
    using b(3) hS by (subst unat_sub) (simp_all add: word_le_nat_alt h_def S_def)
  have "pad8 (unat minimum) < 2 ^ 32" using pad8_bounds(2) [of "unat minimum"] m by simp
  moreover have "unat (VARCHUNK_PAD minimum) = pad8 (unat minimum)"
    using m by (simp add: unat_VARCHUNK_PAD)
  ultimately have P: "unat (2 * 8 + VARCHUNK_PAD minimum) = P"
    by (subst unat_add_no_wrap) (simp_all add: P_def)
  have len2: "unat ((head vc + free_space vc) AND vmask vc) = h + F - S" if "S < h + F"
    using that hS F by (simp add: mask unat_and_mask vend mod_if flip: S_def)
  have w: "x = of_nat (unat x)" for x :: u64 by simp
  have of_nats: "vsize vc - head vc = of_nat (S - h)" "free_space vc = of_nat F"
    using len1 f w by metis+
  have third: "S < h + F \<Longrightarrow> (head vc + of_nat F) AND vmask vc = of_nat (h + F - S)"
    using len2 w of_nats(2) by metis
  show ?thesis
    unfolding varchunk_write_request_max_def Let_def free_space_def [unfolded Let_def, symmetric]
    using vend len1 P f b(3) len2
    by (cases "S < h + F") (simp_all add: word_less_nat_alt S_def [symmetric] of_nats third del: of_nat_diff of_nat_add)
qed

lemma request_reserves:
  assumes sh: "shape k vc" and m: "unat minimum < 2 ^ 31"
    and r: "varchunk_write_request_max minimum vc = (Some p, vc')"
  shows "reserved k vc' (unat minimum) \<and> unat p = chunk_ptr vc' \<and>
    shape k vc' \<and> head vc' = head vc \<and> tail vc' = tail vc \<and> vbuf vc' = vbuf vc"
proof -
  note b = shape_bounds [OF sh]
  have h: "unat (head vc) < 2 ^ k" using sh by (simp add: shape_def)
  have p8: "unat (head vc + 8) = unat (head vc) + 8"
    using h b(1) by (subst unat_add_no_wrap) simp_all
  have small: "unat (of_nat n :: u64) = n" if "n \<le> 2 ^ k" for n
    using that b(1) by simp
  have gap: "of_nat (2 ^ k - unat (head vc)) \<noteq> (0 :: u64)"
    using small [of "2 ^ k - unat (head vc)"] h by (metis diff_le_self unat_0 zero_less_diff less_irrefl)
  let ?P = "16 + pad8 (unat minimum)" and ?F = "2 ^ k - 1 - used k vc"
  have u: "used k vc < 2 ^ k" by (rule used_less [OF sh])
  have n: "unat minimum \<le> pad8 (unat minimum)" by (rule pad8_bounds)
  from r show ?thesis
    unfolding write_request_nat [OF sh m]
    using h u n p8 gap m sh small [of "2 ^ k - unat (head vc)"] small [of ?F]
      small [of "unat (head vc) + ?F - 2 ^ k"]
    by (auto simp: reserved_def chunk_ptr_def split: if_splits simp del: of_nat_diff of_nat_add of_nat_power)
qed

section \<open>What is in the buffer\<close>

definition elmnt_bytes :: "u32 \<Rightarrow> u32 \<Rightarrow> u8 list" where
  "elmnt_bytes n gap = rev (be32 n) @ rev (be32 gap)"

lemma length_elmnt_bytes [simp]: "length (elmnt_bytes n gap) = 8"
  by (simp add: elmnt_bytes_def)

definition chunk_at :: "nat \<Rightarrow> u8 list \<Rightarrow> nat \<Rightarrow> u8 list \<Rightarrow> bool" where
  "chunk_at k buf p d \<longleftrightarrow> p + 16 + pad8 (length d) \<le> 2 ^ k \<and> length d < 2 ^ 31 \<and>
     part buf p 8 = elmnt_bytes (of_nat (length d)) 0 \<and> part buf (p + 8) (length d) = d"

definition gap_at :: "nat \<Rightarrow> u8 list \<Rightarrow> nat \<Rightarrow> bool" where
  "gap_at k buf p \<longleftrightarrow> p + 8 \<le> 2 ^ k \<and> part buf (p + 4) 4 = rev (be32 1)"

text \<open>The chunk at \<open>tail\<close>, where the consumer reads.\<close>

definition front :: "nat \<Rightarrow> varchunk \<Rightarrow> u8 list \<Rightarrow> bool" where
  "front k vc d \<longleftrightarrow> chunk_at k (vbuf vc) (unat (tail vc)) d"

fun seg :: "nat \<Rightarrow> u8 list \<Rightarrow> nat \<Rightarrow> u8 list list \<Rightarrow> nat \<Rightarrow> bool" where
  "seg k buf p [] e \<longleftrightarrow> p = e"
| "seg k buf p (d # q) e \<longleftrightarrow> chunk_at k buf p d \<and> seg k buf (p + 8 + pad8 (length d)) q e"

text \<open>
  The chunks lie one behind the other from \<open>tail\<close> to \<open>head\<close>; when \<open>head\<close> is below \<open>tail\<close> they
  run up to a gap and go on at the start of the buffer.
\<close>

definition content :: "nat \<Rightarrow> varchunk \<Rightarrow> u8 list list \<Rightarrow> bool" where
  "content k vc q \<longleftrightarrow> (let h = unat (head vc); t = unat (tail vc); buf = vbuf vc in
     if t \<le> h then seg k buf t q h
     else \<exists>q1 q2 e. q = q1 @ q2 \<and> q2 \<noteq> [] \<and> seg k buf t q1 e \<and> gap_at k buf e \<and> seg k buf 0 q2 h)"

lemma seg_le: "seg k buf p q e \<Longrightarrow> p \<le> e"
  by (induction q arbitrary: p) fastforce+

lemma seg_end_le: "seg k buf p q e \<Longrightarrow> q \<noteq> [] \<Longrightarrow> e + 8 \<le> 2 ^ k"
proof (induction q arbitrary: p)
  case (Cons d q)
  then have d: "chunk_at k buf p d" "seg k buf (p + 8 + pad8 (length d)) q e" by simp_all
  show ?case
  proof (cases "q = []")
    case True
    with d show ?thesis by (simp add: chunk_at_def)
  next
    case False
    with Cons.IH [OF d(2)] show ?thesis .
  qed
qed simp

lemma seg_append: "seg k buf p (q1 @ q2) e \<longleftrightarrow> (\<exists>m. seg k buf p q1 m \<and> seg k buf m q2 e)"
  by (induction q1 arbitrary: p) auto

lemma chunk_at_cong:
  assumes c: "chunk_at k buf p d" and len: "length buf = 2 ^ k" "length buf' = 2 ^ k"
    and eq: "\<And>i. p \<le> i \<Longrightarrow> i < p + 8 + pad8 (length d) \<Longrightarrow> buf' ! i = buf ! i"
  shows "chunk_at k buf' p d"
proof -
  have le: "length d \<le> pad8 (length d)" by (rule pad8_bounds)
  have "part buf' p 8 = part buf p 8"
    by (rule part_cong) (use c len eq in \<open>simp_all add: chunk_at_def\<close>)
  moreover have "part buf' (p + 8) (length d) = part buf (p + 8) (length d)"
    by (rule part_cong) (use c len eq le in \<open>simp_all add: chunk_at_def\<close>)
  ultimately show ?thesis using c by (simp add: chunk_at_def)
qed

lemma seg_cong:
  "seg k buf p q e \<Longrightarrow> length buf = 2 ^ k \<Longrightarrow> length buf' = 2 ^ k \<Longrightarrow>
   (\<And>i. p \<le> i \<Longrightarrow> i < e \<Longrightarrow> buf' ! i = buf ! i) \<Longrightarrow> seg k buf' p q e"
proof (induction q arbitrary: p)
  case (Cons d q)
  then have rest: "seg k buf (p + 8 + pad8 (length d)) q e" by simp
  have "chunk_at k buf' p d"
    by (rule chunk_at_cong) (use Cons.prems seg_le [OF rest] in auto)
  moreover have "seg k buf' (p + 8 + pad8 (length d)) q e"
    by (rule Cons.IH [OF rest]) (use Cons.prems in auto)
  ultimately show ?case by simp
qed simp

lemma gap_at_cong:
  assumes "gap_at k buf p" and len: "length buf = 2 ^ k" "length buf' = 2 ^ k"
    and eq: "\<And>i. p \<le> i \<Longrightarrow> i < p + 8 \<Longrightarrow> buf' ! i = buf ! i"
  shows "gap_at k buf' p"
proof -
  have "part buf' (p + 4) 4 = part buf (p + 4) 4"
    by (rule part_cong) (use assms in \<open>simp_all add: gap_at_def\<close>)
  then show ?thesis using assms by (simp add: gap_at_def)
qed

lemma chunk_not_gap: "chunk_at k buf p d \<Longrightarrow> length buf = 2 ^ k \<Longrightarrow> \<not> gap_at k buf p"
proof
  assume c: "chunk_at k buf p d" and g: "gap_at k buf p"
  have "part buf (p + 4) 4 = part (part buf p 8) 4 4"
    by (simp add: part_part)
  also have "\<dots> = rev (be32 0)"
    using c by (simp add: chunk_at_def elmnt_bytes_def) (simp add: part_def)
  finally show False using g by (simp add: gap_at_def)
qed

text \<open>A write that stays in the free part of the buffer leaves the chunks as they are.\<close>

definition free_at :: "nat \<Rightarrow> varchunk \<Rightarrow> nat \<Rightarrow> bool" where
  "free_at k vc i \<longleftrightarrow> i < 2 ^ k \<and> (let h = unat (head vc); t = unat (tail vc) in
     if t \<le> h then i < t \<or> h \<le> i else h \<le> i \<and> i < t)"

definition untouched :: "nat \<Rightarrow> varchunk \<Rightarrow> varchunk \<Rightarrow> bool" where
  "untouched k vc vc' \<longleftrightarrow> length (vbuf vc) = 2 ^ k \<and> length (vbuf vc') = 2 ^ k \<and>
     (\<forall>i < 2 ^ k. \<not> free_at k vc i \<longrightarrow> vbuf vc' ! i = vbuf vc ! i)"

lemma content_wrapI:
  "unat (head vc) < unat (tail vc) \<Longrightarrow> q2 \<noteq> [] \<Longrightarrow> seg k (vbuf vc) (unat (tail vc)) q1 e \<Longrightarrow>
   gap_at k (vbuf vc) e \<Longrightarrow> seg k (vbuf vc) 0 q2 (unat (head vc)) \<Longrightarrow> content k vc (q1 @ q2)"
  unfolding content_def Let_def by auto

lemma content_cong:
  assumes c: "content k vc q" and u: "untouched k vc vc'"
    and same: "head vc' = head vc" "tail vc' = tail vc"
  shows "content k vc' q"
proof -
  have len: "length (vbuf vc) = 2 ^ k" "length (vbuf vc') = 2 ^ k"
    and eq: "\<And>i. i < 2 ^ k \<Longrightarrow> \<not> free_at k vc i \<Longrightarrow> vbuf vc' ! i = vbuf vc ! i"
    using u by (auto simp: untouched_def)
  show ?thesis
proof (cases "unat (tail vc) \<le> unat (head vc)")
  case True
  then have s: "seg k (vbuf vc) (unat (tail vc)) q (unat (head vc))" using c by (simp add: content_def)
  show ?thesis
  proof (cases "q = []")
    case False
    have "seg k (vbuf vc') (unat (tail vc)) q (unat (head vc))"
    proof (rule seg_cong [OF s len])
      fix i assume i: "unat (tail vc) \<le> i" "i < unat (head vc)"
      have "unat (head vc) \<le> 2 ^ k"
        using seg_end_le [OF s False] by simp
      then show "vbuf vc' ! i = vbuf vc ! i" using i True eq by (simp add: free_at_def)
    qed
    then show ?thesis using True same by (simp add: content_def)
  qed (use s True same in \<open>simp add: content_def\<close>)
next
  case False
  then obtain q1 q2 e where s: "q = q1 @ q2" "q2 \<noteq> []" "seg k (vbuf vc) (unat (tail vc)) q1 e"
    "gap_at k (vbuf vc) e" "seg k (vbuf vc) 0 q2 (unat (head vc))"
    using c by (auto simp: content_def Let_def)
  have e: "e + 8 \<le> 2 ^ k" "unat (tail vc) \<le> e" using s(3,4) seg_le by (auto simp: gap_at_def)
  have "seg k (vbuf vc') (unat (tail vc)) q1 e" "gap_at k (vbuf vc') e" "seg k (vbuf vc') 0 q2 (unat (head vc))"
    using s e False eq
    by (auto intro!: seg_cong [OF _ len] gap_at_cong [OF _ len] simp: free_at_def)
  then show ?thesis using False same s(1,2) unfolding content_def Let_def by auto
qed
qed

lemma front_cong:
  assumes f: "front k vc d" and c: "content k vc (d # q)" and u: "untouched k vc vc'" and "tail vc' = tail vc"
    and ht: "unat (head vc) < 2 ^ k" "unat (tail vc) < 2 ^ k"
  shows "front k vc' d"
proof -
  let ?t = "unat (tail vc)"
  have ch: "chunk_at k (vbuf vc) ?t d" using f by (simp add: front_def)
  have "\<not> free_at k vc i" if "?t \<le> i" "i < ?t + 8 + pad8 (length d)" for i
  proof (cases "?t \<le> unat (head vc)")
    case True
    then have "seg k (vbuf vc) (?t + 8 + pad8 (length d)) q (unat (head vc))"
      using c by (simp add: content_def Let_def)
    from seg_le [OF this] that True show ?thesis by (simp add: free_at_def)
  qed (use that in \<open>simp add: free_at_def\<close>)
  moreover have "?t + 8 + pad8 (length d) \<le> 2 ^ k" using ch by (simp add: chunk_at_def)
  ultimately have "chunk_at k (vbuf vc') ?t d"
    by (intro chunk_at_cong [OF ch]) (use u in \<open>auto simp: untouched_def\<close>)
  then show ?thesis using assms(4) by (simp add: front_def)
qed

section \<open>The operations keep the contents\<close>

lemma put_elmnt_overwrite:
  assumes "unat p + 8 \<le> length buf" and "length buf < 2 ^ 63"
  shows "put_elmnt buf p n gap = Some (overwrite (unat p) (elmnt_bytes n gap) buf)"
proof -
  have "unat (p + 4) = unat p + 4" using assms by (subst unat_add_no_wrap) simp_all
  then show ?thesis
    using assms overwrite_append [of "unat p" "rev (be32 n)" "rev (be32 gap)" buf]
    by (simp add: put_elmnt_def put32_def elmnt_bytes_def)
qed

lemma pad8_mono: "a \<le> b \<Longrightarrow> pad8 a \<le> pad8 b"
  unfolding pad8_def by (intro mult_right_mono div_le_mono) simp_all

lemma chunk_at_written:
  assumes "p + 16 + pad8 (length d) \<le> 2 ^ k" and "length buf = 2 ^ k" and "length d < 2 ^ 31"
    and "part buf (p + 8) (length d) = d"
  shows "chunk_at k (overwrite p (elmnt_bytes (of_nat (length d)) 0) buf) p d"
proof -
  let ?buf = "overwrite p (elmnt_bytes (of_nat (length d)) 0) buf"
  have le: "length d \<le> pad8 (length d)" by (rule pad8_bounds)
  have "part ?buf p 8 = elmnt_bytes (of_nat (length d)) 0"
    using part_overwrite [of p "elmnt_bytes (of_nat (length d)) 0" buf] assms by simp
  moreover have "part ?buf (p + 8) (length d) = part buf (p + 8) (length d)"
    by (rule part_cong) (use assms le in \<open>simp_all add: nth_overwrite\<close>)
  ultimately show ?thesis using assms by (simp add: chunk_at_def)
qed

lemma gap_at_written:
  assumes "p + 8 \<le> 2 ^ k" and "length buf = 2 ^ k"
  shows "gap_at k (overwrite p (elmnt_bytes n 1) buf) p"
  using part_overwrite_part [of p "elmnt_bytes n 1" buf 4 4] assms
  by (simp add: gap_at_def elmnt_bytes_def part_def)

lemma advance_head:
  assumes "shape k vc" and "unat n + unat (head vc) < 2 ^ 32"
  shows "unat ((head vc + n) AND vmask vc) = (unat (head vc) + unat n) mod 2 ^ k"
proof -
  have "unat (head vc + n) = unat (head vc) + unat n"
    using assms(2) by (subst unat_add_no_wrap) simp_all
  then show ?thesis using assms(1) by (simp add: shape_def unat_and_mask)
qed

lemma of_nat_chunk: "length d < 2 ^ 31 \<Longrightarrow> (ucast (of_nat (length d) :: u64) :: u32) = of_nat (length d)"
  by (simp add: unsigned_of_nat take_bit_nat_eq_self)

lemma reserved_chunk:
  assumes "reserved k vc n" and "length d \<le> n"
  shows "length d < 2 ^ 31" and "pad8 (length d) \<le> pad8 n" and "pad8 (length d) < 2 ^ 32"
    and "unat (VARCHUNK_PAD (of_nat (length d))) = pad8 (length d)"
    and "(of_nat (length d) :: u64) \<le> rsvd vc"
proof -
  show dl: "length d < 2 ^ 31" using assms by (simp add: reserved_def)
  show "pad8 (length d) \<le> pad8 n" using assms(2) by (rule pad8_mono)
  show "pad8 (length d) < 2 ^ 32" using pad8_bounds(2) [of "length d"] dl by simp
  show "unat (VARCHUNK_PAD (of_nat (length d))) = pad8 (length d)"
    using dl by (subst unat_VARCHUNK_PAD) simp_all
  show "(of_nat (length d) :: u64) \<le> rsvd vc"
    using assms dl by (simp add: reserved_def word_le_nat_alt)
qed

text \<open>Behind the last chunk: without a gap.\<close>

lemma content_append_plain:
  assumes "content k vc q" and new: "chunk_at k (vbuf vc) (unat (head vc)) d"
    and room: "used k vc + 16 + pad8 (length d) < 2 ^ k" and sh: "shape k vc"
    and h': "unat (head vc') = unat (head vc) + 8 + pad8 (length d)"
    and same: "tail vc' = tail vc" "vbuf vc' = vbuf vc"
  shows "content k vc' (q @ [d])"
proof (cases "unat (tail vc) \<le> unat (head vc)")
  case True
  then have "seg k (vbuf vc) (unat (tail vc)) (q @ [d]) (unat (head vc) + 8 + pad8 (length d))"
    using assms by (auto simp: content_def seg_append)
  then show ?thesis using True h' same by (simp add: content_def)
next
  case False
  then obtain q1 q2 e where s: "q = q1 @ q2" "q2 \<noteq> []" "seg k (vbuf vc) (unat (tail vc)) q1 e"
    "gap_at k (vbuf vc) e" "seg k (vbuf vc) 0 q2 (unat (head vc))"
    using assms(1) by (auto simp: content_def Let_def)
  have "seg k (vbuf vc) 0 (q2 @ [d]) (unat (head vc) + 8 + pad8 (length d))"
    using s new by (auto simp: seg_append)
  moreover have "\<not> unat (tail vc) \<le> unat (head vc) + 8 + pad8 (length d)"
    using room False sh by (simp add: used_def shape_def)
  ultimately show ?thesis using s(1-4) h' same unfolding content_def Let_def by auto
qed

lemma write_advance_plain:
  assumes sh: "shape k vc" and c: "content k vc q" and r: "reserved k vc n" and d: "length d \<le> n"
    and data: "part (vbuf vc) (chunk_ptr vc) (length d) = d" and g: "gapd vc = 0"
  shows "\<exists>vc'. varchunk_write_advance (of_nat (length d)) vc = Some vc' \<and> shape k vc' \<and>
    content k vc' (q @ [d]) \<and> tail vc' = tail vc \<and> untouched k vc vc'"
proof -
  note b = shape_bounds [OF sh] and rc = reserved_chunk [OF r d]
  let ?h = "unat (head vc)" and ?p = "pad8 (length d)"
  have len: "length (vbuf vc) = 2 ^ k" and ht: "?h < 2 ^ k" and dv: "8 dvd ?h"
    using sh by (simp_all add: shape_def)
  have room: "?h + 16 + ?p \<le> 2 ^ k" "used k vc + 16 + ?p < 2 ^ k"
    using r rc(2) g by (simp_all add: reserved_def)
  let ?buf = "overwrite ?h (elmnt_bytes (of_nat (length d)) 0) (vbuf vc)" and ?n = "8 + VARCHUNK_PAD (of_nat (length d))"
  let ?vc = "write_advance_raw (head vc) ?n (vc\<lparr>vbuf := ?buf\<rparr>)"
  have "unat ?n = 8 + ?p" using rc(3,4) by (subst unat_add_no_wrap) simp_all
  then have head': "unat (head ?vc) = ?h + 8 + ?p"
    using advance_head [OF sh, of ?n] room rc(3) ht b(1) by (simp add: write_advance_raw_def)
  have adv: "varchunk_write_advance (of_nat (length d)) vc = Some ?vc"
    using g rc(1,5) room len b(1) by (simp add: varchunk_write_advance_def put_elmnt_overwrite of_nat_chunk Let_def)
  have lenb: "length ?buf = 2 ^ k" using len room by simp
  have sh': "shape k ?vc" using sh head' room dv lenb by (simp add: shape_def write_advance_raw_def)
  have un: "untouched k vc (vc\<lparr>vbuf := ?buf\<rparr>)"
    using len lenb room ht by (auto simp: untouched_def nth_overwrite free_at_def Let_def used_def split: if_splits)
  have old: "content k (vc\<lparr>vbuf := ?buf\<rparr>) q" by (rule content_cong [OF c un]) simp_all
  have "content k ?vc (q @ [d])"
  proof (rule content_append_plain [OF old])
    show "chunk_at k (vbuf (vc\<lparr>vbuf := ?buf\<rparr>)) (unat (head (vc\<lparr>vbuf := ?buf\<rparr>))) d"
      using chunk_at_written [of ?h d k "vbuf vc"] room len rc(1) data g by (simp add: chunk_ptr_def)
  qed (use room sh lenb head' in \<open>simp_all add: used_def shape_def write_advance_raw_def\<close>)
  with adv sh' un show ?thesis by (auto simp: write_advance_raw_def untouched_def)
qed

text \<open>With a gap: the rest of the buffer is skipped and the chunk is written at the start.\<close>

lemma write_advance_gap:
  assumes sh: "shape k vc" and c: "content k vc q" and r: "reserved k vc n" and d: "length d \<le> n"
    and data: "part (vbuf vc) (chunk_ptr vc) (length d) = d" and g: "gapd vc \<noteq> 0"
  shows "\<exists>vc'. varchunk_write_advance (of_nat (length d)) vc = Some vc' \<and> shape k vc' \<and>
    content k vc' (q @ [d]) \<and> tail vc' = tail vc \<and> untouched k vc vc'"
proof -
  note b = shape_bounds [OF sh] and rc = reserved_chunk [OF r d]
  let ?h = "unat (head vc)" and ?t = "unat (tail vc)" and ?p = "pad8 (length d)"
  have len: "length (vbuf vc) = 2 ^ k" and ht: "?h < 2 ^ k" "?t < 2 ^ k" and dv: "8 dvd ?h" "8 dvd ?t"
    using sh by (simp_all add: shape_def)
  have room: "unat (gapd vc) = 2 ^ k - ?h" "used k vc + (2 ^ k - ?h) + 16 + ?p < 2 ^ k"
    using r rc(2) g by (simp_all add: reserved_def)
  then have le: "?t \<le> ?h" and fit: "16 + ?p < ?t" using ht by (auto simp: used_def Let_def split: if_splits)
  have h8: "?h + 8 \<le> 2 ^ k" using ht dv(1) b(4) by (auto elim!: dvdE)
  let ?buf1 = "overwrite ?h (elmnt_bytes (ucast (gapd vc - 8)) 1) (vbuf vc)"
  let ?buf = "overwrite 0 (elmnt_bytes (of_nat (length d)) 0) ?buf1"
  let ?n = "gapd vc + 8 + VARCHUNK_PAD (of_nat (length d))"
  let ?vc = "write_advance_raw (head vc) ?n (vc\<lparr>vbuf := ?buf\<rparr>)"
  have "unat (gapd vc + 8) = 2 ^ k - ?h + 8" using room(1) b(1) by (subst unat_add_no_wrap) simp_all
  then have "unat ?n = 2 ^ k - ?h + 8 + ?p" using rc(3,4) b(1) by (subst unat_add_no_wrap) simp_all
  then have head': "unat (head ?vc) = 8 + ?p"
    using advance_head [OF sh, of ?n] room rc(3) ht b(1) fit by (simp add: write_advance_raw_def mod_if)
  have len1: "length ?buf1 = 2 ^ k" using len h8 by simp
  have lenb: "length ?buf = 2 ^ k" using len1 b(2) by simp
  have adv: "varchunk_write_advance (of_nat (length d)) vc = Some ?vc"
    using g rc(1,5) room len b(1,2) h8 len1
    by (simp add: varchunk_write_advance_def put_elmnt_overwrite of_nat_chunk word_gt_0 Let_def)
  have "part ?buf1 8 (length d) = part (vbuf vc) 8 (length d)"
    by (rule part_cong) (use len len1 fit le ht pad8_bounds(1) [of "length d"] in \<open>simp_all add: nth_overwrite h8\<close>)
  then have new: "chunk_at k ?buf 0 d"
    by (intro chunk_at_written) (use fit ht len1 rc(1) data g in \<open>simp_all add: chunk_ptr_def\<close>)
  have gap: "gap_at k ?buf ?h"
    by (rule gap_at_cong [OF gap_at_written [OF h8 len]]) (use len1 lenb h8 fit le b(2) in \<open>simp_all add: nth_overwrite\<close>)
  have sh': "shape k ?vc" using sh head' fit ht dv lenb by (simp add: shape_def write_advance_raw_def)
  have un: "untouched k vc (vc\<lparr>vbuf := ?buf\<rparr>)"
    using len lenb len1 h8 fit le ht by (auto simp: untouched_def nth_overwrite free_at_def Let_def)
  have old: "content k (vc\<lparr>vbuf := ?buf\<rparr>) q" by (rule content_cong [OF c un]) simp_all
  have "seg k ?buf ?t q ?h" using old le by (simp add: content_def Let_def)
  moreover have "seg k ?buf 0 [d] (8 + ?p)" using new by simp
  ultimately have "content k ?vc (q @ [d])"
    using gap head' fit by (intro content_wrapI) (simp_all add: write_advance_raw_def)
  with adv sh' un show ?thesis by (auto simp: write_advance_raw_def untouched_def)
qed

lemma write_advance_commits:
  assumes "shape k vc" and "content k vc q" and "reserved k vc n" and "length d \<le> n"
    and "part (vbuf vc) (chunk_ptr vc) (length d) = d"
  shows "\<exists>vc'. varchunk_write_advance (of_nat (length d)) vc = Some vc' \<and> shape k vc' \<and>
    content k vc' (q @ [d]) \<and> tail vc' = tail vc \<and> untouched k vc vc'"
  using write_advance_plain [OF assms] write_advance_gap [OF assms] by (cases "gapd vc = 0") auto

lemma chunk_store_keeps:
  assumes sh: "shape k vc" and c: "content k vc q" and r: "reserved k vc n" and d: "length d \<le> n"
    and p: "unat p = chunk_ptr vc"
  shows "\<exists>vc'. chunk_store p d vc = Some vc' \<and> shape k vc' \<and> content k vc' q \<and> reserved k vc' n \<and>
    chunk_ptr vc' = chunk_ptr vc \<and> part (vbuf vc') (chunk_ptr vc') (length d) = d \<and>
    head vc' = head vc \<and> tail vc' = tail vc \<and> untouched k vc vc'"
proof -
  let ?h = "unat (head vc)" and ?t = "unat (tail vc)" and ?buf = "overwrite (chunk_ptr vc) d (vbuf vc)"
  note b = shape_bounds [OF sh]
  have len: "length (vbuf vc) = 2 ^ k" and ht: "?h < 2 ^ k" "?t < 2 ^ k" using sh by (simp_all add: shape_def)
  have le: "length d \<le> pad8 n" using pad8_bounds(1) [of n] d by simp
  have fit: "chunk_ptr vc + length d \<le> 2 ^ k"
    using r le ht by (auto simp: reserved_def chunk_ptr_def used_def Let_def split: if_splits)
  have un: "untouched k vc (vc\<lparr>vbuf := ?buf\<rparr>)"
    using len fit le r ht
    by (auto simp: untouched_def nth_overwrite free_at_def Let_def reserved_def chunk_ptr_def used_def split: if_splits)
  then have "content k (vc\<lparr>vbuf := ?buf\<rparr>) q" by (rule content_cong [OF c]) simp_all
  moreover have "part ?buf (chunk_ptr vc) (length d) = d" using fit len by simp
  moreover have "chunk_ptr (vc\<lparr>vbuf := ?buf\<rparr>) = chunk_ptr vc" "reserved k (vc\<lparr>vbuf := ?buf\<rparr>) n"
    using r by simp_all
  ultimately show ?thesis
    using sh p fit len un by (simp add: chunk_store_def shape_def)
qed

section \<open>Reading\<close>

lemma unat_read_space:
  assumes sh: "shape k vc"
  shows "unat (if head vc > tail vc then head vc - tail vc
     else (head vc - tail vc + vsize vc) AND vmask vc) = used k vc"
proof -
  let ?h = "unat (head vc)" and ?t = "unat (tail vc)"
  note b = shape_bounds [OF sh]
  have ht: "?h < 2 ^ k" "?t < 2 ^ k" and m: "vmask vc = mask k" using sh by (simp_all add: shape_def)
  consider "?t < ?h" | "?h < ?t" | "?h = ?t" by linarith
  then show ?thesis
  proof cases
    case 1
    then show ?thesis by (simp add: word_less_nat_alt used_def unat_diff_nat word_le_nat_alt)
  next
    case 2
    have "unat (head vc - tail vc + vsize vc) = 2 ^ k - (?t - ?h)"
      by (rule unat_wrap_diff) (use 2 b ht in simp_all)
    with 2 ht show ?thesis by (simp add: word_less_nat_alt used_def m unat_and_mask)
  next
    case 3
    then have "head vc = tail vc" by (simp add: word_unat_eq_iff)
    then show ?thesis using b by (simp add: used_def m unat_and_mask)
  qed
qed

lemma get32_header:
  assumes "chunk_at k buf p d" and "length buf = 2 ^ k" and "unat a = p"
  shows "get32 buf a = Some (of_nat (length d))"
proof -
  have "part buf p 4 = part (part buf p 8) 0 4" by (simp add: part_part)
  also have "\<dots> = rev (be32 (of_nat (length d)))"
    using assms(1) by (simp add: chunk_at_def elmnt_bytes_def) (simp add: part_def)
  finally show ?thesis using assms by (simp add: get32_def chunk_at_def)
qed

lemma get32_no_gap:
  assumes "chunk_at k buf p d" and "length buf = 2 ^ k" and "unat a = p + 4"
  shows "get32 buf a = Some 0"
proof -
  have "part buf (p + 4) 4 = part (part buf p 8) 4 4" by (simp add: part_part)
  also have "\<dots> = rev (be32 0)"
    using assms(1) by (simp add: chunk_at_def elmnt_bytes_def) (simp add: part_def)
  finally show ?thesis using assms by (simp add: get32_def chunk_at_def)
qed

lemma get32_gap:
  "gap_at k buf p \<Longrightarrow> length buf = 2 ^ k \<Longrightarrow> unat a = p + 4 \<Longrightarrow> get32 buf a = Some 1"
  by (simp add: get32_def gap_at_def)

text \<open>The chunk in front: at \<open>tail\<close>, once a gap there has been skipped.\<close>

lemma content_front:
  assumes sh: "shape k vc" and c: "content k vc (d # q)"
  shows "chunk_at k (vbuf vc) (unat (tail vc)) d \<or>
    (gap_at k (vbuf vc) (unat (tail vc)) \<and> unat (head vc) < unat (tail vc) \<and> 0 < unat (head vc) \<and>
      seg k (vbuf vc) 0 (d # q) (unat (head vc)))"
proof (cases "unat (tail vc) \<le> unat (head vc)")
  case True
  then show ?thesis using c by (simp add: content_def Let_def)
next
  case False
  then obtain q1 q2 e where s: "d # q = q1 @ q2" "q2 \<noteq> []" "seg k (vbuf vc) (unat (tail vc)) q1 e"
    "gap_at k (vbuf vc) e" "seg k (vbuf vc) 0 q2 (unat (head vc))"
    using c by (auto simp: content_def Let_def)
  show ?thesis
  proof (cases q1)
    case Nil
    then have "seg k (vbuf vc) 0 (d # q) (unat (head vc))" using s by simp
    moreover from this have "0 < unat (head vc)" using seg_le by fastforce
    ultimately show ?thesis using s Nil False by auto
  next
    case (Cons d' q1')
    then show ?thesis using s by auto
  qed
qed

lemma read_request_empty:
  assumes "shape k vc" and "content k vc []"
  shows "varchunk_read_request vc = (Ok None, vc)"
proof -
  have "unat (tail vc) = unat (head vc)"
    using assms(2) by (auto simp: content_def Let_def split: if_splits)
  then have "used k vc = 0" by (simp add: used_def)
  then show ?thesis
    using unat_read_space [OF assms(1)] by (simp add: varchunk_read_request_def Let_def unat_eq_0)
qed

lemma read_request_chunk:
  assumes sh: "shape k vc" and c: "content k vc (d # q)" and f: "front k vc d"
  shows "varchunk_read_request vc = (Ok (Some (tail vc + 8, of_nat (length d))), vc)"
proof -
  have len: "length (vbuf vc) = 2 ^ k" using sh by (simp add: shape_def)
  note b = shape_bounds [OF sh]
  have "unat (tail vc) \<noteq> unat (head vc)"
    using c f seg_le by (fastforce simp: content_def Let_def split: if_splits)
  then have "0 < used k vc" using sh by (auto simp: used_def shape_def Let_def)
  then have sp: "0 < (if head vc > tail vc then head vc - tail vc else (head vc - tail vc + vsize vc) AND vmask vc)"
    using unat_read_space [OF sh] by (simp only: word_less_nat_alt) simp
  have "unat (tail vc) < 2 ^ k" using sh by (simp add: shape_def)
  then have "unat (tail vc + 4) = unat (tail vc) + 4"
    using b(1) by (subst unat_add_no_wrap) simp_all
  then have "get32 (vbuf vc) (tail vc) = Some (of_nat (length d))" "get32 (vbuf vc) (tail vc + 4) = Some 0"
    using f len get32_header get32_no_gap by (auto simp: front_def)
  then show ?thesis using sp by (simp add: varchunk_read_request_def Let_def)
qed

lemma read_request_gap:
  assumes sh: "shape k vc" and gap: "gap_at k (vbuf vc) (unat (tail vc))"
    and s: "unat (head vc) < unat (tail vc)" "0 < unat (head vc)" "seg k (vbuf vc) 0 (d # q) (unat (head vc))"
  shows "varchunk_read_request vc = (Ok (Some (8, of_nat (length d))), vc\<lparr>tail := 0\<rparr>)"
proof -
  have len: "length (vbuf vc) = 2 ^ k" and t: "unat (tail vc) < 2 ^ k" and m: "vmask vc = mask k"
    using sh by (simp_all add: shape_def)
  note b = shape_bounds [OF sh]
  let ?sp = "if head vc > tail vc then head vc - tail vc else (head vc - tail vc + vsize vc) AND vmask vc"
  have u: "unat ?sp = unat (head vc) + 2 ^ k - unat (tail vc)"
    using unat_read_space [OF sh] s by (simp add: used_def)
  have "unat (tail vc + ?sp) = unat (head vc) + 2 ^ k"
    using u s t b(1) by (subst unat_add_no_wrap) (simp_all del: if_split)
  then have wrap: "tail vc + ?sp > vsize vc" using s b by (simp only: word_less_nat_alt)
  have pos: "0 < ?sp" using u t by (simp only: word_less_nat_alt) simp
  have "unat (tail vc + 4) = unat (tail vc) + 4" using t b(1) by (subst unat_add_no_wrap) simp_all
  with gap len have g: "get32 (vbuf vc) (tail vc + 4) = Some 1" by (rule get32_gap)
  have n: "get32 (vbuf vc) 0 = Some (of_nat (length d))" using s(3) len get32_header by auto
  have "(tail vc + (vsize vc - tail vc)) AND vmask vc = 0"
    using b by (simp add: word_unat_eq_iff m unat_and_mask)
  then have adv: "read_advance_raw (tail vc) (vsize vc - tail vc) vc = vc\<lparr>tail := 0\<rparr>"
    by (simp add: read_advance_raw_def)
  show ?thesis
    unfolding varchunk_read_request_def Let_def if_P [OF pos] if_P [OF wrap] g option.case adv n by simp
qed

lemma read_request_takes_front:
  assumes sh: "shape k vc" and c: "content k vc (d # q)"
  shows "\<exists>vc'. varchunk_read_request vc = (Ok (Some (tail vc' + 8, of_nat (length d))), vc') \<and>
    shape k vc' \<and> content k vc' (d # q) \<and> front k vc' d \<and> head vc' = head vc \<and> vbuf vc' = vbuf vc \<and>
    rsvd vc' = rsvd vc \<and> gapd vc' = gapd vc \<and> used k vc' \<le> used k vc"
  using content_front [OF sh c]
proof
  assume "chunk_at k (vbuf vc) (unat (tail vc)) d"
  then have "front k vc d" by (simp add: front_def)
  with read_request_chunk [OF sh c this] sh c show ?thesis by auto
next
  assume g: "gap_at k (vbuf vc) (unat (tail vc)) \<and> unat (head vc) < unat (tail vc) \<and>
    0 < unat (head vc) \<and> seg k (vbuf vc) 0 (d # q) (unat (head vc))"
  let ?vc = "vc\<lparr>tail := 0\<rparr>"
  have "shape k ?vc" using sh by (simp add: shape_def)
  moreover have "content k ?vc (d # q)" using g by (simp add: content_def Let_def)
  moreover have "front k ?vc d" using g by (simp add: front_def)
  moreover have "used k ?vc \<le> used k vc" using g sh by (simp add: used_def shape_def) linarith
  ultimately show ?thesis using read_request_gap [OF sh, of d q] g by auto
qed

lemma read_advance_releases:
  assumes sh: "shape k vc" and c: "content k vc (d # q)" and f: "front k vc d"
  shows "\<exists>vc'. varchunk_read_advance vc = Some vc' \<and> shape k vc' \<and> content k vc' q \<and>
    head vc' = head vc \<and> vbuf vc' = vbuf vc \<and> rsvd vc' = rsvd vc \<and> gapd vc' = gapd vc \<and> used k vc' \<le> used k vc"
proof -
  let ?h = "unat (head vc)" and ?t = "unat (tail vc)" and ?p = "pad8 (length d)"
  note b = shape_bounds [OF sh]
  have len: "length (vbuf vc) = 2 ^ k" and ht: "?h < 2 ^ k" "?t < 2 ^ k" and m: "vmask vc = mask k" and dv: "8 dvd ?t"
    using sh by (simp_all add: shape_def)
  have d: "?t + 16 + ?p \<le> 2 ^ k" "length d < 2 ^ 31" and ch: "chunk_at k (vbuf vc) ?t d"
    using f by (simp_all add: front_def chunk_at_def)
  have n: "unat (ucast (of_nat (length d) :: u32) :: u64) = length d"
    using d(2) by (simp add: unsigned_of_nat take_bit_nat_eq_self)
  have "unat (VARCHUNK_PAD (ucast (of_nat (length d) :: u32))) = ?p"
    using d(2) by (subst unat_VARCHUNK_PAD) (simp_all add: n)
  then have "unat (8 + VARCHUNK_PAD (ucast (of_nat (length d) :: u32))) = 8 + ?p"
    using d b(1) by (subst unat_add_no_wrap) simp_all
  then have adv: "unat (tail vc + (8 + VARCHUNK_PAD (ucast (of_nat (length d) :: u32)))) = ?t + 8 + ?p"
    using d b(1) by (subst unat_add_no_wrap) simp_all
  let ?vc = "read_advance_raw (tail vc) (8 + VARCHUNK_PAD (ucast (of_nat (length d) :: u32))) vc"
  have t': "unat (tail ?vc) = ?t + 8 + ?p"
    using adv d by (simp add: read_advance_raw_def m unat_and_mask)
  have run: "varchunk_read_advance vc = Some ?vc"
    using get32_header [OF ch len refl] by (simp add: varchunk_read_advance_def)
  have "shape k ?vc" using sh t' d dv by (simp add: shape_def read_advance_raw_def)
  moreover have "content k ?vc q \<and> used k ?vc \<le> used k vc"
  proof (cases "?t \<le> ?h")
    case True
    then have "seg k (vbuf vc) (?t + 8 + ?p) q ?h" using c by (simp add: content_def Let_def)
    with True t' seg_le [OF this] show ?thesis
      by (simp add: content_def used_def Let_def read_advance_raw_def)
  next
    case False
    then obtain q1 q2 e where s: "d # q = q1 @ q2" "q2 \<noteq> []" "seg k (vbuf vc) ?t q1 e"
      "gap_at k (vbuf vc) e" "seg k (vbuf vc) 0 q2 ?h"
      using c by (auto simp: content_def Let_def)
    have "q1 \<noteq> []" using s(3,4) chunk_not_gap [OF ch len] by auto
    then obtain q1' where q1: "q1 = d # q1'" using s(1) by (cases q1) auto
    have "content k ?vc (q1' @ q2)"
      by (rule content_wrapI) (use s q1 False t' in \<open>simp_all add: read_advance_raw_def\<close>)
    moreover have "used k ?vc \<le> used k vc"
      using False t' by (simp add: used_def read_advance_raw_def)
    ultimately show ?thesis using s(1) q1 by simp
  qed
  ultimately show ?thesis using run by (simp add: read_advance_raw_def)
qed

lemma reserved_consumer:
  "reserved k vc n \<Longrightarrow> head vc' = head vc \<Longrightarrow> rsvd vc' = rsvd vc \<Longrightarrow> gapd vc' = gapd vc \<Longrightarrow>
   used k vc' \<le> used k vc \<Longrightarrow> reserved k vc' n"
  by (auto simp: reserved_def split: if_splits)

lemma chunk_load_front:
  assumes "shape k vc" and "front k vc d"
  shows "chunk_load (tail vc + 8) (of_nat (length d)) vc = Some d"
proof -
  have d: "unat (tail vc) + 16 + pad8 (length d) \<le> 2 ^ k" "length d < 2 ^ 31"
    "part (vbuf vc) (unat (tail vc) + 8) (length d) = d"
    using assms(2) by (simp_all add: front_def chunk_at_def)
  have "unat (tail vc + 8) = unat (tail vc) + 8"
    using d(1) shape_bounds(1) [OF assms(1)] by (subst unat_add_no_wrap) simp_all
  moreover have "unat (of_nat (length d) :: u32) = length d"
    using d(2) by (simp add: unat_of_nat)
  ultimately show ?thesis
    using assms(1) d pad8_bounds(1) [of "length d"] by (simp add: chunk_load_def shape_def)
qed

section \<open>Producer and consumer, interleaved\<close>

text \<open>
  Between its request and its advance the producer holds a pointer, then the data it stored
  through it; between its request and its advance the consumer holds a pointer. \<open>sent\<close> are the
  chunks advanced over by the producer, \<open>got\<close> those the consumer loaded.
\<close>

datatype producer = Idle | Holding u64 nat | Filled "u8 list"
datatype consumer = Waiting | Reading u64 u32 | Loaded

record ring =
  chunks :: varchunk
  prod :: producer
  cons :: consumer
  sent :: "u8 list list"
  got :: "u8 list list"

inductive ring_step :: "ring \<Rightarrow> ring \<Rightarrow> bool" where
  request: "prod s = Idle \<Longrightarrow> unat minimum < 2 ^ 31 \<Longrightarrow>
    varchunk_write_request minimum (chunks s) = (Some p, v) \<Longrightarrow>
    ring_step s (s\<lparr>chunks := v, prod := Holding p (unat minimum)\<rparr>)"
| full: "prod s = Idle \<Longrightarrow> unat minimum < 2 ^ 31 \<Longrightarrow>
    varchunk_write_request minimum (chunks s) = (None, v) \<Longrightarrow> ring_step s (s\<lparr>chunks := v\<rparr>)"
| store: "prod s = Holding p n \<Longrightarrow> length d \<le> n \<Longrightarrow> chunk_store p d (chunks s) = Some v \<Longrightarrow>
    ring_step s (s\<lparr>chunks := v, prod := Filled d\<rparr>)"
| commit: "prod s = Filled d \<Longrightarrow> varchunk_write_advance (of_nat (length d)) (chunks s) = Some v \<Longrightarrow>
    ring_step s (s\<lparr>chunks := v, prod := Idle, sent := sent s @ [d]\<rparr>)"
| take: "cons s = Waiting \<Longrightarrow> varchunk_read_request (chunks s) = (Ok (Some (p, n)), v) \<Longrightarrow>
    ring_step s (s\<lparr>chunks := v, cons := Reading p n\<rparr>)"
| empty: "cons s = Waiting \<Longrightarrow> varchunk_read_request (chunks s) = (Ok None, v) \<Longrightarrow> ring_step s (s\<lparr>chunks := v\<rparr>)"
| load: "cons s = Reading p n \<Longrightarrow> chunk_load p n (chunks s) = Some d \<Longrightarrow>
    ring_step s (s\<lparr>cons := Loaded, got := got s @ [d]\<rparr>)"
| release: "cons s = Loaded \<Longrightarrow> varchunk_read_advance (chunks s) = Some v \<Longrightarrow>
    ring_step s (s\<lparr>chunks := v, cons := Waiting\<rparr>)"

inductive_cases ring_stepE: "ring_step s s'"

definition ring_init :: "nat \<Rightarrow> ring" where
  "ring_init k = \<lparr>chunks = varchunk_init (replicate (2 ^ k) 0) (of_nat (2 ^ k)), prod = Idle, cons = Waiting,
     sent = [], got = []\<rparr>"

inductive reachable :: "nat \<Rightarrow> ring \<Rightarrow> bool" for k where
  start: "reachable k (ring_init k)"
| step: "reachable k s \<Longrightarrow> ring_step s s' \<Longrightarrow> reachable k s'"

definition prod_ok :: "nat \<Rightarrow> ring \<Rightarrow> bool" where
  "prod_ok k s \<longleftrightarrow> (case prod s of
      Idle \<Rightarrow> True
    | Holding p n \<Rightarrow> reserved k (chunks s) n \<and> unat p = chunk_ptr (chunks s)
    | Filled d \<Rightarrow> (\<exists>n. reserved k (chunks s) n \<and> length d \<le> n) \<and> part (vbuf (chunks s)) (chunk_ptr (chunks s)) (length d) = d)"

definition cons_ok :: "nat \<Rightarrow> ring \<Rightarrow> u8 list list \<Rightarrow> bool" where
  "cons_ok k s q \<longleftrightarrow> (case cons s of
      Waiting \<Rightarrow> sent s = got s @ q
    | Reading p n \<Rightarrow> sent s = got s @ q \<and> (\<exists>d q'. q = d # q' \<and> front k (chunks s) d \<and>
        p = tail (chunks s) + 8 \<and> n = of_nat (length d))
    | Loaded \<Rightarrow> (\<exists>g d q'. got s = g @ [d] \<and> q = d # q' \<and> front k (chunks s) d \<and> sent s = g @ q))"

definition ring_inv :: "nat \<Rightarrow> ring \<Rightarrow> bool" where
  "ring_inv k s \<longleftrightarrow> (\<exists>q. shape k (chunks s) \<and> content k (chunks s) q \<and> prod_ok k s \<and> cons_ok k s q)"

lemma request_None:
  assumes "varchunk_write_request_max minimum vc = (None, vc')" and "shape k vc" and "unat minimum < 2 ^ 31"
  shows "vc' = reserve 0 0 vc"
  using assms(1) unfolding write_request_nat [OF assms(2,3)] by (auto split: if_splits)

lemma content_same:
  "head vc' = head vc \<Longrightarrow> tail vc' = tail vc \<Longrightarrow> vbuf vc' = vbuf vc \<Longrightarrow> content k vc' q = content k vc q"
  by (simp add: content_def)

text \<open>A step of the producer keeps what the consumer relies on, and the other way round.\<close>

lemma ok_updates [simp]:
  "cons_ok k (s\<lparr>prod := p\<rparr>) q = cons_ok k s q"
  "cons_ok k (s\<lparr>prod := p, sent := t\<rparr>) q = cons_ok k (s\<lparr>sent := t\<rparr>) q"
  "prod_ok k (s\<lparr>cons := c\<rparr>) = prod_ok k s" "prod_ok k (s\<lparr>got := g\<rparr>) = prod_ok k s"
  "prod_ok k (s\<lparr>sent := t\<rparr>) = prod_ok k s"
  by (simp_all add: cons_ok_def prod_ok_def split: producer.split consumer.split)

lemma cons_ok_producer:
  assumes c: "cons_ok k s q" and q: "content k (chunks s) q" and sh: "shape k (chunks s)"
    and f: "\<And>d q'. q = d # q' \<Longrightarrow> front k (chunks s) d \<Longrightarrow> front k v d" and t: "tail v = tail (chunks s)"
  shows "cons_ok k (s\<lparr>chunks := v\<rparr>) q"
  using c f t by (auto simp: cons_ok_def split: consumer.splits)

lemma cons_ok_commit:
  "cons_ok k s q \<Longrightarrow> cons_ok k (s\<lparr>sent := sent s @ [d]\<rparr>) (q @ [d])"
  by (auto simp: cons_ok_def split: consumer.splits)

lemma prod_ok_consumer:
  assumes "prod_ok k s" and same: "head v = head (chunks s)" "vbuf v = vbuf (chunks s)" "rsvd v = rsvd (chunks s)"
    "gapd v = gapd (chunks s)" "used k v \<le> used k (chunks s)"
  shows "prod_ok k (s\<lparr>chunks := v\<rparr>)"
proof -
  have "chunk_ptr v = chunk_ptr (chunks s)" using same by (simp add: chunk_ptr_def)
  then show ?thesis
    using assms(1) same reserved_consumer [OF _ same(1,3,4,5)]
    by (auto simp: prod_ok_def split: producer.splits)
qed

lemma ring_inv_request:
  assumes "ring_inv k s" and m: "unat minimum < 2 ^ 31" and r: "varchunk_write_request minimum (chunks s) = (Some p, v)"
  shows "ring_inv k (s\<lparr>chunks := v, prod := Holding p (unat minimum)\<rparr>)"
proof -
  from assms(1) obtain q where i: "shape k (chunks s)" "content k (chunks s) q" "cons_ok k s q"
    by (auto simp: ring_inv_def)
  note res = request_reserves [OF i(1) m r [unfolded varchunk_write_request_def]]
  have "cons_ok k (s\<lparr>chunks := v\<rparr>) q"
    by (rule cons_ok_producer [OF i(3,2,1)]) (use res in \<open>simp_all add: front_def\<close>)
  moreover have "content k v q" using res i(2) content_same by metis
  ultimately show ?thesis using res
    unfolding ring_inv_def by (intro exI [of _ q]) (simp add: prod_ok_def)
qed

lemma ring_inv_full:
  assumes "ring_inv k s" and idle: "prod s = Idle" and m: "unat minimum < 2 ^ 31"
    and r: "varchunk_write_request minimum (chunks s) = (None, v)"
  shows "ring_inv k (s\<lparr>chunks := v\<rparr>)"
proof -
  from assms(1) obtain q where i: "shape k (chunks s)" "content k (chunks s) q" "cons_ok k s q"
    by (auto simp: ring_inv_def)
  have v: "v = reserve 0 0 (chunks s)"
    by (rule request_None [OF r [unfolded varchunk_write_request_def] i(1) m])
  have "cons_ok k (s\<lparr>chunks := v\<rparr>) q"
    by (rule cons_ok_producer [OF i(3,2,1)]) (simp_all add: v front_def)
  moreover have "content k v q" using i(2) by (simp add: v content_def)
  ultimately show ?thesis using i(1) idle by (auto simp: ring_inv_def prod_ok_def v)
qed

lemma ring_inv_store:
  assumes "ring_inv k s" and h: "prod s = Holding p n" and d: "length d \<le> n" and st: "chunk_store p d (chunks s) = Some v"
  shows "ring_inv k (s\<lparr>chunks := v, prod := Filled d\<rparr>)"
proof -
  from assms(1) obtain q where i: "shape k (chunks s)" "content k (chunks s) q" "cons_ok k s q" "prod_ok k s"
    by (auto simp: ring_inv_def)
  have r: "reserved k (chunks s) n" "unat p = chunk_ptr (chunks s)" using i(4) h by (simp_all add: prod_ok_def)
  from chunk_store_keeps [OF i(1,2) r(1) d r(2)] st have v:
    "shape k v" "content k v q" "reserved k v n" "part (vbuf v) (chunk_ptr v) (length d) = d"
    "head v = head (chunks s)" "tail v = tail (chunks s)" "untouched k (chunks s) v" by auto
  have "cons_ok k (s\<lparr>chunks := v\<rparr>) q"
    by (rule cons_ok_producer [OF i(3,2,1)])
      (use v i front_cong [of k "chunks s" _ _ v] in \<open>auto simp: shape_def\<close>)
  then show ?thesis using v d by (auto simp: ring_inv_def prod_ok_def)
qed

lemma ring_inv_commit:
  assumes "ring_inv k s" and f: "prod s = Filled d" and adv: "varchunk_write_advance (of_nat (length d)) (chunks s) = Some v"
  shows "ring_inv k (s\<lparr>chunks := v, prod := Idle, sent := sent s @ [d]\<rparr>)"
proof -
  from assms(1) obtain q where i: "shape k (chunks s)" "content k (chunks s) q" "cons_ok k s q" "prod_ok k s"
    by (auto simp: ring_inv_def)
  obtain n where r: "reserved k (chunks s) n" "length d \<le> n" "part (vbuf (chunks s)) (chunk_ptr (chunks s)) (length d) = d"
    using i(4) f by (auto simp: prod_ok_def)
  from write_advance_commits [OF i(1,2) r] adv have v:
    "shape k v" "content k v (q @ [d])" "tail v = tail (chunks s)" "untouched k (chunks s) v" by auto
  have "cons_ok k (s\<lparr>chunks := v\<rparr>) q"
    by (rule cons_ok_producer [OF i(3,2,1)])
      (use v i front_cong [of k "chunks s" _ _ v] in \<open>auto simp: shape_def\<close>)
  from cons_ok_commit [OF this, of d] show ?thesis
    using v by (auto simp: ring_inv_def prod_ok_def)
qed

lemma ring_inv_read:
  assumes "ring_inv k s" and w: "cons s = Waiting"
  shows "varchunk_read_request (chunks s) = (Ok (Some (p, n)), v) \<Longrightarrow> ring_inv k (s\<lparr>chunks := v, cons := Reading p n\<rparr>)"
    and "varchunk_read_request (chunks s) = (Ok None, v) \<Longrightarrow> ring_inv k (s\<lparr>chunks := v\<rparr>)"
    and "fst (varchunk_read_request (chunks s)) \<noteq> Fault"
proof -
  from assms(1) obtain q where i: "shape k (chunks s)" "content k (chunks s) q" "cons_ok k s q" "prod_ok k s"
    by (auto simp: ring_inv_def)
  have got: "sent s = got s @ q" using i(3) w by (simp add: cons_ok_def)
  show "varchunk_read_request (chunks s) = (Ok (Some (p, n)), v) \<Longrightarrow> ring_inv k (s\<lparr>chunks := v, cons := Reading p n\<rparr>)"
  proof -
    assume r: "varchunk_read_request (chunks s) = (Ok (Some (p, n)), v)"
    then obtain d q' where q: "q = d # q'" using read_request_empty [OF i(1)] i(2) by (cases q) auto
    from read_request_takes_front [OF i(1), of d q'] i(2) q r have v: "shape k v" "content k v q" "front k v d"
      "p = tail v + 8" "n = of_nat (length d)" "head v = head (chunks s)" "vbuf v = vbuf (chunks s)"
      "rsvd v = rsvd (chunks s)" "gapd v = gapd (chunks s)" "used k v \<le> used k (chunks s)" by auto
    have "prod_ok k (s\<lparr>chunks := v\<rparr>)"
      by (rule prod_ok_consumer [OF i(4) v(6-10)])
    then show ?thesis using v got q by (auto simp: ring_inv_def cons_ok_def)
  qed
  show "varchunk_read_request (chunks s) = (Ok None, v) \<Longrightarrow> ring_inv k (s\<lparr>chunks := v\<rparr>)"
  proof -
    assume r: "varchunk_read_request (chunks s) = (Ok None, v)"
    then have "v = chunks s"
      using read_request_empty [OF i(1)] read_request_takes_front [OF i(1)] i(2) by (cases q) fastforce+
    then show ?thesis using assms(1) by simp
  qed
  show "fst (varchunk_read_request (chunks s)) \<noteq> Fault"
    using read_request_empty [OF i(1)] read_request_takes_front [OF i(1)] i(2) by (cases q) fastforce+
qed

lemma ring_inv_load:
  assumes "ring_inv k s" and r: "cons s = Reading p n"
  shows "\<exists>d. chunk_load p n (chunks s) = Some d \<and> ring_inv k (s\<lparr>cons := Loaded, got := got s @ [d]\<rparr>)"
proof -
  from assms(1) obtain q where i: "shape k (chunks s)" "content k (chunks s) q" "cons_ok k s q" "prod_ok k s"
    by (auto simp: ring_inv_def)
  then obtain d q' where q: "sent s = got s @ q" "q = d # q'" "front k (chunks s) d"
    "p = tail (chunks s) + 8" "n = of_nat (length d)" using r by (auto simp: cons_ok_def)
  from i q chunk_load_front [OF i(1) q(3)] show ?thesis
    by (auto simp: ring_inv_def cons_ok_def)
qed

lemma ring_inv_release:
  assumes "ring_inv k s" and r: "cons s = Loaded"
  shows "\<exists>v. varchunk_read_advance (chunks s) = Some v \<and> ring_inv k (s\<lparr>chunks := v, cons := Waiting\<rparr>)"
proof -
  from assms(1) obtain q where i: "shape k (chunks s)" "content k (chunks s) q" "cons_ok k s q" "prod_ok k s"
    by (auto simp: ring_inv_def)
  then obtain g d q' where q: "got s = g @ [d]" "q = d # q'" "front k (chunks s) d" "sent s = g @ q"
    using r by (auto simp: cons_ok_def)
  from read_advance_releases [OF i(1) _ q(3)] i(2) q(2) obtain v where v:
    "varchunk_read_advance (chunks s) = Some v" "shape k v" "content k v q'" "head v = head (chunks s)"
    "vbuf v = vbuf (chunks s)" "rsvd v = rsvd (chunks s)" "gapd v = gapd (chunks s)" "used k v \<le> used k (chunks s)" by blast
  have "prod_ok k (s\<lparr>chunks := v\<rparr>)"
    by (rule prod_ok_consumer [OF i(4) v(4-8)])
  with v q show ?thesis by (auto simp: ring_inv_def cons_ok_def)
qed

lemma ring_inv_step: "ring_step s s' \<Longrightarrow> ring_inv k s \<Longrightarrow> ring_inv k s'"
proof (induction rule: ring_step.induct)
  case (load s p n d)
  then show ?case using ring_inv_load by fastforce
next
  case (release s v)
  then show ?case using ring_inv_release by fastforce
qed (auto intro: ring_inv_request ring_inv_full ring_inv_store ring_inv_commit ring_inv_read)

lemma ring_inv_init: "4 \<le> k \<Longrightarrow> k \<le> 31 \<Longrightarrow> ring_inv k (ring_init k)"
proof -
  assume k: "4 \<le> k" "k \<le> 31"
  have "(of_nat (2 ^ k) :: u64) - 1 = mask k" by (simp add: mask_eq_exp_minus_1)
  with k show ?thesis
    by (simp add: ring_inv_def ring_init_def varchunk_init_def shape_def content_def prod_ok_def cons_ok_def)
qed

lemma reachable_inv: "reachable k s \<Longrightarrow> 4 \<le> k \<Longrightarrow> k \<le> 31 \<Longrightarrow> ring_inv k s"
  by (induction rule: reachable.induct) (auto intro: ring_inv_init ring_inv_step)

section \<open>The interface its users rely on\<close>

text \<open>
  \<open>LV2_OSC_Driver\<close> and the plugins use a ring buffer as a queue: request, fill and advance on
  one side; request, use and advance on the other. \<open>put\<close> tells whether there was room.
\<close>

primrec puts :: "('c \<Rightarrow> 's \<Rightarrow> bool \<times> 's) \<Rightarrow> 'c list \<Rightarrow> 's \<Rightarrow> bool list \<times> 's" where
  "puts put [] s = ([], s)"
| "puts put (d # ds) s = (case put d s of (ok, s1) \<Rightarrow> case puts put ds s1 of (oks, s2) \<Rightarrow> (ok # oks, s2))"

primrec gets :: "('s \<Rightarrow> 'c option \<times> 's) \<Rightarrow> nat \<Rightarrow> 's \<Rightarrow> 'c option list \<times> 's" where
  "gets get 0 s = ([], s)"
| "gets get (Suc n) s = (case get s of (d, s1) \<Rightarrow> case gets get n s1 of (ds, s2) \<Rightarrow> (d # ds, s2))"

fun accepted :: "bool list \<Rightarrow> 'c list \<Rightarrow> 'c list" where
  "accepted (True # oks) (d # ds) = d # accepted oks ds"
| "accepted (False # oks) (d # ds) = accepted oks ds"
| "accepted _ _ = []"

lemma gets_end:
  "gets get n s = (ds, s') \<Longrightarrow> get s' = (None, s') \<Longrightarrow> gets get (Suc n) s = (ds @ [None], s')"
proof (induction n arbitrary: s ds)
  case (Suc n)
  then obtain d s1 ds2 where g: "get s = (d, s1)" "gets get n s1 = (ds2, s')" "ds = d # ds2"
    by (auto split: prod.splits)
  from Suc.IH [OF g(2) Suc.prems(2)] g show ?case
    by (subst gets.simps(2)) (simp del: gets.simps)
qed simp

locale chunk_queue =
  fixes inv :: "'s \<Rightarrow> 'c list \<Rightarrow> bool" and valid :: "'c \<Rightarrow> bool"
    and put :: "'c \<Rightarrow> 's \<Rightarrow> bool \<times> 's" and get :: "'s \<Rightarrow> 'c option \<times> 's"
  assumes put: "inv s q \<Longrightarrow> valid d \<Longrightarrow> put d s = (ok, s') \<Longrightarrow> inv s' (if ok then q @ [d] else q)"
    and get_empty: "inv s [] \<Longrightarrow> get s = (None, s)"
    and get_front: "inv s (d # q) \<Longrightarrow> \<exists>s'. get s = (Some d, s') \<and> inv s' q"
begin

lemma puts_accepted:
  "inv s q \<Longrightarrow> list_all valid ds \<Longrightarrow> puts put ds s = (oks, s') \<Longrightarrow> inv s' (q @ accepted oks ds)"
proof (induction ds arbitrary: s q oks)
  case (Cons d ds)
  obtain ok s1 oks' where s1: "put d s = (ok, s1)" "puts put ds s1 = (oks', s')" "oks = ok # oks'"
    using Cons.prems(3) by (auto split: prod.splits)
  have "inv s1 (if ok then q @ [d] else q)" using put [OF Cons.prems(1) _ s1(1)] Cons.prems(2) by simp
  from Cons.IH [OF this _ s1(2)] Cons.prems(2) s1(3) show ?case by (cases ok) auto
qed simp

lemma gets_all: "inv s q \<Longrightarrow> \<exists>s'. gets get (length q) s = (map Some q, s') \<and> inv s' []"
proof (induction q arbitrary: s)
  case (Cons d q)
  from get_front [OF Cons.prems] obtain s1 where s1: "get s = (Some d, s1)" "inv s1 q" by blast
  with Cons.IH [OF s1(2)] show ?case by auto
qed simp

text \<open>What goes in comes out: the chunks accepted, in order, and then nothing.\<close>

lemma fifo:
  assumes "inv s []" and "list_all valid ds" and p: "puts put ds s = (oks, s1)"
  shows "\<exists>s2. gets get (Suc (length (accepted oks ds))) s1 = (map Some (accepted oks ds) @ [None], s2)"
proof -
  from puts_accepted [OF assms] have i: "inv s1 (accepted oks ds)" by simp
  from gets_all [OF i] obtain s2 where
    s2: "gets get (length (accepted oks ds)) s1 = (map Some (accepted oks ds), s2)" "inv s2 []" by blast
  from gets_end [OF s2(1) get_empty [OF s2(2)]] show ?thesis by blast
qed

end

definition chunk_put :: "u8 list \<Rightarrow> varchunk \<Rightarrow> bool \<times> varchunk" where
  "chunk_put d v =
     (case varchunk_write_request (of_nat (length d)) v of
        (None, v1) \<Rightarrow> (False, v1)
      | (Some p, v1) \<Rightarrow>
          (case chunk_store p d v1 of
             None \<Rightarrow> (False, v1)
           | Some v2 \<Rightarrow> (case varchunk_write_advance (of_nat (length d)) v2 of
                None \<Rightarrow> (False, v2) | Some v3 \<Rightarrow> (True, v3))))"

definition chunk_get :: "varchunk \<Rightarrow> u8 list option \<times> varchunk" where
  "chunk_get v =
     (case varchunk_read_request v of
        (Ok (Some (p, n)), v1) \<Rightarrow>
          (case varchunk_read_advance v1 of None \<Rightarrow> (None, v1) | Some v2 \<Rightarrow> (chunk_load p n v1, v2))
      | (_, v1) \<Rightarrow> (None, v1))"

definition queue_inv :: "nat \<Rightarrow> varchunk \<Rightarrow> u8 list list \<Rightarrow> bool" where
  "queue_inv k v q \<longleftrightarrow> shape k v \<and> content k v q"

lemma chunk_put_inv:
  assumes "queue_inv k v q" and d: "length d < 2 ^ 31" and p: "chunk_put d v = (ok, v')"
  shows "queue_inv k v' (if ok then q @ [d] else q)"
proof -
  have i: "shape k v" "content k v q" using assms(1) by (simp_all add: queue_inv_def)
  have n: "unat (of_nat (length d) :: u64) = length d" using d by simp
  have m: "unat (of_nat (length d) :: u64) < 2 ^ 31" using d n by simp
  show ?thesis
  proof (cases "varchunk_write_request (of_nat (length d)) v")
    case (Pair a v1)
    show ?thesis
    proof (cases a)
      case None
      then have "v1 = reserve 0 0 v"
        using request_None [OF _ i(1) m] Pair by (simp add: varchunk_write_request_def)
      moreover have "ok = False" "v' = v1" using p Pair None by (simp_all add: chunk_put_def)
      ultimately show ?thesis using i by (simp add: queue_inv_def content_def)
    next
      case (Some ptr)
      have req: "varchunk_write_request_max (of_nat (length d)) v = (Some ptr, v1)"
        using Pair Some by (simp add: varchunk_write_request_def)
      from request_reserves [OF i(1) m req] have r: "reserved k v1 (length d)" "unat ptr = chunk_ptr v1"
        "shape k v1" and same: "head v1 = head v" "tail v1 = tail v" "vbuf v1 = vbuf v" by (simp_all add: n)
      have r4: "content k v1 q" using i(2) content_same [OF same] by simp
      from chunk_store_keeps [OF r(3) r4 r(1) order_refl r(2)] obtain v2 where
        v2: "chunk_store ptr d v1 = Some v2" "shape k v2" "content k v2 q" "reserved k v2 (length d)"
          "part (vbuf v2) (chunk_ptr v2) (length d) = d" by blast
      from write_advance_commits [OF v2(2,3,4) order_refl v2(5)] obtain v3 where
        "varchunk_write_advance (of_nat (length d)) v2 = Some v3" "shape k v3" "content k v3 (q @ [d])" by blast
      then show ?thesis using p Pair Some v2(1) by (auto simp: chunk_put_def queue_inv_def)
    qed
  qed
qed

lemma chunk_get_front:
  assumes "queue_inv k v (d # q)"
  shows "\<exists>v'. chunk_get v = (Some d, v') \<and> queue_inv k v' q"
proof -
  have i: "shape k v" "content k v (d # q)" using assms by (simp_all add: queue_inv_def)
  from read_request_takes_front [OF i] obtain v1 where
    v1: "varchunk_read_request v = (Ok (Some (tail v1 + 8, of_nat (length d))), v1)" "shape k v1"
      "content k v1 (d # q)" "front k v1 d" by blast
  from read_advance_releases [OF v1(2-4)] obtain v2 where
    "varchunk_read_advance v1 = Some v2" "shape k v2" "content k v2 q" by blast
  then show ?thesis using v1 chunk_load_front [OF v1(2,4)] by (simp add: chunk_get_def queue_inv_def)
qed

interpretation vq: chunk_queue "queue_inv k" "\<lambda>d. length d < 2 ^ 31" chunk_put chunk_get for k
proof (unfold_locales, goal_cases)
  case (1 s q d ok s')
  then show ?case by (rule chunk_put_inv)
next
  case (2 s)
  then show ?case using read_request_empty [of k s] by (simp add: queue_inv_def chunk_get_def)
next
  case (3 s d q)
  then show ?case by (rule chunk_get_front)
qed

lemma queue_inv_init: "4 \<le> k \<Longrightarrow> k \<le> 31 \<Longrightarrow> queue_inv k (varchunk_init (replicate (2 ^ k) 0) (of_nat (2 ^ k))) []"
  using ring_inv_init [of k]
  by (auto simp: ring_inv_def queue_inv_def ring_init_def cons_ok_def)

section \<open>The room that is left\<close>

text \<open>
  The longest stretch the producer can still fill, at the end of the buffer or at its start. It says
  exactly which requests are granted, and a chunk takes no more of it than its header and its padded bytes.
\<close>

definition room_left :: "nat \<Rightarrow> varchunk \<Rightarrow> nat" where
  "room_left k v = (let h = unat (head v); t = unat (tail v) in
     if h < t then t - h - 1 else if t = 0 then 2 ^ k - 1 - h else max (2 ^ k - h) (t - 1))"

lemma room_left_simps [simp]: "room_left k (reserve r g v) = room_left k v" "room_left k (v\<lparr>vbuf := b\<rparr>) = room_left k v"
  by (simp_all add: room_left_def)

lemma request_grants_iff:
  assumes sh: "shape k v" and n: "unat n < 2 ^ 31"
  shows "fst (varchunk_write_request n v) \<noteq> None \<longleftrightarrow> 16 + pad8 (unat n) \<le> room_left k v"
proof -
  have d: "8 dvd unat (tail v)" and b: "unat (head v) < 2 ^ k" "unat (tail v) < 2 ^ k" using sh by (simp_all add: shape_def)
  obtain j where t: "unat (tail v) = 8 * j" using d by (rule dvdE)
  consider "unat (head v) < unat (tail v)" | "unat (tail v) = 0" | "unat (tail v) \<le> unat (head v)" "8 \<le> unat (tail v)"
    using t by (cases j) (auto simp: not_less [symmetric])
  then show ?thesis
    unfolding varchunk_write_request_def write_request_nat [OF sh n]
    by cases (use b in \<open>auto simp: room_left_def used_def Let_def\<close>)
qed

lemma request_gap:
  assumes sh: "shape k v" and n: "unat n < 2 ^ 31" and r: "varchunk_write_request n v = (Some p, v1)"
  shows "head v1 = head v" "tail v1 = tail v" "gapd v1 = 0 \<or> 2 ^ k - unat (head v) < 16 + pad8 (unat n)"
  using r unfolding varchunk_write_request_def write_request_nat [OF sh n]
  by (auto split: if_splits simp del: of_nat_diff)

lemma room_after_commit:
  assumes sh: "shape k v" and r: "reserved k v n" and l: "l \<le> n"
    and g: "gapd v = 0 \<or> 2 ^ k - unat (head v) < 16 + pad8 n"
    and adv: "varchunk_write_advance (of_nat l) v = Some v'"
  shows "room_left k v \<le> room_left k v' + (8 + pad8 l)"
proof -
  let ?h = "unat (head v)" and ?p = "pad8 l"
  have "length (replicate l (0 :: u8)) \<le> n" using l by simp
  note b = shape_bounds [OF sh] and rc = reserved_chunk [OF r this, unfolded length_replicate]
  have ht: "?h < 2 ^ k" "unat (tail v) < 2 ^ k" using sh by (simp_all add: shape_def)
  let ?n = "gapd v + 8 + VARCHUNK_PAD (of_nat l)"
  have v': "head v' = (head v + ?n) AND vmask v" "tail v' = tail v"
    using adv by (auto simp: varchunk_write_advance_def write_advance_raw_def Let_def split: if_splits option.splits)
  show ?thesis
  proof (cases "gapd v = 0")
    case True
    then have room: "?h + 16 + ?p \<le> 2 ^ k" "used k v + 16 + ?p < 2 ^ k" using r rc(2) by (simp_all add: reserved_def)
    have "unat ?n = 8 + ?p" using rc(3,4) True by (simp, subst unat_add_no_wrap) simp_all
    then have "unat (head v') = ?h + 8 + ?p" using advance_head [OF sh, of ?n] room rc(3) ht b(1) by (simp add: v')
    then show ?thesis using room ht by (auto simp: room_left_def used_def Let_def v'(2))
  next
    case False
    then have room: "unat (gapd v) = 2 ^ k - ?h" "used k v + (2 ^ k - ?h) + 16 + pad8 n < 2 ^ k" "2 ^ k - ?h < 16 + pad8 n"
      using r g by (simp_all add: reserved_def)
    then have fit: "unat (tail v) \<le> ?h" "16 + pad8 n < unat (tail v)" using ht by (auto simp: used_def Let_def split: if_splits)
    have "unat (gapd v + 8) = 2 ^ k - ?h + 8" using room(1) b(1) by (subst unat_add_no_wrap) simp_all
    then have "unat ?n = 2 ^ k - ?h + 8 + ?p" using rc(3,4) b(1) by (subst unat_add_no_wrap) simp_all
    then have "unat (head v') = 8 + ?p"
      using advance_head [OF sh, of ?n] rc(2,3) ht b(1) fit by (simp add: v' mod_if)
    then show ?thesis using room fit rc(2) ht by (auto simp: room_left_def Let_def v'(2))
  qed
qed

text \<open>
  An empty buffer is never stuck: wherever its indices have come to stand, half of it is free in one
  stretch, so it grants every request whose padded size, with two headers, is at most that.
\<close>

lemma room_left_empty:
  assumes "queue_inv k v []"
  shows "2 ^ k \<le> 2 * room_left k v"
proof -
  have sh: "shape k v" and c: "content k v []" using assms by (simp_all add: queue_inv_def)
  have e: "unat (tail v) = unat (head v)" using c by (auto simp: content_def Let_def split: if_splits)
  have h: "unat (head v) < 2 ^ k" "8 dvd unat (head v)" using sh by (simp_all add: shape_def)
  obtain j where j: "unat (head v) = 8 * j" using h(2) by (rule dvdE)
  obtain b where b: "(2 :: nat) ^ k = 8 * b" using shape_bounds(4) [OF sh] by (rule dvdE)
  show ?thesis using h shape_bounds(2) [OF sh] by (auto simp: room_left_def e j b Let_def)
qed

lemma varchunk_empty_grants:
  assumes "shape k vc" and "content k vc []" and "unat minimum < 2 ^ 31"
    and "2 * (16 + pad8 (unat minimum)) \<le> 2 ^ k"
  shows "fst (varchunk_write_request minimum vc) \<noteq> None"
  using room_left_empty [of k vc] assms unfolding request_grants_iff [OF assms(1,3)] queue_inv_def by simp

text \<open>A run in which the producer writes a second chunk while the consumer reads the first\<close>

lemma sample_transfer:
  fixes v0 defines "v0 \<equiv> varchunk_init (replicate (2 ^ 6) 0) (of_nat (2 ^ 6))"
  shows "Option.bind (chunk_store 8 [1, 2, 3] (snd (varchunk_write_request 3 v0))) (\<lambda>v2.
    Option.bind (varchunk_write_advance 3 v2) (\<lambda>v3.
    Option.bind (Some (snd (varchunk_write_request 1 (snd (varchunk_read_request v3))))) (\<lambda>v5.
    Option.bind (chunk_store 24 [4] v5) (\<lambda>v6.
    Option.bind (varchunk_write_advance 1 v6) (\<lambda>v7.
      map_option (\<lambda>v8. (fst (varchunk_write_request 3 v0), fst (varchunk_read_request v3),
        fst (varchunk_write_request 1 (snd (varchunk_read_request v3))), chunk_load 8 3 v5)) (varchunk_read_advance v7)))))) =
    Some (Some 8, Ok (Some (8, 3)), Some 24, Some [1, 2, 3])"
  unfolding v0_def by code_simp

lemma sample_reachable: "\<exists>s. reachable 6 s \<and> sent s = [[1, 2, 3], [4]] \<and> got s = [[1, 2, 3]]"
proof -
  obtain v1 v2 v3 v4 v5 v6 v7 v8 where
    v: "varchunk_write_request 3 (chunks (ring_init 6)) = (Some 8, v1)" "chunk_store 8 [1, 2, 3] v1 = Some v2"
      "varchunk_write_advance 3 v2 = Some v3" "varchunk_read_request v3 = (Ok (Some (8, 3)), v4)"
      "varchunk_write_request 1 v4 = (Some 24, v5)" "chunk_load 8 3 v5 = Some [1, 2, 3]" "chunk_store 24 [4] v5 = Some v6"
      "varchunk_write_advance 1 v6 = Some v7" "varchunk_read_advance v7 = Some v8"
    using sample_transfer by (auto simp: ring_init_def bind_eq_Some_conv) (metis prod.collapse)
  define st where "st v p c se go = \<lparr>chunks = v, prod = p, cons = c, sent = se, got = go\<rparr>" for v p c se go
  have init: "ring_init 6 = st (chunks (ring_init 6)) Idle Waiting [] []" by (simp add: ring_init_def st_def)
  have "reachable 6 (st (chunks (ring_init 6)) Idle Waiting [] [])" using reachable.start [of 6] init by simp
  moreover have "ring_step (st (chunks (ring_init 6)) Idle Waiting [] []) (st v1 (Holding 8 3) Waiting [] [])"
    using ring_step.request [of "st (chunks (ring_init 6)) Idle Waiting [] []" 3] v(1) by (simp add: st_def)
  moreover have "ring_step (st v1 (Holding 8 3) Waiting [] []) (st v2 (Filled [1, 2, 3]) Waiting [] [])"
    using ring_step.store [of "st v1 (Holding 8 3) Waiting [] []" 8 3 "[1, 2, 3]"] v(2) by (simp add: st_def)
  moreover have "ring_step (st v2 (Filled [1, 2, 3]) Waiting [] []) (st v3 Idle Waiting [[1, 2, 3]] [])"
    using ring_step.commit [of "st v2 (Filled [1, 2, 3]) Waiting [] []" "[1, 2, 3]"] v(3) by (simp add: st_def)
  moreover have "ring_step (st v3 Idle Waiting [[1, 2, 3]] []) (st v4 Idle (Reading 8 3) [[1, 2, 3]] [])"
    using ring_step.take [of "st v3 Idle Waiting [[1, 2, 3]] []"] v(4) by (simp add: st_def)
  moreover have "ring_step (st v4 Idle (Reading 8 3) [[1, 2, 3]] []) (st v5 (Holding 24 1) (Reading 8 3) [[1, 2, 3]] [])"
    using ring_step.request [of "st v4 Idle (Reading 8 3) [[1, 2, 3]] []" 1] v(5) by (simp add: st_def)
  moreover have "ring_step (st v5 (Holding 24 1) (Reading 8 3) [[1, 2, 3]] []) (st v5 (Holding 24 1) Loaded [[1, 2, 3]] [[1, 2, 3]])"
    using ring_step.load [of "st v5 (Holding 24 1) (Reading 8 3) [[1, 2, 3]] []" 8 3] v(6) by (simp add: st_def)
  moreover have "ring_step (st v5 (Holding 24 1) Loaded [[1, 2, 3]] [[1, 2, 3]]) (st v6 (Filled [4]) Loaded [[1, 2, 3]] [[1, 2, 3]])"
    using ring_step.store [of "st v5 (Holding 24 1) Loaded [[1, 2, 3]] [[1, 2, 3]]" 24 1 "[4]"] v(7) by (simp add: st_def)
  moreover have "ring_step (st v6 (Filled [4]) Loaded [[1, 2, 3]] [[1, 2, 3]]) (st v7 Idle Loaded [[1, 2, 3], [4]] [[1, 2, 3]])"
    using ring_step.commit [of "st v6 (Filled [4]) Loaded [[1, 2, 3]] [[1, 2, 3]]" "[4]"] v(8) by (simp add: st_def)
  moreover have "ring_step (st v7 Idle Loaded [[1, 2, 3], [4]] [[1, 2, 3]]) (st v8 Idle Waiting [[1, 2, 3], [4]] [[1, 2, 3]])"
    using ring_step.release [of "st v7 Idle Loaded [[1, 2, 3], [4]] [[1, 2, 3]]"] v(9) by (simp add: st_def)
  ultimately have "reachable 6 (st v8 Idle Waiting [[1, 2, 3], [4]] [[1, 2, 3]])" by (meson reachable.step)
  then show ?thesis by (auto simp: st_def)
qed

section \<open>Properties\<close>

text \<open>
  C11. The ring buffer is a FIFO queue under every interleaving of producer and consumer: at any
  time the chunks the consumer has loaded are the first ones the producer committed, in the
  order it committed them and with the bytes it stored.
\<close>

theorem varchunk_fifo:
  assumes "reachable k s" and "4 \<le> k" and "k \<le> 31"
  shows "\<exists>q. sent s = got s @ q"
proof -
  obtain q where "cons_ok k s q" using reachable_inv [OF assms] by (auto simp: ring_inv_def)
  then show ?thesis by (cases "cons s") (auto simp: cons_ok_def)
qed

theorem varchunk_fifo_witness:
  "\<exists>s q. reachable 6 s \<and> sent s = [[1, 2, 3], [4]] \<and> got s = [[1, 2, 3]] \<and> sent s = got s @ q \<and> q = [[4]]"
proof -
  obtain s where s: "reachable 6 s" "sent s = [[1, 2, 3], [4]]" "got s = [[1, 2, 3]]" using sample_reachable by blast
  have "\<exists>q. sent s = got s @ q" by (rule varchunk_fifo [OF s(1)]) simp_all
  with s show ?thesis by (intro exI [of _ s]) auto
qed

text \<open>
  No step of producer or consumer goes wrong in a reachable state: data up to the requested
  size is stored inside the buffer, the assertion of the write advance holds, and the headers
  and chunks read lie inside the buffer. A waiting consumer is handed the next chunk committed,
  or nothing exactly when it has loaded all of them.
\<close>

theorem varchunk_progress:
  assumes "reachable k s" and "4 \<le> k" and "k \<le> 31"
  shows "(case prod s of
      Idle \<Rightarrow> True
    | Holding p n \<Rightarrow> (\<forall>d. length d \<le> n \<longrightarrow> chunk_store p d (chunks s) \<noteq> None)
    | Filled d \<Rightarrow> varchunk_write_advance (of_nat (length d)) (chunks s) \<noteq> None) \<and>
    (case cons s of
      Waiting \<Rightarrow> (if sent s = got s then varchunk_read_request (chunks s) = (Ok None, chunks s)
        else \<exists>p n v. varchunk_read_request (chunks s) = (Ok (Some (p, n)), v) \<and>
          chunk_load p n v = Some (sent s ! length (got s)))
    | Reading p n \<Rightarrow> chunk_load p n (chunks s) \<noteq> None
    | Loaded \<Rightarrow> varchunk_read_advance (chunks s) \<noteq> None)"
proof -
  have inv: "ring_inv k s" by (rule reachable_inv [OF assms])
  then obtain q where i: "shape k (chunks s)" "content k (chunks s) q" "cons_ok k s q" "prod_ok k s"
    by (auto simp: ring_inv_def)
  have "case prod s of Idle \<Rightarrow> True
    | Holding p n \<Rightarrow> (\<forall>d. length d \<le> n \<longrightarrow> chunk_store p d (chunks s) \<noteq> None)
    | Filled d \<Rightarrow> varchunk_write_advance (of_nat (length d)) (chunks s) \<noteq> None"
    using i(4) chunk_store_keeps [OF i(1,2)] write_advance_commits [OF i(1,2)]
    by (fastforce simp: prod_ok_def split: producer.splits)
  moreover have "if sent s = got s then varchunk_read_request (chunks s) = (Ok None, chunks s)
        else \<exists>p n v. varchunk_read_request (chunks s) = (Ok (Some (p, n)), v) \<and>
          chunk_load p n v = Some (sent s ! length (got s))" if "cons s = Waiting"
  proof (cases q)
    case Nil
    then show ?thesis using i that read_request_empty [OF i(1)] by (simp add: cons_ok_def)
  next
    case (Cons d q')
    with read_request_takes_front [OF i(1)] i(2) chunk_load_front i(3) that show ?thesis
      by (fastforce simp: cons_ok_def nth_append)
  qed
  ultimately show ?thesis
    using ring_inv_load [OF inv] ring_inv_release [OF inv] by (fastforce split: consumer.splits)
qed

theorem varchunk_progress_witness:
  "varchunk_read_request (chunks (ring_init 4)) = (Ok None, chunks (ring_init 4))"
  using varchunk_progress [OF reachable.start, of 4] by (simp add: ring_init_def)

text \<open>
  Used as a queue the ring buffer loses and invents nothing: after any sequence of writes,
  of which some may be refused, reading gives the accepted chunks in order, and then nothing.
\<close>

theorem varchunk_is_queue:
  assumes "4 \<le> k" and "k \<le> 31" and "list_all (\<lambda>d. length d < 2 ^ 31) ds"
    and "puts chunk_put ds (varchunk_init (replicate (2 ^ k) 0) (of_nat (2 ^ k))) = (oks, v)"
  shows "\<exists>v'. gets chunk_get (Suc (length (accepted oks ds))) v = (map Some (accepted oks ds) @ [None], v')"
  by (rule vq.fifo [OF queue_inv_init [OF assms(1,2)] assms(3,4)])

theorem varchunk_is_queue_witness:
  "\<exists>oks v v'. let ds = [[1, 2, 3 :: u8], [4]] in
    puts chunk_put ds (varchunk_init (replicate (2 ^ 6) 0) (of_nat (2 ^ 6))) = (oks, v) \<and>
    gets chunk_get (Suc (length (accepted oks ds))) v = (map Some (accepted oks ds) @ [None], v')"
proof -
  let ?ds = "[[1, 2, 3 :: u8], [4]]"
  obtain oks v where p: "puts chunk_put ?ds (varchunk_init (replicate (2 ^ 6) 0) (of_nat (2 ^ 6))) = (oks, v)"
    by (cases "puts chunk_put ?ds (varchunk_init (replicate (2 ^ 6) 0) (of_nat (2 ^ 6)))") blast
  have "\<exists>v'. gets chunk_get (Suc (length (accepted oks ?ds))) v = (map Some (accepted oks ?ds) @ [None], v')"
    by (rule varchunk_is_queue [OF _ _ _ p]) simp_all
  with p show ?thesis unfolding Let_def by blast
qed

text \<open>
  The \<open>maximum\<close> a request reports counts the element header in: in a fresh buffer, writing
  that many bytes through the pointer returned leaves the buffer.
\<close>

theorem varchunk_maximum_overruns:
  assumes "4 \<le> k" and "k \<le> 31" and "unat minimum < 2 ^ 31" and "16 + pad8 (unat minimum) < 2 ^ k"
  shows "\<exists>p vc'. varchunk_write_request_max minimum (varchunk_init (replicate (2 ^ k) 0) (of_nat (2 ^ k))) = (Some p, vc') \<and>
    length (vbuf vc') < unat p + unat (rsvd vc')"
proof -
  let ?vc = "varchunk_init (replicate (2 ^ k) 0) (of_nat (2 ^ k))"
  have sh: "shape k ?vc" using queue_inv_init [OF assms(1,2)] by (simp add: queue_inv_def)
  note b = shape_bounds [OF sh]
  have u: "used k ?vc = 0" by (simp add: used_def varchunk_init_def)
  have h: "head ?vc = 0" "vbuf ?vc = replicate (2 ^ k) 0" by (simp_all add: varchunk_init_def)
  have "unat (of_nat (2 ^ k - 1) :: u64) = 2 ^ k - 1"
    using b(1) by (simp del: of_nat_diff)
  moreover have "\<not> (2 :: nat) ^ k - Suc 0 < 16 + pad8 (unat minimum)" "\<not> (2 :: nat) ^ k < 2 ^ k - Suc 0"
    using assms(4) b(2) by linarith+
  ultimately show ?thesis
    unfolding write_request_nat [OF sh assms(3)] u h
    using b(2) by (simp add: h del: of_nat_diff of_nat_power)
qed

theorem varchunk_maximum_overruns_witness:
  "\<exists>p vc'. varchunk_write_request_max 8 (varchunk_init (replicate (2 ^ 6) 0) (of_nat (2 ^ 6))) = (Some p, vc') \<and>
    length (vbuf vc') < unat p + unat (rsvd vc')"
  by (rule varchunk_maximum_overruns) (simp_all add: pad8_def)

end
