(* ===== verification/Runs.thy ===== *)
theory Runs
  imports Prelude
begin

text \<open>
  Runs of code with loops that follow data: they are done, touch memory they may not, or run out
  of fuel. \<open>run_ok\<close> says that a run is done with a result of which a property holds.
\<close>

datatype 'a run = Done 'a | Undefined | Endless

definition run_bind :: "'a run \<Rightarrow> ('a \<Rightarrow> 'b run) \<Rightarrow> 'b run" where
  "run_bind r f = (case r of Done x \<Rightarrow> f x | Undefined \<Rightarrow> Undefined | Endless \<Rightarrow> Endless)"

lemma run_bind_simps [simp]: "run_bind (Done x) f = f x" "run_bind Undefined f = Undefined" "run_bind Endless f = Endless"
  by (simp_all add: run_bind_def)

lemma run_bind_assoc [simp]: "run_bind (run_bind r f) g = run_bind r (\<lambda>x. run_bind (f x) g)"
  by (cases r) simp_all

definition lift :: "'a option \<Rightarrow> 'a run" where
  "lift x = (case x of None \<Rightarrow> Undefined | Some y \<Rightarrow> Done y)"

lemma lift_simps [simp]: "lift None = Undefined" "lift (Some x) = Done x"
  by (simp_all add: lift_def)

definition run_ok :: "'a run \<Rightarrow> ('a \<Rightarrow> bool) \<Rightarrow> bool" where
  "run_ok r P \<longleftrightarrow> (\<exists>x. r = Done x \<and> P x)"

lemma run_ok_Done [simp]: "run_ok (Done x) P \<longleftrightarrow> P x"
  by (simp add: run_ok_def)

lemma run_ok_bind: "run_ok r P \<Longrightarrow> (\<And>x. P x \<Longrightarrow> run_ok (f x) Q) \<Longrightarrow> run_ok (run_bind r f) Q"
  by (auto simp: run_ok_def)

lemma run_ok_mono: "run_ok r P \<Longrightarrow> (\<And>x. P x \<Longrightarrow> Q x) \<Longrightarrow> run_ok r Q"
  by (auto simp: run_ok_def)

end
