(* ===== verification/Ring.thy ===== *)
theory Ring
  imports Varchunk Osc_Writer Osc_Reader Runs
begin

text \<open>
  How the plugins use the ring buffers of \<open>varchunk.h\<close>: copy a block in, let an OSC writer work in
  the space that was granted, or look at the chunk at the front. The memory of a buffer is at an
  address \<open>base\<close>; what the code does through a pointer goes to that memory. \<open>None\<close> is
  undefined behaviour.
\<close>

section \<open>Operations\<close>

definition ring_mem :: "addr \<Rightarrow> varchunk \<Rightarrow> mem" where
  "ring_mem base v = region base (vbuf v)"

text \<open>\<open>if((dst = varchunk_write_request(rb, n))) { memcpy(dst, buf, n); varchunk_write_advance(rb, n); }\<close>\<close>

definition ring_send :: "u8 list \<Rightarrow> varchunk \<Rightarrow> (bool \<times> varchunk) option" where
  "ring_send bs v =
     (case varchunk_write_request (of_nat (length bs)) v of
        (None, v1) \<Rightarrow> Some (False, v1)
      | (Some p, v1) \<Rightarrow> Option.bind (chunk_store p bs v1) (\<lambda>v2.
          map_option (Pair True) (varchunk_write_advance (of_nat (length bs)) v2)))"

text \<open>A writer on the granted space; what it returns is not looked at, and no bytes are not sent.\<close>

definition ring_write :: "addr \<Rightarrow> u64 \<Rightarrow> (unit, wstate) call \<Rightarrow> varchunk \<Rightarrow> (bool \<times> varchunk) option" where
  "ring_write base n wr v =
     (case varchunk_write_request n v of
        (None, v1) \<Rightarrow> Some (False, v1)
      | (Some p, v1) \<Rightarrow>
          (case wr (ring_mem base v1, lv2_osc_writer_initialize (base + p) n) of
             (Fault, s) \<Rightarrow> None
           | (_, (m, w)) \<Rightarrow> Option.bind (ld m base (length (vbuf v1))) (\<lambda>buf.
               let v2 = v1\<lparr>vbuf := buf\<rparr>; written = fst (lv2_osc_writer_finalize w) in
               if written = 0 then Some (True, v2)
               else map_option (Pair True) (varchunk_write_advance written v2))))"

text \<open>The front chunk: its pointer and size, or \<open>None\<close> for \<open>NULL\<close>.\<close>

definition ring_front :: "varchunk \<Rightarrow> ((u64 \<times> u32) option \<times> varchunk) option" where
  "ring_front v = (case varchunk_read_request v of (Ok x, v1) \<Rightarrow> Some (x, v1) | _ \<Rightarrow> None)"

section \<open>What they do to the queue\<close>

lemma queue_inv_vbuf: "queue_inv k v q \<Longrightarrow> length (vbuf v) = 2 ^ k \<and> 2 ^ k \<le> (2147483648 :: nat)"
  using shape_bounds(1) [of k v] by (simp add: queue_inv_def shape_def)

lemma request_grants [consumes 2]:
  assumes q: "queue_inv k v q" and n: "unat n < 2 ^ 31"
  obtains (full) v1 where "varchunk_write_request n v = (None, v1)" "queue_inv k v1 q"
    "room_left k v < 16 + pad8 (unat n)" "room_left k v1 = room_left k v"
  | (room) p v1 where "varchunk_write_request n v = (Some p, v1)" "queue_inv k v1 q" "reserved k v1 (unat n)" "unat p = chunk_ptr v1"
    "16 + pad8 (unat n) \<le> room_left k v" "room_left k v1 = room_left k v" "gapd v1 = 0 \<or> 2 ^ k - unat (head v1) < 16 + pad8 (unat n)"
proof -
  have i: "shape k v" "content k v q" using q by (simp_all add: queue_inv_def)
  obtain a v1 where r: "varchunk_write_request_max n v = (a, v1)" by force
  show thesis
  proof (cases a)
    case None
    then have "v1 = reserve 0 0 v" using request_None [OF _ i(1) n] r by simp
    then show thesis using r None i request_grants_iff [OF i(1) n]
      by (intro full [of v1]) (simp_all add: varchunk_write_request_def queue_inv_def content_def)
  next
    case (Some p)
    from request_reserves [OF i(1) n r [unfolded Some]] have
      s: "reserved k v1 (unat n)" "unat p = chunk_ptr v1" "shape k v1" "head v1 = head v" "tail v1 = tail v" "vbuf v1 = vbuf v"
      by auto
    moreover have "varchunk_write_request n v = (Some p, v1)" using r Some by (simp add: varchunk_write_request_def)
    ultimately show thesis using content_same [OF s(4-6)] i request_grants_iff [OF i(1) n] request_gap [OF i(1) n]
      by (intro room [of p v1]) (simp_all add: queue_inv_def room_left_def)
  qed
qed

lemma store_advance:
  assumes q: "queue_inv k v q" and r: "reserved k v n" and d: "length d \<le> n" and p: "unat p = chunk_ptr v"
    and l: "l \<le> length d"
  obtains v1 v2 where "chunk_store p d v = Some v1" "queue_inv k v1 q"
    "varchunk_write_advance (of_nat l) v1 = Some v2" "queue_inv k v2 (q @ [take l d])"
proof -
  have i: "shape k v" "content k v q" using q by (simp_all add: queue_inv_def)
  from chunk_store_keeps [OF i r d p] obtain v1 where v1: "chunk_store p d v = Some v1" "shape k v1" "content k v1 q"
    "reserved k v1 n" "part (vbuf v1) (chunk_ptr v1) (length d) = d" by blast
  have "part (vbuf v1) (chunk_ptr v1) (length (take l d)) = take l (part (vbuf v1) (chunk_ptr v1) (length d))"
    using l by (simp add: part_def min_absorb1)
  then have "part (vbuf v1) (chunk_ptr v1) (length (take l d)) = take l d" by (simp only: v1(5))
  from write_advance_commits [OF v1(2-4) _ this] d l obtain v2 where
    "varchunk_write_advance (of_nat l) v1 = Some v2" "shape k v2" "content k v2 (q @ [take l d])" by (auto simp: min_absorb2)
  then show thesis using v1 by (intro that) (simp_all add: queue_inv_def)
qed

text \<open>A chunk takes its header and its padded bytes of the room.\<close>

lemma store_advance_room:
  assumes q: "queue_inv k v q" and r: "reserved k v n" and g: "gapd v = 0 \<or> 2 ^ k - unat (head v) < 16 + pad8 n" and l: "l \<le> n"
    and st: "chunk_store p d v = Some v1" "varchunk_write_advance (of_nat l) v1 = Some v2"
  shows "room_left k v \<le> room_left k v2 + (8 + pad8 l)"
proof -
  from st(1) obtain b where v1: "v1 = v\<lparr>vbuf := b\<rparr>" "length b = length (vbuf v)"
    by (auto simp: chunk_store_def split: if_splits)
  then have "shape k v1" "reserved k v1 n" using q r by (simp_all add: queue_inv_def shape_def)
  from room_after_commit [OF this l _ st(2)] g v1(1) show ?thesis by simp
qed

lemma ring_send_queues:
  assumes q: "queue_inv k v q" and n: "length bs < 2 ^ 31"
  obtains ok v' where "ring_send bs v = Some (ok, v')" "queue_inv k v' (if ok then q @ [bs] else q)"
proof -
  have u: "unat (of_nat (length bs) :: u64) = length bs" using n by simp
  then have "unat (of_nat (length bs) :: u64) < 2 ^ 31" using n by simp
  with q show thesis
  proof (cases rule: request_grants)
    case (full v1)
    then show thesis by (intro that [of False v1]) (simp_all add: ring_send_def)
  next
    case (room p v1)
    obtain v2 v3 where
      "chunk_store p bs v1 = Some v2" "varchunk_write_advance (of_nat (length bs)) v2 = Some v3" "queue_inv k v3 (q @ [bs])"
      by (rule store_advance [OF room(2,3) _ room(4) order_refl, of bs]) (simp_all add: u)
    then show thesis using room(1) by (intro that [of True v3]) (simp_all add: ring_send_def)
  qed
qed

text \<open>A block is refused exactly when there is no room for it.\<close>

lemma ring_send_room:
  assumes q: "queue_inv k v q" and n: "length bs < 2 ^ 31" and s: "ring_send bs v = Some (ok, v')"
  shows "ok \<longleftrightarrow> 16 + pad8 (length bs) \<le> room_left k v"
    and "room_left k v \<le> room_left k v' + (if ok then 8 + pad8 (length bs) else 0)"
proof -
  have u: "unat (of_nat (length bs) :: u64) = length bs" using n by simp
  then have "unat (of_nat (length bs) :: u64) < 2 ^ 31" using n by simp
  with q have "(ok \<longleftrightarrow> 16 + pad8 (length bs) \<le> room_left k v) \<and>
      room_left k v \<le> room_left k v' + (if ok then 8 + pad8 (length bs) else 0)"
  proof (cases rule: request_grants)
    case (full v1)
    then show ?thesis using s u by (simp add: ring_send_def)
  next
    case (room p v1)
    from s room(1) obtain v2 where
      v2: "ok" "chunk_store p bs v1 = Some v2" "varchunk_write_advance (of_nat (length bs)) v2 = Some v'"
      by (auto simp: ring_send_def bind_eq_Some_conv)
    from store_advance_room [OF room(2,3,7) _ v2(2,3)] room(5,6) v2(1) u show ?thesis by simp
  qed
  then show "ok \<longleftrightarrow> 16 + pad8 (length bs) \<le> room_left k v"
    and "room_left k v \<le> room_left k v' + (if ok then 8 + pad8 (length bs) else 0)" by blast+
qed

text \<open>
  Blocks offered one after the other: each is taken exactly when there is room for it as it comes.
  \<open>queued\<close> says what this does to the queue; when there is room for all at the start, all are taken.
\<close>

fun offered :: "nat \<Rightarrow> u8 list list \<Rightarrow> bool list \<Rightarrow> varchunk \<Rightarrow> varchunk \<Rightarrow> bool" where
  "offered k [] [] v v' \<longleftrightarrow> v' = v"
| "offered k (d # ds) (ok # oks) v v' \<longleftrightarrow>
     (\<exists>v1. ring_send d v = Some (ok, v1) \<and> (ok \<longleftrightarrow> 16 + pad8 (length d) \<le> room_left k v) \<and> offered k ds oks v1 v')"
| "offered k _ _ v v' \<longleftrightarrow> False"

definition blocks_size :: "u8 list list \<Rightarrow> nat" where
  "blocks_size ds = sum_list (map (\<lambda>d. 8 + pad8 (length d)) ds)"

lemma blocks_size_simps [simp]: "blocks_size [] = 0" "blocks_size (d # ds) = 8 + pad8 (length d) + blocks_size ds"
  "blocks_size (ds @ es) = blocks_size ds + blocks_size es"
  by (simp_all add: blocks_size_def)

definition queued :: "nat \<Rightarrow> varchunk \<Rightarrow> u8 list list \<Rightarrow> u8 list list \<Rightarrow> bool list \<Rightarrow> varchunk \<Rightarrow> bool" where
  "queued k v q ds oks v' \<longleftrightarrow> offered k ds oks v v' \<and> queue_inv k v' (q @ accepted oks ds) \<and>
     room_left k v \<le> room_left k v' + blocks_size ds \<and> (blocks_size ds + 8 \<le> room_left k v \<longrightarrow> accepted oks ds = ds)"

lemma queued_Nil: "queue_inv k v q \<Longrightarrow> queued k v q [] [] v"
  by (simp add: queued_def)

lemma offered_append: "offered k ds oks v v1 \<Longrightarrow> offered k es oks' v1 v2 \<Longrightarrow> offered k (ds @ es) (oks @ oks') v v2"
  by (induction k ds oks v v1 rule: offered.induct) auto

lemma accepted_append: "offered k ds oks v v1 \<Longrightarrow> accepted (oks @ oks') (ds @ es) = accepted oks ds @ accepted oks' es"
proof (induction k ds oks v v1 rule: offered.induct)
  case (2 k d ds ok oks v v')
  then show ?case by (cases ok) auto
qed simp_all

lemma queued_append:
  assumes "queued k v q ds oks v1" and "queued k v1 (q @ accepted oks ds) es oks' v2"
  shows "queued k v q (ds @ es) (oks @ oks') v2"
proof -
  have "offered k ds oks v v1" using assms(1) by (simp add: queued_def)
  note accepted_append [OF this, of oks' es]
  with assms show ?thesis by (auto simp: queued_def intro: offered_append)
qed

lemma queued_send:
  assumes q: "queue_inv k v q" and n: "length d < 2 ^ 31"
  obtains ok v' where "ring_send d v = Some (ok, v')" "queued k v q [d] [ok] v'"
proof -
  obtain ok v' where s: "ring_send d v = Some (ok, v')" "queue_inv k v' (if ok then q @ [d] else q)" by (rule ring_send_queues [OF q n])
  with ring_send_room [OF q n s(1)] show thesis by (intro that [of ok v']) (auto simp: queued_def)
qed

lemma ring_send_empty:
  assumes q: "queue_inv k v []" and n: "length bs < 2 ^ 31" "2 * (16 + pad8 (length bs)) \<le> 2 ^ k"
  obtains v' where "ring_send bs v = Some (True, v')" "queue_inv k v' [bs]"
proof -
  obtain ok v' where s: "ring_send bs v = Some (ok, v')" "queue_inv k v' (if ok then [] @ [bs] else [])"
    by (rule ring_send_queues [OF q n(1)])
  have "unat (of_nat (length bs) :: u64) = length bs" using n(1) by simp
  then have "fst (varchunk_write_request (of_nat (length bs)) v) \<noteq> None"
    using q n by (intro varchunk_empty_grants [of k]) (simp_all add: queue_inv_def)
  with s(1) have ok by (auto simp: ring_send_def bind_eq_Some_conv split: prod.splits option.splits)
  with s show thesis using that by simp
qed

lemma ring_front_empty: "queue_inv k v [] \<Longrightarrow> ring_front v = Some (None, v)"
  using read_request_empty [of k v] by (simp add: ring_front_def queue_inv_def)

lemma ring_front_chunk:
  assumes "queue_inv k v (d # q)"
  obtains p v1 v2 where "ring_front v = Some (Some (p, of_nat (length d)), v1)" "queue_inv k v1 (d # q)"
    "chunk_load p (of_nat (length d)) v1 = Some d" "length d < 2 ^ 31"
    "varchunk_read_advance v1 = Some v2" "queue_inv k v2 q"
proof -
  have i: "shape k v" "content k v (d # q)" using assms by (simp_all add: queue_inv_def)
  from read_request_takes_front [OF i] obtain v1 where
    v1: "varchunk_read_request v = (Ok (Some (tail v1 + 8, of_nat (length d))), v1)" "shape k v1"
      "content k v1 (d # q)" "front k v1 d" by blast
  from read_advance_releases [OF v1(2-4)] obtain v2 where
    "varchunk_read_advance v1 = Some v2" "shape k v2" "content k v2 q" by blast
  then show thesis using v1 chunk_load_front [OF v1(2,4)]
    by (intro that [of "tail v1 + 8" v1 v2]) (auto simp: ring_front_def queue_inv_def front_def chunk_at_def)
qed

section \<open>Writing in place\<close>

lemma finalize_view: "wview (m, w) out rest \<Longrightarrow> fst (lv2_osc_writer_finalize w) = of_nat (length out)"
proof -
  assume v: "wview (m, w) out rest"
  then have "unat (wptr w) = unat (wbuf w) + length out" "wptr w - wbuf w = of_nat (length out)"
    by (simp_all add: wview_def unat_word_ariths)
  then show ?thesis
    by (auto simp: lv2_osc_writer_finalize_def lv2_osc_writer_get_size_def word_less_nat_alt Let_def)
qed

lemma mem_at_get: "mem_at m a bs \<Longrightarrow> i < length bs \<Longrightarrow> m (a + of_nat i) = Some (bs ! i)"
  using mem_at_split [of m a bs i] by (cases "drop i bs") (auto simp: nth_via_drop)

lemma region_overwritten:
  assumes len: "p + length d \<le> length buf" "length buf < 2 ^ 64" and d: "mem_at m (base + of_nat p) d"
    and same: "\<And>x. length d \<le> unat (x - (base + of_nat p)) \<Longrightarrow> m x = region base buf x"
  shows "ld m base (length buf) = Some (overwrite p d buf)"
proof -
  have "mem_at m base (overwrite p d buf)"
  proof (rule mem_at_nth)
    fix i assume "i < length (overwrite p d buf)"
    then have i: "i < length buf" using len(1) by simp
    show "m (base + of_nat i) = Some (overwrite p d buf ! i)"
    proof (cases "p \<le> i \<and> i < p + length d")
      case True
      have "m (base + of_nat p + of_nat (i - p)) = Some (d ! (i - p))"
        using d True by (intro mem_at_get) auto
      moreover have "base + of_nat p + of_nat (i - p) = base + of_nat i" using True by (simp flip: of_nat_add)
      ultimately show ?thesis using True len(1) i by (simp add: nth_overwrite)
    next
      case False
      have "length d \<le> unat (base + of_nat i - (base + of_nat p))"
      proof (cases "i < p")
        case True
        have "base + of_nat i - (base + of_nat p) = - of_nat (p - i)" using True by (simp add: of_nat_diff)
        moreover have "unat (- of_nat (p - i) :: u64) = 2 ^ 64 - (p - i)"
          using True i len unat_neg_of_nat64 [of "p - i"] by simp
        ultimately show ?thesis using len True by simp
      next
        case ge: False
        then have "base + of_nat i - (base + of_nat p) = of_nat (i - p)" by (simp add: of_nat_diff)
        moreover have "unat (of_nat (i - p) :: u64) = i - p" using i len by (intro unat_of_nat64) simp
        ultimately show ?thesis using False ge by simp
      qed
      then have "m (base + of_nat i) = region base buf (base + of_nat i)" by (rule same)
      moreover have "unat (of_nat i :: u64) = i" using i len(2) by simp
      ultimately show ?thesis using False i len(1) by (auto simp: region_def nth_overwrite)
    qed
  qed
  then show ?thesis using ld_mem_at len(1) by (metis length_overwrite)
qed

lemma view_in_ring:
  assumes "p + n \<le> length (vbuf v)" and "length (vbuf v) \<le> 2147483648"
  shows "mem_at (ring_mem base v) (base + of_nat p) (part (vbuf v) p n)"
proof -
  have "mem_at (ring_mem base v) base (take p (vbuf v) @ part (vbuf v) p n @ drop (p + n) (vbuf v))"
    using assms mem_at_region [of "vbuf v" base]
    by (simp add: ring_mem_def part_def append_assoc [symmetric] del: append_assoc mem_at_append)
      (metis append.assoc append_take_drop_id drop_drop add.commute)
  then show ?thesis using assms(1) by simp
qed

lemma reserved_inside:
  assumes "queue_inv k v q" and "reserved k v n"
  shows "chunk_ptr v + n \<le> 2 ^ k"
proof -
  have "unat (head v) < 2 ^ k" using assms(1) by (simp add: queue_inv_def shape_def)
  then show ?thesis
    using assms(2) pad8_bounds(1) [of n] by (auto simp: reserved_def chunk_ptr_def split: if_splits)
qed

text \<open>When what is written fits into the space asked for, it becomes the chunk, or there was no room.\<close>

lemma ring_write_queues:
  assumes q: "queue_inv k v q" and n: "unat n < 2 ^ 31" and base: "unat base + 2 ^ k + 2 ^ 33 \<le> 2 ^ 64"
    and op: "writer_op wr enc"
    and enc: "\<And>rest. length rest = unat n \<Longrightarrow> length (enc rest) < unat n \<and> enc rest \<noteq> []"
  obtains (refused) v' where "ring_write base n wr v = Some (False, v')" "queue_inv k v' q"
    "room_left k v < 16 + pad8 (unat n)" "room_left k v' = room_left k v"
  | (written) v' rest where "ring_write base n wr v = Some (True, v')" "length rest = unat n" "queue_inv k v' (q @ [enc rest])"
    "16 + pad8 (unat n) \<le> room_left k v" "room_left k v \<le> room_left k v' + (8 + pad8 (length (enc rest)))"
  using q n
proof (cases rule: request_grants)
  case (full v1)
  then show thesis by (intro refused [of v1]) (simp_all add: ring_write_def)
next
  case (room p v1)
  note L = queue_inv_vbuf [OF room(2)]
  have fit: "unat p + unat n \<le> length (vbuf v1)" using reserved_inside [OF room(2,3)] room(4) L by simp
  define rest where "rest = part (vbuf v1) (unat p) (unat n)"
  have len: "length rest = unat n" using fit by (simp add: rest_def)
  have pb: "unat (base + p) = unat base + unat p" using base fit L by (subst unat_add_no_wrap) auto
  let ?w = "lv2_osc_writer_initialize (base + p) n"
  have view: "wview (ring_mem base v1, ?w) [] rest"
    using view_in_ring [OF fit, of base] L fit base pb len
    by (simp add: wview_def lv2_osc_writer_initialize_def rest_def)
  have fits: "fits (length (enc rest)) rest" using enc [OF len] len by (simp add: fits_def)
  from writer_op.room [OF op view fits] obtain m w where
    run: "wr (ring_mem base v1, ?w) = (Ok (), m, w)" and
    after: "wview (m, w) (enc rest) (drop (length (enc rest)) rest)" and same: "wsame (ring_mem base v1, ?w) (m, w)" by auto
  define d where "d = enc rest @ drop (length (enc rest)) rest"
  have ld: "length d = unat n" using enc [OF len] len by (simp add: d_def)
  have wb: "wbuf w = base + p" using same by (simp add: wsame_def lv2_osc_writer_initialize_def)
  have "ld m base (length (vbuf v1)) = Some (overwrite (unat p) d (vbuf v1))"
  proof (rule region_overwritten)
    show "mem_at m (base + of_nat (unat p)) d" using after wb by (simp add: wview_def d_def)
    show "m x = region base (vbuf v1) x" if "length d \<le> unat (x - (base + of_nat (unat p)))" for x
      using same that ld by (simp add: wsame_def lv2_osc_writer_initialize_def ring_mem_def)
  qed (use fit ld L in auto)
  moreover have "chunk_store p d v1 = Some (v1\<lparr>vbuf := overwrite (unat p) d (vbuf v1)\<rparr>)"
    using fit ld by (simp add: chunk_store_def)
  moreover obtain v2 v3 where "chunk_store p d v1 = Some v2" "queue_inv k v2 q"
    "varchunk_write_advance (of_nat (length (enc rest))) v2 = Some v3" "queue_inv k v3 (q @ [take (length (enc rest)) d])"
    by (rule store_advance [OF room(2,3) _ room(4), of d "length (enc rest)"]) (use ld in \<open>auto simp: d_def\<close>)
  moreover from calculation have "room_left k v \<le> room_left k v3 + (8 + pad8 (length (enc rest)))"
    using store_advance_room [OF room(2,3,7), of "length (enc rest)" p d v2 v3] room(6) enc [OF len] by simp
  moreover have "take (length (enc rest)) d = enc rest" by (simp add: d_def)
  moreover have "fst (lv2_osc_writer_finalize w) = of_nat (length (enc rest))" by (rule finalize_view [OF after])
  moreover have "(of_nat (length (enc rest)) :: u64) \<noteq> 0"
  proof -
    have "length (enc rest) < 18446744073709551616" using enc [OF len] unat_lt_64 [of n] by linarith
    then have "unat (of_nat (length (enc rest)) :: u64) = length (enc rest)" by (rule unat_of_nat64)
    then show ?thesis using enc [OF len] by fastforce
  qed
  ultimately show thesis using room(1,5) run len
    by (intro written [of v3 rest]) (simp_all add: ring_write_def Let_def)
qed

end
