(* ===== verification/Plugin.thy ===== *)
theory Plugin
  imports Ring Osc_Forge Props
begin

text \<open>
  What the plugins share: calls that are made while the output has room, a forge with the plugin's
  own state beside it, and that such a forge forges as the forge does (\<open>aside\<close>).
\<close>

section \<open>Calls\<close>

text \<open>\<open>if(ref) ref = call;\<close>\<close>

definition w_call :: "(unit, 'f) call \<Rightarrow> 'f world \<Rightarrow> 'f world option" where
  "w_call call w =
     (if pref w
      then case call (pforge w) of
          (Ok _, f) \<Rightarrow> Some (w\<lparr>pforge := f\<rparr>)
        | (Fail, f) \<Rightarrow> Some (w\<lparr>pforge := f, pref := False\<rparr>)
        | (Fault, f) \<Rightarrow> None
      else Some w)"

text \<open>The plugin's own state lies beside that of the forge.\<close>

definition beside :: "'f forge \<Rightarrow> ('f \<times> 'x) forge" where
  "beside fg c f = (case fg c (fst f) of (ok, f1) \<Rightarrow> (ok, f1, snd f))"

definition own :: "('f \<times> 'x) world \<Rightarrow> 'x" where
  "own w = snd (pforge w)"

definition set_own :: "'x \<Rightarrow> ('f \<times> 'x) world \<Rightarrow> ('f \<times> 'x) world" where
  "set_own x w = w\<lparr>pforge := (fst (pforge w), x)\<rparr>"

lemma own_simps [simp]:
  "own (set_own x w) = x" "set_own x (set_own y w) = set_own x w" "pref (set_own x w) = pref w" "pp (set_own x w) = pp w"
  "pmem (set_own x w) = pmem w" "fst (pforge (set_own x w)) = fst (pforge w)" "plog (set_own x w) = plog w"
  by (simp_all add: own_def set_own_def)

section \<open>Events\<close>

text \<open>An atom as it is copied: head and body, without the padding\<close>

definition atom_whole :: "atom \<Rightarrow> u8 list" where
  "atom_whole a = le32 (atom_size a) @ le32 (atom_type a) @ body_bytes (atom_body a)"

text \<open>
  The second word of a body is read as the type of an object whatever the atom is. The padding of a
  short body is read too; \<open>None\<close> when there is no body.
\<close>

definition body_otype :: "abody \<Rightarrow> u32 option" where
  "body_otype b =
     (case object_otype b of
        Some ot \<Rightarrow> Some ot
      | None \<Rightarrow> (let bs = pad_to8 (body_bytes b) in if 8 \<le> length bs then Some (de32 (rev (take 4 (drop 4 bs)))) else None))"

text \<open>OSC packets are none of the messages the properties answer, when the types are different.\<close>

definition patch_types :: "props_urid \<Rightarrow> u32 list" where
  "patch_types u = [patch_get u, patch_set u, patch_put u, patch_patch u]"

lemma packet_not_patch:
  assumes "u_Message u \<notin> set (patch_types (urid (pp w)))" and "u_Bundle u \<notin> set (patch_types (urid (pp w)))"
  shows "props_advance fd cb oget is_object frames (packet_atom u umap p) w = Some (False, w)"
  using assms by (cases p) (auto simp: props_advance_def patch_types_def Let_def)

section \<open>Forging beside the plugin's state\<close>

definition aside :: "'x \<Rightarrow> 'a \<times> 'f \<Rightarrow> 'a \<times> 'f \<times> 'x" where
  "aside x r = (fst r, snd r, x)"

lemma aside_simps [simp]: "aside x (a, f) = (a, f, x)"
  by (simp add: aside_def)

named_theorems beside_simps \<open>calls of a forge that has a state beside it\<close>

lemma beside_apply [beside_simps]: "beside fg c (f, x) = aside x (fg c f)"
  by (simp add: beside_def aside_def case_prod_unfold)

lemma forge_run_beside [beside_simps]: "forge_run (beside fg) cs (f, x) = aside x (forge_run fg cs f)"
  by (induction fg cs f rule: forge_run.induct) (auto simp: beside_apply split: prod.splits)

lemma forge_steps_beside [beside_simps]: "forge_steps (beside fg) cs (f, x) = aside x (forge_steps fg cs f)"
  by (simp add: forge_steps_def forge_run_beside aside_def case_prod_unfold)

lemma call_bind_beside:
  "c1 (f, x) = aside x (c f) \<Longrightarrow> (\<And>a f. g1 a (f, x) = aside x (g a f)) \<Longrightarrow>
   call_bind c1 g1 (f, x) = aside x (call_bind c g f)"
  by (cases "c f") (auto simp: call_bind_def split: result.splits)

lemma forge_chunk_beside [beside_simps]:
  "lv2_osc_forge_chunk (beside fg) t src n (f, x) = aside x (lv2_osc_forge_chunk fg t src n f)"
  unfolding lv2_osc_forge_chunk_def
  by (rule call_bind_beside) (auto simp: beside_simps split: option.splits)

lemma forge_ops_beside [beside_simps]:
  "lv2_osc_forge_midi (beside fg) u src n (f, x) = aside x (lv2_osc_forge_midi fg u src n f)"
  "lv2_osc_forge_blob (beside fg) u src n (f, x) = aside x (lv2_osc_forge_blob fg u src n f)"
  "lv2_osc_forge_char (beside fg) u c (f, x) = aside x (lv2_osc_forge_char fg u c f)"
  "lv2_osc_forge_rgba (beside fg) u r g b a (f, x) = aside x (lv2_osc_forge_rgba fg u r g b a f)"
  "lv2_osc_forge_timetag (beside fg) u tt (f, x) = aside x (lv2_osc_forge_timetag fg u tt f)"
  "lv2_osc_forge_bundle_head (beside fg) u tt (f, x) = aside x (lv2_osc_forge_bundle_head fg u tt f)"
  "lv2_osc_forge_message_head (beside fg) u path (f, x) = aside x (lv2_osc_forge_message_head fg u path f)"
  "lv2_osc_forge_pop (beside fg) (f, x) = aside x (lv2_osc_forge_pop fg f)"
  by (simp_all add: lv2_osc_forge_midi_def lv2_osc_forge_blob_def lv2_osc_forge_char_def lv2_osc_forge_rgba_def
      lv2_osc_forge_timetag_def lv2_osc_forge_bundle_head_def lv2_osc_forge_message_head_def lv2_osc_forge_pop_def beside_simps)

lemma forge_argument_beside [beside_simps]:
  "forge_argument (beside fg) u mp m arg (f, x) = aside x (forge_argument fg u mp m arg f)"
  unfolding forge_argument_def
  by (auto simp: beside_simps split: option.splits lv2_osc_type.splits arg_union.splits list.splits)

lemma forge_arguments_beside [beside_simps]:
  "forge_arguments n (beside fg) u mp m cur (f, x) = map_option (aside x) (forge_arguments n fg u mp m cur f)"
proof (induction n fg u mp m cur f rule: forge_arguments.induct)
  case (4 n fg u mp m arg r f)
  then show ?case
    by (cases "forge_argument fg u mp m arg f") (auto simp: beside_simps split: option.splits bool.splits result.splits)
qed (simp_all)

lemma then_pop_beside [beside_simps]: "then_pop (beside fg) (map_option (aside x) r) = map_option (aside x) (then_pop fg r)"
  by (cases r) (auto simp: then_pop_def beside_simps split: result.splits)

lemma case_aside: "(case aside x r of (a, y) \<Rightarrow> g a y) = (case r of (a, f) \<Rightarrow> g a (f, x))"
  by (cases r) simp

lemma forge_packet_beside [beside_simps]:
  "lv2_osc_forge_packet k (beside fg) u mp m buf n (f, x) = map_option (aside x) (lv2_osc_forge_packet k fg u mp m buf n f)"
  "forge_items k (beside fg) u mp m cur (f, x) = map_option (aside x) (forge_items k fg u mp m cur f)"
proof (induction k fg u mp m buf n f and k fg u mp m cur f rule: lv2_osc_forge_packet_forge_items.induct)
  case (2 k fg u mp m buf n f)
  then show ?case
    by (auto simp: beside_simps Let_def case_aside split: option.splits bool.splits result.splits prod.splits)
next
  case (6 k fg u mp m itm r f)
  then show ?case by (cases "lv2_osc_forge_packet k fg u mp m (ibody itm) (scast (isize itm)) f") (auto split: result.splits)
qed simp_all

lemma forge_varargs_beside [beside_simps]:
  "forge_varargs (beside fg) u d2f fmt args (f, x) = aside x (forge_varargs fg u d2f fmt args f)"
proof (induction fmt arbitrary: args f)
  case (Cons c fmt)
  then show ?case
    by (auto simp: beside_simps Let_def intro!: call_bind_beside split: option.splits lv2_osc_type.splits list.splits fva.splits va.splits)
qed simp

lemma forge_message_beside [beside_simps]:
  "lv2_osc_forge_message_vararg (beside fg) u d2f path fmt args (f, x) = aside x (lv2_osc_forge_message_vararg fg u d2f path fmt args f)"
  by (auto simp: lv2_osc_forge_message_vararg_def lv2_osc_forge_message_varlist_def beside_simps intro!: call_bind_beside)

end
