(* ===== verification/Pack.thy ===== *)
theory Pack
  imports Osc_Unroll Props_Contract Plugin
begin

text \<open>
  The plugin \<open>eteroj_pack.c\<close>: MIDI events leave packed in OSC messages, and the MIDI events in
  messages that come in leave unpacked. The path and the format of the messages are properties
  (\<open>props.h\<close>), whose values lie in the plugin's state.
\<close>

section \<open>The plugin\<close>

text \<open>
  \<open>pk_path\<close> and \<open>pk_format\<close> are the addresses of \<open>state.pack_path\<close> and \<open>state.pack_format\<close>.
  \<open>ref\<close>, the forge and the memory of the plugin are those of the properties' world.
\<close>

record pack =
  pk_midi :: u32
  pk_urid :: lv2_osc_urid
  pk_path :: addr
  pk_format :: addr

definition PACK_FORMAT_MIDI :: u32 where "PACK_FORMAT_MIDI = 0"
definition PACK_FORMAT_BLOB :: u32 where "PACK_FORMAT_BLOB = 1"

definition pack_format :: "pack \<Rightarrow> 'f world \<Rightarrow> u32 option" where
  "pack_format h w = ld32 (pmem w) (pk_format h)"

definition bytes_src :: "u8 list \<Rightarrow> nat \<Rightarrow> u8 list option" where
  "bytes_src bs n = (if n \<le> length bs then Some (take n bs) else None)"

definition pack_head :: "'f forge \<Rightarrow> pack \<Rightarrow> u64 \<Rightarrow> 'f world \<Rightarrow> 'f world option" where
  "pack_head fd h frames w =
     Option.bind (w_call (forge_steps fd [Keep (FFrameTime frames)]) w) (\<lambda>w1.
       w_call (\<lambda>f. case c_str (pmem w1) (pk_path h) of
           None \<Rightarrow> (Fault, f) | Some path \<Rightarrow> lv2_osc_forge_message_head fd (pk_urid h) path f) w1)"

definition pack_midi :: "'f forge \<Rightarrow> pack \<Rightarrow> u64 \<Rightarrow> atom \<Rightarrow> 'f world \<Rightarrow> 'f world option" where
  "pack_midi fd h frames a w =
     (let bs = body_bytes (atom_body a); n = atom_size a in
      case pack_format h w of
        None \<Rightarrow> None
      | Some fmt \<Rightarrow>
          if fmt = PACK_FORMAT_MIDI then
            (if n \<le> 3
             then Option.bind (pack_head fd h frames w) (\<lambda>w1.
                  Option.bind (w_call (lv2_osc_forge_midi fd (pk_urid h) (bytes_src bs) n) w1) (w_call (lv2_osc_forge_pop fd)))
             else Some w)
          else if fmt = PACK_FORMAT_BLOB then
            Option.bind (pack_head fd h frames w) (\<lambda>w1.
            Option.bind (w_call (lv2_osc_forge_blob fd (pk_urid h) (bytes_src bs) n) w1) (w_call (lv2_osc_forge_pop fd)))
          else Some w)"

text \<open>\<open>_unroll\<close>, the method called for each message of a packet; a null \<open>arguments\<close> is used all the same.\<close>

definition unpack_argument :: "'f forge \<Rightarrow> pack \<Rightarrow> u64 \<Rightarrow> atom \<Rightarrow> 'f world \<Rightarrow> 'f world option" where
  "unpack_argument fd h frames a w =
     (case pack_format h w of
        None \<Rightarrow> None
      | Some fmt \<Rightarrow>
          (case (if fmt = PACK_FORMAT_MIDI then Some OSC_MIDI
                 else if fmt = PACK_FORMAT_BLOB then Some OSC_BLOB else None) of
             None \<Rightarrow> Some w
           | Some typ \<Rightarrow>
               (case lv2_osc_argument_type (pk_urid h) a of
                  Fault \<Rightarrow> None
                | Fail \<Rightarrow> Some w
                | Ok t \<Rightarrow>
                    if t = typ
                    then w_call (forge_steps fd [Keep (FFrameTime frames), Keep (FAtom (atom_size a) (pk_midi h)),
                        Keep (FRaw (body_bytes (atom_body a))), Loose (FPad (atom_size a))]) w
                    else Some w)))"

fun unpack_arguments :: "'f forge \<Rightarrow> pack \<Rightarrow> u64 \<Rightarrow> atom list \<Rightarrow> 'f world \<Rightarrow> 'f world option" where
  "unpack_arguments fd h frames [] w = Some w"
| "unpack_arguments fd h frames (a # as) w =
     (case unpack_argument fd h frames a w of None \<Rightarrow> None | Some w1 \<Rightarrow> unpack_arguments fd h frames as w1)"

definition pack_unroll :: "'f forge \<Rightarrow> pack \<Rightarrow> u64 \<Rightarrow> 'f world option lv2_osc_method" where
  "pack_unroll fd h frames path args s = Option.bind s (\<lambda>w. Option.bind (Option.bind args tuple_items) (\<lambda>as.
     unpack_arguments fd h frames as w))"

text \<open>
  What the host provides. An event that is no MIDI event and no patch message is unrolled, and
  the result is not looked at. The outer \<open>None\<close> is running out of fuel, the inner one is undefined.
\<close>

record 'f pack_host =
  ph_forge :: "'f forge"
  ph_get :: object_get
  ph_object :: "u32 \<Rightarrow> bool"

definition pack_event :: "'f pack_host \<Rightarrow> pack \<Rightarrow> nat \<Rightarrow> u64 \<times> atom \<Rightarrow> 'f world \<Rightarrow> 'f world option option" where
  "pack_event e h k ev w = (case ev of (frames, a) \<Rightarrow>
     if atom_type a = pk_midi h then Some (pack_midi (ph_forge e) h frames a w)
     else case props_advance (ph_forge e) log_event (ph_get e) (ph_object e) (ucast frames) a w of
         None \<Rightarrow> Some None
       | Some (True, w1) \<Rightarrow> Some (Some w1)
       | Some (False, w1) \<Rightarrow>
           map_option (\<lambda>(res, w2). if res = Fault then None else w2)
             (lv2_osc_unroll k (pk_urid h) (ph_get e) a (Some (pack_unroll (ph_forge e) h frames)) (Some w1)))"

fun pack_events :: "'f pack_host \<Rightarrow> pack \<Rightarrow> nat \<Rightarrow> (u64 \<times> atom) list \<Rightarrow> 'f world \<Rightarrow> 'f world option option" where
  "pack_events e h k [] w = Some (Some w)"
| "pack_events e h k (ev # evs) w =
     (case pack_event e h k ev w of
        Some (Some w1) \<Rightarrow> pack_events e h k evs w1
      | r \<Rightarrow> r)"

text \<open>At the end the sequence is closed; when the forge has failed, the output is cleared (\<open>False\<close>).\<close>

definition pack_run :: "'f pack_host \<Rightarrow> pack \<Rightarrow> nat \<Rightarrow> (u64 \<times> atom) list \<Rightarrow> 'f world \<Rightarrow> (bool \<times> 'f world) option option" where
  "pack_run e h k evs w =
     (case forge_run (ph_forge e) [Keep (FSequenceHead 0)] (pforge w) of
        (ref, f) \<Rightarrow>
          (case props_idle (ph_forge e) log_event 0 (w\<lparr>pforge := f, pref := ref\<rparr>) of
             None \<Rightarrow> Some None
           | Some w1 \<Rightarrow> map_option (map_option (\<lambda>w2.
               if pref w2 then (True, w2\<lparr>pforge := snd (forge_run (ph_forge e) [Loose FPop] (pforge w2))\<rparr>)
               else (False, w2)))
               (pack_events e h k evs w1)))"

section \<open>What the events make\<close>

definition packed :: "u32 \<Rightarrow> u8 list \<Rightarrow> osc_arg" where
  "packed fmt bs = (if fmt = PACK_FORMAT_MIDI then AMidi (0 # bs) else ABlob bs)"

definition unpacked_bytes :: "u32 \<Rightarrow> osc_arg \<Rightarrow> u8 list option" where
  "unpacked_bytes fmt a =
     (case a of
        AMidi m \<Rightarrow> if fmt = PACK_FORMAT_MIDI then Some (tl m) else None
      | ABlob b \<Rightarrow> if fmt = PACK_FORMAT_BLOB then Some b else None
      | _ \<Rightarrow> None)"

text \<open>The calls for one argument of a message, and for a packet.\<close>

definition midi_calls :: "u32 \<Rightarrow> u64 \<Rightarrow> u8 list \<Rightarrow> fcall list" where
  "midi_calls midi frames bs =
     [FFrameTime frames, FAtom (of_nat (length bs)) midi, FRaw bs, FPad (of_nat (length bs))]"

definition unpack_calls :: "u32 \<Rightarrow> u32 \<Rightarrow> u64 \<Rightarrow> osc_arg list \<Rightarrow> fcall list" where
  "unpack_calls midi fmt frames as = concat (map (midi_calls midi frames) (List.map_filter (unpacked_bytes fmt) as))"

definition packet_args :: "packet \<Rightarrow> osc_arg list" where
  "packet_args p = concat (map snd (packet_messages p))"

abbreviation forged :: "fcall list world \<Rightarrow> fcall list \<Rightarrow> fcall list world" where
  "forged w cs \<equiv> w\<lparr>pforge := pforge w @ cs\<rparr>"

lemma w_call_steps: "pref w \<Longrightarrow> w_call (forge_steps recording cs) w = Some (forged w (map fstep_call cs))"
  by (simp add: w_call_def)

lemma pack_head_calls:
  "pref w \<Longrightarrow> c_str (pmem w) (pk_path h) = Some path \<Longrightarrow> pack_head recording h frames w =
   Some (forged w ([FFrameTime frames, FObject 0 (u_Message (pk_urid h)), FKey (u_messagePath (pk_urid h)), FString path,
     FKey (u_messageArguments (pk_urid h)), FTuple]))"
  by (simp add: pack_head_def w_call_steps) (simp add: w_call_def lv2_osc_forge_message_head_def)

lemma pack_midi_packs:
  assumes w: "pref w" and fmt: "pack_format h w = Some fmt" "fmt = PACK_FORMAT_MIDI \<or> fmt = PACK_FORMAT_BLOB"
    and path: "c_str (pmem w) (pk_path h) = Some path"
    and len: "length bs < 2 ^ 32" "fmt = PACK_FORMAT_MIDI \<Longrightarrow> length bs \<le> 3"
  shows "pack_midi recording h frames (Atom t (Bytes bs)) w
    = Some (forged w (FFrameTime frames # packet_calls (pk_urid h) umap (PMessage path [packed fmt bs])))"
proof -
  have u: "unat (of_nat (length bs) :: u32) = length bs" using len(1) by (simp add: unat_of_nat)
  have src: "bytes_src bs (unat (of_nat (length bs) :: u32)) = Some bs" by (simp add: bytes_src_def u)
  show ?thesis
  proof (cases "fmt = PACK_FORMAT_MIDI")
    case True
    then have "(of_nat (length bs) :: u32) \<le> 3" using len(2) u by (simp add: word_le_nat_alt)
    with True fmt(1) w path src show ?thesis
      by (simp add: pack_midi_def atom_size_def pack_head_calls Let_def packed_def)
        (simp add: w_call_def lv2_osc_forge_midi_def forge_chunk_recording lv2_osc_forge_pop_def)
  next
    case False
    with fmt w path src show ?thesis
      by (simp add: pack_midi_def atom_size_def pack_head_calls Let_def packed_def PACK_FORMAT_MIDI_def PACK_FORMAT_BLOB_def)
        (simp add: w_call_def lv2_osc_forge_blob_def forge_chunk_recording lv2_osc_forge_pop_def)
  qed
qed

lemma unpack_argument_calls:
  assumes w: "pref w" and u: "proper_urid (pk_urid h)" and fmt: "pack_format h w = Some fmt"
  shows "unpack_argument recording h frames (arg_atom (pk_urid h) umap a) w
    = Some (forged w (unpack_calls (pk_midi h) fmt frames [a]))"
  using w fmt argument_type_atom [OF u, of umap a]
  by (cases a) (auto simp: unpack_argument_def unpack_calls_def unpacked_bytes_def map_filter_simps midi_calls_def
      PACK_FORMAT_MIDI_def PACK_FORMAT_BLOB_def atom_size_def w_call_steps)

lemma unpack_arguments_calls:
  assumes u: "proper_urid (pk_urid h)"
  shows "pref w \<Longrightarrow> pack_format h w = Some fmt \<Longrightarrow>
    unpack_arguments recording h frames (map (arg_atom (pk_urid h) umap) as) w
      = Some (forged w (unpack_calls (pk_midi h) fmt frames as))"
proof (induction as arbitrary: w)
  case Nil
  show ?case by (simp add: unpack_calls_def map_filter_simps)
next
  case (Cons a as)
  let ?w = "forged w (unpack_calls (pk_midi h) fmt frames [a])"
  have "pack_format h ?w = Some fmt" using Cons.prems(2) by (simp add: pack_format_def)
  with Cons.IH [of ?w] Cons.prems unpack_argument_calls [OF Cons.prems(1) u Cons.prems(2)] show ?case
    by (simp add: unpack_calls_def map_filter_simps split: option.splits)
qed

lemma fold_visit_unpacks:
  assumes u: "proper_urid (pk_urid h)"
  shows "pref w \<Longrightarrow> pack_format h w = Some fmt \<Longrightarrow>
    fold (visit (pk_urid h) umap (pack_unroll recording h frames)) ms (Some w)
      = Some (forged w (unpack_calls (pk_midi h) fmt frames (concat (map snd ms))))"
proof (induction ms arbitrary: w)
  case Nil
  show ?case by (simp add: unpack_calls_def map_filter_simps)
next
  case (Cons m ms)
  obtain path as where m: "m = (path, as)" by (cases m)
  let ?w = "forged w (unpack_calls (pk_midi h) fmt frames as)"
  have "pack_format h ?w = Some fmt" using Cons.prems(2) by (simp add: pack_format_def)
  moreover have "visit (pk_urid h) umap (pack_unroll recording h frames) m (Some w) = Some ?w"
    using unpack_arguments_calls [OF u Cons.prems, of frames umap as]
    by (simp add: m visit_def pack_unroll_def tuple_atom_def tuple_items_def)
  ultimately show ?case using Cons.IH [of ?w] Cons.prems(1)
    by (simp add: m unpack_calls_def map_filter_def)
qed

definition pack_recorder :: "object_get \<Rightarrow> (u32 \<Rightarrow> bool) \<Rightarrow> fcall list pack_host" where
  "pack_recorder oget is_object = \<lparr>ph_forge = recording, ph_get = oget, ph_object = is_object\<rparr>"

lemma pack_recorder_simps [simp]:
  "ph_forge (pack_recorder oget is_object) = recording" "ph_get (pack_recorder oget is_object) = oget"
  "ph_object (pack_recorder oget is_object) = is_object"
  by (simp_all add: pack_recorder_def)

definition pack_ready :: "pack \<Rightarrow> u32 \<Rightarrow> 'f world \<Rightarrow> bool" where
  "pack_ready h fmt w \<longleftrightarrow> pref w \<and> pack_format h w = Some fmt \<and> proper_urid (pk_urid h) \<and>
     pk_midi h = u_MidiEvent (pk_urid h) \<and> u_Message (pk_urid h) \<notin> set (patch_types (urid (pp w))) \<and>
     u_Bundle (pk_urid h) \<notin> set (patch_types (urid (pp w)))"

section \<open>A plugin\<close>

definition sample_pack :: pack where
  "sample_pack = \<lparr>pk_midi = 15, pk_urid = host_urid, pk_path = 8192, pk_format = 8196\<rparr>"

definition pack_world :: "fcall list world" where
  "pack_world = sample_world\<lparr>pmem := region 8192 ([47, 97, 0, 0] @ [0, 0, 0, 0]), pref := True, pforge := []\<rparr>"

lemma pack_world_mem: "mem_at (pmem pack_world) 8192 ([47, 97, 0, 0] @ [0, 0, 0, 0])"
proof -
  have "pmem pack_world = region 8192 ([47, 97, 0, 0] @ [0, 0, 0, 0])" by (simp add: pack_world_def sample_world_def)
  then show ?thesis by (simp only:) (rule mem_at_region, simp)
qed

lemma pack_world_ready: "pack_ready sample_pack PACK_FORMAT_MIDI pack_world"
proof -
  have "mem_at (pmem pack_world) 8196 [0, 0, 0, 0]" using pack_world_mem by (simp only: mem_at_append) simp
  then have "ld (pmem pack_world) 8196 4 = Some [0, 0, 0, 0]" by (simp only: ld_iff_mem_at) simp
  then have "pack_format sample_pack pack_world = Some PACK_FORMAT_MIDI"
    by (simp add: pack_format_def sample_pack_def ld32_def PACK_FORMAT_MIDI_def de32_def)
  moreover have "pk_urid sample_pack = host_urid" "pk_midi sample_pack = u_MidiEvent host_urid" "pref pack_world"
    by (simp_all add: sample_pack_def pack_world_def host_urid_def lv2_osc_urid_init_def)
  moreover have "patch_types (urid (pp pack_world)) = [101, 102, 103, 104]"
    by (simp add: patch_types_def pack_world_def sample_defs)
  moreover have "u_Message host_urid = 5" "u_Bundle host_urid = 2" by (simp_all add: host_urid_def lv2_osc_urid_init_def)
  ultimately show ?thesis by (simp add: pack_ready_def)
qed

lemma pack_world_path: "c_str (pmem pack_world) (pk_path sample_pack) = Some [47, 97]"
proof -
  have "mem_at (pmem pack_world) 8192 ([47, 97] @ 0 # [0])" using pack_world_mem by (simp only: mem_at_append) simp
  from c_str_view [OF this] show ?thesis by (simp add: sample_pack_def)
qed

section \<open>Properties\<close>

text \<open>
  C28. Unpacking: an OSC packet, whatever its bundles and messages, becomes the MIDI events in it,
  those arguments that have the type the format property asks for, in the order of the packet
  and all at the packet's time; nothing else is sent.
\<close>

theorem pack_unpacks:
  assumes "pack_ready h fmt w" and "finds_values oget" and "unroll_fuel p \<le> k"
  shows "pack_event (pack_recorder oget is_object) h k (t, packet_atom (pk_urid h) umap p) w
    = Some (Some (w\<lparr>pforge := pforge w @ unpack_calls (pk_midi h) fmt t (packet_args p)\<rparr>))"
proof -
  have u: "proper_urid (pk_urid h)" and mi: "pk_midi h = u_MidiEvent (pk_urid h)" and w: "pref w" "pack_format h w = Some fmt"
    and np: "u_Message (pk_urid h) \<notin> set (patch_types (urid (pp w)))" "u_Bundle (pk_urid h) \<notin> set (patch_types (urid (pp w)))"
    using assms(1) by (simp_all add: pack_ready_def)
  have "u_Object (pk_urid h) \<noteq> u_MidiEvent (pk_urid h)" using u by (auto simp: proper_urid_def types_of_def)
  then have "atom_type (packet_atom (pk_urid h) umap p) \<noteq> pk_midi h" by (cases p) (simp_all add: mi)
  with body_unroll_visits [OF u assms(2,3), of umap "pack_unroll recording h t" "Some w"]
    fold_visit_unpacks [OF u w, of umap t "packet_messages p"] packet_not_patch [OF np]
  show ?thesis by (simp add: pack_event_def lv2_osc_unroll_def packet_args_def)
qed

theorem pack_unpacks_witness:
  "pack_event (pack_recorder first_value (\<lambda>_. True)) sample_pack 9
      (7, packet_atom (pk_urid sample_pack) (\<lambda>_. 0) (PBundle 1 [PMessage [47, 97] [AInt 3, AMidi [0, 144, 60, 127]]])) pack_world
    = Some (Some (pack_world\<lparr>pforge := pforge pack_world @ unpack_calls (pk_midi sample_pack) PACK_FORMAT_MIDI 7
        (packet_args (PBundle 1 [PMessage [47, 97] [AInt 3, AMidi [0, 144, 60, 127]]]))\<rparr>))"
  by (rule pack_unpacks [OF pack_world_ready finds_first_value]) simp

text \<open>
  C27. Packing is undone by unpacking: a MIDI event becomes one message to the path in the state,
  with the event as its only argument (of type m, if the event is that short, or as a blob), and
  the atom of this message becomes the MIDI event again.
\<close>

theorem pack_roundtrip:
  assumes "pack_ready h fmt w" and "finds_values oget" and "fmt = PACK_FORMAT_MIDI \<or> fmt = PACK_FORMAT_BLOB"
    and "fmt = PACK_FORMAT_MIDI \<longrightarrow> length bs \<le> 3" and "length bs < 2 ^ 32"
    and "c_str (pmem w) (pk_path h) = Some path" and "0 < k"
  shows "pack_event (pack_recorder oget is_object) h k (t, Atom (pk_midi h) (Bytes bs)) w
      = Some (Some (w\<lparr>pforge := pforge w @ FFrameTime t #
          packet_calls (pk_urid h) umap (PMessage path [packed fmt bs])\<rparr>)) \<and>
    pack_event (pack_recorder oget is_object) h k (t, packet_atom (pk_urid h) umap (PMessage path [packed fmt bs])) w
      = Some (Some (w\<lparr>pforge := pforge w @ midi_calls (pk_midi h) t bs\<rparr>))"
proof
  have w: "pref w" "pack_format h w = Some fmt" using assms(1) by (simp_all add: pack_ready_def)
  from pack_midi_packs [OF w assms(3,6,5)] assms(4)
  show "pack_event (pack_recorder oget is_object) h k (t, Atom (pk_midi h) (Bytes bs)) w
      = Some (Some (w\<lparr>pforge := pforge w @ FFrameTime t #
          packet_calls (pk_urid h) umap (PMessage path [packed fmt bs])\<rparr>))"
    by (simp add: pack_event_def)
  let ?p = "PMessage path [packed fmt bs]"
  have u: "proper_urid (pk_urid h)" and mi: "pk_midi h = u_MidiEvent (pk_urid h)"
    and np: "u_Message (pk_urid h) \<notin> set (patch_types (urid (pp w)))" "u_Bundle (pk_urid h) \<notin> set (patch_types (urid (pp w)))"
    using assms(1) by (simp_all add: pack_ready_def)
  have k: "unroll_fuel ?p \<le> k" using assms(7) by simp
  have "u_Object (pk_urid h) \<noteq> u_MidiEvent (pk_urid h)" using u by (auto simp: proper_urid_def types_of_def)
  then have "atom_type (packet_atom (pk_urid h) umap ?p) \<noteq> pk_midi h" by (simp add: mi)
  moreover have "unpack_calls (pk_midi h) fmt t [packed fmt bs] = midi_calls (pk_midi h) t bs"
    using assms(3) by (auto simp: unpack_calls_def packed_def unpacked_bytes_def map_filter_simps
        PACK_FORMAT_MIDI_def PACK_FORMAT_BLOB_def)
  ultimately show "pack_event (pack_recorder oget is_object) h k (t, packet_atom (pk_urid h) umap ?p) w
      = Some (Some (w\<lparr>pforge := pforge w @ midi_calls (pk_midi h) t bs\<rparr>))"
    using body_unroll_visits [OF u assms(2) k, of umap "pack_unroll recording h t" "Some w"]
      fold_visit_unpacks [OF u w, of umap t "packet_messages ?p"] packet_not_patch [OF np, of _ _ _ _ _ _ ?p]
    by (simp add: pack_event_def lv2_osc_unroll_def)
qed

theorem pack_roundtrip_witness:
  "pack_event (pack_recorder first_value (\<lambda>_. True)) sample_pack 1 (7, Atom (pk_midi sample_pack) (Bytes [144, 60, 127])) pack_world
      = Some (Some (pack_world\<lparr>pforge := pforge pack_world @ FFrameTime 7 #
          packet_calls (pk_urid sample_pack) (\<lambda>_. 0) (PMessage [47, 97] [packed PACK_FORMAT_MIDI [144, 60, 127]])\<rparr>)) \<and>
    pack_event (pack_recorder first_value (\<lambda>_. True)) sample_pack 1
        (7, packet_atom (pk_urid sample_pack) (\<lambda>_. 0) (PMessage [47, 97] [packed PACK_FORMAT_MIDI [144, 60, 127]])) pack_world
      = Some (Some (pack_world\<lparr>pforge := pforge pack_world @ midi_calls (pk_midi sample_pack) 7 [144, 60, 127]\<rparr>))"
  by (rule pack_roundtrip [OF pack_world_ready finds_first_value _ _ _ pack_world_path]) simp_all

end
