(* ===== verification/Cloak_Codec.thy ===== *)
theory Cloak_Codec
  imports Prelude
begin

text \<open>
  \<open>_7bit_encode\<close> and \<open>_7bit_decode\<close> of \<open>eteroj_cloak.c\<close>: bytes are hidden in a MIDI system
  exclusive message, each seven of them behind a byte of their upper bits. Both work in place
  on the buffer of the plugin, the only way they are called: a buffer is the list of its bytes,
  pointers are positions in it, and writing behind its end is undefined (\<open>None\<close>). \<open>sysex\<close> is
  the code as a function on byte strings.
\<close>

unbundle bit_operations_syntax

section \<open>The code\<close>

definition SYSEX_START :: u8 where "SYSEX_START = 0xf0"
definition SYSEX_END :: u8 where "SYSEX_END = 0xf7"

text \<open>The body of the decoder's loop; the state is \<open>acc\<close>, the position of \<open>to\<close> and the buffer.\<close>

definition decode_byte :: "nat \<Rightarrow> u8 \<times> nat \<times> u8 list \<Rightarrow> u8 \<times> nat \<times> u8 list" where
  "decode_byte i s = (case s of (acc, to, buf) \<Rightarrow>
     let shift = i mod 8; byt = buf ! (i + 1) in
     if shift = 0 then (byt, to, buf)
     else (acc, to + 1, buf[to := byt OR (push_bit (8 - shift) acc AND 0x80)]))"

definition seven_bit_decode :: "u8 list \<Rightarrow> nat \<Rightarrow> u8 list \<times> nat" where
  "seven_bit_decode buf n =
     (if n < 2 \<or> buf ! 0 \<noteq> SYSEX_START \<or> buf ! (n - 1) \<noteq> SYSEX_END then (buf, 0)
      else case fold decode_byte [0..<n - 2] (0, 0, buf) of (acc, to, buf1) \<Rightarrow> (buf1, to))"

text \<open>The body of the encoder's loop, which runs down from the last byte.\<close>

definition encode_byte :: "nat \<Rightarrow> u8 \<times> nat \<times> u8 list \<Rightarrow> u8 \<times> nat \<times> u8 list" where
  "encode_byte i s = (case s of (acc, to, buf) \<Rightarrow>
     let shift = i mod 7; byt = buf ! i; upp = drop_bit (7 - shift) (byt AND 0x80); low = byt AND 0x7f;
       acc1 = acc OR upp; buf1 = buf[to := low]
     in if shift = 0 then (0, to - 2, buf1[to - 1 := acc1]) else (acc1, to - 1, buf1))"

definition written_size :: "nat \<Rightarrow> nat" where
  "written_size n = n div 7 * 8 + (if n mod 7 \<noteq> 0 then 1 + n mod 7 else 0) + 2"

definition seven_bit_encode :: "u8 list \<Rightarrow> nat \<Rightarrow> (u8 list \<times> nat) option" where
  "seven_bit_encode buf n =
     (let written = written_size n in
      if length buf < written then None
      else case fold encode_byte (rev [0..<n]) (0, written - 2, buf[written - 1 := SYSEX_END]) of
        (acc, to, buf1) \<Rightarrow> Some (buf1[to := SYSEX_START], written))"

section \<open>The code of a byte string\<close>

definition upper_bits :: "u8 list \<Rightarrow> u8" where
  "upper_bits g = horner_sum of_bool 2 (map (\<lambda>b. bit b 7) g)"

function enc7 :: "u8 list \<Rightarrow> u8 list" where
  "enc7 bs = (if bs = [] then []
     else upper_bits (take 7 bs) # map (\<lambda>b. b AND 0x7f) (take 7 bs) @ enc7 (drop 7 bs))"
  by pat_completeness auto
termination by (relation "measure length") auto

declare enc7.simps [simp del]

definition sysex :: "u8 list \<Rightarrow> u8 list" where
  "sysex bs = SYSEX_START # enc7 bs @ [SYSEX_END]"

lemma bit_upper_bits: "length g \<le> 7 \<Longrightarrow> bit (upper_bits g) j \<longleftrightarrow> j < length g \<and> bit (g ! j) 7"
  by (auto simp: upper_bits_def bit_horner_sum_bit_iff)

lemma length_enc7: "length (enc7 bs) + 2 = written_size (length bs)"
proof (induction bs rule: enc7.induct)
  case (1 bs)
  show ?case
  proof (cases "bs = []")
    case True
    then show ?thesis by (subst enc7.simps) (simp add: written_size_def)
  next
    case False
    then have "length (enc7 bs) = 1 + min (length bs) 7 + length (enc7 (drop 7 bs))"
      by (subst enc7.simps) simp
    moreover have "length (enc7 (drop 7 bs)) + 2 = written_size (length bs - 7)" using 1 False by simp
    moreover have "0 < length bs" using False by simp
    then have "written_size (length bs) = 1 + min (length bs) 7 + written_size (length bs - 7)"
      unfolding written_size_def by (cases "length bs < 7") (auto simp: le_mod_geq le_div_geq)
    ultimately show ?thesis by simp
  qed
qed

lemma length_sysex: "length (sysex bs) = written_size (length bs)"
  using length_enc7 [of bs] by (simp add: sysex_def)

text \<open>The bytes by their positions: group \<open>q\<close> starts at \<open>8 q\<close> in the code and at \<open>7 q\<close> in the text.\<close>

lemma enc7_nth:
  "j < length (enc7 bs) \<Longrightarrow> enc7 bs ! j =
     (if j mod 8 = 0 then upper_bits (take 7 (drop (7 * (j div 8)) bs))
      else (bs ! (7 * (j div 8) + (j mod 8 - 1))) AND 0x7f)"
proof (induction bs arbitrary: j rule: enc7.induct)
  case (1 bs)
  show ?case
  proof (cases "bs = []")
    case True
    with 1 show ?thesis by (simp add: enc7.simps)
  next
    case False
    note unf = enc7.simps [of bs, simplified False if_False]
    let ?g = "take 7 bs"
    consider "j = 0" | "0 < j" "j \<le> length ?g" | "length ?g < j" by linarith
    then show ?thesis
    proof cases
      case 1
      then show ?thesis by (simp add: unf)
    next
      case 2
      then have "j mod 8 = j" "j div 8 = 0" by simp_all
      with 2 show ?thesis by (auto simp: unf nth_Cons' nth_append)
    next
      case 3
      have full: "7 < length bs"
      proof (rule ccontr)
        assume "\<not> 7 < length bs"
        then have "drop 7 bs = []" by simp
        then have "length (enc7 bs) = 1 + length ?g" by (simp add: unf enc7.simps [of "[]"])
        with 3 1(2) show False by simp
      qed
      then have j: "8 \<le> j" using 3 by simp
      then have "j - 8 < length (enc7 (drop 7 bs))"
        using 1(2) full by (simp add: unf)
      note IH = 1(1) [OF False this]
      have "j mod 8 = (j - 8) mod 8" "j div 8 = Suc ((j - 8) div 8)"
        using j by (simp_all add: le_mod_geq le_div_geq)
      moreover have "enc7 bs ! j = enc7 (drop 7 bs) ! (j - 8)"
      proof -
        obtain i where "j = 8 + i" using j le_Suc_ex by blast
        then show ?thesis using full by (simp add: unf nth_append eval_nat_numeral)
      qed
      ultimately show ?thesis using IH
        using full by (simp add: add.commute add.left_commute)
    qed
  qed
qed

section \<open>The decoder inverts the code\<close>

text \<open>How many bytes the first \<open>i\<close> bytes of the code give.\<close>

definition decoded :: "nat \<Rightarrow> nat" where
  "decoded i = 7 * (i div 8) + (i mod 8 - 1)"

lemma decoded_Suc: "decoded (Suc i) = (if i mod 8 = 0 then decoded i else Suc (decoded i))"
  by (auto simp: decoded_def div_Suc mod_Suc)

lemma decoded_le: "decoded i \<le> i"
proof -
  have "8 * (i div 8) + i mod 8 = i" by simp
  then show ?thesis unfolding decoded_def by linarith
qed

lemma length_enc7_groups:
  "length (enc7 bs) = 8 * (length bs div 7) + (if length bs mod 7 = 0 then 0 else 1 + length bs mod 7)"
  using length_enc7 [of bs] by (simp add: written_size_def split: if_splits)

lemma decoded_enc7: "decoded (length (enc7 bs)) = length bs"
proof -
  define a r where "a = length bs div 7" and "r = length bs mod 7"
  have r: "r < 7" by (simp add: r_def)
  have n: "length bs = 7 * a + r" by (simp add: a_def r_def)
  have "decoded (8 * a + (if r = 0 then 0 else 1 + r)) = 7 * a + r"
    using r by (simp add: decoded_def)
  then show ?thesis by (simp only: length_enc7_groups a_def [symmetric] r_def [symmetric] n [symmetric])
qed

lemma decoded_bound:
  assumes "i < length (enc7 bs)" and "i mod 8 \<noteq> 0"
  shows "decoded i < length bs"
proof -
  define a r q s where "a = length bs div 7" and "r = length bs mod 7" and "q = i div 8" and "s = i mod 8"
  have n: "length bs = 7 * a + r" and i: "i = 8 * q + s" by (simp_all add: a_def r_def q_def s_def)
  have s: "s < 8" "s \<noteq> 0" using assms(2) by (simp_all add: s_def)
  have "8 * q + s < 8 * a + (if r = 0 then 0 else 1 + r)"
    using assms(1) by (simp only: length_enc7_groups i [symmetric] a_def [symmetric] r_def [symmetric])
  then have "7 * q + (s - 1) < 7 * a + r"
    using s by (cases "q < a") (auto split: if_splits)
  then show ?thesis by (simp add: decoded_def n flip: q_def s_def)
qed

lemma bit_x80: "bit (0x80 :: u8) n \<longleftrightarrow> n = 7"
proof -
  have "(0x80 :: u8) = push_bit 7 1" by simp
  then show ?thesis by (simp only: bit_push_bit_iff bit_1_iff) auto
qed

lemma bit_x7f: "bit (0x7f :: u8) n \<longleftrightarrow> n < 7"
proof -
  have "(0x7f :: u8) = mask 7" by (simp add: mask_eq_exp_minus_1)
  then show ?thesis by (simp only: bit_mask_iff) auto
qed

lemma byte_from_parts:
  assumes "s \<noteq> 0" and "s < 8" and "bit acc (s - 1) \<longleftrightarrow> bit b 7"
  shows "(b AND 0x7f) OR (push_bit (8 - s) acc AND 0x80) = (b :: u8)"
proof (rule bit_word_eqI)
  fix n assume "n < LENGTH(8)"
  then have n: "n < 8" by simp
  show "bit ((b AND 0x7f) OR (push_bit (8 - s) acc AND 0x80)) n = bit b n"
  proof (cases "n = 7")
    case True
    have "7 - (8 - s) = s - 1" "8 - s \<le> 7" using assms(1,2) by simp_all
    with True assms(3) show ?thesis
      unfolding bit_or_iff bit_and_iff bit_x80 bit_x7f by (simp add: bit_push_bit_iff)
  next
    case False
    with n show ?thesis unfolding bit_or_iff bit_and_iff bit_x80 bit_x7f by simp
  qed
qed

lemma decode_loop:
  assumes "i \<le> length (enc7 bs)"
  shows "\<exists>acc buf. fold decode_byte [0..<i] (0, 0, sysex bs @ rest) = (acc, decoded i, buf) \<and>
    length buf = length (sysex bs @ rest) \<and> take (decoded i) buf = take (decoded i) bs \<and>
    drop (i + 1) buf = drop (i + 1) (sysex bs @ rest) \<and>
    (i mod 8 \<noteq> 0 \<longrightarrow> acc = upper_bits (take 7 (drop (7 * (i div 8)) bs)))"
  using assms
proof (induction i)
  case 0
  show ?case by (simp add: decoded_def)
next
  case (Suc i)
  then obtain acc buf where st: "fold decode_byte [0..<i] (0, 0, sysex bs @ rest) = (acc, decoded i, buf)"
    and len: "length buf = length (sysex bs @ rest)" and out: "take (decoded i) buf = take (decoded i) bs"
    and unread: "drop (i + 1) buf = drop (i + 1) (sysex bs @ rest)"
    and acc: "i mod 8 \<noteq> 0 \<longrightarrow> acc = upper_bits (take 7 (drop (7 * (i div 8)) bs))" by auto
  have i: "i < length (enc7 bs)" using Suc.prems by simp
  have lx: "i + 2 < length buf" using i len by (simp add: sysex_def)
  have "buf ! (i + 1) = (sysex bs @ rest) ! (i + 1)"
    using unread lx len by (metis Suc_eq_plus1 hd_drop_conv_nth less_add_Suc1 add_2_eq_Suc' Suc_lessD)
  also have "\<dots> = enc7 bs ! i" using i by (simp add: sysex_def nth_append)
  finally have byt: "buf ! (i + 1) = enc7 bs ! i" .
  have next_drop: "drop (Suc i + 1) buf = drop (Suc i + 1) (sysex bs @ rest)"
    using arg_cong [OF unread, of "drop 1"] by (simp only: drop_drop) simp
  show ?case
  proof (cases "i mod 8 = 0")
    case True
    then have "Suc i mod 8 \<noteq> 0" "Suc i div 8 = i div 8" by (simp_all add: mod_Suc div_Suc)
    moreover have "fold decode_byte [0..<Suc i] (0, 0, sysex bs @ rest) = (enc7 bs ! i, decoded (Suc i), buf)"
      using True st byt by (simp add: decode_byte_def decoded_Suc)
    ultimately show ?thesis using True len out next_drop enc7_nth [OF i] decoded_Suc [of i] by auto
  next
    case False
    let ?k = "decoded i" and ?g = "take 7 (drop (7 * (i div 8)) bs)"
    have k: "?k < length bs" by (rule decoded_bound [OF i False])
    have kq: "?k = 7 * (i div 8) + (i mod 8 - 1)" by (simp add: decoded_def)
    have m8: "i mod 8 < 8" by simp
    have "bit acc (i mod 8 - 1) \<longleftrightarrow> bit (bs ! ?k) 7"
      using acc False k m8 by (simp add: bit_upper_bits kq) linarith
    with byte_from_parts [OF False m8] byt enc7_nth [OF i] False
    have val: "buf ! (i + 1) OR (push_bit (8 - i mod 8) acc AND 0x80) = bs ! ?k"
      by (simp add: kq)
    let ?buf = "buf[?k := bs ! ?k]"
    have "take (Suc ?k) ?buf = take (Suc ?k) bs"
      using out k lx decoded_le [of i] by (simp add: take_Suc_conv_app_nth)
    moreover have "drop (Suc i + 1) ?buf = drop (Suc i + 1) (sysex bs @ rest)"
      using next_drop decoded_le [of i] by simp
    moreover have "Suc i mod 8 \<noteq> 0 \<Longrightarrow> Suc i div 8 = i div 8" by (simp add: div_Suc mod_Suc)
    moreover have "fold decode_byte [0..<Suc i] (0, 0, sysex bs @ rest) = (acc, decoded (Suc i), ?buf)"
      using False st val by (simp add: decode_byte_def decoded_Suc)
    ultimately show ?thesis using len acc False decoded_Suc [of i] by auto
  qed
qed

lemma seven_bit_decode_sysex:
  "\<exists>buf. seven_bit_decode (sysex bs @ rest) (length (sysex bs)) = (buf, length bs) \<and>
    take (length bs) buf = bs \<and> length buf = length (sysex bs @ rest)"
proof -
  let ?n = "length (enc7 bs)"
  obtain acc buf where st: "fold decode_byte [0..<?n] (0, 0, sysex bs @ rest) = (acc, decoded ?n, buf)"
    "length buf = length (sysex bs @ rest)" "take (decoded ?n) buf = take (decoded ?n) bs"
    using decode_loop [of ?n bs rest] by auto
  have "length (sysex bs) = ?n + 2" "(sysex bs @ rest) ! 0 = SYSEX_START" "(sysex bs @ rest) ! (?n + 1) = SYSEX_END"
    by (simp_all add: sysex_def nth_append)
  then show ?thesis using st decoded_enc7 [of bs] by (simp add: seven_bit_decode_def)
qed

section \<open>The encoder computes the code\<close>

text \<open>Where \<open>to\<close> points while \<open>i\<close> bytes are still to be read.\<close>

definition encode_to :: "nat \<Rightarrow> nat" where
  "encode_to i = (if i = 0 then 0 else 2 + 8 * ((i - 1) div 7) + (i - 1) mod 7)"

lemma encode_to_Suc: "encode_to (Suc i) = 2 + 8 * (i div 7) + i mod 7"
  by (simp add: encode_to_def)

lemma encode_to_step: "encode_to i = (if i mod 7 = 0 then encode_to (Suc i) - 2 else encode_to (Suc i) - 1)"
  unfolding encode_to_def by (cases i) (auto simp: div_Suc mod_Suc)

lemma encode_to_all: "encode_to (length bs) + 2 = written_size (length bs)"
  unfolding encode_to_def written_size_def by (cases "length bs") (auto simp: div_Suc mod_Suc)

lemma bit_shifted_top:
  "s \<le> 7 \<Longrightarrow> bit (drop_bit (7 - s) (b AND 0x80) :: u8) j \<longleftrightarrow> j = s \<and> bit b 7"
proof -
  assume s: "s \<le> 7"
  then show ?thesis unfolding bit_drop_bit_eq o_def bit_and_iff bit_x80 by auto
qed

text \<open>The bits gathered in \<open>acc\<close>: those of the bytes of the group that have been read.\<close>

definition gathered :: "u8 list \<Rightarrow> nat \<Rightarrow> u8 \<Rightarrow> bool" where
  "gathered bs i acc \<longleftrightarrow> (\<forall>j. bit acc j \<longleftrightarrow> i mod 7 \<noteq> 0 \<and> i mod 7 \<le> j \<and>
     j < length (take 7 (drop (7 * (i div 7)) bs)) \<and> bit (bs ! (7 * (i div 7) + j)) 7)"

lemma gathered_step:
  assumes "gathered bs (Suc i) acc" and "i < length bs"
  shows "bit (acc OR drop_bit (7 - i mod 7) (bs ! i AND 0x80)) j \<longleftrightarrow> i mod 7 \<le> j \<and>
    j < length (take 7 (drop (7 * (i div 7)) bs)) \<and> bit (bs ! (7 * (i div 7) + j)) 7"
proof -
  have m: "i mod 7 \<le> 7" using mod_less_divisor [of 7 i] by linarith
  have old: "bit acc j \<longleftrightarrow> Suc (i mod 7) \<noteq> 7 \<and> Suc (i mod 7) \<le> j \<and>
     j < length (take 7 (drop (7 * (i div 7)) bs)) \<and> bit (bs ! (7 * (i div 7) + j)) 7"
    using assms(1) by (auto simp: gathered_def mod_Suc div_Suc)
  have "i = 7 * (i div 7) + i mod 7" by simp
  then have here: "bit (bs ! i) 7 \<longleftrightarrow> bit (bs ! (7 * (i div 7) + i mod 7)) 7"
    "i mod 7 < length (take 7 (drop (7 * (i div 7)) bs))"
    using assms(2) by (simp_all, linarith)
  show ?thesis unfolding bit_or_iff bit_shifted_top [OF m] old
    using here by (cases "j = i mod 7") (auto simp: le_less)
qed

text \<open>What the loop has reached with \<open>i\<close> bytes to go: everything behind \<open>to\<close> is as in \<open>frame\<close>.\<close>

definition encoding :: "u8 list \<Rightarrow> u8 list \<Rightarrow> nat \<Rightarrow> u8 \<times> nat \<times> u8 list \<Rightarrow> bool" where
  "encoding bs frame i s \<longleftrightarrow> (case s of (acc, to, buf) \<Rightarrow>
     gathered bs i acc \<and> to = encode_to i \<and> length buf = length frame \<and>
     take i buf = take i bs \<and> (\<forall>j. encode_to i < j \<and> j < length frame \<longrightarrow> buf ! j = frame ! j))"

lemma encode_to_bound: "i < length bs \<Longrightarrow> encode_to (Suc i) \<le> length (enc7 bs)"
proof -
  define a r q s where "a = length bs div 7" and "r = length bs mod 7" and "q = i div 7" and "s = i mod 7"
  assume "i < length bs"
  moreover have "length bs = 7 * a + r" "i = 7 * q + s" "r < 7" "s < 7"
    by (simp_all add: a_def r_def q_def s_def)
  ultimately have "2 + 8 * q + s \<le> 8 * a + (if r = 0 then 0 else 1 + r)"
    by (cases "q < a") (auto split: if_splits)
  then show ?thesis
    by (simp only: encode_to_Suc length_enc7_groups a_def [symmetric] r_def [symmetric] q_def [symmetric] s_def [symmetric])
qed

text \<open>The two bytes the loop writes, as bytes of the code.\<close>

lemma enc7_low: "i < length bs \<Longrightarrow> enc7 bs ! (1 + 8 * (i div 7) + i mod 7) = (bs ! i) AND 0x7f"
proof -
  assume i: "i < length bs"
  have m: "i mod 7 < 7" by simp
  have d: "(1 + 8 * (i div 7) + i mod 7) mod 8 = Suc (i mod 7)" "(1 + 8 * (i div 7) + i mod 7) div 8 = i div 7"
    using m by (simp_all add: mod_Suc div_Suc)
  have "1 + 8 * (i div 7) + i mod 7 < length (enc7 bs)"
    using encode_to_bound [OF i] by (simp add: encode_to_Suc)
  from enc7_nth [OF this, unfolded d] show ?thesis by simp
qed

lemma enc7_upper: "i < length bs \<Longrightarrow> enc7 bs ! (8 * (i div 7)) = upper_bits (take 7 (drop (7 * (i div 7)) bs))"
proof -
  assume "i < length bs"
  from encode_to_bound [OF this] have "8 * (i div 7) < length (enc7 bs)" by (simp add: encode_to_Suc)
  from enc7_nth [OF this] show ?thesis by simp
qed

lemma sysex_nth: "Suc j < length (sysex bs) - 1 \<Longrightarrow> (sysex bs @ rest) ! Suc j = enc7 bs ! j"
  by (simp add: sysex_def nth_append)

lemma encode_step:
  assumes "encoding bs (sysex bs @ rest) (Suc i) s" and i: "i < length bs"
  shows "encoding bs (sysex bs @ rest) i (encode_byte i s)"
proof -
  obtain acc to buf where s: "s = (acc, to, buf)" by (cases s)
  let ?f = "sysex bs @ rest" and ?to = "encode_to (Suc i)"
  let ?acc = "acc OR drop_bit (7 - i mod 7) (bs ! i AND 0x80)"
  have g: "gathered bs (Suc i) acc" and to: "to = ?to" and len: "length buf = length ?f"
    and inp: "take (Suc i) buf = take (Suc i) bs"
    and out: "\<And>j. ?to < j \<Longrightarrow> j < length ?f \<Longrightarrow> buf ! j = ?f ! j"
    using assms(1) by (auto simp: encoding_def s)
  have byt: "buf ! i = bs ! i" using arg_cong [OF inp, of "\<lambda>xs. xs ! i"] by simp
  have inp': "take i buf = take i bs" using arg_cong [OF inp, of "take i"] by (simp add: min_def)
  have room: "?to + 1 < length (sysex bs)" using encode_to_bound [OF i] by (simp add: sysex_def)
  have gt: "i < ?to - 1" "2 \<le> ?to"
  proof -
    have "7 * (i div 7) + i mod 7 = i" by simp
    then show "i < ?to - 1" "2 \<le> ?to" unfolding encode_to_Suc by linarith+
  qed
  have low: "?f ! ?to = (bs ! i) AND 0x7f"
    using sysex_nth [of "?to - 1" bs rest] enc7_low [OF i] room by (simp add: encode_to_Suc)
  have len_to: "?to < length buf" using room len by simp
  show ?thesis
  proof (cases "i mod 7 = 0")
    case True
    have "?acc = upper_bits (take 7 (drop (7 * (i div 7)) bs))"
    proof (rule bit_word_eqI)
      fix j
      show "bit ?acc j = bit (upper_bits (take 7 (drop (7 * (i div 7)) bs))) j"
        unfolding gathered_step [OF g i] using True by (auto simp: bit_upper_bits)
    qed
    moreover have "?f ! (?to - 1) = enc7 bs ! (8 * (i div 7))"
      using sysex_nth [of "?to - 2" bs rest] room True by (simp add: encode_to_Suc)
    ultimately have up: "?f ! (?to - 1) = ?acc" using enc7_upper [OF i] by simp
    let ?buf = "buf[?to := (bs ! i) AND 0x7f, ?to - 1 := ?acc]"
    have eb: "encode_byte i s = (0, encode_to i, ?buf)"
      using True encode_to_step [of i] by (simp add: encode_byte_def s to byt Let_def)
    have "encode_to i = ?to - 2" using True encode_to_step [of i] by simp
    then have "?buf ! j = ?f ! j" if "encode_to i < j" "j < length ?f" for j
      using that out [of j] low up len_to gt
      by (cases "j = ?to"; cases "j = ?to - 1") (auto simp: nth_list_update)
    moreover have "take i ?buf = take i bs" using inp' gt by simp
    moreover have "gathered bs i 0" using True by (simp add: gathered_def)
    ultimately show ?thesis unfolding eb encoding_def using len by simp
  next
    case False
    let ?buf = "buf[?to := (bs ! i) AND 0x7f]"
    have eb: "encode_byte i s = (?acc, encode_to i, ?buf)"
      using False encode_to_step [of i] by (simp add: encode_byte_def s to byt Let_def)
    have "encode_to i = ?to - 1" using False encode_to_step [of i] by simp
    then have "?buf ! j = ?f ! j" if "encode_to i < j" "j < length ?f" for j
      using that out [of j] low len_to gt by (cases "j = ?to") (auto simp: nth_list_update)
    moreover have "take i ?buf = take i bs" using inp' gt by simp
    moreover have "gathered bs i ?acc"
      unfolding gathered_def gathered_step [OF g i] using False by simp
    ultimately show ?thesis unfolding eb encoding_def using len by simp
  qed
qed

lemma encode_loop:
  "n \<le> length bs \<Longrightarrow> encoding bs (sysex bs @ rest) n s \<Longrightarrow>
   encoding bs (sysex bs @ rest) 0 (fold encode_byte (rev [0..<n]) s)"
proof (induction n arbitrary: s)
  case (Suc n)
  from Suc.IH [OF _ encode_step [OF Suc.prems(2)]] Suc.prems(1) show ?case by simp
qed simp

lemma seven_bit_encode_sysex:
  assumes "length buf = length (sysex bs @ rest)" and "take (length bs) buf = bs"
    and "drop (length (sysex bs)) buf = rest"
  shows "seven_bit_encode buf (length bs) = Some (sysex bs @ rest, length (sysex bs))"
proof -
  let ?n = "length bs" and ?w = "length (sysex bs)" and ?f = "sysex bs @ rest"
  have w: "written_size ?n = ?w" by (simp add: length_sysex)
  have to: "encode_to ?n = ?w - 2" using encode_to_all [of bs] by (simp add: length_sysex)
  have n: "?n \<le> length (enc7 bs)" using decoded_enc7 [of bs] decoded_le [of "length (enc7 bs)"] by simp
  have w2: "?w = length (enc7 bs) + 2" by (simp add: sysex_def)
  let ?b0 = "buf[?w - 1 := SYSEX_END]"
  have "encoding bs ?f ?n (0, encode_to ?n, ?b0)"
  proof -
    have last: "?b0 ! j = ?f ! j" if "encode_to ?n < j" "j < length ?f" for j
    proof (cases "j = ?w - 1")
      case True
      then show ?thesis using assms(1) that w2 by (simp add: sysex_def nth_append)
    next
      case False
      then have j: "?w \<le> j" using that to w2 by simp
      have "buf ! j = rest ! (j - ?w)"
        using arg_cong [OF assms(3), of "\<lambda>xs. xs ! (j - ?w)"] j that assms(1) by simp
      with j False show ?thesis by (simp add: nth_append)
    qed
    have "gathered bs ?n 0"
      by (auto simp: gathered_def) (metis minus_div_mult_eq_mod mult.commute not_le)
    with last show ?thesis using assms(1,2) n w2 by (simp add: encoding_def)
  qed
  from encode_loop [OF order_refl this] obtain acc b where
    fin: "fold encode_byte (rev [0..<?n]) (0, encode_to ?n, ?b0) = (acc, 0, b)" "length b = length ?f"
      "\<And>j. 0 < j \<Longrightarrow> j < length ?f \<Longrightarrow> b ! j = ?f ! j"
    by (cases "fold encode_byte (rev [0..<?n]) (0, encode_to ?n, ?b0)") (auto simp: encoding_def encode_to_def)
  have "b[0 := SYSEX_START] = ?f"
  proof (rule nth_equalityI)
    fix j assume "j < length (b[0 := SYSEX_START])"
    then show "b[0 := SYSEX_START] ! j = ?f ! j"
      using fin(2) fin(3) [of j] by (cases j) (simp_all add: sysex_def)
  qed (simp add: fin(2))
  with fin(1) assms(1) show ?thesis by (simp add: seven_bit_encode_def w Let_def to)
qed

text \<open>Between its ends the message has only bytes MIDI takes for data.\<close>

lemma and_x7f_less: "(b AND 0x7f :: u8) < 0x80"
proof -
  have "(0x7f :: u8) = mask 7" by (simp add: mask_eq_exp_minus_1)
  then have "b AND 0x7f = take_bit 7 b" by (simp add: take_bit_eq_mask)
  then have "unat (b AND 0x7f) < 2 ^ 7" by (simp only: unsigned_take_bit_eq take_bit_nat_less_exp)
  then show ?thesis by (simp add: word_less_nat_alt)
qed

lemma upper_bits_less: "length g \<le> 7 \<Longrightarrow> upper_bits g < 0x80"
proof -
  assume "length g \<le> 7"
  then have "upper_bits g AND 0x7f = upper_bits g"
    by (intro bit_word_eqI) (unfold bit_and_iff bit_x7f, auto simp: bit_upper_bits)
  with and_x7f_less [of "upper_bits g"] show ?thesis by simp
qed

lemma enc7_seven_bits: "b \<in> set (enc7 bs) \<Longrightarrow> b < 0x80"
proof (induction bs rule: enc7.induct)
  case (1 bs)
  then show ?case
    by (cases "bs = []") (auto simp: enc7.simps [of bs] enc7.simps [of "[]"] upper_bits_less and_x7f_less)
qed

end
