(* ===== verification/Cloak.thy ===== *)
theory Cloak
  imports Cloak_Codec Osc_Bridge
begin

text \<open>
  The plugin \<open>eteroj_cloak.c\<close>: OSC packets that come as atoms leave as MIDI system exclusive
  messages, and such messages leave as OSC packets. What one instance hides another finds.
\<close>

section \<open>The plugin\<close>

definition BUF_SIZE :: nat where "BUF_SIZE = 2048"

text \<open>\<open>cbuf\<close> is the address of the array \<open>buf\<close>.\<close>

record cloak =
  midi_MidiEvent :: u32
  cbuf :: addr
  osc_urid :: lv2_osc_urid

text \<open>What the host provides: the forge library, lookup in objects and the URID maps.\<close>

record 'f host =
  h_forge :: "'f forge"
  h_get :: object_get
  h_map :: "u8 list \<Rightarrow> u32"
  h_unmap :: "u32 \<Rightarrow> u8 list option"

text \<open>Memory, \<open>ref\<close> and the forge. A chain of calls is not begun when \<open>ref\<close> is null.\<close>

type_synonym 'f cstate = "mem \<times> bool \<times> 'f"

definition chain :: "'f forge \<Rightarrow> fstep list \<Rightarrow> bool \<Rightarrow> 'f \<Rightarrow> bool \<times> 'f" where
  "chain fd cs ref f = (if ref then forge_run fd cs f else (False, f))"

text \<open>In-place work on the array \<open>buf\<close>.\<close>

definition on_buffer :: "cloak \<Rightarrow> (u8 list \<Rightarrow> (u8 list \<times> 'a) option) \<Rightarrow> mem \<Rightarrow> (mem \<times> 'a) option" where
  "on_buffer h work m = Option.bind (ld m (cbuf h) BUF_SIZE) (\<lambda>b. Option.bind (work b) (\<lambda>(b1, x).
     map_option (\<lambda>m1. (m1, x)) (st m (cbuf h) b1)))"

text \<open>A MIDI event is copied, without a look at its size, and decoded.\<close>

definition cloak_midi :: "'f host \<Rightarrow> cloak \<Rightarrow> nat \<Rightarrow> u64 \<Rightarrow> atom \<Rightarrow> 'f cstate \<Rightarrow> (unit result \<times> 'f cstate) option" where
  "cloak_midi e h k frames a s = (case s of (m, ref, f) \<Rightarrow>
     let bs = body_bytes (atom_body a) in
     if BUF_SIZE < length bs then Some (Fault, s)
     else case Option.bind (st m (cbuf h) bs) (on_buffer h (\<lambda>b. Some (seven_bit_decode b (length bs)))) of
         None \<Rightarrow> Some (Fault, s)
       | Some (m1, n) \<Rightarrow>
           if n = 0 then Some (Ok (), (m1, ref, f))
           else (case chain (h_forge e) [Keep (FFrameTime frames)] ref f of
               (False, f1) \<Rightarrow> Some (Ok (), (m1, False, f1))
             | (True, f1) \<Rightarrow>
                 map_option (\<lambda>(res, f2). case res of
                     Ok _ \<Rightarrow> (Ok (), (m1, True, f2))
                   | Fail \<Rightarrow> (Ok (), (m1, False, f2))
                   | Fault \<Rightarrow> (Fault, (m1, True, f2)))
                   (lv2_osc_forge_packet k (h_forge e) (osc_urid h) (h_map e) m1 (cbuf h) (of_nat n) f1)))"

text \<open>Any other event is written as OSC, whatever the writer returns, and encoded.\<close>

definition cloak_osc :: "'f host \<Rightarrow> cloak \<Rightarrow> nat \<Rightarrow> u64 \<Rightarrow> atom \<Rightarrow> 'f cstate \<Rightarrow> (unit result \<times> 'f cstate) option" where
  "cloak_osc e h k frames a s = (case s of (m, ref, f) \<Rightarrow>
     case lv2_osc_writer_packet k (osc_urid h) (h_get e) (h_unmap e) (atom_body a) of
       None \<Rightarrow> None
     | Some wr \<Rightarrow> Some (case wr (m, lv2_osc_writer_initialize (cbuf h) (of_nat BUF_SIZE)) of
           (Fault, (m1, w)) \<Rightarrow> (Fault, (m1, ref, f))
         | (_, (m1, w)) \<Rightarrow>
             (let n = fst (lv2_osc_writer_finalize w) in
              if n = 0 then (Ok (), (m1, ref, f))
              else case on_buffer h (\<lambda>b. map_option (\<lambda>(b1, k). (b1, take k b1)) (seven_bit_encode b (unat n))) m1 of
                  None \<Rightarrow> (Fault, (m1, ref, f))
                | Some (m2, bs) \<Rightarrow>
                    (case chain (h_forge e) [Keep (FFrameTime frames),
                        Keep (FAtom (of_nat (length bs)) (midi_MidiEvent h)),
                        Keep (FRaw bs), Loose (FPad (of_nat (length bs)))] ref f of
                      (ref1, f1) \<Rightarrow> (Ok (), (m2, ref1, f1))))))"

definition cloak_event :: "'f host \<Rightarrow> cloak \<Rightarrow> nat \<Rightarrow> u64 \<times> atom \<Rightarrow> 'f cstate \<Rightarrow> (unit result \<times> 'f cstate) option" where
  "cloak_event e h k ev = (case ev of (frames, a) \<Rightarrow>
     if atom_type a = midi_MidiEvent h then cloak_midi e h k frames a else cloak_osc e h k frames a)"

fun cloak_events :: "'f host \<Rightarrow> cloak \<Rightarrow> nat \<Rightarrow> (u64 \<times> atom) list \<Rightarrow> 'f cstate \<Rightarrow> (unit result \<times> 'f cstate) option" where
  "cloak_events e h k [] s = Some (Ok (), s)"
| "cloak_events e h k (ev # evs) s =
     (case cloak_event e h k ev s of
        None \<Rightarrow> None
      | Some (Ok _, s1) \<Rightarrow> cloak_events e h k evs s1
      | Some (res, s1) \<Rightarrow> Some (res, s1))"

text \<open>\<open>Fail\<close> is the end of \<open>run\<close> that clears the output.\<close>

definition cloak_run :: "'f host \<Rightarrow> cloak \<Rightarrow> nat \<Rightarrow> (u64 \<times> atom) list \<Rightarrow> mem \<Rightarrow> 'f \<Rightarrow> (unit result \<times> mem \<times> 'f) option" where
  "cloak_run e h k evs m f =
     (case forge_run (h_forge e) [Keep (FSequenceHead 0)] f of
        (ref, f1) \<Rightarrow> map_option (\<lambda>(res, m1, ref1, f2). case res of
            Ok _ \<Rightarrow> if ref1 then (Ok (), m1, snd (forge_run (h_forge e) [Loose FPop] f2)) else (Fail, m1, f2)
          | _ \<Rightarrow> (res, m1, f2))
        (cloak_events e h k evs (m, ref, f1)))"

section \<open>What the buffer holds\<close>

definition cloak_ready :: "cloak \<Rightarrow> mem \<Rightarrow> u8 list \<Rightarrow> bool" where
  "cloak_ready h m b \<longleftrightarrow> mem_at m (cbuf h) b \<and> length b = BUF_SIZE \<and> unat (cbuf h) + BUF_SIZE + 2 ^ 33 \<le> 2 ^ 64"

lemma on_buffer_works:
  assumes "cloak_ready h m b" and "work b = Some (b1, x)" and "length b1 = BUF_SIZE"
  shows "\<exists>m1. on_buffer h work m = Some (m1, x) \<and> cloak_ready h m1 b1"
proof -
  have "ld m (cbuf h) BUF_SIZE = Some b" using assms(1) by (simp add: cloak_ready_def ld_iff_mem_at)
  moreover obtain m1 where "st m (cbuf h) b1 = Some m1" "mem_at m1 (cbuf h) b1"
    using st_exists [of m "cbuf h" b b1] assms(1,3) by (auto simp: cloak_ready_def BUF_SIZE_def)
  ultimately show ?thesis using assms by (simp add: on_buffer_def cloak_ready_def)
qed

lemma ready_wview:
  "cloak_ready h m b \<Longrightarrow> wview (m, lv2_osc_writer_initialize (cbuf h) (of_nat BUF_SIZE)) [] b"
  by (simp add: cloak_ready_def wview_def lv2_osc_writer_initialize_def)

lemma wview_ready:
  assumes "wview (m, w) out rest" and "wbuf w = cbuf h" and "length (out @ rest) = BUF_SIZE"
  shows "cloak_ready h m (out @ rest)" and "unat (fst (lv2_osc_writer_finalize w)) = length out"
proof -
  from assms show "cloak_ready h m (out @ rest)" by (simp add: cloak_ready_def wview_def)
  have b: "unat (wbuf w) + length out + 2 ^ 33 \<le> 2 ^ 64" and p: "wptr w = wbuf w + of_nat (length out)"
    using assms(1) by (simp_all add: wview_def)
  have u: "unat (wptr w) = unat (wbuf w) + length out"
    unfolding p using b by (simp add: unat_word_ariths)
  have "unat (wptr w - wbuf w) = length out" unfolding p using b by simp
  then show "unat (fst (lv2_osc_writer_finalize w)) = length out"
    using u by (auto simp: lv2_osc_writer_finalize_def lv2_osc_writer_get_size_def word_less_nat_alt Let_def)
qed

section \<open>One event\<close>

lemma written_size_bounds:
  "n + 2 \<le> written_size n" "n \<le> 1790 \<Longrightarrow> written_size n \<le> BUF_SIZE" "1790 < n \<Longrightarrow> BUF_SIZE < written_size n"
proof -
  define a r where "a = n div 7" and "r = n mod 7"
  have n: "n = 7 * a + r" "r < 7" by (simp_all add: a_def r_def)
  have w: "written_size n = a * 8 + (if r \<noteq> 0 then 1 + r else 0) + 2"
    by (simp add: written_size_def a_def r_def)
  show "n + 2 \<le> written_size n" unfolding w using n by (cases "r = 0") simp_all
  show "n \<le> 1790 \<Longrightarrow> written_size n \<le> BUF_SIZE"
    unfolding w BUF_SIZE_def using n by (cases "a = 255") (auto split: if_splits)
  show "1790 < n \<Longrightarrow> BUF_SIZE < written_size n"
    unfolding w BUF_SIZE_def using n by (cases "a \<le> 255"; cases "a = 255") auto
qed

text \<open>A host that keeps what the plugin forges.\<close>

definition recorder :: "object_get \<Rightarrow> (u8 list \<Rightarrow> u32) \<Rightarrow> (u32 \<Rightarrow> u8 list option) \<Rightarrow> fcall list host" where
  "recorder oget umap unmap = \<lparr>h_forge = recording, h_get = oget, h_map = umap, h_unmap = unmap\<rparr>"

lemma recorder_simps [simp]:
  "h_forge (recorder oget umap unmap) = recording" "h_get (recorder oget umap unmap) = oget"
  "h_map (recorder oget umap unmap) = umap" "h_unmap (recorder oget umap unmap) = unmap"
  by (simp_all add: recorder_def)

lemma chain_recording [simp]: "chain recording cs True f = (True, f @ map fstep_call cs)"
  by (simp add: chain_def forge_run_recording)

definition hidden_calls :: "cloak \<Rightarrow> u64 \<times> u8 list \<Rightarrow> fcall list" where
  "hidden_calls h fb = (case fb of (frames, bs) \<Rightarrow>
     [FFrameTime frames, FAtom (of_nat (length (sysex bs))) (midi_MidiEvent h), FRaw (sysex bs),
      FPad (of_nat (length (sysex bs)))])"

definition hides :: "packet \<Rightarrow> u8 list \<Rightarrow> bool" where
  "hides p bs \<longleftrightarrow> packet_wire p bs \<and> length bs \<le> packet_size p"

text \<open>What the writer has left in the buffer is sent, whether the writer succeeded or not.\<close>

lemma cloak_osc_sends:
  assumes wr: "lv2_osc_writer_packet k (osc_urid h) oget unmap (atom_body a) = Some wr"
    and run: "wr (m, lv2_osc_writer_initialize (cbuf h) (of_nat BUF_SIZE)) = (res, (m1, w1))" "res \<noteq> Fault"
    and view: "wview (m1, w1) bs rest" and same: "wbuf w1 = cbuf h" and l1: "length (bs @ rest) = BUF_SIZE"
    and bs: "bs \<noteq> []" "length bs \<le> 1790"
  shows "\<exists>m2 b2. cloak_osc (recorder oget umap unmap) h k frames a (m, True, f)
      = Some (Ok (), (m2, True, f @ hidden_calls h (frames, bs))) \<and> cloak_ready h m2 b2"
proof -
  note fin = wview_ready [OF view same l1]
  have fits: "written_size (length bs) \<le> BUF_SIZE" by (rule written_size_bounds(2) [OF bs(2)])
  have enc: "seven_bit_encode (bs @ rest) (length bs)
      = Some (sysex bs @ drop (length (sysex bs)) (bs @ rest), length (sysex bs))"
    by (rule seven_bit_encode_sysex) (use l1 fits in \<open>simp_all add: length_sysex\<close>)
  let ?work = "\<lambda>b. map_option (\<lambda>(b1, k). (b1, take k b1)) (seven_bit_encode b (length bs))"
  define b2 where "b2 = sysex bs @ drop (length (sysex bs)) (bs @ rest)"
  have "?work (bs @ rest) = Some (b2, sysex bs)" unfolding enc b2_def by simp
  moreover have "length b2 = BUF_SIZE" using l1 fits by (simp add: b2_def length_sysex)
  ultimately obtain m2 where "on_buffer h ?work m1 = Some (m2, sysex bs)" "cloak_ready h m2 b2"
    using on_buffer_works [OF fin(1), where work = ?work] by blast
  moreover have "fst (lv2_osc_writer_finalize w1) \<noteq> 0"
    using fin(2) bs(1) by (metis length_0_conv unat_0)
  ultimately show ?thesis using wr run fin(2)
    by (cases res) (auto simp: cloak_osc_def Let_def hidden_calls_def)
qed

lemma cloak_osc_hides:
  assumes "cloak_ready h m b" and u: "proper_urid (osc_urid h)" and o: "finds_values oget"
    and ok: "packet_ok unmap umap p" and size: "packet_size p \<le> 1790" and k: "packet_depth p \<le> k"
  shows "\<exists>bs m1 b1. cloak_osc (recorder oget umap unmap) h k frames (packet_atom (osc_urid h) umap p) (m, True, f)
      = Some (Ok (), (m1, True, f @ hidden_calls h (frames, bs))) \<and>
    cloak_ready h m1 b1 \<and> hides p bs"
proof -
  let ?enc = "packet_enc p b"
  have "packet_size p < 2 ^ 31" using size by simp
  then obtain wr where wr: "lv2_osc_writer_packet k (osc_urid h) oget unmap
      (atom_body (packet_atom (osc_urid h) umap p)) = Some wr" and op: "writer_op wr (packet_enc p)"
    using writer_packet_refines [OF u o ok _ k] by blast
  have len: "length ?enc \<le> packet_size p" by (rule length_packet_enc [OF ok])
  have b: "length b = BUF_SIZE" using assms(1) by (simp add: cloak_ready_def)
  have room: "fits (length ?enc) b" using len size b by (simp add: fits_def BUF_SIZE_def)
  obtain m1 w1 where run: "wr (m, lv2_osc_writer_initialize (cbuf h) (of_nat BUF_SIZE)) = (Ok (), (m1, w1))"
    and view: "wview (m1, w1) ?enc (drop (length ?enc) b)" and same: "wbuf w1 = cbuf h"
    using writer_op.room [OF op ready_wview [OF assms(1)] room]
    by (auto simp: lv2_osc_writer_initialize_def dest: wsame_wbuf)
  have l1: "length (?enc @ drop (length ?enc) b) = BUF_SIZE" using len size b by (simp add: BUF_SIZE_def)
  have small: "length ?enc \<le> 1790" using len size by simp
  have "hides p ?enc" using packet_wire_enc [OF ok room] len by (simp add: hides_def)
  with cloak_osc_sends [OF wr run _ view same l1 packet_enc_not_Nil small] show ?thesis by blast
qed

lemma cloak_midi_finds:
  assumes "cloak_ready h m b" and hid: "hides p bs" and ok: "forge_ok p" and size: "packet_size p \<le> 1790"
    and k: "packet_fuel p \<le> k"
  shows "\<exists>m1 b1. cloak_midi (recorder oget umap unmap) h k frames (Atom t (Bytes (sysex bs))) (m, True, f)
      = Some (Ok (), (m1, True, f @ FFrameTime frames # packet_calls (osc_urid h) umap p)) \<and> cloak_ready h m1 b1"
proof -
  let ?n = "length (sysex bs)"
  have wire: "packet_wire p bs" and len: "length bs \<le> 1790" using hid size by (simp_all add: hides_def)
  have n: "?n \<le> BUF_SIZE" using written_size_bounds(2) [OF len] by (simp add: length_sysex)
  have b: "mem_at m (cbuf h) ([] @ take ?n b @ drop ?n b)" "length b = BUF_SIZE" "unat (cbuf h) + BUF_SIZE + 2 ^ 33 \<le> 2 ^ 64"
    using assms(1) by (simp_all add: cloak_ready_def)
  obtain m0 where m0: "st m (cbuf h) (sysex bs) = Some m0" "mem_at m0 (cbuf h) (sysex bs @ drop ?n b)"
    using st_region [OF b(1), of "sysex bs"] n b(2) by (auto simp: BUF_SIZE_def)
  have ready0: "cloak_ready h m0 (sysex bs @ drop ?n b)"
    using m0(2) b(2,3) n by (simp add: cloak_ready_def)
  obtain b1 where dec: "seven_bit_decode (sysex bs @ drop ?n b) ?n = (b1, length bs)" "take (length bs) b1 = bs"
    "length b1 = length (sysex bs @ drop ?n b)"
    using seven_bit_decode_sysex by blast
  let ?work = "\<lambda>b. Some (seven_bit_decode b ?n)"
  obtain m1 where m1: "on_buffer h ?work m0 = Some (m1, length bs)" "cloak_ready h m1 b1"
    using on_buffer_works [OF ready0, of ?work b1 "length bs"] dec b(2) n by auto
  have "mem_at m1 (cbuf h) bs"
    using m1(2) mem_at_split [of m1 "cbuf h" b1 "length bs"] dec(2,3) b(2) n written_size_bounds(1) [of "length bs"]
    by (auto simp: cloak_ready_def length_sysex)
  then have view: "rview m1 (lv2_osc_reader_initialize (cbuf h) (of_nat (length bs))) bs"
    using b(3) len by (simp add: rview_def lv2_osc_reader_initialize_def BUF_SIZE_def)
  have "length bs < 2 ^ 31" using len by simp
  from forge_packet_calls [OF view wire ok this k, of "osc_urid h" umap "f @ [FFrameTime frames]"]
  have forged: "lv2_osc_forge_packet k recording (osc_urid h) umap m1 (cbuf h) (of_nat (length bs)) (f @ [FFrameTime frames])
      = Some (Ok (), f @ FFrameTime frames # packet_calls (osc_urid h) umap p)" by simp
  have "bs \<noteq> []" using wire
    by (cases p) (auto simp: message_wire_def bundle_wire_def enc_string_def bundle_tag_def)
  with m0(1) m1 forged n show ?thesis by (auto simp: cloak_midi_def Let_def)
qed

section \<open>A run\<close>

lemma cloak_events_hide:
  assumes u: "proper_urid (osc_urid h)" and o: "finds_values oget" and mi: "midi_MidiEvent h = u_MidiEvent (osc_urid h)"
  shows "cloak_ready h m b \<Longrightarrow>
    list_all (\<lambda>(_, p). packet_ok unmap umap p \<and> packet_size p \<le> 1790 \<and> packet_depth p \<le> k) ps \<Longrightarrow>
    \<exists>bss m1. cloak_events (recorder oget umap unmap) h k (map (\<lambda>(t, p). (t, packet_atom (osc_urid h) umap p)) ps) (m, True, f)
        = Some (Ok (), (m1, True, f @ concat (map (hidden_calls h) bss))) \<and>
      list_all2 (\<lambda>(t, p) (t', bs). t' = t \<and> hides p bs) ps bss"
proof (induction ps arbitrary: m b f)
  case Nil
  show ?case by (rule exI [of _ "[]"]) simp
next
  case (Cons tp ps)
  obtain t p where tp: "tp = (t, p)" by (cases tp)
  have ok: "packet_ok unmap umap p" "packet_size p \<le> 1790" "packet_depth p \<le> k" using Cons.prems(2) tp by simp_all
  obtain bs m1 b1 where ev: "cloak_osc (recorder oget umap unmap) h k t (packet_atom (osc_urid h) umap p) (m, True, f)
      = Some (Ok (), (m1, True, f @ hidden_calls h (t, bs)))" "cloak_ready h m1 b1" "hides p bs"
    using cloak_osc_hides [OF Cons.prems(1) u o ok] by blast
  have "list_all (\<lambda>(_, p). packet_ok unmap umap p \<and> packet_size p \<le> 1790 \<and> packet_depth p \<le> k) ps"
    using Cons.prems(2) by simp
  from Cons.IH [OF ev(2) this] obtain bss m2 where rest:
    "cloak_events (recorder oget umap unmap) h k (map (\<lambda>(t, p). (t, packet_atom (osc_urid h) umap p)) ps)
        (m1, True, f @ hidden_calls h (t, bs))
      = Some (Ok (), (m2, True, (f @ hidden_calls h (t, bs)) @ concat (map (hidden_calls h) bss)))"
    "list_all2 (\<lambda>(t, p) (t', bs). t' = t \<and> hides p bs) ps bss" by blast
  have "u_Object (osc_urid h) \<noteq> u_MidiEvent (osc_urid h)" using u by (auto simp: proper_urid_def types_of_def)
  then have "atom_type (packet_atom (osc_urid h) umap p) \<noteq> midi_MidiEvent h" by (cases p) (simp_all add: mi)
  with ev rest show ?case
    by (intro exI [of _ "(t, bs) # bss"] exI [of _ m2]) (simp add: tp cloak_event_def)
qed

lemma cloak_events_find:
  "cloak_ready h m b \<Longrightarrow> list_all2 (\<lambda>(t, p) (t', bs). t' = t \<and> hides p bs) ps bss \<Longrightarrow>
   list_all (\<lambda>(_, p). forge_ok p \<and> packet_size p \<le> 1790 \<and> packet_fuel p \<le> k) ps \<Longrightarrow>
   \<exists>m1. cloak_events (recorder oget umap unmap) h k
       (map (\<lambda>(t, bs). (t, Atom (midi_MidiEvent h) (Bytes (sysex bs)))) bss) (m, True, f)
     = Some (Ok (), (m1, True, f @ concat (map (\<lambda>(t, p). FFrameTime t # packet_calls (osc_urid h) umap p) ps)))"
proof (induction ps arbitrary: bss m b f)
  case Nil
  then show ?case by simp
next
  case (Cons tp ps)
  obtain t p where tp: "tp = (t, p)" by (cases tp)
  obtain bs bss' where bss: "bss = (t, bs) # bss'" "hides p bs"
    "list_all2 (\<lambda>(t, p) (t', bs). t' = t \<and> hides p bs) ps bss'"
    using Cons.prems(2) tp by (cases bss) auto
  have ok: "forge_ok p" "packet_size p \<le> 1790" "packet_fuel p \<le> k" using Cons.prems(3) tp by simp_all
  obtain m1 b1 where ev: "cloak_midi (recorder oget umap unmap) h k t (Atom (midi_MidiEvent h) (Bytes (sysex bs))) (m, True, f)
      = Some (Ok (), (m1, True, f @ FFrameTime t # packet_calls (osc_urid h) umap p))" "cloak_ready h m1 b1"
    using cloak_midi_finds [OF Cons.prems(1) bss(2) ok] by blast
  have "list_all (\<lambda>(_, p). forge_ok p \<and> packet_size p \<le> 1790 \<and> packet_fuel p \<le> k) ps"
    using Cons.prems(3) by simp
  from Cons.IH [OF ev(2) bss(3) this, of "f @ FFrameTime t # packet_calls (osc_urid h) umap p"] ev(1)
  show ?case by (auto simp: bss(1) tp cloak_event_def)
qed

lemma cloak_run_recording:
  "cloak_events (recorder oget umap unmap) h k evs (m, True, [FSequenceHead 0]) = Some (Ok (), (m1, True, f)) \<Longrightarrow>
   cloak_run (recorder oget umap unmap) h k evs m [] = Some (Ok (), m1, f @ [FPop])"
  "cloak_events (recorder oget umap unmap) h k evs (m, True, [FSequenceHead 0]) = Some (Fault, (m1, r, f)) \<Longrightarrow>
   cloak_run (recorder oget umap unmap) h k evs m [] = Some (Fault, m1, f)"
proof -
  have "forge_run recording [Keep (FSequenceHead 0)] [] = (True, [FSequenceHead 0])"
    "forge_run recording [Loose FPop] f = (True, f @ [FPop])"
    unfolding forge_run_recording by simp_all
  then show "cloak_events (recorder oget umap unmap) h k evs (m, True, [FSequenceHead 0]) = Some (Ok (), (m1, True, f)) \<Longrightarrow>
      cloak_run (recorder oget umap unmap) h k evs m [] = Some (Ok (), m1, f @ [FPop])"
    "cloak_events (recorder oget umap unmap) h k evs (m, True, [FSequenceHead 0]) = Some (Fault, (m1, r, f)) \<Longrightarrow>
      cloak_run (recorder oget umap unmap) h k evs m [] = Some (Fault, m1, f)"
    by (simp_all add: cloak_run_def del: forge_run.simps)
qed

section \<open>A packet the writer cannot finish\<close>

lemma call_bind_assoc: "call_bind (call_bind f g) h = call_bind f (\<lambda>a. call_bind (g a) h)"
  by (simp add: call_bind_def fun_eq_iff split: prod.splits result.splits)

lemma packet_arguments_append:
  "packet_arguments u oget unmap (xs @ ys) s
    = call_bind (packet_arguments u oget unmap xs) (\<lambda>_. packet_arguments u oget unmap ys) s"
proof (induction xs arbitrary: s)
  case (Cons x xs)
  then have "packet_arguments u oget unmap (xs @ ys)
    = call_bind (packet_arguments u oget unmap xs) (\<lambda>_. packet_arguments u oget unmap ys)" by blast
  then show ?case by (simp add: call_bind_assoc)
qed simp

definition cut_enc :: "u8 list \<Rightarrow> u8 list \<Rightarrow> osc_arg list \<Rightarrow> u8 list \<Rightarrow> u8 list" where
  "cut_enc path fmt as rest = (let head = enc_string path @ enc_string (comma # fmt)
     in head @ args_enc as (drop (length head) rest))"

lemma symbol_fails:
  assumes "proper_urid u" and "unmap (umap s) = None"
  shows "packet_argument u oget unmap (arg_atom u umap (ASymbol s)) = w_fail"
proof -
  have "distinct (types_of u)" "distinct (rev (types_of u))" using assms(1) by (simp_all only: proper_urid_def distinct_rev)
  note d = this [unfolded types_of_def, simplified]
  show ?thesis using assms(2) by (simp add: packet_argument_def d Let_def)
qed

lemma packet_message_cut:
  assumes u: "proper_urid u" and o: "finds_values oget" and ok: "packet_ok unmap umap (PMessage path as)"
    and len: "length path < 2 ^ 31" "length as < 127" and s: "unmap (umap s) = None"
  shows "\<exists>wr. writer_op wr (cut_enc path (arg_fmt (as @ [ASymbol s])) as) \<and>
    (\<forall>z. packet_message u oget unmap (atom_body (packet_atom u umap (PMessage path (as @ [ASymbol s])))) z
      = call_bind wr (\<lambda>_. w_fail) z)"
proof -
  let ?as = "as @ [ASymbol s]"
  have "u_messagePath u \<noteq> u_messageArguments u" using u by (simp add: proper_urid_def)
  note g = finds_pair [OF o this]
  have body: "lv2_osc_message_body_get u oget (atom_body (packet_atom u umap (PMessage path ?as))) =
      Ok (str_atom u path, Some (tuple_atom u (map (arg_atom u umap) ?as)))"
    using g by (simp add: lv2_osc_message_body_get_def object_props_def str_atom_def tuple_atom_def)
  define wr where "wr = call_bind (lv2_osc_writer_add_path path) (\<lambda>_. call_bind (lv2_osc_writer_add_format (arg_fmt ?as)) (\<lambda>_.
      packet_arguments u oget unmap (map (arg_atom u umap) as)))"
  have fmt: "packet_format u (map (arg_atom u umap) ?as) = Some (arg_fmt ?as)"
    by (rule packet_format_atoms [OF u]) (use len in simp)
  have last: "packet_arguments u oget unmap [arg_atom u umap (ASymbol s)] = w_fail"
    using symbol_fails [where unmap = unmap and umap = umap, OF u s] by (simp add: call_bind_def fun_eq_iff)
  have "packet_message u oget unmap (atom_body (packet_atom u umap (PMessage path ?as))) z = call_bind wr (\<lambda>_. w_fail) z" for z
    using ok fmt unfolding packet_message_def body wr_def
    by (simp add: str_atom_def body_str_def tuple_atom_def tuple_items_def call_bind_assoc
        packet_arguments_append [abs_def] last del: packet_arguments.simps arg_atom.simps)
  moreover have "writer_op wr (cut_enc path (arg_fmt ?as) as)"
    unfolding wr_def
    by (rule writer_op_cong [OF writer_op_bind [OF writer_op_path
          writer_op_bind [OF writer_op_format packet_arguments_refines [OF u o]]]])
      (use ok len in \<open>simp_all add: cut_enc_def Let_def add.commute\<close>)
  ultimately show ?thesis by blast
qed

section \<open>Properties\<close>

text \<open>
  The encoder, in place on a buffer, replaces its first bytes by the system exclusive
  message that carries them and leaves what is behind it; when the message does not fit, it
  writes beyond the buffer.
\<close>

theorem seven_bit_encode_exact:
  assumes "n \<le> length buf"
  shows "seven_bit_encode buf n =
    (if written_size n \<le> length buf
     then Some (sysex (take n buf) @ drop (written_size n) buf, written_size n) else None)"
proof (cases "written_size n \<le> length buf")
  case True
  have n: "length (take n buf) = n" using assms by simp
  have "seven_bit_encode buf (length (take n buf))
      = Some (sysex (take n buf) @ drop (written_size n) buf, length (sysex (take n buf)))"
    by (rule seven_bit_encode_sysex) (use True n in \<open>simp_all add: length_sysex\<close>)
  with True n show ?thesis by (simp add: length_sysex)
qed (simp add: seven_bit_encode_def Let_def)

theorem seven_bit_encode_exact_witness:
  "seven_bit_encode [1, 0x82, 3, 0, 0, 0, 0, 0] 3 =
    (if written_size 3 \<le> length [1, 0x82, 3, 0, 0, 0, 0, 0 :: u8]
     then Some (sysex (take 3 [1, 0x82, 3, 0, 0, 0, 0, 0]) @ drop (written_size 3) [1, 0x82, 3, 0, 0, 0, 0, 0], written_size 3)
     else None)"
  by (rule seven_bit_encode_exact) simp

text \<open>
  C29. What the encoder makes is one system exclusive message: it begins and ends with the status
  bytes, all bytes between them are data bytes, below 0x80, and the decoder gives back the bytes encoded.
\<close>

theorem seven_bit_roundtrip:
  assumes "n \<le> length buf" and "seven_bit_encode buf n = Some (buf1, k)"
  shows "(\<exists>ds. take k buf1 = SYSEX_START # ds @ [SYSEX_END] \<and> (\<forall>d \<in> set ds. d < 0x80)) \<and>
    (\<exists>buf2. seven_bit_decode buf1 k = (buf2, n) \<and> take n buf2 = take n buf)"
proof -
  let ?bs = "take n buf"
  have n: "length ?bs = n" using assms(1) by simp
  have fit: "written_size n \<le> length buf" using assms(2) by (auto simp: seven_bit_encode_def Let_def split: if_splits)
  have "seven_bit_encode buf (length ?bs) = Some (sysex ?bs @ drop (written_size n) buf, length (sysex ?bs))"
    by (rule seven_bit_encode_sysex) (use fit n in \<open>simp_all add: length_sysex\<close>)
  then have r: "buf1 = sysex ?bs @ drop (written_size n) buf" "k = length (sysex ?bs)" using assms n by simp_all
  have "take k buf1 = SYSEX_START # enc7 ?bs @ [SYSEX_END]" by (simp add: r) (simp add: sysex_def)
  moreover have "\<exists>buf2. seven_bit_decode buf1 k = (buf2, n) \<and> take n buf2 = take n buf"
    unfolding r using seven_bit_decode_sysex [of ?bs "drop (written_size n) buf"] unfolding n by blast
  ultimately show ?thesis using enc7_seven_bits by blast
qed

theorem seven_bit_roundtrip_witness:
  "\<exists>buf1 k. seven_bit_encode [1, 0x82, 3, 0, 0, 0, 0, 0] 3 = Some (buf1, k) \<and>
    (\<exists>ds. take k buf1 = SYSEX_START # ds @ [SYSEX_END] \<and> (\<forall>d \<in> set ds. d < 0x80)) \<and>
    (\<exists>buf2. seven_bit_decode buf1 k = (buf2, 3) \<and> take 3 buf2 = take 3 [1, 0x82, 3, 0, 0, 0, 0, 0])"
proof -
  have "\<exists>buf1 k. seven_bit_encode [1, 0x82, 3, 0, 0, 0, 0, 0] 3 = Some (buf1, k)"
    by (simp add: seven_bit_encode_def written_size_def Let_def split: prod.splits)
  then obtain buf1 k where e: "seven_bit_encode [1, 0x82, 3, 0, 0, 0, 0, 0] 3 = Some (buf1, k)" by blast
  from seven_bit_roundtrip [OF _ e] e show ?thesis by auto
qed

text \<open>
  C10. Two instances are inverse to each other: packets of up to 1790 bytes given to one come out
  as system exclusive messages, one for each and at its time, and these given to the other come
  out as the packets, each built by exactly the calls that build its atom.
\<close>

theorem cloak_roundtrip:
  assumes "proper_urid (osc_urid h)" and "finds_values oget" and "midi_MidiEvent h = u_MidiEvent (osc_urid h)"
    and "cloak_ready h m b" and "osc_urid h' = osc_urid h" and "midi_MidiEvent h' = midi_MidiEvent h"
    and "cloak_ready h' m' b'"
    and "list_all (\<lambda>(_, p). packet_ok unmap umap p \<and> packet_size p \<le> 1790 \<and> packet_depth p \<le> k) ps"
    and "list_all (\<lambda>(_, p). forge_ok p \<and> packet_size p \<le> 1790 \<and> packet_fuel p \<le> k) ps"
  shows "\<exists>bss m1 m2. cloak_run (recorder oget umap unmap) h k (map (\<lambda>(t, p). (t, packet_atom (osc_urid h) umap p)) ps) m []
      = Some (Ok (), m1, FSequenceHead 0 # concat (map (hidden_calls h) bss) @ [FPop]) \<and>
    cloak_run (recorder oget umap unmap) h' k (map (\<lambda>(t, bs). (t, Atom (midi_MidiEvent h) (Bytes (sysex bs)))) bss) m' []
      = Some (Ok (), m2, FSequenceHead 0 #
          concat (map (\<lambda>(t, p). FFrameTime t # packet_calls (osc_urid h) umap p) ps) @ [FPop])"
proof -
  obtain bss m1 where hide: "cloak_events (recorder oget umap unmap) h k
      (map (\<lambda>(t, p). (t, packet_atom (osc_urid h) umap p)) ps) (m, True, [FSequenceHead 0])
      = Some (Ok (), (m1, True, [FSequenceHead 0] @ concat (map (hidden_calls h) bss)))"
    and bss: "list_all2 (\<lambda>(t, p) (t', bs). t' = t \<and> hides p bs) ps bss"
    using cloak_events_hide [OF assms(1-4,8)] by blast
  obtain m2 where find: "cloak_events (recorder oget umap unmap) h' k
      (map (\<lambda>(t, bs). (t, Atom (midi_MidiEvent h') (Bytes (sysex bs)))) bss) (m', True, [FSequenceHead 0])
      = Some (Ok (), (m2, True, [FSequenceHead 0] @
          concat (map (\<lambda>(t, p). FFrameTime t # packet_calls (osc_urid h') umap p) ps)))"
    using cloak_events_find [OF assms(7) bss assms(9)] by blast
  from cloak_run_recording(1) [OF hide] cloak_run_recording(1) [OF find] show ?thesis
    unfolding assms(5,6) by auto
qed

theorem cloak_roundtrip_witness:
  "let h = \<lparr>midi_MidiEvent = 15, cbuf = 4096, osc_urid = host_urid\<rparr>; m = region 4096 (replicate 2048 0) in
   \<exists>bss m1 m2. cloak_run (recorder first_value (\<lambda>_. 0) (\<lambda>_. None)) h 30
        (map (\<lambda>(t, p). (t, packet_atom (osc_urid h) (\<lambda>_. 0) p)) [(3, sample_packet)]) m []
      = Some (Ok (), m1, FSequenceHead 0 # concat (map (hidden_calls h) bss) @ [FPop]) \<and>
    cloak_run (recorder first_value (\<lambda>_. 0) (\<lambda>_. None)) h 30
        (map (\<lambda>(t, bs). (t, Atom (midi_MidiEvent h) (Bytes (sysex bs)))) bss) m []
      = Some (Ok (), m2, FSequenceHead 0 #
          concat (map (\<lambda>(t, p). FFrameTime t # packet_calls (osc_urid h) (\<lambda>_. 0) p) [(3, sample_packet)]) @ [FPop])"
proof -
  let ?h = "\<lparr>midi_MidiEvent = 15, cbuf = 4096, osc_urid = host_urid\<rparr> :: cloak"
  let ?m = "region 4096 (replicate 2048 0)"
  have ready: "cloak_ready ?h ?m (replicate 2048 0)"
    by (simp add: cloak_ready_def mem_at_region BUF_SIZE_def)
  have mi: "midi_MidiEvent ?h = u_MidiEvent (osc_urid ?h)" by (simp add: host_urid_def lv2_osc_urid_init_def)
  have small: "packet_size sample_packet \<le> 1790" by (simp add: sample_packet_def message_size_def pad4_def)
  have u: "proper_urid (osc_urid ?h)" by simp
  from cloak_roundtrip [OF u finds_first_value mi ready refl refl ready, of "\<lambda>_. None" "\<lambda>_. 0" 30 "[(3, sample_packet)]"]
  show ?thesis using small by (simp add: Let_def)
qed

text \<open>
  The buffer is as large as the packets the writer accepts, but their code is longer: a
  packet of 1791 bytes or more that still fits the buffer makes the encoder write beyond it.
\<close>

theorem cloak_overruns:
  assumes "cloak_ready h m b" and "proper_urid (osc_urid h)" and "finds_values oget"
    and "midi_MidiEvent h = u_MidiEvent (osc_urid h)" and "packet_ok unmap umap p" and "packet_depth p \<le> k"
    and "packet_size p < 2 ^ 31" and "1790 < length (packet_enc p b)" and "length (packet_enc p b) < BUF_SIZE"
  shows "\<exists>m1 f. cloak_run (recorder oget umap unmap) h k [(t, packet_atom (osc_urid h) umap p)] m [] = Some (Fault, m1, f)"
proof -
  let ?w = "lv2_osc_writer_initialize (cbuf h) (of_nat BUF_SIZE)" and ?enc = "packet_enc p b"
  obtain wr where wr: "lv2_osc_writer_packet k (osc_urid h) oget unmap
      (atom_body (packet_atom (osc_urid h) umap p)) = Some wr" and op: "writer_op wr (packet_enc p)"
    using writer_packet_refines [OF assms(2,3,5,7,6)] by blast
  have b: "length b = BUF_SIZE" using assms(1) by (simp add: cloak_ready_def)
  have room: "fits (length ?enc) b" using assms(9) b by (simp add: fits_def)
  obtain m1 w1 where run: "wr (m, ?w) = (Ok (), (m1, w1))" and view: "wview (m1, w1) ?enc (drop (length ?enc) b)"
    and same: "wbuf w1 = cbuf h"
    using writer_op.room [OF op ready_wview [OF assms(1)] room]
    by (auto simp: lv2_osc_writer_initialize_def dest: wsame_wbuf)
  let ?b1 = "?enc @ drop (length ?enc) b"
  have l1: "length ?b1 = BUF_SIZE" using assms(9) b by simp
  note fin = wview_ready [OF view same l1]
  have "BUF_SIZE < written_size (length ?enc)"
    by (rule written_size_bounds(3) [OF assms(8)])
  then have "on_buffer h (\<lambda>b. map_option (\<lambda>(b1, k). (b1, take k b1)) (seven_bit_encode b (length ?enc))) m1 = None"
    using fin(1) l1 by (auto simp: on_buffer_def cloak_ready_def seven_bit_encode_def ld_iff_mem_at split: bind_splits)
  moreover have "fst (lv2_osc_writer_finalize w1) \<noteq> 0"
    using fin(2) assms(8) by (metis not_less_zero unat_0)
  moreover have "atom_type (packet_atom (osc_urid h) umap p) \<noteq> midi_MidiEvent h"
    using assms(2,4) by (cases p) (auto simp: proper_urid_def types_of_def)
  ultimately have "cloak_events (recorder oget umap unmap) h k [(t, packet_atom (osc_urid h) umap p)]
      (m, True, [FSequenceHead 0]) = Some (Fault, (m1, True, [FSequenceHead 0]))"
    using wr run fin(2) by (simp add: cloak_event_def cloak_osc_def Let_def)
  from cloak_run_recording(2) [OF this] show ?thesis by blast
qed

theorem cloak_overruns_witness:
  "\<exists>m1 f. cloak_run (recorder first_value (\<lambda>_. 0) (\<lambda>_. None)) \<lparr>midi_MidiEvent = 15, cbuf = 4096, osc_urid = host_urid\<rparr> 1
      [(0, packet_atom (osc_urid \<lparr>midi_MidiEvent = 15, cbuf = 4096, osc_urid = host_urid\<rparr>) (\<lambda>_. 0)
        (PMessage (cstr ''/a'') [ABlob (replicate 1800 0)]))]
      (region 4096 (replicate 2048 0)) [] = Some (Fault, m1, f)"
proof (rule cloak_overruns [where b = "replicate 2048 0"])
  show "cloak_ready \<lparr>midi_MidiEvent = 15, cbuf = 4096, osc_urid = host_urid\<rparr> (region 4096 (replicate 2048 0)) (replicate 2048 0)"
    by (simp add: cloak_ready_def mem_at_region BUF_SIZE_def)
  have "length (packet_enc (PMessage (cstr ''/a'') [ABlob (replicate 1800 0)]) (replicate 2048 0)) = 1812"
    by (simp add: message_enc_def Let_def pad4_def enc_blob_def)
  then show "1790 < length (packet_enc (PMessage (cstr ''/a'') [ABlob (replicate 1800 0)]) (replicate 2048 0))"
    "length (packet_enc (PMessage (cstr ''/a'') [ABlob (replicate 1800 0)]) (replicate 2048 0)) < BUF_SIZE"
    by (simp_all add: BUF_SIZE_def)
  show "midi_MidiEvent \<lparr>midi_MidiEvent = 15, cbuf = 4096, osc_urid = host_urid\<rparr>
      = u_MidiEvent (osc_urid \<lparr>midi_MidiEvent = 15, cbuf = 4096, osc_urid = host_urid\<rparr>)"
    by (simp add: host_urid_def lv2_osc_urid_init_def)
qed (simp_all add: packet_arg_ok_def c8_def message_size_def pad4_def)

text \<open>
  The result of the writer is ignored: a message whose last argument is a symbol the host
  cannot unmap is sent all the same, cut off before that argument, though its format announces it.
\<close>

theorem cloak_sends_truncated:
  assumes "cloak_ready h m b" and "proper_urid (osc_urid h)" and "finds_values oget"
    and "midi_MidiEvent h = u_MidiEvent (osc_urid h)"
    and "packet_ok unmap umap (PMessage path as)" and "length as < 127" and "unmap (umap s) = None"
    and "message_size path (as @ [ASymbol s]) \<le> 1790"
  shows "\<exists>m1 bs. cloak_run (recorder oget umap unmap) h 1
      [(t, packet_atom (osc_urid h) umap (PMessage path (as @ [ASymbol s])))] m []
      = Some (Ok (), m1, FSequenceHead 0 # hidden_calls h (t, bs) @ [FPop]) \<and>
    (\<exists>args. bs = enc_string path @ enc_string (comma # arg_fmt (as @ [ASymbol s])) @ args \<and> args_wire as args)"
proof -
  let ?p = "PMessage path (as @ [ASymbol s])" and ?cut = "cut_enc path (arg_fmt (as @ [ASymbol s])) as b"
  have len: "length path < 2 ^ 31" using message_lengths [of path "as @ [ASymbol s]"] assms(8) by simp
  obtain pre where op: "writer_op pre (cut_enc path (arg_fmt (as @ [ASymbol s])) as)"
    and cut: "\<And>z. packet_message (osc_urid h) oget unmap (atom_body (packet_atom (osc_urid h) umap ?p)) z
      = call_bind pre (\<lambda>_. w_fail) z"
    using packet_message_cut [OF assms(2,3,5) len assms(6,7)] by blast
  have "u_Message (osc_urid h) \<noteq> u_Bundle (osc_urid h)" using assms(2) by (auto simp: proper_urid_def)
  then have wr: "lv2_osc_writer_packet 1 (osc_urid h) oget unmap (atom_body (packet_atom (osc_urid h) umap ?p))
      = Some (packet_message (osc_urid h) oget unmap (atom_body (packet_atom (osc_urid h) umap ?p)))"
    by (simp add: object_otype_def)
  have aok: "list_all arg_ok as" using assms(5) by (auto intro: packet_arg_ok_arg)
  have small: "length ?cut \<le> 1790"
    using length_args_enc [OF aok, of "drop (length (enc_string path @ enc_string (comma # arg_fmt (as @ [ASymbol s])))) b"]
      assms(8) by (simp add: cut_enc_def Let_def message_size_def)
  have b: "length b = BUF_SIZE" using assms(1) by (simp add: cloak_ready_def)
  have ne: "?cut \<noteq> []" by (simp add: cut_enc_def enc_string_def Let_def)
  have room: "fits (length ?cut) b" using small b by (simp add: fits_def BUF_SIZE_def)
  obtain m1 w1 where run: "pre (m, lv2_osc_writer_initialize (cbuf h) (of_nat BUF_SIZE)) = (Ok (), (m1, w1))"
    and view: "wview (m1, w1) ?cut (drop (length ?cut) b)" and same: "wbuf w1 = cbuf h"
    using writer_op.room [OF op ready_wview [OF assms(1)] room]
    by (auto simp: lv2_osc_writer_initialize_def dest: wsame_wbuf)
  have run': "packet_message (osc_urid h) oget unmap (atom_body (packet_atom (osc_urid h) umap ?p))
      (m, lv2_osc_writer_initialize (cbuf h) (of_nat BUF_SIZE)) = (Fail, (m1, w1))"
    unfolding cut by (simp add: run)
  have l1: "length (?cut @ drop (length ?cut) b) = BUF_SIZE" using small b by (simp add: BUF_SIZE_def)
  obtain m2 b2 where ev: "cloak_osc (recorder oget umap unmap) h 1 t (packet_atom (osc_urid h) umap ?p) (m, True, [FSequenceHead 0])
      = Some (Ok (), (m2, True, [FSequenceHead 0] @ hidden_calls h (t, ?cut)))"
    using cloak_osc_sends [OF wr run' _ view same l1 ne small] by blast
  have "atom_type (packet_atom (osc_urid h) umap ?p) \<noteq> midi_MidiEvent h"
    using assms(2,4) by (auto simp: proper_urid_def types_of_def)
  with ev have evs: "cloak_events (recorder oget umap unmap) h 1 [(t, packet_atom (osc_urid h) umap ?p)]
      (m, True, [FSequenceHead 0]) = Some (Ok (), (m2, True, [FSequenceHead 0] @ hidden_calls h (t, ?cut)))"
    by (simp add: cloak_event_def)
  let ?head = "enc_string path @ enc_string (comma # arg_fmt (as @ [ASymbol s]))"
  have "fits (length (args_enc as (drop (length ?head) b))) (drop (length ?head) b)"
    using room by (auto simp: cut_enc_def Let_def fits_def)
  from args_wire_enc [OF aok this] have "args_wire as (args_enc as (drop (length ?head) b))" .
  then show ?thesis using cloak_run_recording(1) [OF evs] by (auto simp: cut_enc_def Let_def)
qed

theorem cloak_sends_truncated_witness:
  "\<exists>m1 bs. cloak_run (recorder first_value (\<lambda>_. 0) (\<lambda>_. None)) \<lparr>midi_MidiEvent = 15, cbuf = 4096, osc_urid = host_urid\<rparr> 1
      [(0, packet_atom (osc_urid \<lparr>midi_MidiEvent = 15, cbuf = 4096, osc_urid = host_urid\<rparr>) (\<lambda>_. 0)
        (PMessage (cstr ''/a'') ([AInt 7] @ [ASymbol (cstr ''s'')])))] (region 4096 (replicate 2048 0)) []
      = Some (Ok (), m1, FSequenceHead 0 #
          hidden_calls \<lparr>midi_MidiEvent = 15, cbuf = 4096, osc_urid = host_urid\<rparr> (0, bs) @ [FPop]) \<and>
    (\<exists>args. bs = enc_string (cstr ''/a'') @ enc_string (comma # arg_fmt ([AInt 7] @ [ASymbol (cstr ''s'')])) @ args \<and>
      args_wire [AInt 7] args)"
proof (rule cloak_sends_truncated [where b = "replicate 2048 0"])
  show "cloak_ready \<lparr>midi_MidiEvent = 15, cbuf = 4096, osc_urid = host_urid\<rparr> (region 4096 (replicate 2048 0)) (replicate 2048 0)"
    by (simp add: cloak_ready_def mem_at_region BUF_SIZE_def)
  show "midi_MidiEvent \<lparr>midi_MidiEvent = 15, cbuf = 4096, osc_urid = host_urid\<rparr>
      = u_MidiEvent (osc_urid \<lparr>midi_MidiEvent = 15, cbuf = 4096, osc_urid = host_urid\<rparr>)"
    by (simp add: host_urid_def lv2_osc_urid_init_def)
qed (simp_all add: packet_arg_ok_def c8_def message_size_def pad4_def)

end
