(* ===== verification/Slip.thy ===== *)
theory Slip
  imports Prelude
begin

text \<open>
  The SLIP framing of \<open>osc.lv2/osc.lv2/stream.h\<close>, which works in place on one buffer: a
  buffer is the list of its bytes, pointers are positions in it, and the encoder, whose result
  is longer than its input, is undefined (\<open>None\<close>) when the buffer cannot hold it. \<open>slip_frame\<close>
  is the framing as RFC 1055 gives it.
\<close>

section \<open>The code\<close>

definition SLIP_END :: u8 where "SLIP_END = 0xC0"
definition SLIP_ESC :: u8 where "SLIP_ESC = 0xDB"
definition SLIP_END_REPLACE :: u8 where "SLIP_END_REPLACE = 0xDC"
definition SLIP_ESC_REPLACE :: u8 where "SLIP_ESC_REPLACE = 0xDD"

lemmas slip_codes = SLIP_END_def SLIP_ESC_def SLIP_END_REPLACE_def SLIP_ESC_REPLACE_def

text \<open>The size estimate of the first loop.\<close>

definition slip_size :: "u8 list \<Rightarrow> nat" where
  "slip_size bs = fold (\<lambda>b n. Suc (if b = SLIP_END \<or> b = SLIP_ESC then Suc n else n)) bs 2"

text \<open>The slow track: \<open>i\<close> bytes are still to be read, \<open>k - 1\<close> is where \<open>to\<close> points.\<close>

primrec slip_encode_back :: "nat \<Rightarrow> nat \<Rightarrow> u8 list \<Rightarrow> u8 list \<times> nat" where
  "slip_encode_back 0 k buf = (buf, k)"
| "slip_encode_back (Suc i) k buf =
     (if buf ! i = SLIP_END then slip_encode_back i (k - 2) (buf[k - 1 := SLIP_END_REPLACE, k - 2 := SLIP_ESC])
      else if buf ! i = SLIP_ESC then slip_encode_back i (k - 2) (buf[k - 1 := SLIP_ESC_REPLACE, k - 2 := SLIP_ESC])
      else slip_encode_back i (k - 1) (buf[k - 1 := buf ! i]))"

definition lv2_osc_slip_encode_inline :: "u8 list \<Rightarrow> nat \<Rightarrow> (u8 list \<times> nat) option" where
  "lv2_osc_slip_encode_inline buf len =
     (if len = 0 then Some (buf, 0)
      else let n = slip_size (take len buf) in
        if n > length buf then None
        else if n = len + 2 then
          (let moved = take 1 buf @ take len buf @ drop (len + 1) buf
           in Some (moved[0 := SLIP_END, n - 1 := SLIP_END], n))
        else (case slip_encode_back len (n - 1) (buf[n - 1 := SLIP_END]) of
            (buf1, k) \<Rightarrow> Some (buf1[k - 1 := SLIP_END], n)))"

text \<open>The decoder's loop: \<open>src\<close> and \<open>ptr\<close> are positions; the result is the buffer, the bytes consumed and the size.\<close>

function slip_decode_loop :: "nat \<Rightarrow> nat \<Rightarrow> nat \<Rightarrow> bool \<Rightarrow> u8 list \<Rightarrow> u8 list \<times> nat \<times> nat" where
  "slip_decode_loop len src ptr whole buf =
     (if src \<ge> len then (buf, 0, 0)
      else if buf ! src = SLIP_ESC then
        (if src = len - 1 then (buf, 0, 0)
         else let b = buf ! (src + 1) in
           if b = SLIP_END_REPLACE then slip_decode_loop len (src + 2) (ptr + 1) whole (buf[ptr := SLIP_END])
           else if b = SLIP_ESC_REPLACE then slip_decode_loop len (src + 2) (ptr + 1) whole (buf[ptr := SLIP_ESC])
           else slip_decode_loop len (src + 2) ptr whole buf)
      else if buf ! src = SLIP_END then (buf, src + 1, if whole then ptr else 0)
      else slip_decode_loop len (src + 1) (ptr + 1) whole (buf[ptr := buf ! src]))"
  by pat_completeness auto
termination
  by (relation "measure (\<lambda>(len, src, _). len - src)") auto

declare slip_decode_loop.simps [simp del]

definition lv2_osc_slip_decode_inline :: "u8 list \<Rightarrow> nat \<Rightarrow> u8 list \<times> nat \<times> nat" where
  "lv2_osc_slip_decode_inline buf len =
     (if 0 < len \<and> buf ! 0 = SLIP_END then slip_decode_loop len 1 0 True buf
      else slip_decode_loop len 0 0 False buf)"

section \<open>Framing as a function on byte strings\<close>

definition slip_escape :: "u8 \<Rightarrow> u8 list" where
  "slip_escape b =
     (if b = SLIP_END then [SLIP_ESC, SLIP_END_REPLACE]
      else if b = SLIP_ESC then [SLIP_ESC, SLIP_ESC_REPLACE]
      else [b])"

definition slip_body :: "u8 list \<Rightarrow> u8 list" where
  "slip_body bs = concat (map slip_escape bs)"

definition slip_frame :: "u8 list \<Rightarrow> u8 list" where
  "slip_frame bs = SLIP_END # slip_body bs @ [SLIP_END]"

lemma slip_body_simps [simp]:
  "slip_body [] = []" "slip_body (b # bs) = slip_escape b @ slip_body bs"
  "slip_body (xs @ ys) = slip_body xs @ slip_body ys"
  by (simp_all add: slip_body_def)

lemma length_slip_escape: "length (slip_escape b) = (if b = SLIP_END \<or> b = SLIP_ESC then 2 else 1)"
  by (simp add: slip_escape_def)

lemma length_slip_body: "length bs \<le> length (slip_body bs)" "length (slip_body bs) \<le> 2 * length bs"
  by (induction bs) (simp_all add: length_slip_escape)

lemma slip_size_body: "slip_size bs = length (slip_frame bs)"
proof -
  have "fold (\<lambda>b n. Suc (if b = SLIP_END \<or> b = SLIP_ESC then Suc n else n)) bs n = n + length (slip_body bs)" for n
    by (induction bs arbitrary: n) (auto simp: length_slip_escape)
  then show ?thesis by (simp add: slip_size_def slip_frame_def)
qed

lemma plain_body: "length (slip_body bs) = length bs \<Longrightarrow> slip_body bs = bs"
proof (induction bs)
  case (Cons b bs)
  then show ?case using length_slip_body(1) [of bs]
    by (auto simp: slip_escape_def split: if_splits)
qed simp

section \<open>The encoder computes the frame\<close>

lemma update_at: "k = length xs \<Longrightarrow> (xs @ y # ys)[k := b] = xs @ b # ys"
  by simp

lemma update_two_at: "k = length xs \<Longrightarrow> (xs @ y # z # ys)[Suc k := c, k := b] = xs @ b # c # ys"
  by (simp add: list_update_append)

text \<open>
  Invariant of the slow track: the unread prefix \<open>bs\<close> is in place, \<open>out\<close> is written from
  position \<open>k\<close> on, and between them is scratch space, at least as much as \<open>bs\<close> still expands by.
\<close>

lemma slip_encode_back:
  "length pad = 1 + length (slip_body bs) - length bs \<Longrightarrow>
   \<exists>pad'. slip_encode_back (length bs) (1 + length (slip_body bs)) (bs @ pad @ out) =
     (pad' # slip_body bs @ out, 1)"
proof (induction bs arbitrary: pad out rule: rev_induct)
  case Nil
  then obtain p where "pad = [p]" by (auto simp: length_Suc_conv)
  then show ?case by simp
next
  case (snoc b bs)
  let ?e = "slip_escape b" and ?d = "length (slip_body bs) - length bs"
  have ge: "length bs \<le> length (slip_body bs)" by (rule length_slip_body)
  have lpad: "length pad = ?d + length ?e"
    using snoc.prems ge by (simp add: length_slip_escape)
  define buf where "buf = bs @ b # pad @ out"
  have hd: "buf ! length bs = b" by (simp add: buf_def)
  define pad1 where "pad1 = take (Suc ?d) (b # pad)"
  have lpad1: "length pad1 = 1 + length (slip_body bs) - length bs"
    using lpad ge by (simp add: pad1_def length_slip_escape)
  have split: "b # pad = pad1 @ drop (Suc ?d) (b # pad)" by (simp add: pad1_def)
  have ldrop: "length (drop (Suc ?d) (b # pad)) = length ?e" using lpad by simp
  have pos: "length bs + length pad1 = 1 + length (slip_body bs)" using lpad1 ge by simp
  have "\<exists>pad'. slip_encode_back (length bs) (1 + length (slip_body bs)) (bs @ pad1 @ ?e @ out) =
     (pad' # slip_body bs @ ?e @ out, 1)"
    by (rule snoc.IH [OF lpad1])
  moreover have "slip_encode_back (Suc (length bs)) (1 + length (slip_body (bs @ [b]))) buf
      = slip_encode_back (length bs) (1 + length (slip_body bs)) (bs @ pad1 @ ?e @ out)"
  proof (cases "b = SLIP_END \<or> b = SLIP_ESC")
    case True
    then have "length ?e = 2" by (simp add: length_slip_escape)
    with ldrop have "length (drop (Suc ?d) (b # pad)) = 2" by (rule trans)
    then obtain p q where pq: "drop (Suc ?d) (b # pad) = [p, q]"
      by (rule list_of_length_2)
    have b: "buf = (bs @ pad1) @ p # q # out" using split [unfolded pq] by (simp add: buf_def)
    have upd: "buf[Suc (Suc (length (slip_body bs))) := y, Suc (length (slip_body bs)) := x]
        = (bs @ pad1) @ x # y # out" for x y
      unfolding b by (rule update_two_at) (use pos in simp)
    show ?thesis using True hd upd
      by (auto simp: slip_escape_def slip_codes simp del: list_update_swap)
  next
    case False
    then have "length ?e = 1" by (simp add: length_slip_escape)
    with ldrop have "length (drop (Suc ?d) (b # pad)) = 1" by (rule trans)
    then obtain p where p: "drop (Suc ?d) (b # pad) = [p]"
      by (rule list_of_length_1)
    have b: "buf = (bs @ pad1) @ p # out" using split [unfolded p] by (simp add: buf_def)
    have upd: "buf[Suc (length (slip_body bs)) := x] = (bs @ pad1) @ x # out" for x
      unfolding b by (rule update_at) (use pos in simp)
    show ?thesis using False hd upd by (simp add: slip_escape_def)
  qed
  ultimately show ?case by (simp add: buf_def)
qed

lemma slip_encode_frame:
  assumes "bs \<noteq> []" and "length (slip_frame bs) \<le> length (bs @ room)"
  shows "lv2_osc_slip_encode_inline (bs @ room) (length bs) =
    Some (slip_frame bs @ drop (length (slip_frame bs)) (bs @ room), length (slip_frame bs))"
proof (cases "length (slip_frame bs) = length bs + 2")
  case True
  then have plain: "slip_body bs = bs" by (intro plain_body) (simp add: slip_frame_def)
  obtain b bs' where bs: "bs = b # bs'" using assms by (cases bs) auto
  have "2 \<le> length room" using assms(2) True by simp
  then obtain x y room' where room: "room = x # y # room'"
    by (rule list_from_2)
  show ?thesis using assms True plain
    by (simp add: lv2_osc_slip_encode_inline_def slip_size_body Let_def room bs slip_frame_def list_update_append)
next
  case False
  let ?n = "length (slip_frame bs)"
  have ge: "length bs \<le> length (slip_body bs)" by (rule length_slip_body)
  define pad where "pad = take (1 + length (slip_body bs) - length bs) room"
  define tail where "tail = drop (1 + length (slip_body bs) - length bs) room"
  have room: "room = pad @ tail" by (simp add: pad_def tail_def)
  have lpad: "length pad = 1 + length (slip_body bs) - length bs"
    using assms(2) ge by (simp add: pad_def slip_frame_def)
  obtain o1 out' where out: "tail = o1 # out'"
    using assms(2) ge by (cases tail) (simp_all add: tail_def slip_frame_def)
  have upd: "(bs @ room)[?n - 1 := SLIP_END] = bs @ pad @ SLIP_END # out'"
    using lpad ge by (simp add: room out slip_frame_def list_update_append)
  obtain p where bk: "slip_encode_back (length bs) (1 + length (slip_body bs)) (bs @ pad @ SLIP_END # out')
      = (p # slip_body bs @ SLIP_END # out', 1)"
    using slip_encode_back [OF lpad] by blast
  have dr: "drop ?n (bs @ room) = out'"
    using lpad ge by (simp add: room out slip_frame_def)
  have "slip_size bs = ?n" by (rule slip_size_body)
  then have "lv2_osc_slip_encode_inline (bs @ room) (length bs)
      = Some (SLIP_END # slip_body bs @ SLIP_END # out', ?n)"
    using assms False upd bk
    by (simp add: lv2_osc_slip_encode_inline_def Let_def) (simp add: slip_frame_def)
  then show ?thesis unfolding dr by (simp add: slip_frame_def)
qed

section \<open>The decoder inverts it\<close>

lemma end_not_esc [simp]: "SLIP_END \<noteq> SLIP_ESC" "SLIP_ESC \<noteq> SLIP_END"
  "SLIP_END_REPLACE \<noteq> SLIP_ESC_REPLACE" "SLIP_ESC_REPLACE \<noteq> SLIP_END_REPLACE"
  by (simp_all add: slip_codes)

text \<open>One step of the loop over an escaped byte writes the byte itself.\<close>

lemma slip_decode_step:
  assumes "length pre = src" and "ptr \<le> src" and "src + length (slip_escape b) < len"
  shows "slip_decode_loop len src ptr whole (pre @ slip_escape b @ post) =
    slip_decode_loop len (src + length (slip_escape b)) (ptr + 1) whole ((pre @ slip_escape b)[ptr := b] @ post)"
proof -
  have upd: "(pre @ slip_escape b @ post)[ptr := b] = (pre @ slip_escape b)[ptr := b] @ post"
    using assms(1,2) by (simp add: list_update_append slip_escape_def)
  show ?thesis
    using assms upd by (subst slip_decode_loop.simps) (auto simp: slip_escape_def nth_append Let_def)
qed

lemma slip_decode_end:
  "src < len \<Longrightarrow> buf ! src = SLIP_END \<Longrightarrow>
   slip_decode_loop len src ptr whole buf = (buf, src + 1, if whole then ptr else 0)"
  by (subst slip_decode_loop.simps) simp

lemma slip_decode_body:
  "length pre = src \<Longrightarrow> ptr \<le> src \<Longrightarrow> src + length (slip_body bs) < len \<Longrightarrow>
   \<exists>buf'. slip_decode_loop len src ptr whole (pre @ slip_body bs @ SLIP_END # post) =
      (buf', src + length (slip_body bs) + 1, if whole then ptr + length bs else 0) \<and>
     take (ptr + length bs) buf' = take ptr pre @ bs \<and>
     drop (src + length (slip_body bs) + 1) buf' = post \<and>
     length buf' = src + length (slip_body bs) + 1 + length post"
proof (induction bs arbitrary: pre src ptr)
  case Nil
  then show ?case by (simp add: slip_decode_end nth_append)
next
  case (Cons b bs)
  let ?e = "slip_escape b" and ?pre = "(pre @ slip_escape b)[ptr := b]"
  have step: "slip_decode_loop len src ptr whole (pre @ slip_body (b # bs) @ SLIP_END # post) =
    slip_decode_loop len (src + length ?e) (ptr + 1) whole (?pre @ slip_body bs @ SLIP_END # post)"
    using slip_decode_step [of pre src ptr b len whole "slip_body bs @ SLIP_END # post"] Cons.prems by simp
  have lt: "ptr < length ?pre" using Cons.prems(1,2) by (simp add: length_slip_escape)
  have "take (ptr + 1) ?pre = take ptr pre @ [b]"
    using lt Cons.prems(1,2) by (simp add: take_Suc_conv_app_nth)
  moreover obtain buf' where
    "slip_decode_loop len (src + length ?e) (ptr + 1) whole (?pre @ slip_body bs @ SLIP_END # post) =
      (buf', src + length ?e + length (slip_body bs) + 1, if whole then ptr + 1 + length bs else 0)"
    "take (ptr + 1 + length bs) buf' = take (ptr + 1) ?pre @ bs"
    "drop (src + length ?e + length (slip_body bs) + 1) buf' = post"
    "length buf' = src + length ?e + length (slip_body bs) + 1 + length post"
    using Cons.IH [of ?pre "src + length ?e" "ptr + 1"] Cons.prems
    by (auto simp: length_slip_escape split: if_splits)
  ultimately show ?case unfolding step by (intro exI [of _ buf']) (simp add: add.assoc)
qed

lemma slip_decode_frame:
  assumes "length (slip_frame bs) \<le> len"
  shows "\<exists>buf'. lv2_osc_slip_decode_inline (slip_frame bs @ rest) len =
      (buf', length (slip_frame bs), length bs) \<and>
    take (length bs) buf' = bs \<and> drop (length (slip_frame bs)) buf' = rest \<and>
    length buf' = length (slip_frame bs @ rest)"
  using slip_decode_body [of "[SLIP_END]" 1 0 bs len True rest] assms
  by (simp add: lv2_osc_slip_decode_inline_def slip_frame_def)

text \<open>Without an \<open>END\<close> in sight the loop consumes nothing, but has already moved the bytes.\<close>

lemma slip_decode_none:
  "\<forall>j. src \<le> j \<longrightarrow> j < len \<longrightarrow> buf ! j \<noteq> SLIP_END \<Longrightarrow> ptr \<le> src \<Longrightarrow>
   \<exists>buf'. slip_decode_loop len src ptr whole buf = (buf', 0, 0) \<and> take ptr buf' = take ptr buf"
proof (induction len src ptr whole buf rule: slip_decode_loop.induct)
  case (1 len src ptr whole buf)
  have upd: "\<forall>j. k \<le> j \<longrightarrow> j < len \<longrightarrow> buf[ptr := x] ! j \<noteq> SLIP_END" if "src < k" for k x
    using that 1(5,6) by auto
  have shorter: "take (Suc ptr) buf' = take (Suc ptr) (buf[ptr := x]) \<Longrightarrow> take ptr buf' = take ptr buf" for buf' x
    by (drule arg_cong [where f = "take ptr"]) simp
  show ?case
  proof (cases "src < len")
    case False
    then show ?thesis by (subst slip_decode_loop.simps) simp
  next
    case True
    then have src: "buf ! src \<noteq> SLIP_END" using 1(5) by simp
    note eq = slip_decode_loop.simps [of len src ptr whole buf]
    let ?esc = "buf ! src = SLIP_ESC" and ?b = "buf ! (src + 1)"
    have go: ?thesis
      if "slip_decode_loop len src ptr whole buf = slip_decode_loop len k (ptr + 1) whole (buf[ptr := x])"
        and "\<exists>buf'. slip_decode_loop len k (ptr + 1) whole (buf[ptr := x]) = (buf', 0, 0) \<and>
          take (ptr + 1) buf' = take (ptr + 1) (buf[ptr := x])" for k x
      using that shorter by auto
    consider "?esc" "src = len - 1" | "?esc" "src \<noteq> len - 1" "?b = SLIP_END_REPLACE"
      | "?esc" "src \<noteq> len - 1" "?b = SLIP_ESC_REPLACE"
      | "?esc" "src \<noteq> len - 1" "?b \<noteq> SLIP_END_REPLACE" "?b \<noteq> SLIP_ESC_REPLACE" | "\<not> ?esc" by blast
    then show ?thesis
    proof cases
      case 1
      then show ?thesis using True eq by simp
    next
      case 2
      show ?thesis
        by (rule go [of "src + 2" SLIP_END]) (use 2 True eq "1.IH"(1) upd "1.prems" in \<open>simp_all add: Let_def\<close>)
    next
      case 3
      show ?thesis
        by (rule go [of "src + 2" SLIP_ESC]) (use 3 True eq "1.IH"(2) upd "1.prems" in \<open>simp_all add: Let_def\<close>)
    next
      case 4
      then show ?thesis using True eq "1.IH"(3) "1.prems" by (simp add: Let_def)
    next
      case 5
      show ?thesis
        by (rule go [of "src + 1" "buf ! src"]) (use 5 src True eq "1.IH"(4) upd "1.prems" in simp_all)
    qed
  qed
qed

lemma slip_decode_not_whole: "snd (snd (slip_decode_loop len src ptr False buf)) = 0"
proof (induction len src ptr False buf rule: slip_decode_loop.induct)
  case (1 len src ptr buf)
  then show ?case by (subst slip_decode_loop.simps) (simp add: Let_def)
qed

section \<open>Properties\<close>

text \<open>
  \<open>lv2_osc_slip_encode_inline\<close> turns the data at the start of a buffer into its SLIP frame,
  in place and on both of its tracks, and returns the length of the frame, exactly when the
  buffer can hold the frame; otherwise it writes beyond the buffer.
\<close>

theorem slip_encode_correct:
  assumes "bs \<noteq> []"
  shows "lv2_osc_slip_encode_inline (bs @ room) (length bs) =
    (if length (slip_frame bs) \<le> length (bs @ room)
     then Some (slip_frame bs @ drop (length (slip_frame bs)) (bs @ room), length (slip_frame bs))
     else None)"
  using assms slip_encode_frame [OF assms, of room]
  by (auto simp: lv2_osc_slip_encode_inline_def slip_size_body Let_def)

theorem slip_encode_correct_witness:
  "lv2_osc_slip_encode_inline ([1, SLIP_END] @ [0, 0, 0]) (length [1, SLIP_END]) =
    (if length (slip_frame [1, SLIP_END]) \<le> length ([1, SLIP_END] @ [0, 0, 0])
     then Some (slip_frame [1, SLIP_END] @ drop (length (slip_frame [1, SLIP_END])) ([1, SLIP_END] @ [0, 0, 0]),
       length (slip_frame [1, SLIP_END]))
     else None)"
  by (rule slip_encode_correct) simp

text \<open>
  C30. SLIP round trip: what the encoder made of some data, with anything after it in the
  buffer, the decoder turns back into that data, consuming exactly the frame and leaving what
  follows the frame where it was.
\<close>

theorem slip_roundtrip:
  assumes "bs \<noteq> []" and "lv2_osc_slip_encode_inline (bs @ room) (length bs) = Some (buf, n)"
    and "n \<le> len"
  shows "\<exists>buf'. lv2_osc_slip_decode_inline buf len = (buf', n, length bs) \<and>
    take (length bs) buf' = bs \<and> drop n buf' = drop n buf \<and> length buf' = length buf"
proof -
  have "length (slip_frame bs) \<le> length (bs @ room)"
    and b: "buf = slip_frame bs @ drop n (bs @ room)" "n = length (slip_frame bs)"
    using assms slip_encode_correct [OF assms(1), of room] by (auto split: if_splits)
  then show ?thesis
    using slip_decode_frame [of bs len "drop n (bs @ room)"] assms(3) by auto
qed

theorem slip_roundtrip_witness:
  "\<exists>buf n buf'. lv2_osc_slip_encode_inline ([1, SLIP_END] @ [0, 0, 0]) (length [1, SLIP_END]) = Some (buf, n) \<and>
    lv2_osc_slip_decode_inline buf 5 = (buf', n, length [1, SLIP_END]) \<and>
    take (length [1, SLIP_END]) buf' = [1, SLIP_END]"
proof -
  obtain buf n where e: "lv2_osc_slip_encode_inline ([1, SLIP_END] @ [0, 0, 0]) (length [1, SLIP_END]) = Some (buf, n)"
    and n: "n \<le> 5"
    by (simp add: lv2_osc_slip_encode_inline_def slip_size_def slip_codes Let_def)
  from slip_roundtrip [OF _ e n] e show ?thesis by fastforce
qed

text \<open>
  A frame that arrives in two reads is lost: the decoder finds no end in the first part,
  but has already moved its bytes over the opening \<open>END\<close>, so whatever arrives behind them, the
  next call, which again starts at the beginning of the buffer, finds no frame.
\<close>

theorem slip_split_frame_lost:
  assumes "x \<noteq> SLIP_END" and "x \<noteq> SLIP_ESC" and "SLIP_END \<notin> set ys"
  shows "case lv2_osc_slip_decode_inline (SLIP_END # x # ys @ room) (2 + length ys) of
    (buf1, n1, size1) \<Rightarrow> n1 = 0 \<and> size1 = 0 \<and>
      (\<forall>buf2 len2. 0 < len2 \<longrightarrow> buf2 ! 0 = buf1 ! 0 \<longrightarrow> snd (snd (lv2_osc_slip_decode_inline buf2 len2)) = 0)"
proof -
  let ?buf = "SLIP_END # x # ys @ room" and ?len = "2 + length ys"
  have noend: "\<forall>j. 1 \<le> j \<longrightarrow> j < ?len \<longrightarrow> ?buf ! j \<noteq> SLIP_END"
  proof (intro allI impI)
    fix j assume "1 \<le> j" "j < ?len"
    then have "?buf ! j \<in> set (x # ys)" by (auto simp: nth_Cons nth_append split: nat.split)
    then show "?buf ! j \<noteq> SLIP_END" using assms by auto
  qed
  have first: "lv2_osc_slip_decode_inline ?buf ?len = slip_decode_loop ?len 2 1 True (x # x # ys @ room)"
    using assms(1,2) slip_decode_loop.simps [of ?len 1 0 True ?buf]
    by (simp add: lv2_osc_slip_decode_inline_def numeral_2_eq_2)
  have "\<forall>j. 2 \<le> j \<longrightarrow> j < ?len \<longrightarrow> (x # x # ys @ room) ! j \<noteq> SLIP_END"
    using noend by (auto simp: nth_Cons split: nat.split)
  from slip_decode_none [OF this, of 1 True] obtain buf1 where
    b: "slip_decode_loop ?len 2 1 True (x # x # ys @ room) = (buf1, 0, 0)" "take 1 buf1 = take 1 (x # x # ys @ room)"
    by auto
  from b(2) have "buf1 ! 0 = x" by (cases buf1) auto
  then have "snd (snd (lv2_osc_slip_decode_inline buf2 len2)) = 0" if "0 < len2" "buf2 ! 0 = buf1 ! 0" for buf2 len2
    using that assms(1) by (simp add: lv2_osc_slip_decode_inline_def slip_decode_not_whole)
  then show ?thesis unfolding first b(1) by simp
qed

theorem slip_split_frame_lost_witness:
  "case lv2_osc_slip_decode_inline (SLIP_END # 47 # [97] @ [0, 0]) (2 + length [97 :: u8]) of
    (buf1, n1, size1) \<Rightarrow> n1 = 0 \<and> size1 = 0 \<and>
      (\<forall>buf2 len2. 0 < len2 \<longrightarrow> buf2 ! 0 = buf1 ! 0 \<longrightarrow> snd (snd (lv2_osc_slip_decode_inline buf2 len2)) = 0)"
  by (rule slip_split_frame_lost) (simp_all add: slip_codes)

end
