(* ===== verification/Netatom.thy ===== *)
theory Netatom
  imports Atom Runs
begin

text \<open>
  \<open>netatom.lv2/netatom.lv2/netatom.h\<close>: an atom is made ready for the network in its own buffer,
  in place. Its URIDs, which only its host understands, become references into a dictionary of
  URIs that is built behind it, and its numbers get network byte order. The receiver goes the
  other way. A buffer is the list of its bytes, pointers are positions in it; atoms lie in it as
  the LV2 specification lays them out, and the macros that iterate over them are written out.
\<close>

section \<open>The code's state\<close>

text \<open>
  Loops and recursion follow sizes found in the buffer, so they run on fuel. \<open>Undefined\<close> is an
  access outside the buffer.
\<close>

text \<open>The atom types the code knows. \<open>n_type\<close> has their URIDs, \<open>n_uri\<close> their URIs.\<close>

datatype known = KBool | KInt | KFloat | KLong | KDouble | KURID | KString | KChunk | KMidi | KLiteral
  | KObject | KTuple | KSequence | KVector | KPath | KURI

record netatom =
  n_swap :: bool
  n_map :: "u8 list \<Rightarrow> u32"
  n_unmap :: "u32 \<Rightarrow> u8 list option"
  n_type :: "known \<Rightarrow> u32"
  n_uri :: "known \<Rightarrow> u8 list"

record nstate =
  nbuf :: "u8 list"
  ndict :: nat
  ncur :: nat
  nend :: nat
  nover :: bool

text \<open>The chains of \<open>if(atom->type == forge->...)\<close> in the two directions.\<close>

definition ser_kind :: "netatom \<Rightarrow> u32 \<Rightarrow> known option" where
  "ser_kind e t = List.find (\<lambda>k. t = n_type e k) [KBool, KInt, KFloat, KLong, KDouble, KURID, KString, KChunk, KMidi,
     KLiteral, KObject, KTuple, KSequence, KVector, KPath, KURI]"

definition deser_kind :: "netatom \<Rightarrow> u32 \<Rightarrow> known option" where
  "deser_kind e t = List.find (\<lambda>k. t = n_type e k) [KBool, KInt, KFloat, KLong, KDouble, KURID, KLiteral, KObject,
     KTuple, KSequence, KVector]"

section \<open>Access to the buffer\<close>

definition rd32 :: "nat \<Rightarrow> nstate \<Rightarrow> u32 run" where
  "rd32 p s = (if p + 4 \<le> length (nbuf s) then Done (de32 (rev (part (nbuf s) p 4))) else Undefined)"

definition rd64 :: "nat \<Rightarrow> nstate \<Rightarrow> u64 run" where
  "rd64 p s = (if p + 8 \<le> length (nbuf s) then Done (de64 (rev (part (nbuf s) p 8))) else Undefined)"

definition wr :: "nat \<Rightarrow> u8 list \<Rightarrow> nstate \<Rightarrow> nstate run" where
  "wr p bs s = (if p + length bs \<le> length (nbuf s) then Done (s\<lparr>nbuf := overwrite p bs (nbuf s)\<rparr>) else Undefined)"

text \<open>\<open>if(netatom->swap) *u = htobe32(*u);\<close> and its likes\<close>

definition ser32 :: "netatom \<Rightarrow> nat \<Rightarrow> nstate \<Rightarrow> nstate run" where
  "ser32 e p s = (if n_swap e then run_bind (rd32 p s) (\<lambda>v. wr p (le32 (htobe32 v)) s) else Done s)"

definition ser64 :: "netatom \<Rightarrow> nat \<Rightarrow> nstate \<Rightarrow> nstate run" where
  "ser64 e p s = (if n_swap e then run_bind (rd64 p s) (\<lambda>v. wr p (le64 (htobe64 v)) s) else Done s)"

definition deser32 :: "netatom \<Rightarrow> nat \<Rightarrow> nstate \<Rightarrow> nstate run" where
  "deser32 e p s = (if n_swap e then run_bind (rd32 p s) (\<lambda>v. wr p (le32 (be32toh v)) s) else Done s)"

definition deser64 :: "netatom \<Rightarrow> nat \<Rightarrow> nstate \<Rightarrow> nstate run" where
  "deser64 e p s = (if n_swap e then run_bind (rd64 p s) (\<lambda>v. wr p (le64 (be64toh v)) s) else Done s)"

text \<open>\<open>lv2_atom_pad_size\<close> and \<open>lv2_atom_pad_size(lv2_atom_total_size(atom))\<close>, on 32 bits\<close>

definition pad_size :: "u32 \<Rightarrow> u32" where
  "pad_size n = (n + 7) AND NOT 7"

definition total_pad :: "u32 \<Rightarrow> u32" where
  "total_pad n = pad_size (8 + n)"

definition strncpy :: "u8 list \<Rightarrow> nat \<Rightarrow> u8 list" where
  "strncpy u n = take n (u @ replicate (n - length u) 0)"

definition str_at :: "nat \<Rightarrow> nstate \<Rightarrow> u8 list run" where
  "str_at p s = (if 0 \<in> set (drop p (nbuf s)) then Done (takeWhile (\<lambda>b. b \<noteq> 0) (drop p (nbuf s))) else Undefined)"

section \<open>The dictionary\<close>

fun dict_find :: "nat \<Rightarrow> nat \<Rightarrow> u32 \<Rightarrow> nstate \<Rightarrow> nat option run" where
  "dict_find 0 ptr urid s = Endless"
| "dict_find (Suc k) ptr urid s =
     (if ncur s \<le> ptr then Done None
      else run_bind (rd32 (ptr + 4) s) (\<lambda>t.
        if t = urid then Done (Some ptr)
        else run_bind (rd32 ptr s) (\<lambda>n. dict_find k (ptr + unat (total_pad n)) urid s)))"

text \<open>
  A new entry. \<open>strncpy\<close> gets the size of the whole entry, although it starts eight bytes into
  it, behind the entry's header.
\<close>

definition dict_add :: "nat \<Rightarrow> u32 \<Rightarrow> u8 list \<Rightarrow> nstate \<Rightarrow> nstate run" where
  "dict_add p urid u s =
     (let size = of_nat (length u + 1) :: u32; tot = 8 + pad_size size; ref = of_nat (ncur s - ndict s + 1) in
      if ncur s + unat tot \<le> nend s
      then run_bind (wr (ncur s) (le32 size) s) (\<lambda>s.
           run_bind (wr (ncur s + 4) (le32 urid) s) (\<lambda>s.
           run_bind (wr (ncur s + 8) (strncpy u (unat tot)) s) (\<lambda>s.
           run_bind (wr p (le32 ref) s) (\<lambda>s. Done (s\<lparr>ncur := ncur s + unat tot\<rparr>)))))
      else run_bind (wr p (le32 0) s) (\<lambda>s. Done (s\<lparr>nover := True\<rparr>)))"

definition ser_uri :: "nat \<Rightarrow> netatom \<Rightarrow> nat \<Rightarrow> u8 list option \<Rightarrow> nstate \<Rightarrow> nstate run" where
  "ser_uri k e p uri s =
     run_bind (rd32 p s) (\<lambda>urid.
       if urid = 0 then Done s
       else run_bind (dict_find k (ndict s) urid s) (\<lambda>found.
         run_bind
           (case found of
              Some ptr \<Rightarrow> wr p (le32 (of_nat (ptr - ndict s + 1))) s
            | None \<Rightarrow>
                (case (case uri of Some u \<Rightarrow> Some u | None \<Rightarrow> n_unmap e urid) of
                   None \<Rightarrow> wr p (le32 0) s
                 | Some u \<Rightarrow> dict_add p urid u s))
           (ser32 e p)))"

text \<open>The size of an entry gets its network order when the next entry has been reached by it.\<close>

fun ser_dict :: "nat \<Rightarrow> netatom \<Rightarrow> nat \<Rightarrow> nat option \<Rightarrow> nstate \<Rightarrow> nstate run" where
  "ser_dict 0 e ptr body s = Endless"
| "ser_dict (Suc k) e ptr body s =
     run_bind (case body of Some b \<Rightarrow> ser32 e b s | None \<Rightarrow> Done s) (\<lambda>s.
       if ncur s \<le> ptr then Done s
       else run_bind (wr (ptr + 4) (le32 0) s) (\<lambda>s.
            run_bind (rd32 ptr s) (\<lambda>n. ser_dict k e (ptr + unat (total_pad n)) (Some ptr) s)))"

definition deser_uri :: "netatom \<Rightarrow> nat \<Rightarrow> nstate \<Rightarrow> nstate run" where
  "deser_uri e p s =
     run_bind (rd32 p s) (\<lambda>v.
       if v = 0 then Done s
       else (let ref = (if n_swap e then be32toh v else v) in
         run_bind (rd32 (ndict s + unat (ref - 1) + 4) s) (\<lambda>t. wr p (le32 t) s)))"

fun deser_dict :: "nat \<Rightarrow> netatom \<Rightarrow> nat \<Rightarrow> nstate \<Rightarrow> nstate run" where
  "deser_dict 0 e ptr s = Endless"
| "deser_dict (Suc k) e ptr s =
     (if ncur s \<le> ptr then Done s
      else run_bind (deser32 e ptr s) (\<lambda>s.
           run_bind (str_at (ptr + 8) s) (\<lambda>u.
           run_bind (wr (ptr + 4) (le32 (n_map e u)) s) (\<lambda>s.
           run_bind (rd32 ptr s) (\<lambda>n. deser_dict k e (ptr + unat (total_pad n)) s)))))"

section \<open>Atoms\<close>

text \<open>
  Containers: an item of an object or a sequence has eight bytes before its atom, key and
  context of a property or the time of an event. In a vector the elements are swapped.
\<close>

datatype container = CTuple | CObject | CSequence

definition item_off :: "container \<Rightarrow> nat" where
  "item_off c = (case c of CTuple \<Rightarrow> 0 | _ \<Rightarrow> 8)"

definition ser_head :: "nat \<Rightarrow> netatom \<Rightarrow> container \<Rightarrow> nat \<Rightarrow> nstate \<Rightarrow> nstate run" where
  "ser_head k e c i s =
     (case c of
        CTuple \<Rightarrow> Done s
      | CObject \<Rightarrow> run_bind (ser_uri k e i None s) (ser_uri k e (i + 4) None)
      | CSequence \<Rightarrow> ser64 e i s)"

fun each32 :: "(nat \<Rightarrow> nstate \<Rightarrow> nstate run) \<Rightarrow> nat \<Rightarrow> nat \<Rightarrow> nat \<Rightarrow> nstate \<Rightarrow> nstate run" where
  "each32 f w p 0 s = Done s"
| "each32 f w p (Suc n) s = run_bind (f p s) (each32 f w (p + w) n)"

text \<open>\<open>(vec->atom.size - sizeof(LV2_Atom_Vector_Body)) / w\<close>, an \<open>unsigned\<close> of a \<open>size_t\<close>\<close>

definition vector_elems :: "u32 \<Rightarrow> u64 \<Rightarrow> nat" where
  "vector_elems n w = unat (ucast ((ucast n - 8 :: u64) div w) :: u32)"

definition ser_vector :: "nat \<Rightarrow> netatom \<Rightarrow> nat \<Rightarrow> u32 \<Rightarrow> nstate \<Rightarrow> nstate run" where
  "ser_vector k e p n s =
     run_bind
       (if n_swap e
        then run_bind (rd32 (p + 8) s) (\<lambda>c.
             run_bind (if c = 4 then each32 (ser32 e) 4 (p + 16) (vector_elems n 4) s
                else if c = 8 then each32 (ser64 e) 8 (p + 16) (vector_elems n 8) s
                else Done s)
               (ser32 e (p + 8)))
        else Done s)
       (ser_uri k e (p + 12) None)"

text \<open>
  \<open>prev\<close> is the pointer \<open>body\<close> of the loops: an atom is made ready when the next item has been
  reached by its size, for its own size is swapped with it.
\<close>

fun ser_atom :: "nat \<Rightarrow> netatom \<Rightarrow> nat \<Rightarrow> nstate \<Rightarrow> nstate run"
  and ser_items :: "nat \<Rightarrow> netatom \<Rightarrow> container \<Rightarrow> nat \<Rightarrow> nat \<Rightarrow> nat option \<Rightarrow> nstate \<Rightarrow> nstate run" where
  "ser_atom 0 e p s = Endless"
| "ser_atom (Suc k) e p s =
     run_bind (rd32 (p + 4) s) (\<lambda>t. run_bind (rd32 p s) (\<lambda>n.
       run_bind
         (case ser_kind e t of
            Some KBool \<Rightarrow> ser32 e (p + 8) s
          | Some KInt \<Rightarrow> ser32 e (p + 8) s
          | Some KFloat \<Rightarrow> ser32 e (p + 8) s
          | Some KLong \<Rightarrow> ser64 e (p + 8) s
          | Some KDouble \<Rightarrow> ser64 e (p + 8) s
          | Some KURID \<Rightarrow> ser_uri k e (p + 8) None s
          | Some KLiteral \<Rightarrow> run_bind (ser_uri k e (p + 8) None s) (ser_uri k e (p + 12) None)
          | Some KObject \<Rightarrow> run_bind (ser_items k e CObject (p + 16) (p + 8 + unat n) None s) (\<lambda>s.
              run_bind (ser_uri k e (p + 8) None s) (ser_uri k e (p + 12) None))
          | Some KTuple \<Rightarrow> ser_items k e CTuple (p + 8) (p + 8 + unat n) None s
          | Some KSequence \<Rightarrow> run_bind (ser_items k e CSequence (p + 16) (p + 8 + unat n) None s) (\<lambda>s.
              run_bind (ser_uri k e (p + 8) None s) (ser32 e (p + 12)))
          | Some KVector \<Rightarrow> ser_vector k e p n s
          | _ \<Rightarrow> Done s)
         (\<lambda>s. run_bind (ser32 e p s) (ser_uri k e (p + 4) (map_option (n_uri e) (ser_kind e t))))))"
| "ser_items 0 e c i stop prev s = Endless"
| "ser_items (Suc k) e c i stop prev s =
     run_bind (case prev of Some b \<Rightarrow> ser_atom k e b s | None \<Rightarrow> Done s) (\<lambda>s.
       if stop \<le> i then Done s
       else run_bind (ser_head k e c i s) (\<lambda>s.
            run_bind (rd32 (i + item_off c) s) (\<lambda>n.
              ser_items k e c (i + item_off c + 8 + unat (pad_size n)) stop (Some (i + item_off c)) s)))"

definition deser_vector :: "netatom \<Rightarrow> nat \<Rightarrow> u32 \<Rightarrow> nstate \<Rightarrow> nstate run" where
  "deser_vector e p n s =
     run_bind (deser_uri e (p + 12) s) (\<lambda>s.
       if n_swap e
       then run_bind (deser32 e (p + 8) s) (\<lambda>s. run_bind (rd32 (p + 8) s) (\<lambda>c.
            if c = 4 then each32 (deser32 e) 4 (p + 16) (vector_elems n 4) s
            else if c = 8 then each32 (deser64 e) 8 (p + 16) (vector_elems n 8) s
            else Done s))
       else Done s)"

text \<open>Here an item is made ready before the next one is reached; the time of an event comes after its atom.\<close>

fun deser_atom :: "nat \<Rightarrow> netatom \<Rightarrow> nat \<Rightarrow> nstate \<Rightarrow> nstate run"
  and deser_items :: "nat \<Rightarrow> netatom \<Rightarrow> container \<Rightarrow> nat \<Rightarrow> nat \<Rightarrow> nstate \<Rightarrow> nstate run" where
  "deser_atom 0 e p s = Endless"
| "deser_atom (Suc k) e p s =
     run_bind (deser32 e p s) (\<lambda>s. run_bind (deser_uri e (p + 4) s) (\<lambda>s.
     run_bind (rd32 (p + 4) s) (\<lambda>t. run_bind (rd32 p s) (\<lambda>n.
       case deser_kind e t of
         Some KBool \<Rightarrow> deser32 e (p + 8) s
       | Some KInt \<Rightarrow> deser32 e (p + 8) s
       | Some KFloat \<Rightarrow> deser32 e (p + 8) s
       | Some KLong \<Rightarrow> deser64 e (p + 8) s
       | Some KDouble \<Rightarrow> deser64 e (p + 8) s
       | Some KURID \<Rightarrow> deser_uri e (p + 8) s
       | Some KLiteral \<Rightarrow> run_bind (deser_uri e (p + 8) s) (deser_uri e (p + 12))
       | Some KObject \<Rightarrow> run_bind (deser_uri e (p + 8) s) (\<lambda>s. run_bind (deser_uri e (p + 12) s)
           (deser_items k e CObject (p + 16) (p + 8 + unat n)))
       | Some KTuple \<Rightarrow> deser_items k e CTuple (p + 8) (p + 8 + unat n) s
       | Some KSequence \<Rightarrow> run_bind (deser_uri e (p + 8) s) (\<lambda>s. run_bind (deser32 e (p + 12) s)
           (deser_items k e CSequence (p + 16) (p + 8 + unat n)))
       | Some KVector \<Rightarrow> deser_vector e p n s
       | _ \<Rightarrow> Done s))))"
| "deser_items 0 e c i stop s = Endless"
| "deser_items (Suc k) e c i stop s =
     (if stop \<le> i then Done s
      else run_bind (case c of CObject \<Rightarrow> run_bind (deser_uri e i s) (deser_uri e (i + 4)) | _ \<Rightarrow> Done s) (\<lambda>s.
           run_bind (deser_atom k e (i + item_off c) s) (\<lambda>s.
           run_bind (case c of CSequence \<Rightarrow> deser64 e i s | _ \<Rightarrow> Done s) (\<lambda>s.
           run_bind (rd32 (i + item_off c) s) (\<lambda>n.
             deser_items k e c (i + item_off c + 8 + unat (pad_size n)) stop s)))))"

section \<open>The interface\<close>

text \<open>
  The atom lies at the start of the buffer; the result is the buffer and the size to send, or \<open>None\<close> for
  \<open>NULL\<close>, when the dictionary did not fit.
\<close>

definition netatom_serialize :: "nat \<Rightarrow> netatom \<Rightarrow> u8 list \<Rightarrow> nat \<Rightarrow> (u8 list \<times> nat option) run" where
  "netatom_serialize k e buf size_rx =
     run_bind (rd32 0 \<lparr>nbuf = buf, ndict = 0, ncur = 0, nend = 0, nover = False\<rparr>) (\<lambda>n.
       let tot = unat (total_pad n) in
       run_bind (ser_atom k e 0 \<lparr>nbuf = buf, ndict = tot, ncur = tot, nend = size_rx, nover = False\<rparr>) (\<lambda>s.
       run_bind (ser_dict k e tot None s) (\<lambda>s.
         Done (nbuf s, if nover s then None else Some (tot + (ncur s - ndict s))))))"

definition netatom_deserialize :: "nat \<Rightarrow> netatom \<Rightarrow> u8 list \<Rightarrow> nat \<Rightarrow> u8 list run" where
  "netatom_deserialize k e buf size_tx =
     run_bind (rd32 0 \<lparr>nbuf = buf, ndict = 0, ncur = 0, nend = 0, nover = False\<rparr>) (\<lambda>v.
       let tot = total_pad (if n_swap e then be32toh v else v);
           dict_size = of_nat size_tx - tot;
           s = \<lparr>nbuf = buf, ndict = unat tot, ncur = unat tot + unat dict_size, nend = size_tx, nover = False\<rparr> in
       run_bind (deser_dict k e (unat tot) s) (\<lambda>s.
       run_bind (deser_atom k e 0 s) (\<lambda>s. Done (nbuf s))))"

definition netatom_new :: "(u8 list \<Rightarrow> u32) \<Rightarrow> (u32 \<Rightarrow> u8 list option) \<Rightarrow> (known \<Rightarrow> u8 list) \<Rightarrow> bool \<Rightarrow> netatom" where
  "netatom_new umap unmap uri swap =
     \<lparr>n_swap = swap, n_map = umap, n_unmap = unmap, n_type = (\<lambda>k. umap (uri k)), n_uri = uri\<rparr>"

end
