(* ===== verification/Netatom_Layout.thy ===== *)
theory Netatom_Layout
  imports Netatom
begin

text \<open>
  What lies in the buffers of \<open>netatom.h\<close>. An atom is a tree (\<open>natom\<close>); \<open>lay sw r\<close> are its
  bytes when its URIDs are replaced by \<open>r\<close> and \<open>sw\<close> tells whether its numbers have network byte
  order: \<open>lay False id\<close> for a host, \<open>lay sw (dref F)\<close> on the wire, with the dictionary \<open>F\<close>. The
  locale \<open>view\<close> is what the operations rely on in a buffer whose beginning is known.
\<close>

section \<open>A buffer whose beginning is known\<close>

locale view =
  fixes H :: "u8 list \<Rightarrow> nstate \<Rightarrow> bool"
  assumes H_take: "H B s \<Longrightarrow> length B \<le> length (nbuf s) \<and> take (length B) (nbuf s) = B"
    and H_wr: "H (X @ ys @ Z) s \<Longrightarrow> length bs = length ys \<Longrightarrow>
      H (X @ bs @ Z) (s\<lparr>nbuf := overwrite (length X) bs (nbuf s)\<rparr>)"
begin

lemma part_at: "H (X @ ys @ Z) s \<Longrightarrow> part (nbuf s) (length X) (length ys) = ys"
proof -
  assume "H (X @ ys @ Z) s"
  from H_take [OF this] have "nbuf s = (X @ ys @ Z) @ drop (length (X @ ys @ Z)) (nbuf s)"
    by (metis append_take_drop_id)
  then show ?thesis by (metis append.assoc append_eq_conv_conj part_def)
qed

lemma rd32_at: "H (X @ le32 v @ Z) s \<Longrightarrow> p = length X \<Longrightarrow> rd32 p s = Done v"
  using part_at [of X "le32 v" Z s] H_take [of "X @ le32 v @ Z" s] by (simp add: rd32_def le32_def)

lemma rd64_at: "H (X @ le64 v @ Z) s \<Longrightarrow> p = length X \<Longrightarrow> rd64 p s = Done v"
  using part_at [of X "le64 v" Z s] H_take [of "X @ le64 v @ Z" s] by (simp add: rd64_def le64_def)

lemma wr_at: "H (X @ ys @ Z) s \<Longrightarrow> p = length X \<Longrightarrow> length bs = length ys \<Longrightarrow> run_ok (wr p bs s) (H (X @ bs @ Z))"
  using H_take [of "X @ ys @ Z" s] H_wr [of X ys Z s bs] by (simp add: wr_def)

end

section \<open>Words in either byte order\<close>

definition w4 :: "bool \<Rightarrow> u32 \<Rightarrow> u8 list" where
  "w4 sw v = (if sw then be32 v else le32 v)"

definition w8 :: "bool \<Rightarrow> u64 \<Rightarrow> u8 list" where
  "w8 sw v = (if sw then be64 v else le64 v)"

lemma w4_length [simp]: "length (w4 sw v) = 4"
  by (simp add: w4_def)

lemma w8_length [simp]: "length (w8 sw v) = 8"
  by (simp add: w8_def)

lemma w4_False [simp]: "w4 False v = le32 v"
  by (simp add: w4_def)

lemma w8_False [simp]: "w8 False v = le64 v"
  by (simp add: w8_def)

lemma le32_htobe32 [simp]: "le32 (htobe32 v) = be32 v" "le32 (be32toh v) = be32 v"
  by (simp_all add: le32_def htobe32_def be32toh_def)

lemma le64_htobe64 [simp]: "le64 (htobe64 v) = be64 v" "le64 (be64toh v) = be64 v"
  by (simp_all add: le64_def htobe64_def be64toh_def)

lemma be32_as_le32: "be32 v = le32 (htobe32 v)"
  by simp

lemma be64_as_le64: "be64 v = le64 (htobe64 v)"
  by simp

lemma be32_be32toh [simp]: "be32 (be32toh v) = le32 v" "be32 (htobe32 v) = le32 v"
  by (simp_all add: be32toh_def htobe32_def le32_def)

lemma be64_be64toh [simp]: "be64 (be64toh v) = le64 v" "be64 (htobe64 v) = le64 v"
  by (simp_all add: be64toh_def htobe64_def le64_def)

lemma w4_zero [simp]: "w4 sw 0 = [0, 0, 0, 0]"
  by (cases sw) (simp_all add: w4_def le32_def be32_def)

context view
begin

lemma ser32_at: "H (X @ le32 v @ Z) s \<Longrightarrow> p = length X \<Longrightarrow> run_ok (ser32 e p s) (H (X @ w4 (n_swap e) v @ Z))"
  using wr_at [of X "le32 v" Z s p "be32 v"] by (auto simp: ser32_def rd32_at w4_def)

lemma ser64_at: "H (X @ le64 v @ Z) s \<Longrightarrow> p = length X \<Longrightarrow> run_ok (ser64 e p s) (H (X @ w8 (n_swap e) v @ Z))"
  using wr_at [of X "le64 v" Z s p "be64 v"] by (auto simp: ser64_def rd64_at w8_def)

lemma deser32_at: "H (X @ w4 (n_swap e) v @ Z) s \<Longrightarrow> p = length X \<Longrightarrow> run_ok (deser32 e p s) (H (X @ le32 v @ Z))"
  using wr_at [of X "be32 v" Z s p "le32 v"] rd32_at [of X "htobe32 v" Z s p] by (auto simp: deser32_def w4_def)

lemma deser64_at: "H (X @ w8 (n_swap e) v @ Z) s \<Longrightarrow> p = length X \<Longrightarrow> run_ok (deser64 e p s) (H (X @ le64 v @ Z))"
  using wr_at [of X "be64 v" Z s p "le64 v"] rd64_at [of X "htobe64 v" Z s p] by (auto simp: deser64_def w8_def)

text \<open>A loop over consecutive words of one width.\<close>

lemma each32_at:
  assumes step: "\<And>X v Z s. H (X @ f v @ Z) s \<Longrightarrow> run_ok (op (length X) s) (H (X @ g v @ Z))"
    and len: "\<And>v. length (f v) = w" "\<And>v. length (g v) = w"
  shows "H (X @ concat (map f vs) @ Z) s \<Longrightarrow> p = length X \<Longrightarrow> n = length vs \<Longrightarrow>
    run_ok (each32 op w p n s) (H (X @ concat (map g vs) @ Z))"
proof (induction vs arbitrary: X s p n)
  case Nil
  then show ?case by simp
next
  case (Cons v vs)
  from Cons.prems(1) have "run_ok (op (length X) s) (H (X @ g v @ concat (map f vs) @ Z))"
    using step [of X v "concat (map f vs) @ Z" s] by simp
  then show ?case
    using Cons.prems(2,3) Cons.IH [of "X @ g v"] by (auto intro!: run_ok_bind simp: len)
qed

end

section \<open>Atoms as trees\<close>

text \<open>
  \<open>NWord\<close> and \<open>NDword\<close> are numbers, \<open>NRef\<close> a URID, \<open>NVec4\<close> and \<open>NVec8\<close> vectors with elements of
  4 and 8 bytes and \<open>NVecs\<close> those with elements of another size, \<open>NBytes\<close> a body that travels as
  it is. The two words of \<open>NItems\<close> are the identifier and type of an object, the unit and padding
  of a sequence; a tuple has none.
\<close>

datatype ihead = HNone | HProp u32 u32 | HTime u64

datatype natom = NAtom u32 nbody
  and nbody = NWord u32 | NDword u64 | NRef u32 | NLit u32 u32 "u8 list"
    | NItems container u32 u32 "nitem list" | NVec4 u32 "u32 list" | NVec8 u32 "u64 list"
    | NVecs u32 u32 "u8 list" | NBytes "u8 list"
  and nitem = NItem ihead natom

definition up8 :: "nat \<Rightarrow> nat" where
  "up8 n = (n + 7) div 8 * 8"

definition hsize :: "ihead \<Rightarrow> nat" where
  "hsize h = (case h of HNone \<Rightarrow> 0 | _ \<Rightarrow> 8)"

definition psize :: "container \<Rightarrow> nat" where
  "psize c = (case c of CTuple \<Rightarrow> 0 | _ \<Rightarrow> 8)"

primrec nsize :: "natom \<Rightarrow> nat" and bsize :: "nbody \<Rightarrow> nat" and isize :: "nitem \<Rightarrow> nat" where
  "nsize (NAtom t b) = 8 + bsize b"
| "bsize (NWord v) = 4"
| "bsize (NDword v) = 8"
| "bsize (NRef u) = 4"
| "bsize (NLit d l bs) = 8 + length bs"
| "bsize (NItems c i o2 its) = psize c + sum_list (map isize its)"
| "bsize (NVec4 ct vs) = 8 + 4 * length vs"
| "bsize (NVec8 ct vs) = 8 + 8 * length vs"
| "bsize (NVecs c ct bs) = 8 + length bs"
| "bsize (NBytes bs) = length bs"
| "isize (NItem h a) = hsize h + up8 (nsize a)"

definition hlay :: "bool \<Rightarrow> (u32 \<Rightarrow> u32) \<Rightarrow> ihead \<Rightarrow> u8 list" where
  "hlay sw r h = (case h of HNone \<Rightarrow> [] | HProp k x \<Rightarrow> w4 sw (r k) @ w4 sw (r x) | HTime t \<Rightarrow> w8 sw t)"

definition play :: "bool \<Rightarrow> (u32 \<Rightarrow> u32) \<Rightarrow> container \<Rightarrow> u32 \<Rightarrow> u32 \<Rightarrow> u8 list" where
  "play sw r c i o2 = (case c of CTuple \<Rightarrow> [] | CObject \<Rightarrow> w4 sw (r i) @ w4 sw (r o2) | CSequence \<Rightarrow> w4 sw (r i) @ w4 sw o2)"

primrec lay :: "bool \<Rightarrow> (u32 \<Rightarrow> u32) \<Rightarrow> natom \<Rightarrow> u8 list"
  and blay :: "bool \<Rightarrow> (u32 \<Rightarrow> u32) \<Rightarrow> nbody \<Rightarrow> u8 list"
  and ilay :: "bool \<Rightarrow> (u32 \<Rightarrow> u32) \<Rightarrow> nitem \<Rightarrow> u8 list" where
  "lay sw r (NAtom t b) = w4 sw (of_nat (bsize b)) @ w4 sw (r t) @ blay sw r b"
| "blay sw r (NWord v) = w4 sw v"
| "blay sw r (NDword v) = w8 sw v"
| "blay sw r (NRef u) = w4 sw (r u)"
| "blay sw r (NLit d l bs) = w4 sw (r d) @ w4 sw (r l) @ bs"
| "blay sw r (NItems c i o2 its) = play sw r c i o2 @ concat (map (ilay sw r) its)"
| "blay sw r (NVec4 ct vs) = w4 sw 4 @ w4 sw (r ct) @ concat (map (w4 sw) vs)"
| "blay sw r (NVec8 ct vs) = w4 sw 8 @ w4 sw (r ct) @ concat (map (w8 sw) vs)"
| "blay sw r (NVecs c ct bs) = w4 sw c @ w4 sw (r ct) @ bs"
| "blay sw r (NBytes bs) = bs"
| "ilay sw r (NItem h a) = hlay sw r h @ pad_to8 (lay sw r a)"

lemma hlay_length [simp]: "length (hlay sw r h) = hsize h"
  by (cases h) (simp_all add: hlay_def hsize_def)

lemma play_length [simp]: "length (play sw r c i o2) = psize c"
  by (cases c) (simp_all add: play_def psize_def)

lemma length_concat_const: "(\<And>v. length (f v) = w) \<Longrightarrow> length (concat (map f vs)) = w * length vs"
  by (induction vs) simp_all

lemma lay_length [simp]:
  "length (lay sw r a) = nsize a" "length (blay sw r b) = bsize b" "length (ilay sw r i) = isize i"
proof (induction a and b and i)
  case (NItems c i o2 its)
  then have "(\<Sum>x\<leftarrow>its. length (ilay sw r x)) = sum_list (map isize its)"
    by (intro arg_cong [where f = sum_list]) simp
  then show ?case by (simp add: length_concat comp_def)
qed (simp_all add: up8_def length_concat_const)

lemma ilays_length [simp]: "length (concat (map (ilay sw r) its)) = sum_list (map isize its)"
  by (simp add: length_concat comp_def)

text \<open>The URIDs of an atom, in the order the code comes across them\<close>

definition huses :: "ihead \<Rightarrow> u32 list" where
  "huses h = (case h of HProp k x \<Rightarrow> [k, x] | _ \<Rightarrow> [])"

definition puses :: "container \<Rightarrow> u32 \<Rightarrow> u32 \<Rightarrow> u32 list" where
  "puses c i o2 = (case c of CTuple \<Rightarrow> [] | CObject \<Rightarrow> [i, o2] | CSequence \<Rightarrow> [i])"

primrec uses :: "natom \<Rightarrow> u32 list" and buses :: "nbody \<Rightarrow> u32 list" and iuses :: "nitem \<Rightarrow> u32 list" where
  "uses (NAtom t b) = buses b @ [t]"
| "buses (NWord v) = []"
| "buses (NDword v) = []"
| "buses (NRef u) = [u]"
| "buses (NLit d l bs) = [d, l]"
| "buses (NItems c i o2 its) = concat (map iuses its) @ puses c i o2"
| "buses (NVec4 ct vs) = [ct]"
| "buses (NVec8 ct vs) = [ct]"
| "buses (NVecs c ct bs) = [ct]"
| "buses (NBytes bs) = []"
| "iuses (NItem h a) = huses h @ uses a"

text \<open>Bodies that fit the types of their atoms; \<open>kd\<close> is what a host knows of the types.\<close>

definition head_fits :: "container \<Rightarrow> ihead \<Rightarrow> bool" where
  "head_fits c h = (case h of HNone \<Rightarrow> c = CTuple | HProp k x \<Rightarrow> c = CObject | HTime t \<Rightarrow> c = CSequence)"

definition body_fits :: "known option \<Rightarrow> nbody \<Rightarrow> bool" where
  "body_fits k b = (case b of
      NWord v \<Rightarrow> k \<in> {Some KBool, Some KInt, Some KFloat}
    | NDword v \<Rightarrow> k \<in> {Some KLong, Some KDouble}
    | NRef u \<Rightarrow> k = Some KURID
    | NLit d l bs \<Rightarrow> k = Some KLiteral
    | NItems c i o2 its \<Rightarrow> k = Some (case c of CTuple \<Rightarrow> KTuple | CObject \<Rightarrow> KObject | CSequence \<Rightarrow> KSequence)
    | NVec4 ct vs \<Rightarrow> k = Some KVector
    | NVec8 ct vs \<Rightarrow> k = Some KVector
    | NVecs c ct bs \<Rightarrow> k = Some KVector \<and> c \<noteq> 4 \<and> c \<noteq> 8
    | NBytes bs \<Rightarrow> k \<in> {None, Some KString, Some KChunk, Some KMidi, Some KPath, Some KURI})"

primrec item_head :: "nitem \<Rightarrow> ihead" where
  "item_head (NItem h a) = h"

primrec nwf :: "(u32 \<Rightarrow> known option) \<Rightarrow> natom \<Rightarrow> bool" and bwf :: "(u32 \<Rightarrow> known option) \<Rightarrow> nbody \<Rightarrow> bool" and iwf :: "(u32 \<Rightarrow> known option) \<Rightarrow> nitem \<Rightarrow> bool" where
  "nwf kd (NAtom t b) \<longleftrightarrow> body_fits (kd t) b \<and> bwf kd b"
| "bwf kd (NWord v) \<longleftrightarrow> True"
| "bwf kd (NDword v) \<longleftrightarrow> True"
| "bwf kd (NRef u) \<longleftrightarrow> True"
| "bwf kd (NLit d l bs) \<longleftrightarrow> True"
| "bwf kd (NItems c i o2 its) \<longleftrightarrow> list_all (\<lambda>i. head_fits c (item_head i)) its \<and> list_all (iwf kd) its"
| "bwf kd (NVec4 ct vs) \<longleftrightarrow> True"
| "bwf kd (NVec8 ct vs) \<longleftrightarrow> True"
| "bwf kd (NVecs c ct bs) \<longleftrightarrow> True"
| "bwf kd (NBytes bs) \<longleftrightarrow> True"
| "iwf kd (NItem h a) \<longleftrightarrow> nwf kd a"

text \<open>A bound for the fuel\<close>

primrec ncost :: "natom \<Rightarrow> nat" and bcost :: "nbody \<Rightarrow> nat" and icost :: "nitem \<Rightarrow> nat" where
  "ncost (NAtom t b) = Suc (bcost b)"
| "bcost (NWord v) = 0"
| "bcost (NDword v) = 0"
| "bcost (NRef u) = 0"
| "bcost (NLit d l bs) = 0"
| "bcost (NItems c i o2 its) = Suc (sum_list (map icost its))"
| "bcost (NVec4 ct vs) = 0"
| "bcost (NVec8 ct vs) = 0"
| "bcost (NVecs c ct bs) = 0"
| "bcost (NBytes bs) = 0"
| "icost (NItem h a) = Suc (ncost a)"

lemma up8_ge: "n \<le> up8 n"
  unfolding up8_def by presburger

lemma ncost_le: "ncost a + 6 \<le> nsize a" "bcost b \<le> Suc (bsize b)" "icost i + 5 \<le> isize i"
proof (induction a and b and i)
  case (NItems c i o2 its)
  then have "sum_list (map icost its) \<le> sum_list (map isize its)"
    by (intro sum_list_mono) (meson add_leD1)
  then show ?case by simp
next
  case (NItem h a)
  then show ?case using up8_ge [of "nsize a"] by simp
qed simp_all

lemma up8_add8: "up8 (8 + n) = 8 + up8 n"
  unfolding up8_def by presburger

lemma pad_lay: "pad_to8 (lay sw r a) = lay sw r a @ replicate (up8 (nsize a) - nsize a) 0"
  by (simp add: pad_to8_def up8_def)

lemma length_pad_lay [simp]: "length (pad_to8 (lay sw r a)) = up8 (nsize a)"
  by (simp add: up8_def)

lemma isize_pos: "0 < isize i"
  using ncost_le(3) [of i] by simp

lemma nsize_ge: "8 \<le> nsize a"
  by (cases a) simp

lemma item_off_head: "head_fits c h \<Longrightarrow> item_off c = hsize h"
  by (cases h) (simp_all add: head_fits_def item_off_def hsize_def)

section \<open>Sizes on 32 bits\<close>

lemma unat_pad_size: "n + 7 < 4294967296 \<Longrightarrow> unat (pad_size (of_nat n)) = up8 n"
proof -
  assume n: "n + 7 < 4294967296"
  have "unat (of_nat n + 7 :: u32) = n + 7"
    using n unat_of_nat_small [where 'w = 32, of "n + 7"] by simp
  moreover have "NOT 7 = (NOT (mask 3) :: u32)" by (simp add: mask_eq_decr_exp)
  ultimately have "unat (pad_size (of_nat n)) = (n + 7) - (n + 7) mod 2 ^ 3"
    unfolding pad_size_def by (simp only: unat_and_not_mask)
  then show ?thesis by (simp add: up8_def minus_mod_eq_div_mult)
qed

lemma unat_total_pad: "n + 15 < 4294967296 \<Longrightarrow> unat (total_pad (of_nat n)) = 8 + up8 n"
proof -
  assume n: "n + 15 < 4294967296"
  have "total_pad (of_nat n) = pad_size (of_nat (8 + n))" by (simp add: total_pad_def)
  then show ?thesis using unat_pad_size [of "8 + n"] n up8_add8 [of n] by simp
qed

lemma vector_elems_gen: "8 + w * n < 2147483648 \<Longrightarrow> 0 < w \<Longrightarrow> w < 100 \<Longrightarrow> vector_elems (of_nat (8 + w * n)) (of_nat w) = n"
proof -
  assume b: "8 + w * n < 2147483648" "0 < w" "w < 100"
  have "unat (ucast (of_nat (8 + w * n) :: u32) :: u64) = 8 + w * n"
    using b by (simp add: unsigned_ucast_eq take_bit_eq_mod unat_of_nat del: of_nat_add of_nat_mult)
  then have "ucast (of_nat (8 + w * n) :: u32) = (of_nat (8 + w * n) :: u64)"
    using b by (intro iffD2 [OF word_unat_eq_iff]) (simp add: unat_of_nat del: of_nat_add of_nat_mult)
  then have "(ucast (of_nat (8 + w * n) :: u32) - 8 :: u64) = of_nat (w * n)" by simp
  moreover have q: "n < 4294967296" using b by (cases w) auto
  moreover have "unat (of_nat (w * n) div of_nat w :: u64) = n"
    using b by (simp add: unat_div unat_of_nat del: of_nat_mult)
  ultimately have "(ucast (of_nat (8 + w * n) :: u32) - 8 :: u64) div of_nat w = of_nat n"
    using b q by (intro iffD2 [OF word_unat_eq_iff]) (simp add: unat_of_nat)
  then show ?thesis using q by (simp add: vector_elems_def unsigned_ucast_eq take_bit_eq_mod unat_of_nat)
qed

lemma vector_elems4: "8 + 4 * n < 2147483648 \<Longrightarrow> vector_elems (of_nat (8 + 4 * n)) 4 = n"
  using vector_elems_gen [of 4 n] by simp

lemma vector_elems8: "8 + 8 * n < 2147483648 \<Longrightarrow> vector_elems (of_nat (8 + 8 * n)) 8 = n"
  using vector_elems_gen [of 8 n] by simp

end
