(* ===== verification/Netatom_Ser.thy ===== *)
theory Netatom_Ser
  imports Netatom_Layout
begin

text \<open>
  Serialising. The dictionary \<open>es\<close> is a list of URIDs with their URIs; it lies behind the atom
  and grows (\<open>adds\<close>). \<open>net\<close> describes the states in between. Everything is proved for a
  dictionary \<open>F\<close> that holds all there will be in the end.
\<close>

section \<open>The dictionary\<close>

type_synonym dict = "(u32 \<times> u8 list) list"

definition dent :: "bool \<Rightarrow> (u32 \<times> u8 list \<Rightarrow> u32) \<Rightarrow> u32 \<times> u8 list \<Rightarrow> u8 list" where
  "dent sw f p = w4 sw (of_nat (length (snd p) + 1)) @ le32 (f p) @ pad_to8 (snd p @ [0])"

definition dlay :: "bool \<Rightarrow> (u32 \<times> u8 list \<Rightarrow> u32) \<Rightarrow> dict \<Rightarrow> u8 list" where
  "dlay sw f es = concat (map (dent sw f) es)"

definition esize :: "u32 \<times> u8 list \<Rightarrow> nat" where
  "esize p = 8 + up8 (length (snd p) + 1)"

definition dsize :: "dict \<Rightarrow> nat" where
  "dsize es = sum_list (map esize es)"

definition dpos :: "dict \<Rightarrow> u32 \<Rightarrow> nat" where
  "dpos es u = dsize (takeWhile (\<lambda>p. fst p \<noteq> u) es)"

definition dref :: "dict \<Rightarrow> u32 \<Rightarrow> u32" where
  "dref es u = (if u \<in> fst ` set es then of_nat (dpos es u + 1) else 0)"

definition add_uri :: "netatom \<Rightarrow> u32 \<Rightarrow> dict \<Rightarrow> dict" where
  "add_uri e k es = (if k = 0 \<or> k \<in> fst ` set es then es
     else case n_unmap e k of None \<Rightarrow> es | Some u \<Rightarrow> es @ [(k, u)])"

definition adds :: "netatom \<Rightarrow> u32 list \<Rightarrow> dict \<Rightarrow> dict" where
  "adds e ks es = fold (add_uri e) ks es"

definition grows :: "netatom \<Rightarrow> dict \<Rightarrow> dict \<Rightarrow> bool" where
  "grows e es F \<longleftrightarrow> (\<exists>zs. F = es @ zs) \<and> (\<forall>(k, u) \<in> set F. k \<noteq> 0 \<and> n_unmap e k = Some u)"

lemma adds_simps [simp]: "adds e [] es = es" "adds e (k # ks) es = adds e ks (add_uri e k es)"
  "adds e (ks @ ls) es = adds e ls (adds e ks es)"
  by (simp_all add: adds_def)

lemma dlay_simps [simp]: "dlay sw f [] = []" "dlay sw f (p # es) = dent sw f p @ dlay sw f es"
  "dlay sw f (es @ fs) = dlay sw f es @ dlay sw f fs"
  by (simp_all add: dlay_def)

lemma dsize_simps [simp]: "dsize [] = 0" "dsize (p # es) = esize p + dsize es" "dsize (es @ fs) = dsize es + dsize fs"
  by (simp_all add: dsize_def)

lemma dent_length [simp]: "length (dent sw f p) = esize p"
  by (simp add: dent_def esize_def up8_def)

lemma dlay_length [simp]: "length (dlay sw f es) = dsize es"
  by (induction es) simp_all

lemma esize_ge: "16 \<le> esize p"
  unfolding esize_def up8_def by presburger

lemma dsize_ge: "16 * length es \<le> dsize es"
  using esize_ge by (induction es) (simp_all add: add_mono)

lemma dref_0 [simp]: "grows e es F \<Longrightarrow> dref F 0 = 0"
  by (force simp: dref_def grows_def)

lemma add_uri_cases:
  obtains "add_uri e k es = es" | u where "add_uri e k es = es @ [(k, u)]" "n_unmap e k = Some u" "k \<noteq> 0"
proof (cases "k = 0 \<or> k \<in> fst ` set es \<or> n_unmap e k = None")
  case True
  then show ?thesis by (intro that(1)) (auto simp: add_uri_def)
next
  case False
  then show ?thesis by (auto simp: add_uri_def intro: that(2))
qed

lemma grows_add [dest]: "grows e (add_uri e k es) F \<Longrightarrow> grows e es F"
  by (cases e k es rule: add_uri_cases) (auto simp: grows_def)

lemma grows_adds [dest]: "grows e (adds e ks es) F \<Longrightarrow> grows e es F"
  by (induction ks arbitrary: es) auto

lemma dpos_append: "k \<in> fst ` set es \<Longrightarrow> dpos (es @ zs) k = dpos es k"
  by (induction es) (auto simp: dpos_def)

lemma dpos_new: "k \<notin> fst ` set es \<Longrightarrow> dpos (es @ (k, u) # zs) k = dsize es"
proof -
  assume "k \<notin> fst ` set es"
  then have "takeWhile (\<lambda>p. fst p \<noteq> k) (es @ (k, u) # zs) = es"
    by (induction es) auto
  then show ?thesis by (simp add: dpos_def)
qed

section \<open>A known beginning, and nothing else changed\<close>

lemma take_overwrite: "length X + length bs \<le> n \<Longrightarrow> n \<le> length b \<Longrightarrow>
  take n (overwrite (length X) bs b) = overwrite (length X) bs (take n b)"
  by (simp add: overwrite_def drop_take min_absorb1 min_absorb2)

lemma overwrite_mid: "length bs = length ys \<Longrightarrow> overwrite (length X) bs (X @ ys @ Z) = X @ bs @ Z"
  by (simp add: overwrite_def)

definition held :: "nstate \<Rightarrow> u8 list \<Rightarrow> nstate \<Rightarrow> bool" where
  "held s0 B s \<longleftrightarrow> s\<lparr>nbuf := nbuf s0\<rparr> = s0 \<and> length (nbuf s) = length (nbuf s0)
     \<and> length B \<le> length (nbuf s) \<and> take (length B) (nbuf s) = B"

interpretation held: view "held s0" for s0
proof
  fix B s assume "held s0 B s"
  then show "length B \<le> length (nbuf s) \<and> take (length B) (nbuf s) = B" by (simp add: held_def)
next
  fix X ys Z s and bs :: "u8 list"
  assume h: "held s0 (X @ ys @ Z) s" "length bs = length ys"
  let ?n = "length (X @ ys @ Z)"
  have "take ?n (overwrite (length X) bs (nbuf s)) = overwrite (length X) bs (take ?n (nbuf s))"
    by (rule take_overwrite) (use h in \<open>simp_all add: held_def\<close>)
  also have "\<dots> = X @ bs @ Z"
    using h overwrite_mid [OF h(2)] by (simp add: held_def)
  finally show "held s0 (X @ bs @ Z) (s\<lparr>nbuf := overwrite (length X) bs (nbuf s)\<rparr>)"
    using h by (simp add: held_def)
qed

section \<open>The states of serialising\<close>

definition net :: "nat \<Rightarrow> nat \<Rightarrow> nat \<Rightarrow> dict \<Rightarrow> u8 list \<Rightarrow> nstate \<Rightarrow> bool" where
  "net L E D es A s \<longleftrightarrow> length (nbuf s) = L \<and> ndict s = D \<and> D = length A \<and> ncur s = length A + dsize es
     \<and> nend s = E \<and> \<not> nover s \<and> length A + dsize es \<le> L \<and> take (length A + dsize es) (nbuf s) = A @ dlay False fst es"

text \<open>There is room for a dictionary, and eight bytes behind it (see \<open>dict_add\<close>).\<close>

definition room :: "nat \<Rightarrow> nat \<Rightarrow> nat \<Rightarrow> bool" where
  "room L E n \<longleftrightarrow> n \<le> E \<and> n + 8 \<le> L \<and> L < 2147483648"

lemma net_wr:
  assumes "net L E D es (X @ ys @ Z) s" and "length bs = length ys"
  shows "net L E D es (X @ bs @ Z) (s\<lparr>nbuf := overwrite (length X) bs (nbuf s)\<rparr>)"
proof -
  let ?n = "length (X @ ys @ Z) + dsize es"
  have t: "take ?n (nbuf s) = X @ ys @ Z @ dlay False fst es" "?n \<le> length (nbuf s)"
    using assms by (simp_all add: net_def)
  have "take ?n (overwrite (length X) bs (nbuf s)) = overwrite (length X) bs (take ?n (nbuf s))"
    by (rule take_overwrite) (use t assms in simp_all)
  also have "\<dots> = X @ bs @ Z @ dlay False fst es"
    unfolding t using overwrite_mid [OF assms(2), of X "Z @ dlay False fst es"] by simp
  finally show ?thesis using assms t by (simp add: net_def)
qed

interpretation net: view "net L E D es" for L E D es
proof
  fix B s assume "net L E D es B s"
  then show "length B \<le> length (nbuf s) \<and> take (length B) (nbuf s) = B"
    by (simp add: net_def) (metis append_eq_conv_conj le_add1 min.absorb1 take_take)
next
  fix X ys Z s and bs :: "u8 list"
  assume "net L E D es (X @ ys @ Z) s" "length bs = length ys"
  then show "net L E D es (X @ bs @ Z) (s\<lparr>nbuf := overwrite (length X) bs (nbuf s)\<rparr>)" by (rule net_wr)
qed

lemma net_held: "net L E D es A s \<Longrightarrow> held s (A @ dlay False fst es) s"
  by (simp add: net_def held_def)

section \<open>References to the dictionary\<close>

lemma unat_entry_pad: "length u < 2147483648 \<Longrightarrow> unat (total_pad (of_nat (length u + 1))) = esize (k, u)"
  by (subst unat_total_pad) (simp_all add: esize_def)

lemma esize_gt: "length (snd p) < esize p"
  unfolding esize_def up8_def by presburger

lemma dict_find_at:
  assumes "held s0 (P @ dlay sw fst es @ Z) s" and "\<not> sw" and "ptr = length P"
    and "ncur s = length P + dsize es" and "length es < k" and "ncur s < 2147483648"
  shows "dict_find k ptr urid s = Done (if urid \<in> fst ` set es then Some (length P + dpos es urid) else None)"
  using assms
proof (induction es arbitrary: P k ptr)
  case Nil
  then show ?case by (cases k) simp_all
next
  case (Cons p es)
  obtain key u where p: "p = (key, u)" by (cases p)
  obtain j where k: "k = Suc j" using Cons.prems(5) by (cases k) auto
  have cur: "\<not> ncur s \<le> ptr" using Cons.prems(3,4) esize_ge [of p] by simp
  have size: "rd32 ptr s = Done (of_nat (length u + 1))"
    using Cons.prems(1-3) p by (intro held.rd32_at) (simp_all add: dent_def)
  have key: "rd32 (ptr + 4) s = Done key"
    using Cons.prems(1-3) p
      held.rd32_at [of s0 "P @ le32 (of_nat (length u + 1))" key "pad_to8 (u @ [0]) @ dlay sw fst es @ Z" s]
    by (simp add: dent_def)
  have pad: "unat (total_pad (of_nat (length u + 1))) = esize p"
    unfolding p by (rule unat_entry_pad) (use Cons.prems(4,6) esize_gt [of p] p in simp)
  have "dict_find j (ptr + esize p) urid s =
      Done (if urid \<in> fst ` set es then Some (length (P @ dent sw fst p) + dpos es urid) else None)"
    by (rule Cons.IH) (use Cons.prems k in simp_all)
  then show ?case
    using cur size key pad p Cons.prems(3) by (simp add: k dpos_def del: of_nat_Suc)
qed

text \<open>A new entry\<close>

lemma strncpy_entry: "up8 (length u + 1) + 8 = n \<Longrightarrow> strncpy u n = pad_to8 (u @ [0]) @ replicate 8 0"
proof -
  assume n: "up8 (length u + 1) + 8 = n"
  have le: "length u < up8 (length u + 1)" unfolding up8_def by presburger
  then have "n - length u = 1 + (up8 (length u + 1) - (length u + 1)) + 8" using n by simp
  then have "replicate (n - length u) 0 = ([0] @ replicate (up8 (length u + 1) - (length u + 1)) 0 @ replicate 8 (0 :: u8))"
    by (simp only: replicate_add append.assoc) simp
  then have "u @ replicate (n - length u) 0 = pad_to8 (u @ [0]) @ replicate 8 0"
    by (simp add: pad_to8_def up8_def)
  moreover have "length (u @ replicate (n - length u) (0 :: u8)) = n" using n le by simp
  ultimately show ?thesis by (simp add: strncpy_def)
qed

lemma net_dict_add:
  assumes net: "net L E D es (X @ le32 k @ Z) s" and p: "p = length X"
    and room: "room L E (D + dsize (es @ [(k, u)]))"
  shows "run_ok (dict_add p k u s) (net L E D (es @ [(k, u)]) (X @ le32 (of_nat (dsize es + 1)) @ Z))"
proof -
  let ?A = "X @ le32 k @ Z" let ?n = "length u + 1"
  let ?ref = "of_nat (dsize es + 1) :: u32"
  let ?t = "strncpy u (esize (k, u))"
  define b where "b = nbuf s"
  define c where "c = length ?A + dsize es"
  have len: "length b = L" "ndict s = length ?A" "ncur s = c" "nend s = E" "\<not> nover s"
    and pre: "take c b = ?A @ dlay False fst es"
    using net by (simp_all add: net_def b_def c_def)
  have D: "D = length ?A" using net by (simp add: net_def)
  have c: "c + esize (k, u) \<le> E" "c + esize (k, u) + 8 \<le> L" "L < 2147483648"
    using room by (simp_all add: room_def c_def D)
  have tot: "unat (8 + pad_size (of_nat ?n)) = esize (k, u)"
  proof -
    have "unat (total_pad (of_nat ?n)) = esize (k, u)"
      by (rule unat_entry_pad) (use c esize_gt [of "(k, u)"] in simp)
    then show ?thesis
      using unat_pad_size [of ?n] c esize_gt [of "(k, u)"]
      by (subst unat_add_no_wrap) (simp_all add: esize_def)
  qed
  have t: "?t = pad_to8 (u @ [0]) @ replicate 8 0"
    by (rule strncpy_entry) (simp add: esize_def)
  have tl: "length ?t = esize (k, u)" unfolding t by (simp add: esize_def up8_def)
  define b1 where "b1 = overwrite c (le32 (of_nat ?n)) b"
  define b2 where "b2 = overwrite (c + 4) (le32 k) b1"
  define b3 where "b3 = overwrite (c + 8) ?t b2"
  have e8: "8 \<le> esize (k, u)" by (simp add: esize_def)
  have "b3 = overwrite c (le32 (of_nat ?n) @ le32 k @ ?t) b"
    using c e8 len(1) tl overwrite_append [of c "le32 (of_nat ?n)" "le32 k" b]
      overwrite_append [of c "le32 (of_nat ?n) @ le32 k" ?t b]
    by (simp add: b3_def b2_def b1_def)
  also have "le32 (of_nat ?n) @ le32 k @ ?t = dent False fst (k, u) @ replicate 8 0"
    unfolding t by (simp add: dent_def)
  finally have b3: "b3 = overwrite c (dent False fst (k, u) @ replicate 8 0) b" .
  have b3t: "take (c + esize (k, u)) b3 = ?A @ dlay False fst (es @ [(k, u)])"
  proof -
    obtain W where W: "W = ?A @ dlay False fst es" "length W = c" by (simp add: c_def)
    have "b3 = W @ dent False fst (k, u) @ replicate 8 0 @ drop (c + esize (k, u) + 8) b"
      using pre W(1) by (simp add: b3 overwrite_def add.assoc)
    then have "take (c + esize (k, u)) b3 = W @ dent False fst (k, u)" using W(2) by simp
    then show ?thesis using W(1) by simp
  qed
  have "net L E D (es @ [(k, u)]) ?A (s\<lparr>nbuf := b3, ncur := c + esize (k, u)\<rparr>)"
    using len c b3t unfolding net_def by (simp add: b3 c_def D add.assoc)
  from net.wr_at [OF this p, of "le32 ?ref"]
  have last: "run_ok (wr p (le32 ?ref) (s\<lparr>nbuf := b3, ncur := c + esize (k, u)\<rparr>)) (net L E D (es @ [(k, u)]) (X @ le32 ?ref @ Z))"
    by simp
  have w: "wr c (le32 (of_nat ?n)) s = Done (s\<lparr>nbuf := b1\<rparr>)"
    "wr (c + 4) (le32 k) (s\<lparr>nbuf := b1\<rparr>) = Done (s\<lparr>nbuf := b2\<rparr>)"
    "wr (c + 8) ?t (s\<lparr>nbuf := b2\<rparr>) = Done (s\<lparr>nbuf := b3\<rparr>)"
    using c e8 len(1) tl by (simp_all add: wr_def b1_def b2_def b3_def flip: b_def)
  have "dict_add p k u s = run_bind (wr p (le32 ?ref) (s\<lparr>nbuf := b3\<rparr>)) (\<lambda>s. Done (s\<lparr>ncur := ncur s + esize (k, u)\<rparr>))"
    using c(1) len w tot by (simp add: dict_add_def Let_def c_def)
  also have "\<dots> = wr p (le32 ?ref) (s\<lparr>nbuf := b3, ncur := c + esize (k, u)\<rparr>)"
    using len(3) by (simp add: wr_def)
  finally show ?thesis using last by simp
qed

text \<open>Where the dictionary has an entry already, where it gets one, and where there is no URI for the URID.\<close>

lemma add_uri_found: "grows e es F \<Longrightarrow> v \<in> fst ` set es \<Longrightarrow> add_uri e v es = es \<and> dref F v = of_nat (dpos es v + 1)"
proof -
  assume g: "grows e es F" and v: "v \<in> fst ` set es"
  then obtain zs where F: "F = es @ zs" by (auto simp: grows_def)
  with v dpos_append [OF v, of zs] show ?thesis by (simp add: add_uri_def dref_def image_Un)
qed

lemma add_uri_new:
  "grows e (add_uri e v es) F \<Longrightarrow> v \<notin> fst ` set es \<Longrightarrow> v \<noteq> 0 \<Longrightarrow> n_unmap e v = Some u
   \<Longrightarrow> add_uri e v es = es @ [(v, u)] \<and> dref F v = of_nat (dsize es + 1)"
  by (auto simp: add_uri_def dref_def grows_def dpos_new)

lemma add_uri_none:
  "grows e es F \<Longrightarrow> n_unmap e v = None \<Longrightarrow> add_uri e v es = es \<and> dref F v = 0"
  by (auto simp: add_uri_def dref_def grows_def)

lemma grows_dsize: "grows e es F \<Longrightarrow> dsize es \<le> dsize F \<and> length es \<le> length F"
  by (auto simp: grows_def)

lemma room_mono: "room L E n \<Longrightarrow> m \<le> n \<Longrightarrow> room L E m"
  by (simp add: room_def)

lemma net_ser_uri:
  assumes net: "net L E D es (X @ le32 v @ Z) s" and p: "p = length X" and g: "grows e (add_uri e v es) F"
    and room: "room L E (D + dsize F)" and k: "length F < k"
    and uri: "uri = None \<or> uri = n_unmap e v"
  shows "run_ok (ser_uri k e p uri s) (net L E D (add_uri e v es) (X @ w4 (n_swap e) (dref F v) @ Z))"
proof (cases "v = 0")
  case True
  then show ?thesis
    using net.rd32_at [OF net p] net g by (auto simp: ser_uri_def add_uri_def simp flip: w4_False)
next
  case False
  let ?A = "X @ le32 v @ Z"
  have g0: "grows e es F" using g by blast
  have n: "ndict s = length ?A" "D = length ?A" "ncur s = length ?A + dsize es" using net by (simp_all add: net_def)
  have find: "dict_find k (ndict s) v s = Done (if v \<in> fst ` set es then Some (length ?A + dpos es v) else None)"
    using net_held [OF net] n k room grows_dsize [OF g0] dict_find_at [of s ?A False es "[]" s "ndict s" k v]
    by (simp add: room_def)
  have new: "(case uri of Some u \<Rightarrow> Some u | None \<Rightarrow> n_unmap e v) = n_unmap e v"
    using uri by (auto split: option.splits)
  have "run_ok (case if v \<in> fst ` set es then Some (length ?A + dpos es v) else None of
        Some ptr \<Rightarrow> wr p (le32 (of_nat (ptr - ndict s + 1))) s
      | None \<Rightarrow> (case n_unmap e v of None \<Rightarrow> wr p (le32 0) s | Some u \<Rightarrow> dict_add p v u s))
    (net L E D (add_uri e v es) (X @ le32 (dref F v) @ Z))" (is "run_ok ?r _")
  proof (cases "v \<in> fst ` set es")
    case True
    then show ?thesis
      using net.wr_at [OF net p, of "le32 (dref F v)"] add_uri_found [OF g0 True] n by simp
  next
    case fresh: False
    show ?thesis
    proof (cases "n_unmap e v")
      case None
      then show ?thesis
        using net.wr_at [OF net p, of "le32 0"] add_uri_none [OF g0 None] fresh by simp
    next
      case (Some u)
      note new = add_uri_new [OF g fresh False Some]
      have "room L E (D + dsize (es @ [(v, u)]))"
        using room_mono [OF room] grows_dsize [OF g] new by simp
      from net_dict_add [OF net p this] show ?thesis using new fresh Some by simp
    qed
  qed
  then have "run_ok (run_bind ?r (ser32 e p)) (net L E D (add_uri e v es) (X @ w4 (n_swap e) (dref F v) @ Z))"
    by (rule run_ok_bind) (erule net.ser32_at [OF _ p])
  moreover have "ser_uri k e p uri s = run_bind ?r (ser32 e p)"
    using False by (simp only: ser_uri_def net.rd32_at [OF net p] find new run_bind_simps if_False)
  ultimately show ?thesis by simp
qed

end
