(* ===== verification/Netatom_Serialize.thy ===== *)
theory Netatom_Serialize
  imports Netatom_Ser
begin

text \<open>
  Serialising, continued: the atoms and the interface. \<open>atom_ok\<close> and \<open>items_ok\<close> say what
  \<open>ser_atom\<close> and \<open>ser_items\<close> do with given fuel, and are proved together.
\<close>

section \<open>One URID, two, and the head of an item\<close>

definition ready :: "nat \<Rightarrow> nat \<Rightarrow> nat \<Rightarrow> dict \<Rightarrow> nat \<Rightarrow> bool" where
  "ready L E D F k \<longleftrightarrow> room L E (D + dsize F) \<and> length F < k"

lemma ready_Suc: "ready L E D F k \<Longrightarrow> ready L E D F (Suc k)"
  by (simp add: ready_def)

lemma net_ref:
  "net L E D es (X @ le32 v @ Z) s \<Longrightarrow> p = length X \<Longrightarrow> grows e (add_uri e v es) F \<Longrightarrow> ready L E D F k \<Longrightarrow>
   run_ok (ser_uri k e p None s) (net L E D (add_uri e v es) (X @ w4 (n_swap e) (dref F v) @ Z))"
  unfolding ready_def by (rule net_ser_uri) auto

lemma net_ref2:
  assumes net: "net L E D es (X @ le32 v @ le32 w @ Z) s" and p: "p = length X" "q = length X + 4"
    and g: "grows e (adds e [v, w] es) F" and r: "ready L E D F k"
  shows "run_ok (run_bind (ser_uri k e p None s) (ser_uri k e q None))
    (net L E D (adds e [v, w] es) (X @ w4 (n_swap e) (dref F v) @ w4 (n_swap e) (dref F w) @ Z))"
proof (rule run_ok_bind)
  show "run_ok (ser_uri k e p None s) (net L E D (add_uri e v es) (X @ w4 (n_swap e) (dref F v) @ le32 w @ Z))"
    using net_ref [OF net p(1) _ r] g by auto
  fix t assume "net L E D (add_uri e v es) (X @ w4 (n_swap e) (dref F v) @ le32 w @ Z) t"
  then show "run_ok (ser_uri k e q None t)
    (net L E D (adds e [v, w] es) (X @ w4 (n_swap e) (dref F v) @ w4 (n_swap e) (dref F w) @ Z))"
    using net_ref [of L E D "add_uri e v es" "X @ w4 (n_swap e) (dref F v)" w Z t q e F k] p g r by simp
qed

lemma net_ser_head:
  assumes "head_fits c h" and "net L E D es (X @ hlay False id h @ Z) s" and "p = length X"
    and "grows e (adds e (huses h) es) F" and "ready L E D F k"
  shows "run_ok (ser_head k e c p s) (net L E D (adds e (huses h) es) (X @ hlay (n_swap e) (dref F) h @ Z))"
proof (cases h)
  case HNone
  then show ?thesis using assms by (simp add: head_fits_def ser_head_def hlay_def huses_def)
next
  case (HProp k x)
  then show ?thesis
    using assms net_ref2 [of L E D es X k x Z s p "p + 4" e F] by (simp add: head_fits_def ser_head_def hlay_def huses_def)
next
  case (HTime t)
  then show ?thesis
    using assms net.ser64_at [of L E D es X t Z s p e] by (simp add: head_fits_def ser_head_def hlay_def huses_def)
qed

section \<open>Vectors\<close>

lemma net_ser_vector:
  assumes net: "net L E D es (X @ le32 n @ le32 t @ le32 c @ le32 ct @ B @ Z) s" and p: "p = length X"
    and elems: "n_swap e \<Longrightarrow> run_ok
      (if c = 4 then each32 (ser32 e) 4 (p + 16) (vector_elems n 4) s
       else if c = 8 then each32 (ser64 e) 8 (p + 16) (vector_elems n 8) s else Done s)
      (net L E D es ((X @ le32 n @ le32 t @ le32 c @ le32 ct) @ B' @ Z))"
    and same: "\<not> n_swap e \<Longrightarrow> B' = B"
    and g: "grows e (add_uri e ct es) F" and r: "ready L E D F k"
  shows "run_ok (ser_vector k e p n s) (net L E D (add_uri e ct es)
    (X @ le32 n @ le32 t @ w4 (n_swap e) c @ w4 (n_swap e) (dref F ct) @ B' @ Z))"
proof -
  let ?X = "X @ le32 n @ le32 t"
  have c: "rd32 (p + 8) s = Done c" by (rule net.rd32_at [where X = ?X]) (use net p in auto)
  have "run_ok
      (if n_swap e
       then run_bind (if c = 4 then each32 (ser32 e) 4 (p + 16) (vector_elems n 4) s
              else if c = 8 then each32 (ser64 e) 8 (p + 16) (vector_elems n 8) s else Done s)
            (ser32 e (p + 8))
       else Done s)
      (net L E D es ((?X @ w4 (n_swap e) c) @ le32 ct @ B' @ Z))" (is "run_ok ?r _")
  proof (cases "n_swap e")
    case True
    from run_ok_bind [OF elems [OF True], of "ser32 e (p + 8)"] show ?thesis
      using net.ser32_at [of L E D es ?X c "le32 ct @ B' @ Z" _ "p + 8" e] p True by simp
  next
    case False
    then show ?thesis using net same by simp
  qed
  from run_ok_bind [OF this, of "ser_uri k e (p + 12) None"]
  have "run_ok (run_bind ?r (ser_uri k e (p + 12) None)) (net L E D (add_uri e ct es)
    (X @ le32 n @ le32 t @ w4 (n_swap e) c @ w4 (n_swap e) (dref F ct) @ B' @ Z))"
    using net_ref [of L E D es "?X @ w4 (n_swap e) c" ct "B' @ Z" _ "p + 12" e F k] p g r by simp
  then show ?thesis unfolding ser_vector_def c run_bind_simps .
qed

lemma net_ser_elems:
  assumes "b = NVec4 ct vs4 \<and> c = 4 \<and> B = concat (map (w4 False) vs4) \<and> B' = concat (map (w4 True) vs4)
    \<or> b = NVec8 ct vs8 \<and> c = 8 \<and> B = concat (map (w8 False) vs8) \<and> B' = concat (map (w8 True) vs8)
    \<or> b = NVecs c ct bs \<and> c \<noteq> 4 \<and> c \<noteq> 8 \<and> B = bs \<and> B' = bs"
    and "n = of_nat (bsize b)" "bsize b < 2147483648" "n_swap e"
    and "net L E D es (X @ B @ Z) s" and "q = length X"
  shows "run_ok
      (if c = 4 then each32 (ser32 e) 4 q (vector_elems n 4) s
       else if c = 8 then each32 (ser64 e) 8 q (vector_elems n 8) s else Done s)
      (net L E D es (X @ B' @ Z))"
  using assms(1)
proof (elim disjE conjE)
  assume v: "b = NVec4 ct vs4" "c = 4" "B = concat (map (w4 False) vs4)" "B' = concat (map (w4 True) vs4)"
  have "run_ok (each32 (ser32 e) 4 q (length vs4) s) (net L E D es (X @ B' @ Z))"
    unfolding v using assms(4-6) v net.ser32_at [where e = e] by (intro net.each32_at) auto
  then show ?thesis using assms(2,3) v vector_elems4 [of "length vs4"] by simp
next
  assume v: "b = NVec8 ct vs8" "c = 8" "B = concat (map (w8 False) vs8)" "B' = concat (map (w8 True) vs8)"
  have "run_ok (each32 (ser64 e) 8 q (length vs8) s) (net L E D es (X @ B' @ Z))"
    unfolding v using assms(4-6) v net.ser64_at [where e = e] by (intro net.each32_at) auto
  then show ?thesis using assms(2,3) v vector_elems8 [of "length vs8"] by simp
next
  assume "c \<noteq> 4" "c \<noteq> 8" "B = bs" "B' = bs"
  then show ?thesis using assms by simp
qed

section \<open>Atoms and items\<close>

definition atom_ok :: "nat \<Rightarrow> nat \<Rightarrow> nat \<Rightarrow> dict \<Rightarrow> netatom \<Rightarrow> nat \<Rightarrow> bool" where
  "atom_ok L E D F e k \<longleftrightarrow> (\<forall>a es X Z s.
     nwf (ser_kind e) a \<longrightarrow> net L E D es (X @ lay False id a @ Z) s \<longrightarrow> grows e (adds e (uses a) es) F \<longrightarrow>
     ncost a + length F < k \<longrightarrow>
     run_ok (ser_atom k e (length X) s) (net L E D (adds e (uses a) es) (X @ lay (n_swap e) (dref F) a @ Z)))"

definition items_ok :: "nat \<Rightarrow> nat \<Rightarrow> nat \<Rightarrow> dict \<Rightarrow> netatom \<Rightarrow> nat \<Rightarrow> bool" where
  "items_ok L E D F e k \<longleftrightarrow> (\<forall>c b its es X Z s i.
     nwf (ser_kind e) b \<longrightarrow> list_all (\<lambda>i. head_fits c (item_head i)) its \<longrightarrow> list_all (iwf (ser_kind e)) its \<longrightarrow>
     net L E D es (X @ pad_to8 (lay False id b) @ concat (map (ilay False id) its) @ Z) s \<longrightarrow>
     grows e (adds e (uses b @ concat (map iuses its)) es) F \<longrightarrow>
     ncost b + Suc (sum_list (map icost its)) + length F < k \<longrightarrow> i = length X + up8 (nsize b) \<longrightarrow>
     run_ok (ser_items k e c i (i + sum_list (map isize its)) (Some (length X)) s)
       (net L E D (adds e (uses b @ concat (map iuses its)) es)
         (X @ pad_to8 (lay (n_swap e) (dref F) b) @ concat (map (ilay (n_swap e) (dref F)) its) @ Z)))"

text \<open>What an iteration does after the previous item\<close>

lemma net_ser_rest:
  assumes ok: "items_ok L E D F e k" and room: "room L E (D + dsize F)"
    and heads: "list_all (\<lambda>i. head_fits c (item_head i)) its" and wf: "list_all (iwf (ser_kind e)) its"
    and net: "net L E D es (X @ concat (map (ilay False id) its) @ Z) s"
    and g: "grows e (adds e (concat (map iuses its)) es) F"
    and k: "sum_list (map icost its) + length F < k"
    and i: "i = length X" "stop = i + sum_list (map isize its)"
  shows "run_ok
    (if stop \<le> i then Done s
     else run_bind (ser_head k e c i s) (\<lambda>s.
          run_bind (rd32 (i + item_off c) s) (\<lambda>n.
            ser_items k e c (i + item_off c + 8 + unat (pad_size n)) stop (Some (i + item_off c)) s)))
    (net L E D (adds e (concat (map iuses its)) es) (X @ concat (map (ilay (n_swap e) (dref F)) its) @ Z))"
proof (cases its)
  case Nil
  then show ?thesis using net i by simp
next
  case (Cons it rest)
  obtain h a where it: "it = NItem h a" by (cases it)
  let ?es = "adds e (huses h) es" and ?X = "X @ hlay (n_swap e) (dref F) h"
  let ?items = "concat (map (ilay False id) rest)"
  have ready: "ready L E D F k" using room k by (simp add: ready_def)
  have h: "head_fits c h" "item_off c = hsize h" using heads Cons it item_off_head by auto
  have g': "grows e (adds e (uses a @ concat (map iuses rest)) ?es) F" using g Cons it by simp
  have head: "run_ok (ser_head k e c i s) (net L E D ?es (?X @ lay False id a @ replicate (up8 (nsize a) - nsize a) 0 @ ?items @ Z))"
    using net_ser_head [OF h(1) _ i(1) grows_adds [OF g'] ready] net Cons it by (simp add: pad_lay)
  have stop: "\<not> stop \<le> i" using i Cons isize_pos [of it] by simp
  have rest: "run_ok (run_bind (rd32 (i + item_off c) t) (\<lambda>n.
      ser_items k e c (i + item_off c + 8 + unat (pad_size n)) stop (Some (i + item_off c)) t))
      (net L E D (adds e (concat (map iuses its)) es) (X @ concat (map (ilay (n_swap e) (dref F)) its) @ Z))"
    if t: "net L E D ?es (?X @ lay False id a @ replicate (up8 (nsize a) - nsize a) 0 @ ?items @ Z) t" for t
  proof -
    have size: "rd32 (i + item_off c) t = Done (of_nat (nsize a - 8))"
    proof (cases a)
      case (NAtom y b)
      show ?thesis
        by (rule net.rd32_at [where X = ?X and Z = "le32 y @ blay False id b @ replicate (up8 (nsize a) - nsize a) 0 @ ?items @ Z"])
          (use t i h NAtom in simp_all)
    qed
    have "up8 (nsize a) \<le> D" using t by (simp add: net_def)
    then have "nsize a < 2147483648" using room up8_ge [of "nsize a"] by (simp add: room_def)
    then have pad: "8 + unat (pad_size (of_nat (nsize a - 8))) = up8 (nsize a)"
      using unat_pad_size [of "nsize a - 8"] up8_add8 [of "nsize a - 8"] nsize_ge [of a] by simp
    have "run_ok (ser_items k e c (length ?X + up8 (nsize a)) (length ?X + up8 (nsize a) + sum_list (map isize rest)) (Some (length ?X)) t)
       (net L E D (adds e (uses a @ concat (map iuses rest)) ?es)
         (?X @ pad_to8 (lay (n_swap e) (dref F) a) @ concat (map (ilay (n_swap e) (dref F)) rest) @ Z))"
      using ok [unfolded items_ok_def, rule_format, of a c rest ?es ?X Z t] t heads wf Cons it g' k
      by (simp add: pad_lay)
    then show ?thesis using size pad i h Cons it by (simp add: add.assoc)
  qed
  show ?thesis using stop run_ok_bind [OF head rest] by simp
qed

definition none_ok :: "nat \<Rightarrow> nat \<Rightarrow> nat \<Rightarrow> dict \<Rightarrow> netatom \<Rightarrow> nat \<Rightarrow> bool" where
  "none_ok L E D F e k \<longleftrightarrow> (\<forall>c its es X Z s i.
     list_all (\<lambda>i. head_fits c (item_head i)) its \<longrightarrow> list_all (iwf (ser_kind e)) its \<longrightarrow>
     net L E D es (X @ concat (map (ilay False id) its) @ Z) s \<longrightarrow>
     grows e (adds e (concat (map iuses its)) es) F \<longrightarrow>
     Suc (sum_list (map icost its)) + length F < k \<longrightarrow> i = length X \<longrightarrow>
     run_ok (ser_items k e c i (i + sum_list (map isize its)) None s)
       (net L E D (adds e (concat (map iuses its)) es) (X @ concat (map (ilay (n_swap e) (dref F)) its) @ Z)))"

lemma none_ok_Suc: "items_ok L E D F e k \<Longrightarrow> room L E (D + dsize F) \<Longrightarrow> none_ok L E D F e (Suc k)"
  unfolding none_ok_def using net_ser_rest by (simp del: not_le)

lemma items_ok_Suc:
  assumes a: "atom_ok L E D F e k" and i: "items_ok L E D F e k" and room: "room L E (D + dsize F)"
  shows "items_ok L E D F e (Suc k)"
  unfolding items_ok_def
proof (intro allI impI)
  fix c b its es X Z s i
  assume wf: "nwf (ser_kind e) b" "list_all (\<lambda>i. head_fits c (item_head i)) its" "list_all (iwf (ser_kind e)) its"
    and net: "net L E D es (X @ pad_to8 (lay False id b) @ concat (map (ilay False id) its) @ Z) s"
    and g: "grows e (adds e (uses b @ concat (map iuses its)) es) F"
    and k: "ncost b + Suc (sum_list (map icost its)) + length F < Suc k" and p: "i = length X + up8 (nsize b)"
  let ?es = "adds e (uses b) es" and ?X = "X @ pad_to8 (lay (n_swap e) (dref F) b)"
  have "grows e ?es F" using g by auto
  then have "run_ok (ser_atom k e (length X) s) (net L E D ?es (?X @ concat (map (ilay False id) its) @ Z))"
    using a [unfolded atom_ok_def, rule_format, of b es X _ s] wf(1) net k by (simp add: pad_lay)
  then have "run_ok (run_bind (ser_atom k e (length X) s) (\<lambda>s.
      if i + sum_list (map isize its) \<le> i then Done s
      else run_bind (ser_head k e c i s) (\<lambda>s. run_bind (rd32 (i + item_off c) s) (\<lambda>n.
        ser_items k e c (i + item_off c + 8 + unat (pad_size n)) (i + sum_list (map isize its)) (Some (i + item_off c)) s))))
    (net L E D (adds e (concat (map iuses its)) ?es) (?X @ concat (map (ilay (n_swap e) (dref F)) its) @ Z))"
    by (rule run_ok_bind) (rule net_ser_rest [OF i room wf(2,3)], use g k p in \<open>simp_all add: up8_def\<close>)
  then show "run_ok (ser_items (Suc k) e c i (i + sum_list (map isize its)) (Some (length X)) s)
      (net L E D (adds e (uses b @ concat (map iuses its)) es)
        (X @ pad_to8 (lay (n_swap e) (dref F) b) @ concat (map (ilay (n_swap e) (dref F)) its) @ Z))"
    by simp
qed

text \<open>The part of \<open>ser_atom\<close> that is about the body\<close>

definition ser_body :: "nat \<Rightarrow> netatom \<Rightarrow> nat \<Rightarrow> u32 \<Rightarrow> known option \<Rightarrow> nstate \<Rightarrow> nstate run" where
  "ser_body k e p n kind s =
     (case kind of
        Some KBool \<Rightarrow> ser32 e (p + 8) s
      | Some KInt \<Rightarrow> ser32 e (p + 8) s
      | Some KFloat \<Rightarrow> ser32 e (p + 8) s
      | Some KLong \<Rightarrow> ser64 e (p + 8) s
      | Some KDouble \<Rightarrow> ser64 e (p + 8) s
      | Some KURID \<Rightarrow> ser_uri k e (p + 8) None s
      | Some KLiteral \<Rightarrow> run_bind (ser_uri k e (p + 8) None s) (ser_uri k e (p + 12) None)
      | Some KObject \<Rightarrow> run_bind (ser_items k e CObject (p + 16) (p + 8 + unat n) None s) (\<lambda>s.
          run_bind (ser_uri k e (p + 8) None s) (ser_uri k e (p + 12) None))
      | Some KTuple \<Rightarrow> ser_items k e CTuple (p + 8) (p + 8 + unat n) None s
      | Some KSequence \<Rightarrow> run_bind (ser_items k e CSequence (p + 16) (p + 8 + unat n) None s) (\<lambda>s.
          run_bind (ser_uri k e (p + 8) None s) (ser32 e (p + 12)))
      | Some KVector \<Rightarrow> ser_vector k e p n s
      | _ \<Rightarrow> Done s)"

lemma ser_atom_Suc:
  "ser_atom (Suc k) e p s = run_bind (rd32 (p + 4) s) (\<lambda>t. run_bind (rd32 p s) (\<lambda>n.
     run_bind (ser_body k e p n (ser_kind e t) s) (\<lambda>s.
       run_bind (ser32 e p s) (ser_uri k e (p + 4) (map_option (n_uri e) (ser_kind e t))))))"
  by (simp add: ser_body_def)

lemma net_ser_body:
  assumes none: "none_ok L E D F e k" and room: "room L E (D + dsize F)"
    and fits: "body_fits kind b" and wf: "bwf (ser_kind e) b" and n: "n = of_nat (bsize b)"
    and net: "net L E D es (X @ le32 n @ le32 t @ blay False id b @ Z) s"
    and g: "grows e (adds e (buses b) es) F" and k: "bcost b + length F < k"
  shows "run_ok (ser_body k e (length X) n kind s)
    (net L E D (adds e (buses b) es) (X @ le32 n @ le32 t @ blay (n_swap e) (dref F) b @ Z))"
proof -
  let ?X = "X @ le32 n @ le32 t"
  have r: "ready L E D F k" using room k by (simp add: ready_def)
  have size: "unat n = bsize b" "bsize b < 2147483648"
    using net room n by (simp_all add: net_def room_def unat_of_nat)
  show ?thesis
  proof (cases b)
    case (NWord v)
    then show ?thesis using fits net net.ser32_at [of L E D es ?X v Z s _ e] by (auto simp: body_fits_def ser_body_def)
  next
    case (NDword v)
    then show ?thesis using fits net net.ser64_at [of L E D es ?X v Z s _ e] by (auto simp: body_fits_def ser_body_def)
  next
    case (NRef u)
    then show ?thesis using fits net g net_ref [of L E D es ?X u Z s _ e F k] r by (auto simp: body_fits_def ser_body_def)
  next
    case (NLit d l bs)
    then show ?thesis
      using fits net g net_ref2 [of L E D es ?X d l "bs @ Z" s "length X + 8" "length X + 12" e F k] r by (auto simp: body_fits_def ser_body_def)
  next
    case (NBytes bs)
    then show ?thesis using fits net by (auto simp: body_fits_def ser_body_def)
  next
    case (NVec4 ct vs)
    then show ?thesis
      using fits net g r size n
        net_ser_vector [of L E D es X n t 4 ct "concat (map (w4 False) vs)" Z s "length X" e "concat (map (w4 (n_swap e)) vs)" F k]
        net_ser_elems [of b ct vs 4 "concat (map (w4 False) vs)" "concat (map (w4 True) vs)" undefined undefined n e L E D es
          "?X @ le32 4 @ le32 ct" Z s "length X + 16"]
      by (auto simp: body_fits_def ser_body_def)
  next
    case (NVec8 ct vs)
    then show ?thesis
      using fits net g r size n
        net_ser_vector [of L E D es X n t 8 ct "concat (map (w8 False) vs)" Z s "length X" e "concat (map (w8 (n_swap e)) vs)" F k]
        net_ser_elems [of b ct undefined 8 "concat (map (w8 False) vs)" "concat (map (w8 True) vs)" vs undefined n e L E D es
          "?X @ le32 8 @ le32 ct" Z s "length X + 16"]
      by (auto simp: body_fits_def ser_body_def)
  next
    case (NVecs c ct bs)
    then show ?thesis
      using fits net g r net_ser_vector [of L E D es X n t c ct bs Z s "length X" e bs F k]
      by (auto simp: body_fits_def ser_body_def)
  next
    case (NItems c i o2 its)
    let ?its = "\<lambda>sw r. concat (map (ilay sw r) its)" and ?es = "adds e (concat (map iuses its)) es"
    let ?W = "X @ le32 n @ le32 t @ play False id c i o2"
    have g': "grows e ?es F" "grows e (adds e (puses c i o2) ?es) F" using g NItems by auto
    have "run_ok (ser_items k e c (length ?W) (length ?W + sum_list (map isize its)) None s)
        (net L E D ?es (?W @ ?its (n_swap e) (dref F) @ Z))"
      using none [unfolded none_ok_def, rule_format, of c its es ?W Z s "length ?W"] fits wf net g'(1) k NItems by simp
    then have items: "run_ok (ser_items k e c (length X + (8 + psize c)) (length X + 8 + unat n) None s)
        (net L E D ?es (?X @ play False id c i o2 @ ?its (n_swap e) (dref F) @ Z))"
      using size NItems by (simp add: add.assoc)
    show ?thesis
    proof (cases c)
      case CTuple
      then show ?thesis
        using items fits NItems by (simp add: body_fits_def ser_body_def play_def psize_def puses_def)
    next
      case CObject
      have "run_ok (run_bind (ser_uri k e (length X + 8) None x) (ser_uri k e (length X + 12) None))
          (net L E D (adds e (buses b) es) (X @ le32 n @ le32 t @ blay (n_swap e) (dref F) b @ Z))"
        if "net L E D ?es (?X @ play False id c i o2 @ ?its (n_swap e) (dref F) @ Z) x" for x
        using that net_ref2 [of L E D ?es ?X i o2 "?its (n_swap e) (dref F) @ Z" x "length X + 8" "length X + 12" e F k] g'(2) r CObject NItems
        by (simp add: play_def puses_def)
      note after = this
      have "ser_body k e (length X) n kind s = run_bind
          (ser_items k e c (length X + (8 + psize c)) (length X + 8 + unat n) None s)
          (\<lambda>x. run_bind (ser_uri k e (length X + 8) None x) (ser_uri k e (length X + 12) None))"
        using fits NItems CObject by (simp add: body_fits_def ser_body_def psize_def)
      then show ?thesis using run_ok_bind [OF items after] by simp
    next
      case CSequence
      have "run_ok (run_bind (ser_uri k e (length X + 8) None x) (ser32 e (length X + 12)))
          (net L E D (adds e (buses b) es) (X @ le32 n @ le32 t @ blay (n_swap e) (dref F) b @ Z))"
        if x: "net L E D ?es (?X @ play False id c i o2 @ ?its (n_swap e) (dref F) @ Z) x" for x
      proof (rule run_ok_bind)
        show "run_ok (ser_uri k e (length X + 8) None x) (net L E D (add_uri e i ?es)
            ((?X @ w4 (n_swap e) (dref F i)) @ le32 o2 @ ?its (n_swap e) (dref F) @ Z))"
          using x net_ref [of L E D ?es ?X i "le32 o2 @ ?its (n_swap e) (dref F) @ Z" x _ e F k] g'(2) r CSequence
          by (simp add: play_def puses_def)
        fix y assume "net L E D (add_uri e i ?es)
            ((?X @ w4 (n_swap e) (dref F i)) @ le32 o2 @ ?its (n_swap e) (dref F) @ Z) y"
        then show "run_ok (ser32 e (length X + 12) y)
            (net L E D (adds e (buses b) es) (X @ le32 n @ le32 t @ blay (n_swap e) (dref F) b @ Z))"
          using net.ser32_at [of L E D _ "?X @ w4 (n_swap e) (dref F i)" o2 _ y "length X + 12" e] CSequence NItems
          by (simp add: play_def puses_def)
      qed
      note after = this
      have "ser_body k e (length X) n kind s = run_bind
          (ser_items k e c (length X + (8 + psize c)) (length X + 8 + unat n) None s)
          (\<lambda>x. run_bind (ser_uri k e (length X + 8) None x) (ser32 e (length X + 12)))"
        using fits NItems CSequence by (simp add: body_fits_def ser_body_def psize_def)
      then show ?thesis using run_ok_bind [OF items after] by simp
    qed
  qed
qed

text \<open>What a host promises of the types it knows: their URIDs have the URIs of the code's constants.\<close>

definition known_ok :: "netatom \<Rightarrow> bool" where
  "known_ok e \<longleftrightarrow> (\<forall>\<kappa>. n_unmap e (n_type e \<kappa>) = Some (n_uri e \<kappa>))"

lemma ser_kind_type: "ser_kind e t = Some \<kappa> \<Longrightarrow> t = n_type e \<kappa>"
  unfolding ser_kind_def find_Some_iff by auto

lemma atom_ok_Suc:
  assumes none: "none_ok L E D F e k" and room: "room L E (D + dsize F)" and known: "known_ok e"
  shows "atom_ok L E D F e (Suc k)"
  unfolding atom_ok_def
proof (intro allI impI)
  fix a es X Z s
  assume wf: "nwf (ser_kind e) a" and net: "net L E D es (X @ lay False id a @ Z) s"
    and g: "grows e (adds e (uses a) es) F" and k: "ncost a + length F < Suc k"
  obtain t b where a: "a = NAtom t b" by (cases a)
  let ?n = "of_nat (bsize b) :: u32" and ?sw = "n_swap e" and ?p = "length X"
  let ?es = "adds e (buses b) es" and ?B = "blay (n_swap e) (dref F) b"
  let ?finish = "\<lambda>s. run_bind (ser32 e ?p s) (ser_uri k e (?p + 4) (map_option (n_uri e) (ser_kind e t)))"
  have net': "net L E D es (X @ le32 ?n @ le32 t @ blay False id b @ Z) s" using net a by simp
  have g': "grows e (add_uri e t ?es) F" using g a by simp
  have ready: "length F < k" using k a by simp
  have rd: "rd32 ?p s = Done ?n" "rd32 (?p + 4) s = Done t"
    using net' by (auto intro: net.rd32_at [where X = X] net.rd32_at [where X = "X @ le32 ?n"])
  have uri: "map_option (n_uri e) (ser_kind e t) = None \<or> map_option (n_uri e) (ser_kind e t) = n_unmap e t"
    using known by (cases "ser_kind e t") (auto simp: known_ok_def dest: ser_kind_type)
  have body: "run_ok (ser_body k e ?p ?n (ser_kind e t) s) (net L E D ?es (X @ le32 ?n @ le32 t @ ?B @ Z))"
    using wf a net' grows_add [OF g'] k by (intro net_ser_body [OF none room]) simp_all
  have "run_ok (?finish x) (net L E D (add_uri e t ?es) ((X @ w4 ?sw ?n) @ w4 ?sw (dref F t) @ ?B @ Z))"
    if "net L E D ?es (X @ le32 ?n @ le32 t @ ?B @ Z) x" for x
  proof (rule run_ok_bind)
    show "run_ok (ser32 e ?p x) (net L E D ?es ((X @ w4 ?sw ?n) @ le32 t @ ?B @ Z))"
      using net.ser32_at [OF that] by simp
    fix y assume "net L E D ?es ((X @ w4 ?sw ?n) @ le32 t @ ?B @ Z) y"
    then show "run_ok (ser_uri k e (?p + 4) (map_option (n_uri e) (ser_kind e t)) y)
        (net L E D (add_uri e t ?es) ((X @ w4 ?sw ?n) @ w4 ?sw (dref F t) @ ?B @ Z))"
      by (intro net_ser_uri [OF _ _ g' room ready uri]) simp_all
  qed
  note run_ok_bind [OF body this]
  then show "run_ok (ser_atom (Suc k) e ?p s) (net L E D (adds e (uses a) es) (X @ lay ?sw (dref F) a @ Z))"
    unfolding ser_atom_Suc rd run_bind_simps by (simp add: a)
qed

lemma ser_all_ok:
  assumes "room L E (D + dsize F)" and "known_ok e"
  shows "atom_ok L E D F e k \<and> items_ok L E D F e k \<and> none_ok L E D F e k"
proof (induction k)
  case 0
  show ?case by (simp add: atom_ok_def items_ok_def none_ok_def)
next
  case (Suc k)
  then show ?case using atom_ok_Suc [OF _ assms] items_ok_Suc [OF _ _ assms(1)] none_ok_Suc [OF _ assms(1)] by blast
qed

section \<open>The dictionary gets ready\<close>

definition cleared :: "u32 \<times> u8 list \<Rightarrow> u32" where
  "cleared p = 0"

lemma cleared_apply: "cleared (k, u) = 0"
  by (simp add: cleared_def)

definition entries_ok :: "nstate \<Rightarrow> netatom \<Rightarrow> nat \<Rightarrow> bool" where
  "entries_ok s0 e k \<longleftrightarrow> (\<forall>P p es Z s ptr.
     held s0 (P @ dent False cleared p @ dlay False fst es @ Z) s \<longrightarrow> ptr = length P + esize p \<longrightarrow>
     ncur s0 = ptr + dsize es \<longrightarrow> length es + 1 < k \<longrightarrow>
     run_ok (ser_dict k e ptr (Some (length P)) s)
       (held s0 (P @ dent (n_swap e) cleared p @ dlay (n_swap e) cleared es @ Z)))"

lemma held_fields: "held s0 B s \<Longrightarrow> ncur s = ncur s0 \<and> ndict s = ndict s0 \<and> nover s = nover s0 \<and> length (nbuf s) = length (nbuf s0)"
  unfolding held_def by (metis nstate.select_convs(2,3,5) nstate.surjective nstate.update_convs(1))

lemma held_ser_rest:
  assumes ok: "entries_ok s0 e k" and held: "held s0 (P @ dlay False fst es @ Z) s" and p: "ptr = length P"
    and cur: "ncur s0 = ptr + dsize es" "ncur s0 < 2147483648" and k: "length es < k"
  shows "run_ok
    (if ncur s \<le> ptr then Done s
     else run_bind (wr (ptr + 4) (le32 0) s) (\<lambda>s.
          run_bind (rd32 ptr s) (\<lambda>n. ser_dict k e (ptr + unat (total_pad n)) (Some ptr) s)))
    (held s0 (P @ dlay (n_swap e) cleared es @ Z))"
proof (cases es)
  case Nil
  then show ?thesis using held held_fields [OF held] cur by simp
next
  case (Cons q fs)
  obtain key u where q: "q = (key, u)" by (cases q)
  let ?n = "of_nat (length u + 1) :: u32" and ?W = "pad_to8 (u @ [0]) @ dlay False fst fs @ Z"
  have cur': "\<not> ncur s \<le> ptr" using held_fields [OF held] cur Cons esize_ge [of q] by simp
  have "held s0 ((P @ le32 ?n) @ le32 key @ ?W) s" using held Cons q by (simp add: dent_def)
  from held.wr_at [OF this, of "ptr + 4" "le32 0"]
  have clear: "run_ok (wr (ptr + 4) (le32 0) s) (held s0 (P @ le32 ?n @ le32 0 @ ?W))" using p by simp
  have next_entry: "run_ok (run_bind (rd32 ptr t) (\<lambda>n. ser_dict k e (ptr + unat (total_pad n)) (Some ptr) t))
      (held s0 (P @ dlay (n_swap e) cleared es @ Z))"
    if t: "held s0 (P @ le32 ?n @ le32 0 @ ?W) t" for t
  proof -
    have "rd32 ptr t = Done ?n" using held.rd32_at [OF t p] .
    moreover have "unat (total_pad ?n) = esize q"
      unfolding q by (rule unat_entry_pad) (use cur Cons q esize_gt [of q] in simp)
    moreover have "run_ok (ser_dict k e (ptr + esize q) (Some (length P)) t)
        (held s0 (P @ dent (n_swap e) cleared q @ dlay (n_swap e) cleared fs @ Z))"
      using ok [unfolded entries_ok_def, rule_format, of P q fs Z t] t q p cur k Cons
      by (simp add: dent_def cleared_apply)
    ultimately show ?thesis using p Cons by simp
  qed
  from run_ok_bind [OF clear next_entry] show ?thesis using cur' by simp
qed

lemma entries_ok_all: "ncur s0 < 2147483648 \<Longrightarrow> entries_ok s0 e k"
proof (induction k)
  case 0
  show ?case by (simp add: entries_ok_def)
next
  case (Suc k)
  show ?case
    unfolding entries_ok_def
  proof (intro allI impI)
    fix P p es Z s ptr
    assume held: "held s0 (P @ dent False cleared p @ dlay False fst es @ Z) s" and ptr: "ptr = length P + esize p"
      and cur: "ncur s0 = ptr + dsize es" and k: "length es + 1 < Suc k"
    let ?P = "P @ dent (n_swap e) cleared p"
    have "run_ok (ser32 e (length P) s) (held s0 (?P @ dlay False fst es @ Z))"
      using held held.ser32_at [of s0 P "of_nat (length (snd p) + 1)" _ s "length P" e] by (simp add: dent_def)
    then have "run_ok (run_bind (ser32 e (length P) s) (\<lambda>s. if ncur s \<le> ptr then Done s
      else run_bind (wr (ptr + 4) (le32 0) s) (\<lambda>s.
           run_bind (rd32 ptr s) (\<lambda>n. ser_dict k e (ptr + unat (total_pad n)) (Some ptr) s))))
      (held s0 (?P @ dlay (n_swap e) cleared es @ Z))"
      by (rule run_ok_bind) (rule held_ser_rest [OF Suc.IH [OF Suc.prems]], use ptr cur k Suc.prems in simp_all)
    then show "run_ok (ser_dict (Suc k) e ptr (Some (length P)) s)
       (held s0 (P @ dent (n_swap e) cleared p @ dlay (n_swap e) cleared es @ Z))" by simp
  qed
qed

lemma held_ser_dict:
  assumes "held s0 (P @ dlay False fst es @ Z) s" and "ncur s0 = length P + dsize es"
    and "ncur s0 < 2147483648" and "length es < k"
  shows "run_ok (ser_dict (Suc k) e (length P) None s) (held s0 (P @ dlay (n_swap e) cleared es @ Z))"
  using held_ser_rest [OF entries_ok_all assms(1) refl] assms by simp

section \<open>The interface\<close>

lemma add_uri_keys:
  "\<forall>(k, u) \<in> set es. k \<noteq> 0 \<and> n_unmap e k = Some u \<Longrightarrow> \<forall>(k, u) \<in> set (add_uri e v es). k \<noteq> 0 \<and> n_unmap e k = Some u"
  by (cases e v es rule: add_uri_cases) auto

lemma adds_keys:
  "\<forall>(k, u) \<in> set es. k \<noteq> 0 \<and> n_unmap e k = Some u \<Longrightarrow> \<forall>(k, u) \<in> set (adds e vs es). k \<noteq> 0 \<and> n_unmap e k = Some u"
proof (induction vs arbitrary: es)
  case Nil
  then show ?case by simp
next
  case (Cons v vs)
  show ?case unfolding adds_simps by (rule Cons.IH) (rule add_uri_keys [OF Cons.prems])
qed

lemma grows_adds_refl: "grows e (adds e vs []) (adds e vs [])"
  using adds_keys [of "[]" e vs] by (simp add: grows_def)

text \<open>The dictionary an atom gets\<close>

definition dict_of :: "netatom \<Rightarrow> natom \<Rightarrow> dict" where
  "dict_of e a = adds e (uses a) []"

text \<open>What is sent: the atom, its padding and the dictionary\<close>

definition net_wire :: "netatom \<Rightarrow> natom \<Rightarrow> u8 list \<Rightarrow> u8 list" where
  "net_wire e a pad = lay (n_swap e) (dref (dict_of e a)) a @ pad @ dlay (n_swap e) cleared (dict_of e a)"

lemma net_wire_length: "length pad = up8 (nsize a) - nsize a \<Longrightarrow> length (net_wire e a pad) = up8 (nsize a) + dsize (dict_of e a)"
  using up8_ge [of "nsize a"] by (simp add: net_wire_def)

lemma serialize_exact:
  assumes wf: "nwf (ser_kind e) a" and known: "known_ok e" and pad: "length pad = up8 (nsize a) - nsize a"
    and buf: "buf = lay False id a @ pad @ R" and room: "room (length buf) size_rx (length (net_wire e a pad))"
    and k: "length buf \<le> k"
  shows "\<exists>R'. length R' + length (net_wire e a pad) = length buf \<and>
    netatom_serialize k e buf size_rx = Done (net_wire e a pad @ R', Some (length (net_wire e a pad)))"
proof -
  let ?F = "dict_of e a" and ?D = "up8 (nsize a)" and ?sw = "n_swap e"
  let ?s = "\<lparr>nbuf = buf, ndict = ?D, ncur = ?D, nend = size_rx, nover = False\<rparr>"
  let ?A = "lay ?sw (dref ?F) a @ pad"
  have room': "room (length buf) size_rx (?D + dsize ?F)" using room net_wire_length [OF pad] by simp
  have le: "nsize a \<le> ?D" "?D + dsize ?F + 8 \<le> length buf" "length buf < 2147483648"
    using up8_ge room' by (simp_all add: room_def)
  obtain t b where a: "a = NAtom t b" by (cases a)
  have b: "bsize b < 2147483648" "?D = 8 + up8 (bsize b)" using le a up8_add8 [of "bsize b"] by simp_all
  have size: "rd32 0 \<lparr>nbuf = buf, ndict = 0, ncur = 0, nend = 0, nover = False\<rparr> = Done (of_nat (bsize b))"
    by (simp add: rd32_def part_def buf a le32_def)
  have tot: "unat (total_pad (of_nat (bsize b))) = ?D" using b unat_total_pad by simp
  have net0: "net (length buf) size_rx ?D [] ([] @ lay False id a @ pad) ?s"
    using pad le by (simp add: net_def buf)
  have g: "grows e (adds e (uses a) []) ?F" unfolding dict_of_def by (rule grows_adds_refl)
  have fuel: "ncost a + length ?F < k" "length ?F < k - 1" "k = Suc (k - 1)"
    using ncost_le(1) [of a] dsize_ge [of ?F] le k by simp_all
  have atom: "run_ok (ser_atom k e 0 ?s) (net (length buf) size_rx ?D ?F ?A)"
    using ser_all_ok [OF room' known, of k] wf net0 g fuel(1) unfolding atom_ok_def dict_of_def
    by (metis append_Nil list.size(3))
  have dict: "run_ok (ser_dict k e ?D None s) (held s (net_wire e a pad))"
    if s: "net (length buf) size_rx ?D ?F ?A s" for s
  proof -
    have "run_ok (ser_dict (Suc (k - 1)) e (length ?A) None s) (held s (?A @ dlay ?sw cleared ?F @ []))"
      by (rule held_ser_dict) (use net_held [OF s] s fuel le in \<open>simp_all add: net_def\<close>)
    then show ?thesis using fuel(3) pad le by (simp add: net_wire_def)
  qed
  obtain s where s: "ser_atom k e 0 ?s = Done s" "net (length buf) size_rx ?D ?F ?A s"
    using atom by (auto simp: run_ok_def)
  obtain s' where s': "ser_dict k e ?D None s = Done s'" "held s (net_wire e a pad) s'"
    using dict [OF s(2)] by (auto simp: run_ok_def)
  have f: "ncur s' = ?D + dsize ?F" "ndict s' = ?D" "\<not> nover s'" "length (nbuf s') = length buf"
    using held_fields [OF s'(2)] s(2) by (simp_all add: net_def)
  have "netatom_serialize k e buf size_rx = Done (nbuf s', Some (length (net_wire e a pad)))"
    using s s' f by (simp add: netatom_serialize_def size tot Let_def net_wire_length [OF pad])
  moreover have "nbuf s' = net_wire e a pad @ drop (length (net_wire e a pad)) (nbuf s')"
    using s'(2) unfolding held_def by (metis append_take_drop_id)
  moreover have "length (net_wire e a pad) \<le> length (nbuf s')" using s'(2) by (simp add: held_def)
  ultimately show ?thesis using f(4) by (metis le_add_diff_inverse2 length_drop)
qed

end
