(* ===== verification/Netatom_Deserialize.thy ===== *)
theory Netatom_Deserialize
  imports Netatom_Serialize
begin

text \<open>
  Deserialising: first the entries of the dictionary \<open>F\<close> get the URIDs of the receiver (\<open>hkey\<close>),
  then every reference in the atom is replaced by what its entry has (\<open>look\<close>).
\<close>

section \<open>The dictionary\<close>

definition hkey :: "netatom \<Rightarrow> u32 \<times> u8 list \<Rightarrow> u32" where
  "hkey e p = n_map e (snd p)"

lemma hkey_apply: "hkey e (k, u) = n_map e u"
  by (simp add: hkey_def)

definition look :: "netatom \<Rightarrow> dict \<Rightarrow> u32 \<Rightarrow> u32" where
  "look e F u = (case map_of F u of None \<Rightarrow> 0 | Some x \<Rightarrow> n_map e x)"

lemma str_at_held:
  assumes "held s0 (P @ u @ 0 # Z) s" and "0 \<notin> set u"
  shows "str_at (length P) s = Done u"
proof -
  have "nbuf s = (P @ u @ 0 # Z) @ drop (length (P @ u @ 0 # Z)) (nbuf s)"
    using assms(1) unfolding held_def by (metis append_take_drop_id)
  then have "drop (length P) (nbuf s) = u @ 0 # Z @ drop (length (P @ u @ 0 # Z)) (nbuf s)"
    by (metis append.assoc append_Cons append_eq_conv_conj)
  moreover have "takeWhile (\<lambda>b. b \<noteq> 0) (u @ 0 # zs) = u" for zs
    using assms(2) by (subst takeWhile_append2) auto
  ultimately show ?thesis by (simp add: str_at_def)
qed

lemma held_deser_dict:
  assumes "held s0 (P @ dlay (n_swap e) cleared es @ Z) s" and "ptr = length P"
    and "ncur s0 = length P + dsize es" and "ncur s0 < 2147483648" and "length es < k"
    and "\<forall>p \<in> set es. 0 \<notin> set (snd p)"
  shows "run_ok (deser_dict k e ptr s) (held s0 (P @ dlay False (hkey e) es @ Z))"
  using assms
proof (induction es arbitrary: P k ptr s)
  case Nil
  then show ?case using held_fields [OF Nil.prems(1)] by (cases k) simp_all
next
  case (Cons p es)
  obtain key u where p: "p = (key, u)" by (cases p)
  obtain j where k: "k = Suc j" using Cons.prems(5) by (cases k) auto
  let ?n = "of_nat (length u + 1) :: u32" and ?U = "pad_to8 (u @ [0])"
  let ?W = "dlay (n_swap e) cleared es @ Z"
  have cur: "\<not> ncur s \<le> ptr"
    using held_fields [OF Cons.prems(1)] Cons.prems(2,3) esize_ge [of p] by simp
  have u: "\<exists>zs. ?U = u @ 0 # zs" by (simp add: pad_to8_def)
  have "run_ok (deser32 e ptr s) (held s0 (P @ le32 ?n @ le32 0 @ ?U @ ?W))"
    by (rule held.deser32_at [OF _ Cons.prems(2)]) (use Cons.prems(1) p in \<open>simp add: dent_def cleared_apply\<close>)
  moreover have "run_ok (run_bind (str_at (ptr + 8) t) (\<lambda>u. run_bind (wr (ptr + 4) (le32 (n_map e u)) t)
      (\<lambda>s. run_bind (rd32 ptr s) (\<lambda>n. deser_dict j e (ptr + unat (total_pad n)) s))))
    (held s0 (P @ dlay False (hkey e) (p # es) @ Z))"
    if t: "held s0 (P @ le32 ?n @ le32 0 @ ?U @ ?W) t" for t
  proof -
    obtain zs where "?U = u @ 0 # zs" using u ..
    then have str: "str_at (ptr + 8) t = Done u"
      using str_at_held [of s0 "P @ le32 ?n @ le32 0" u "zs @ ?W" t] t p Cons.prems(2,6) by simp
    have key: "run_ok (wr (ptr + 4) (le32 (n_map e u)) t) (held s0 (P @ le32 ?n @ le32 (n_map e u) @ ?U @ ?W))"
      using held.wr_at [of s0 "P @ le32 ?n" "le32 0" "?U @ ?W" t "ptr + 4" "le32 (n_map e u)"] t Cons.prems(2) by simp
    have rest: "run_ok (run_bind (rd32 ptr x) (\<lambda>n. deser_dict j e (ptr + unat (total_pad n)) x))
        (held s0 (P @ dlay False (hkey e) (p # es) @ Z))"
      if x: "held s0 (P @ le32 ?n @ le32 (n_map e u) @ ?U @ ?W) x" for x
    proof -
      have "rd32 ptr x = Done ?n" using held.rd32_at [OF x Cons.prems(2)] .
      moreover have "unat (total_pad ?n) = esize p"
        unfolding p by (rule unat_entry_pad) (use Cons.prems(3,4) esize_gt [of p] p in simp)
      moreover have x': "held s0 ((P @ dent False (hkey e) p) @ ?W) x"
        using x p by (simp add: dent_def hkey_apply)
      have "run_ok (deser_dict j e (ptr + esize p) x)
          (held s0 ((P @ dent False (hkey e) p) @ dlay False (hkey e) es @ Z))"
        by (rule Cons.IH [OF x']) (use Cons.prems(2-6) k in simp_all)
      ultimately show ?thesis by simp
    qed
    show ?thesis unfolding str run_bind_simps by (rule run_ok_bind [OF key rest])
  qed
  ultimately show ?case using cur by (simp add: k run_ok_bind)
qed

section \<open>References\<close>

text \<open>The part before the dictionary is known, and the dictionary has the keys of the receiver.\<close>

definition dheld :: "netatom \<Rightarrow> nstate \<Rightarrow> dict \<Rightarrow> u8 list \<Rightarrow> nstate \<Rightarrow> bool" where
  "dheld e s0 F A s \<longleftrightarrow> length A = ndict s0 \<and> held s0 (A @ dlay False (hkey e) F) s"

interpretation dheld: view "dheld e s0 F" for e s0 F
proof
  fix B s assume "dheld e s0 F B s"
  then have "held s0 ([] @ B @ dlay False (hkey e) F) s" by (simp add: dheld_def)
  from held.part_at [OF this] held.H_take [OF this]
  show "length B \<le> length (nbuf s) \<and> take (length B) (nbuf s) = B" by (simp add: part_def)
next
  fix X ys Z s and bs :: "u8 list"
  assume "dheld e s0 F (X @ ys @ Z) s" "length bs = length ys"
  then show "dheld e s0 F (X @ bs @ Z) (s\<lparr>nbuf := overwrite (length X) bs (nbuf s)\<rparr>)"
    using held.H_wr [of s0 X ys "Z @ dlay False (hkey e) F" s bs] by (simp add: dheld_def)
qed

lemma dlay_split:
  "map_of F u = Some x \<Longrightarrow> \<exists>zs. dlay sw f F = dlay sw f (takeWhile (\<lambda>p. fst p \<noteq> u) F) @ dent sw f (u, x) @ zs"
  by (induction F) auto

lemma htobe32_0 [simp]: "htobe32 v = 0 \<longleftrightarrow> v = 0"
proof
  assume "htobe32 v = 0"
  then have "be32toh (htobe32 v) = be32toh 0" by simp
  moreover have "be32toh 0 = 0" by (simp add: be32toh_def be32_def de32_def)
  ultimately show "v = 0" by simp
qed (simp add: htobe32_def be32_def de32_def)

lemma deser_uri_at:
  assumes held: "dheld e s0 F (X @ w4 (n_swap e) (dref F u) @ Z) s" and p: "p = length X"
    and bound: "dsize F < 2147483648"
  shows "run_ok (deser_uri e p s) (dheld e s0 F (X @ le32 (look e F u) @ Z))"
proof -
  let ?v = "if n_swap e then htobe32 (dref F u) else dref F u"
  have "w4 (n_swap e) (dref F u) = le32 ?v" by (simp add: w4_def)
  then have held': "dheld e s0 F (X @ le32 ?v @ Z) s" using held by simp
  then have v: "rd32 p s = Done ?v" using p by (rule dheld.rd32_at)
  show ?thesis
  proof (cases "map_of F u")
    case None
    have "dref F u = 0" "look e F u = 0" by (use None in \<open>simp add: dref_def map_of_eq_None_iff\<close>) (simp add: look_def None)
    moreover have "?v = 0" using calculation(1) by simp
    ultimately show ?thesis using held' v by (simp only: deser_uri_def run_bind_simps simp_thms if_True run_ok_Done)
  next
    case (Some x)
    let ?b = "dlay False (hkey e) (takeWhile (\<lambda>p. fst p \<noteq> u) F)"
    obtain zs where zs: "dlay False (hkey e) F = ?b @ dent False (hkey e) (u, x) @ zs" using dlay_split [OF Some] by blast
    then have "length (dlay False (hkey e) F) = length (?b @ dent False (hkey e) (u, x) @ zs)" by (rule arg_cong)
    then have pos: "dpos F u + 16 \<le> dsize F" using esize_ge [of "(u, x)"] by (simp add: dpos_def)
    have ref: "dref F u = of_nat (dpos F u + 1)"
      using map_of_SomeD [OF Some] by (force simp: dref_def)
    then have n0: "dref F u \<noteq> 0" using pos bound unat_of_nat_small [where 'w = 32, of "dpos F u + 1"] by auto
    have idx: "unat (dref F u - 1) = dpos F u"
      using pos bound unat_of_nat_small [where 'w = 32, of "dpos F u"] by (simp add: ref)
    have entry: "held s0 ((X @ le32 ?v @ Z @ ?b @ le32 (of_nat (length x + 1))) @ le32 (n_map e x) @ pad_to8 (x @ [0]) @ zs) s"
      using held' zs by (simp add: dheld_def dent_def hkey_apply)
    have "ndict s = length X + 4 + length Z"
      using held' held_fields by (fastforce simp: dheld_def)
    then have "rd32 (ndict s + dpos F u + 4) s = Done (n_map e x)"
      by (intro held.rd32_at [OF entry]) (simp add: dpos_def)
    then show ?thesis
      using v n0 idx Some dheld.wr_at [OF held' p, of "le32 (n_map e x)"] by (simp add: deser_uri_def Let_def look_def)
  qed
qed

lemma deser_uri2_at:
  assumes held: "dheld e s0 F (X @ w4 (n_swap e) (dref F u) @ w4 (n_swap e) (dref F w) @ Z) s"
    and p: "p = length X" "q = length X + 4" and bound: "dsize F < 2147483648"
  shows "run_ok (run_bind (deser_uri e p s) (deser_uri e q)) (dheld e s0 F (X @ le32 (look e F u) @ le32 (look e F w) @ Z))"
proof (rule run_ok_bind [OF deser_uri_at [OF held p(1) bound]])
  fix t assume "dheld e s0 F (X @ le32 (look e F u) @ w4 (n_swap e) (dref F w) @ Z) t"
  then show "run_ok (deser_uri e q t) (dheld e s0 F (X @ le32 (look e F u) @ le32 (look e F w) @ Z))"
    using deser_uri_at [of e s0 F "X @ le32 (look e F u)" w Z t q] p bound by simp
qed

section \<open>Atoms and items\<close>

definition types_known :: "netatom \<Rightarrow> dict \<Rightarrow> u32 \<Rightarrow> known option" where
  "types_known e F t = deser_kind e (look e F t)"

definition datom_ok :: "netatom \<Rightarrow> nstate \<Rightarrow> dict \<Rightarrow> nat \<Rightarrow> bool" where
  "datom_ok e s0 F k \<longleftrightarrow> (\<forall>a X Z s.
     nwf (types_known e F) a \<longrightarrow> dheld e s0 F (X @ lay (n_swap e) (dref F) a @ Z) s \<longrightarrow> ncost a < k \<longrightarrow>
     run_ok (deser_atom k e (length X) s) (dheld e s0 F (X @ lay False (look e F) a @ Z)))"

definition ditems_ok :: "netatom \<Rightarrow> nstate \<Rightarrow> dict \<Rightarrow> nat \<Rightarrow> bool" where
  "ditems_ok e s0 F k \<longleftrightarrow> (\<forall>c its X Z s i.
     list_all (\<lambda>i. head_fits c (item_head i)) its \<longrightarrow> list_all (iwf (types_known e F)) its \<longrightarrow>
     dheld e s0 F (X @ concat (map (ilay (n_swap e) (dref F)) its) @ Z) s \<longrightarrow>
     Suc (sum_list (map icost its)) < k \<longrightarrow> i = length X \<longrightarrow>
     run_ok (deser_items k e c i (i + sum_list (map isize its)) s)
       (dheld e s0 F (X @ concat (map (ilay False (look e F)) its) @ Z)))"

definition deser_body :: "nat \<Rightarrow> netatom \<Rightarrow> nat \<Rightarrow> u32 \<Rightarrow> known option \<Rightarrow> nstate \<Rightarrow> nstate run" where
  "deser_body k e p n kind s =
     (case kind of
        Some KBool \<Rightarrow> deser32 e (p + 8) s
      | Some KInt \<Rightarrow> deser32 e (p + 8) s
      | Some KFloat \<Rightarrow> deser32 e (p + 8) s
      | Some KLong \<Rightarrow> deser64 e (p + 8) s
      | Some KDouble \<Rightarrow> deser64 e (p + 8) s
      | Some KURID \<Rightarrow> deser_uri e (p + 8) s
      | Some KLiteral \<Rightarrow> run_bind (deser_uri e (p + 8) s) (deser_uri e (p + 12))
      | Some KObject \<Rightarrow> run_bind (run_bind (deser_uri e (p + 8) s) (deser_uri e (p + 12)))
          (deser_items k e CObject (p + 16) (p + 8 + unat n))
      | Some KTuple \<Rightarrow> deser_items k e CTuple (p + 8) (p + 8 + unat n) s
      | Some KSequence \<Rightarrow> run_bind (run_bind (deser_uri e (p + 8) s) (deser32 e (p + 12)))
          (deser_items k e CSequence (p + 16) (p + 8 + unat n))
      | Some KVector \<Rightarrow> deser_vector e p n s
      | _ \<Rightarrow> Done s)"

lemma deser_atom_Suc:
  "deser_atom (Suc k) e p s =
     run_bind (run_bind (deser32 e p s) (deser_uri e (p + 4))) (\<lambda>s. run_bind (rd32 (p + 4) s) (\<lambda>t. run_bind (rd32 p s) (\<lambda>n.
       deser_body k e p n (deser_kind e t) s)))"
  by (simp add: deser_body_def cong: option.case_cong known.case_cong)

lemma deser_elems_at:
  assumes "b = NVec4 ct vs4 \<and> c = 4 \<and> B = concat (map (w4 True) vs4) \<and> B' = concat (map (w4 False) vs4)
    \<or> b = NVec8 ct vs8 \<and> c = 8 \<and> B = concat (map (w8 True) vs8) \<and> B' = concat (map (w8 False) vs8)
    \<or> b = NVecs c ct bs \<and> c \<noteq> 4 \<and> c \<noteq> 8 \<and> B = bs \<and> B' = bs"
    and "n = of_nat (bsize b)" "bsize b < 2147483648" "n_swap e"
    and "dheld e s0 F (X @ B @ Z) s" and "q = length X"
  shows "run_ok
      (if c = 4 then each32 (deser32 e) 4 q (vector_elems n 4) s
       else if c = 8 then each32 (deser64 e) 8 q (vector_elems n 8) s else Done s)
      (dheld e s0 F (X @ B' @ Z))"
  using assms(1)
proof (elim disjE conjE)
  assume v: "b = NVec4 ct vs4" "c = 4" "B = concat (map (w4 True) vs4)" "B' = concat (map (w4 False) vs4)"
  have "run_ok (each32 (deser32 e) 4 q (length vs4) s) (dheld e s0 F (X @ B' @ Z))"
    unfolding v using assms(4-6) v dheld.deser32_at [where e = e] by (intro dheld.each32_at) auto
  then show ?thesis using assms(2,3) v vector_elems4 [of "length vs4"] by simp
next
  assume v: "b = NVec8 ct vs8" "c = 8" "B = concat (map (w8 True) vs8)" "B' = concat (map (w8 False) vs8)"
  have "run_ok (each32 (deser64 e) 8 q (length vs8) s) (dheld e s0 F (X @ B' @ Z))"
    unfolding v using assms(4-6) v dheld.deser64_at [where e = e] by (intro dheld.each32_at) auto
  then show ?thesis using assms(2,3) v vector_elems8 [of "length vs8"] by simp
next
  assume "c \<noteq> 4" "c \<noteq> 8" "B = bs" "B' = bs"
  then show ?thesis using assms by simp
qed

lemma deser_vector_at:
  assumes held: "dheld e s0 F (X @ le32 n @ le32 t @ w4 (n_swap e) c @ w4 (n_swap e) (dref F ct) @ B @ Z) s"
    and p: "p = length X" and bound: "dsize F < 2147483648"
    and elems: "\<And>s. n_swap e \<Longrightarrow> dheld e s0 F ((X @ le32 n @ le32 t @ le32 c @ le32 (look e F ct)) @ B @ Z) s \<Longrightarrow> run_ok
      (if c = 4 then each32 (deser32 e) 4 (p + 16) (vector_elems n 4) s
       else if c = 8 then each32 (deser64 e) 8 (p + 16) (vector_elems n 8) s else Done s)
      (dheld e s0 F ((X @ le32 n @ le32 t @ le32 c @ le32 (look e F ct)) @ B' @ Z))"
    and same: "\<not> n_swap e \<Longrightarrow> B' = B"
  shows "run_ok (deser_vector e p n s) (dheld e s0 F (X @ le32 n @ le32 t @ le32 c @ le32 (look e F ct) @ B' @ Z))"
proof -
  let ?X = "X @ le32 n @ le32 t"
  have uri: "run_ok (deser_uri e (p + 12) s) (dheld e s0 F (?X @ w4 (n_swap e) c @ le32 (look e F ct) @ B @ Z))"
    using deser_uri_at [of e s0 F "?X @ w4 (n_swap e) c" ct "B @ Z" s "p + 12"] held p bound by simp
  show ?thesis
  proof (cases "n_swap e")
    case False
    with uri same show ?thesis by (simp add: deser_vector_def run_ok_bind)
  next
    case True
    have size: "run_ok (deser32 e (p + 8) x) (dheld e s0 F (?X @ le32 c @ le32 (look e F ct) @ B @ Z))"
      if "dheld e s0 F (?X @ w4 (n_swap e) c @ le32 (look e F ct) @ B @ Z) x" for x
      by (rule dheld.deser32_at [OF that]) (simp add: p)
    have rest: "run_ok (run_bind (rd32 (p + 8) x) (\<lambda>c.
        if c = 4 then each32 (deser32 e) 4 (p + 16) (vector_elems n 4) x
        else if c = 8 then each32 (deser64 e) 8 (p + 16) (vector_elems n 8) x else Done x))
      (dheld e s0 F (X @ le32 n @ le32 t @ le32 c @ le32 (look e F ct) @ B' @ Z))"
      if x: "dheld e s0 F (?X @ le32 c @ le32 (look e F ct) @ B @ Z) x" for x
    proof -
      have "rd32 (p + 8) x = Done c" by (rule dheld.rd32_at [OF x]) (simp add: p)
      then show ?thesis using elems [OF True, of x] x by simp
    qed
    show ?thesis unfolding deser_vector_def if_P [OF True]
      by (rule run_ok_bind [OF uri], rule run_ok_bind [OF size], assumption, rule rest)
  qed
qed

lemma deser_body_at:
  assumes items: "ditems_ok e s0 F k" and bound: "dsize F < 2147483648" "ndict s0 < 2147483648"
    and fits: "body_fits kind b" and wf: "bwf (types_known e F) b" and n: "n = of_nat (bsize b)"
    and held: "dheld e s0 F (X @ le32 n @ le32 t @ blay (n_swap e) (dref F) b @ Z) s"
    and k: "bcost b < k"
  shows "run_ok (deser_body k e (length X) n kind s) (dheld e s0 F (X @ le32 n @ le32 t @ blay False (look e F) b @ Z))"
proof -
  let ?X = "X @ le32 n @ le32 t" and ?sw = "n_swap e" and ?r = "dref F" and ?l = "look e F"
  have size: "unat n = bsize b" "bsize b < 2147483648"
    using held bound n by (simp_all add: dheld_def unat_of_nat)
  show ?thesis
  proof (cases b)
    case (NWord v)
    then show ?thesis using fits held dheld.deser32_at [of e s0 F ?X e v Z s] by (auto simp: body_fits_def deser_body_def)
  next
    case (NDword v)
    then show ?thesis using fits held dheld.deser64_at [of e s0 F ?X e v Z s] by (auto simp: body_fits_def deser_body_def)
  next
    case (NRef u)
    then show ?thesis using fits held deser_uri_at [of e s0 F ?X u Z s] bound by (auto simp: body_fits_def deser_body_def)
  next
    case (NLit d l bs)
    then show ?thesis
      using fits held deser_uri2_at [of e s0 F ?X d l "bs @ Z" s "length X + 8" "length X + 12"] bound
      by (auto simp: body_fits_def deser_body_def)
  next
    case (NBytes bs)
    then show ?thesis using fits held by (auto simp: body_fits_def deser_body_def)
  next
    case (NVec4 ct vs)
    then show ?thesis
      using fits held size n bound
        deser_vector_at [of e s0 F X n t 4 ct "concat (map (w4 ?sw) vs)" Z s "length X" "concat (map (w4 False) vs)"]
        deser_elems_at [of b ct vs 4 "concat (map (w4 True) vs)" "concat (map (w4 False) vs)" undefined undefined n e s0 F
          "?X @ le32 4 @ le32 (?l ct)" Z _ "length X + 16"]
      by (auto simp: body_fits_def deser_body_def)
  next
    case (NVec8 ct vs)
    then show ?thesis
      using fits held size n bound
        deser_vector_at [of e s0 F X n t 8 ct "concat (map (w8 ?sw) vs)" Z s "length X" "concat (map (w8 False) vs)"]
        deser_elems_at [of b ct undefined 8 "concat (map (w8 True) vs)" "concat (map (w8 False) vs)" vs undefined n e s0 F
          "?X @ le32 8 @ le32 (?l ct)" Z _ "length X + 16"]
      by (auto simp: body_fits_def deser_body_def)
  next
    case (NVecs c ct bs)
    then show ?thesis
      using fits held bound deser_vector_at [of e s0 F X n t c ct bs Z s "length X" bs]
      by (auto simp: body_fits_def deser_body_def)
  next
    case (NItems c i o2 its)
    let ?its = "\<lambda>sw r. concat (map (ilay sw r) its)"
    let ?W = "?X @ play False ?l c i o2"
    have its: "run_ok (deser_items k e c (length X + (8 + psize c)) (length X + 8 + unat n) x)
        (dheld e s0 F (X @ le32 n @ le32 t @ blay False ?l b @ Z))"
      if "dheld e s0 F (?W @ ?its ?sw ?r @ Z) x" for x
      using items [unfolded ditems_ok_def, rule_format, of c its ?W Z x "length ?W"] that fits wf k NItems size
      by (simp add: add.assoc)
    show ?thesis
    proof (cases c)
      case CTuple
      then show ?thesis
        using its [of s] held fits NItems by (simp add: body_fits_def deser_body_def play_def psize_def)
    next
      case CObject
      have "run_ok (run_bind (deser_uri e (length X + 8) s) (deser_uri e (length X + 12))) (dheld e s0 F (?W @ ?its ?sw ?r @ Z))"
        using held deser_uri2_at [of e s0 F ?X i o2 "?its ?sw ?r @ Z" s "length X + 8" "length X + 12"] bound NItems CObject
        by (simp add: play_def)
      note all = run_ok_bind [OF this its]
      have "deser_body k e (length X) n kind s = run_bind (run_bind (deser_uri e (length X + 8) s) (deser_uri e (length X + 12)))
          (deser_items k e c (length X + (8 + psize c)) (length X + 8 + unat n))"
        using fits NItems CObject by (simp add: body_fits_def deser_body_def psize_def)
      then show ?thesis using all by simp
    next
      case CSequence
      have "run_ok (deser_uri e (length X + 8) s) (dheld e s0 F ((?X @ le32 (?l i)) @ w4 ?sw o2 @ ?its ?sw ?r @ Z))"
        using held deser_uri_at [of e s0 F ?X i "w4 ?sw o2 @ ?its ?sw ?r @ Z" s "length X + 8"] bound NItems CSequence
        by (simp add: play_def)
      then have "run_ok (run_bind (deser_uri e (length X + 8) s) (deser32 e (length X + 12))) (dheld e s0 F (?W @ ?its ?sw ?r @ Z))"
      proof (rule run_ok_bind)
        fix x assume "dheld e s0 F ((?X @ le32 (?l i)) @ w4 ?sw o2 @ ?its ?sw ?r @ Z) x"
        from dheld.deser32_at [OF this, of "length X + 12"]
        show "run_ok (deser32 e (length X + 12) x) (dheld e s0 F (?W @ ?its ?sw ?r @ Z))"
          using CSequence by (simp add: play_def)
      qed
      note all = run_ok_bind [OF this its]
      have "deser_body k e (length X) n kind s = run_bind (run_bind (deser_uri e (length X + 8) s) (deser32 e (length X + 12)))
          (deser_items k e c (length X + (8 + psize c)) (length X + 8 + unat n))"
        using fits NItems CSequence by (simp add: body_fits_def deser_body_def psize_def)
      then show ?thesis using all by simp
    qed
  qed
qed

lemma datom_ok_Suc:
  assumes items: "ditems_ok e s0 F k" and bound: "dsize F < 2147483648" "ndict s0 < 2147483648"
  shows "datom_ok e s0 F (Suc k)"
  unfolding datom_ok_def
proof (intro allI impI)
  fix a X Z s
  assume wf: "nwf (types_known e F) a" and held: "dheld e s0 F (X @ lay (n_swap e) (dref F) a @ Z) s" and k: "ncost a < Suc k"
  obtain t b where a: "a = NAtom t b" by (cases a)
  let ?n = "of_nat (bsize b) :: u32" and ?p = "length X" and ?B = "blay (n_swap e) (dref F) b"
  have "run_ok (deser32 e ?p s) (dheld e s0 F ((X @ le32 ?n) @ w4 (n_swap e) (dref F t) @ ?B @ Z))"
    using dheld.deser32_at [of e s0 F X e ?n "w4 (n_swap e) (dref F t) @ ?B @ Z" s ?p] held a by simp
  then have head: "run_ok (run_bind (deser32 e ?p s) (deser_uri e (?p + 4)))
      (dheld e s0 F (X @ le32 ?n @ le32 (look e F t) @ ?B @ Z))"
    by (rule run_ok_bind)
      (use deser_uri_at [of e s0 F "X @ le32 ?n" t "?B @ Z" _ "?p + 4"] bound in simp)
  have "run_ok (run_bind (rd32 (?p + 4) x) (\<lambda>t. run_bind (rd32 ?p x) (\<lambda>n. deser_body k e ?p n (deser_kind e t) x)))
      (dheld e s0 F (X @ lay False (look e F) a @ Z))"
    if x: "dheld e s0 F (X @ le32 ?n @ le32 (look e F t) @ ?B @ Z) x" for x
  proof -
    have rd: "rd32 (?p + 4) x = Done (look e F t)" "rd32 ?p x = Done ?n"
      using x by (auto intro: dheld.rd32_at [where X = X] dheld.rd32_at [where X = "X @ le32 ?n"])
    have "run_ok (deser_body k e ?p ?n (deser_kind e (look e F t)) x)
        (dheld e s0 F (X @ le32 ?n @ le32 (look e F t) @ blay False (look e F) b @ Z))"
      by (rule deser_body_at [OF items bound _ _ refl x]) (use wf a k in \<open>simp_all add: types_known_def\<close>)
    then show ?thesis unfolding rd run_bind_simps by (simp add: a)
  qed
  from run_ok_bind [OF head this]
  show "run_ok (deser_atom (Suc k) e ?p s) (dheld e s0 F (X @ lay False (look e F) a @ Z))" unfolding deser_atom_Suc .
qed

text \<open>The head of an item: its URIDs come before its atom, its time after it.\<close>

definition before_atom :: "netatom \<Rightarrow> container \<Rightarrow> nat \<Rightarrow> nstate \<Rightarrow> nstate run" where
  "before_atom e c i s = (case c of CObject \<Rightarrow> run_bind (deser_uri e i s) (deser_uri e (i + 4)) | _ \<Rightarrow> Done s)"

definition after_atom :: "netatom \<Rightarrow> container \<Rightarrow> nat \<Rightarrow> nstate \<Rightarrow> nstate run" where
  "after_atom e c i s = (case c of CSequence \<Rightarrow> deser64 e i s | _ \<Rightarrow> Done s)"

lemma deser_items_Suc:
  "deser_items (Suc k) e c i stop s =
     (if stop \<le> i then Done s
      else run_bind (before_atom e c i s) (\<lambda>s.
           run_bind (deser_atom k e (i + item_off c) s) (\<lambda>s.
           run_bind (after_atom e c i s) (\<lambda>s.
           run_bind (rd32 (i + item_off c) s) (\<lambda>n.
             deser_items k e c (i + item_off c + 8 + unat (pad_size n)) stop s)))))"
  by (simp add: before_atom_def after_atom_def)

definition mid_lay :: "bool \<Rightarrow> (u32 \<Rightarrow> u32) \<Rightarrow> ihead \<Rightarrow> u8 list" where
  "mid_lay sw r h = (case h of HTime t \<Rightarrow> w8 sw t | _ \<Rightarrow> hlay False r h)"

lemma mid_lay_length [simp]: "length (mid_lay sw r h) = hsize h"
  by (cases h) (simp_all add: mid_lay_def hsize_def hlay_def)

lemma before_atom_at:
  "head_fits c h \<Longrightarrow> dheld e s0 F (X @ hlay (n_swap e) (dref F) h @ Z) s \<Longrightarrow> dsize F < 2147483648 \<Longrightarrow>
   run_ok (before_atom e c (length X) s) (dheld e s0 F (X @ mid_lay (n_swap e) (look e F) h @ Z))"
  using deser_uri2_at [of e s0 F X _ _ Z s "length X" "length X + 4"]
  by (cases h) (auto simp: head_fits_def before_atom_def hlay_def mid_lay_def)

lemma after_atom_at:
  "head_fits c h \<Longrightarrow> dheld e s0 F (X @ mid_lay (n_swap e) (look e F) h @ Z) s \<Longrightarrow>
   run_ok (after_atom e c (length X) s) (dheld e s0 F (X @ hlay False (look e F) h @ Z))"
  using dheld.deser64_at [of e s0 F X e _ Z s "length X"]
  by (cases h) (auto simp: head_fits_def after_atom_def hlay_def mid_lay_def)

lemma ditems_ok_Suc:
  assumes atom: "datom_ok e s0 F k" and items: "ditems_ok e s0 F k"
    and bound: "dsize F < 2147483648" "ndict s0 < 2147483648"
  shows "ditems_ok e s0 F (Suc k)"
  unfolding ditems_ok_def
proof (intro allI impI)
  fix c its X Z s i
  assume heads: "list_all (\<lambda>i. head_fits c (item_head i)) its" and wf: "list_all (iwf (types_known e F)) its"
    and held: "dheld e s0 F (X @ concat (map (ilay (n_swap e) (dref F)) its) @ Z) s"
    and k: "Suc (sum_list (map icost its)) < Suc k" and i: "i = length X"
  let ?sw = "n_swap e" and ?r = "dref F" and ?l = "look e F"
  let ?post = "dheld e s0 F (X @ concat (map (ilay False (look e F)) its) @ Z)"
  show "run_ok (deser_items (Suc k) e c i (i + sum_list (map isize its)) s) ?post"
  proof (cases its)
    case Nil
    then show ?thesis using held by (simp add: deser_items_Suc)
  next
    case (Cons it rest)
    obtain h a where it: "it = NItem h a" by (cases it)
    obtain t b where a: "a = NAtom t b" by (cases a)
    let ?pad = "replicate (up8 (nsize a) - nsize a) (0 :: u8)" and ?stop = "i + sum_list (map isize its)"
    let ?W = "\<lambda>sw r. ?pad @ concat (map (ilay sw r) rest) @ Z"
    have h: "head_fits c h" "item_off c = hsize h" using heads Cons it item_off_head by auto
    have step1: "run_ok (before_atom e c i s) (dheld e s0 F (X @ mid_lay ?sw ?l h @ lay ?sw ?r a @ ?W ?sw ?r))"
      unfolding i by (rule before_atom_at [OF h(1) _ bound(1)]) (use held Cons it in \<open>simp add: pad_lay\<close>)
    have step2: "run_ok (deser_atom k e (i + item_off c) x) (dheld e s0 F (X @ mid_lay ?sw ?l h @ lay False ?l a @ ?W ?sw ?r))"
      if "dheld e s0 F (X @ mid_lay ?sw ?l h @ lay ?sw ?r a @ ?W ?sw ?r) x" for x
      using atom [unfolded datom_ok_def, rule_format, of a "X @ mid_lay ?sw ?l h" "?W ?sw ?r" x] that wf Cons it k i h
      by simp
    have step3: "run_ok (after_atom e c i x) (dheld e s0 F (X @ hlay False ?l h @ lay False ?l a @ ?W ?sw ?r))"
      if "dheld e s0 F (X @ mid_lay ?sw ?l h @ lay False ?l a @ ?W ?sw ?r) x" for x
      unfolding i by (rule after_atom_at [OF h(1) that])
    have step4: "run_ok (run_bind (rd32 (i + item_off c) x) (\<lambda>n.
        deser_items k e c (i + item_off c + 8 + unat (pad_size n)) ?stop x)) ?post"
      if x: "dheld e s0 F (X @ hlay False ?l h @ lay False ?l a @ ?W ?sw ?r) x" for x
    proof -
      let ?X = "X @ hlay False ?l h @ lay False ?l a @ ?pad"
      have size: "rd32 (i + item_off c) x = Done (of_nat (bsize b))"
        by (rule dheld.rd32_at [where X = "X @ hlay False ?l h" and Z = "le32 (?l t) @ blay False ?l b @ ?W ?sw ?r"])
          (use x i h a in simp_all)
      have "nsize a < 2147483648" using x bound by (simp add: dheld_def)
      then have pad: "8 + unat (pad_size (of_nat (bsize b))) = up8 (nsize a)"
        using unat_pad_size [of "bsize b"] up8_add8 [of "bsize b"] a by simp
      have "run_ok (deser_items k e c (length ?X) (length ?X + sum_list (map isize rest)) x)
          (dheld e s0 F (?X @ concat (map (ilay False ?l) rest) @ Z))"
        using items [unfolded ditems_ok_def, rule_format, of c rest ?X Z x "length ?X"] x heads wf Cons it k by simp
      then show ?thesis using size pad i h Cons it up8_ge [of "nsize a"] by (simp add: add.assoc pad_lay)
    qed
    have "\<not> ?stop \<le> i" using Cons isize_pos [of it] by simp
    then show ?thesis
      unfolding deser_items_Suc
      by (simp only: if_False) (rule run_ok_bind [OF step1], rule run_ok_bind [OF step2], assumption,
          rule run_ok_bind [OF step3], assumption, rule step4)
  qed
qed

lemma deser_all_ok:
  assumes "dsize F < 2147483648" and "ndict s0 < 2147483648"
  shows "datom_ok e s0 F k \<and> ditems_ok e s0 F k"
proof (induction k)
  case 0
  show ?case by (simp add: datom_ok_def ditems_ok_def)
next
  case (Suc k)
  then show ?case using datom_ok_Suc [OF _ assms] ditems_ok_Suc [OF _ _ assms] by blast
qed

end
