(* ===== verification/Netatom_Roundtrip.thy ===== *)
theory Netatom_Roundtrip
  imports Netatom_Deserialize
begin

text \<open>
  What \<open>netatom.h\<close> promises: an atom serialised by one host and deserialised by another is the
  same atom in the other host's URIDs.
\<close>

section \<open>Hosts\<close>

text \<open>
  What the documentation of the URID extension says of a host: URIDs are not zero, and mapping
  and unmapping are inverse to each other where they succeed. URIs are C strings.
\<close>

definition urid_host :: "netatom \<Rightarrow> bool" where
  "urid_host e \<longleftrightarrow> inj (n_uri e) \<and> (\<forall>\<kappa>. n_type e \<kappa> = n_map e (n_uri e \<kappa>) \<and> n_type e \<kappa> \<noteq> 0)
     \<and> (\<forall>x. n_map e x \<noteq> 0 \<longrightarrow> n_unmap e (n_map e x) = Some x)
     \<and> (\<forall>u x. n_unmap e u = Some x \<longrightarrow> n_map e x = u \<and> u \<noteq> 0 \<and> 0 \<notin> set x)"

text \<open>A URID of the host \<open>e\<close> in terms of the host \<open>e'\<close>\<close>

definition translate :: "netatom \<Rightarrow> netatom \<Rightarrow> u32 \<Rightarrow> u32" where
  "translate e e' u = (case n_unmap e u of None \<Rightarrow> 0 | Some x \<Rightarrow> n_map e' x)"

lemma urid_host_known: "urid_host e \<Longrightarrow> known_ok e"
  unfolding urid_host_def known_ok_def by metis

lemma deser_kind_find:
  "urid_host e \<Longrightarrow> deser_kind e (n_type e \<kappa>) = (if \<kappa> \<in> {KBool, KInt, KFloat, KLong, KDouble, KURID, KLiteral, KObject,
     KTuple, KSequence, KVector} then Some \<kappa> else None)"
proof -
  assume h: "urid_host e"
  have "n_type e \<kappa> = n_type e \<mu> \<longleftrightarrow> \<kappa> = \<mu>" for \<mu>
  proof
    assume eq: "n_type e \<kappa> = n_type e \<mu>"
    then have "n_uri e \<kappa> = n_uri e \<mu>" using h unfolding urid_host_def by (metis option.inject)
    then show "\<kappa> = \<mu>" using h by (simp add: urid_host_def inj_eq)
  qed simp
  then show ?thesis by (auto simp: deser_kind_def)
qed

lemma ser_kind_known: "t = n_type e \<kappa> \<Longrightarrow> ser_kind e t \<noteq> None"
  by (cases \<kappa>) (auto simp: ser_kind_def)

text \<open>The receiver knows the types the sender knows.\<close>

lemma translate_kind:
  assumes "urid_host e" "urid_host e'" "n_uri e' = n_uri e"
  shows "deser_kind e' (translate e e' t) = (case ser_kind e t of None \<Rightarrow> None | Some \<kappa> \<Rightarrow> deser_kind e' (n_type e' \<kappa>))"
proof (cases "ser_kind e t")
  case (Some \<kappa>)
  then have t: "t = n_type e \<kappa>" by (rule ser_kind_type)
  then have "n_unmap e t = Some (n_uri e' \<kappa>)"
    using urid_host_known [OF assms(1)] assms(3) by (simp add: known_ok_def)
  then show ?thesis using Some assms(2) unfolding translate_def urid_host_def by auto
next
  case None
  have "translate e e' t \<noteq> n_type e' \<kappa>" for \<kappa>
  proof
    assume eq: "translate e e' t = n_type e' \<kappa>"
    have nz: "n_type e' \<kappa> \<noteq> 0" using assms(2) unfolding urid_host_def by blast
    then obtain x where x: "n_unmap e t = Some x" "n_map e' x = n_type e' \<kappa>"
      using eq by (auto simp: translate_def split: option.splits)
    have "n_map e' x = n_map e' (n_uri e' \<kappa>)" using x assms(2) unfolding urid_host_def by metis
    then have "x = n_uri e' \<kappa>" using nz x assms(2) unfolding urid_host_def by (metis option.inject)
    then have "t = n_type e \<kappa>" using x(1) assms(1,3) unfolding urid_host_def by metis
    then show False using ser_kind_known None by blast
  qed
  then have "deser_kind e' (translate e e' t) = None" by (auto simp: deser_kind_def)
  then show ?thesis using None by simp
qed

lemma translate_fits:
  assumes "urid_host e" "urid_host e'" "n_uri e' = n_uri e" and "body_fits (ser_kind e t) b"
  shows "body_fits (deser_kind e' (translate e e' t)) b"
  unfolding translate_kind [OF assms(1-3)]
proof (cases "ser_kind e t")
  case None
  then show "body_fits (case ser_kind e t of None \<Rightarrow> None | Some \<kappa> \<Rightarrow> deser_kind e' (n_type e' \<kappa>)) b"
    using assms(4) by simp
next
  case (Some \<kappa>)
  then show "body_fits (case ser_kind e t of None \<Rightarrow> None | Some \<kappa> \<Rightarrow> deser_kind e' (n_type e' \<kappa>)) b"
    using assms(4) by (cases b) (auto simp: deser_kind_find [OF assms(2)] body_fits_def split: container.splits)
qed

section \<open>References and the URIDs they stand for\<close>

lemma add_uri_mono: "k \<in> fst ` set es \<Longrightarrow> k \<in> fst ` set (add_uri e v es)"
  by (cases e v es rule: add_uri_cases) auto

lemma adds_mono: "k \<in> fst ` set es \<Longrightarrow> k \<in> fst ` set (adds e vs es)"
  by (induction vs arbitrary: es) (simp_all add: add_uri_mono del: image_iff)

lemma adds_complete: "u \<in> set vs \<Longrightarrow> u \<noteq> 0 \<Longrightarrow> n_unmap e u = Some x \<Longrightarrow> u \<in> fst ` set (adds e vs es)"
proof (induction vs arbitrary: es)
  case Nil
  then show ?case by simp
next
  case (Cons v vs)
  show ?case
  proof (cases "u = v")
    case True
    then have "u \<in> fst ` set (add_uri e v es)" using Cons.prems by (auto simp: add_uri_def)
    then show ?thesis unfolding adds_simps by (rule adds_mono)
  next
    case False
    then show ?thesis unfolding adds_simps using Cons by auto
  qed
qed

lemma look_translate:
  assumes h: "urid_host e" and u: "u \<in> set (uses a)"
  shows "look e' (dict_of e a) u = translate e e' u"
proof (cases "map_of (dict_of e a) u")
  case (Some x)
  then have "(u, x) \<in> set (dict_of e a)" by (rule map_of_SomeD)
  then have "n_unmap e u = Some x" using adds_keys [of "[]" e "uses a"] by (auto simp: dict_of_def)
  then show ?thesis using Some by (simp add: look_def translate_def)
next
  case None
  then have "u \<notin> fst ` set (dict_of e a)" by (simp add: map_of_eq_None_iff)
  then have "n_unmap e u = None"
    using adds_complete [OF u] h unfolding urid_host_def dict_of_def by (metis not_None_eq)
  then show ?thesis using None by (simp add: look_def translate_def)
qed

lemma lay_cong:
  "(\<forall>u \<in> set (uses a). r u = r' u) \<Longrightarrow> lay sw r a = lay sw r' a"
  "(\<forall>u \<in> set (buses b). r u = r' u) \<Longrightarrow> blay sw r b = blay sw r' b"
  "(\<forall>u \<in> set (iuses i). r u = r' u) \<Longrightarrow> ilay sw r i = ilay sw r' i"
proof (induction a and b and i)
  case (NItems c i o2 its)
  have "map (ilay sw r) its = map (ilay sw r') its"
    using NItems by (intro map_cong) auto
  moreover have "play sw r c i o2 = play sw r' c i o2"
    using NItems.prems by (cases c) (auto simp: play_def puses_def)
  ultimately show ?case by (simp only: blay.simps)
next
  case (NItem h a)
  have "hlay sw r h = hlay sw r' h" using NItem.prems by (cases h) (auto simp: hlay_def huses_def)
  then show ?case using NItem by simp
qed auto

lemma nwf_weaken:
  "nwf kd a \<Longrightarrow> (\<And>t b. t \<in> set (uses a) \<Longrightarrow> body_fits (kd t) b \<Longrightarrow> body_fits (kd' t) b) \<Longrightarrow> nwf kd' a"
  "bwf kd bd \<Longrightarrow> (\<And>t b. t \<in> set (buses bd) \<Longrightarrow> body_fits (kd t) b \<Longrightarrow> body_fits (kd' t) b) \<Longrightarrow> bwf kd' bd"
  "iwf kd i \<Longrightarrow> (\<And>t b. t \<in> set (iuses i) \<Longrightarrow> body_fits (kd t) b \<Longrightarrow> body_fits (kd' t) b) \<Longrightarrow> iwf kd' i"
proof (induction a and bd and i)
  case (NItems c i o2 its)
  have "iwf kd' x" if "x \<in> set its" for x
    using NItems.IH [OF that] NItems.prems that by (auto simp: list_all_iff)
  then show ?case using NItems.prems(1) by (auto simp: list_all_iff)
qed auto

section \<open>The receiver\<close>

lemma deserialize_exact:
  assumes wf: "nwf (types_known e F) a" and pad: "length pad = up8 (nsize a) - nsize a"
    and buf: "buf = lay (n_swap e) (dref F) a @ pad @ dlay (n_swap e) cleared F"
    and len: "length buf < 2147483648" and k: "length buf \<le> k" and strs: "\<forall>p \<in> set F. 0 \<notin> set (snd p)"
  shows "\<exists>rest. netatom_deserialize k e (buf @ J) (length buf) = Done (lay False (look e F) a @ rest) \<and> nsize a + length rest = length (buf @ J)"
proof -
  obtain t b where a: "a = NAtom t b" by (cases a)
  let ?D = "up8 (nsize a)" and ?n = "of_nat (bsize b) :: u32"
  let ?s = "\<lparr>nbuf = buf @ J, ndict = ?D, ncur = ?D + dsize F, nend = length buf, nover = False\<rparr>"
  let ?A = "lay (n_swap e) (dref F) a @ pad"
  have le: "nsize a \<le> ?D" "length buf = ?D + dsize F" using up8_ge [of "nsize a"] pad buf by simp_all
  have b: "?D = 8 + up8 (bsize b)" using a up8_add8 [of "bsize b"] by simp
  have "rd32 0 \<lparr>nbuf = buf @ J, ndict = 0, ncur = 0, nend = 0, nover = False\<rparr> = Done (if n_swap e then htobe32 ?n else ?n)"
    by (simp add: rd32_def part_def buf a w4_def le32_def htobe32_def)
  then have size: "rd32 0 \<lparr>nbuf = buf @ J, ndict = 0, ncur = 0, nend = 0, nover = False\<rparr> = Done (if n_swap e then htobe32 ?n else ?n)"
    "(if n_swap e then be32toh (if n_swap e then htobe32 ?n else ?n) else (if n_swap e then htobe32 ?n else ?n)) = ?n" by simp_all
  have tot: "unat (total_pad ?n) = ?D" using unat_total_pad [of "bsize b"] b le len a by simp
  have "total_pad ?n = of_nat ?D" using tot le len by (intro iffD2 [OF word_unat_eq_iff]) (simp add: unat_of_nat)
  then have dict_size: "unat (of_nat (length buf) - total_pad ?n) = dsize F"
    using le len unat_of_nat_small [where 'w = 32, of "dsize F"] by simp
  have fuel: "length F < k" "ncost a < k" using dsize_ge [of F] ncost_le(1) [of a] le k nsize_ge [of a] by simp_all
  have held0: "held ?s (?A @ dlay (n_swap e) cleared F @ []) ?s" by (simp add: held_def buf)
  have dict: "run_ok (deser_dict k e ?D ?s) (dheld e ?s F (lay (n_swap e) (dref F) a @ pad))"
    by (rule run_ok_mono [OF held_deser_dict [OF held0, of ?D k]])
      (use fuel le len strs pad in \<open>simp_all add: dheld_def\<close>)
  have atom: "run_ok (deser_atom k e 0 x) (dheld e ?s F ([] @ lay False (look e F) a @ pad))"
    if "dheld e ?s F (lay (n_swap e) (dref F) a @ pad) x" for x
  proof -
    have "datom_ok e ?s F k" using deser_all_ok [of F ?s e k] le len by simp
    then show ?thesis using that wf fuel unfolding datom_ok_def by (metis append_Nil list.size(3))
  qed
  have "run_ok (run_bind (deser_dict k e ?D ?s) (deser_atom k e 0)) (dheld e ?s F ([] @ lay False (look e F) a @ pad))"
    by (rule run_ok_bind [OF dict]) (erule atom)
  then obtain s where s: "run_bind (deser_dict k e ?D ?s) (deser_atom k e 0) = Done s"
    "dheld e ?s F (lay False (look e F) a @ pad) s"
    by (auto simp: run_ok_def)
  have "netatom_deserialize k e (buf @ J) (length buf) = run_bind (run_bind (deser_dict k e ?D ?s) (deser_atom k e 0)) (\<lambda>s. Done (nbuf s))"
    unfolding netatom_deserialize_def size run_bind_simps Let_def tot dict_size run_bind_assoc ..
  then have "netatom_deserialize k e (buf @ J) (length buf) = Done (nbuf s)" using s(1) by simp
  moreover have "nbuf s = lay False (look e F) a @ pad @ drop (length (lay False (look e F) a @ pad)) (nbuf s)"
    using dheld.H_take [OF s(2)] by (metis append.assoc append_take_drop_id)
  moreover have "length (nbuf s) = length (buf @ J)" using s(2) by (simp add: dheld_def held_def)
  moreover from this have "nsize a + length (pad @ drop (length (lay False (look e F) a @ pad)) (nbuf s)) = length (buf @ J)"
    using le pad by simp
  ultimately show ?thesis by metis
qed

section \<open>Round trip\<close>

lemma netatom_transfer:
  assumes hosts: "urid_host e" "urid_host e'" "n_uri e' = n_uri e" "n_swap e' = n_swap e"
    and wf: "nwf (ser_kind e) a" and pad: "length pad = up8 (nsize a) - nsize a"
    and room: "room (length (lay False id a @ pad @ R)) size_rx (length (net_wire e a pad))"
    and k: "length (lay False id a @ pad @ R) \<le> k"
  shows "\<exists>out. netatom_serialize k e (lay False id a @ pad @ R) size_rx = Done (out, Some (length (net_wire e a pad))) \<and>
    length out = length (lay False id a @ pad @ R) \<and> take (length (net_wire e a pad)) out = net_wire e a pad \<and>
    (\<exists>rest. netatom_deserialize k e' (net_wire e a pad @ J) (length (net_wire e a pad)) = Done (lay False (translate e e') a @ rest) \<and>
      nsize a + length rest = length (net_wire e a pad @ J))"
proof -
  let ?w = "net_wire e a pad" and ?F = "dict_of e a"
  obtain R' where R': "length R' + length ?w = length (lay False id a @ pad @ R)" and ser: "netatom_serialize k e (lay False id a @ pad @ R) size_rx = Done (?w @ R', Some (length ?w))"
    using serialize_exact [OF wf urid_host_known [OF hosts(1)] pad refl room k] by blast
  have look: "look e' ?F u = translate e e' u" if "u \<in> set (uses a)" for u
    using look_translate [OF hosts(1) that] .
  have "nwf (types_known e' ?F) a"
    using nwf_weaken(1) [OF wf] translate_fits [OF hosts(1-3)] look by (metis types_known_def)
  moreover have "\<forall>p \<in> set ?F. 0 \<notin> set (snd p)"
    using adds_keys [of "[]" e "uses a"] hosts(1) unfolding dict_of_def urid_host_def by fastforce
  moreover have "length ?w < 2147483648" "length ?w \<le> k" using room k by (simp_all add: room_def)
  ultimately obtain rest where "netatom_deserialize k e' (?w @ J) (length ?w) = Done (lay False (look e' ?F) a @ rest)"
      "nsize a + length rest = length (?w @ J)"
    using deserialize_exact [of e' ?F a pad ?w k J] pad hosts(4) by (auto simp: net_wire_def)
  moreover have "lay False (look e' ?F) a = lay False (translate e e') a"
    by (rule lay_cong) (use look in blast)
  ultimately show ?thesis using ser R' by auto
qed

section \<open>Two hosts\<close>

text \<open>Hosts whose URIs have one byte; the URIDs of \<open>sample_host sw d\<close> are shifted by \<open>d\<close>.\<close>

definition sample_map :: "u32 \<Rightarrow> u8 list \<Rightarrow> u32" where
  "sample_map d x = (if length x = 1 \<and> x ! 0 \<noteq> 0 then ucast (x ! 0) + d else 0)"

definition sample_unmap :: "u32 \<Rightarrow> u32 \<Rightarrow> u8 list option" where
  "sample_unmap d u = (if u - d \<noteq> 0 \<and> u - d < 256 then Some [ucast (u - d)] else None)"

definition sample_uri :: "known \<Rightarrow> u8 list" where
  "sample_uri \<kappa> = [case \<kappa> of KBool \<Rightarrow> 1 | KInt \<Rightarrow> 2 | KFloat \<Rightarrow> 3 | KLong \<Rightarrow> 4 | KDouble \<Rightarrow> 5 | KURID \<Rightarrow> 6 | KString \<Rightarrow> 7
     | KChunk \<Rightarrow> 8 | KMidi \<Rightarrow> 9 | KLiteral \<Rightarrow> 10 | KObject \<Rightarrow> 11 | KTuple \<Rightarrow> 12 | KSequence \<Rightarrow> 13 | KVector \<Rightarrow> 14
     | KPath \<Rightarrow> 15 | KURI \<Rightarrow> 16]"

definition sample_host :: "bool \<Rightarrow> u32 \<Rightarrow> netatom" where
  "sample_host sw d = netatom_new (sample_map d) (sample_unmap d) sample_uri sw"

lemma unat_ucast_u8 [simp]: "unat (ucast (b :: u8) :: u32) = unat b"
proof -
  have "unat b < 2 ^ 32" by (rule less_trans [OF unat_lt_8]) simp
  then show ?thesis by (simp add: unsigned_ucast_eq take_bit_nat_eq_self)
qed

lemma unat_ucast_u32: "v < 256 \<Longrightarrow> unat (ucast (v :: u32) :: u8) = unat v"
  by (simp add: unsigned_ucast_eq take_bit_nat_eq_self word_less_nat_alt)

lemma ucast_ucast_small: "v < 256 \<Longrightarrow> ucast (ucast (v :: u32) :: u8) = v"
  by (simp add: word_unat_eq_iff unat_ucast_u32)

lemma ucast_u8_less: "ucast (b :: u8) < (256 :: u32)"
  by (simp add: word_less_nat_alt)

lemma ucast_u8_back [simp]: "ucast (ucast (b :: u8) :: u32) = b"
  by (simp add: word_unat_eq_iff unat_ucast_u32 ucast_u8_less)

lemma ucast_u8_0 [simp]: "ucast (b :: u8) = (0 :: u32) \<longleftrightarrow> b = 0"
  by (simp add: word_unat_eq_iff)

lemma ucast_u32_0: "v < 256 \<Longrightarrow> ucast (v :: u32) = (0 :: u8) \<longleftrightarrow> v = 0"
  by (simp add: word_unat_eq_iff unat_ucast_u32)

lemma sample_inverse: "sample_map d x \<noteq> 0 \<Longrightarrow> sample_unmap d (sample_map d x) = Some x"
  by (auto simp: sample_map_def sample_unmap_def ucast_u8_less length_Suc_conv split: if_splits)

lemma sample_host_ok: "d \<in> {0, 100} \<Longrightarrow> urid_host (sample_host sw d)"
proof -
  assume d: "d \<in> {0, 100}"
  have inj: "inj sample_uri" by (rule injI) (auto simp: sample_uri_def split: known.splits)
  have types: "sample_map d (sample_uri \<kappa>) \<noteq> 0" for \<kappa>
    using d by (cases \<kappa>) (auto simp: sample_map_def sample_uri_def)
  have unmap: "sample_map d x = u \<and> u \<noteq> 0 \<and> 0 \<notin> set x" if "sample_unmap d u = Some x" for u x
  proof -
    have u: "u - d \<noteq> 0" "u - d < 256" "x = [ucast (u - d)]"
      using that by (simp_all add: sample_unmap_def split: if_splits)
    then have "sample_map d x = u" "0 \<notin> set x"
      by (auto simp: sample_map_def ucast_ucast_small ucast_u32_0)
    moreover have "u \<noteq> 0" using u(1,2) d by auto
    ultimately show ?thesis by simp
  qed
  show ?thesis
    using inj types sample_inverse unmap by (simp add: urid_host_def sample_host_def netatom_new_def)
qed

definition sample_atom :: natom where
  "sample_atom = NAtom 11 (NItems CObject 0 20
     [NItem (HProp 21 0) (NAtom 2 (NWord 7)),
      NItem (HProp 22 0) (NAtom 12 (NItems CTuple 0 0 [NItem HNone (NAtom 6 (NRef 23)), NItem HNone (NAtom 14 (NVec8 4 [9]))]))])"

lemma sample_atom_wf: "nwf (ser_kind (sample_host sw 0)) sample_atom"
  by (simp add: sample_atom_def ser_kind_def sample_host_def netatom_new_def body_fits_def sample_map_def sample_uri_def head_fits_def)

lemma sample_atom_size: "nsize sample_atom = 96" "up8 96 = 96"
  by code_simp+

lemma sample_atom_dict: "dsize (dict_of (sample_host True 0) sample_atom) = 160"
  by code_simp

lemma sample_host_simps [simp]: "n_uri (sample_host sw d) = sample_uri" "n_swap (sample_host sw d) = sw"
  by (simp_all add: sample_host_def netatom_new_def)

text \<open>A received buffer with an entry of size \<open>0xFFFFFFF8\<close>\<close>

definition long_entry :: "u8 list" where
  "long_entry = lay False id (NAtom 0 (NBytes [])) @ [0xF8, 0xFF, 0xFF, 0xFF] @ replicate 12 0"

definition long_state :: nstate where
  "long_state = \<lparr>nbuf = long_entry, ndict = 8, ncur = 24, nend = 24, nover = False\<rparr>"

lemma long_entry_step:
  "ncur long_state = 24" "str_at (8 + 8) long_state = Done []" "wr (8 + 4) (le32 0) long_state = Done long_state"
  "rd32 8 long_state = Done 0xFFFFFFF8" "unat (total_pad 0xFFFFFFF8) = 0" "n_map (sample_host False 0) [] = 0"
  by code_simp+

lemma long_entry_loop: "deser_dict k (sample_host False 0) 8 long_state = Endless"
proof (induction k)
  case (Suc k)
  have "deser32 (sample_host False 0) 8 long_state = Done long_state" by (simp add: deser32_def)
  then show ?case
    using Suc by (simp only: deser_dict.simps run_bind_simps long_entry_step) simp
qed simp

lemma long_entry_start:
  "netatom_deserialize k (sample_host False 0) long_entry 24 =
   run_bind (deser_dict k (sample_host False 0) 8 long_state) (\<lambda>s. run_bind (deser_atom k (sample_host False 0) 0 s) (\<lambda>s. Done (nbuf s)))"
proof -
  have "rd32 0 \<lparr>nbuf = long_entry, ndict = 0, ncur = 0, nend = 0, nover = False\<rparr> = Done 0" "unat (total_pad 0) = 8"
    "unat (of_nat 24 - total_pad 0 :: u32) = 16"
    by code_simp+
  then show ?thesis by (simp add: netatom_deserialize_def long_state_def Let_def)
qed

section \<open>Properties\<close>

text \<open>
  C9. An atom that one host serialises for the network and another deserialises arrives as the
  same atom in the URIDs of the receiver, whatever the two hosts call their URIs, in both byte
  orders and for every nesting of objects, tuples, sequences, vectors and literals. The buffer
  needs room for the dictionary and eight bytes more; its length is enough fuel.
\<close>

theorem netatom_roundtrip:
  assumes "urid_host e" "urid_host e'" "n_uri e' = n_uri e" "n_swap e' = n_swap e"
    and "nwf (ser_kind e) a" and "length pad = up8 (nsize a) - nsize a"
    and "room (length (lay False id a @ pad @ R)) size_rx (length (net_wire e a pad))"
    and "length (lay False id a @ pad @ R) \<le> k"
  shows "\<exists>out rest.
    netatom_serialize k e (lay False id a @ pad @ R) size_rx = Done (out, Some (length (net_wire e a pad))) \<and>
    netatom_deserialize k e' (take (length (net_wire e a pad)) out) (length (net_wire e a pad))
      = Done (lay False (translate e e') a @ rest)"
  using netatom_transfer [OF assms, of "[]"] by auto

theorem netatom_roundtrip_witness:
  "\<exists>out rest. netatom_serialize 400 (sample_host True 0) (lay False id sample_atom @ replicate 200 0) 296 = Done (out, Some 256) \<and>
    netatom_deserialize 400 (sample_host True 100) (take 256 out) 256
      = Done (lay False (translate (sample_host True 0) (sample_host True 100)) sample_atom @ rest)"
  using netatom_roundtrip [of "sample_host True 0" "sample_host True 100" sample_atom "[]" "replicate 200 0" 296 400]
  by (simp add: sample_host_ok sample_atom_wf sample_atom_size sample_atom_dict net_wire_length room_def)

text \<open>
  The check before a new entry is eight bytes short. \<open>strncpy\<close> gets the size of the whole
  entry and starts behind the entry's header, so it fills eight bytes beyond it: an atom whose
  dictionary exactly fits the buffer makes \<open>netatom_serialize\<close> write beyond the end.
\<close>

theorem netatom_exact_fit_overruns:
  "netatom_serialize 400 (sample_host sw 0) (lay False id (NAtom 2 (NWord 7)) @ replicate 20 0) 32 = Undefined"
  by (induct sw rule: bool.induct) code_simp+

text \<open>
  Without byte order conversion, a received dictionary entry whose size is close to
  \<open>2 ^ 32\<close> makes the loop over the dictionary run for ever, because the padded total size is
  computed on 32 bits and wraps to zero.
\<close>

theorem netatom_entry_size_endless:
  "netatom_deserialize k (sample_host False 0)
     (lay False id (NAtom 0 (NBytes [])) @ [0xF8, 0xFF, 0xFF, 0xFF] @ replicate 12 0) 24 = Endless"
  unfolding long_entry_def [symmetric] by (simp add: long_entry_start long_entry_loop)

text \<open>
  The references in a received atom are not checked: one that points behind the dictionary
  is read beyond the end of the buffer.
\<close>

theorem netatom_reference_unchecked:
  "netatom_deserialize 400 (sample_host sw 0) (lay sw (\<lambda>u. 100) (NAtom 0 (NBytes []))) 8 = Undefined"
  by (induct sw rule: bool.induct) code_simp+



end
