(* ===== verification/Stream.thy ===== *)
theory Stream
  imports Runs Slip
begin

text \<open>
  \<open>osc.lv2/osc.lv2/stream.h\<close>: a stream of OSC packets over UDP, TCP or a serial line. This theory
  has its state and how it is opened. The operating system is a parameter, a record of the calls
  the code makes; each call works on the state \<open>'o\<close> of the system and returns a value or an error
  number. The constants are those of Linux.
\<close>

section \<open>The operating system\<close>

datatype 'a sys = Ret 'a | Err u32

datatype family = AF_UNSPEC | AF_INET | AF_INET6
datatype socktype = SOCK_NONE | SOCK_DGRAM | SOCK_STREAM
datatype protocol = IPPROTO_NONE | IPPROTO_UDP | IPPROTO_TCP
datatype sockopt = SO_SNDBUF | SO_RCVBUF | SO_REUSEADDR | SO_BROADCAST | SO_KEEPALIVE | TCP_NODELAY

definition ENOMEM :: u32 where "ENOMEM = 12"
definition EIO :: u32 where "EIO = 5"
definition EAGAIN :: u32 where "EAGAIN = 11"
definition EBADF :: u32 where "EBADF = 9"
definition EDESTADDRREQ :: u32 where "EDESTADDRREQ = 89"
definition EPROTOTYPE :: u32 where "EPROTOTYPE = 91"
definition ENOPROTOOPT :: u32 where "ENOPROTOOPT = 92"

text \<open>\<open>LV2_OSC_Address\<close>: the length of the address, and what is in it\<close>

record sockaddr =
  sa_len :: nat
  sa_family :: family
  sa_port :: nat
  sa_addr :: "u8 list"
  sa_scope :: u32

definition no_addr :: sockaddr where
  "no_addr = \<lparr>sa_len = 0, sa_family = AF_UNSPEC, sa_port = 0, sa_addr = [], sa_scope = 0\<rparr>"

record termios =
  c_iflag :: u32
  c_oflag :: u32
  c_cflag :: u32
  c_lflag :: u32
  c_vmin :: u8
  c_vtime :: u8
  c_ispeed :: u32
  c_ospeed :: u32

record 'o os =
  o_alloc :: "'o \<Rightarrow> bool \<times> 'o"
  o_open :: "u8 list \<Rightarrow> 'o \<Rightarrow> int sys \<times> 'o"
  o_nonblock :: "int \<Rightarrow> 'o \<Rightarrow> unit sys \<times> 'o"
  o_getattr :: "int \<Rightarrow> 'o \<Rightarrow> termios sys \<times> 'o"
  o_setattr :: "int \<Rightarrow> termios \<Rightarrow> 'o \<Rightarrow> unit sys \<times> 'o"
  o_socket :: "family \<Rightarrow> socktype \<Rightarrow> protocol \<Rightarrow> 'o \<Rightarrow> int sys \<times> 'o"
  o_setsockopt :: "int \<Rightarrow> sockopt \<Rightarrow> nat \<Rightarrow> 'o \<Rightarrow> unit sys \<times> 'o"
  o_getaddrinfo :: "u8 list option \<Rightarrow> u8 list \<Rightarrow> family \<Rightarrow> socktype \<Rightarrow> protocol \<Rightarrow> 'o \<Rightarrow> sockaddr sys \<times> 'o"
  o_ifindex :: "u8 list \<Rightarrow> 'o \<Rightarrow> u32"
  o_bind :: "int \<Rightarrow> sockaddr \<Rightarrow> 'o \<Rightarrow> unit sys \<times> 'o"
  o_listen :: "int \<Rightarrow> 'o \<Rightarrow> unit sys \<times> 'o"
  o_connect :: "int \<Rightarrow> sockaddr \<Rightarrow> 'o \<Rightarrow> unit sys \<times> 'o"
  o_accept :: "int \<Rightarrow> 'o \<Rightarrow> (int \<times> sockaddr) sys \<times> 'o"
  o_close :: "int \<Rightarrow> 'o \<Rightarrow> 'o"
  o_sendto :: "int \<Rightarrow> u8 list \<Rightarrow> sockaddr \<Rightarrow> 'o \<Rightarrow> nat sys \<times> 'o"
  o_recvfrom :: "int \<Rightarrow> nat \<Rightarrow> 'o \<Rightarrow> (u8 list \<times> sockaddr) sys \<times> 'o"
  o_send :: "int \<Rightarrow> u8 list \<Rightarrow> 'o \<Rightarrow> nat sys \<times> 'o"
  o_recv :: "int \<Rightarrow> nat \<Rightarrow> 'o \<Rightarrow> u8 list sys \<times> 'o"
  o_poll :: "int \<Rightarrow> int \<Rightarrow> int \<Rightarrow> 'o \<Rightarrow> unit sys \<times> 'o"

section \<open>The stream\<close>

record stream =
  socket_family :: family
  socket_type :: socktype
  protocol :: protocol
  server :: bool
  slip :: bool
  serial :: bool
  connected :: bool
  sock :: int
  fd :: int
  self :: sockaddr
  peer :: sockaddr
  tx_buf :: "u8 list"
  rx_buf :: "u8 list"
  rx_off :: nat
  url :: "u8 list"

definition BUF_LEN :: nat where "BUF_LEN = 0x4000"
definition PATH_MAX :: nat where "PATH_MAX = 4096"

definition LV2_OSC_NONE :: u32 where "LV2_OSC_NONE = 0"
definition LV2_OSC_SEND :: u32 where "LV2_OSC_SEND = 0x800000"
definition LV2_OSC_RECV :: u32 where "LV2_OSC_RECV = 0x400000"
definition LV2_OSC_CONN :: u32 where "LV2_OSC_CONN = 0x200000"
definition LV2_OSC_ERR :: u32 where "LV2_OSC_ERR = 0x00FFFF"

definition stream_errno :: "u32 \<Rightarrow> u32 \<Rightarrow> u32" where
  "stream_errno ev e = (ev AND NOT LV2_OSC_ERR) OR e"

definition close_socket :: "'o os \<Rightarrow> int \<Rightarrow> 'o \<Rightarrow> int \<times> 'o" where
  "close_socket os f w = (- 1, if 0 \<le> f then o_close os f w else w)"

definition lv2_osc_stream_deinit :: "'o os \<Rightarrow> stream \<Rightarrow> 'o \<Rightarrow> stream \<times> 'o" where
  "lv2_osc_stream_deinit os s w =
     (case close_socket os (fd s) w of (f, w1) \<Rightarrow>
        (case close_socket os (sock s) w1 of (g, w2) \<Rightarrow> (s\<lparr>fd := f, sock := g\<rparr>, w2)))"

section \<open>URLs\<close>

text \<open>Strings are the lists of their characters. \<open>strncmp\<close> with the length of a prefix:\<close>

definition text_of :: "string \<Rightarrow> u8 list" where
  "text_of t = map (\<lambda>c. of_nat (of_char c)) t"

definition udp_prefix :: "u8 list" where "udp_prefix = text_of ''osc.udp://''"
definition tcp_prefix :: "u8 list" where "tcp_prefix = text_of ''osc.tcp://''"
definition tcp_slip_prefix :: "u8 list" where "tcp_slip_prefix = text_of ''osc.slip.tcp://''"
definition tcp_prefix_prefix :: "u8 list" where "tcp_prefix_prefix = text_of ''osc.prefix.tcp://''"
definition ser_prefix :: "u8 list" where "ser_prefix = text_of ''osc.serial://''"

definition starts :: "u8 list \<Rightarrow> u8 list \<Rightarrow> bool" where
  "starts p u \<longleftrightarrow> take (length p) u = p"

text \<open>The scheme sets the kind of socket; the result is the rest of the URL.\<close>

definition stream_scheme :: "u8 list \<Rightarrow> stream \<Rightarrow> (u8 list \<times> stream) option" where
  "stream_scheme u s =
     (if starts udp_prefix u then
        Some (drop (length udp_prefix) u, s\<lparr>slip := False, socket_family := AF_INET, socket_type := SOCK_DGRAM, protocol := IPPROTO_UDP\<rparr>)
      else if starts tcp_prefix u then
        Some (drop (length tcp_prefix) u, s\<lparr>slip := True, socket_family := AF_INET, socket_type := SOCK_STREAM, protocol := IPPROTO_TCP\<rparr>)
      else if starts tcp_slip_prefix u then
        Some (drop (length tcp_slip_prefix) u, s\<lparr>slip := True, socket_family := AF_INET, socket_type := SOCK_STREAM, protocol := IPPROTO_TCP\<rparr>)
      else if starts tcp_prefix_prefix u then
        Some (drop (length tcp_prefix_prefix) u, s\<lparr>slip := False, socket_family := AF_INET, socket_type := SOCK_STREAM, protocol := IPPROTO_TCP\<rparr>)
      else if starts ser_prefix u then
        Some (drop (length ser_prefix) u, s\<lparr>slip := True, serial := True\<rparr>)
      else None)"

text \<open>
  What follows the scheme: \<open>host:service\<close>, or \<open>[host%interface]:service\<close> for IPv6. The code puts
  zeros into its copy, so a part ends at the next separator that is found.
\<close>

definition before :: "u8 \<Rightarrow> u8 list \<Rightarrow> u8 list" where
  "before c u = takeWhile (\<lambda>b. b \<noteq> c) u"

definition after :: "u8 \<Rightarrow> u8 list \<Rightarrow> u8 list" where
  "after c u = tl (dropWhile (\<lambda>b. b \<noteq> c) u)"

definition host_family :: "family \<Rightarrow> u8 list \<Rightarrow> family \<times> u8 list" where
  "host_family fam u = (if take 1 u = [0x5B] then (AF_INET6, drop 1 u) else (fam, u))"

definition stream_host :: "family \<Rightarrow> u8 list \<Rightarrow> u32 + family \<times> u8 list \<times> u8 list option \<times> u8 list" where
  "stream_host fam u =
     (let (fam, p) = host_family fam u in
      if 0x25 \<in> set p \<and> fam \<noteq> AF_INET6 then Inl EPROTOTYPE
      else let q = (if 0x25 \<in> set p then after 0x25 p else p) in
      if 0x5D \<in> set q \<and> fam \<noteq> AF_INET6 then Inl EDESTADDRREQ
      else let r = (if 0x5D \<in> set q then after 0x5D q else q) in
      if 0x3A \<notin> set r then Inl EDESTADDRREQ
      else let last = (if 0x5D \<in> set q then before 0x5D q else before 0x3A q) in
        Inr (fam, if 0x25 \<in> set p then before 0x25 p else last, if 0x25 \<in> set p then Some last else None, after 0x3A r))"

section \<open>Opening a stream\<close>

text \<open>
  An action works on the stream and the system; it goes on with a value, or jumps to the label
  \<open>fail\<close> with the error that is returned.
\<close>

type_synonym ('a, 'o) act = "stream \<times> 'o \<Rightarrow> (u32 + 'a) \<times> stream \<times> 'o"

definition act_bind :: "('a, 'o) act \<Rightarrow> ('a \<Rightarrow> ('b, 'o) act) \<Rightarrow> ('b, 'o) act" where
  "act_bind f g c = (case f c of (Inl e, c1) \<Rightarrow> (Inl e, c1) | (Inr x, c1) \<Rightarrow> g x c1)"

definition act_seq :: "('a, 'o) act \<Rightarrow> ('b, 'o) act \<Rightarrow> ('b, 'o) act" where
  "act_seq f g = act_bind f (\<lambda>_. g)"

definition act_ok :: "(unit, 'o) act" where
  "act_ok c = (Inr (), c)"

definition act_fail :: "u32 \<Rightarrow> ('a, 'o) act" where
  "act_fail e c = (Inl (stream_errno LV2_OSC_NONE e), c)"

definition act_set :: "(stream \<Rightarrow> stream) \<Rightarrow> (unit, 'o) act" where
  "act_set f c = (Inr (), f (fst c), snd c)"

definition act_sys :: "(stream \<Rightarrow> 'o \<Rightarrow> 'a sys \<times> 'o) \<Rightarrow> ('a, 'o) act" where
  "act_sys call c = (case call (fst c) (snd c) of
      (Err e, w) \<Rightarrow> (Inl (stream_errno LV2_OSC_NONE e), fst c, w)
    | (Ret x, w) \<Rightarrow> (Inr x, fst c, w))"

text \<open>\<open>if(stream->sock < 0)\<close> after \<open>open\<close> and \<open>socket\<close>: the descriptor is kept, whatever it is.\<close>

definition act_descriptor :: "(stream \<Rightarrow> 'o \<Rightarrow> int sys \<times> 'o) \<Rightarrow> (unit, 'o) act" where
  "act_descriptor call c = (case call (fst c) (snd c) of
      (Err e, w) \<Rightarrow> (Inl (stream_errno LV2_OSC_NONE e), (fst c)\<lparr>sock := - 1\<rparr>, w)
    | (Ret x, w) \<Rightarrow> (Inr (), (fst c)\<lparr>sock := x\<rparr>, w))"

definition raw_termios :: "termios \<Rightarrow> termios" where
  "raw_termios t = t\<lparr>
     c_cflag := ((((((c_cflag t OR (0x800 OR 0x80)) AND NOT 0x30) OR 0x30) AND NOT 0x100) AND NOT 0x40) AND NOT 0x80000000),
     c_iflag := c_iflag t AND NOT (0x80 OR 0x4 OR 0x400),
     c_lflag := c_lflag t AND NOT (0x2 OR 0x8 OR 0x10 OR 0x1),
     c_oflag := c_oflag t AND NOT 0x1,
     c_vmin := 0, c_vtime := 0\<rparr>"

definition stream_interface_attribs :: "'o os \<Rightarrow> int \<Rightarrow> u32 \<Rightarrow> 'o \<Rightarrow> unit sys \<times> 'o" where
  "stream_interface_attribs os f speed w =
     (case o_getattr os f w of
        (Err e, w1) \<Rightarrow> (Err e, w1)
      | (Ret t, w1) \<Rightarrow> o_setattr os f (raw_termios (t\<lparr>c_ospeed := speed, c_ispeed := speed\<rparr>)) w1)"

definition open_serial :: "'o os \<Rightarrow> u8 list \<Rightarrow> (unit, 'o) act" where
  "open_serial os p =
     act_seq (act_descriptor (\<lambda>s. o_open os p))
    (act_seq (act_sys (\<lambda>s. o_nonblock os (sock s)))
    (act_seq (act_sys (\<lambda>s. stream_interface_attribs os (sock s) 0x1002))
    (act_set (\<lambda>s. s\<lparr>connected := True\<rparr>))))"

definition act_opt :: "'o os \<Rightarrow> sockopt \<Rightarrow> nat \<Rightarrow> (unit, 'o) act" where
  "act_opt os opt v = act_sys (\<lambda>s. o_setsockopt os (sock s) opt v)"

text \<open>\<open>getaddrinfo\<close>, and the check of the length of the address it found\<close>

definition resolve :: "'o os \<Rightarrow> u8 list option \<Rightarrow> u8 list \<Rightarrow> nat \<Rightarrow> (sockaddr, 'o) act" where
  "resolve os node service len =
     act_bind (act_sys (\<lambda>s. o_getaddrinfo os node service (socket_family s) (socket_type s) (protocol s)))
       (\<lambda>a. if sa_len a = len then (\<lambda>c. (Inr a, c)) else act_fail EPROTOTYPE)"

definition any_addr :: "nat \<Rightarrow> u8 list" where
  "any_addr n = replicate n 0"

definition set_scope :: "'o os \<Rightarrow> u8 list option \<Rightarrow> 'o \<Rightarrow> sockaddr \<Rightarrow> sockaddr" where
  "set_scope os iface w a = (case iface of None \<Rightarrow> a | Some i \<Rightarrow> a\<lparr>sa_scope := o_ifindex os i w\<rparr>)"

definition act_self :: "('o \<Rightarrow> sockaddr \<Rightarrow> sockaddr) \<Rightarrow> (unit, 'o) act" where
  "act_self f c = (Inr (), (fst c)\<lparr>self := f (snd c) (self (fst c))\<rparr>, snd c)"

definition act_peer :: "('o \<Rightarrow> sockaddr \<Rightarrow> sockaddr) \<Rightarrow> (unit, 'o) act" where
  "act_peer f c = (Inr (), (fst c)\<lparr>peer := f (snd c) (peer (fst c))\<rparr>, snd c)"

definition act_bind_self :: "'o os \<Rightarrow> (unit, 'o) act" where
  "act_bind_self os = act_sys (\<lambda>s. o_bind os (sock s) (self s))"

definition open_ipv4 :: "'o os \<Rightarrow> u8 list option \<Rightarrow> u8 list \<Rightarrow> (unit, 'o) act" where
  "open_ipv4 os node service c =
     (if server (fst c)
      then act_bind (resolve os node service 16) (\<lambda>a.
           act_seq (act_self (\<lambda>w _. a\<lparr>sa_addr := any_addr 4\<rparr>))
           (act_bind_self os))
      else act_seq (act_self (\<lambda>w a. a\<lparr>sa_len := 16, sa_family := AF_INET, sa_port := 0, sa_addr := any_addr 4\<rparr>))
          (act_seq (act_bind_self os)
          (act_bind (resolve os node service 16) (\<lambda>a. act_peer (\<lambda>w _. a))))) c"

definition open_ipv6 :: "'o os \<Rightarrow> u8 list option \<Rightarrow> u8 list option \<Rightarrow> u8 list \<Rightarrow> (unit, 'o) act" where
  "open_ipv6 os node iface service c =
     (if server (fst c)
      then act_bind (resolve os node service 28) (\<lambda>a.
           act_seq (act_self (\<lambda>w _. set_scope os iface w (a\<lparr>sa_addr := any_addr 16\<rparr>)))
           (act_bind_self os))
      else act_seq (act_self (\<lambda>w a. set_scope os iface w (a\<lparr>sa_len := 28, sa_family := AF_INET6, sa_port := 0, sa_addr := any_addr 16\<rparr>)))
          (act_seq (act_bind_self os)
          (act_bind (resolve os node service 28) (\<lambda>a. act_peer (\<lambda>w _. set_scope os iface w a))))) c"

text \<open>\<open>connect\<close> on a socket that does not block: only success is looked at.\<close>

definition try_connect :: "'o os \<Rightarrow> (unit, 'o) act" where
  "try_connect os c = (case o_connect os (sock (fst c)) (peer (fst c)) (snd c) of
      (Ret _, w) \<Rightarrow> (Inr (), (fst c)\<lparr>connected := True\<rparr>, w)
    | (Err _, w) \<Rightarrow> (Inr (), fst c, w))"

definition open_type :: "'o os \<Rightarrow> bool \<Rightarrow> (unit, 'o) act" where
  "open_type os broadcast c =
     (case socket_type (fst c) of
        SOCK_DGRAM \<Rightarrow> if broadcast then act_opt os SO_BROADCAST 1 else act_ok
      | SOCK_STREAM \<Rightarrow>
          act_seq (act_opt os TCP_NODELAY 1)
         (act_seq (act_opt os SO_KEEPALIVE 1)
         (if server (fst c) then act_sys (\<lambda>s. o_listen os (sock s)) else try_connect os))
      | SOCK_NONE \<Rightarrow> act_fail EPROTOTYPE) c"

definition open_socket :: "'o os \<Rightarrow> u8 list \<Rightarrow> (unit, 'o) act" where
  "open_socket os p c =
     (act_seq (act_set (\<lambda>s. s\<lparr>socket_family := fst (host_family (socket_family s) p)\<rparr>))
     (case stream_host (socket_family (fst c)) p of
        Inl e \<Rightarrow> act_fail e
      | Inr (fam, node, iface, service) \<Rightarrow>
          (let node' = (if node = [] then None else Some node) in
           act_seq (act_set (\<lambda>s. s\<lparr>server := server s \<or> node = []\<rparr>))
          (act_seq (act_descriptor (\<lambda>s. o_socket os (socket_family s) (socket_type s) (protocol s)))
          (act_seq (act_sys (\<lambda>s. o_nonblock os (sock s)))
          (act_seq (act_opt os SO_SNDBUF 0x100000)
          (act_seq (act_opt os SO_RCVBUF 0x100000)
          (act_seq (act_opt os SO_REUSEADDR 1)
          (case fam of
             AF_INET \<Rightarrow> act_seq (open_ipv4 os node' service) (open_type os True)
           | AF_INET6 \<Rightarrow> act_seq (open_ipv6 os node' iface service) (open_type os False)
           | AF_UNSPEC \<Rightarrow> act_fail EPROTOTYPE))))))))) c"

definition open_url :: "'o os \<Rightarrow> (unit, 'o) act" where
  "open_url os c =
     (case o_alloc os (snd c) of
        (False, w) \<Rightarrow> act_fail ENOMEM (fst c, w)
      | (True, w) \<Rightarrow>
          (case stream_scheme (url (fst c)) (fst c) of
             None \<Rightarrow> act_fail ENOPROTOOPT (fst c, w)
           | Some (p, s) \<Rightarrow>
               (if p = [] then act_fail EDESTADDRREQ
                else if serial s then open_serial os p
                else open_socket os p) (s, w)))"

definition stream_reinit :: "'o os \<Rightarrow> stream \<Rightarrow> 'o \<Rightarrow> u32 \<times> stream \<times> 'o" where
  "stream_reinit os s w =
     (case open_url os (lv2_osc_stream_deinit os s w) of
        (Inr _, s1, w1) \<Rightarrow> (LV2_OSC_NONE, s1, w1)
      | (Inl ev, s1, w1) \<Rightarrow> (case close_socket os (sock s1) w1 of (f, w2) \<Rightarrow> (ev, s1\<lparr>sock := f\<rparr>, w2)))"

definition lv2_osc_stream_init :: "'o os \<Rightarrow> u8 list \<Rightarrow> 'o \<Rightarrow> u32 \<times> stream \<times> 'o" where
  "lv2_osc_stream_init os u w = stream_reinit os
     \<lparr>socket_family = AF_UNSPEC, socket_type = SOCK_NONE, protocol = IPPROTO_NONE, server = False, slip = False,
      serial = False, connected = False, sock = - 1, fd = - 1, self = no_addr, peer = no_addr,
      tx_buf = replicate BUF_LEN 0, rx_buf = replicate BUF_LEN 0, rx_off = 0, url = take (PATH_MAX - 1) u\<rparr> w"

end
