(* ===== verification/Stream_Run.thy ===== *)
theory Stream_Run
  imports Stream
begin

text \<open>
  \<open>lv2_osc_stream_run\<close> of \<open>stream.h\<close>: connections are handled, what the driver has to send is sent,
  what has arrived is handed to the driver. The driver is a record of the four callbacks and of
  the stores through the pointer its \<open>write_req\<close> returns; it works on a state \<open>'d\<close>. The loops go on
  as long as driver and system let them, so they run on fuel.
\<close>

section \<open>The driver\<close>

text \<open>
  \<open>write_req\<close> returns a pointer and the \<open>maximum\<close>; \<open>read_req\<close> the bytes of the next chunk. A callback
  or store that is \<open>None\<close> runs into undefined behaviour.
\<close>

record 'd driver =
  write_req :: "nat \<Rightarrow> 'd \<Rightarrow> (u64 \<times> nat) option \<times> 'd"
  store :: "u64 \<Rightarrow> u8 list \<Rightarrow> 'd \<Rightarrow> 'd option"
  write_adv :: "nat \<Rightarrow> 'd \<Rightarrow> 'd option"
  read_req :: "'d \<Rightarrow> (u8 list option \<times> 'd) option"
  read_adv :: "'d \<Rightarrow> 'd option"

definition REQBUF :: nat where "REQBUF = 1024"

text \<open>The state of a run: events so far, stream, driver and system.\<close>

type_synonym ('d, 'o) state = "u32 \<times> stream \<times> 'd \<times> 'o"

section \<open>UDP\<close>

fun udp_send :: "nat \<Rightarrow> 'o os \<Rightarrow> 'd driver \<Rightarrow> ('d, 'o) state \<Rightarrow> ('d, 'o) state run" where
  "udp_send 0 os dr (ev, s, d, w) = Endless"
| "udp_send (Suc k) os dr (ev, s, d, w) =
     run_bind (lift (read_req dr d)) (\<lambda>(msg, d).
       case msg of
         None \<Rightarrow> Done (ev, s, d, w)
       | Some bs \<Rightarrow>
           (case o_sendto os (sock s) bs (peer s) w of
              (Err e, w) \<Rightarrow> Done (if e = EAGAIN then ev else stream_errno ev e, s, d, w)
            | (Ret n, w) \<Rightarrow>
                if n \<noteq> length bs then Done (stream_errno ev EIO, s, d, w)
                else run_bind (lift (read_adv dr d)) (\<lambda>d. udp_send k os dr (ev OR LV2_OSC_SEND, s, d, w))))"

fun udp_recv :: "nat \<Rightarrow> 'o os \<Rightarrow> 'd driver \<Rightarrow> ('d, 'o) state \<Rightarrow> ('d, 'o) state run" where
  "udp_recv 0 os dr (ev, s, d, w) = Endless"
| "udp_recv (Suc k) os dr (ev, s, d, w) =
     (case write_req dr REQBUF d of
        (None, d) \<Rightarrow> Done (ev, s, d, w)
      | (Some (p, max_len), d) \<Rightarrow>
          (case o_recvfrom os (sock s) max_len w of
             (Err e, w) \<Rightarrow> Done (if e = EAGAIN then ev else stream_errno ev e, s, d, w)
           | (Ret (bs, from), w) \<Rightarrow>
               if bs = [] then Done (ev, s, d, w)
               else run_bind (lift (store dr p bs d)) (\<lambda>d.
                    run_bind (lift (write_adv dr (length bs) d)) (\<lambda>d.
                      udp_recv k os dr (ev OR LV2_OSC_RECV, s\<lparr>peer := from\<rparr>, d, w)))))"

definition stream_run_udp :: "nat \<Rightarrow> 'o os \<Rightarrow> 'd driver \<Rightarrow> stream \<Rightarrow> 'd \<Rightarrow> 'o \<Rightarrow> ('d, 'o) state run" where
  "stream_run_udp k os dr s d w =
     run_bind (if sa_len (peer s) \<noteq> 0 then udp_send k os dr (LV2_OSC_NONE, s, d, w) else Done (LV2_OSC_NONE, s, d, w))
       (udp_recv k os dr)"

section \<open>Frames\<close>

text \<open>A packet is framed in \<open>tx_buf\<close>; one that is too long for it is dropped.\<close>

definition stream_frame :: "u8 list \<Rightarrow> stream \<Rightarrow> (stream \<times> u8 list) run" where
  "stream_frame bs s =
     (if slip s then
        (if length bs \<le> BUF_LEN
         then run_bind (lift (lv2_osc_slip_encode_inline (overwrite 0 bs (tx_buf s)) (length bs)))
           (\<lambda>(b, n). Done (s\<lparr>tx_buf := b\<rparr>, take n b))
         else Done (s, []))
      else if length bs + 4 \<le> BUF_LEN
      then (let b = overwrite 4 bs (overwrite 0 (be32 (of_nat (length bs))) (tx_buf s)) in
            Done (s\<lparr>tx_buf := b\<rparr>, take (length bs + 4) b))
      else Done (s, []))"

text \<open>The descriptor in use, \<open>int *fd\<close>\<close>

definition stream_fd :: "stream \<Rightarrow> int" where
  "stream_fd s = (if server s then fd s else sock s)"

definition stream_drop :: "'o os \<Rightarrow> stream \<Rightarrow> 'o \<Rightarrow> stream \<times> 'o" where
  "stream_drop os s w =
     (case close_socket os (stream_fd s) w of
        (f, w) \<Rightarrow> ((if server s then s\<lparr>fd := f\<rparr> else s\<lparr>sock := f\<rparr>)\<lparr>connected := False\<rparr>, w))"

text \<open>
  What TCP and serial streams share. They differ in what an error does: over TCP it closes the
  connection (\<open>hard\<close>), on a serial line it does not; an end of file leaves a serial line as it is.
\<close>

definition on_error :: "bool \<Rightarrow> 'o os \<Rightarrow> u32 \<Rightarrow> stream \<Rightarrow> 'o \<Rightarrow> stream \<times> 'o" where
  "on_error hard os e s w = (if hard then stream_drop os s w else (s, w))"

fun stream_send :: "nat \<Rightarrow> bool \<Rightarrow> 'o os \<Rightarrow> 'd driver \<Rightarrow> int \<Rightarrow> ('d, 'o) state \<Rightarrow> ('d, 'o) state run" where
  "stream_send 0 hard os dr f (ev, s, d, w) = Endless"
| "stream_send (Suc k) hard os dr f (ev, s, d, w) =
     run_bind (lift (read_req dr d)) (\<lambda>(msg, d).
       case msg of
         None \<Rightarrow> Done (ev, s, d, w)
       | Some bs \<Rightarrow> run_bind (stream_frame bs s) (\<lambda>(s, frame).
           case (if frame = [] then (Ret 0, w) else o_send os f frame w) of
             (Err e, w) \<Rightarrow>
               if e = EAGAIN then Done (ev, s, d, w)
               else (case on_error hard os e s w of (s, w) \<Rightarrow> Done (stream_errno ev e, s, d, w))
           | (Ret n, w) \<Rightarrow>
               if n \<noteq> length frame then Done (stream_errno ev EIO, s, d, w)
               else run_bind (lift (read_adv dr d)) (\<lambda>d. stream_send k hard os dr f (ev OR LV2_OSC_SEND, s, d, w))))"

section \<open>Receiving SLIP frames\<close>

text \<open>
  The frames in \<open>rx_buf\<close> from \<open>ptr\<close> on, of which \<open>n\<close> bytes have arrived, are decoded in place and handed
  over. A frame for which the driver has no room stays.
\<close>

function (sequential) slip_dispatch :: "'d driver \<Rightarrow> nat \<Rightarrow> nat \<Rightarrow> u8 list \<Rightarrow> u32 \<Rightarrow> 'd \<Rightarrow> (nat \<times> nat \<times> u8 list \<times> u32 \<times> 'd) run" where
  "slip_dispatch dr ptr 0 rx ev d = Done (ptr, 0, rx, ev, d)"
| "slip_dispatch dr ptr (Suc m) rx ev d =
     (case lv2_osc_slip_decode_inline (drop ptr rx) (Suc m) of (b, parsed, sz) \<Rightarrow>
        let rx = take ptr rx @ b in
        run_bind
          (if sz = 0 then Done (parsed, ev, d)
           else (case write_req dr sz d of
                   (None, d) \<Rightarrow> Done (0, stream_errno ev ENOMEM, d)
                 | (Some (p, _), d) \<Rightarrow>
                     run_bind (lift (store dr p (take sz b) d)) (\<lambda>d.
                     run_bind (lift (write_adv dr sz d)) (\<lambda>d. Done (parsed, ev OR LV2_OSC_RECV, d)))))
          (\<lambda>(parsed, ev, d).
             if parsed = 0 then Done (ptr, Suc m, rx, ev, d)
             else slip_dispatch dr (ptr + parsed) (Suc m - parsed) rx ev d))"
  by pat_completeness auto
termination
  by (relation "measure (\<lambda>(dr, ptr, n, rx, ev, d). n)") auto

declare slip_dispatch.simps [simp del]

text \<open>The loop around it is left after one round.\<close>

definition slip_recv :: "bool \<Rightarrow> 'o os \<Rightarrow> 'd driver \<Rightarrow> int \<Rightarrow> ('d, 'o) state \<Rightarrow> ('d, 'o) state run" where
  "slip_recv hard os dr f st =
     (case st of (ev, s, d, w) \<Rightarrow>
      case o_recv os f (BUF_LEN - rx_off s) w of
        (Err e, w) \<Rightarrow>
          if e = EAGAIN then Done (ev, s, d, w)
          else (case on_error hard os e (s\<lparr>connected := False\<rparr>) w of (s, w) \<Rightarrow> Done (stream_errno ev e, s, d, w))
      | (Ret bs, w) \<Rightarrow>
          if bs = [] then (if hard then (case stream_drop os s w of (s, w) \<Rightarrow> Done (ev, s, d, w)) else Done (ev, s, d, w))
          else run_bind (slip_dispatch dr 0 (length bs + rx_off s) (overwrite (rx_off s) bs (rx_buf s)) ev d)
            (\<lambda>(ptr, n, rx, ev, d).
               Done (ev, s\<lparr>rx_buf := (if 0 < n then overwrite 0 (part rx ptr n) rx else rx), rx_off := n\<rparr>, d, w)))"

section \<open>Receiving frames with a size\<close>

text \<open>
  The size comes first, then as many bytes go straight to the driver. What the second call
  returns is not looked at: the driver is told of \<open>recvd\<close> bytes, all ones after an error.
\<close>

fun prefix_recv :: "nat \<Rightarrow> bool \<Rightarrow> 'o os \<Rightarrow> 'd driver \<Rightarrow> int \<Rightarrow> ('d, 'o) state \<Rightarrow> ('d, 'o) state run" where
  "prefix_recv 0 hard os dr f (ev, s, d, w) = Endless"
| "prefix_recv (Suc k) hard os dr f (ev, s, d, w) =
     (case write_req dr REQBUF d of
        (None, d) \<Rightarrow> Done (ev, s, d, w)
      | (Some (p, _), d) \<Rightarrow>
          (case o_recv os f 4 w of
             (Err e, w) \<Rightarrow>
               if e = EAGAIN then Done (ev, s, d, w)
               else (case on_error hard os e (s\<lparr>connected := False\<rparr>) w of (s, w) \<Rightarrow> Done (stream_errno ev e, s, d, w))
           | (Ret sz, w) \<Rightarrow>
               if sz = [] then (if hard then (case stream_drop os s w of (s, w) \<Rightarrow> Done (ev, s, d, w)) else Done (ev, s, d, w))
               else run_bind
                 (if length sz = 4
                  then (case o_recv os f (unat (de32 sz)) w of
                          (Err e, w) \<Rightarrow> Done (2 ^ 64 - 1, d, w)
                        | (Ret bs, w) \<Rightarrow> run_bind (lift (store dr p bs d)) (\<lambda>d. Done (length bs, d, w)))
                  else Done (length sz, d, w))
                 (\<lambda>(recvd, d, w). run_bind (lift (write_adv dr recvd d)) (\<lambda>d.
                    prefix_recv k hard os dr f (ev OR LV2_OSC_RECV, s, d, w)))))"

definition stream_recv :: "nat \<Rightarrow> bool \<Rightarrow> 'o os \<Rightarrow> 'd driver \<Rightarrow> int \<Rightarrow> ('d, 'o) state \<Rightarrow> ('d, 'o) state run" where
  "stream_recv k hard os dr f st =
     (if slip (fst (snd st)) then slip_recv hard os dr f st else prefix_recv k hard os dr f st)"

section \<open>TCP\<close>

text \<open>An option of an accepted connection that cannot be set is reported, the last one wins.\<close>

definition accept_opt :: "('o \<Rightarrow> unit sys \<times> 'o) \<Rightarrow> u32 \<times> 'o \<Rightarrow> u32 \<times> 'o" where
  "accept_opt call c = (case call (snd c) of (Err e, w) \<Rightarrow> (stream_errno (fst c) e, w) | (Ret _, w) \<Rightarrow> (fst c, w))"

definition tcp_accept :: "'o os \<Rightarrow> u32 \<times> stream \<times> 'o \<Rightarrow> u32 \<times> stream \<times> 'o" where
  "tcp_accept os c =
     (case c of (ev, s, w) \<Rightarrow>
      case o_accept os (sock s) w of
        (Err e, w) \<Rightarrow> (ev, s\<lparr>peer := (peer s)\<lparr>sa_len := 28\<rparr>, fd := - 1\<rparr>, w)
      | (Ret (f, from), w) \<Rightarrow>
          (let opt = \<lambda>g opt v. accept_opt (o_setsockopt os g opt v) in
           case opt f SO_RCVBUF 0x100000 (opt f SO_SNDBUF 0x100000 (opt (sock s) SO_KEEPALIVE 1
                 (opt f TCP_NODELAY 1 (accept_opt (o_nonblock os f) (ev, w))))) of
             (ev, w) \<Rightarrow> (ev, s\<lparr>peer := from, fd := f, connected := True\<rparr>, w)))"

definition tcp_reconnect :: "'o os \<Rightarrow> u32 \<times> stream \<times> 'o \<Rightarrow> u32 \<times> stream \<times> 'o" where
  "tcp_reconnect os c =
     (case c of (ev, s, w) \<Rightarrow>
      case (if sock s < 0 then stream_reinit os s w else (ev, s, w)) of
        (ev, s, w) \<Rightarrow> (case try_connect os (s, w) of (_, s, w) \<Rightarrow> (ev, s, w)))"

definition stream_run_tcp :: "nat \<Rightarrow> 'o os \<Rightarrow> 'd driver \<Rightarrow> stream \<Rightarrow> 'd \<Rightarrow> 'o \<Rightarrow> ('d, 'o) state run" where
  "stream_run_tcp k os dr s d w =
     (case (if connected s then (LV2_OSC_NONE, s, w)
            else if server s then tcp_accept os (LV2_OSC_NONE, s, w)
            else tcp_reconnect os (LV2_OSC_NONE, s, w)) of
        (ev, s, w) \<Rightarrow>
          run_bind (if connected s \<and> 0 \<le> stream_fd s then stream_send k True os dr (stream_fd s) (ev, s, d, w)
                    else Done (ev, s, d, w)) (\<lambda>(ev, s, d, w).
          run_bind (if connected s \<and> 0 \<le> stream_fd s then stream_recv k True os dr (stream_fd s) (ev, s, d, w)
                    else Done (ev, s, d, w)) (\<lambda>(ev, s, d, w).
            Done (if connected s then ev OR LV2_OSC_CONN else ev, s, d, w))))"

section \<open>Serial lines, and the dispatch\<close>

definition stream_run_ser :: "nat \<Rightarrow> 'o os \<Rightarrow> 'd driver \<Rightarrow> stream \<Rightarrow> 'd \<Rightarrow> 'o \<Rightarrow> ('d, 'o) state run" where
  "stream_run_ser k os dr s d w =
     run_bind (if 0 \<le> sock s then stream_send k False os dr (sock s) (LV2_OSC_NONE, s, d, w)
               else Done (LV2_OSC_NONE, s, d, w)) (\<lambda>(ev, s, d, w).
     run_bind (if 0 \<le> sock s then stream_recv k False os dr (sock s) (ev, s, d, w)
               else Done (ev, s, d, w)) (\<lambda>(ev, s, d, w).
       Done (if connected s then ev OR LV2_OSC_CONN else ev, s, d, w)))"

definition lv2_osc_stream_run :: "nat \<Rightarrow> 'o os \<Rightarrow> 'd driver \<Rightarrow> stream \<Rightarrow> 'd \<Rightarrow> 'o \<Rightarrow> ('d, 'o) state run" where
  "lv2_osc_stream_run k os dr s d w =
     (case socket_type s of
        SOCK_DGRAM \<Rightarrow> stream_run_udp k os dr s d w
      | SOCK_STREAM \<Rightarrow> stream_run_tcp k os dr s d w
      | SOCK_NONE \<Rightarrow> stream_run_ser k os dr s d w)"

definition lv2_osc_stream_get_file_descriptors :: "stream \<Rightarrow> int \<times> int" where
  "lv2_osc_stream_get_file_descriptors s = (sock s, fd s)"

definition lv2_osc_stream_pollin :: "nat \<Rightarrow> 'o os \<Rightarrow> 'd driver \<Rightarrow> int \<Rightarrow> stream \<Rightarrow> 'd \<Rightarrow> 'o \<Rightarrow> ('d, 'o) state run" where
  "lv2_osc_stream_pollin k os dr timeout s d w =
     (case lv2_osc_stream_get_file_descriptors s of (f, g) \<Rightarrow>
      case o_poll os f g timeout w of
        (Err e, w) \<Rightarrow> Done (stream_errno LV2_OSC_NONE e, s, d, w)
      | (Ret _, w) \<Rightarrow> lv2_osc_stream_run k os dr s d w)"

end
