(* ===== verification/Io.thy ===== *)
theory Io
  imports Complex_Main Plugin Stream_Run
begin

text \<open>
  The plugin \<open>eteroj_io.c\<close>: OSC packets go from an atom port to a stream and back. The real-time
  thread and the worker share three ring buffers; the worker owns the stream. Bundles with a time
  wait in a list until their period comes. What the host provides is a parameter: the forge, the
  lookup of properties, the URI map, its scheduler \<open>osc2frames\<close>, and the C library's \<open>qsort\<close> and
  \<open>strerror_r\<close>. The doubles of the scheduler are finite, so they are rational numbers.
\<close>

section \<open>State\<close>

definition MTU_SIZE :: nat where "MTU_SIZE = 1500"
definition LIST_SIZE :: nat where "LIST_SIZE = 2048"
definition STR_LEN :: nat where "STR_LEN = 128"

record entry =
  l_frames :: rat
  l_size :: nat
  l_buf :: "u8 list"

record rings =
  from_worker :: varchunk
  to_worker :: varchunk
  to_thread :: varchunk

text \<open>What the real-time thread works on, beside the forge and the properties; what the worker works on.\<close>

record io_rt =
  rings :: rings
  pool :: "entry list"
  nlist :: nat
  status_updated :: bool

record io_wk =
  stream :: stream
  rolling :: bool
  osc_url :: "u8 list option"

text \<open>Identifiers, and addresses: of the buffers, of \<open>state.osc_error\<close> and \<open>state.osc_connected\<close>.\<close>

record io =
  io_urid :: lv2_osc_urid
  io_connected :: u32
  io_error :: u32
  io_string :: u32
  at_from :: addr
  at_to :: addr
  at_thread :: addr
  at_list :: addr
  at_buf :: addr
  at_error :: addr
  at_connected :: addr

record 'f io_host =
  ih_forge :: "'f forge"
  ih_get :: object_get
  ih_object :: "u32 \<Rightarrow> bool"
  ih_map :: "u8 list \<Rightarrow> u32"
  ih_unmap :: "u32 \<Rightarrow> u8 list option"
  ih_sched :: "(u64 \<Rightarrow> rat) option"
  ih_sort :: "entry list \<Rightarrow> entry list"
  ih_strerror :: "u32 \<Rightarrow> u8 list option"

type_synonym 'f io_world = "('f \<times> io_rt) world"

definition rt :: "'f io_world \<Rightarrow> io_rt" where
  "rt w = snd (pforge w)"

definition set_rt :: "io_rt \<Rightarrow> 'f io_world \<Rightarrow> 'f io_world" where
  "set_rt x w = w\<lparr>pforge := (fst (pforge w), x)\<rparr>"

definition set_rings :: "rings \<Rightarrow> 'f io_world \<Rightarrow> 'f io_world" where
  "set_rings r w = set_rt ((rt w)\<lparr>rings := r\<rparr>) w"

section \<open>The driver of the stream\<close>

definition data_recv_req :: "nat \<Rightarrow> rings \<Rightarrow> (u64 \<times> nat) option \<times> rings" where
  "data_recv_req n d = (case varchunk_write_request_max (of_nat n) (from_worker d) of
     (p, v) \<Rightarrow> (map_option (\<lambda>p. (p, unat (rsvd v))) p, d\<lparr>from_worker := v\<rparr>))"

definition data_recv_store :: "u64 \<Rightarrow> u8 list \<Rightarrow> rings \<Rightarrow> rings option" where
  "data_recv_store p bs d = map_option (\<lambda>v. d\<lparr>from_worker := v\<rparr>) (chunk_store p bs (from_worker d))"

definition data_recv_adv :: "nat \<Rightarrow> rings \<Rightarrow> rings option" where
  "data_recv_adv n d = map_option (\<lambda>v. d\<lparr>from_worker := v\<rparr>) (varchunk_write_advance (of_nat n) (from_worker d))"

definition data_send_req :: "rings \<Rightarrow> (u8 list option \<times> rings) option" where
  "data_send_req d = Option.bind (ring_front (to_worker d)) (\<lambda>(x, v).
     case x of
       None \<Rightarrow> Some (None, d\<lparr>to_worker := v\<rparr>)
     | Some (p, n) \<Rightarrow> map_option (\<lambda>bs. (Some bs, d\<lparr>to_worker := v\<rparr>)) (chunk_load p n v))"

definition data_send_adv :: "rings \<Rightarrow> rings option" where
  "data_send_adv d = map_option (\<lambda>v. d\<lparr>to_worker := v\<rparr>) (varchunk_read_advance (to_worker d))"

definition io_driver :: "rings driver" where
  "io_driver = \<lparr>write_req = data_recv_req, store = data_recv_store, write_adv = data_recv_adv,
     read_req = data_send_req, read_adv = data_send_adv\<rparr>"

section \<open>The URL\<close>

text \<open>
  \<open>_url_change\<close> writes a message into 128 bytes on the stack and hands it to the worker. Whether
  it has been written is not looked at. The bytes before it is written do not matter: a zero each.
\<close>

definition url_change :: "io \<Rightarrow> u8 list \<Rightarrow> 'f io_world \<Rightarrow> 'f io_world option" where
  "url_change h u w =
     (case lv2_osc_writer_message_vararg ucast (cstr ''/eteroj/url'') (cstr ''s'') [VaBytes u]
         (region (at_buf h) (replicate STR_LEN 0), lv2_osc_writer_initialize (at_buf h) (of_nat STR_LEN)) of
        (Fault, s) \<Rightarrow> None
      | (_, (m, wr)) \<Rightarrow>
          (let n = fst (lv2_osc_writer_finalize wr) in
           if n = 0 then Some w
           else Option.bind (ld m (at_buf h) (unat n)) (\<lambda>bs.
             map_option (\<lambda>(ok, v). set_rings ((rings (rt w))\<lparr>to_thread := v\<rparr>) w)
               (ring_send bs (to_thread (rings (rt w)))))))"

definition intercept :: "io \<Rightarrow> ('f \<times> io_rt) callback" where
  "intercept h frames impl w = Option.bind (c_str (pmem w) (value_body impl)) (\<lambda>u. url_change h u w)"

section \<open>The list of bundles that wait\<close>

text \<open>\<open>_cmp\<close>: the entries in use by their time, the free ones behind them\<close>

definition entry_cmp :: "entry \<Rightarrow> entry \<Rightarrow> int" where
  "entry_cmp a b =
     (if l_size a \<noteq> 0 \<and> l_size b \<noteq> 0 then (if l_frames a < l_frames b then - 1 else if l_frames a > l_frames b then 1 else 0)
      else if l_size a \<noteq> 0 then - 1 else if l_size b \<noteq> 0 then 1 else 0)"

definition sort_list :: "'f io_host \<Rightarrow> io_rt \<Rightarrow> io_rt" where
  "sort_list e x = x\<lparr>pool := ih_sort e (take (nlist x) (pool x)) @ drop (nlist x) (pool x)\<rparr>"

definition invalidate_list :: "entry \<Rightarrow> entry" where
  "invalidate_list l = l\<lparr>l_size := 0\<rparr>"

text \<open>The entry \<open>_add_list\<close> returns is filled at once.\<close>

definition add_list :: "rat \<Rightarrow> u8 list \<Rightarrow> io_rt \<Rightarrow> io_rt" where
  "add_list fr bs x =
     (if LIST_SIZE \<le> nlist x then x
      else x\<lparr>pool := (pool x)[nlist x := (pool x ! nlist x)\<lparr>l_frames := fr, l_size := length bs,
          l_buf := overwrite 0 bs (l_buf (pool x ! nlist x))\<rparr>], nlist := nlist x + 1\<rparr>)"

text \<open>
  The loops over the list end at an entry that is free. Past the end of the array (\<open>[]\<close>) the
  behaviour is undefined.
\<close>

fun reschedule :: "(u64 \<Rightarrow> rat) \<Rightarrow> entry list \<Rightarrow> entry list option" where
  "reschedule osc2frames [] = None"
| "reschedule osc2frames (l # ls) =
     (if l_size l = 0 then Some (l # ls)
      else (let fr = osc2frames (de64 (part (l_buf l) 8 8)) in
            map_option (Cons (l\<lparr>l_frames := (if fr < 0 then 0 else fr)\<rparr>)) (reschedule osc2frames ls)))"

section \<open>Packets that come in\<close>

text \<open>The conversion of a double to \<open>int64_t\<close>\<close>

definition c_int64 :: "rat \<Rightarrow> u64" where
  "c_int64 x = of_int (if x < 0 then - \<lfloor>- x\<rfloor> else \<lfloor>x\<rfloor>)"

definition io_parse :: "'f io_host \<Rightarrow> io \<Rightarrow> nat \<Rightarrow> rat \<Rightarrow> mem \<Rightarrow> addr \<Rightarrow> u64 \<Rightarrow> 'f io_world \<Rightarrow> 'f io_world run" where
  "io_parse e h k frames m buf n w =
     (let w1 = (if pref w then (case beside (ih_forge e) (FFrameTime (c_int64 frames)) (pforge w) of
                   (ok, f) \<Rightarrow> w\<lparr>pforge := f, pref := ok\<rparr>) else w) in
      if pref w1
      then (case lv2_osc_forge_packet k (beside (ih_forge e)) (io_urid h) (ih_map e) m buf n (pforge w1) of
              None \<Rightarrow> Endless
            | Some (Fault, f) \<Rightarrow> Undefined
            | Some (Ok _, f) \<Rightarrow> Done (w1\<lparr>pforge := f\<rparr>)
            | Some (Fail, f) \<Rightarrow> Done (w1\<lparr>pforge := f, pref := False\<rparr>))
      else Done w1)"

text \<open>
  \<open>_unroll\<close>: what is no OSC is dropped. The item of a bundle is used without a look whether there
  is one.
\<close>

definition io_unroll :: "'f io_host \<Rightarrow> io \<Rightarrow> nat \<Rightarrow> mem \<Rightarrow> addr \<Rightarrow> u64 \<Rightarrow> 'f io_world \<Rightarrow> 'f io_world run" where
  "io_unroll e h k m buf n w =
     (let r = lv2_osc_reader_initialize buf n in
      case lv2_osc_reader_is_bundle m r of
        None \<Rightarrow> Undefined
      | Some True \<Rightarrow>
          (case bundle_begin m n r of
             (Ok itm, _) \<Rightarrow>
               (case ih_sched e of
                  None \<Rightarrow> io_parse e h k 0 m buf n w
                | Some osc2frames \<Rightarrow>
                    if itimetag itm = LV2_OSC_IMMEDIATE then io_parse e h k 0 m buf n w
                    else if unat n \<le> MTU_SIZE
                    then run_bind (lift (ld m buf (unat n))) (\<lambda>bs.
                      Done (set_rt (add_list (osc2frames (itimetag itm)) bs (rt w)) w))
                    else Done w)
           | _ \<Rightarrow> Undefined)
      | Some False \<Rightarrow>
          (case lv2_osc_reader_is_message m r of
             None \<Rightarrow> Undefined
           | Some True \<Rightarrow> io_parse e h k 0 m buf n w
           | Some False \<Rightarrow> Done w))"

fun io_incoming :: "nat \<Rightarrow> 'f io_host \<Rightarrow> io \<Rightarrow> nat \<Rightarrow> 'f io_world \<Rightarrow> 'f io_world run" where
  "io_incoming 0 e h k w = Endless"
| "io_incoming (Suc j) e h k w =
     run_bind (lift (ring_front (from_worker (rings (rt w))))) (\<lambda>(x, v).
       let w1 = set_rings ((rings (rt w))\<lparr>from_worker := v\<rparr>) w in
       case x of
         None \<Rightarrow> Done w1
       | Some (p, n) \<Rightarrow>
           run_bind (io_unroll e h k (ring_mem (at_from h) v) (at_from h + p) (ucast n) w1) (\<lambda>w2.
           run_bind (lift (varchunk_read_advance (from_worker (rings (rt w2))))) (\<lambda>v2.
             io_incoming j e h k (set_rings ((rings (rt w2))\<lparr>from_worker := v2\<rparr>) w2))))"

text \<open>The bundles of this period; how many there were\<close>

fun io_due :: "'f io_host \<Rightarrow> io \<Rightarrow> nat \<Rightarrow> u32 \<Rightarrow> entry list \<Rightarrow> 'f io_world \<Rightarrow> (entry list \<times> nat \<times> 'f io_world) run" where
  "io_due e h k nsamples [] w = Undefined"
| "io_due e h k nsamples (l # ls) w =
     (if l_size l = 0 then Done (l # ls, 0, w)
      else if 0 \<le> l_frames l \<and> of_nat (unat nsamples) \<le> l_frames l then Done (l # ls, 0, w)
      else let l1 = (if l_frames l < 0 then l\<lparr>l_frames := 0\<rparr> else l) in
        run_bind (io_parse e h k (l_frames l1) (region (at_list h) (l_buf l1)) (at_list h) (of_nat (l_size l1)) w) (\<lambda>w1.
        run_bind (io_due e h k nsamples ls w1) (\<lambda>(ls1, deleted, w2).
          Done (invalidate_list l1 # ls1, deleted + 1, w2))))"

section \<open>Packets that go out\<close>

text \<open>The body of an object is read as one whatever it is.\<close>

definition io_event :: "'f io_host \<Rightarrow> io \<Rightarrow> nat \<Rightarrow> u64 \<times> atom \<Rightarrow> 'f io_world \<Rightarrow> 'f io_world run" where
  "io_event e h k ev w = (case ev of (frames, a) \<Rightarrow>
     if atom_type a \<noteq> u_Object (io_urid h) then Done w
     else run_bind (lift (props_advance (beside (ih_forge e)) (intercept h) (ih_get e) (ih_object e) (ucast frames) a w))
       (\<lambda>(handled, w1).
         if handled then Done w1
         else run_bind (lift (object_otype (atom_body a))) (\<lambda>ot.
           if lv2_osc_is_message_or_bundle_type (io_urid h) ot
           then (case lv2_osc_writer_packet k (io_urid h) (ih_get e) (ih_unmap e) (atom_body a) of
                   None \<Rightarrow> Endless
                 | Some wr \<Rightarrow>
                     run_bind (lift (ring_write (at_to h) (ucast (atom_size a)) wr (to_worker (rings (rt w1))))) (\<lambda>(ok, v).
                       Done (set_rings ((rings (rt w1))\<lparr>to_worker := v\<rparr>) w1)))
           else Done w1)))"

fun io_events :: "'f io_host \<Rightarrow> io \<Rightarrow> nat \<Rightarrow> (u64 \<times> atom) list \<Rightarrow> 'f io_world \<Rightarrow> 'f io_world run" where
  "io_events e h k [] w = Done w"
| "io_events e h k (ev # evs) w = run_bind (io_event e h k ev w) (io_events e h k evs)"

section \<open>A period\<close>

text \<open>
  Sorting the list and taking the bundles that are due, between the arrival of new ones and the
  end of the period. \<open>old\<close> is the number of entries before the new ones arrived.
\<close>

definition io_schedule :: "'f io_host \<Rightarrow> io \<Rightarrow> nat \<Rightarrow> u32 \<Rightarrow> nat \<Rightarrow> 'f io_world \<Rightarrow> 'f io_world run" where
  "io_schedule e h k nsamples old w =
     (let w1 = (if nlist (rt w) \<noteq> old then set_rt (sort_list e (rt w)) w else w) in
      run_bind (io_due e h k nsamples (pool (rt w1)) w1) (\<lambda>(ls, deleted, w2).
        let x = (rt w2)\<lparr>pool := ls\<rparr> in
        Done (set_rt (if deleted = 0 then x else (sort_list e x)\<lparr>nlist := nlist x - deleted\<rparr>) w2)))"

definition io_reschedule :: "'f io_host \<Rightarrow> 'f io_world \<Rightarrow> 'f io_world run" where
  "io_reschedule e w =
     (case ih_sched e of
        None \<Rightarrow> Done w
      | Some osc2frames \<Rightarrow> run_bind (lift (reschedule osc2frames (pool (rt w)))) (\<lambda>ls.
          Done (set_rt ((rt w)\<lparr>pool := ls\<rparr>) w)))"

definition io_status :: "'f io_host \<Rightarrow> io \<Rightarrow> u32 \<Rightarrow> 'f io_world \<Rightarrow> 'f io_world run" where
  "io_status e h nsamples w =
     (if status_updated (rt w)
      then run_bind (lift (props_set (beside (ih_forge e)) (nsamples - 1) (io_connected h) w)) (\<lambda>w1.
           run_bind (lift (props_set (beside (ih_forge e)) (nsamples - 1) (io_error h) w1)) (\<lambda>w2.
             Done (set_rt ((rt w2)\<lparr>status_updated := False\<rparr>) w2)))
      else Done w)"

text \<open>
  \<open>run\<close>: at the end the sequence is closed, or cleared (\<open>False\<close>). The host is asked for the worker
  in the middle of it.
\<close>

definition io_run :: "'f io_host \<Rightarrow> io \<Rightarrow> nat \<Rightarrow> nat \<Rightarrow> u32 \<Rightarrow> (u64 \<times> atom) list \<Rightarrow> 'f io_world \<Rightarrow> (bool \<times> 'f io_world) run" where
  "io_run e h j k nsamples evs w =
     (case beside (ih_forge e) (FSequenceHead 0) (pforge w) of (ok, f) \<Rightarrow>
      run_bind (lift (props_idle (beside (ih_forge e)) (intercept h) 0 (w\<lparr>pforge := f, pref := ok\<rparr>))) (\<lambda>w1.
      run_bind (io_events e h k evs w1) (\<lambda>w2.
      run_bind (io_reschedule e w2) (\<lambda>w3.
      run_bind (io_incoming j e h k w3) (\<lambda>w4.
      run_bind (io_schedule e h k nsamples (nlist (rt w3)) w4) (\<lambda>w5.
      run_bind (io_status e h nsamples w5) (\<lambda>w6.
        Done (if pref w6 then (True, w6\<lparr>pforge := snd (beside (ih_forge e) FPop (pforge w6))\<rparr>) else (False, w6)))))))))"

section \<open>The state of the connection\<close>

text \<open>\<open>_handle_enum\<close>: the text of an error and whether there is a connection, as properties\<close>

definition handle_enum :: "'f io_host \<Rightarrow> io \<Rightarrow> u32 \<Rightarrow> 'f io_world \<Rightarrow> 'f io_world option" where
  "handle_enum e h ev w =
     (let err = (if ev AND LV2_OSC_ERR = 0 then []
                 else (case ih_strerror e (ev AND LV2_OSC_ERR) of None \<Rightarrow> cstr ''Unknown'' | Some s \<Rightarrow> s));
          conn = (if ev AND LV2_OSC_CONN = LV2_OSC_CONN then 1 else 0 :: u32) in
      Option.bind (c_str (pmem w) (at_error h)) (\<lambda>osc_error.
      Option.bind (if osc_error = err then Some w
          else Option.bind (st (pmem w) (at_error h) (take (STR_LEN - 1) (err @ replicate (STR_LEN - 1) 0))) (\<lambda>m.
            let w1 = w\<lparr>pmem := m\<rparr> in
            map_option (\<lambda>w2. set_rt ((rt w2)\<lparr>status_updated := True\<rparr>) w2)
              (case props_impl_get (impls (pp w1)) (io_error h) of
                 Ok (Some i) \<Rightarrow> props_impl_set i (io_string h) (of_nat (length err)) err w1
               | Ok None \<Rightarrow> Some w1
               | _ \<Rightarrow> None))) (\<lambda>w2.
      Option.bind (ld32 (pmem w2) (at_connected h)) (\<lambda>osc_connected.
        if osc_connected = conn then Some w2
        else map_option (\<lambda>m. set_rt ((rt w2)\<lparr>status_updated := True\<rparr>) (w2\<lparr>pmem := m\<rparr>)) (st32 (pmem w2) (at_connected h) conn)))))"

definition work_response :: "'f io_host \<Rightarrow> io \<Rightarrow> u32 \<Rightarrow> u32 \<Rightarrow> 'f io_world \<Rightarrow> 'f io_world option" where
  "work_response e h n body w = (if n = 4 then handle_enum e h body w else Some w)"

section \<open>The worker\<close>

definition io_activate :: "'o os \<Rightarrow> io_wk \<Rightarrow> 'o \<Rightarrow> u32 \<times> io_wk \<times> 'o" where
  "io_activate os x o1 =
     (case (rolling x, osc_url x) of
        (False, Some u) \<Rightarrow>
          (case lv2_osc_stream_init os u o1 of (ev, s, o2) \<Rightarrow>
             (ev, x\<lparr>stream := s, rolling := (ev AND LV2_OSC_ERR = LV2_OSC_NONE)\<rparr>, o2))
      | _ \<Rightarrow> (LV2_OSC_NONE, x, o1))"

definition io_deactivate :: "'o os \<Rightarrow> io_wk \<Rightarrow> 'o \<Rightarrow> io_wk \<times> 'o" where
  "io_deactivate os x o1 =
     (if rolling x then (case lv2_osc_stream_deinit os (stream x) o1 of (s, o2) \<Rightarrow> (x\<lparr>stream := s, rolling := False\<rparr>, o2))
      else (x, o1))"

text \<open>
  A message to the worker. \<open>arg\<close> is zero before it is read, and what could be read stays in it when
  the reader gives up: a null path or string is used all the same.
\<close>

definition thread_url :: "mem \<Rightarrow> addr \<Rightarrow> u64 \<Rightarrow> u8 list option option" where
  "thread_url m buf n =
     (let r = lv2_osc_reader_initialize buf n; is_url = (\<lambda>p. map_option (\<lambda>s. s = cstr ''/eteroj/url'') (c_str m p)) in
      case message_begin m n r of
        (Fault, _) \<Rightarrow> None
      | (Ok arg, _) \<Rightarrow>
          (case is_url (apath arg) of
             None \<Rightarrow> None
           | Some False \<Rightarrow> Some None
           | Some True \<Rightarrow> (case aval arg of UPtr p \<Rightarrow> map_option Some (c_str m p) | _ \<Rightarrow> None))
      | (Fail, _) \<Rightarrow>
          (if lv2_osc_reader_overflow r n then None
           else case lv2_osc_reader_get_string m r of
               (Ok p, _) \<Rightarrow> (case is_url p of Some False \<Rightarrow> Some None | _ \<Rightarrow> None)
             | _ \<Rightarrow> None))"

fun work_urls :: "nat \<Rightarrow> io \<Rightarrow> u8 list option \<Rightarrow> rings \<Rightarrow> (u8 list option \<times> rings) run" where
  "work_urls 0 h u d = Endless"
| "work_urls (Suc j) h u d =
     run_bind (lift (ring_front (to_thread d))) (\<lambda>(x, v).
       case x of
         None \<Rightarrow> Done (u, d\<lparr>to_thread := v\<rparr>)
       | Some (p, n) \<Rightarrow>
           run_bind (lift (thread_url (ring_mem (at_thread h) v) (at_thread h + p) (ucast n))) (\<lambda>new.
           run_bind (lift (varchunk_read_advance v)) (\<lambda>v1.
             work_urls j h (case new of None \<Rightarrow> u | Some s \<Rightarrow> Some s) (d\<lparr>to_thread := v1\<rparr>))))"

text \<open>\<open>_work\<close>; the result is what it responds with.\<close>

definition io_work :: "nat \<Rightarrow> nat \<Rightarrow> 'o os \<Rightarrow> io \<Rightarrow> io_wk \<Rightarrow> rings \<Rightarrow> 'o \<Rightarrow> (u32 \<times> io_wk \<times> rings \<times> 'o) run" where
  "io_work j k os h x d o1 =
     run_bind (work_urls j h None d) (\<lambda>(u, d1).
       case (case u of None \<Rightarrow> (x, o1) | Some s \<Rightarrow> io_deactivate os (x\<lparr>osc_url := Some s\<rparr>) o1) of (x1, o2) \<Rightarrow>
       case io_activate os x1 o2 of (ev, x2, o3) \<Rightarrow>
         if rolling x2
         then run_bind (lv2_osc_stream_run k os io_driver (stream x2) d1 o3) (\<lambda>(ev2, s, d2, o4).
           Done (ev OR ev2, x2\<lparr>stream := s\<rparr>, d2, o4))
         else Done (ev, x2, d1, o3))"

end
