(* ===== verification/Io_Ports.thy ===== *)
theory Io_Ports
  imports Io Pack
begin

text \<open>
  The ports of \<open>eteroj_io.c\<close>: packets at the input become chunks for the worker, chunks from the
  worker become packets at the output.
\<close>

section \<open>Packets that come in\<close>

definition io_forged :: "fcall list io_world \<Rightarrow> fcall list \<Rightarrow> fcall list io_world" where
  "io_forged w cs = w\<lparr>pforge := (fst (pforge w) @ cs, snd (pforge w))\<rparr>"

definition incoming_calls :: "'f io_host \<Rightarrow> io \<Rightarrow> rat \<Rightarrow> packet \<Rightarrow> fcall list" where
  "incoming_calls e h frames p = FFrameTime (c_int64 frames) # packet_calls (io_urid h) (ih_map e) p"

text \<open>Packets that do not wait: messages, bundles without a time, all when the host has no scheduler.\<close>

definition at_once :: "'f io_host \<Rightarrow> packet \<Rightarrow> bool" where
  "at_once e p \<longleftrightarrow> ih_sched e = None \<or> (case p of PMessage _ _ \<Rightarrow> True | PBundle t _ \<Rightarrow> t = LV2_OSC_IMMEDIATE)"

lemma io_parse_forges:
  assumes v: "rview m (lv2_osc_reader_initialize buf (of_nat (length bs))) bs" and p: "packet_wire p bs" "forge_ok p" "length bs < 2 ^ 31"
    and k: "packet_fuel p \<le> k" and w: "pref w" and e: "ih_forge e = recording"
  shows "io_parse e h k frames m buf (of_nat (length bs)) w = Done (io_forged w (incoming_calls e h frames p))"
proof -
  obtain f x where wf: "pforge w = (f, x)" by force
  then have "w\<lparr>pforge := g, pref := True\<rparr> = w\<lparr>pforge := g\<rparr>" for g using w by (cases w) simp
  with forge_packet_calls [OF v p k] w e wf show ?thesis
    by (simp add: io_parse_def incoming_calls_def io_forged_def beside_simps recording_def Let_def)
qed

lemma io_unroll_forges:
  assumes v: "rview m (lv2_osc_reader_initialize buf (of_nat (length bs))) bs" and p: "packet_wire p bs" "forge_ok p" "length bs < 2 ^ 31"
    and k: "packet_fuel p \<le> k" and w: "pref w" and e: "ih_forge e = recording" and now: "at_once e p"
  shows "io_unroll e h k m buf (of_nat (length bs)) w = Done (io_forged w (incoming_calls e h 0 p))"
proof (cases p)
  case (PMessage path as)
  with message_kind [OF v, of path as] p io_parse_forges [OF v p k w e] show ?thesis
    by (simp add: io_unroll_def Let_def)
next
  case (PBundle t ps)
  with p obtain xs where xs: "bs = bundle_wire t xs" "list_all2 packet_wire ps xs" by (auto simp: list_all2_map1)
  then have "xs \<noteq> []" using p(2) PBundle by auto
  from bundle_starts [OF v xs(1) this p(3)] obtain itm r1 where
    "lv2_osc_reader_is_bundle m (lv2_osc_reader_initialize buf (of_nat (length bs))) = Some True"
    "bundle_begin m (of_nat (length bs)) (lv2_osc_reader_initialize buf (of_nat (length bs))) = (Ok itm, r1)" "itimetag itm = t"
    by metis
  with now PBundle io_parse_forges [OF v p k w e] show ?thesis
    by (auto simp: io_unroll_def Let_def at_once_def split: option.splits)
qed

text \<open>What the reader sees of a chunk at the front of the ring.\<close>

lemma front_view:
  assumes q: "queue_inv 20 v1 q" and c: "chunk_load p (of_nat (length d)) v1 = Some d" and base: "unat base + 2 ^ 34 \<le> 2 ^ 64"
    and n: "length d < 2 ^ 31"
  shows "rview (ring_mem base v1) (lv2_osc_reader_initialize (base + p) (of_nat (length d))) d"
proof -
  note L = queue_inv_vbuf [OF q]
  have u: "unat (of_nat (length d) :: u32) = length d" using n by (simp add: unat_of_nat)
  with c have d: "unat p + length d \<le> length (vbuf v1)" "part (vbuf v1) (unat p) (length d) = d"
    by (auto simp: chunk_load_def split: if_splits)
  then have "mem_at (ring_mem base v1) (base + p) d" using view_in_ring [OF d(1), of base] L by simp
  moreover have "unat (base + p) = unat base + unat p" using base d L by (subst unat_add_no_wrap) auto
  ultimately show ?thesis using base d(1) L by (simp add: rview_def lv2_osc_reader_initialize_def)
qed

lemma ucast_of_nat_u64: "n < 2 ^ 32 \<Longrightarrow> (ucast (of_nat n :: u32) :: u64) = of_nat n"
proof -
  assume n: "n < 2 ^ 32"
  then have "unat (ucast (of_nat n :: u32) :: u64) = n" by (simp add: unsigned_of_nat take_bit_nat_eq_self unsigned_ucast_eq)
  moreover have "unat (of_nat n :: u64) = n" using n by (simp add: unat_of_nat)
  ultimately show ?thesis by (simp add: word_unat_eq_iff)
qed

lemma set_rings_simps [simp]:
  "rt (set_rings r w) = (rt w)\<lparr>rings := r\<rparr>" "set_rings r (set_rings r2 w) = set_rings r w"
  "fst (pforge (set_rings r w)) = fst (pforge w)" "snd (pforge (set_rings r w)) = (snd (pforge w))\<lparr>rings := r\<rparr>"
  "pref (set_rings r w) = pref w" "pmem (set_rings r w) = pmem w" "pp (set_rings r w) = pp w"
  by (simp_all add: set_rings_def set_rt_def rt_def)

lemma forged_rings [simp]:
  "rt (io_forged w cs) = rt w" "io_forged (set_rings r w) cs = set_rings r (io_forged w cs)"
  "io_forged (io_forged w cs) cs2 = io_forged w (cs @ cs2)" "io_forged w [] = w" "pref (io_forged w cs) = pref w"
  by (simp_all add: io_forged_def set_rings_def set_rt_def rt_def)

lemma incoming_forges:
  assumes e: "ih_forge e = recording" and base: "unat (at_from h) + 2 ^ 34 \<le> 2 ^ 64"
  shows "queue_inv 20 (from_worker (rings (rt w))) qs \<Longrightarrow> list_all2 packet_wire ps qs \<Longrightarrow>
    \<forall>p \<in> set ps. forge_ok p \<and> at_once e p \<and> packet_fuel p \<le> k \<Longrightarrow> pref w \<Longrightarrow> length ps < j \<Longrightarrow>
    \<exists>v. queue_inv 20 v [] \<and> io_incoming j e h k w =
      Done (set_rings ((rings (rt w))\<lparr>from_worker := v\<rparr>) (io_forged w (concat (map (incoming_calls e h 0) ps))))"
proof (induction ps arbitrary: qs w j)
  case Nil
  then obtain i where j: "j = Suc i" "qs = []" by (cases j) auto
  show ?case using Nil ring_front_empty [of 20 "from_worker (rings (rt w))"] j
    by (intro exI [of _ "from_worker (rings (rt w))"]) simp
next
  case (Cons p ps)
  then obtain i d q where j: "j = Suc i" and qs: "qs = d # q" "packet_wire p d" "list_all2 packet_wire ps q"
    by (cases j; cases qs) auto
  from Cons.prems(1) [unfolded qs] obtain a v1 v2 where
    f: "ring_front (from_worker (rings (rt w))) = Some (Some (a, of_nat (length d)), v1)" and v1: "queue_inv 20 v1 (d # q)"
    and ld: "chunk_load a (of_nat (length d)) v1 = Some d" and n: "length d < 2 ^ 31"
    and adv: "varchunk_read_advance v1 = Some v2" "queue_inv 20 v2 q" by (rule ring_front_chunk)
  let ?w1 = "set_rings ((rings (rt w))\<lparr>from_worker := v1\<rparr>) w"
  have un: "io_unroll e h k (ring_mem (at_from h) v1) (at_from h + a) (of_nat (length d)) ?w1 = Done (io_forged ?w1 (incoming_calls e h 0 p))"
    using front_view [OF v1 ld base n] qs(2) Cons.prems n e by (intro io_unroll_forges) auto
  let ?w2 = "set_rings ((rings (rt w))\<lparr>from_worker := v2\<rparr>) (io_forged w (incoming_calls e h 0 p))"
  have "\<exists>v. queue_inv 20 v [] \<and> io_incoming i e h k ?w2 =
      Done (set_rings ((rings (rt ?w2))\<lparr>from_worker := v\<rparr>) (io_forged ?w2 (concat (map (incoming_calls e h 0) ps))))"
    using Cons.prems j adv qs(3) by (intro Cons.IH [of _ q]) auto
  moreover have "ucast (of_nat (length d) :: u32) = (of_nat (length d) :: u64)" using n by (intro ucast_of_nat_u64) simp
  ultimately show ?case using f un adv(1) by (simp add: j Let_def)
qed

end
