(* ===== verification/Stream_Open.thy ===== *)
theory Stream_Open
  imports Stream
begin

text \<open>
  What opening a stream does: URLs are split into their parts, and an opening that fails leaves
  no descriptor in the stream. \<open>keeps P\<close> collects the actions that keep a property of the stream.
\<close>

section \<open>URLs\<close>

lemma before_append [simp]: "c \<notin> set h \<Longrightarrow> before c (h @ c # t) = h"
  by (simp add: before_def takeWhile_append)

lemma after_append [simp]: "c \<notin> set h \<Longrightarrow> after c (h @ c # t) = t"
proof -
  assume "c \<notin> set h"
  then have "dropWhile (\<lambda>b. b \<noteq> c) (h @ c # t) = c # t" by (induction h) auto
  then show ?thesis by (simp add: after_def)
qed

lemma after_here [simp]: "after c (c # t) = t"
  by (simp add: after_def)

lemma text_of_lengths [simp]:
  "length udp_prefix = 10" "length tcp_prefix = 10" "length tcp_slip_prefix = 15" "length tcp_prefix_prefix = 17"
  "length ser_prefix = 13"
  by (simp_all add: udp_prefix_def tcp_prefix_def tcp_slip_prefix_def tcp_prefix_prefix_def ser_prefix_def text_of_def)

lemma starts_self [simp]: "starts p (p @ u)"
  by (simp add: starts_def)

lemma starts_other:
  "\<not> starts udp_prefix (tcp_prefix @ u)" "\<not> starts udp_prefix (tcp_slip_prefix @ u)"
  "\<not> starts tcp_prefix (tcp_slip_prefix @ u)" "\<not> starts udp_prefix (tcp_prefix_prefix @ u)"
  "\<not> starts tcp_prefix (tcp_prefix_prefix @ u)" "\<not> starts tcp_slip_prefix (tcp_prefix_prefix @ u)"
  "\<not> starts udp_prefix (ser_prefix @ u)" "\<not> starts tcp_prefix (ser_prefix @ u)"
  "\<not> starts tcp_slip_prefix (ser_prefix @ u)" "\<not> starts tcp_prefix_prefix (ser_prefix @ u)"
  unfolding udp_prefix_def tcp_prefix_def tcp_slip_prefix_def tcp_prefix_prefix_def ser_prefix_def
  by (simp_all add: starts_def text_of_def)

text \<open>The parts of a URL, and how it is written\<close>

datatype scheme = Udp | Tcp | Tcp_Slip | Tcp_Prefix

definition scheme_text :: "scheme \<Rightarrow> u8 list" where
  "scheme_text c = (case c of Udp \<Rightarrow> udp_prefix | Tcp \<Rightarrow> tcp_prefix | Tcp_Slip \<Rightarrow> tcp_slip_prefix | Tcp_Prefix \<Rightarrow> tcp_prefix_prefix)"

datatype host = Host4 "u8 list" | Host6 "u8 list" "u8 list option"

definition host_text :: "host \<Rightarrow> u8 list" where
  "host_text h = (case h of
      Host4 n \<Rightarrow> n
    | Host6 n None \<Rightarrow> [0x5B] @ n @ [0x5D]
    | Host6 n (Some i) \<Rightarrow> [0x5B] @ n @ [0x25] @ i @ [0x5D])"

definition url_text :: "scheme \<Rightarrow> host \<Rightarrow> u8 list \<Rightarrow> u8 list" where
  "url_text c h service = scheme_text c @ host_text h @ [0x3A] @ service"

text \<open>Hosts that can be written: separators only where they belong\<close>

definition host_ok :: "host \<Rightarrow> bool" where
  "host_ok h = (case h of
      Host4 n \<Rightarrow> set n \<inter> {0x5B, 0x25, 0x5D, 0x3A} = {}
    | Host6 n i \<Rightarrow> set n \<inter> {0x25, 0x5D} = {} \<and> (case i of None \<Rightarrow> True | Some i \<Rightarrow> 0x5D \<notin> set i))"

definition host_parts :: "host \<Rightarrow> family \<times> u8 list \<times> u8 list option" where
  "host_parts h = (case h of Host4 n \<Rightarrow> (AF_INET, n, None) | Host6 n i \<Rightarrow> (AF_INET6, n, i))"

lemma stream_scheme_text:
  "stream_scheme (scheme_text c @ u) s = Some (u, s\<lparr>slip := (c = Tcp \<or> c = Tcp_Slip), socket_family := AF_INET,
     socket_type := (if c = Udp then SOCK_DGRAM else SOCK_STREAM), protocol := (if c = Udp then IPPROTO_UDP else IPPROTO_TCP)\<rparr>)"
  by (cases c) (simp_all add: stream_scheme_def scheme_text_def starts_other)

lemma stream_host_text:
  assumes "host_ok h" and "set service \<inter> {0x25, 0x5D} = {}"
  shows "stream_host AF_INET (host_text h @ [0x3A] @ service) =
    (case host_parts h of (fam, node, iface) \<Rightarrow> Inr (fam, node, iface, service))"
proof (cases h)
  case (Host4 n)
  then have "take 1 (n @ 0x3A # service) \<noteq> [0x5B]" using assms by (cases n) (auto simp: host_ok_def)
  then show ?thesis
    using assms Host4 by (auto simp: stream_host_def host_family_def host_text_def host_parts_def host_ok_def Let_def)
next
  case (Host6 n i)
  show ?thesis
  proof (cases i)
    case None
    then have "before 0x5D (n @ 0x5D # 0x3A # service) = n" "after 0x5D (n @ 0x5D # 0x3A # service) = 0x3A # service"
      "after 0x3A (0x3A # service) = service"
      using assms Host6 by (auto simp: host_ok_def)
    then show ?thesis
      using assms Host6 None
      by (auto simp: stream_host_def host_family_def host_text_def host_parts_def host_ok_def Let_def)
  next
    case (Some j)
    then have "before 0x25 (n @ 0x25 # j @ 0x5D # 0x3A # service) = n"
      "after 0x25 (n @ 0x25 # j @ 0x5D # 0x3A # service) = j @ 0x5D # 0x3A # service"
      "before 0x5D (j @ 0x5D # 0x3A # service) = j" "after 0x5D (j @ 0x5D # 0x3A # service) = 0x3A # service"
      "after 0x3A (0x3A # service) = service"
      using assms Host6 by (auto simp: host_ok_def)
    then show ?thesis
      using assms Host6 Some
      by (simp add: stream_host_def host_family_def host_text_def host_parts_def Let_def)
  qed
qed

section \<open>Failing\<close>

definition keeps :: "(stream \<Rightarrow> bool) \<Rightarrow> ('a, 'o) act \<Rightarrow> bool" where
  "keeps P f \<longleftrightarrow> (\<forall>c. P (fst c) \<longrightarrow> P (fst (snd (f c))))"

named_theorems keeps_intro \<open>actions that keep a property of the stream\<close>

lemma keeps_bind [keeps_intro]: "keeps P f \<Longrightarrow> (\<And>x. keeps P (g x)) \<Longrightarrow> keeps P (act_bind f g)"
  by (auto simp: keeps_def act_bind_def split: prod.splits sum.splits) (metis fst_conv snd_conv)+

lemma keeps_seq [keeps_intro]: "keeps P f \<Longrightarrow> keeps P g \<Longrightarrow> keeps P (act_seq f g)"
  unfolding act_seq_def by (rule keeps_bind)

lemma keeps_simple [keeps_intro]: "keeps P act_ok" "keeps P (act_fail e)" "keeps P (\<lambda>c. (Inr x, c))"
  by (simp_all add: keeps_def act_ok_def act_fail_def)

lemma keeps_set: "(\<And>s. P s \<Longrightarrow> P (f s)) \<Longrightarrow> keeps P (act_set f)"
  by (simp add: keeps_def act_set_def)

lemma keeps_sys [keeps_intro]: "keeps P (act_sys call)"
  by (auto simp: keeps_def act_sys_def split: prod.splits sys.splits)

lemma keeps_fd:
  "keeps (\<lambda>s. fd s = x) (act_descriptor call)" "keeps (\<lambda>s. fd s = x) (act_self f)" "keeps (\<lambda>s. fd s = x) (act_peer f)"
  "keeps (\<lambda>s. fd s = x) (try_connect os)"
  by (auto simp: keeps_def act_descriptor_def act_self_def act_peer_def try_connect_def split: prod.splits sys.splits)

lemma keeps_dep: "(\<And>c. keeps P (f c)) \<Longrightarrow> keeps P (\<lambda>c. f c c)"
  by (simp add: keeps_def)

abbreviation keeps_fd_at :: "int \<Rightarrow> ('a, 'o) act \<Rightarrow> bool" where
  "keeps_fd_at x \<equiv> keeps (\<lambda>s. fd s = x)"

lemma keeps_opt [keeps_intro]: "keeps P (act_opt os opt v)" "keeps P (act_bind_self os)"
  unfolding act_opt_def act_bind_self_def by (rule keeps_sys)+

lemma keeps_resolve [keeps_intro]: "keeps P (resolve os node service len)"
  unfolding resolve_def by (auto intro!: keeps_intro)

lemma keeps_serial: "keeps_fd_at x (open_serial os p)"
  unfolding open_serial_def by (intro keeps_intro keeps_fd keeps_set) simp

lemma keeps_ipv4: "keeps_fd_at x (open_ipv4 os node service)"
  unfolding open_ipv4_def by (rule keeps_dep) (auto intro!: keeps_intro keeps_fd)

lemma keeps_ipv6: "keeps_fd_at x (open_ipv6 os node iface service)"
  unfolding open_ipv6_def by (rule keeps_dep) (auto intro!: keeps_intro keeps_fd)

lemma keeps_type: "keeps_fd_at x (open_type os b)"
  unfolding open_type_def by (rule keeps_dep) (auto intro!: keeps_intro keeps_fd split: socktype.split)

lemma keeps_socket: "keeps_fd_at x (open_socket os p)"
  unfolding open_socket_def
  by (rule keeps_dep)
    (auto intro!: keeps_intro keeps_fd keeps_set keeps_ipv4 keeps_ipv6 keeps_type split: sum.split family.split simp: Let_def)

lemma stream_scheme_fd: "stream_scheme u s = Some (p, t) \<Longrightarrow> fd t = fd s"
  by (auto simp: stream_scheme_def split: if_splits)

lemma keeps_url:
  fixes os :: "'o os"
  shows "keeps_fd_at x (open_url os)"
  unfolding keeps_def
proof (intro allI impI)
  fix c :: "stream \<times> 'o" assume c: "fd (fst c) = x"
  obtain ok w where w: "o_alloc os (snd c) = (ok, w)" by force
  show "fd (fst (snd (open_url os c))) = x"
  proof (cases "stream_scheme (url (fst c)) (fst c)")
    case None
    then show ?thesis using c w by (cases ok) (simp_all add: open_url_def act_fail_def)
  next
    case (Some a)
    obtain p s where a: "a = (p, s)" by (cases a)
    then have "fd s = x" using stream_scheme_fd Some c by simp
    moreover have "keeps_fd_at x (if p = [] then act_fail EDESTADDRREQ else if serial s then open_serial os p else open_socket os p)"
      by (simp add: keeps_intro keeps_serial keeps_socket)
    ultimately show ?thesis using Some w a c unfolding keeps_def by (cases ok) (simp_all add: open_url_def act_fail_def)
  qed
qed

lemma deinit_closed: "fd (fst (lv2_osc_stream_deinit os s w)) = - 1 \<and> sock (fst (lv2_osc_stream_deinit os s w)) = - 1"
  by (simp add: lv2_osc_stream_deinit_def close_socket_def)

lemma reinit_closed:
  assumes "stream_reinit os s w = (ev, t, v)"
  shows "fd t = - 1 \<and> (ev \<noteq> LV2_OSC_NONE \<longrightarrow> sock t = - 1)"
proof -
  obtain r s1 w1 where o: "open_url os (lv2_osc_stream_deinit os s w) = (r, s1, w1)" by (metis prod_cases3)
  have "fd s1 = - 1"
    using keeps_url [unfolded keeps_def, rule_format, of "lv2_osc_stream_deinit os s w" "- 1" os] deinit_closed [of os s w] o by simp
  then show ?thesis using assms o by (cases r) (auto simp: stream_reinit_def close_socket_def)
qed

section \<open>Serial lines\<close>

lemma raw_iflag: "c_iflag (raw_termios t) AND 0x100 = c_iflag t AND 0x100"
proof -
  have "NOT (0x80 OR 0x4 OR 0x400) AND (0x100 :: u32) = 0x100" by simp
  moreover have "c_iflag (raw_termios t) = c_iflag t AND NOT (0x80 OR 0x4 OR 0x400)" by (simp add: raw_termios_def)
  ultimately show ?thesis by (simp only: and.assoc)
qed

end
