(* ===== verification/Stream_Transfer.thy ===== *)
theory Stream_Transfer
  imports Stream_Run Stream_Open Varchunk
begin

text \<open>
  What a stream does with the packets of a driver. The locale \<open>stream_queue\<close> is what the run loops
  rely on of a driver: packets to send come out in order and stay until they are taken, packets
  that arrive are queued, or refused when their padded size with two headers is more than the \<open>space\<close>
  the driver has left. \<open>wired\<close> is what they rely on of the system.
\<close>

section \<open>The system as a wire\<close>

definition wired :: "'o os \<Rightarrow> ('o \<Rightarrow> u8 list) \<Rightarrow> bool" where
  "wired os wire \<longleftrightarrow>
     (\<forall>f bs w.
       (\<forall>n w'. o_send os f bs w = (Ret n, w') \<longrightarrow> n \<le> length bs \<and> wire w' = wire w @ take n bs) \<and>
       (\<forall>e w'. o_send os f bs w = (Err e, w') \<longrightarrow> wire w' = wire w) \<and>
       wire (o_close os f w) = wire w) \<and>
     (\<forall>f n w. wire (snd (o_recv os f n w)) = wire w) \<and>
     (\<forall>f w. wire (snd (o_accept os f w)) = wire w \<and> wire (snd (o_nonblock os f w)) = wire w) \<and>
     (\<forall>f a w. wire (snd (o_connect os f a w)) = wire w) \<and>
     (\<forall>f opt v w. wire (snd (o_setsockopt os f opt v w)) = wire w)"

text \<open>\<open>recv\<close> returns no more than was asked for.\<close>

definition receives :: "'o os \<Rightarrow> bool" where
  "receives os \<longleftrightarrow> (\<forall>f n w bs w'. o_recv os f n w = (Ret bs, w') \<longrightarrow> length bs \<le> n)"

text \<open>A stream that frames with SLIP, its buffers in order; and what sending leaves of a stream\<close>

definition stream_ok :: "stream \<Rightarrow> bool" where
  "stream_ok s \<longleftrightarrow> slip s \<and> length (tx_buf s) = BUF_LEN \<and> length (rx_buf s) = BUF_LEN \<and> rx_off s \<le> BUF_LEN"

definition same_stream :: "stream \<Rightarrow> stream \<Rightarrow> bool" where
  "same_stream s t \<longleftrightarrow> slip t = slip s \<and> length (tx_buf t) = length (tx_buf s) \<and> rx_buf t = rx_buf s \<and>
     rx_off t = rx_off s \<and> server t = server s"

lemma same_stream_refl [simp]: "same_stream s s"
  by (simp add: same_stream_def)

lemma same_stream_trans: "same_stream s t \<Longrightarrow> same_stream t u \<Longrightarrow> same_stream s u"
  by (simp add: same_stream_def)

lemma same_stream_ok: "same_stream s t \<Longrightarrow> stream_ok s \<Longrightarrow> stream_ok t"
  by (simp add: same_stream_def stream_ok_def)

lemma same_stream_drop: "same_stream s (fst (on_error hard os e s w))" "same_stream s (fst (stream_drop os s w))"
  by (simp_all add: on_error_def stream_drop_def close_socket_def same_stream_def)

lemma wire_drop: "wired os wire \<Longrightarrow> wire (snd (on_error hard os e s w)) = wire w"
  "wired os wire \<Longrightarrow> wire (snd (stream_drop os s w)) = wire w"
  by (simp_all add: on_error_def stream_drop_def close_socket_def wired_def)

text \<open>A packet on the wire\<close>

definition frame_of :: "bool \<Rightarrow> u8 list \<Rightarrow> u8 list" where
  "frame_of sl m = (if sl then (if m = [] then [] else slip_frame m) else be32 (of_nat (length m)) @ m)"

definition fits_frame :: "bool \<Rightarrow> u8 list \<Rightarrow> bool" where
  "fits_frame sl m \<longleftrightarrow> length (frame_of sl m) \<le> BUF_LEN"

text \<open>The system does not take all of a frame when what is on the wire is \<open>bs\<close>.\<close>

definition not_taken :: "'o os \<Rightarrow> int \<Rightarrow> ('o \<Rightarrow> u8 list) \<Rightarrow> u8 list \<Rightarrow> u8 list \<Rightarrow> bool" where
  "not_taken os f wire bs fr \<longleftrightarrow> (\<exists>u. wire u = bs \<and> fst (o_send os f fr u) \<noteq> Ret (length fr))"

text \<open>A stream whose connection is up, and the descriptor it sends to\<close>

definition link_up :: "stream \<Rightarrow> bool" where
  "link_up s \<longleftrightarrow> (if socket_type s = SOCK_STREAM then connected s \<and> 0 \<le> stream_fd s else 0 \<le> sock s)"

definition link_fd :: "stream \<Rightarrow> int" where
  "link_fd s = (if socket_type s = SOCK_STREAM then stream_fd s else sock s)"

lemma stream_frame_fits:
  assumes "fits_frame (slip s) m" and "length (tx_buf s) = BUF_LEN"
  shows "\<exists>b. stream_frame m s = Done (s\<lparr>tx_buf := b\<rparr>, frame_of (slip s) m) \<and> length b = BUF_LEN"
proof (cases "slip s")
  case True
  show ?thesis
  proof (cases "m = []")
    case True
    then have "stream_frame m s = Done (s\<lparr>tx_buf := tx_buf s\<rparr>, [])"
      using \<open>slip s\<close> by (simp add: stream_frame_def lv2_osc_slip_encode_inline_def overwrite_def)
    then show ?thesis using True \<open>slip s\<close> assms(2) by (intro exI [of _ "tx_buf s"]) (simp add: frame_of_def)
  next
    case False
    let ?n = "length (slip_frame m)"
    have n: "?n \<le> BUF_LEN" using assms(1) \<open>slip s\<close> False by (simp add: fits_frame_def frame_of_def)
    then have m: "length m \<le> BUF_LEN" using length_slip_body(1) [of m] by (simp add: slip_frame_def)
    have ov: "overwrite 0 m (tx_buf s) = m @ drop (length m) (tx_buf s)" by (simp add: overwrite_def)
    have "lv2_osc_slip_encode_inline (overwrite 0 m (tx_buf s)) (length m)
        = Some (slip_frame m @ drop ?n (m @ drop (length m) (tx_buf s)), ?n)"
      unfolding ov by (rule slip_encode_frame) (use False n m assms(2) in simp_all)
    then show ?thesis
      using m n \<open>slip s\<close> False assms(2) by (auto simp: stream_frame_def frame_of_def)
  qed
next
  case False
  let ?b = "overwrite 4 m (overwrite 0 (be32 (of_nat (length m))) (tx_buf s))"
  have m: "length m + 4 \<le> BUF_LEN" using assms(1) False by (simp add: fits_frame_def frame_of_def)
  then have "?b = (be32 (of_nat (length m)) @ m) @ drop (length m + 4) (tx_buf s)"
    using assms(2) by (simp add: overwrite_def add.commute)
  moreover have "length ?b = BUF_LEN" using m assms(2) by simp
  ultimately show ?thesis
    using m False by (auto simp: stream_frame_def frame_of_def Let_def)
qed

text \<open>The decoder stays within the bytes it is given.\<close>

lemma slip_decode_loop_bounds:
  "slip_decode_loop len src ptr whole buf = (b, parsed, sz) \<Longrightarrow> ptr \<le> src \<Longrightarrow> src \<le> len \<Longrightarrow>
   length b = length buf \<and> sz \<le> parsed \<and> parsed \<le> len"
proof (induction len src ptr whole buf rule: slip_decode_loop.induct)
  case (1 len src ptr whole buf)
  show ?case
    using 1(5-) 1(1-4) by (subst (asm) slip_decode_loop.simps) (fastforce simp: Let_def split: if_splits)
qed

lemma slip_decode_bounds:
  assumes "lv2_osc_slip_decode_inline buf len = (b, parsed, sz)"
  shows "length b = length buf \<and> sz \<le> parsed \<and> parsed \<le> len"
  using assms slip_decode_loop_bounds [of len _ 0 _ buf b parsed sz]
  by (auto simp: lv2_osc_slip_decode_inline_def Suc_leI split: if_splits)

section \<open>The driver as two queues\<close>

locale stream_queue =
  fixes dr :: "'d driver" and queues :: "'d \<Rightarrow> u8 list list \<Rightarrow> u8 list list \<Rightarrow> bool" and space :: "'d \<Rightarrow> nat"
  assumes read_none: "queues d [] r \<Longrightarrow> \<exists>d'. read_req dr d = Some (None, d') \<and> queues d' [] r"
    and read_some: "queues d (m # q) r \<Longrightarrow> \<exists>d'. read_req dr d = Some (Some m, d') \<and> queues d' (m # q) r \<and>
      (\<exists>d''. read_adv dr d' = Some d'' \<and> queues d'' q r)"
    and accept: "queues d q r \<Longrightarrow> n < 2147483648 \<Longrightarrow>
      (\<exists>d'. write_req dr n d = (None, d') \<and> queues d' q r \<and> space d < 16 + pad8 n \<and> space d' = space d) \<or>
      (\<exists>p m d'. write_req dr n d = (Some (p, m), d') \<and> queues d' q r \<and>
        (\<forall>bs. length bs \<le> n \<longrightarrow> (\<exists>d1 d2. store dr p bs d' = Some d1 \<and> write_adv dr (length bs) d1 = Some d2 \<and>
          queues d2 q (r @ [bs]) \<and> space d \<le> space d2 + (8 + pad8 (length bs)))))"
begin

text \<open>
  Sending: whatever the system does, a number of packets has gone in order, the rest is still
  queued, and of the next one at most a part is on the wire. It ends with a packet left only when the
  system did not take the frame of that packet.
\<close>

lemma stream_send_order:
  assumes "queues d q r" and "wired os wire" and "length (tx_buf s) = BUF_LEN"
    and "list_all (fits_frame (slip s)) q" and "length q < k"
  shows "\<exists>ev' s' d' w' i part. stream_send k hard os dr f (ev, s, d, w) = Done (ev', s', d', w') \<and>
    queues d' (drop i q) r \<and> i \<le> length q \<and> same_stream s s' \<and>
    wire w' = wire w @ concat (map (frame_of (slip s)) (take i q)) @ part \<and>
    (part = [] \<or> (\<exists>m. i < length q \<and> part = take m (frame_of (slip s) (q ! i)))) \<and>
    (i < length q \<longrightarrow> not_taken os f wire (wire w @ concat (map (frame_of (slip s)) (take i q))) (frame_of (slip s) (q ! i)))"
  using assms
proof (induction q arbitrary: k ev s d w)
  case Nil
  obtain d' where "read_req dr d = Some (None, d')" "queues d' [] r" using read_none [OF Nil.prems(1)] by blast
  then show ?case using Nil.prems(5) by (cases k) auto
next
  case (Cons m q)
  obtain j where k: "k = Suc j" using Cons.prems(5) by (cases k) auto
  obtain d1 d2 where d1: "read_req dr d = Some (Some m, d1)" "queues d1 (m # q) r"
    "read_adv dr d1 = Some d2" "queues d2 q r" using read_some [OF Cons.prems(1)] by blast
  let ?fr = "frame_of (slip s) m"
  obtain b where b: "stream_frame m s = Done (s\<lparr>tx_buf := b\<rparr>, ?fr)" "length b = BUF_LEN"
    using stream_frame_fits [of s m] Cons.prems(3,4) by auto
  let ?s = "s\<lparr>tx_buf := b\<rparr>"
  define call where "call = (if ?fr = [] then (Ret 0, w) else o_send os f ?fr w)"
  show ?case
  proof (cases "fst call")
    case (Err e)
    then have w: "wire (snd call) = wire w" using Cons.prems(2)
      by (cases "o_send os f ?fr w") (auto simp: call_def wired_def split: if_splits)
    obtain t v where t: "on_error hard os e ?s (snd call) = (t, v)" by force
    have "wire v = wire w" using t w wire_drop(1) [OF Cons.prems(2), of hard e ?s "snd call"] by simp
    moreover have "same_stream s ?s" using b(2) Cons.prems(3) by (simp add: same_stream_def)
    moreover from this have "same_stream s t" using t same_stream_drop(1) [of ?s hard os e "snd call"] same_stream_trans by fastforce
    moreover have "stream_send k hard os dr f (ev, s, d, w) =
        (if e = EAGAIN then Done (ev, ?s, d1, snd call) else Done (stream_errno ev e, t, d1, v))"
      using d1 b Err t by (cases call) (simp add: k call_def)
    moreover have "not_taken os f wire (wire w) ?fr"
      using Err by (auto simp: not_taken_def call_def split: if_splits intro!: exI [of _ w])
    ultimately show ?thesis using d1(2) w
      by (cases "e = EAGAIN") (auto intro!: exI [of _ 0])
  next
    case (Ret n)
    then have n: "n \<le> length ?fr" "wire (snd call) = wire w @ take n ?fr"
      using Cons.prems(2) by (cases "o_send os f ?fr w"; auto simp: call_def wired_def split: if_splits)+
    show ?thesis
    proof (cases "n = length ?fr")
      case False
      then have "stream_send k hard os dr f (ev, s, d, w) = Done (stream_errno ev EIO, ?s, d1, snd call)"
        using d1 b Ret by (cases call) (simp add: k call_def)
      show ?thesis
      proof (intro exI conjI)
        show "stream_send k hard os dr f (ev, s, d, w) = Done (stream_errno ev EIO, ?s, d1, snd call)" by fact
        show "queues d1 (drop 0 (m # q)) r" using d1(2) by simp
        show "same_stream s ?s" using b(2) Cons.prems(3) by (simp add: same_stream_def)
        show "wire (snd call) = wire w @ concat (map (frame_of (slip s)) (take 0 (m # q))) @ take n ?fr" using n by simp
        show "take n ?fr = [] \<or> (\<exists>n'. 0 < length (m # q) \<and> take n ?fr = take n' (frame_of (slip s) ((m # q) ! 0)))" by auto
        show "0 < length (m # q) \<longrightarrow> not_taken os f wire (wire w @ concat (map (frame_of (slip s)) (take 0 (m # q)))) (frame_of (slip s) ((m # q) ! 0))"
          using Ret False by (auto simp: not_taken_def call_def split: if_splits intro!: exI [of _ w])
      qed simp
    next
      case True
      have step: "stream_send k hard os dr f (ev, s, d, w) = stream_send j hard os dr f (ev OR LV2_OSC_SEND, ?s, d2, snd call)"
        using d1 b Ret True by (cases call) (simp add: k call_def)
      obtain ev' s' d' w' i part where ih:
        "stream_send j hard os dr f (ev OR LV2_OSC_SEND, ?s, d2, snd call) = Done (ev', s', d', w')"
        "queues d' (drop i q) r" "i \<le> length q" "same_stream ?s s'"
        "wire w' = wire (snd call) @ concat (map (frame_of (slip s)) (take i q)) @ part"
        "part = [] \<or> (\<exists>m. i < length q \<and> part = take m (frame_of (slip s) (q ! i)))"
        "i < length q \<longrightarrow> not_taken os f wire (wire (snd call) @ concat (map (frame_of (slip s)) (take i q))) (frame_of (slip s) (q ! i))"
        using Cons.IH [OF d1(4) Cons.prems(2), of ?s j "ev OR LV2_OSC_SEND" "snd call", simplified] Cons.prems(4,5) b(2) k
        by fastforce
      have same: "same_stream s s'" using ih(4) b(2) Cons.prems(3) by (simp add: same_stream_def)
      show ?thesis
        unfolding step ih(1)
        by (rule exI [of _ ev'], rule exI [of _ s'], rule exI [of _ d'], rule exI [of _ w'], rule exI [of _ "Suc i"], rule exI [of _ part])
          (use ih(2-7) same n(2) True in auto)
    qed
  qed
qed

text \<open>With a system that takes everything, everything is sent.\<close>

lemma stream_send_all:
  assumes "queues d q r" and "wired os wire" and "\<And>f bs w. \<exists>w'. o_send os f bs w = (Ret (length bs), w')"
    and "length (tx_buf s) = BUF_LEN" and "list_all (fits_frame (slip s)) q" and "length q < k"
  shows "\<exists>ev' s' d' w'. stream_send k hard os dr f (ev, s, d, w) = Done (ev', s', d', w') \<and>
    queues d' [] r \<and> wire w' = wire w @ concat (map (frame_of (slip s)) q)"
proof -
  have "\<not> not_taken os f wire bs fr" for bs fr using assms(3) by (auto simp: not_taken_def) (metis fst_conv)
  with stream_send_order [OF assms(1,2,4-6), of hard f ev w] show ?thesis by fastforce
qed

text \<open>
  Receiving: of the frames in the buffer the driver gets a number in order, and leaves one only when
  it has no space for it. When it got all of them, nothing is left.
\<close>

lemma slip_dispatch_frames:
  assumes "queues d q r" and "list_all (\<lambda>m. m \<noteq> [] \<and> length m < 2147483648) ms"
  shows "\<exists>p n rx ev' d' i. slip_dispatch dr (length X) (length (concat (map slip_frame ms))) (X @ concat (map slip_frame ms) @ Z) ev d
      = Done (p, n, rx, ev', d') \<and> queues d' q (r @ take i ms) \<and> i \<le> length ms \<and>
    length rx = length (X @ concat (map slip_frame ms) @ Z) \<and> (n = 0 \<longleftrightarrow> i = length ms) \<and>
    (i < length ms \<longrightarrow> space d' < 16 + pad8 (length (ms ! i))) \<and> space d \<le> space d' + sum_list (map (\<lambda>m. 8 + pad8 (length m)) (take i ms))"
  using assms
proof (induction ms arbitrary: X d r ev)
  case Nil
  then show ?case by (auto simp: slip_dispatch.simps)
next
  case (Cons m ms)
  let ?fr = "slip_frame m" and ?F = "concat (map slip_frame ms)"
  let ?n = "length (concat (map slip_frame (m # ms)))"
  have m: "m \<noteq> []" "length m < 2147483648" using Cons.prems(2) by simp_all
  obtain j where j: "?n = Suc j" by (cases ?n) (simp_all add: slip_frame_def)
  obtain b where b: "lv2_osc_slip_decode_inline (?fr @ ?F @ Z) ?n = (b, length ?fr, length m)"
    "take (length m) b = m" "drop (length ?fr) b = ?F @ Z" "length b = length (?fr @ ?F @ Z)"
    using slip_decode_frame [of m ?n "?F @ Z"] by auto
  have dec: "lv2_osc_slip_decode_inline (drop (length X) (X @ ?fr @ ?F @ Z)) (Suc j) = (b, length ?fr, length m)"
    using b(1) j by simp
  consider (full) d1 where "write_req dr (length m) d = (None, d1)" "queues d1 q r" "space d < 16 + pad8 (length m)" "space d1 = space d"
    | (room) p mx d1 d2 d3 where "write_req dr (length m) d = (Some (p, mx), d1)" "store dr p m d1 = Some d2"
        "write_adv dr (length m) d2 = Some d3" "queues d3 q (r @ [m])" "space d \<le> space d3 + (8 + pad8 (length m))"
    using accept [OF Cons.prems(1) m(2)] by blast
  then show ?case
  proof cases
    case full
    then have stop: "slip_dispatch dr (length X) ?n (X @ concat (map slip_frame (m # ms)) @ Z) ev d =
        Done (length X, ?n, X @ b, stream_errno ev ENOMEM, d1)"
      using dec m b j by (simp add: slip_dispatch.simps Let_def)
    show ?thesis
    proof (intro exI conjI)
      show "slip_dispatch dr (length X) ?n (X @ concat (map slip_frame (m # ms)) @ Z) ev d =
        Done (length X, ?n, X @ b, stream_errno ev ENOMEM, d1)" by (rule stop)
      show "queues d1 q (r @ take 0 (m # ms))" using full(2) by simp
      show "length (X @ b) = length (X @ concat (map slip_frame (m # ms)) @ Z)" using b(4) by simp
    qed (use full(3,4) in \<open>simp_all add: slip_frame_def\<close>)
  next
    case room
    have len: "?n - length ?fr = length ?F" by simp
    let ?Y = "X @ take (length ?fr) b"
    have Y: "?Y @ ?F @ Z = X @ b" "length ?Y = length X + length ?fr"
      using b(3) append_take_drop_id [of "length ?fr" b] b(4) by (simp_all del: append_take_drop_id)
    have "list_all (\<lambda>m. m \<noteq> [] \<and> length m < 2147483648) ms" using Cons.prems(2) by simp
    from Cons.IH [OF room(4) this, of ?Y "ev OR LV2_OSC_RECV"] obtain p' n rx ev' d' i where ih:
      "slip_dispatch dr (length X + length ?fr) (length ?F) (X @ b) (ev OR LV2_OSC_RECV) d3 = Done (p', n, rx, ev', d')"
      "queues d' q ((r @ [m]) @ take i ms)" "i \<le> length ms" "length rx = length (X @ b)" "n = 0 \<longleftrightarrow> i = length ms"
      "i < length ms \<longrightarrow> space d' < 16 + pad8 (length (ms ! i))" "space d3 \<le> space d' + sum_list (map (\<lambda>m. 8 + pad8 (length m)) (take i ms))"
      unfolding Y by blast
    have fr: "length ?fr \<noteq> 0" by (simp add: slip_frame_def)
    have "slip_dispatch dr (length X) ?n (X @ concat (map slip_frame (m # ms)) @ Z) ev d =
        slip_dispatch dr (length X + length ?fr) (length ?F) (X @ b) (ev OR LV2_OSC_RECV) d3"
      using dec m b(2) j room(1-3) fr len by (simp add: slip_dispatch.simps Let_def)
    then show ?thesis
      using ih b(4) room(5) by (intro exI [of _ p'] exI [of _ n] exI [of _ rx] exI [of _ ev'] exI [of _ d'] exI [of _ "Suc i"]) simp
  qed
qed

text \<open>Whatever bytes arrive, what the driver is told of stays within the buffer and is queued.\<close>

lemma slip_dispatch_safe:
  assumes "queues d q r" and "ptr + n \<le> length rx" and "length rx < 2147483648"
  shows "\<exists>p n' rx' ev' d' ms. slip_dispatch dr ptr n rx ev d = Done (p, n', rx', ev', d') \<and>
    queues d' q (r @ ms) \<and> p + n' = ptr + n \<and> length rx' = length rx"
  using assms
proof (induction n arbitrary: ptr rx ev d r rule: less_induct)
  case (less n)
  show ?case
  proof (cases n)
    case 0
    then show ?thesis using less.prems(1) by (auto simp: slip_dispatch.simps intro!: exI [of _ "[]"])
  next
    case (Suc m)
    obtain b parsed sz where dec: "lv2_osc_slip_decode_inline (drop ptr rx) (Suc m) = (b, parsed, sz)" by (metis prod_cases3)
    note bnd = slip_decode_bounds [OF dec]
    let ?rx = "take ptr rx @ b"
    have len: "length ?rx = length rx" using bnd less.prems(2) by simp
    have sz: "sz < 2147483648" using bnd less.prems(2,3) Suc by linarith
    have next_one: ?thesis if "queues d1 q (r @ ms)" "parsed \<noteq> 0"
      "slip_dispatch dr ptr n rx ev d = slip_dispatch dr (ptr + parsed) (Suc m - parsed) ?rx ev1 d1" for d1 ms ev1
    proof -
      have "Suc m - parsed < n" "ptr + parsed + (Suc m - parsed) \<le> length ?rx" using that(2) bnd less.prems(2) len Suc by auto
      from less.IH [OF this(1) that(1) this(2)] less.prems(3) len obtain p n' rx' ev' d' ms' where
        "slip_dispatch dr (ptr + parsed) (Suc m - parsed) ?rx ev1 d1 = Done (p, n', rx', ev', d')"
        "queues d' q ((r @ ms) @ ms')" "p + n' = ptr + parsed + (Suc m - parsed)" "length rx' = length ?rx" by fastforce
      then show ?thesis using that(3) len bnd Suc
        by (intro exI [of _ p] exI [of _ n'] exI [of _ rx'] exI [of _ ev'] exI [of _ d'] exI [of _ "ms @ ms'"]) auto
    qed
    show ?thesis
    proof (cases "sz = 0")
      case True
      show ?thesis
      proof (cases "parsed = 0")
        case True
        then have "slip_dispatch dr ptr n rx ev d = Done (ptr, Suc m, ?rx, ev, d)"
          using dec \<open>sz = 0\<close> Suc by (simp add: slip_dispatch.simps Let_def)
        then show ?thesis using less.prems(1) len Suc by (auto intro!: exI [of _ "[]"])
      next
        case False
        then show ?thesis using dec \<open>sz = 0\<close> Suc less.prems(1)
          by (intro next_one [of d "[]" ev]) (simp_all add: slip_dispatch.simps Let_def)
      qed
    next
      case False
      consider (full) d1 where "write_req dr sz d = (None, d1)" "queues d1 q r"
        | (room) p mx d1 d2 d3 where "write_req dr sz d = (Some (p, mx), d1)" "store dr p (take sz b) d1 = Some d2"
            "write_adv dr sz d2 = Some d3" "queues d3 q (r @ [take sz b])"
      proof -
        have "sz \<le> length b" using bnd less.prems(2) Suc by (simp, linarith)
        then have "length (take sz b) = sz" by simp
        then show thesis using accept [OF less.prems(1) sz] that by (metis order_refl)
      qed
      then show ?thesis
      proof cases
        case full
        then have "slip_dispatch dr ptr n rx ev d = Done (ptr, Suc m, ?rx, stream_errno ev ENOMEM, d1)"
          using dec False Suc by (simp add: slip_dispatch.simps Let_def)
        then show ?thesis using full(2) len Suc by (auto intro!: exI [of _ "[]"])
      next
        case room
        then show ?thesis using dec False Suc bnd
          by (intro next_one [of d3 "[take sz b]" "ev OR LV2_OSC_RECV"]) (auto simp: slip_dispatch.simps Let_def)
      qed
    qed
  qed
qed

lemma slip_recv_safe:
  assumes q: "queues d q r" and os: "wired os wire" "receives os" and s: "stream_ok s"
  shows "\<exists>ev' s' d' w' ms. slip_recv hard os dr f (ev, s, d, w) = Done (ev', s', d', w') \<and>
    queues d' q (r @ ms) \<and> stream_ok s' \<and> wire w' = wire w"
proof -
  obtain res w1 where o: "o_recv os f (BUF_LEN - rx_off s) w = (res, w1)" by force
  then have w1: "wire w1 = wire w" using os(1) by (metis snd_conv wired_def)
  show ?thesis
  proof (cases res)
    case (Err e)
    let ?t = "s\<lparr>connected := False\<rparr>"
    have "stream_ok ?t" using s by (simp add: stream_ok_def)
    with same_stream_drop(1) [of ?t hard os e w1] have "stream_ok (fst (on_error hard os e ?t w1))" by (rule same_stream_ok)
    moreover have "wire (snd (on_error hard os e ?t w1)) = wire w" using w1 wire_drop(1) [OF os(1)] by simp
    ultimately show ?thesis using o Err q s w1
      by (cases "e = EAGAIN"; cases "on_error hard os e ?t w1")
        (auto simp: slip_recv_def intro!: exI [of _ "[]"])
  next
    case (Ret bs)
    show ?thesis
    proof (cases "bs = []")
      case True
      have "stream_ok (fst (stream_drop os s w1))" using same_stream_drop(2) s by (rule same_stream_ok)
      moreover have "wire (snd (stream_drop os s w1)) = wire w" using w1 wire_drop(2) [OF os(1)] by simp
      ultimately show ?thesis using o Ret True q s w1
        by (cases hard; cases "stream_drop os s w1") (auto simp: slip_recv_def intro!: exI [of _ "[]"])
    next
      case False
      have bs: "length bs + rx_off s \<le> BUF_LEN" using os(2) o Ret s by (fastforce simp: receives_def stream_ok_def)
      let ?rx = "overwrite (rx_off s) bs (rx_buf s)"
      have len: "length ?rx = BUF_LEN" using bs s by (simp add: stream_ok_def)
      have "0 + (length bs + rx_off s) \<le> length ?rx" "length ?rx < 2147483648" using bs len by (simp_all add: BUF_LEN_def)
      then obtain p n rx ev' d' ms where
        disp: "slip_dispatch dr 0 (length bs + rx_off s) ?rx ev d = Done (p, n, rx, ev', d')"
        "queues d' q (r @ ms)" "p + n = length bs + rx_off s" "length rx = BUF_LEN"
        using slip_dispatch_safe [OF q, of 0 "length bs + rx_off s" ?rx ev] by (simp add: len) blast
      let ?s = "s\<lparr>rx_buf := (if 0 < n then overwrite 0 (part rx p n) rx else rx), rx_off := n\<rparr>"
      have "stream_ok ?s" using s disp(3,4) bs by (simp add: stream_ok_def)
      moreover have "slip_recv hard os dr f (ev, s, d, w) = Done (ev', ?s, d', w1)"
        using o Ret False disp(1) by (simp add: slip_recv_def)
      ultimately show ?thesis using disp(2) w1 by blast
    qed
  qed
qed

text \<open>Sending, then receiving, as both kinds of run do\<close>

lemma send_recv_safe:
  assumes q: "queues d q r" and os: "wired os wire" "receives os" and s: "stream_ok s"
    and fit: "list_all (fits_frame True) q" and k: "length q < k"
  shows "\<exists>ev' s' d' w' i part ms.
    run_bind (if c s then stream_send k hard os dr (g s) (ev, s, d, w) else Done (ev, s, d, w)) (\<lambda>(ev, s, d, w).
      if c s then stream_recv k hard os dr (g s) (ev, s, d, w) else Done (ev, s, d, w)) = Done (ev', s', d', w') \<and>
    queues d' (drop i q) (r @ ms) \<and> i \<le> length q \<and> stream_ok s' \<and>
    wire w' = wire w @ concat (map (frame_of True) (take i q)) @ part \<and>
    (part = [] \<or> (\<exists>m. i < length q \<and> part = take m (frame_of True (q ! i)))) \<and>
    (c s \<longrightarrow> i < length q \<longrightarrow> not_taken os (g s) wire (wire w @ concat (map (frame_of True) (take i q))) (frame_of True (q ! i)))"
proof -
  have sl: "slip s" "length (tx_buf s) = BUF_LEN" using s by (simp_all add: stream_ok_def)
  have "\<exists>ev1 s1 d1 w1 i part. (if c s then stream_send k hard os dr (g s) (ev, s, d, w) else Done (ev, s, d, w)) = Done (ev1, s1, d1, w1) \<and>
    queues d1 (drop i q) r \<and> i \<le> length q \<and> same_stream s s1 \<and>
    wire w1 = wire w @ concat (map (frame_of True) (take i q)) @ part \<and>
    (part = [] \<or> (\<exists>m. i < length q \<and> part = take m (frame_of True (q ! i)))) \<and>
    (c s \<longrightarrow> i < length q \<longrightarrow> not_taken os (g s) wire (wire w @ concat (map (frame_of True) (take i q))) (frame_of True (q ! i)))"
  proof (cases "c s")
    case True
    then show ?thesis using stream_send_order [OF q os(1) sl(2) _ k, of hard "g s" ev w] fit sl(1) by simp
  next
    case False
    then show ?thesis using q by (auto intro!: exI [of _ 0])
  qed
  then obtain ev1 s1 d1 w1 i part where
    snd: "(if c s then stream_send k hard os dr (g s) (ev, s, d, w) else Done (ev, s, d, w)) = Done (ev1, s1, d1, w1)"
    "queues d1 (drop i q) r" "i \<le> length q" "same_stream s s1"
    "wire w1 = wire w @ concat (map (frame_of True) (take i q)) @ part"
    "part = [] \<or> (\<exists>m. i < length q \<and> part = take m (frame_of True (q ! i)))"
    "c s \<longrightarrow> i < length q \<longrightarrow> not_taken os (g s) wire (wire w @ concat (map (frame_of True) (take i q))) (frame_of True (q ! i))" by blast
  have s1: "stream_ok s1" using snd(4) s by (rule same_stream_ok)
  obtain ev2 s2 d2 w2 ms where
    "(if c s1 then stream_recv k hard os dr (g s1) (ev1, s1, d1, w1) else Done (ev1, s1, d1, w1)) = Done (ev2, s2, d2, w2)"
    "queues d2 (drop i q) (r @ ms)" "stream_ok s2" "wire w2 = wire w1"
  proof (cases "c s1")
    case True
    have "slip s1" using s1 by (simp add: stream_ok_def)
    with slip_recv_safe [OF snd(2) os s1, of hard "g s1" ev1 w1] True show thesis
      by (auto simp: stream_recv_def intro: that)
  next
    case False
    with snd(2) s1 show thesis by (intro that [of ev1 s1 d1 w1 "[]"]) simp_all
  qed
  with snd show ?thesis by auto
qed

lemma stream_run_slip:
  fixes os :: "'o os"
  assumes q: "queues d q r" and os: "wired os wire" "receives os" and s: "stream_ok s" "socket_type s \<noteq> SOCK_DGRAM"
    and fit: "list_all (fits_frame True) q" and k: "length q < k"
    and open_: "connected s \<or> server s \<or> 0 \<le> sock s"
  shows "\<exists>ev' s' d' w' i part ms. lv2_osc_stream_run k os dr s d w = Done (ev', s', d', w') \<and>
    queues d' (drop i q) (r @ ms) \<and> i \<le> length q \<and> stream_ok s' \<and>
    wire w' = wire w @ concat (map (frame_of True) (take i q)) @ part \<and>
    (part = [] \<or> (\<exists>m. i < length q \<and> part = take m (frame_of True (q ! i)))) \<and>
    (link_up s \<longrightarrow> i < length q \<longrightarrow> not_taken os (link_fd s) wire (wire w @ concat (map (frame_of True) (take i q))) (frame_of True (q ! i)))"
proof -
  have accept_opt_wire: "wire (snd (accept_opt (o_setsockopt os f opt v) x)) = wire (snd x)"
    "wire (snd (accept_opt (o_nonblock os f) x)) = wire (snd x)" for f opt v x
    using os(1) by (auto simp: accept_opt_def wired_def split: prod.splits sys.splits) (metis snd_conv)+
  obtain ev1 s1 w1 where conn: "(if connected s then (LV2_OSC_NONE, s, w)
            else if server s then tcp_accept os (LV2_OSC_NONE, s, w)
            else tcp_reconnect os (LV2_OSC_NONE, s, w)) = (ev1, s1, w1)" by (metis prod_cases3)
  have w1: "stream_ok s1 \<and> wire w1 = wire w"
  proof (cases "connected s")
    case True
    then show ?thesis using conn s by simp
  next
    case False
    show ?thesis
    proof (cases "server s")
      case True
      have "wire (snd (o_accept os (sock s) w)) = wire w" using os(1) by (simp add: wired_def)
      moreover define opts where "opts f x = accept_opt (o_setsockopt os f SO_RCVBUF 0x100000)
        (accept_opt (o_setsockopt os f SO_SNDBUF 0x100000) (accept_opt (o_setsockopt os (sock s) SO_KEEPALIVE 1)
        (accept_opt (o_setsockopt os f TCP_NODELAY 1) (accept_opt (o_nonblock os f) x))))" for f x
      moreover have "wire (snd (opts f x)) = wire (snd x)" for f x by (simp add: opts_def accept_opt_wire)
      ultimately show ?thesis using conn False True s
        by (auto simp: tcp_accept_def Let_def stream_ok_def split: prod.splits sys.splits) (metis snd_conv)+
    next
      case noserver: False
      have "wire (snd (o_connect os (sock s) (peer s) w)) = wire w" using os(1) by (simp add: wired_def)
      then show ?thesis using conn False noserver open_ s
        by (auto simp: tcp_reconnect_def try_connect_def stream_ok_def split: prod.splits sys.splits)
    qed
  qed
  define fin :: "('d, 'o) state \<Rightarrow> ('d, 'o) state run" where "fin = (\<lambda>(ev, s, d, w). Done (if connected s then ev OR LV2_OSC_CONN else ev, s, d, w))"
  define both where "both c hard g st = (case st of (ev, s, d, w) \<Rightarrow>
      run_bind (if c s then stream_send k hard os dr (g s) (ev, s, d, w) else Done (ev, s, d, w)) (\<lambda>(ev, s, d, w).
        if c s then stream_recv k hard os dr (g s) (ev, s, d, w) else Done (ev, s, d, w)))" for c hard g st
  obtain c hard g ev0 s0 w0 where run: "lv2_osc_stream_run k os dr s d w = run_bind (both c hard g (ev0, s0, d, w0)) fin"
    and s0: "stream_ok s0" "wire w0 = wire w" "link_up s \<longrightarrow> c s0 \<and> g s0 = link_fd s"
  proof (cases "socket_type s")
    case SOCK_STREAM
    then have run: "lv2_osc_stream_run k os dr s d w =
        run_bind (both (\<lambda>s. connected s \<and> 0 \<le> stream_fd s) True stream_fd (ev1, s1, d, w1)) fin"
      by (simp add: lv2_osc_stream_run_def stream_run_tcp_def conn both_def fin_def case_prod_unfold)
    have "link_up s \<longrightarrow> (connected s1 \<and> 0 \<le> stream_fd s1) \<and> stream_fd s1 = link_fd s"
      using conn SOCK_STREAM by (auto simp: link_up_def link_fd_def)
    with w1 show thesis by (intro that [OF run]) auto
  next
    case SOCK_NONE
    then have run: "lv2_osc_stream_run k os dr s d w =
        run_bind (both (\<lambda>s. 0 \<le> sock s) False sock (LV2_OSC_NONE, s, d, w)) fin"
      by (simp add: lv2_osc_stream_run_def stream_run_ser_def both_def fin_def case_prod_unfold)
    have "link_up s \<longrightarrow> 0 \<le> sock s \<and> sock s = link_fd s" using SOCK_NONE by (simp add: link_up_def link_fd_def)
    with s show thesis by (intro that [OF run]) auto
  qed (use s in simp)
  obtain ev' s' d' w' i part ms where "both c hard g (ev0, s0, d, w0) = Done (ev', s', d', w')"
    "queues d' (drop i q) (r @ ms)" "i \<le> length q" "stream_ok s'"
    "wire w' = wire w @ concat (map (frame_of True) (take i q)) @ part"
    "part = [] \<or> (\<exists>m. i < length q \<and> part = take m (frame_of True (q ! i)))"
    "c s0 \<longrightarrow> i < length q \<longrightarrow> not_taken os (g s0) wire (wire w @ concat (map (frame_of True) (take i q))) (frame_of True (q ! i))"
    using send_recv_safe [OF q os s0(1) fit k, of c hard g ev0 w0] unfolding both_def prod.case s0(2) by blast
  moreover from this(1) have "lv2_osc_stream_run k os dr s d w = Done (if connected s' then ev' OR LV2_OSC_CONN else ev', s', d', w')"
    by (simp add: run fin_def)
  moreover have "link_up s \<longrightarrow> i < length q \<longrightarrow> not_taken os (link_fd s) wire (wire w @ concat (map (frame_of True) (take i q))) (frame_of True (q ! i))"
    using calculation(7) s0(3) by auto
  ultimately show ?thesis by blast
qed

text \<open>A driver with room for everything that fits into the stream's buffer gets all frames that arrive whole.\<close>

lemma slip_recv_frames:
  assumes "queues d q r" and s: "stream_ok s" "rx_off s = 0" and ms: "list_all (\<lambda>m. m \<noteq> []) ms" "ms \<noteq> []"
    and o: "o_recv os f BUF_LEN w = (Ret (concat (map slip_frame ms)), w1)" "length (concat (map slip_frame ms)) \<le> BUF_LEN"
  shows "\<exists>ev' s' d' i. slip_recv hard os dr f (ev, s, d, w) = Done (ev', s', d', w1) \<and>
    queues d' q (r @ take i ms) \<and> i \<le> length ms \<and> stream_ok s' \<and> (i = length ms \<longleftrightarrow> rx_off s' = 0) \<and>
    (i < length ms \<longrightarrow> space d' < 16 + pad8 (length (ms ! i))) \<and> space d \<le> space d' + sum_list (map (\<lambda>m. 8 + pad8 (length m)) (take i ms))"
proof -
  let ?F = "concat (map slip_frame ms)"
  have F: "?F \<noteq> []" using ms(2) by (cases ms) (simp_all add: slip_frame_def)
  have "length m \<le> length ?F" if "m \<in> set ms" for m
    using that by (induction ms) (auto simp: slip_frame_def intro: order_trans [OF length_slip_body(1)] trans_le_add1 trans_le_add2)
  then have small: "list_all (\<lambda>m. m \<noteq> [] \<and> length m < 2147483648) ms"
    using ms(1) o(2) by (fastforce simp: list_all_iff BUF_LEN_def)
  have rx: "overwrite 0 ?F (rx_buf s) = [] @ ?F @ drop (length ?F) (rx_buf s)" by (simp add: overwrite_def)
  have len: "length ([] @ ?F @ drop (length ?F) (rx_buf s)) = BUF_LEN" using o(2) s(1) by (simp add: stream_ok_def)
  from slip_dispatch_frames [OF assms(1) small, of "[]" "drop (length ?F) (rx_buf s)" ev] obtain p n rx ev' d' i where
    disp: "slip_dispatch dr 0 (length ?F) (overwrite 0 ?F (rx_buf s)) ev d = Done (p, n, rx, ev', d')"
    "queues d' q (r @ take i ms)" "i \<le> length ms" "length rx = BUF_LEN" "n = 0 \<longleftrightarrow> i = length ms"
    "i < length ms \<longrightarrow> space d' < 16 + pad8 (length (ms ! i))" "space d \<le> space d' + sum_list (map (\<lambda>m. 8 + pad8 (length m)) (take i ms))"
    unfolding rx len by auto
  have "0 + length ?F \<le> length (overwrite 0 ?F (rx_buf s))" "length (overwrite 0 ?F (rx_buf s)) < 2147483648"
    using len rx by (simp_all add: BUF_LEN_def)
  from slip_dispatch_safe [OF assms(1) this, of ev] disp(1) have pn: "p + n = length ?F" by auto
  let ?s = "s\<lparr>rx_buf := (if 0 < n then overwrite 0 (part rx p n) rx else rx), rx_off := n\<rparr>"
  have "slip_recv hard os dr f (ev, s, d, w) = Done (ev', ?s, d', w1)"
    using o F s(2) disp(1) by (simp add: slip_recv_def del: concat_eq_Nil_conv)
  moreover have "stream_ok ?s" using s disp(4) pn o(2) by (simp add: stream_ok_def)
  ultimately show ?thesis using disp(2,3,5-7) by (intro exI [of _ ev'] exI [of _ ?s] exI [of _ d'] exI [of _ i]) auto
qed

end

end
