(* ===== verification/Io_Transfer.thy ===== *)
theory Io_Transfer
  imports Io Stream_Transfer
begin

text \<open>
  The ring buffers of \<open>eteroj_io.c\<close> are the queues the stream relies on, so what is known of streams
  holds of the plugin's worker.
\<close>

section \<open>The rings as queues\<close>

text \<open>Each buffer has 1 MiB, \<open>BUF_SIZE\<close>.\<close>

definition io_queues :: "rings \<Rightarrow> u8 list list \<Rightarrow> u8 list list \<Rightarrow> bool" where
  "io_queues d q r \<longleftrightarrow> queue_inv 20 (to_worker d) q \<and> queue_inv 20 (from_worker d) r"

text \<open>The room for what arrives\<close>

definition io_space :: "rings \<Rightarrow> nat" where
  "io_space d = room_left 20 (from_worker d)"

lemma io_read_none: "io_queues d [] r \<Longrightarrow> data_send_req d = Some (None, d)"
  by (simp add: io_queues_def data_send_req_def ring_front_empty [of 20])

lemma io_read_some:
  assumes "io_queues d (m # q) r"
  shows "\<exists>d'. data_send_req d = Some (Some m, d') \<and> io_queues d' (m # q) r \<and>
    (\<exists>d''. data_send_adv d' = Some d'' \<and> io_queues d'' q r)"
proof -
  have "queue_inv 20 (to_worker d) (m # q)" and r: "queue_inv 20 (from_worker d) r"
    using assms by (simp_all add: io_queues_def)
  then obtain p v1 v2 where "ring_front (to_worker d) = Some (Some (p, of_nat (length m)), v1)" "queue_inv 20 v1 (m # q)"
    "chunk_load p (of_nat (length m)) v1 = Some m" "varchunk_read_advance v1 = Some v2" "queue_inv 20 v2 q"
    by (blast elim: ring_front_chunk)
  with r show ?thesis by (simp add: io_queues_def data_send_req_def data_send_adv_def)
qed

lemma io_accept:
  assumes q: "io_queues d q r" and n: "n < 2147483648"
  shows "(\<exists>d'. data_recv_req n d = (None, d') \<and> io_queues d' q r \<and> io_space d < 16 + pad8 n \<and> io_space d' = io_space d) \<or>
    (\<exists>p m d'. data_recv_req n d = (Some (p, m), d') \<and> io_queues d' q r \<and>
      (\<forall>bs. length bs \<le> n \<longrightarrow> (\<exists>d1 d2. data_recv_store p bs d' = Some d1 \<and>
        data_recv_adv (length bs) d1 = Some d2 \<and> io_queues d2 q (r @ [bs]) \<and> io_space d \<le> io_space d2 + (8 + pad8 (length bs)))))"
proof -
  have to: "queue_inv 20 (to_worker d) q" and from_: "queue_inv 20 (from_worker d) r" using q by (simp_all add: io_queues_def)
  have u: "unat (of_nat n :: u64) = n" using n by simp
  then have "unat (of_nat n :: u64) < 2 ^ 31" using n by simp
  with from_ show ?thesis
  proof (cases rule: request_grants)
    case (full v1)
    then show ?thesis using to u by (simp add: data_recv_req_def io_queues_def io_space_def varchunk_write_request_def)
  next
    case (room p v1)
    have "\<exists>d1 d2. data_recv_store p bs (d\<lparr>from_worker := v1\<rparr>) = Some d1 \<and>
        data_recv_adv (length bs) d1 = Some d2 \<and> io_queues d2 q (r @ [bs]) \<and> io_space d \<le> io_space d2 + (8 + pad8 (length bs))" if le: "length bs \<le> n" for bs
    proof -
      obtain v2 v3 where "chunk_store p bs v1 = Some v2" "varchunk_write_advance (of_nat (length bs)) v2 = Some v3"
        "queue_inv 20 v3 (r @ [bs])"
        by (rule store_advance [OF room(2,3) _ room(4) order_refl, of bs]) (use le u in simp_all)
      moreover from this(1,2) have "room_left 20 v1 \<le> room_left 20 v3 + (8 + pad8 (length bs))"
        using store_advance_room [OF room(2,3,7)] le u by simp
      ultimately show ?thesis using to room(6) by (simp add: data_recv_store_def data_recv_adv_def io_queues_def io_space_def)
    qed
    then show ?thesis using room(1,2) to
      by (intro disjI2) (simp add: data_recv_req_def io_queues_def varchunk_write_request_def)
  qed
qed

interpretation io: stream_queue io_driver io_queues io_space
proof
  show "\<exists>d'. read_req io_driver d = Some (None, d') \<and> io_queues d' [] r" if "io_queues d [] r" for d r
    using that io_read_none by (auto simp: io_driver_def)
qed (use io_read_some io_accept in \<open>auto simp: io_driver_def\<close>)

end
