(* ===== verification/Io_Sample.thy ===== *)
theory Io_Sample
  imports Io_Ports Io_Transfer
begin

text \<open>
  Concrete instances for the witnesses: the handle of the plugin, a host that records the calls of
  its forge, fresh rings, a connected stream, and a system that sends what it is given.
\<close>

lemma replicate_eqs: "replicate 2 x = [x, x]" "replicate 3 x = [x, x, x]"
  by (simp_all add: numeral_eq_Suc)

section \<open>A plugin, and a system\<close>

definition new_ring :: varchunk where
  "new_ring = varchunk_init (replicate (2 ^ 20) 0) (of_nat (2 ^ 20))"

lemma queue_new_ring [simp]: "queue_inv 20 new_ring []"
  unfolding new_ring_def by (rule queue_inv_init) simp_all

definition sample_io :: io where
  "sample_io = \<lparr>io_urid = host_urid, io_connected = 40, io_error = 41, io_string = 18, at_from = 0x1000000, at_to = 0x2000000,
     at_thread = 0x3000000, at_list = 0x4000000, at_buf = 0x5000000, at_error = 0x6000000, at_connected = 0x7000000\<rparr>"

definition sample_io_host :: "fcall list io_host" where
  "sample_io_host = \<lparr>ih_forge = recording, ih_get = first_value, ih_object = (\<lambda>_. True), ih_map = (\<lambda>_. 0),
     ih_unmap = (\<lambda>_. None), ih_sched = None, ih_sort = (\<lambda>ls. ls), ih_strerror = (\<lambda>_. None)\<rparr>"

definition sample_rt :: io_rt where
  "sample_rt = \<lparr>rings = \<lparr>from_worker = new_ring, to_worker = new_ring, to_thread = new_ring\<rparr>,
     pool = replicate LIST_SIZE \<lparr>l_frames = 0, l_size = 0, l_buf = replicate MTU_SIZE 0\<rparr>, nlist = 0, status_updated = False\<rparr>"

definition sample_io_world :: "fcall list io_world" where
  "sample_io_world = \<lparr>pp = pp sample_world, pmem = pmem sample_world, pforge = ([], sample_rt), pref = True, plog = []\<rparr>"

lemma sample_io_simps [simp]:
  "rt sample_io_world = sample_rt" "pref sample_io_world" "io_urid sample_io = host_urid" "ih_forge sample_io_host = recording"
  "ih_sched sample_io_host = None" "ih_unmap sample_io_host = (\<lambda>_. None)"
  "unat (at_from sample_io) = 0x1000000" "unat (at_to sample_io) = 0x2000000"
  "rings sample_rt = \<lparr>from_worker = new_ring, to_worker = new_ring, to_thread = new_ring\<rparr>"
  by (simp_all add: sample_io_world_def rt_def sample_io_def sample_io_host_def sample_rt_def)

lemma sample_io_queues: "io_queues (rings sample_rt) [] []"
  by (simp add: io_queues_def)

text \<open>A system that sends what it is given, and receives what is there\<close>

definition pipe_os :: "(u8 list \<times> u8 list) os" where
  "pipe_os = \<lparr>o_alloc = Pair True, o_open = (\<lambda>_. Pair (Ret 3)), o_nonblock = (\<lambda>_. Pair (Ret ())),
     o_getattr = (\<lambda>_. Pair (Err 25)), o_setattr = (\<lambda>_ _. Pair (Ret ())), o_socket = (\<lambda>_ _ _. Pair (Ret 3)),
     o_setsockopt = (\<lambda>_ _ _. Pair (Ret ())), o_getaddrinfo = (\<lambda>_ _ _ _ _. Pair (Ret no_addr)), o_ifindex = (\<lambda>_ _. 0),
     o_bind = (\<lambda>_ _. Pair (Ret ())), o_listen = (\<lambda>_. Pair (Ret ())), o_connect = (\<lambda>_ _. Pair (Ret ())),
     o_accept = (\<lambda>_. Pair (Err EAGAIN)), o_close = (\<lambda>_ w. w), o_sendto = (\<lambda>_ bs _ w. (Ret (length bs), fst w @ bs, snd w)),
     o_recvfrom = (\<lambda>_ _. Pair (Err EAGAIN)), o_send = (\<lambda>_ bs w. (Ret (length bs), fst w @ bs, snd w)),
     o_recv = (\<lambda>_ n w. if snd w = [] then (Err EAGAIN, w) else (Ret (take n (snd w)), fst w, drop n (snd w))),
     o_poll = (\<lambda>_ _ _. Pair (Ret ()))\<rparr>"

definition no_data :: "u8 list \<times> u8 list" where "no_data = ([], [])"

lemma pipe_wired: "wired pipe_os fst" "receives pipe_os"
  by (simp_all add: wired_def receives_def pipe_os_def)

definition sample_stream :: stream where
  "sample_stream = \<lparr>socket_family = AF_INET, socket_type = SOCK_STREAM, protocol = IPPROTO_TCP, server = False, slip = True,
     serial = False, connected = True, sock = 3, fd = - 1, self = no_addr, peer = no_addr, tx_buf = replicate BUF_LEN 0,
     rx_buf = replicate BUF_LEN 0, rx_off = 0, url = []\<rparr>"

lemma sample_stream_ok: "stream_ok sample_stream" "socket_type sample_stream \<noteq> SOCK_DGRAM" "connected sample_stream" "rx_off sample_stream = 0"
  by (simp_all add: stream_ok_def sample_stream_def)

definition sample_wk :: io_wk where
  "sample_wk = \<lparr>stream = sample_stream, rolling = True, osc_url = None\<rparr>"

end
