(* ===== verification/Io_Send.thy ===== *)
theory Io_Send
  imports Io_Sample
begin

text \<open>
  Packets at the input of \<open>eteroj_io.c\<close> become chunks for the worker. The space the plugin asks
  for is the size of the atom; it is enough for packets without long symbols (\<open>packet_room\<close>).
\<close>

section \<open>The size of a packet's atom\<close>

primrec short_symbols :: "packet \<Rightarrow> bool" where
  "short_symbols (PMessage path as) \<longleftrightarrow> list_all (\<lambda>a. case a of ASymbol s \<Rightarrow> length s \<le> 11 | _ \<Rightarrow> True) as"
| "short_symbols (PBundle t ps) \<longleftrightarrow> list_all short_symbols ps"

lemma arg_room:
  assumes "arg_ok a" and "case a of ASymbol s \<Rightarrow> length s \<le> 11 | _ \<Rightarrow> True"
  shows "arg_size a + 1 \<le> length (atom_bytes (arg_atom u umap a))"
  using assms by (cases a) (auto simp: str_atom_def literal_atom_def timetag_atom_def pad4_def hex2_def)

lemma length_body:
  "length (atom_bytes (Atom t b)) = 8 + (length (body_bytes b) + 7) div 8 * 8"
  by simp

lemma args_room:
  "list_all arg_ok as \<Longrightarrow> list_all (\<lambda>a. case a of ASymbol s \<Rightarrow> length s \<le> 11 | _ \<Rightarrow> True) as \<Longrightarrow>
   sum_list (map arg_size as) + length as \<le> length (concat (map atom_bytes (map (arg_atom u umap) as)))"
proof (induction as)
  case (Cons a as)
  then show ?case using arg_room [of a u umap] by simp
qed simp

lemma packet_room:
  "packet_ok unmap umap p \<Longrightarrow> short_symbols p \<Longrightarrow> packet_size p < length (body_bytes (atom_body (packet_atom u umap p)))"
proof (induction p)
  case (PMessage path as)
  then have "sum_list (map arg_size as) + length as \<le> length (concat (map atom_bytes (map (arg_atom u umap) as)))"
    using packet_arg_ok_arg by (intro args_room) auto
  then show ?case by (simp add: message_size_def str_atom_def tuple_atom_def pad4_def)
next
  case (PBundle t ps)
  then have "sum_list (map (\<lambda>p. 4 + packet_size p) ps) \<le> length (concat (map atom_bytes (map (packet_atom u umap) ps)))"
  proof (induction ps)
    case (Cons p ps)
    from Cons.prems(1) [of p] Cons.prems(2,3) have "packet_size p < length (body_bytes (atom_body (packet_atom u umap p)))" by simp
    then have "4 + packet_size p \<le> length (atom_bytes (packet_atom u umap p))" by (cases "packet_atom u umap p") simp
    moreover have "sum_list (map (\<lambda>p. 4 + packet_size p) ps) \<le> length (concat (map atom_bytes (map (packet_atom u umap) ps)))"
      by (cases "ps = []") (use Cons in auto)
    ultimately show ?case by simp
  qed simp
  then show ?case by (simp add: tuple_atom_def timetag_atom_def)
qed

section \<open>A packet goes to the worker\<close>

text \<open>What the plugin relies on when it sends: identifiers that differ, a host that finds properties.\<close>

definition io_ready :: "'f io_host \<Rightarrow> io \<Rightarrow> 'f io_world \<Rightarrow> bool" where
  "io_ready e h w \<longleftrightarrow> proper_urid (io_urid h) \<and> finds_values (ih_get e) \<and>
     u_Message (io_urid h) \<notin> set (patch_types (urid (pp w))) \<and> u_Bundle (io_urid h) \<notin> set (patch_types (urid (pp w))) \<and>
     unat (at_to h) + 2 ^ 34 \<le> 2 ^ 64"

text \<open>The space the plugin asks for: the size of the packet's atom. The events of a period that are packets\<close>

definition asked :: "io \<Rightarrow> (u8 list \<Rightarrow> u32) \<Rightarrow> packet \<Rightarrow> nat" where
  "asked h umap p = length (body_bytes (atom_body (packet_atom (io_urid h) umap p)))"

definition packet_events :: "io \<Rightarrow> (u8 list \<Rightarrow> u32) \<Rightarrow> (u64 \<times> packet) list \<Rightarrow> (u64 \<times> atom) list" where
  "packet_events h umap tps = map (\<lambda>(t, p). (t, packet_atom (io_urid h) umap p)) tps"

lemma packet_events_simps [simp]:
  "packet_events h umap [] = []" "packet_events h umap ((t, p) # tps) = (t, packet_atom (io_urid h) umap p) # packet_events h umap tps"
  by (simp_all add: packet_events_def)

definition sendable :: "'f io_host \<Rightarrow> io \<Rightarrow> (u8 list \<Rightarrow> u32) \<Rightarrow> nat \<Rightarrow> packet \<Rightarrow> bool" where
  "sendable e h umap k p \<longleftrightarrow> packet_ok (ih_unmap e) umap p \<and> short_symbols p \<and> packet_depth p \<le> k \<and>
     length (body_bytes (atom_body (packet_atom (io_urid h) umap p))) < 2 ^ 31"

lemma packet_atom_object:
  "atom_type (packet_atom u umap p) = u_Object u"
  "object_otype (atom_body (packet_atom u umap p)) = Some (case p of PMessage _ _ \<Rightarrow> u_Message u | PBundle _ _ \<Rightarrow> u_Bundle u)"
  by (cases p; simp add: object_otype_def)+

lemma io_event_sends:
  assumes rdy: "io_ready e h w" and q: "queue_inv 20 (to_worker (rings (rt w))) q" and p: "sendable e h umap k p"
  obtains (dropped) v where "io_event e h k (t, packet_atom (io_urid h) umap p) w = Done (set_rings ((rings (rt w))\<lparr>to_worker := v\<rparr>) w)"
    "queue_inv 20 v q" "room_left 20 (to_worker (rings (rt w))) < 16 + pad8 (asked h umap p)"
    "room_left 20 v = room_left 20 (to_worker (rings (rt w)))"
  | (sent) v bs where "io_event e h k (t, packet_atom (io_urid h) umap p) w = Done (set_rings ((rings (rt w))\<lparr>to_worker := v\<rparr>) w)"
    "queue_inv 20 v (q @ [bs])" "packet_wire p bs" "length bs \<le> packet_size p"
    "16 + pad8 (asked h umap p) \<le> room_left 20 (to_worker (rings (rt w)))"
    "room_left 20 (to_worker (rings (rt w))) \<le> room_left 20 v + (8 + pad8 (asked h umap p))"
proof -
  let ?u = "io_urid h" and ?a = "packet_atom (io_urid h) umap p"
  have u: "proper_urid ?u" "finds_values (ih_get e)" and np: "u_Message ?u \<notin> set (patch_types (urid (pp w)))"
    "u_Bundle ?u \<notin> set (patch_types (urid (pp w)))" and base: "unat (at_to h) + 2 ^ 34 \<le> 2 ^ 64"
    using rdy by (simp_all add: io_ready_def)
  have ok: "packet_ok (ih_unmap e) umap p" "short_symbols p" "packet_depth p \<le> k" "length (body_bytes (atom_body ?a)) < 2 ^ 31"
    using p by (simp_all add: sendable_def)
  note room = packet_room [OF ok(1,2), of ?u]
  have n: "unat (ucast (atom_size ?a) :: u64) = length (body_bytes (atom_body ?a))"
    using ok(4) by (simp add: atom_size_def ucast_of_nat_u64 unsigned_of_nat take_bit_nat_eq_self)
  have size: "packet_size p < 2 ^ 31" using room ok(4) by simp
  obtain wr where wr: "lv2_osc_writer_packet k ?u (ih_get e) (ih_unmap e) (atom_body ?a) = Some wr" and op: "writer_op wr (packet_enc p)"
    using writer_packet_refines [OF u ok(1) size ok(3)] by blast
  have type: "\<exists>ot. object_otype (atom_body ?a) = Some ot \<and> lv2_osc_is_message_or_bundle_type ?u ot"
    by (cases p) (simp_all add: packet_atom_object lv2_osc_is_message_or_bundle_type_def lv2_osc_is_message_type_def
      lv2_osc_is_bundle_type_def object_otype_def)
  have ev: "io_event e h k (t, ?a) w = run_bind (lift (ring_write (at_to h) (ucast (atom_size ?a)) wr (to_worker (rings (rt w)))))
      (\<lambda>(ok, v). Done (set_rings ((rings (rt w))\<lparr>to_worker := v\<rparr>) w))"
    using packet_not_patch [OF np] type wr by (auto simp: io_event_def packet_atom_object(1))
  have len: "length (packet_enc p rest) \<le> packet_size p" for rest by (rule length_packet_enc [OF ok(1)])
  have fit: "unat (ucast (atom_size ?a) :: u64) < 2 ^ 31" "unat (at_to h) + 2 ^ 20 + 2 ^ 33 \<le> 2 ^ 64" using n ok(4) base by simp_all
  have enc: "length (packet_enc p rest) < unat (ucast (atom_size ?a) :: u64) \<and> packet_enc p rest \<noteq> []" for rest
    using le_less_trans [OF len room] n packet_enc_not_Nil by simp
  show thesis
  proof (cases rule: ring_write_queues [OF q fit op enc, consumes 0, case_names refused written])
    case (refused v)
    then show thesis using n by (intro dropped [of v]) (simp_all add: ev asked_def)
  next
    case (written v rest)
    have "fits (length (packet_enc p rest)) rest" using le_less_trans [OF len room] written(2) n by (simp add: fits_def)
    note wire = packet_wire_enc [OF ok(1) this]
    have "pad8 (length (packet_enc p rest)) \<le> pad8 (asked h umap p)"
      using enc [of rest] n by (intro pad8_mono) (simp add: asked_def)
    then show thesis using wire written len n by (intro sent [of v]) (simp_all add: ev asked_def)
  qed
qed

lemma set_rings_id [simp]: "set_rings (rings (rt w)) w = w"
  by (simp add: set_rings_def set_rt_def rt_def)

text \<open>
  Of the packets of a period exactly those are sent for which the ring has the room when they come; so all,
  when there is room for them at the start.
\<close>

definition sent_when_room :: "'f io_host \<Rightarrow> io \<Rightarrow> (u8 list \<Rightarrow> u32) \<Rightarrow> nat \<Rightarrow> (u64 \<times> packet) list \<Rightarrow> 'f io_world \<Rightarrow> bool list \<Rightarrow> bool" where
  "sent_when_room e h umap k tps w oks \<longleftrightarrow> length oks = length tps \<and>
     (\<forall>j < length tps. \<exists>wj. io_events e h k (packet_events h umap (take j tps)) w = Done wj \<and>
       (oks ! j \<longleftrightarrow> 16 + pad8 (asked h umap (snd (tps ! j))) \<le> room_left 20 (to_worker (rings (rt wj)))))"

definition asked_all :: "io \<Rightarrow> (u8 list \<Rightarrow> u32) \<Rightarrow> (u64 \<times> packet) list \<Rightarrow> nat" where
  "asked_all h umap tps = sum_list (map (\<lambda>(t, p). 8 + pad8 (asked h umap p)) tps)"

lemma sent_when_room_Cons:
  assumes "io_event e h k (t, packet_atom (io_urid h) umap p) w = Done w1" and "sent_when_room e h umap k tps w1 oks"
    and "ok \<longleftrightarrow> 16 + pad8 (asked h umap p) \<le> room_left 20 (to_worker (rings (rt w)))"
  shows "sent_when_room e h umap k ((t, p) # tps) w (ok # oks)"
  using assms by (auto simp: sent_when_room_def All_less_Suc2)

lemma io_events_send:
  "io_ready e h w \<Longrightarrow> queue_inv 20 (to_worker (rings (rt w))) q \<Longrightarrow> list_all (sendable e h umap k) (map snd tps) \<Longrightarrow>
   \<exists>v oks bss. io_events e h k (packet_events h umap tps) w = Done (set_rings ((rings (rt w))\<lparr>to_worker := v\<rparr>) w) \<and>
    queue_inv 20 v (q @ bss) \<and> sent_when_room e h umap k tps w oks \<and>
    list_all2 (\<lambda>p bs. packet_wire p bs \<and> length bs \<le> packet_size p) (accepted oks (map snd tps)) bss \<and>
    (asked_all h umap tps + 8 \<le> room_left 20 (to_worker (rings (rt w))) \<longrightarrow> False \<notin> set oks)"
proof (induction tps arbitrary: w q)
  case Nil
  then show ?case by (intro exI [of _ "to_worker (rings (rt w))"] exI [of _ "[]"]) (simp add: sent_when_room_def)
next
  case (Cons tp tps)
  obtain t p where tp: "tp = (t, p)" by force
  have rdy: "io_ready e h (set_rings r w)" for r using Cons.prems(1) by (simp add: io_ready_def)
  have "sendable e h umap k p" using Cons.prems(3) tp by simp
  from Cons.prems(1,2) this show ?case
  proof (cases rule: io_event_sends [where t = t])
    case (dropped v)
    let ?w = "set_rings ((rings (rt w))\<lparr>to_worker := v\<rparr>) w"
    from dropped(2) Cons.prems(3) Cons.IH [OF rdy, of "(rings (rt w))\<lparr>to_worker := v\<rparr>" q] obtain v2 oks bss where
      ih: "io_events e h k (packet_events h umap tps) ?w = Done (set_rings ((rings (rt w))\<lparr>to_worker := v2\<rparr>) w)"
      "queue_inv 20 v2 (q @ bss)" "sent_when_room e h umap k tps ?w oks"
      "list_all2 (\<lambda>p bs. packet_wire p bs \<and> length bs \<le> packet_size p) (accepted oks (map snd tps)) bss" by auto
    have "sent_when_room e h umap k ((t, p) # tps) w (False # oks)"
      using dropped(3) by (intro sent_when_room_Cons [OF dropped(1) ih(3)]) simp
    with dropped(1,3) ih tp show ?thesis
      by (intro exI [of _ v2] exI [of _ "False # oks"] exI [of _ bss]) (simp add: asked_all_def)
  next
    case (sent v bs)
    let ?w = "set_rings ((rings (rt w))\<lparr>to_worker := v\<rparr>) w"
    from sent(2) Cons.prems(3) Cons.IH [OF rdy, of "(rings (rt w))\<lparr>to_worker := v\<rparr>" "q @ [bs]"] obtain v2 oks bss where
      ih: "io_events e h k (packet_events h umap tps) ?w = Done (set_rings ((rings (rt w))\<lparr>to_worker := v2\<rparr>) w)"
      "queue_inv 20 v2 (q @ bs # bss)" "sent_when_room e h umap k tps ?w oks"
      "list_all2 (\<lambda>p bs. packet_wire p bs \<and> length bs \<le> packet_size p) (accepted oks (map snd tps)) bss"
      "asked_all h umap tps + 8 \<le> room_left 20 v \<longrightarrow> False \<notin> set oks" by auto
    have "sent_when_room e h umap k ((t, p) # tps) w (True # oks)"
      using sent(5) by (intro sent_when_room_Cons [OF sent(1) ih(3)]) simp
    with sent(1,3,4,6) ih tp show ?thesis
      by (intro exI [of _ v2] exI [of _ "True # oks"] exI [of _ "bs # bss"]) (auto simp: asked_all_def)
  qed
qed

lemma accepted_bounds: "set (accepted oks ds) \<subseteq> set ds" "length (accepted oks ds) \<le> length ds"
  by (induction oks ds rule: accepted.induct) auto

section \<open>The worker sends\<close>

lemma frames_fit: "list_all2 (\<lambda>p bs. packet_wire p bs \<and> length bs \<le> packet_size p) ps bss \<Longrightarrow>
    \<forall>p \<in> set ps. 2 * packet_size p + 2 \<le> BUF_LEN \<Longrightarrow> list_all (fits_frame True) bss"
proof (induction ps bss rule: list_all2_induct)
  case (Cons p ps bs bss)
  have "length (slip_frame bs) \<le> 2 * length bs + 2" using length_slip_body(2) [of bs] by (simp add: slip_frame_def)
  with Cons show ?case by (auto simp: fits_frame_def frame_of_def)
qed simp

lemma packet_wire_not_Nil: "packet_wire p bs \<Longrightarrow> bs \<noteq> []"
  by (cases p) (auto simp: message_wire_def bundle_wire_def bundle_tag_def enc_string_def)

lemma wires_not_Nil: "list_all2 packet_wire ps bss \<Longrightarrow> list_all (\<lambda>bs. bs \<noteq> []) bss"
  by (induction ps bss rule: list_all2_induct) (auto dest: packet_wire_not_Nil)

lemma work_urls_none:
  assumes "queue_inv 20 (to_thread d) []"
  shows "work_urls (Suc j) h u d = Done (u, d)"
  using ring_front_empty [OF assms] by simp

lemma io_work_runs:
  assumes "queue_inv 20 (to_thread d) []" and "rolling x"
  shows "io_work (Suc j) n os h x d o1 = run_bind (lv2_osc_stream_run n os io_driver (stream x) d o1)
    (\<lambda>(ev, s, d, o2). Done (LV2_OSC_NONE OR ev, x\<lparr>stream := s\<rparr>, d, o2))"
  using assms(2) by (simp add: io_work_def work_urls_none [OF assms(1)] io_activate_def del: work_urls.simps)

lemma sample_io_ready: "io_ready sample_io_host sample_io sample_io_world"
proof -
  have "patch_types (urid (pp sample_io_world)) = [101, 102, 103, 104]"
    by (simp add: patch_types_def sample_io_world_def sample_defs)
  moreover have "u_Message host_urid = 5" "u_Bundle host_urid = 2" by (simp_all add: host_urid_def lv2_osc_urid_init_def)
  moreover have "ih_get sample_io_host = first_value" by (simp add: sample_io_host_def)
  ultimately show ?thesis by (simp add: io_ready_def finds_first_value)
qed

text \<open>What fits into the receive buffer fits into a ring that is empty.\<close>

lemma frames_room: "sum_list (map (\<lambda>m. 8 + pad8 (length m)) bss) \<le> 16 * length (concat (map slip_frame bss))"
proof (induction bss)
  case (Cons m bss)
  have "8 + pad8 (length m) \<le> 16 * length (slip_frame m)"
    using pad8_bounds(2) [of "length m"] length_slip_body(1) [of m] by (simp add: slip_frame_def)
  with Cons show ?case by simp
qed simp

lemma sum_list_take_nth: "i < length xs \<Longrightarrow> sum_list (take i xs) + xs ! i \<le> sum_list (xs :: nat list)"
  by (metis add_le_cancel_left id_take_nth_drop le_add1 sum_list.Cons sum_list.append)

section \<open>Properties\<close>

text \<open>
  C2. From the port to the wire: the packets among the events of a period become chunks for the
  worker, each in its OSC encoding and in their order; left out are exactly those for which the ring
  has no room when they come, and none when all ask for less than half of the ring. The worker then ends,
  whatever the system does and whatever arrives, and what it puts on the wire is the SLIP frames of these
  packets from the first on, perhaps followed by a part of the next. With the connection up it stops
  before the last only when the system did not take the next frame; the rest stays queued.
\<close>

theorem io_sends_in_order:
  fixes os :: "'o os"
  assumes "io_ready e h w" and "io_queues (rings (rt w)) [] r" and "queue_inv 20 (to_thread (rings (rt w))) []"
    and "list_all (\<lambda>(t, p). sendable e h umap k p \<and> 2 * packet_size p + 2 \<le> BUF_LEN) tps"
    and "wired os wire" and "receives os" and "rolling x" and "stream_ok (stream x)" and "socket_type (stream x) \<noteq> SOCK_DGRAM"
    and "connected (stream x) \<or> server (stream x) \<or> 0 \<le> sock (stream x)" and "length tps < n"
  shows "\<exists>w1 oks bss ev x' d' o' i torn ms.
    io_events e h k (packet_events h umap tps) w = Done w1 \<and> sent_when_room e h umap k tps w oks \<and>
    (asked_all h umap tps + 8 \<le> 2 ^ 19 \<longrightarrow> False \<notin> set oks) \<and> list_all2 packet_wire (accepted oks (map snd tps)) bss \<and>
    io_work (Suc j) n os h x (rings (rt w1)) o1 = Done (ev, x', d', o') \<and>
    i \<le> length bss \<and> io_queues d' (drop i bss) (r @ ms) \<and>
    wire o' = wire o1 @ concat (map slip_frame (take i bss)) @ torn \<and>
    (torn = [] \<or> (\<exists>l. i < length bss \<and> torn = take l (slip_frame (bss ! i)))) \<and>
    (link_up (stream x) \<longrightarrow> i < length bss \<longrightarrow>
      not_taken os (link_fd (stream x)) wire (wire o1 @ concat (map slip_frame (take i bss))) (slip_frame (bss ! i)))"
proof -
  have to: "queue_inv 20 (to_worker (rings (rt w))) []" and from_: "queue_inv 20 (from_worker (rings (rt w))) r"
    using assms(2) by (simp_all add: io_queues_def)
  have "list_all (sendable e h umap k) (map snd tps)" using assms(4) by (auto simp: list_all_iff)
  from io_events_send [OF assms(1) to this] obtain v oks bss where
    ev: "io_events e h k (packet_events h umap tps) w = Done (set_rings ((rings (rt w))\<lparr>to_worker := v\<rparr>) w)"
    and q: "queue_inv 20 v bss" and oks: "sent_when_room e h umap k tps w oks"
    "asked_all h umap tps + 8 \<le> room_left 20 (to_worker (rings (rt w))) \<longrightarrow> False \<notin> set oks"
    and wire_: "list_all2 (\<lambda>p bs. packet_wire p bs \<and> length bs \<le> packet_size p) (accepted oks (map snd tps)) bss" by auto
  let ?d = "(rings (rt w))\<lparr>to_worker := v\<rparr>"
  have all: "asked_all h umap tps + 8 \<le> 2 ^ 19 \<longrightarrow> False \<notin> set oks" using oks(2) room_left_empty [OF to] by simp
  note acc = accepted_bounds [of oks "map snd tps"]
  have small: "\<forall>p \<in> set (accepted oks (map snd tps)). 2 * packet_size p + 2 \<le> BUF_LEN" using assms(4) acc(1) by (fastforce simp: list_all_iff)
  note fit = frames_fit [OF wire_ small]
  have len: "length bss \<le> length tps" using list_all2_lengthD [OF wire_] acc(2) by simp
  have wires: "list_all2 packet_wire (accepted oks (map snd tps)) bss" by (rule list_all2_mono [OF wire_]) simp
  have "list_all (\<lambda>bs. bs \<noteq> []) bss" by (rule wires_not_Nil [OF wires])
  then have ne: "frame_of True bs = slip_frame bs" if "bs \<in> set bss" for bs
    using that by (auto simp: frame_of_def list_all_iff)
  have "io_queues ?d bss r" "queue_inv 20 (to_thread ?d) []" using q from_ assms(3) by (simp_all add: io_queues_def)
  note run = io.stream_run_slip [OF this(1) assms(5,6,8,9) fit _ assms(10), of n o1] and w = io_work_runs [OF this(2) assms(7)]
  have "concat (map (frame_of True) (take i bss)) = concat (map slip_frame (take i bss))" for i
    by (intro arg_cong [where f = concat] map_cong refl ne) (auto dest: in_set_takeD)
  moreover have "frame_of True (bss ! i) = slip_frame (bss ! i)" if "i < length bss" for i using that by (intro ne) simp
  moreover have "length bss < n" using len assms(11) by simp
  ultimately obtain ev2 s' d' o' i torn ms where
    res: "lv2_osc_stream_run n os io_driver (stream x) ?d o1 = Done (ev2, s', d', o')" "io_queues d' (drop i bss) (r @ ms)"
      "i \<le> length bss" "wire o' = wire o1 @ concat (map slip_frame (take i bss)) @ torn"
      "torn = [] \<or> (\<exists>l. i < length bss \<and> torn = take l (slip_frame (bss ! i)))"
      "link_up (stream x) \<longrightarrow> i < length bss \<longrightarrow>
        not_taken os (link_fd (stream x)) wire (wire o1 @ concat (map slip_frame (take i bss))) (slip_frame (bss ! i))"
    using run by (metis (no_types, lifting))
  moreover have "io_work (Suc j) n os h x (rings (rt (set_rings ?d w))) o1 = Done (LV2_OSC_NONE OR ev2, x\<lparr>stream := s'\<rparr>, d', o')"
    using w [of j n os h o1] res(1) by simp
  ultimately show ?thesis using ev oks(1) all wires
    by (intro exI [of _ "set_rings ?d w"] exI [of _ oks] exI [of _ bss] exI [of _ "LV2_OSC_NONE OR ev2"]
        exI [of _ "x\<lparr>stream := s'\<rparr>"] exI [of _ d'] exI [of _ o'] exI [of _ i] exI [of _ torn] exI [of _ ms] conjI)
qed

theorem io_sends_in_order_witness:
  "\<exists>w1 bs ev x' d' o' ms.
    io_events sample_io_host sample_io 3 (packet_events sample_io (\<lambda>_. 0) [(0, sample_packet)]) sample_io_world = Done w1 \<and>
    packet_wire sample_packet bs \<and>
    io_work (Suc 0) 2 pipe_os sample_io sample_wk (rings (rt w1)) no_data = Done (ev, x', d', o') \<and>
    fst o' = slip_frame bs \<and> io_queues d' [] ms"
proof -
  have small: "2 * packet_size sample_packet + 2 \<le> BUF_LEN" "asked_all sample_io (\<lambda>_. 0) [(0 :: u64, sample_packet)] + 8 \<le> 2 ^ 19"
    by (simp_all add: sample_packet_def message_size_def pad4_def BUF_LEN_def asked_all_def asked_def pad8_def str_atom_def tuple_atom_def timetag_atom_def)
  have ok: "list_all (\<lambda>(t, p). sendable sample_io_host sample_io (\<lambda>_. 0) 3 p \<and> 2 * packet_size p + 2 \<le> BUF_LEN) [(0 :: u64, sample_packet)]"
    using small(1) by (simp add: sendable_def) (simp add: sample_packet_def message_size_def pad4_def str_atom_def tuple_atom_def timetag_atom_def)
  have up: "link_up (stream sample_wk)" by (simp add: link_up_def sample_wk_def sample_stream_def stream_fd_def)
  have takes: "\<not> not_taken pipe_os f fst bs fr" for f bs fr by (simp add: not_taken_def pipe_os_def)
  have "\<exists>w1 oks bss ev x' d' o' i torn ms.
    io_events sample_io_host sample_io 3 (packet_events sample_io (\<lambda>_. 0) [(0, sample_packet)]) sample_io_world = Done w1 \<and>
    sent_when_room sample_io_host sample_io (\<lambda>_. 0) 3 [(0, sample_packet)] sample_io_world oks \<and>
    (asked_all sample_io (\<lambda>_. 0) [(0 :: u64, sample_packet)] + 8 \<le> 2 ^ 19 \<longrightarrow> False \<notin> set oks) \<and>
    list_all2 packet_wire (accepted oks (map snd [(0 :: u64, sample_packet)])) bss \<and>
    io_work (Suc 0) 2 pipe_os sample_io sample_wk (rings (rt w1)) no_data = Done (ev, x', d', o') \<and>
    i \<le> length bss \<and> io_queues d' (drop i bss) ([] @ ms) \<and>
    fst o' = fst no_data @ concat (map slip_frame (take i bss)) @ torn \<and>
    (torn = [] \<or> (\<exists>l. i < length bss \<and> torn = take l (slip_frame (bss ! i)))) \<and>
    (link_up (stream sample_wk) \<longrightarrow> i < length bss \<longrightarrow>
      not_taken pipe_os (link_fd (stream sample_wk)) fst (fst no_data @ concat (map slip_frame (take i bss))) (slip_frame (bss ! i)))"
    by (rule io_sends_in_order [OF sample_io_ready _ _ ok])
      (use sample_io_queues sample_stream_ok pipe_wired in \<open>simp_all add: sample_wk_def\<close>)
  then obtain w1 oks bss ev x' d' o' i torn ms where
    *: "io_events sample_io_host sample_io 3 (packet_events sample_io (\<lambda>_. 0) [(0, sample_packet)]) sample_io_world = Done w1"
    "io_work (Suc 0) 2 pipe_os sample_io sample_wk (rings (rt w1)) no_data = Done (ev, x', d', o')"
    and oks: "length oks = 1" "False \<notin> set oks" "list_all2 packet_wire (accepted oks [sample_packet]) bss"
    and sent: "i = length bss" "io_queues d' (drop i bss) ms" "torn = []" "fst o' = concat (map slip_frame (take i bss)) @ torn"
    using small(2) up takes by (auto simp: sent_when_room_def no_data_def)
  from oks obtain bs where bs: "bss = [bs]" "packet_wire sample_packet bs" by (auto simp: length_Suc_conv list_all2_Cons1)
  with sent have "fst o' = slip_frame bs" "io_queues d' [] ms" by simp_all
  with * bs(2) show ?thesis by blast
qed

text \<open>
  C3. From the wire to the port: when the SLIP frames of packets arrive whole and the ring is empty, the
  worker puts all of the packets into the ring in their order, nothing stays in the receive buffer, and the
  next period forges them, each at its first frame and complete, and leaves the ring empty.
\<close>

theorem io_receives_in_order:
  assumes "io_queues (rings (rt w)) q []" and "stream_ok s" and "rx_off s = 0"
    and "list_all2 packet_wire ps bss" and "ps \<noteq> []" and "length (concat (map slip_frame bss)) \<le> BUF_LEN"
    and "o_recv os f BUF_LEN o1 = (Ret (concat (map slip_frame bss)), o2)"
    and "ih_forge e = recording" and "pref w" and "unat (at_from h) + 2 ^ 34 \<le> 2 ^ 64"
    and "\<forall>p \<in> set ps. forge_ok p \<and> at_once e p \<and> packet_fuel p \<le> k" and "length ps < j"
  shows "\<exists>ev' s' d v. slip_recv hard os io_driver f (ev, s, rings (rt w), o1) = Done (ev', s', d, o2) \<and>
    io_queues d q bss \<and> rx_off s' = 0 \<and> queue_inv 20 v [] \<and>
    io_incoming j e h k (set_rings d w) =
      Done (set_rings (d\<lparr>from_worker := v\<rparr>) (io_forged w (concat (map (incoming_calls e h 0) ps))))"
proof -
  have "bss \<noteq> []" using assms(4,5) by auto
  from io.slip_recv_frames [OF assms(1-3) wires_not_Nil [OF assms(4)] this assms(7,6), of hard ev] obtain ev' s' d i where
    recv: "slip_recv hard os io_driver f (ev, s, rings (rt w), o1) = Done (ev', s', d, o2)" "io_queues d q (take i bss)" "i \<le> length bss"
      "i = length bss \<longleftrightarrow> rx_off s' = 0" and
    full: "i < length bss \<longrightarrow> io_space d < 16 + pad8 (length (bss ! i))"
      "io_space (rings (rt w)) \<le> io_space d + sum_list (map (\<lambda>m. 8 + pad8 (length m)) (take i bss))" by auto
  have "i = length bss"
  proof (rule ccontr)
    assume "i \<noteq> length bss"
    with recv(3) have i: "i < length bss" by simp
    have "sum_list (map (\<lambda>m. 8 + pad8 (length m)) bss) \<le> 2 ^ 18"
      using frames_room [of bss] assms(6) by (simp add: BUF_LEN_def)
    with sum_list_take_nth [of i "map (\<lambda>m. 8 + pad8 (length m)) bss"] i full
    have "io_space (rings (rt w)) < 2 ^ 18 + 8" by (simp add: take_map)
    moreover have "2 ^ 20 \<le> 2 * io_space (rings (rt w))"
      using room_left_empty [of 20 "from_worker (rings (rt w))"] assms(1) by (simp add: io_queues_def io_space_def)
    ultimately show False by simp
  qed
  moreover from this recv(2) have "\<exists>v. queue_inv 20 v [] \<and> io_incoming j e h k (set_rings d w) =
      Done (set_rings ((rings (rt (set_rings d w)))\<lparr>from_worker := v\<rparr>)
        (io_forged (set_rings d w) (concat (map (incoming_calls e h 0) ps))))"
    using assms(4,9,11,12) by (intro incoming_forges [OF assms(8,10), of _ bss]) (auto simp: io_queues_def)
  ultimately show ?thesis using recv by auto
qed

theorem io_receives_in_order_witness:
  "\<exists>ev' s' d v. slip_recv True pipe_os io_driver 3 (0, sample_stream, rings (rt sample_io_world), ([], concat (map slip_frame [[47, 97, 0, 0, 44, 0, 0, 0]])))
      = Done (ev', s', d, ([], [])) \<and>
    io_queues d [] [[47, 97, 0, 0, 44, 0, 0, 0]] \<and> rx_off s' = 0 \<and> queue_inv 20 v [] \<and>
    io_incoming 2 sample_io_host sample_io 9 (set_rings d sample_io_world) =
      Done (set_rings (d\<lparr>from_worker := v\<rparr>) (io_forged sample_io_world
        (concat (map (incoming_calls sample_io_host sample_io 0) [PMessage [47, 97] []]))))"
proof (rule io_receives_in_order [OF _ sample_stream_ok(1,4), where q = "[]" and bss = "[[47, 97, 0, 0, 44, 0, 0, 0]]"])
  show "list_all2 packet_wire [PMessage [47, 97] []] [[47, 97, 0, 0, 44, 0, 0, 0]]"
    by (simp add: message_wire_def enc_string_def pad4_def comma_def c8_def replicate_eqs)
  show "length (concat (map slip_frame [[47, 97, 0, 0, 44, 0, 0, 0]])) \<le> BUF_LEN"
    by (simp add: slip_frame_def slip_escape_def BUF_LEN_def)
  show "o_recv pipe_os 3 BUF_LEN ([], concat (map slip_frame [[47, 97, 0, 0, 44, 0, 0, 0]])) =
      (Ret (concat (map slip_frame [[47, 97, 0, 0, 44, 0, 0, 0]])), [], [])"
    by (simp add: pipe_os_def slip_frame_def slip_escape_def BUF_LEN_def)
qed (use sample_io_queues in \<open>simp_all add: slash_def c8_def at_once_def\<close>)

end
