(* ===== verification/Io_Schedule.thy ===== *)
theory Io_Schedule
  imports Io_Sample "HOL-Library.Multiset"
begin

text \<open>
  Bundles with a time in \<open>eteroj_io.c\<close>: they wait in the list, and in each period those that are
  due are forged. \<open>qsort\<close> may do whatever its specification allows (\<open>qsorts\<close>).
\<close>

section \<open>The list\<close>

definition in_use :: "entry \<Rightarrow> bool" where
  "in_use l \<longleftrightarrow> l_size l \<noteq> 0"

definition waiting :: "io_rt \<Rightarrow> entry list" where
  "waiting x = take (nlist x) (pool x)"

definition pool_ok :: "io_rt \<Rightarrow> bool" where
  "pool_ok x \<longleftrightarrow> length (pool x) = LIST_SIZE \<and> nlist x \<le> LIST_SIZE \<and> list_all in_use (waiting x) \<and>
     list_all (\<lambda>l. \<not> in_use l) (drop (nlist x) (pool x))"

definition in_order :: "entry list \<Rightarrow> bool" where
  "in_order ls \<longleftrightarrow> sorted_wrt (\<lambda>a b. l_frames a \<le> l_frames b) ls"

definition qsorts :: "(entry list \<Rightarrow> entry list) \<Rightarrow> bool" where
  "qsorts srt \<longleftrightarrow> (\<forall>ls. mset (srt ls) = mset ls \<and> sorted_wrt (\<lambda>a b. entry_cmp a b \<le> 0) (srt ls))"

lemma entry_cmp_used: "entry_cmp a b \<le> 0 \<Longrightarrow> in_use b \<Longrightarrow> in_use a \<and> l_frames a \<le> l_frames b"
  by (auto simp: entry_cmp_def in_use_def split: if_splits)

lemma sorted_used_first:
  "sorted_wrt (\<lambda>a b. entry_cmp a b \<le> 0) ls \<Longrightarrow> ls = filter in_use ls @ filter (\<lambda>l. \<not> in_use l) ls"
proof (induction ls)
  case (Cons a ls)
  show ?case
  proof (cases "in_use a")
    case False
    with Cons.prems entry_cmp_used have "\<forall>b \<in> set ls. \<not> in_use b" by fastforce
    then have "filter in_use ls = []" "filter (\<lambda>l. \<not> in_use l) ls = ls" by (simp_all add: filter_empty_conv filter_id_conv)
    with False show ?thesis by simp
  qed (use Cons in simp)
qed simp

lemma sorted_in_order: "sorted_wrt (\<lambda>a b. entry_cmp a b \<le> 0) ls \<Longrightarrow> in_order (filter in_use ls)"
  unfolding in_order_def by (induction ls) (auto dest: entry_cmp_used)

text \<open>What sorting makes of a list, some entries of which are free\<close>

lemma qsorts_pool:
  assumes "qsorts srt" and "n = length (filter in_use ls)"
  shows "take n (srt ls) = filter in_use (srt ls)" "in_order (take n (srt ls))"
    "mset (take n (srt ls)) = filter_mset in_use (mset ls)" "drop n (srt ls) = filter (\<lambda>l. \<not> in_use l) (srt ls)"
    "length (srt ls) = length ls"
proof -
  have s: "mset (srt ls) = mset ls" "sorted_wrt (\<lambda>a b. entry_cmp a b \<le> 0) (srt ls)" using assms(1) by (simp_all add: qsorts_def)
  then have m: "mset (filter in_use (srt ls)) = mset (filter in_use ls)" by simp
  then have n: "n = length (filter in_use (srt ls))" using assms(2) by (metis size_mset)
  note split = sorted_used_first [OF s(2)]
  show t: "take n (srt ls) = filter in_use (srt ls)" by (subst split) (simp add: n)
  show "drop n (srt ls) = filter (\<lambda>l. \<not> in_use l) (srt ls)" by (subst split) (simp add: n)
  show "in_order (take n (srt ls))" unfolding t by (rule sorted_in_order [OF s(2)])
  show "mset (take n (srt ls)) = filter_mset in_use (mset ls)" unfolding t using m by simp
  show "length (srt ls) = length ls" using s(1) by (metis size_mset)
qed

lemma in_order_split:
  "in_order ls \<Longrightarrow> takeWhile (\<lambda>l. l_frames l < c) ls = filter (\<lambda>l. l_frames l < c) ls \<and>
    dropWhile (\<lambda>l. l_frames l < c) ls = filter (\<lambda>l. \<not> l_frames l < c) ls"
proof (induction ls)
  case (Cons a ls)
  show ?case
  proof (cases "l_frames a < c")
    case False
    with Cons.prems have "\<forall>b \<in> set ls. \<not> l_frames b < c" by (auto simp: in_order_def)
    with False show ?thesis by (simp add: filter_empty_conv filter_id_conv)
  qed (use Cons in \<open>auto simp: in_order_def\<close>)
qed simp

section \<open>Taking what is due\<close>

text \<open>The bytes of an entry are those of a packet.\<close>

definition held :: "entry \<Rightarrow> u8 list" where
  "held l = take (l_size l) (l_buf l)"

definition holds :: "nat \<Rightarrow> packet \<Rightarrow> entry \<Rightarrow> bool" where
  "holds k p l \<longleftrightarrow> l_size l \<le> length (l_buf l) \<and> length (l_buf l) < 2 ^ 31 \<and> packet_wire p (held l) \<and> forge_ok p \<and> packet_fuel p \<le> k"

definition due_calls :: "'f io_host \<Rightarrow> io \<Rightarrow> (entry \<Rightarrow> packet) \<Rightarrow> entry list \<Rightarrow> fcall list" where
  "due_calls e h packet_of ls = concat (map (\<lambda>l. incoming_calls e h (max 0 (l_frames l)) (packet_of l)) ls)"

definition spent :: "entry \<Rightarrow> entry" where
  "spent l = invalidate_list (l\<lparr>l_frames := max 0 (l_frames l)\<rparr>)"

lemma spent_free [simp]: "\<not> in_use (spent l)"
  by (simp add: spent_def invalidate_list_def in_use_def)

lemma region_view:
  assumes "length bs < 2 ^ 31" and "unat a + 2 ^ 34 \<le> 2 ^ 64" and "n \<le> length bs"
  shows "rview (region a bs) (lv2_osc_reader_initialize a (of_nat (length (take n bs)))) (take n bs)"
proof -
  have "mem_at (region a bs) a (take n bs @ drop n bs)" using assms(1) by (simp add: mem_at_region)
  then have "mem_at (region a bs) a (take n bs)" by (simp only: mem_at_append)
  then show ?thesis using assms by (simp add: rview_def lv2_osc_reader_initialize_def)
qed

lemma frames_nonneg: "(if l_frames l < 0 then l\<lparr>l_frames := 0\<rparr> else l) = l\<lparr>l_frames := max 0 (l_frames l)\<rparr>"
  by (cases l) auto

lemma due_forges:
  assumes e: "ih_forge e = recording" and base: "unat (at_list h) + 2 ^ 34 \<le> 2 ^ 64"
    and rest: "rest \<noteq> []" "in_use (List.hd rest) \<Longrightarrow> of_nat (unat nsamples) \<le> l_frames (List.hd rest)"
  shows "list_all (\<lambda>l. in_use l \<and> l_frames l < of_nat (unat nsamples) \<and> holds k (packet_of l) l) ls \<Longrightarrow> pref w \<Longrightarrow>
    io_due e h k nsamples (ls @ rest) w = Done (map spent ls @ rest, length ls, io_forged w (due_calls e h packet_of ls))"
proof (induction ls arbitrary: w)
  case Nil
  obtain r rs where r: "rest = r # rs" using rest(1) by (cases rest) auto
  have "0 \<le> (of_nat (unat nsamples) :: rat)" by (rule of_nat_0_le_iff)
  with rest(2) r have "in_use r \<Longrightarrow> 0 \<le> l_frames r" by (simp add: order_trans)
  with rest(2) r show ?case by (simp add: in_use_def due_calls_def)
next
  case (Cons l ls)
  let ?l = "l\<lparr>l_frames := max 0 (l_frames l)\<rparr>"
  from Cons.prems(1) have l: "l_size l \<noteq> 0" "l_frames l < of_nat (unat nsamples)" "holds k (packet_of l) l" by (simp_all add: in_use_def)
  then have buf: "length (l_buf l) < 2 ^ 31" "l_size l = length (held l)" "length (held l) < 2 ^ 31" by (simp_all add: holds_def held_def)
  have "rview (region (at_list h) (l_buf l)) (lv2_osc_reader_initialize (at_list h) (of_nat (length (held l)))) (held l)"
    using region_view [OF buf(1) base, of "l_size l"] l(3) by (simp add: holds_def held_def)
  from io_parse_forges [OF this _ _ buf(3), of "packet_of l" k w e h "l_frames ?l"]
  have "io_parse e h k (l_frames ?l) (region (at_list h) (l_buf l)) (at_list h) (of_nat (l_size l)) w =
      Done (io_forged w (incoming_calls e h (l_frames ?l) (packet_of l)))"
    using l(3) Cons.prems(2) e buf(2) by (simp add: holds_def)
  moreover have "\<not> (0 \<le> l_frames l \<and> of_nat (unat nsamples) \<le> l_frames l)" using l(2) by auto
  ultimately show ?case
    using Cons l(1) by (simp add: frames_nonneg spent_def due_calls_def)
qed

section \<open>The list between periods\<close>

lemma pool_okI:
  "pool x = ls @ fs \<Longrightarrow> nlist x = length ls \<Longrightarrow> list_all in_use ls \<Longrightarrow> list_all (\<lambda>l. \<not> in_use l) fs \<Longrightarrow> length ls + length fs = LIST_SIZE \<Longrightarrow>
   pool_ok x \<and> waiting x = ls"
  by (simp add: pool_ok_def waiting_def)

lemma pool_okE:
  assumes "pool_ok x"
  obtains fs where "pool x = waiting x @ fs" "nlist x = length (waiting x)" "list_all in_use (waiting x)"
    "list_all (\<lambda>l. \<not> in_use l) fs" "length (waiting x) + length fs = LIST_SIZE"
proof (rule that [of "drop (nlist x) (pool x)"])
  show "pool x = waiting x @ drop (nlist x) (pool x)" by (simp add: waiting_def)
  show "nlist x = length (waiting x)" "length (waiting x) + length (drop (nlist x) (pool x)) = LIST_SIZE"
    using assms by (simp_all add: pool_ok_def waiting_def min_absorb2)
qed (use assms in \<open>simp_all add: pool_ok_def\<close>)

lemma sort_list_pool: "pool x = ls @ fs \<Longrightarrow> nlist x = length ls \<Longrightarrow> pool (sort_list e x) = ih_sort e ls @ fs"
  by (simp add: sort_list_def)

lemma sort_list_simps [simp]: "nlist (sort_list e x) = nlist x" "rings (sort_list e x) = rings x" "status_updated (sort_list e x) = status_updated x"
  by (simp_all add: sort_list_def)

text \<open>Entries that have been spent go to the end, the others are sorted.\<close>

lemma sort_removes:
  assumes srt: "qsorts (ih_sort e)" and x: "pool x = (map spent A @ B) @ fs" "nlist x = length A + length B"
    and B: "list_all in_use B" and fs: "list_all (\<lambda>l. \<not> in_use l) fs" and n: "length A + length B + length fs = LIST_SIZE"
  shows "pool_ok ((sort_list e x)\<lparr>nlist := length B\<rparr>) \<and> in_order (waiting ((sort_list e x)\<lparr>nlist := length B\<rparr>)) \<and>
    mset (waiting ((sort_list e x)\<lparr>nlist := length B\<rparr>)) = mset B"
proof -
  let ?ls = "map spent A @ B" and ?x = "(sort_list e x)\<lparr>nlist := length B\<rparr>"
  let ?S = "ih_sort e ?ls"
  have A: "filter in_use (map spent A) = []" by (simp add: filter_empty_conv)
  have B': "filter in_use B = B" using B by (simp add: filter_id_conv list_all_iff)
  have AB: "filter in_use ?ls = B" by (simp only: filter_append A B' append_Nil)
  then have "length B = length (filter in_use ?ls)" by (simp only:)
  note q = qsorts_pool [OF srt this]
  have pool: "pool ?x = take (length B) ?S @ (drop (length B) ?S @ fs)"
    using sort_list_pool [OF x(1), of e] x(2) by (simp flip: append_assoc)
  have free: "list_all (\<lambda>l. \<not> in_use l) (drop (length B) ?S @ fs)" using q(4) fs by (auto simp: list_all_iff)
  have us: "list_all in_use (take (length B) ?S)" unfolding q(1) by (simp add: list_all_iff)
  have "pool_ok ?x \<and> waiting ?x = take (length B) ?S"
    by (rule pool_okI [OF pool _ us free]) (use q(5) n in simp_all)
  moreover have "filter_mset in_use (mset ?ls) = mset B" by (simp only: mset_filter [symmetric] AB)
  ultimately show ?thesis using q(2,3) by simp
qed

lemma schedule_dispatches:
  assumes e: "ih_forge e = recording" and base: "unat (at_list h) + 2 ^ 34 \<le> 2 ^ 64" and srt: "qsorts (ih_sort e)"
    and ok: "pool_ok (rt w)" "in_order (waiting (rt w))" and room: "nlist (rt w) < LIST_SIZE"
    and held: "list_all (\<lambda>l. holds k (packet_of l) l) (waiting (rt w))" and w: "pref w"
    and A_def: "A = filter (\<lambda>l. l_frames l < of_nat (unat nsamples)) (waiting (rt w))"
    and B_def: "B = filter (\<lambda>l. \<not> l_frames l < of_nat (unat nsamples)) (waiting (rt w))"
  shows "\<exists>x. run_bind (io_due e h k nsamples (pool (rt w)) w) (\<lambda>(ls, deleted, w2).
        let x = (rt w2)\<lparr>pool := ls\<rparr> in
        Done (set_rt (if deleted = 0 then x else (sort_list e x)\<lparr>nlist := nlist x - deleted\<rparr>) w2)) =
      Done (set_rt x (io_forged w (due_calls e h packet_of A))) \<and>
    rings x = rings (rt w) \<and> pool_ok x \<and> in_order (waiting x) \<and>
    mset (waiting x) = mset B"
proof -
  obtain fs where p: "pool (rt w) = waiting (rt w) @ fs" "nlist (rt w) = length (waiting (rt w))" "list_all in_use (waiting (rt w))"
    "list_all (\<lambda>l. \<not> in_use l) fs" "length (waiting (rt w)) + length fs = LIST_SIZE" by (rule pool_okE [OF ok(1)])
  let ?L = "waiting (rt w)" and ?n = "of_nat (unat nsamples) :: rat"
  have L: "?L = A @ B" using in_order_split [OF ok(2), of ?n] takeWhile_dropWhile_id [of "\<lambda>l. l_frames l < ?n" ?L] by (simp add: A_def B_def)
  have late: "list_all (\<lambda>l. \<not> l_frames l < ?n) B" by (simp add: B_def list_all_iff)
  have fs: "fs \<noteq> []" using p(2,5) room by auto
  have h: "of_nat (unat nsamples) \<le> l_frames (List.hd (B @ fs))" if "in_use (List.hd (B @ fs))"
    using that late p(4) fs by (cases B; cases fs) auto
  have "list_all (\<lambda>l. in_use l \<and> l_frames l < ?n \<and> holds k (packet_of l) l) A"
    using p(3) held by (auto simp: A_def list_all_iff)
  from due_forges [OF e base _ h this w] fs have due: "io_due e h k nsamples (pool (rt w)) w =
      Done (map spent A @ B @ fs, length A, io_forged w (due_calls e h packet_of A))" using p(1) L by simp
  show ?thesis
  proof (cases A)
    case Nil
    have "(rt w)\<lparr>pool := B @ fs\<rparr> = rt w" using p(1) L Nil by simp
    with due L ok Nil show ?thesis by (intro exI [of _ "rt w"]) simp
  next
    case (Cons a A')
    let ?x = "(rt w)\<lparr>pool := map spent A @ B @ fs\<rparr>"
    have "nlist ?x - length A = length B" using p(2) L by simp
    moreover have "pool_ok ((sort_list e ?x)\<lparr>nlist := length B\<rparr>) \<and> in_order (waiting ((sort_list e ?x)\<lparr>nlist := length B\<rparr>)) \<and>
        mset (waiting ((sort_list e ?x)\<lparr>nlist := length B\<rparr>)) = mset B"
      by (rule sort_removes [OF srt _ _ _ p(4)]) (use p(2,3,5) L in simp_all)
    ultimately show ?thesis using due Cons
      by (intro exI [of _ "(sort_list e ?x)\<lparr>nlist := length B\<rparr>"]) (simp add: Let_def)
  qed
qed

lemma sort_keeps:
  assumes "qsorts (ih_sort e)" and "pool_ok x"
  shows "pool_ok (sort_list e x) \<and> in_order (waiting (sort_list e x)) \<and> mset (waiting (sort_list e x)) = mset (waiting x)"
proof -
  obtain fs where p: "pool x = waiting x @ fs" "nlist x = length (waiting x)" "list_all in_use (waiting x)"
    "list_all (\<lambda>l. \<not> in_use l) fs" "length (waiting x) + length fs = LIST_SIZE" by (rule pool_okE [OF assms(2)])
  have "(sort_list e x)\<lparr>nlist := length (waiting x)\<rparr> = sort_list e x" using p(2) by (simp add: sort_list_def)
  with sort_removes [OF assms(1), of x "[]" "waiting x" fs] p show ?thesis by simp
qed

section \<open>New bundles\<close>

lemma add_list_waits:
  assumes "pool_ok x" and "nlist x < LIST_SIZE" and "bs \<noteq> []"
  shows "pool_ok (add_list fr bs x) \<and> (\<exists>l. waiting (add_list fr bs x) = waiting x @ [l] \<and> l_frames l = fr \<and> held l = bs) \<and>
    rings (add_list fr bs x) = rings x"
proof -
  obtain fs where p: "pool x = waiting x @ fs" "nlist x = length (waiting x)" "list_all in_use (waiting x)"
    "list_all (\<lambda>l. \<not> in_use l) fs" "length (waiting x) + length fs = LIST_SIZE" by (rule pool_okE [OF assms(1)])
  then obtain g gs where fs: "fs = g # gs" using assms(2) by (cases fs) auto
  let ?l = "g\<lparr>l_frames := fr, l_size := length bs, l_buf := overwrite 0 bs (l_buf g)\<rparr>"
  have "pool (add_list fr bs x) = (waiting x @ [?l]) @ gs" "nlist (add_list fr bs x) = length (waiting x @ [?l])"
    using assms(2) p(1,2) fs by (simp_all add: add_list_def)
  then have "pool_ok (add_list fr bs x) \<and> waiting (add_list fr bs x) = waiting x @ [?l]"
    by (rule pool_okI) (use p fs assms(3) in \<open>simp_all add: in_use_def\<close>)
  moreover have "held ?l = bs" by (simp add: held_def overwrite_def)
  ultimately show ?thesis by (auto simp: add_list_def)
qed

lemma short_bundle:
  assumes v: "rview m r (bundle_tag @ ys)" and n: "length ys < 12"
  shows "lv2_osc_reader_is_bundle m r = Some True" "\<exists>r1. bundle_begin m (of_nat (length (bundle_tag @ ys))) r = (Fail, r1)"
proof -
  have tag: "strn_eq m (rptr r) bundle_tag = Some True" by (rule strn_eq_prefix [OF rview_mem_at [OF v]])
  then show "lv2_osc_reader_is_bundle m r = Some True" by (simp add: lv2_osc_reader_is_bundle_def)
  have l: "length bundle_tag = 8" by (simp add: bundle_tag_def)
  have 8: "rview m (r_forward 8 r) ys" using rview_forward [OF v, of 8] l by simp
  show "\<exists>r1. bundle_begin m (of_nat (length (bundle_tag @ ys))) r = (Fail, r1)"
  proof (cases "8 \<le> length ys")
    case True
    have "rview m (r_forward 8 (r_forward 8 r)) (drop 8 ys)" using rview_forward [OF 8, of 8] True by simp
    from r_int32.short [OF this] n tag show ?thesis
      by (simp add: bundle_begin_def lv2_osc_reader_item_begin_def Let_def roverflow_view [OF v] l True call_bind_def
          r_timetag.enough [OF 8 True] lv2_osc_reader_item_raw_def)
  next
    case False
    with l show ?thesis
      using whole_fits [OF v] by (simp add: bundle_begin_def lv2_osc_reader_item_begin_def Let_def roverflow_view [OF v] del: of_nat_add)
  qed
qed

section \<open>A list and a sort\<close>

definition sort_entries :: "entry list \<Rightarrow> entry list" where
  "sort_entries ls = sort_key l_frames (filter in_use ls) @ filter (\<lambda>l. \<not> in_use l) ls"

lemma qsorts_sort_entries: "qsorts sort_entries"
proof -
  have "sorted_wrt (\<lambda>a b. entry_cmp a b \<le> 0) (sort_entries ls)" for ls
  proof -
    have "sorted_wrt (\<lambda>a b. l_frames a \<le> l_frames b) (sort_key l_frames (filter in_use ls))"
      using sorted_sort_key [of l_frames "filter in_use ls"] by (simp only: sorted_wrt_map)
    then have "sorted_wrt (\<lambda>a b. entry_cmp a b \<le> 0) (sort_key l_frames (filter in_use ls))"
      by (rule sorted_wrt_mono_rel [rotated]) (auto simp: entry_cmp_def in_use_def)
    moreover have "sorted_wrt (\<lambda>a b. entry_cmp a b \<le> 0) (filter (\<lambda>l. \<not> in_use l) ls)"
      by (rule sorted_wrt_mono_rel [of _ "\<lambda>_ _. True"]) (auto simp: entry_cmp_def in_use_def)
    ultimately show ?thesis by (auto simp: sort_entries_def sorted_wrt_append entry_cmp_def in_use_def)
  qed
  moreover have "mset (sort_entries ls) = mset ls" for ls by (simp add: sort_entries_def)
  ultimately show ?thesis by (simp add: qsorts_def)
qed

definition sample_entry :: "rat \<Rightarrow> entry" where
  "sample_entry fr = \<lparr>l_frames = fr, l_size = 28, l_buf = bundle_wire 5 [[47, 97, 0, 0, 44, 0, 0, 0]]\<rparr>"

definition free_entry :: entry where
  "free_entry = \<lparr>l_frames = 0, l_size = 0, l_buf = replicate MTU_SIZE 0\<rparr>"

lemma sample_entry_simps [simp]: "in_use (sample_entry fr)" "l_frames (sample_entry fr) = fr" "\<not> in_use free_entry"
  by (simp_all add: in_use_def sample_entry_def free_entry_def)

lemma sample_entry_holds: "holds 9 (PBundle 5 [PMessage [47, 97] []]) (sample_entry fr)"
proof -
  have len: "length (bundle_wire 5 [[47, 97, 0, 0, 44, 0, 0, 0]]) = 28" by (simp add: bundle_wire_def item_bytes_def bundle_tag_def)
  have "packet_wire (PMessage [47, 97] []) [47, 97, 0, 0, 44, 0, 0, 0]"
    by (simp add: message_wire_def enc_string_def pad4_def comma_def c8_def replicate_eqs)
  then have "packet_wire (PBundle 5 [PMessage [47, 97] []]) (bundle_wire 5 [[47, 97, 0, 0, 44, 0, 0, 0]])" by auto
  then show ?thesis using len by (simp add: holds_def held_def sample_entry_def slash_def c8_def)
qed

definition waiting_rt :: "entry list \<Rightarrow> io_rt" where
  "waiting_rt ls = sample_rt\<lparr>pool := ls @ replicate (LIST_SIZE - length ls) free_entry, nlist := length ls\<rparr>"

lemma waiting_rt_ok: "list_all in_use ls \<Longrightarrow> length ls \<le> LIST_SIZE \<Longrightarrow> pool_ok (waiting_rt ls) \<and> waiting (waiting_rt ls) = ls"
  by (rule pool_okI [where fs = "replicate (LIST_SIZE - length ls) free_entry"]) (simp_all add: waiting_rt_def list_all_iff)

section \<open>Properties\<close>

text \<open>
  C15. The bundles of a period: those that are due are forged, each once, complete and in the order
  of their times, late ones at the period's first frame; all others stay in the list, which is
  sorted afterwards and has no gaps.
\<close>

theorem io_schedule_dispatches:
  assumes "ih_forge e = recording" and "unat (at_list h) + 2 ^ 34 \<le> 2 ^ 64" and "qsorts (ih_sort e)"
    and "pool_ok (rt w)" and "nlist (rt w) < LIST_SIZE" and "nlist (rt w) = old \<Longrightarrow> in_order (waiting (rt w))"
    and "list_all (\<lambda>l. holds k (packet_of l) l) (waiting (rt w))" and "pref w"
  shows "\<exists>x due. io_schedule e h k nsamples old w = Done (set_rt x (io_forged w (due_calls e h packet_of due))) \<and>
    in_order due \<and> mset due = mset (filter (\<lambda>l. l_frames l < of_nat (unat nsamples)) (waiting (rt w))) \<and>
    rings x = rings (rt w) \<and> pool_ok x \<and> in_order (waiting x) \<and>
    mset (waiting x) = mset (filter (\<lambda>l. \<not> l_frames l < of_nat (unat nsamples)) (waiting (rt w)))"
proof -
  let ?n = "of_nat (unat nsamples) :: rat"
  define x where "x = (if nlist (rt w) \<noteq> old then sort_list e (rt w) else rt w)"
  have x: "pool_ok x" "in_order (waiting x)" "mset (waiting x) = mset (waiting (rt w))" "nlist x = nlist (rt w)" "rings x = rings (rt w)"
    using sort_keeps [OF assms(3,4)] assms(4,6) by (simp_all add: x_def)
  let ?w = "set_rt x w"
  have rt: "rt ?w = x" "pref ?w = pref w" "\<And>y cs. set_rt y (io_forged ?w cs) = set_rt y (io_forged w cs)"
    by (simp_all add: set_rt_def rt_def io_forged_def)
  have held: "list_all (\<lambda>l. holds k (packet_of l) l) (waiting x)"
    using assms(7) mset_eq_setD [OF x(3)] by (simp add: list_all_iff)
  have room: "nlist x < LIST_SIZE" using x(4) assms(5) by simp
  have "set_rt (rt w) w = w" by (simp add: set_rt_def rt_def)
  then have "(if nlist (rt w) \<noteq> old then set_rt (sort_list e (rt w)) w else w) = ?w" by (simp add: x_def)
  note run = io_schedule_def [of e h k nsamples old w, unfolded Let_def this rt(1)]
  from schedule_dispatches [OF assms(1-3), of ?w k packet_of, unfolded rt(1,2) Let_def, OF x(1,2) room held assms(8) refl refl, of nsamples]
  obtain y where
    y: "io_schedule e h k nsamples old w = Done (set_rt y (io_forged ?w (due_calls e h packet_of (filter (\<lambda>l. l_frames l < ?n) (waiting x)))))"
    "rings y = rings x" "pool_ok y" "in_order (waiting y)" "mset (waiting y) = mset (filter (\<lambda>l. \<not> l_frames l < ?n) (waiting x))"
    unfolding run by blast
  have "in_order (filter (\<lambda>l. l_frames l < ?n) (waiting x))" using x(2) by (simp add: in_order_def sorted_wrt_filter)
  with y x show ?thesis unfolding rt(3)
    by (intro exI [of _ y] exI [of _ "filter (\<lambda>l. l_frames l < ?n) (waiting x)"]) simp
qed

theorem io_schedule_dispatches_witness:
  "\<exists>x due. io_schedule (sample_io_host\<lparr>ih_sort := sort_entries\<rparr>) sample_io 9 64 1
      (set_rt (waiting_rt [sample_entry 70, sample_entry 3]) sample_io_world) =
    Done (set_rt x (io_forged (set_rt (waiting_rt [sample_entry 70, sample_entry 3]) sample_io_world)
      (due_calls (sample_io_host\<lparr>ih_sort := sort_entries\<rparr>) sample_io (\<lambda>_. PBundle 5 [PMessage [47, 97] []]) due))) \<and>
    mset due = {#sample_entry 3#} \<and> mset (waiting x) = {#sample_entry 70#}"
proof -
  let ?ls = "[sample_entry 70, sample_entry 3]" and ?e = "sample_io_host\<lparr>ih_sort := sort_entries\<rparr>"
  have size: "length ?ls < LIST_SIZE" by (simp add: LIST_SIZE_def)
  then have ok: "pool_ok (waiting_rt ?ls)" "waiting (waiting_rt ?ls) = ?ls" using waiting_rt_ok [of ?ls] by simp_all
  have w: "rt (set_rt (waiting_rt ?ls) sample_io_world) = waiting_rt ?ls" "pref (set_rt (waiting_rt ?ls) sample_io_world)"
    by (simp_all add: rt_def set_rt_def)
  have "unat (64 :: u32) = 64" by simp
  with io_schedule_dispatches [of ?e sample_io "set_rt (waiting_rt ?ls) sample_io_world" 1 9 "\<lambda>_. PBundle 5 [PMessage [47, 97] []]" 64]
    ok w size qsorts_sort_entries sample_entry_holds
  show ?thesis by (simp add: waiting_rt_def sample_io_def) blast
qed

text \<open>
  C24. A bundle with a time is not forged when it arrives but added to the list, with the frame the
  host's scheduler gives its time, as long as the list has room for it and it is no longer than an entry.
\<close>

theorem io_unroll_waits:
  assumes "rview m (lv2_osc_reader_initialize buf (of_nat (length bs))) bs" and "bs = bundle_wire t xs" and "xs \<noteq> []"
    and "length bs \<le> MTU_SIZE" and "ih_sched e = Some osc2frames" and "t \<noteq> LV2_OSC_IMMEDIATE"
    and "pool_ok (rt w)" and "nlist (rt w) < LIST_SIZE"
  shows "\<exists>x l. io_unroll e h k m buf (of_nat (length bs)) w = Done (set_rt x w) \<and> pool_ok x \<and>
    waiting x = waiting (rt w) @ [l] \<and> l_frames l = osc2frames t \<and> held l = bs \<and> rings x = rings (rt w)"
proof -
  have n: "length bs < 2 ^ 31" using assms(4) by (simp add: MTU_SIZE_def)
  from bundle_starts [OF assms(1-3) this] obtain itm r1 where
    b: "lv2_osc_reader_is_bundle m (lv2_osc_reader_initialize buf (of_nat (length bs))) = Some True"
    "bundle_begin m (of_nat (length bs)) (lv2_osc_reader_initialize buf (of_nat (length bs))) = (Ok itm, r1)" "itimetag itm = t"
    by metis
  have u: "unat (of_nat (length bs) :: u64) = length bs" using n by simp
  have "mem_at m buf bs" using rview_mem_at [OF assms(1)] by (simp add: lv2_osc_reader_initialize_def)
  from ld_mem_at [OF this] have "ld m buf (length bs) = Some bs" .
  with b u assms(4-6) have "io_unroll e h k m buf (of_nat (length bs)) w = Done (set_rt (add_list (osc2frames t) bs (rt w)) w)"
    by (simp add: io_unroll_def Let_def)
  moreover have "bs \<noteq> []" using assms(2) by (simp add: bundle_wire_def bundle_tag_def)
  ultimately show ?thesis using add_list_waits [OF assms(7,8), of bs "osc2frames t"] by blast
qed

theorem io_unroll_waits_witness:
  "let bs = bundle_wire 5 [[47, 97, 0, 0, 44, 0, 0, 0]]; e = sample_io_host\<lparr>ih_sched := Some (\<lambda>t. of_nat (unat t) - 2)\<rparr> in
    \<exists>x l. io_unroll e sample_io 9 (region 4096 bs) 4096 (of_nat (length bs)) (set_rt (waiting_rt []) sample_io_world) =
      Done (set_rt x (set_rt (waiting_rt []) sample_io_world)) \<and> pool_ok x \<and>
    waiting x = waiting (rt (set_rt (waiting_rt []) sample_io_world)) @ [l] \<and> l_frames l = of_nat (unat (5 :: u64)) - 2 \<and>
    held l = bs \<and> rings x = rings (rt (set_rt (waiting_rt []) sample_io_world))"
proof -
  let ?bs = "bundle_wire 5 [[47, 97, 0, 0, 44, 0, 0, 0]]" and ?w = "set_rt (waiting_rt []) sample_io_world"
  have len: "length ?bs = 28" by (simp add: bundle_wire_def item_bytes_def bundle_tag_def)
  have w: "rt ?w = waiting_rt []" "nlist (waiting_rt []) = 0" by (simp_all add: rt_def set_rt_def waiting_rt_def)
  have "0 < LIST_SIZE" by (simp add: LIST_SIZE_def)
  then show ?thesis unfolding Let_def
    using waiting_rt_ok [of "[]"] rview_region [of ?bs] len w
    by (intro io_unroll_waits [OF _ refl]) (simp_all add: MTU_SIZE_def LV2_OSC_IMMEDIATE_def)
qed

text \<open>
  C22. A bundle without elements, which OSC allows, brings the plugin down: the first item is used
  although there is none. Any packet of less than 20 bytes that starts like a bundle will do.
\<close>

theorem io_empty_bundle_crashes:
  assumes "rview m (lv2_osc_reader_initialize buf (of_nat (length (bundle_tag @ ys)))) (bundle_tag @ ys)" and "length ys < 12"
  shows "io_unroll e h k m buf (of_nat (length (bundle_tag @ ys))) w = Undefined"
  using short_bundle [OF assms] by (auto simp: io_unroll_def Let_def)

theorem io_empty_bundle_crashes_witness:
  "io_unroll sample_io_host sample_io 9 (region 4096 (bundle_tag @ be64 1)) 4096 (of_nat (length (bundle_tag @ be64 1))) sample_io_world
    = Undefined"
  by (rule io_empty_bundle_crashes [OF rview_region]) (simp_all add: bundle_tag_def)

text \<open>
  When as many bundles wait as the list can hold, the next period runs beyond its end: the
  loops stop at a free entry, and there is none.
\<close>

theorem io_full_list_overruns:
  assumes "pool_ok (rt w)" and "nlist (rt w) = LIST_SIZE" and "ih_sched e = Some osc2frames"
  shows "io_reschedule e w = Undefined"
proof -
  have "list_all in_use ls \<Longrightarrow> reschedule osc2frames ls = None" for ls
    by (induction ls) (simp_all add: in_use_def Let_def)
  moreover have "list_all in_use (pool (rt w))" using assms(1,2) by (metis pool_ok_def waiting_def take_all order_refl)
  ultimately show ?thesis using assms(3) by (simp add: io_reschedule_def)
qed

theorem io_full_list_overruns_witness:
  "io_reschedule (sample_io_host\<lparr>ih_sched := Some (\<lambda>t. 0)\<rparr>)
    (set_rt (waiting_rt (replicate LIST_SIZE (sample_entry 7))) sample_io_world) = Undefined"
proof -
  let ?ls = "replicate LIST_SIZE (sample_entry 7)"
  have w: "rt (set_rt (waiting_rt ?ls) sample_io_world) = waiting_rt ?ls" by (simp add: rt_def set_rt_def)
  have "list_all in_use ?ls" by (simp add: list_all_iff)
  then have "pool_ok (waiting_rt ?ls)" using waiting_rt_ok [of ?ls] by simp
  then show ?thesis using w by (intro io_full_list_overruns) (simp_all add: waiting_rt_def)
qed

end
