(* ===== verification/Io_Url.thy ===== *)
theory Io_Url
  imports Io_Sample
begin

text \<open>
  The URL in \<open>eteroj_io.c\<close>: a change of the property becomes an OSC message to the worker, which
  reads it and opens the stream. The message is built in 128 bytes, so long URLs do not fit.
\<close>

section \<open>The message\<close>

definition url_path :: "u8 list" where "url_path = cstr ''/eteroj/url''"
definition url_fmt :: "u8 list" where "url_fmt = cstr ''s''"

lemma url_path_simps [simp]: "0 \<notin> set url_path" "length url_path = 11"
  by (simp_all add: url_path_def c8_def)

lemmas url_change_eq = url_change_def [folded url_path_def url_fmt_def]
lemmas thread_url_eq = thread_url_def [folded url_path_def]

lemma url_message_op:
  assumes "0 \<notin> set u" and "length u < 2 ^ 30"
  shows "writer_op (lv2_osc_writer_message_vararg ucast url_path url_fmt [VaBytes u]) (message_enc url_path [AString u])"
proof -
  have fmt: "arg_fmt [AString u] = url_fmt" "arg_vas f2d [AString u] = [VaBytes u]" for f2d
    by (simp_all add: url_fmt_def c8_def)
  have "message_ok (url_path, [AString u])" using assms by (simp add: message_size_def pad4_def)
  from writer_op_message [OF this, of ucast ucast] show ?thesis
    unfolding lv2_osc_writer_message_vararg_def fmt by simp
qed

lemma length_url_message: "length (message_enc url_path [AString u] rest) = 16 + pad4 (length u + 1)"
  by (simp add: message_enc_def Let_def pad4_def)

definition url_bytes :: "u8 list \<Rightarrow> u8 list" where
  "url_bytes u = message_enc url_path [AString u] []"

lemma url_message_enc: "message_enc url_path [AString u] = (\<lambda>_. url_bytes u)"
  by (rule ext) (simp add: url_bytes_def message_enc_def Let_def)

lemma url_bytes_simps [simp]: "length (url_bytes u) = 16 + pad4 (length u + 1)"
  using length_url_message [of u "[]"] by (simp add: url_bytes_def)

lemma url_bytes_wire: "0 \<notin> set u \<Longrightarrow> length u < 2 ^ 30 \<Longrightarrow> message_wire url_path [AString u] (url_bytes u)"
  using message_wire_enc [of "[AString u]" url_path "replicate (17 + pad4 (length u + 1)) 0", unfolded url_message_enc]
  by (simp add: fits_def)

section \<open>Writing and reading\<close>

text \<open>The longest URL that is sent whole has 107 characters.\<close>

lemma url_change_sends:
  assumes u: "0 \<notin> set u" "length u \<le> 107" and base: "unat (at_buf h) + 2 ^ 34 \<le> 2 ^ 64"
    and q: "queue_inv 20 (to_thread (rings (rt w))) q"
  obtains ok v where "url_change h u w = Some (set_rings ((rings (rt w))\<lparr>to_thread := v\<rparr>) w)"
    "queue_inv 20 v (if ok then q @ [url_bytes u] else q)" "q = [] \<Longrightarrow> ok"
proof -
  let ?enc = "url_bytes u" and ?buf = "replicate STR_LEN (0 :: u8)"
  let ?s = "(region (at_buf h) ?buf, lv2_osc_writer_initialize (at_buf h) (of_nat STR_LEN))"
  have STR: "STR_LEN = 128" by (simp add: STR_LEN_def)
  have n: "length ?enc < STR_LEN" "length ?enc \<noteq> 0" using u by (simp_all add: STR pad4_def)
  have view: "wview ?s [] ?buf"
    using base mem_at_region [of ?buf "at_buf h"] by (simp add: wview_def lv2_osc_writer_initialize_def STR)
  have op: "writer_op (lv2_osc_writer_message_vararg ucast url_path url_fmt [VaBytes u]) (\<lambda>_. ?enc)"
    using url_message_op [OF u(1)] u(2) by (simp add: url_message_enc)
  have fits: "fits (length ?enc) ?buf" using n by (simp add: fits_def)
  obtain m wr where run: "lv2_osc_writer_message_vararg ucast url_path url_fmt [VaBytes u] ?s = (Ok (), m, wr)"
    and after: "wview (m, wr) ?enc (drop (length ?enc) ?buf)" "wbuf wr = at_buf h"
    using writer_op.room [OF op view fits] by (auto simp: wsame_def lv2_osc_writer_initialize_def)
  have fin: "fst (lv2_osc_writer_finalize wr) = of_nat (length ?enc)" by (rule finalize_view [OF after(1)])
  have "mem_at m (at_buf h) ?enc" using after by (simp add: wview_def)
  from ld_mem_at [OF this] have ld: "ld m (at_buf h) (length ?enc) = Some ?enc" .
  have un: "unat (of_nat (length ?enc) :: u64) = length ?enc" using n STR by (intro unat_of_nat64) simp
  have nz: "(of_nat (length ?enc) :: u64) \<noteq> 0" using un n(2) by (metis unat_0)
  have len: "length ?enc < 2 ^ 31" "2 * (16 + pad8 (length ?enc)) \<le> 2 ^ 20" using n STR by (simp_all add: pad8_def)
  have change: "url_change h u w = map_option (\<lambda>(ok, v). set_rings ((rings (rt w))\<lparr>to_thread := v\<rparr>) w)
      (ring_send ?enc (to_thread (rings (rt w))))"
    using run fin ld nz un by (simp add: url_change_eq Let_def del: of_nat_add url_bytes_simps)
  show thesis
  proof (cases "q = []")
    case True
    obtain v where "ring_send ?enc (to_thread (rings (rt w))) = Some (True, v)" "queue_inv 20 v [?enc]"
      by (rule ring_send_empty [OF q [unfolded True] len])
    then show thesis using that [of v True] change True by simp
  next
    case False
    obtain ok v where "ring_send ?enc (to_thread (rings (rt w))) = Some (ok, v)" "queue_inv 20 v (if ok then q @ [?enc] else q)"
      by (rule ring_send_queues [OF q len(1)])
    then show thesis using that [of v ok] change False by simp
  qed
qed

lemma thread_url_reads:
  assumes v: "rview m (lv2_osc_reader_initialize buf (of_nat (length bs))) bs" and w: "message_wire url_path [AString u] bs"
    and u: "0 \<notin> set u" "length u < 2 ^ 30"
  shows "thread_url m buf (of_nat (length bs)) = Some (Some u)"
proof -
  let ?r = "lv2_osc_reader_initialize buf (of_nat (length bs))"
  have path: "0 \<notin> set url_path" "length url_path < 2 ^ 31" "length [AString u] < 2 ^ 31" by simp_all
  obtain arg r2 ws where s: "args_wire [AString u] ws" "rview m r2 ws"
    "message_begin m (of_nat (length bs)) ?r = lv2_osc_reader_arg_raw m arg r2"
    "apath arg = rptr ?r" "mem_at m (atype arg) (arg_fmt [AString u] @ [0])" "c_str m (rptr ?r) = Some url_path"
    by (rule message_begin_raw [OF v w path]) blast
  then obtain x y where "ws = x @ y" "arg_wire (AString u) x" by auto
  with s u arg_raw_reads [of m r2 x y "AString u" arg] obtain n p where
    "lv2_osc_reader_arg_raw m arg r2 = (Ok (set_arg arg n (UPtr p)), r_forward (of_nat (length x)) r2)" "c_str m p = Some u"
    by auto
  with s show ?thesis by (simp add: thread_url_eq Let_def)
qed

lemma work_urls_reads:
  assumes base: "unat (at_thread h) + 2 ^ 34 \<le> 2 ^ 64"
  shows "queue_inv 20 (to_thread d) (map url_bytes us) \<Longrightarrow> \<forall>u \<in> set us. 0 \<notin> set u \<and> length u \<le> 107 \<Longrightarrow> length us < j \<Longrightarrow>
    \<exists>v. queue_inv 20 v [] \<and> work_urls j h u0 d = Done (if us = [] then u0 else Some (last us), d\<lparr>to_thread := v\<rparr>)"
proof (induction us arbitrary: d j u0)
  case Nil
  then obtain i where j: "j = Suc i" by (cases j) auto
  with Nil.prems(1) ring_front_empty [of 20 "to_thread d"] show ?case by (intro exI [of _ "to_thread d"]) simp
next
  case (Cons u us)
  then obtain i where j: "j = Suc i" by (cases j) auto
  have q: "queue_inv 20 (to_thread d) (url_bytes u # map url_bytes us)" using Cons.prems(1) by simp
  obtain a v1 v2 where
    f: "ring_front (to_thread d) = Some (Some (a, of_nat (length (url_bytes u))), v1)" and v1: "queue_inv 20 v1 (url_bytes u # map url_bytes us)"
    and ld: "chunk_load a (of_nat (length (url_bytes u))) v1 = Some (url_bytes u)" and n: "length (url_bytes u) < 2 ^ 31"
    and adv: "varchunk_read_advance v1 = Some v2" "queue_inv 20 v2 (map url_bytes us)" by (rule ring_front_chunk [OF q])
  have small: "0 \<notin> set u" "length u < 2 ^ 30" using Cons.prems(2) by auto
  have "thread_url (ring_mem (at_thread h) v1) (at_thread h + a) (of_nat (length (url_bytes u))) = Some (Some u)"
    by (rule thread_url_reads [OF front_view [OF v1 ld base n] url_bytes_wire [OF small] small])
  moreover have "ucast (of_nat (length (url_bytes u)) :: u32) = (of_nat (length (url_bytes u)) :: u64)"
    using n by (intro ucast_of_nat_u64) simp
  moreover obtain v where "queue_inv 20 v []"
    "work_urls i h (Some u) (d\<lparr>to_thread := v2\<rparr>) = Done (if us = [] then Some u else Some (last us), d\<lparr>to_thread := v\<rparr>)"
    using Cons.IH [of "d\<lparr>to_thread := v2\<rparr>" i "Some u"] Cons.prems adv(2) j by auto
  ultimately show ?case using f adv(1) by (intro exI [of _ v]) (simp add: j del: of_nat_add url_bytes_simps)
qed

section \<open>Properties\<close>

text \<open>
  C16. A new URL reaches the worker: the message \<open>_url_change\<close> builds for a URL of up to 107
  characters is read back by the worker as exactly that URL, also when it is sent behind other URLs.
\<close>

theorem io_url_roundtrip:
  assumes "0 \<notin> set u" and "length u \<le> 107" and "unat (at_buf h) + 2 ^ 34 \<le> 2 ^ 64" and "unat (at_thread h) + 2 ^ 34 \<le> 2 ^ 64"
    and "queue_inv 20 (to_thread (rings (rt w))) (map url_bytes us)" and "\<forall>u \<in> set us. 0 \<notin> set u \<and> length u \<le> 107"
    and "Suc (length us) < j"
  shows "\<exists>w1 ok d. url_change h u w = Some w1 \<and> (us = [] \<longrightarrow> ok) \<and> queue_inv 20 (to_thread d) [] \<and>
    work_urls j h None (rings (rt w1)) = Done (if ok then Some u else Some (last us), d)"
proof -
  obtain ok v where c: "url_change h u w = Some (set_rings ((rings (rt w))\<lparr>to_thread := v\<rparr>) w)"
    "queue_inv 20 v (if ok then map url_bytes us @ [url_bytes u] else map url_bytes us)" "map url_bytes us = [] \<Longrightarrow> ok"
    using url_change_sends [OF assms(1-3,5)] by metis
  let ?us = "if ok then us @ [u] else us" and ?d = "(rings (rt w))\<lparr>to_thread := v\<rparr>"
  have "queue_inv 20 (to_thread ?d) (map url_bytes ?us)" using c(2) by (cases ok) simp_all
  from work_urls_reads [OF assms(4) this, of j None] obtain v2 where
    "queue_inv 20 v2 []" "work_urls j h None ?d = Done (if ?us = [] then None else Some (last ?us), ?d\<lparr>to_thread := v2\<rparr>)"
    using assms(1,2,6,7) by (cases ok) auto
  moreover have "?us \<noteq> []" using c(3) by auto
  ultimately show ?thesis using c(1,3)
    by (intro exI [of _ "set_rings ?d w"] exI [of _ ok] exI [of _ "?d\<lparr>to_thread := v2\<rparr>"]) auto
qed

theorem io_url_roundtrip_witness:
  "\<exists>w1 ok d. url_change sample_io (cstr ''osc.tcp://:9999'') sample_io_world = Some w1 \<and> (([] :: u8 list list) = [] \<longrightarrow> ok) \<and>
    queue_inv 20 (to_thread d) [] \<and>
    work_urls 2 sample_io None (rings (rt w1)) = Done (if ok then Some (cstr ''osc.tcp://:9999'') else Some (last []), d)"
  by (rule io_url_roundtrip) (simp_all add: c8_def, simp_all add: sample_io_def)

end
