(* ===== verification/Stream_Laws.thy ===== *)
theory Stream_Laws
  imports Stream_Transfer
begin

text \<open>
  What users of a stream may rely on when they open it: how URLs are understood, and that an
  opening that fails leaves nothing behind.
\<close>

section \<open>Properties\<close>

text \<open>
  C23. URLs are read as they are written: from the text of a URL (a scheme, a host name or an IPv6
  address with or without an interface, a service) the scheme fixes socket type, protocol and
  framing, and the rest is split into exactly its parts; host names without a bracket are IPv4.
\<close>

theorem stream_url_roundtrip:
  assumes "host_ok h" and "set service \<inter> {0x25, 0x5D} = {}"
  shows "\<exists>p t. stream_scheme (url_text c h service) s = Some (p, t) \<and>
    stream_host (socket_family t) p = (case host_parts h of (fam, node, iface) \<Rightarrow> Inr (fam, node, iface, service)) \<and>
    slip t = (c = Tcp \<or> c = Tcp_Slip) \<and> socket_type t = (if c = Udp then SOCK_DGRAM else SOCK_STREAM) \<and>
    protocol t = (if c = Udp then IPPROTO_UDP else IPPROTO_TCP) \<and> sock t = sock s \<and> fd t = fd s \<and> serial t = serial s"
  using stream_host_text [OF assms] stream_scheme_text [of c "host_text h @ [0x3A] @ service" s]
  by (simp add: url_text_def)

theorem stream_url_roundtrip_witness:
  "\<forall>s. \<exists>p t. stream_scheme (url_text Tcp_Prefix (Host6 (text_of ''fe80::1'') (Some (text_of ''eth0''))) (text_of ''9999'')) s = Some (p, t) \<and>
    stream_host (socket_family t) p = (case host_parts (Host6 (text_of ''fe80::1'') (Some (text_of ''eth0''))) of
      (fam, node, iface) \<Rightarrow> Inr (fam, node, iface, text_of ''9999'')) \<and>
    slip t = (Tcp_Prefix = Tcp \<or> Tcp_Prefix = Tcp_Slip) \<and> socket_type t = (if Tcp_Prefix = Udp then SOCK_DGRAM else SOCK_STREAM) \<and>
    protocol t = (if Tcp_Prefix = Udp then IPPROTO_UDP else IPPROTO_TCP) \<and> sock t = sock s \<and> fd t = fd s \<and> serial t = serial s"
  by (rule allI, rule stream_url_roundtrip) (simp_all add: host_ok_def text_of_def)

text \<open>
  Whatever the system answers, opening a stream ends in one of two states: no error and no
  accepted connection yet, or an error and no descriptor left open in the stream.
\<close>

theorem stream_open_closed_on_error:
  assumes "lv2_osc_stream_init os u w = (ev, s, w')"
  shows "fd s = - 1 \<and> (ev \<noteq> LV2_OSC_NONE \<longrightarrow> sock s = - 1)"
  by (rule reinit_closed [OF assms [unfolded lv2_osc_stream_init_def]])

definition deaf_os :: "nat os" where
  "deaf_os = \<lparr>o_alloc = Pair True, o_open = (\<lambda>_. Pair (Err 2)), o_nonblock = (\<lambda>_. Pair (Ret ())),
     o_getattr = (\<lambda>_. Pair (Err 25)), o_setattr = (\<lambda>_ _. Pair (Ret ())), o_socket = (\<lambda>_ _ _ n. (Ret 3, n + 1)),
     o_setsockopt = (\<lambda>_ _ _. Pair (Ret ())), o_getaddrinfo = (\<lambda>_ _ _ _ _. Pair (Err 111)), o_ifindex = (\<lambda>_ _. 0),
     o_bind = (\<lambda>_ _. Pair (Ret ())), o_listen = (\<lambda>_. Pair (Ret ())), o_connect = (\<lambda>_ _. Pair (Ret ())),
     o_accept = (\<lambda>_. Pair (Err EAGAIN)), o_close = (\<lambda>_ n. n - 1), o_sendto = (\<lambda>_ bs _. Pair (Ret (length bs))),
     o_recvfrom = (\<lambda>_ _. Pair (Err EAGAIN)), o_send = (\<lambda>_ bs. Pair (Ret (length bs))),
     o_recv = (\<lambda>_ n. Pair (Err EAGAIN)), o_poll = (\<lambda>_ _ _. Pair (Ret ()))\<rparr>"

theorem stream_open_closed_on_error_witness:
  "\<exists>ev s w'. lv2_osc_stream_init deaf_os (url_text Udp (Host4 (text_of ''localhost'')) (text_of ''9999'')) 0 = (ev, s, w') \<and>
    fd s = - 1 \<and> (ev \<noteq> LV2_OSC_NONE \<longrightarrow> sock s = - 1)"
proof -
  obtain ev s w' where
    "lv2_osc_stream_init deaf_os (url_text Udp (Host4 (text_of ''localhost'')) (text_of ''9999'')) 0 = (ev, s, w')"
    by (metis prod_cases3)
  with stream_open_closed_on_error [OF this] show ?thesis by blast
qed

end
