(* ===== verification/Jsmn.thy ===== *)
theory Jsmn
  imports Runs
begin

text \<open>
  The JSON tokenizer \<open>jsmn/jsmn.c\<close>, as the plugins build it: not strict, without parent links. A
  text becomes an array of tokens, each with its type, where it starts and ends in the text, and
  how many tokens it directly contains. Texts are shorter than \<open>2^31\<close>, so positions are
  natural numbers; the text ends at its length or at a zero. Without an array (\<open>NULL\<close>, here \<open>None\<close>)
  tokens are only counted.
\<close>

section \<open>Data\<close>

datatype jsmntype = JSMN_PRIMITIVE | JSMN_OBJECT | JSMN_ARRAY | JSMN_STRING

datatype jsmnerr = JSMN_ERROR_NOMEM | JSMN_ERROR_INVAL | JSMN_ERROR_PART

record jsmntok =
  tk_type :: jsmntype
  tk_start :: int
  tk_end :: int
  tk_size :: nat

record jsmn_parser =
  jpos :: nat
  toknext :: nat
  toksuper :: int
  toks :: "jsmntok list option"

definition jsmn_init :: "jsmntok list option \<Rightarrow> jsmn_parser" where
  "jsmn_init ts = \<lparr>jpos = 0, toknext = 0, toksuper = - 1, toks = ts\<rparr>"

definition j_char :: "char \<Rightarrow> u8" where
  "j_char c = of_nat (of_char c)"

definition jsmn_alloc_token :: "jsmn_parser \<Rightarrow> (nat \<times> jsmn_parser) option" where
  "jsmn_alloc_token s =
     (case toks s of
        None \<Rightarrow> None
      | Some ts \<Rightarrow>
          if length ts \<le> toknext s then None
          else Some (toknext s, s\<lparr>toks := Some (ts[toknext s := (ts ! toknext s)\<lparr>tk_start := - 1, tk_end := - 1, tk_size := 0\<rparr>]),
            toknext := toknext s + 1\<rparr>))"

definition jsmn_fill_token :: "jsmntype \<Rightarrow> int \<Rightarrow> int \<Rightarrow> jsmntok \<Rightarrow> jsmntok" where
  "jsmn_fill_token t start fin tok = tok\<lparr>tk_type := t, tk_start := start, tk_end := fin, tk_size := 0\<rparr>"

definition tok_update :: "nat \<Rightarrow> (jsmntok \<Rightarrow> jsmntok) \<Rightarrow> jsmn_parser \<Rightarrow> jsmn_parser" where
  "tok_update i f s = s\<lparr>toks := map_option (\<lambda>ts. ts[i := f (ts ! i)]) (toks s)\<rparr>"

section \<open>Primitives and strings\<close>

definition is_blank :: "u8 \<Rightarrow> bool" where
  "is_blank c \<longleftrightarrow> c \<in> {9, 13, 10, 32}"

definition ends_primitive :: "u8 \<Rightarrow> bool" where
  "ends_primitive c \<longleftrightarrow> is_blank c \<or> c \<in> {j_char CHR '':'', j_char CHR '','', j_char CHR '']'', j_char CHR ''}''}"

text \<open>The end of a primitive; \<open>None\<close> is a character that cannot be in one.\<close>

fun primitive_end :: "u8 list \<Rightarrow> nat \<Rightarrow> nat option" where
  "primitive_end [] p = Some p"
| "primitive_end (c # cs) p =
     (if c = 0 \<or> ends_primitive c then Some p
      else if c < 32 \<or> 127 \<le> c then None
      else primitive_end cs (p + 1))"

definition jsmn_token :: "jsmntype \<Rightarrow> nat \<Rightarrow> nat \<Rightarrow> nat \<Rightarrow> jsmn_parser \<Rightarrow> jsmnerr option \<times> jsmn_parser" where
  "jsmn_token t start fin p s =
     (if toks s = None then (None, s\<lparr>jpos := p\<rparr>)
      else case jsmn_alloc_token s of
          None \<Rightarrow> (Some JSMN_ERROR_NOMEM, s)
        | Some (i, s1) \<Rightarrow> (None, (tok_update i (jsmn_fill_token t (int start) (int fin)) s1)\<lparr>jpos := p\<rparr>))"

definition jsmn_parse_primitive :: "u8 list \<Rightarrow> jsmn_parser \<Rightarrow> jsmnerr option \<times> jsmn_parser" where
  "jsmn_parse_primitive js s =
     (case primitive_end (drop (jpos s) js) (jpos s) of
        None \<Rightarrow> (Some JSMN_ERROR_INVAL, s)
      | Some p \<Rightarrow> jsmn_token JSMN_PRIMITIVE (jpos s) p (p - 1) s)"

definition is_hex :: "u8 \<Rightarrow> bool" where
  "is_hex c \<longleftrightarrow> 48 \<le> c \<and> c \<le> 57 \<or> 65 \<le> c \<and> c \<le> 70 \<or> 97 \<le> c \<and> c \<le> 102"

text \<open>Up to \<open>n\<close> hexadecimal digits: how many there are, or \<open>None\<close> when there is something else.\<close>

fun hex_digits :: "nat \<Rightarrow> u8 list \<Rightarrow> nat option" where
  "hex_digits 0 cs = Some 0"
| "hex_digits (Suc n) [] = Some 0"
| "hex_digits (Suc n) (c # cs) =
     (if c = 0 then Some 0 else if is_hex c then map_option Suc (hex_digits n cs) else None)"

datatype jsmn_string = Closed nat | Invalid | Partial

definition plain_escapes :: "u8 list" where
  "plain_escapes = map j_char [CHR 0x22, CHR ''/'', CHR 0x5C, CHR ''b'', CHR ''f'', CHR ''r'', CHR ''n'', CHR ''t'']"

function (sequential) string_end :: "u8 list \<Rightarrow> nat \<Rightarrow> jsmn_string" where
  "string_end [] p = Partial"
| "string_end (c # cs) p =
     (if c = 0 then Partial
      else if c = j_char CHR 0x22 then Closed p
      else if c = j_char CHR 0x5C \<and> cs \<noteq> []
      then (if List.hd cs \<in> set plain_escapes then string_end (tl cs) (p + 2)
            else if List.hd cs = j_char CHR ''u''
            then (case hex_digits 4 (tl cs) of
                    None \<Rightarrow> Invalid
                  | Some n \<Rightarrow> string_end (drop n (tl cs)) (p + 2 + n))
            else Invalid)
      else string_end cs (p + 1))"
  by pat_completeness auto
termination
  by (relation "measure (\<lambda>(cs, p). length cs)") auto

definition jsmn_parse_string :: "u8 list \<Rightarrow> jsmn_parser \<Rightarrow> jsmnerr option \<times> jsmn_parser" where
  "jsmn_parse_string js s =
     (case string_end (drop (jpos s + 1) js) (jpos s + 1) of
        Closed p \<Rightarrow> jsmn_token JSMN_STRING (jpos s + 1) p p s
      | Invalid \<Rightarrow> (Some JSMN_ERROR_INVAL, s)
      | Partial \<Rightarrow> (Some JSMN_ERROR_PART, s))"

section \<open>The parser\<close>

definition tok_open :: "jsmntok \<Rightarrow> bool" where
  "tok_open t \<longleftrightarrow> tk_start t \<noteq> - 1 \<and> tk_end t = - 1"

definition tok_container :: "jsmntok \<Rightarrow> bool" where
  "tok_container t \<longleftrightarrow> tk_type t = JSMN_ARRAY \<or> tk_type t = JSMN_OBJECT"

text \<open>The loops that go down from a token: the last of the first \<open>n\<close> for which \<open>P\<close> holds\<close>

fun last_tok :: "(jsmntok \<Rightarrow> bool) \<Rightarrow> jsmntok list \<Rightarrow> nat \<Rightarrow> nat option" where
  "last_tok P ts 0 = None"
| "last_tok P ts (Suc n) = (if P (ts ! n) then Some n else last_tok P ts n)"

definition super_of :: "nat option \<Rightarrow> int" where
  "super_of i = (case i of None \<Rightarrow> - 1 | Some i \<Rightarrow> int i)"

definition count_super :: "jsmn_parser \<Rightarrow> jsmn_parser" where
  "count_super s = (if toksuper s = - 1 then s else tok_update (nat (toksuper s)) (\<lambda>t. t\<lparr>tk_size := tk_size t + 1\<rparr>) s)"

text \<open>\<open>{\<close> and \<open>[\<close>: the size of the token above is counted after the new token has been taken.\<close>

definition jsmn_open :: "jsmntype \<Rightarrow> jsmn_parser \<Rightarrow> jsmnerr option \<times> jsmn_parser" where
  "jsmn_open t s =
     (if toks s = None then (None, s)
      else case jsmn_alloc_token s of
          None \<Rightarrow> (Some JSMN_ERROR_NOMEM, s)
        | Some (i, s1) \<Rightarrow>
            (None, (tok_update i (\<lambda>tok. tok\<lparr>tk_type := t, tk_start := int (jpos s)\<rparr>) (count_super s1))\<lparr>toksuper := int (toknext s1) - 1\<rparr>))"

definition jsmn_close :: "jsmntype \<Rightarrow> jsmn_parser \<Rightarrow> jsmnerr option \<times> jsmn_parser" where
  "jsmn_close t s =
     (case toks s of
        None \<Rightarrow> (None, s)
      | Some ts \<Rightarrow>
          (case last_tok tok_open ts (toknext s) of
             None \<Rightarrow> (Some JSMN_ERROR_INVAL, s)
           | Some i \<Rightarrow>
               if tk_type (ts ! i) \<noteq> t then (Some JSMN_ERROR_INVAL, s)
               else (let s1 = tok_update i (\<lambda>tok. tok\<lparr>tk_end := int (jpos s) + 1\<rparr>) s in
                 (None, s1\<lparr>toksuper := super_of (last_tok tok_open ts i)\<rparr>))))"

text \<open>\<open>,\<close>: the token above is looked at even if there is none, which is undefined (\<open>None\<close>).\<close>

definition jsmn_comma :: "jsmn_parser \<Rightarrow> jsmn_parser option" where
  "jsmn_comma s =
     (case toks s of
        None \<Rightarrow> Some s
      | Some ts \<Rightarrow>
          if toksuper s = - 1 then None
          else if tok_container (ts ! nat (toksuper s)) then Some s
          else (case last_tok (\<lambda>t. tok_container t \<and> tok_open t) ts (toknext s) of
                  None \<Rightarrow> Some s
                | Some i \<Rightarrow> Some (s\<lparr>toksuper := int i\<rparr>)))"

text \<open>One character; the flag says whether a token was counted.\<close>

definition jsmn_value :: "jsmnerr option \<times> jsmn_parser \<Rightarrow> jsmnerr option \<times> bool \<times> jsmn_parser" where
  "jsmn_value r = (case r of (Some e, s) \<Rightarrow> (Some e, False, s) | (None, s) \<Rightarrow> (None, True, if toks s = None then s else count_super s))"

definition jsmn_step :: "u8 list \<Rightarrow> jsmn_parser \<Rightarrow> (jsmnerr option \<times> bool \<times> jsmn_parser) option" where
  "jsmn_step js s =
     (let c = js ! jpos s in
      if c = j_char CHR ''{'' then (case jsmn_open JSMN_OBJECT s of (e, s1) \<Rightarrow> Some (e, True, s1))
      else if c = j_char CHR ''['' then (case jsmn_open JSMN_ARRAY s of (e, s1) \<Rightarrow> Some (e, True, s1))
      else if c = j_char CHR ''}'' then (case jsmn_close JSMN_OBJECT s of (e, s1) \<Rightarrow> Some (e, False, s1))
      else if c = j_char CHR '']'' then (case jsmn_close JSMN_ARRAY s of (e, s1) \<Rightarrow> Some (e, False, s1))
      else if c = j_char CHR 0x22 then Some (jsmn_value (jsmn_parse_string js s))
      else if is_blank c then Some (None, False, s)
      else if c = j_char CHR '':'' then Some (None, False, s\<lparr>toksuper := int (toknext s) - 1\<rparr>)
      else if c = j_char CHR '','' then map_option (\<lambda>s1. (None, False, s1)) (jsmn_comma s)
      else Some (jsmn_value (jsmn_parse_primitive js s)))"

lemma jsmn_token_pos: "jsmn_token t a b p s = (None, s') \<Longrightarrow> jpos s' = p"
  by (auto simp: jsmn_token_def split: if_splits option.splits)

lemma primitive_end_le: "primitive_end cs p = Some q \<Longrightarrow> p \<le> q \<and> q \<le> p + length cs"
  by (induction cs p rule: primitive_end.induct) (fastforce split: if_splits)+

lemma hex_digits_le: "hex_digits k cs = Some n \<Longrightarrow> n \<le> length cs"
  by (induction k cs arbitrary: n rule: hex_digits.induct) (auto split: if_splits)

lemma string_end_le: "string_end cs p = Closed q \<Longrightarrow> p \<le> q \<and> q < p + length cs"
proof (induction cs p rule: string_end.induct)
  case (2 c cs p)
  then show ?case
    by (cases cs) (fastforce split: if_splits option.splits dest: hex_digits_le)+
qed simp

lemma tok_update_simps [simp]:
  "jpos (tok_update i f s) = jpos s" "toknext (tok_update i f s) = toknext s" "toksuper (tok_update i f s) = toksuper s"
  "toks (tok_update i f s) = map_option (\<lambda>ts. ts[i := f (ts ! i)]) (toks s)"
  by (simp_all add: tok_update_def)

lemma count_super_simps [simp]:
  "jpos (count_super s) = jpos s" "toknext (count_super s) = toknext s" "toksuper (count_super s) = toksuper s"
  by (simp_all add: count_super_def)

lemma primitive_end_start: "c \<noteq> 0 \<Longrightarrow> \<not> ends_primitive c \<Longrightarrow> primitive_end (c # cs) p = Some q \<Longrightarrow> p < q"
  using primitive_end_le [of cs "p + 1" q] by (auto split: if_splits)

lemma parse_primitive_pos:
  assumes "jsmn_parse_primitive js s = (None, s')" and "jpos s < length js" and "js ! jpos s \<noteq> 0" and "\<not> ends_primitive (js ! jpos s)"
  shows "jpos s \<le> jpos s'"
proof -
  have "drop (jpos s) js = js ! jpos s # drop (Suc (jpos s)) js" using assms(2) by (simp add: Cons_nth_drop_Suc)
  with assms primitive_end_start [of "js ! jpos s" "drop (Suc (jpos s)) js" "jpos s"] show ?thesis
    by (auto simp: jsmn_parse_primitive_def dest!: jsmn_token_pos simp del: primitive_end.simps split: option.splits)
qed

lemma jsmn_step_pos:
  "jsmn_step js s = Some (None, b, s') \<Longrightarrow> jpos s < length js \<Longrightarrow> js ! jpos s \<noteq> 0 \<Longrightarrow> jpos s \<le> jpos s'"
  by (auto simp: jsmn_step_def jsmn_open_def jsmn_close_def jsmn_comma_def jsmn_value_def jsmn_alloc_token_def Let_def
      jsmn_parse_string_def ends_primitive_def split: if_splits option.splits prod.splits jsmn_string.splits
      dest!: jsmn_token_pos string_end_le parse_primitive_pos)

text \<open>The loop over the text. The result is the count, or an error; \<open>None\<close> is undefined.\<close>

function (sequential) jsmn_loop :: "u8 list \<Rightarrow> nat \<Rightarrow> jsmn_parser \<Rightarrow> ((jsmnerr + nat) \<times> jsmn_parser) option" where
  "jsmn_loop js n s =
     (if jpos s < length js \<and> js ! jpos s \<noteq> 0
      then (case jsmn_step js s of
              None \<Rightarrow> None
            | Some (Some e, b, s1) \<Rightarrow> Some (Inl e, s1)
            | Some (None, b, s1) \<Rightarrow> jsmn_loop js (if b then n + 1 else n) (s1\<lparr>jpos := jpos s1 + 1\<rparr>))
      else Some (Inr n, s))"
  by pat_completeness auto
termination
  by (relation "measure (\<lambda>(js, n, s). length js - jpos s)") (auto dest: jsmn_step_pos)

declare jsmn_loop.simps [simp del]

definition jsmn_parse :: "u8 list \<Rightarrow> jsmn_parser \<Rightarrow> ((jsmnerr + nat) \<times> jsmn_parser) option" where
  "jsmn_parse js s =
     (case jsmn_loop js 0 s of
        Some (Inr n, s1) \<Rightarrow>
          (case last_tok tok_open (case toks s1 of None \<Rightarrow> [] | Some ts \<Rightarrow> ts) (toknext s1) of
             None \<Rightarrow> Some (Inr n, s1)
           | Some _ \<Rightarrow> Some (Inl JSMN_ERROR_PART, s1))
      | r \<Rightarrow> r)"

end
