(* ===== verification/Query.thy ===== *)
theory Query
  imports Complex_Main Plugin Jsmn
begin

text \<open>
  The plugin \<open>eteroj_query.c\<close>: it asks an OSC server for its methods, and makes properties of them.
  Requests wait in a ring buffer; replies are JSON texts whose tokens are walked by index. The host's
  maps, the forge, the lookup in objects and the C library's reading of floating-point numbers are
  parameters. Doubles and floats are their bits.
\<close>

section \<open>State\<close>

definition MAX_TOKENS :: nat where "MAX_TOKENS = 256"

record query_rt =
  q_rb :: varchunk
  q_cnt :: u32
  q_frames :: u64
  q_tokens :: "jsmntok list"

type_synonym 'f query_world = "('f \<times> query_rt) world"

record query =
  q_osc :: lv2_osc_urid
  q_subject :: u32
  q_patch_set :: u32
  q_patch_get :: u32
  q_patch_subject :: u32
  q_patch_property :: u32
  q_patch_value :: u32
  q_patch_wildcard :: u32
  q_patch_patch :: u32
  q_patch_add :: u32
  q_patch_remove :: u32
  q_patch_writable :: u32
  q_patch_readable :: u32
  rdfs_label :: u32
  rdfs_comment :: u32
  rdfs_range :: u32
  rdf_value :: u32
  lv2_minimum :: u32
  lv2_maximum :: u32
  lv2_scale_point :: u32
  query_refresh :: u32
  at_query_refresh :: addr

text \<open>\<open>qh_float\<close> and \<open>qh_double\<close> convert a double to a float and back.\<close>

record 'f query_host =
  qh_forge :: "'f forge"
  qh_get :: object_get
  qh_object :: "u32 \<Rightarrow> bool"
  qh_map :: "u8 list \<Rightarrow> u32"
  qh_unmap :: "u32 \<Rightarrow> u8 list option"
  qh_strtod :: "u8 list \<Rightarrow> u64"
  qh_float :: "u64 \<Rightarrow> u32"
  qh_double :: "u32 \<Rightarrow> u64"

section \<open>The C library on texts\<close>

text \<open>
  A pointer into a text is what it points to, up to the terminating zero; \<open>None\<close> is \<open>NULL\<close>. Copying or
  comparing no bytes reads nothing.
\<close>

definition c_strncpy :: "u8 list option \<Rightarrow> nat \<Rightarrow> u8 list option" where
  "c_strncpy s n = (case s of None \<Rightarrow> if n = 0 then Some [] else None | Some b \<Rightarrow> Some (take n b @ replicate (n - length b) 0))"

definition strncmp_eq :: "u8 list option \<Rightarrow> u8 list \<Rightarrow> nat \<Rightarrow> bool option" where
  "strncmp_eq s b n = (case s of
     None \<Rightarrow> if n = 0 then Some True else None
   | Some a \<Rightarrow> Some (take n (a @ [0]) = take n (b @ [0])))"

definition c_char :: "u8 list \<Rightarrow> u8" where
  "c_char s = List.hd (s @ [0])"

fun digits_value :: "nat \<Rightarrow> nat \<Rightarrow> u8 list \<Rightarrow> nat" where
  "digits_value b acc [] = acc"
| "digits_value b acc (c # cs) =
     (case hex_digit c of
        None \<Rightarrow> acc
      | Some d \<Rightarrow> if unat d < b then digits_value b (acc * b + unat d) cs else acc)"

text \<open>\<open>strtol\<close>, for the bases 0 and 10\<close>

definition c_strtol :: "nat \<Rightarrow> u8 list \<Rightarrow> int" where
  "c_strtol base s =
     (let t = dropWhile c_isspace s;
          neg = (c_char t = c8 CHR ''-'');
          u = (if c_char t \<in> {c8 CHR ''-'', c8 CHR ''+''} then tl t else t);
          hex = (c_char u = c8 CHR ''0'' \<and> c_char (drop 1 u) \<in> {c8 CHR ''x'', c8 CHR ''X''} \<and> hex_digit (c_char (drop 2 u)) \<noteq> None);
          v = int (if base \<noteq> 0 then digits_value base 0 u
                   else if hex then digits_value 16 0 (drop 2 u)
                   else if c_char u = c8 CHR ''0'' then digits_value 8 0 u
                   else digits_value 10 0 u) in
      max (- (2 ^ 63)) (min (2 ^ 63 - 1) (if neg then - v else v)))"

text \<open>The value of a double that is finite, and its conversion to a signed integer of \<open>n\<close> bits\<close>

definition double_value :: "u64 \<Rightarrow> rat option" where
  "double_value d =
     (let e = unat (take_bit 11 (drop_bit 52 d)); m = unat (take_bit 52 d); s = (if bit d 63 then - 1 else 1) in
      if e = 2047 then None
      else Some (s * (if e = 0 then of_nat m / 2 ^ 1074 else of_nat (2 ^ 52 + m) * 2 ^ e / 2 ^ 1075)))"

definition double_to_int :: "nat \<Rightarrow> u64 \<Rightarrow> int option" where
  "double_to_int n d = Option.bind (double_value d) (\<lambda>r.
     let i = (if 0 \<le> r then \<lfloor>r\<rfloor> else \<lceil>r\<rceil>) in
     if - (2 ^ (n - 1)) \<le> i \<and> i < 2 ^ (n - 1) then Some i else None)"

section \<open>Tokens\<close>

definition tok_at :: "jsmntok list \<Rightarrow> nat \<Rightarrow> jsmntok option" where
  "tok_at ts i = (if i < length ts then Some (ts ! i) else None)"

definition text_at :: "u8 list \<Rightarrow> int \<Rightarrow> u8 list option" where
  "text_at js p = (if 0 \<le> p \<and> p \<le> int (length js) then Some (drop (nat p) js) else None)"

definition json_eq :: "u8 list \<Rightarrow> jsmntok \<Rightarrow> u8 list \<Rightarrow> bool option" where
  "json_eq js t s =
     (if tk_type t \<noteq> JSMN_STRING \<or> int (length s) \<noteq> tk_end t - tk_start t then Some False
      else Option.bind (text_at js (tk_start t)) (\<lambda>a. strncmp_eq (Some a) s (length s)))"

text \<open>\<open>n\<close> is the length before, which stays when the token is no string.\<close>

definition json_string :: "u8 list \<Rightarrow> jsmntok \<Rightarrow> nat \<Rightarrow> (u8 list option \<times> nat) option" where
  "json_string js t n =
     (if tk_type t \<noteq> JSMN_STRING then Some (None, n)
      else map_option (\<lambda>a. (Some a, unat (word_of_int (tk_end t - tk_start t) :: u64))) (text_at js (tk_start t)))"

definition json_int :: "u8 list \<Rightarrow> jsmntok \<Rightarrow> u32 option" where
  "json_int js t =
     (if tk_type t \<noteq> JSMN_PRIMITIVE then Some (- 1) else map_option (\<lambda>a. word_of_int (c_strtol 10 a)) (text_at js (tk_start t)))"

definition json_float :: "'f query_host \<Rightarrow> u8 list \<Rightarrow> jsmntok \<Rightarrow> u32 option" where
  "json_float e js t =
     (if tk_type t \<noteq> JSMN_PRIMITIVE then Some 0xBF800000
      else map_option (\<lambda>a. qh_float e (qh_strtod e a)) (text_at js (tk_start t)))"

definition json_bool :: "u8 list \<Rightarrow> jsmntok \<Rightarrow> bool option" where
  "json_bool js t =
     (if tk_type t \<noteq> JSMN_PRIMITIVE then Some False else map_option (\<lambda>a. c_char a = c8 CHR ''t'') (text_at js (tk_start t)))"

text \<open>The first of some keys a token is equal to: a chain of \<open>else if(!json_eq(\<dots>))\<close>\<close>

fun json_switch :: "u8 list \<Rightarrow> jsmntok \<Rightarrow> u8 list list \<Rightarrow> u8 list option option" where
  "json_switch js t [] = Some None"
| "json_switch js t (k # ks) = Option.bind (json_eq js t k) (\<lambda>eq. if eq then Some (Some k) else json_switch js t ks)"

section \<open>Replies\<close>

text \<open>The variables of \<open>_message_cb\<close>; \<open>arg_range\<close> and \<open>arg_values\<close> are indices of tokens.\<close>

record reply =
  target :: "u8 list option"
  target_len :: nat
  rtype :: "u8 list option"
  rtype_len :: nat
  desc :: "u8 list option"
  desc_len :: nat
  arg_n :: nat
  arg_type :: u8
  arg_read :: bool
  arg_write :: bool
  arg_range :: "(nat \<times> nat) option"
  arg_values :: "(nat \<times> nat) option"

definition no_reply :: reply where
  "no_reply = \<lparr>target = None, target_len = 0, rtype = None, rtype_len = 0, desc = None, desc_len = 0,
     arg_n = 0, arg_type = c8 CHR ''i'', arg_read = True, arg_write = False, arg_range = None, arg_values = None\<rparr>"

text \<open>A request for what is below the target, in the ring buffer\<close>

definition send_item :: "u8 list option \<Rightarrow> nat \<Rightarrow> u8 list option \<Rightarrow> nat \<Rightarrow> varchunk \<Rightarrow> (bool \<times> varchunk) option" where
  "send_item t tlen s n v =
     (case (c_strncpy t tlen, c_strncpy s n) of
        (Some a, Some b) \<Rightarrow> ring_send (a @ b @ [c8 CHR ''!'', 0]) v
      | _ \<Rightarrow> (case varchunk_write_request (of_nat tlen + of_nat n + 2) v of
                (None, v1) \<Rightarrow> Some (False, v1)
              | _ \<Rightarrow> None))"

fun query_items :: "u8 list \<Rightarrow> jsmntok list \<Rightarrow> reply \<Rightarrow> nat \<Rightarrow> nat \<Rightarrow> varchunk \<Rightarrow> (nat \<times> varchunk) option" where
  "query_items js ts r 0 i v = Some (i, v)"
| "query_items js ts r (Suc n) i v =
     Option.bind (tok_at ts i) (\<lambda>item.
     Option.bind (json_string js item 0) (\<lambda>(s, len).
     Option.bind (send_item (target r) (target_len r) s len v) (\<lambda>(ok, v1).
       query_items js ts r n (i + 1) v1)))"

text \<open>
  A member of the description of argument \<open>j\<close>; only the first argument is kept. \<open>i\<close> is the index
  behind the value. A description is copied into 1024 bytes, and lost.
\<close>

definition arg_field :: "u8 list \<Rightarrow> nat \<Rightarrow> jsmntok \<Rightarrow> jsmntok \<Rightarrow> nat \<Rightarrow> reply \<Rightarrow> (nat \<times> reply) option" where
  "arg_field js j key val i r =
     Option.bind (json_switch js key (map cstr [''type'', ''description'', ''read'', ''write'', ''range'', ''values''])) (\<lambda>k.
     if k = Some (cstr ''type'') then
       Option.bind (json_string js val 0) (\<lambda>(s, len).
         if j = 0 then map_option (\<lambda>a. (i, r\<lparr>arg_type := c_char a\<rparr>)) s else Some (i, r))
     else if k = Some (cstr ''description'') then
       Option.bind (json_string js val 0) (\<lambda>(s, len).
         if len < 1024 then map_option (\<lambda>_. (i, r)) (c_strncpy s len) else None)
     else if k = Some (cstr ''read'') then
       map_option (\<lambda>b. (i, if j = 0 then r\<lparr>arg_read := b\<rparr> else r)) (json_bool js val)
     else if k = Some (cstr ''write'') then
       map_option (\<lambda>b. (i, if j = 0 then r\<lparr>arg_write := b\<rparr> else r)) (json_bool js val)
     else if k = Some (cstr ''range'') then
       Some (i + tk_size val, r\<lparr>arg_range := Some (tk_size val, i)\<rparr>)
     else if k = Some (cstr ''values'') then
       Some (i + tk_size val, r\<lparr>arg_values := Some (tk_size val, i)\<rparr>)
     else Some (i, r))"

fun arg_fields :: "u8 list \<Rightarrow> jsmntok list \<Rightarrow> nat \<Rightarrow> nat \<Rightarrow> nat \<Rightarrow> reply \<Rightarrow> (nat \<times> reply) option" where
  "arg_fields js ts j 0 i r = Some (i, r)"
| "arg_fields js ts j (Suc n) i r =
     Option.bind (tok_at ts i) (\<lambda>key.
     Option.bind (tok_at ts (i + 1)) (\<lambda>val.
     Option.bind (arg_field js j key val (i + 2) r) (\<lambda>(i1, r1).
       arg_fields js ts j n i1 r1)))"

fun query_arguments :: "u8 list \<Rightarrow> jsmntok list \<Rightarrow> nat \<Rightarrow> nat \<Rightarrow> nat \<Rightarrow> reply \<Rightarrow> (nat \<times> reply) option" where
  "query_arguments js ts j 0 i r = Some (i, r)"
| "query_arguments js ts j (Suc n) i r =
     Option.bind (tok_at ts i) (\<lambda>item.
     Option.bind (arg_fields js ts j (tk_size item) (i + 1) r) (\<lambda>(i1, r1).
       query_arguments js ts (j + 1) n i1 r1))"

definition query_field :: "u8 list \<Rightarrow> jsmntok list \<Rightarrow> jsmntok \<Rightarrow> jsmntok \<Rightarrow> nat \<Rightarrow> reply \<Rightarrow> varchunk \<Rightarrow> (nat \<times> reply \<times> varchunk) option" where
  "query_field js ts key val i r v =
     Option.bind (json_switch js key (map cstr [''path'', ''type'', ''description'', ''items'', ''arguments''])) (\<lambda>k.
     if k = Some (cstr ''path'') then
       map_option (\<lambda>(s, n). (i, r\<lparr>target := s, target_len := n\<rparr>, v)) (json_string js val (target_len r))
     else if k = Some (cstr ''type'') then
       map_option (\<lambda>(s, n). (i, r\<lparr>rtype := s, rtype_len := n\<rparr>, v)) (json_string js val (rtype_len r))
     else if k = Some (cstr ''description'') then
       map_option (\<lambda>(s, n). (i, r\<lparr>desc := s, desc_len := n\<rparr>, v)) (json_string js val (desc_len r))
     else if k = Some (cstr ''items'') then
       map_option (\<lambda>(i1, v1). (i1, r, v1)) (query_items js ts r (tk_size val) i v)
     else if k = Some (cstr ''arguments'') then
       map_option (\<lambda>(i1, r1). (i1, r1, v)) (query_arguments js ts 0 (tk_size val) i (r\<lparr>arg_n := tk_size val\<rparr>))
     else Some (i, r, v))"

lemma query_items_le: "query_items js ts r n i v = Some (i1, v1) \<Longrightarrow> i \<le> i1"
proof (induction n arbitrary: i v)
  case (Suc n)
  then obtain v2 where "query_items js ts r n (i + 1) v2 = Some (i1, v1)" by (auto simp: bind_eq_Some_conv)
  from Suc.IH [OF this] show ?case by simp
qed simp

lemma arg_field_le: "arg_field js j key val i r = Some (i1, r1) \<Longrightarrow> i \<le> i1"
  by (auto simp: arg_field_def bind_eq_Some_conv simp del: cstr_simps split: if_splits)

lemma arg_fields_le: "arg_fields js ts j n i r = Some (i1, r1) \<Longrightarrow> i \<le> i1"
proof (induction n arbitrary: i r)
  case (Suc n)
  then obtain key val i2 r2 where "arg_field js j key val (i + 2) r = Some (i2, r2)" "arg_fields js ts j n i2 r2 = Some (i1, r1)"
    by (auto simp: bind_eq_Some_conv)
  from arg_field_le [OF this(1)] Suc.IH [OF this(2)] show ?case by simp
qed simp

lemma query_arguments_le: "query_arguments js ts j n i r = Some (i1, r1) \<Longrightarrow> i \<le> i1"
proof (induction n arbitrary: j i r)
  case (Suc n)
  then obtain item :: jsmntok and i2 r2 where "arg_fields js ts j (tk_size item) (Suc i) r = Some (i2, r2)" "query_arguments js ts (Suc j) n i2 r2 = Some (i1, r1)"
    by (auto simp: bind_eq_Some_conv)
  from arg_fields_le [OF this(1)] Suc.IH [OF this(2)] show ?case by simp
qed simp

lemma query_field_le: "query_field js ts key val i r v = Some (i1, r1, v1) \<Longrightarrow> i \<le> i1"
  by (auto simp: query_field_def bind_eq_Some_conv simp del: cstr_simps dest: query_items_le query_arguments_le split: if_splits)

text \<open>The loop over the \<open>n\<close> tokens of the reply\<close>

function (sequential) query_fields :: "u8 list \<Rightarrow> jsmntok list \<Rightarrow> nat \<Rightarrow> nat \<Rightarrow> reply \<Rightarrow> varchunk \<Rightarrow> (reply \<times> varchunk) option" where
  "query_fields js ts n i r v =
     (if n \<le> i then Some (r, v)
      else case (tok_at ts i, tok_at ts (i + 1)) of
          (Some key, Some val) \<Rightarrow>
            (case query_field js ts key val (i + 2) r v of
               None \<Rightarrow> None
             | Some (i1, r1, v1) \<Rightarrow> query_fields js ts n i1 r1 v1)
        | _ \<Rightarrow> None)"
  by pat_completeness auto
termination
  by (relation "measure (\<lambda>(js, ts, n, i, r, v). n - i)") (auto dest!: query_field_le)

declare query_fields.simps [simp del]

end
