(* ===== verification/Query_Run.thy ===== *)
theory Query_Run
  imports Query
begin

text \<open>
  \<open>eteroj_query.c\<close>, what it forges and its periods: methods become properties, values and requests
  become messages, and the other way round.
\<close>

section \<open>Messages\<close>

text \<open>
  \<open>_add\<close>, \<open>_set\<close> and \<open>_clear\<close> do not look at what their calls return, and leave \<open>ref\<close> as it was.
\<close>

definition forge_loose :: "'f query_host \<Rightarrow> fcall list \<Rightarrow> 'f query_world \<Rightarrow> 'f query_world" where
  "forge_loose e cs w = w\<lparr>pforge := snd (forge_run (beside (qh_forge e)) (map Loose cs) (pforge w))\<rparr>"

text \<open>A patch of a subject: what is removed and what is added\<close>

definition patch_calls :: "query \<Rightarrow> u64 \<Rightarrow> u32 \<Rightarrow> fcall list \<Rightarrow> fcall list \<Rightarrow> fcall list" where
  "patch_calls h t subj removed added =
     [FFrameTime t, FObject 0 (q_patch_patch h), FKey (q_patch_subject h), FUrid subj, FKey (q_patch_remove h), FObject 0 0] @ removed @
     [FPop, FKey (q_patch_add h), FObject 0 0] @ added @ [FPop, FPop]"

text \<open>A number of the property's type; other types are blank.\<close>

definition number_call :: "'f query_host \<Rightarrow> query \<Rightarrow> u32 \<Rightarrow> u64 \<Rightarrow> fcall option" where
  "number_call e h ty d =
     (let u = q_osc h in
      if ty = u_Int u then map_option (\<lambda>i. FInt (word_of_int i)) (double_to_int 32 d)
      else if ty = u_Long u then map_option (\<lambda>i. FLong (word_of_int i)) (double_to_int 64 d)
      else if ty = u_Float u then Some (FFloat (qh_float e d))
      else if ty = u_Double u then Some (FDouble d)
      else Some (FAtom 0 0))"

text \<open>\<open>n\<close> bytes from a pointer into the text, the terminating zero included\<close>

definition text_bytes :: "u8 list \<Rightarrow> nat \<Rightarrow> u8 list option" where
  "text_bytes a n = (if n \<le> length a + 1 then Some (take n (a @ [0])) else None)"

definition value_calls :: "'f query_host \<Rightarrow> query \<Rightarrow> u32 \<Rightarrow> u8 list \<Rightarrow> jsmntok \<Rightarrow> fcall list option" where
  "value_calls e h ty js t =
     Option.bind (text_at js (tk_start t)) (\<lambda>a.
     Option.bind (text_bytes a (unat (word_of_int (tk_end t - tk_start t) :: u32))) (\<lambda>s.
       let u = q_osc h; i = c_strtol 0 a;
           v = (if ty = u_Int u then FInt (word_of_int i)
                else if ty = u_Long u then FLong (word_of_int i)
                else if ty = u_Float u then FFloat (qh_float e (qh_strtod e a))
                else if ty = u_Double u then FDouble (qh_strtod e a)
                else if ty = u_String u then FString s
                else FAtom 0 0) in
       Some [FObject 0 0, FKey (rdfs_label h), FString s, FKey (rdf_value h), v, FPop]))"

fun values_calls :: "'f query_host \<Rightarrow> query \<Rightarrow> u32 \<Rightarrow> u8 list \<Rightarrow> jsmntok list \<Rightarrow> nat \<Rightarrow> nat \<Rightarrow> fcall list option" where
  "values_calls e h ty js ts 0 i = Some []"
| "values_calls e h ty js ts (Suc n) i =
     Option.bind (tok_at ts i) (\<lambda>t.
     Option.bind (value_calls e h ty js t) (\<lambda>cs.
       map_option ((@) cs) (values_calls e h ty js ts n (i + 1))))"

definition osc_range_type :: "query \<Rightarrow> u8 \<Rightarrow> u32" where
  "osc_range_type h c =
     (let u = q_osc h in
      if c = c8 CHR ''h'' then u_Long u
      else if c = c8 CHR ''f'' then u_Float u
      else if c = c8 CHR ''d'' then u_Double u
      else if c = c8 CHR ''s'' then u_String u
      else u_Int u)"

text \<open>The two numbers of the range, which are tokens beside each other\<close>

definition range_numbers :: "'f query_host \<Rightarrow> u8 list \<Rightarrow> jsmntok list \<Rightarrow> (nat \<times> nat) option \<Rightarrow> (u64 \<times> u64) option option" where
  "range_numbers e js ts rg =
     (case rg of
        Some (Suc _, i) \<Rightarrow>
          Option.bind (tok_at ts i) (\<lambda>t0. Option.bind (tok_at ts (i + 1)) (\<lambda>t1.
          Option.bind (text_at js (tk_start t0)) (\<lambda>a. Option.bind (text_at js (tk_start t1)) (\<lambda>b.
            Some (Some (qh_strtod e a, qh_strtod e b))))))
      | _ \<Rightarrow> Some None)"

definition count_of :: "(nat \<times> nat) option \<Rightarrow> nat" where
  "count_of x = (case x of None \<Rightarrow> 0 | Some (n, i) \<Rightarrow> n)"

definition bounds_calls :: "'f query_host \<Rightarrow> query \<Rightarrow> u32 \<Rightarrow> (u64 \<times> u64) option \<Rightarrow> fcall list option" where
  "bounds_calls e h ty nums =
     (case nums of
        None \<Rightarrow> Some []
      | Some (lo, hi) \<Rightarrow>
          if ty = u_Bool (q_osc h) then Some []
          else Option.bind (number_call e h ty lo) (\<lambda>a. Option.bind (number_call e h ty hi) (\<lambda>b.
            Some [FKey (lv2_minimum h), a, FKey (lv2_maximum h), b])))"

definition points_calls :: "'f query_host \<Rightarrow> query \<Rightarrow> u32 \<Rightarrow> u8 list \<Rightarrow> jsmntok list \<Rightarrow> (nat \<times> nat) option \<Rightarrow> fcall list option" where
  "points_calls e h ty js ts vals =
     (case vals of
        Some (Suc n, i) \<Rightarrow> map_option (\<lambda>cs. [FKey (lv2_scale_point h), FTuple] @ cs @ [FPop]) (values_calls e h ty js ts (Suc n) i)
      | _ \<Rightarrow> Some [])"

definition text_calls :: "u32 \<Rightarrow> u8 list option \<Rightarrow> nat \<Rightarrow> fcall list option" where
  "text_calls key s n =
     (case s of None \<Rightarrow> Some [] | Some a \<Rightarrow> map_option (\<lambda>b. [FKey key, FString b]) (text_bytes a (unat (of_nat n :: u32))))"

definition wildcards :: "query \<Rightarrow> u32 list \<Rightarrow> fcall list" where
  "wildcards h keys = concat (map (\<lambda>k. [FKey k, FUrid (q_patch_wildcard h)]) keys)"

definition query_add :: "'f query_host \<Rightarrow> query \<Rightarrow> u64 \<Rightarrow> u8 list \<Rightarrow> jsmntok list \<Rightarrow> reply \<Rightarrow> u32 \<Rightarrow> fcall list option" where
  "query_add e h t js ts r property =
     (if arg_write r \<and> \<not> arg_read r then Some []
      else if count_of (arg_range r) = 0 \<and> count_of (arg_values r) = 0 then Some []
      else
        Option.bind (range_numbers e js ts (arg_range r)) (\<lambda>nums.
        let access = (if arg_write r then q_patch_writable h else q_patch_readable h);
            ty0 = osc_range_type h (arg_type r);
            ty = (case nums of
                Some (lo, hi) \<Rightarrow> if ty0 = u_Int (q_osc h) \<and> double_value lo = Some 0 \<and> double_value hi = Some 1 then u_Bool (q_osc h) else ty0
              | None \<Rightarrow> ty0) in
        Option.bind (text_calls (rdfs_label h) (target r) (target_len r)) (\<lambda>label.
        Option.bind (text_calls (rdfs_comment h) (desc r) (desc_len r)) (\<lambda>comment.
        Option.bind (bounds_calls e h ty nums) (\<lambda>lohi.
        Option.bind (points_calls e h ty js ts (arg_values r)) (\<lambda>points.
          Some (patch_calls h t (q_subject h) [FKey access, FUrid property] [FKey access, FUrid property] @
            patch_calls h t property
              (wildcards h [rdfs_label h, rdfs_range h, rdfs_comment h, lv2_minimum h, lv2_maximum h, lv2_scale_point h])
              (label @ comment @ [FKey (rdfs_range h), FUrid ty] @ lohi @ points))))))))"

definition query_set :: "query \<Rightarrow> u64 \<Rightarrow> u32 \<Rightarrow> atom \<Rightarrow> fcall list" where
  "query_set h t property a =
     [FFrameTime t, FObject 0 (q_patch_set h), FKey (q_patch_subject h), FUrid (q_subject h),
      FKey (q_patch_property h), FUrid property, FKey (q_patch_value h), FWrite (atom_whole a), FPop]"

definition query_clear :: "query \<Rightarrow> u64 \<Rightarrow> fcall list" where
  "query_clear h t = patch_calls h t (q_subject h) (wildcards h [q_patch_writable h, q_patch_readable h]) []"

text \<open>A request is scheduled on the ring buffer; when that is full it is only logged.\<close>

definition query_request :: "u8 list \<Rightarrow> 'f query_world \<Rightarrow> 'f query_world option" where
  "query_request s w = map_option (\<lambda>(ok, v). set_own ((own w)\<lparr>q_rb := v\<rparr>) w) (ring_send (s @ [0]) (q_rb (own w)))"

definition refresh :: "'f query_host \<Rightarrow> query \<Rightarrow> u64 \<Rightarrow> 'f query_world \<Rightarrow> 'f query_world option" where
  "refresh e h t w = query_request (cstr ''/!'') (forge_loose e (query_clear h t) w)"

definition intercept_refresh :: "'f query_host \<Rightarrow> query \<Rightarrow> ('f \<times> query_rt) callback" where
  "intercept_refresh e h frames impl w =
     Option.bind (refresh e h (ucast frames) w) (\<lambda>w1.
     Option.bind (st32 (pmem w1) (at_query_refresh h) 0) (\<lambda>m.
       props_set (beside (qh_forge e)) frames (query_refresh h) (w1\<lparr>pmem := m\<rparr>)))"

section \<open>Messages that come in\<close>

text \<open>A method with one argument, or one whose type is a beginning of that word, becomes a property.\<close>

definition query_reply :: "'f query_host \<Rightarrow> query \<Rightarrow> u8 list \<Rightarrow> 'f query_world \<Rightarrow> 'f query_world option" where
  "query_reply e h js w =
     (case jsmn_parse js (jsmn_init (Some (q_tokens (own w)))) of
        None \<Rightarrow> None
      | Some (res, s) \<Rightarrow>
          (let n = (case res of Inl _ \<Rightarrow> 0 | Inr n \<Rightarrow> n); ts = (case toks s of None \<Rightarrow> [] | Some ts \<Rightarrow> ts) in
           Option.bind (query_fields js ts n 1 no_reply (q_rb (own w))) (\<lambda>(r, v).
           let w1 = set_own ((own w)\<lparr>q_rb := v, q_tokens := ts\<rparr>) w in
           Option.bind (strncmp_eq (rtype r) (cstr ''method'') (rtype_len r)) (\<lambda>method.
           if method \<and> arg_n r = 1
           then if target_len r < 1024
             then Option.bind (c_strncpy (target r) (target_len r)) (\<lambda>dest.
               map_option (\<lambda>cs. forge_loose e cs w1)
                 (query_add e h 0 js ts r (qh_map e (takeWhile (\<lambda>b. b \<noteq> 0) dest))))
             else None
           else Some w1))))"

definition c_string_get :: "atom list \<Rightarrow> (u8 list \<times> atom list) option" where
  "c_string_get as = Option.bind (lv2_osc_string_get as) (\<lambda>(bs, rest). map_option (\<lambda>s. (s, rest)) (bytes_str bs))"

definition query_success :: "'f query_host \<Rightarrow> query \<Rightarrow> atom list \<Rightarrow> 'f query_world \<Rightarrow> 'f query_world option" where
  "query_success e h as w =
     Option.bind (lv2_osc_int32_get as) (\<lambda>(id, as1).
     Option.bind (c_string_get as1) (\<lambda>(destination, as2).
       if c8 CHR ''!'' \<in> set destination
       then Option.bind (c_string_get as2) (\<lambda>(json, as3). query_reply e h json w)
       else case as2 of
           [] \<Rightarrow> Some w
         | a # _ \<Rightarrow> Some (forge_loose e (query_set h (q_frames (own w)) (qh_map e destination) a) w)))"

definition query_error :: "atom list \<Rightarrow> 'f query_world \<Rightarrow> 'f query_world option" where
  "query_error as w =
     Option.bind (lv2_osc_int32_get as) (\<lambda>(id, as1).
     Option.bind (c_string_get as1) (\<lambda>(destination, as2).
     Option.bind (c_string_get as2) (\<lambda>(msg, as3). Some w)))"

definition message_cb :: "'f query_host \<Rightarrow> query \<Rightarrow> 'f query_world option lv2_osc_method" where
  "message_cb e h path body s =
     Option.bind s (\<lambda>w.
     Option.bind (Option.bind body tuple_items) (\<lambda>as.
     Option.bind (bytes_str path) (\<lambda>p.
       if p = cstr ''/success'' then query_success e h as w
       else if p = cstr ''/error'' then query_error as w
       else Some w)))"

section \<open>Messages that go out\<close>

text \<open>
  A message with the next number before its argument. The argument and the path, which may be \<open>NULL\<close>, are
  only looked at while there is room.
\<close>

definition query_send :: "'f query_host \<Rightarrow> query \<Rightarrow> u64 \<Rightarrow> u8 list option \<Rightarrow> u8 list \<Rightarrow> va list option \<Rightarrow> 'f query_world
    \<Rightarrow> 'f query_world option" where
  "query_send e h t path fmt args w =
     Option.bind (w_call (forge_steps (beside (qh_forge e)) [Keep (FFrameTime t)]) w) (\<lambda>w1.
       if pref w1
       then Option.bind path (\<lambda>p. Option.bind args (\<lambda>vs.
         let x = own w1 in
         w_call (lv2_osc_forge_message_vararg (beside (qh_forge e)) (q_osc h) (qh_float e) p fmt (map Va (VaInt (q_cnt x) # vs)))
           (set_own (x\<lparr>q_cnt := q_cnt x + 1\<rparr>) w1)))
       else Some w1)"

text \<open>Values of other types are not sent.\<close>

definition send_value :: "'f query_host \<Rightarrow> query \<Rightarrow> u64 \<Rightarrow> u8 list option \<Rightarrow> atom \<Rightarrow> 'f query_world \<Rightarrow> 'f query_world option" where
  "send_value e h t uri a w =
     (let u = q_osc h; ty = atom_type a in
      if ty = u_Int u \<or> ty = u_Bool u then query_send e h t uri (cstr ''ii'') (map_option (\<lambda>i. [VaInt i]) (body_u32 a)) w
      else if ty = u_Long u then query_send e h t uri (cstr ''ih'') (map_option (\<lambda>i. [VaLong i]) (body_u64 a)) w
      else if ty = u_Float u then query_send e h t uri (cstr ''if'') (map_option (\<lambda>x. [VaDouble (qh_double e x)]) (body_u32 a)) w
      else if ty = u_Double u then query_send e h t uri (cstr ''id'') (map_option (\<lambda>d. [VaDouble d]) (body_u64 a)) w
      else if ty = u_String u then query_send e h t uri (cstr ''is'') (map_option (\<lambda>s. [VaBytes s]) (body_str a)) w
      else Some w)"

text \<open>Whether an object is about another subject; \<open>None\<close> when the subject has no body to read\<close>

definition other_than :: "query \<Rightarrow> atom option \<Rightarrow> bool option" where
  "other_than h sub = (case sub of None \<Rightarrow> Some False | Some a \<Rightarrow> map_option (\<lambda>b. b \<noteq> q_subject h) (body_u32 a))"

definition query_patch_set :: "'f query_host \<Rightarrow> query \<Rightarrow> u64 \<Rightarrow> aprop list \<Rightarrow> 'f query_world \<Rightarrow> 'f query_world option" where
  "query_patch_set e h t ps w =
     (case (qh_get e ps (q_patch_property h), qh_get e ps (q_patch_value h)) of
        (Some p, Some a) \<Rightarrow>
          Option.bind (other_than h (qh_get e ps (q_patch_subject h))) (\<lambda>other.
            if other then Some w
            else Option.bind (body_u32 p) (\<lambda>property. send_value e h t (qh_unmap e property) a w))
      | _ \<Rightarrow> Some w)"

definition query_patch_get :: "'f query_host \<Rightarrow> query \<Rightarrow> u64 \<Rightarrow> aprop list \<Rightarrow> 'f query_world \<Rightarrow> 'f query_world option" where
  "query_patch_get e h t ps w =
     Option.bind (other_than h (qh_get e ps (q_patch_subject h))) (\<lambda>other.
       if other then Some w
       else case qh_get e ps (q_patch_property h) of
           None \<Rightarrow> refresh e h t w
         | Some p \<Rightarrow> Option.bind (body_u32 p) (\<lambda>property. Option.bind (qh_unmap e property) (\<lambda>uri. query_request uri w)))"

section \<open>A period\<close>

definition query_event :: "'f query_host \<Rightarrow> query \<Rightarrow> nat \<Rightarrow> u64 \<times> atom \<Rightarrow> 'f query_world \<Rightarrow> 'f query_world run" where
  "query_event e h k ev w = (case ev of (frames, a) \<Rightarrow>
     run_bind (lift (body_otype (atom_body a))) (\<lambda>ot.
     if lv2_osc_is_message_or_bundle_type (q_osc h) ot
     then (case lv2_osc_unroll k (q_osc h) (qh_get e) a (Some (message_cb e h)) (Some (set_own ((own w)\<lparr>q_frames := frames\<rparr>) w)) of
             None \<Rightarrow> Endless
           | Some (res, w1) \<Rightarrow> if res = Fault then Undefined else lift w1)
     else if atom_type a = u_Object (q_osc h)
     then run_bind (lift (props_advance (beside (qh_forge e)) (intercept_refresh e h) (qh_get e) (qh_object e) (ucast frames) a w))
       (\<lambda>(handled, w1).
         if ot = q_patch_set h then lift (Option.bind (object_props (atom_body a)) (\<lambda>ps. query_patch_set e h frames ps w1))
         else if ot = q_patch_get h then lift (Option.bind (object_props (atom_body a)) (\<lambda>ps. query_patch_get e h frames ps w1))
         else Done w1)
     else Done w))"

fun query_events :: "'f query_host \<Rightarrow> query \<Rightarrow> nat \<Rightarrow> (u64 \<times> atom) list \<Rightarrow> 'f query_world \<Rightarrow> 'f query_world run" where
  "query_events e h k [] w = Done w"
| "query_events e h k (ev # evs) w = run_bind (query_event e h k ev w) (query_events e h k evs)"

text \<open>One request of the ring buffer is sent in a period, at its last frame.\<close>

definition query_requests :: "'f query_host \<Rightarrow> query \<Rightarrow> u32 \<Rightarrow> 'f query_world \<Rightarrow> 'f query_world option" where
  "query_requests e h nsamples w =
     Option.bind (ring_front (q_rb (own w))) (\<lambda>(x, v).
       let w1 = set_own ((own w)\<lparr>q_rb := v\<rparr>) w in
       case x of
         None \<Rightarrow> Some w1
       | Some (p, n) \<Rightarrow>
           Option.bind (query_send e h (ucast (nsamples - 1)) (bytes_str (drop (unat p) (vbuf v))) (cstr ''i'') (Some []) w1) (\<lambda>w2.
             map_option (\<lambda>v1. set_own ((own w2)\<lparr>q_rb := v1\<rparr>) w2) (varchunk_read_advance (q_rb (own w2)))))"

text \<open>\<open>run\<close>: at the end the sequence is closed, or cleared (\<open>False\<close>).\<close>

definition query_run :: "'f query_host \<Rightarrow> query \<Rightarrow> nat \<Rightarrow> u32 \<Rightarrow> (u64 \<times> atom) list \<Rightarrow> 'f query_world \<Rightarrow> (bool \<times> 'f query_world) run" where
  "query_run e h k nsamples evs w =
     (case beside (qh_forge e) (FSequenceHead 0) (pforge w) of (ok, f) \<Rightarrow>
      run_bind (lift (props_idle (beside (qh_forge e)) (intercept_refresh e h) 0 (w\<lparr>pforge := f, pref := ok\<rparr>))) (\<lambda>w1.
      run_bind (query_events e h k evs w1) (\<lambda>w2.
      run_bind (lift (query_requests e h nsamples w2)) (\<lambda>w3.
        Done (if pref w3 then (True, w3\<lparr>pforge := snd (beside (qh_forge e) FPop (pforge w3))\<rparr>) else (False, w3))))))"

end
