(* ===== verification/Query_Laws.thy ===== *)
theory Query_Laws
  imports Query_Run Osc_Unroll Props_Contract
begin

text \<open>
  Values on their way through \<open>eteroj_query.c\<close>: a property that is set becomes a message, the answer to
  the message becomes the property; and what a property does that is no OSC path.
\<close>

section \<open>Forging\<close>

definition q_forged :: "fcall list query_world \<Rightarrow> fcall list \<Rightarrow> fcall list query_world" where
  "q_forged w cs = w\<lparr>pforge := (fst (pforge w) @ cs, own w)\<rparr>"

lemma q_forged_simps [simp]:
  "own (q_forged w cs) = own w" "pref (q_forged w cs) = pref w" "pmem (q_forged w cs) = pmem w" "pp (q_forged w cs) = pp w"
  "pforge (q_forged w cs) = (fst (pforge w) @ cs, own w)" "q_forged (q_forged w cs) ds = q_forged w (cs @ ds)"
  "set_own x (q_forged w cs) = q_forged (set_own x w) cs"
  by (simp_all add: q_forged_def own_def set_own_def)

lemma forge_loose_calls [simp]: "qh_forge e = recording \<Longrightarrow> forge_loose e cs w = q_forged w cs"
  by (cases "pforge w") (simp add: forge_loose_def q_forged_def own_def beside_simps forge_run_recording fstep_call_def comp_def)

lemma w_call_beside:
  "pref w \<Longrightarrow> c (fst (pforge w)) = (Ok (), fst (pforge w) @ cs) \<Longrightarrow> (\<And>f x. c' (f, x) = aside x (c f)) \<Longrightarrow> w_call c' w = Some (q_forged w cs)"
  by (cases "pforge w") (simp add: w_call_def q_forged_def own_def)

lemma frame_time_calls:
  "pref w \<Longrightarrow> w_call (forge_steps (beside recording) [Keep (FFrameTime t)]) w = Some (q_forged w [FFrameTime t])"
  by (rule w_call_beside [of _ "forge_steps recording [Keep (FFrameTime t)]"]) (simp_all add: beside_simps)

definition counted :: "fcall list query_world \<Rightarrow> fcall list query_world" where
  "counted w = set_own ((own w)\<lparr>q_cnt := q_cnt (own w) + 1\<rparr>) w"

lemma query_send_calls:
  assumes "pref w" and "qh_forge e = recording" and "lv2_osc_check_path p" and "lv2_osc_check_fmt (arg_fmt (AInt c # as)) 0"
    and "list_all forge_arg_ok as" and "floats_kept (qh_float e) (qh_double e) as" and "c = q_cnt (own w)"
    and "map Va vs = forge_vas (qh_double e) umap as" and "fmt = arg_fmt (AInt c # as)"
  shows "query_send e h t (Some p) fmt (Some vs) w =
    Some (q_forged (counted w) (FFrameTime t # packet_calls (q_osc h) umap (PMessage p (AInt c # as))))"
proof -
  have ok: "list_all forge_arg_ok (AInt c # as)" "floats_kept (qh_float e) (qh_double e) (AInt c # as)"
    using assms(5,6) by (simp_all add: forge_arg_ok_def floats_kept_def)
  have va: "map Va (VaInt c # vs) = forge_vas (qh_double e) umap (AInt c # as)"
    using assms(8) by (simp add: forge_vas_def)
  note m = message_vararg_calls [OF assms(3,4) ok, of "q_osc h" umap]
  let ?w = "counted (q_forged w [FFrameTime t])"
  have "w_call (lv2_osc_forge_message_vararg (beside recording) (q_osc h) (qh_float e) p fmt (map Va (VaInt c # vs))) ?w
      = Some (q_forged ?w (packet_calls (q_osc h) umap (PMessage p (AInt c # as))))"
    unfolding va assms(9)
    by (rule w_call_beside [of _ "lv2_osc_forge_message_vararg recording (q_osc h) (qh_float e) p (arg_fmt (AInt c # as))
      (forge_vas (qh_double e) umap (AInt c # as))"]) (use assms(1) m in \<open>simp_all add: beside_simps counted_def\<close>)
  then show ?thesis using assms(1,2,7) by (simp add: query_send_def frame_time_calls counted_def Let_def)
qed

section \<open>Values\<close>

text \<open>What is sent for a value: a truth value goes as a number, what is not a number or a string does not go.\<close>

definition sent_as :: "osc_arg \<Rightarrow> osc_arg option" where
  "sent_as a = (case a of
     AInt i \<Rightarrow> Some (AInt i) | ATrue \<Rightarrow> Some (AInt 1) | AFalse \<Rightarrow> Some (AInt 0) | ALong i \<Rightarrow> Some (ALong i)
   | AFloat x \<Rightarrow> Some (AFloat x) | ADouble d \<Rightarrow> Some (ADouble d) | AString s \<Rightarrow> Some (AString s) | _ \<Rightarrow> None)"

lemma fmt_ok: "sent_as a = Some b \<Longrightarrow> lv2_osc_check_fmt (arg_fmt [AInt c, b]) 0"
  using check_fmt_types [of "map Osc_Message.arg_type [AInt c, b]"]
  by (cases a) (auto simp: sent_as_def arg_fmt_def simp del: type_char.simps)

lemma send_value_sends:
  assumes "proper_urid (q_osc h)" and b: "sent_as a = Some b" and "forge_arg_ok b"
  obtains vs where "map Va vs = forge_vas (qh_double e) umap [b]"
    "\<And>uri. send_value e h t uri (arg_atom (q_osc h) umap a) w = query_send e h t uri (arg_fmt [AInt c, b]) (Some vs) w"
proof -
  have d: "distinct (types_of (q_osc h))" using assms(1) by (simp add: proper_urid_def)
  have bytes: "body_str (Atom (u_String (q_osc h)) (Bytes (x @ [0]))) = Some x" if "b = AString x" for x
    using assms(3) that by (simp add: body_str_def forge_arg_ok_def)
  have ne: "u_Long u \<noteq> u_Int u" "u_Long u \<noteq> u_Bool u" "u_Float u \<noteq> u_Int u" "u_Float u \<noteq> u_Bool u" "u_Float u \<noteq> u_Long u"
    "u_Double u \<noteq> u_Int u" "u_Double u \<noteq> u_Bool u" "u_Double u \<noteq> u_Long u" "u_Double u \<noteq> u_Float u" "u_String u \<noteq> u_Int u"
    "u_String u \<noteq> u_Bool u" "u_String u \<noteq> u_Long u" "u_String u \<noteq> u_Float u" "u_String u \<noteq> u_Double u" if "u = q_osc h" for u
    using d that by (auto simp: types_of_def)
  note ne = ne [OF refl]
  define vs where "vs = (case b of AInt i \<Rightarrow> [VaInt i] | ALong i \<Rightarrow> [VaLong i] | AFloat x \<Rightarrow> [VaDouble (qh_double e x)]
    | ADouble x \<Rightarrow> [VaDouble x] | AString x \<Rightarrow> [VaBytes x] | _ \<Rightarrow> [])"
  have "send_value e h t uri (arg_atom (q_osc h) umap a) w = query_send e h t uri (arg_fmt [AInt c, b]) (Some vs) w" for uri
    using b ne bytes by (cases a) (auto simp: vs_def send_value_def sent_as_def Let_def arg_fmt_def str_atom_def)
  moreover have "map Va vs = forge_vas (qh_double e) umap [b]"
    using b by (cases a) (auto simp: vs_def sent_as_def forge_vas_def)
  ultimately show thesis using that by simp
qed

lemma send_value_calls:
  assumes "pref w" and "qh_forge e = recording" and "proper_urid (q_osc h)" and "lv2_osc_check_path p"
    and b: "sent_as a = Some b" and s: "forge_arg_ok b" "floats_kept (qh_float e) (qh_double e) [b]"
  shows "send_value e h t (Some p) (arg_atom (q_osc h) umap a) w =
    Some (q_forged (counted w) (FFrameTime t # packet_calls (q_osc h) umap (PMessage p [AInt (q_cnt (own w)), b])))"
proof -
  obtain vs where v: "map Va vs = forge_vas (qh_double e) umap [b]"
    "send_value e h t (Some p) (arg_atom (q_osc h) umap a) w = query_send e h t (Some p) (arg_fmt [AInt (q_cnt (own w)), b]) (Some vs) w"
    by (rule send_value_sends [OF assms(3) b s(1), of e umap t w "q_cnt (own w)"]) blast
  show ?thesis unfolding v(2)
    by (rule query_send_calls [OF assms(1,2,4) fmt_ok [OF b] _ s(2) refl v(1) refl]) (use s(1) in simp)
qed

section \<open>A value goes out and comes back\<close>

definition at_frame :: "u64 \<Rightarrow> 'f query_world \<Rightarrow> 'f query_world" where
  "at_frame t w = set_own ((own w)\<lparr>q_frames := t\<rparr>) w"

lemma query_event_packet:
  assumes "proper_urid (q_osc h)" and "finds_values (qh_get e)" and "unroll_fuel p \<le> k"
  shows "query_event e h k (t, packet_atom (q_osc h) umap p) w =
    lift (fold (visit (q_osc h) umap (message_cb e h)) (packet_messages p) (Some (at_frame t w)))"
proof -
  have "lv2_osc_is_message_or_bundle_type (q_osc h) (the (object_otype (atom_body (packet_atom (q_osc h) umap p))))"
    "object_otype (atom_body (packet_atom (q_osc h) umap p)) \<noteq> None"
    by (cases p; simp add: object_otype_def lv2_osc_is_message_or_bundle_type_def lv2_osc_is_message_type_def lv2_osc_is_bundle_type_def)+
  then show ?thesis
    using body_unroll_visits [OF assms(1,2,3), where meth = "message_cb e h"]
    by (auto simp: query_event_def body_otype_def lv2_osc_unroll_def at_frame_def)
qed

lemma query_event_message:
  assumes "proper_urid (q_osc h)" and "finds_values (qh_get e)" and "0 < k"
  shows "query_event e h k (t, packet_atom (q_osc h) umap (PMessage path as)) w =
    lift (message_cb e h (path @ [0]) (Some (tuple_atom (q_osc h) (map (arg_atom (q_osc h) umap) as))) (Some (at_frame t w)))"
  using query_event_packet [OF assms(1,2), of "PMessage path as" k t umap w] assms(3) by (simp add: visit_def)

lemma c_string_atom: "0 \<notin> set s \<Longrightarrow> c_string_get (str_atom u s # as) = Some (s, as)"
  by (simp add: c_string_get_def lv2_osc_string_get_def tuple_get_def raw_body_def str_atom_def)

lemma query_success_calls:
  assumes "0 \<notin> set p" and "c8 CHR ''!'' \<notin> set p" and "qh_forge e = recording"
  shows "query_success e h (map (arg_atom u umap) [AInt c, AString p, b]) w =
    Some (q_forged w (query_set h (q_frames (own w)) (qh_map e p) (arg_atom u umap b)))"
  using assms by (simp add: query_success_def lv2_osc_int32_get_def tuple_get_def body_u32_def c_string_atom)

text \<open>The object that sets a property\<close>

definition set_atom :: "query \<Rightarrow> u32 \<Rightarrow> atom \<Rightarrow> aprop list" where
  "set_atom h property a = [Prop (q_patch_property h) (Atom (u_URID (q_osc h)) (Bytes (le32 property))), Prop (q_patch_value h) a]"

definition proper_keys :: "query \<Rightarrow> bool" where
  "proper_keys h \<longleftrightarrow> distinct [q_patch_subject h, q_patch_property h, q_patch_value h]"

lemma set_atom_props:
  assumes "finds_values oget" and "proper_keys h"
  shows "oget (set_atom h property a) (q_patch_property h) = Some (Atom (u_URID (q_osc h)) (Bytes (le32 property)))"
    "oget (set_atom h property a) (q_patch_value h) = Some a" "oget (set_atom h property a) (q_patch_subject h) = None"
proof -
  have o: "oget ps k = map_of (map (\<lambda>p. (prop_key p, prop_value p)) ps) k" if "distinct (map prop_key ps)" for ps k
    using assms(1) that by (simp add: finds_values_def)
  have "distinct (map prop_key (set_atom h property a))" using assms(2) by (auto simp: set_atom_def proper_keys_def)
  from o [OF this] assms(2) show "oget (set_atom h property a) (q_patch_property h) = Some (Atom (u_URID (q_osc h)) (Bytes (le32 property)))"
    "oget (set_atom h property a) (q_patch_value h) = Some a" "oget (set_atom h property a) (q_patch_subject h) = None"
    by (auto simp: set_atom_def proper_keys_def)
qed

lemma patch_set_sends:
  assumes "finds_values (qh_get e)" and "proper_keys h" 
  shows "query_patch_set e h t (set_atom h property a) w = send_value e h t (qh_unmap e property) a w"
  using set_atom_props [OF assms] by (simp add: query_patch_set_def other_than_def body_u32_def le32_def)

text \<open>
  C17. A value on its way: setting a property whose URI is an OSC path sends one message to that path, with
  the next number and the value; and when the answer of the server carries that path and value, the
  plugin sets that property to that value at its output.
\<close>

theorem query_value_roundtrip:
  assumes "proper_urid (q_osc h)" and "finds_values (qh_get e)" and "proper_keys h" and "qh_forge e = recording"
    and "qh_unmap e property = Some p" and "qh_map e p = property" and "lv2_osc_check_path p" and "c8 CHR ''!'' \<notin> set p"
    and "sent_as a = Some b" and "forge_arg_ok b" and "floats_kept (qh_float e) (qh_double e) [b]" and "pref w" and "0 < k"
  shows "query_patch_set e h t (set_atom h property (arg_atom (q_osc h) umap a)) w =
      Some (q_forged (counted w) (FFrameTime t # packet_calls (q_osc h) umap (PMessage p [AInt (q_cnt (own w)), b]))) \<and>
    query_event e h k (t', packet_atom (q_osc h) umap (PMessage (cstr ''/success'') [AInt c, AString p, b])) w' =
      Done (q_forged (at_frame t' w') (query_set h t' property (arg_atom (q_osc h) umap b)))"
proof -
  have z: "0 \<notin> set p" using assms(7) check_path_Cons [of "List.hd p" "tl p"]
    by (cases p) (auto simp: lv2_osc_check_path_def slash_def c8_def simp del: check_path_Cons)
  have s: "bytes_str (cstr ''/success'' @ [0]) = Some (cstr ''/success'')" by (rule bytes_str_terminated) (simp add: c8_def)
  have "query_event e h k (t', packet_atom (q_osc h) umap (PMessage (cstr ''/success'') [AInt c, AString p, b])) w' =
      Done (q_forged (at_frame t' w') (query_set h t' property (arg_atom (q_osc h) umap b)))"
    unfolding query_event_message [OF assms(1,2,13)]
    using query_success_calls [OF z assms(8,4), of h "q_osc h" umap c b "at_frame t' w'"] assms(6) s
    by (simp add: message_cb_def tuple_atom_def tuple_items_def at_frame_def del: cstr_simps)
  with send_value_calls [OF assms(12,4,1,7,9,10,11)] show ?thesis
    by (simp add: patch_set_sends [OF assms(2,3)] assms(5))
qed

section \<open>A property that is no path\<close>

lemma frame_time_keeps:
  "\<exists>w1. w_call (forge_steps (beside fd) [Keep (FFrameTime t)]) w = Some w1 \<and> own w1 = own w \<and> (pref w1 \<longrightarrow> pref w)"
  by (cases "pforge w"; cases "forge_run fd [Keep (FFrameTime t)] (fst (pforge w))")
    (auto simp: w_call_def forge_steps_def forge_run_beside own_def simp del: forge_run.simps)

lemma query_send_no_path:
  assumes "\<not> lv2_osc_check_path p"
  obtains w1 where "query_send e h t (Some p) fmt (Some vs) w = Some w1" "\<not> pref w1" "q_rb (own w1) = q_rb (own w)"
proof -
  have m: "w_call (lv2_osc_forge_message_vararg (beside (qh_forge e)) (q_osc h) (qh_float e) p fmt va) w2 = Some (w2\<lparr>pref := False\<rparr>)" if "pref w2" for va w2
    using assms that by (simp add: w_call_def lv2_osc_forge_message_vararg_def lv2_osc_forge_message_varlist_def)
  obtain w1 where w1: "w_call (forge_steps (beside (qh_forge e)) [Keep (FFrameTime t)]) w = Some w1" "own w1 = own w"
    using frame_time_keeps by blast
  show thesis
  proof (cases "pref w1")
    case True
    let ?w = "set_own ((own w1)\<lparr>q_cnt := q_cnt (own w1) + 1\<rparr>) w1"
    have "own (?w\<lparr>pref := False\<rparr>) = own ?w" by (simp add: own_def)
    then show thesis using True w1 m [of ?w] by (intro that [of "?w\<lparr>pref := False\<rparr>"]) (simp_all add: query_send_def Let_def)
  next
    case False
    with w1 show thesis by (intro that [of w1]) (simp_all add: query_send_def)
  qed
qed

lemma query_requests_lost:
  assumes "\<not> pref w" and "queue_inv k (q_rb (own w)) (d # q)"
  obtains v where "query_requests e h nsamples w = Some (set_own ((own w)\<lparr>q_rb := v\<rparr>) w)" "queue_inv k v q"
proof -
  from ring_front_chunk [OF assms(2)] obtain p v1 v2 where f: "ring_front (q_rb (own w)) = Some (Some (p, of_nat (length d)), v1)"
    "varchunk_read_advance v1 = Some v2" "queue_inv k v2 q" by metis
  have "query_send e h t path fmt args (set_own x w) = Some (set_own x w)" for t path fmt args x
    using assms(1) by (simp add: query_send_def w_call_def)
  with f show thesis by (intro that [of v2]) (simp_all add: query_requests_def Let_def)
qed

text \<open>
  C34. Setting a property whose URI is no OSC path, be it one of the plugin's own (\<open>query_refresh\<close>) or of another
  plugin, empties the output of the whole period; the request that was next in the ring buffer is taken
  out of it, and is lost.
\<close>

theorem query_no_path_clears:
  assumes "proper_urid (q_osc h)" and "finds_values (qh_get e)" and "proper_keys h" and "\<not> lv2_osc_is_message_or_bundle_type (q_osc h) (q_patch_set h)"
    and "qh_unmap e property = Some p" and "\<not> lv2_osc_check_path p" and "sent_as a = Some b" and "forge_arg_ok b"
    and "props_idle (beside (qh_forge e)) (intercept_refresh e h) 0 (w\<lparr>pforge := (snd (qh_forge e (FSequenceHead 0) (fst (pforge w))), own w),
        pref := fst (qh_forge e (FSequenceHead 0) (fst (pforge w)))\<rparr>) = Some w1"
    and "ev = Atom (u_Object (q_osc h)) (Object i (q_patch_set h) (set_atom h property (arg_atom (q_osc h) umap a)))"
    and "props_advance (beside (qh_forge e)) (intercept_refresh e h) (qh_get e) (qh_object e) (ucast t) ev w1 = Some (handled, w2)"
    and "queue_inv k (q_rb (own w2)) (d # q)"
  shows "\<exists>w3. query_run e h n nsamples [(t, ev)] w = Done (False, w3) \<and> queue_inv k (q_rb (own w3)) q"
proof -
  let ?a = "arg_atom (q_osc h) umap a"
  obtain vs where "\<And>uri. send_value e h t uri ?a w2 = query_send e h t uri (arg_fmt [AInt 0, b]) (Some vs) w2"
    by (rule send_value_sends [OF assms(1,7,8), of e umap t w2 0]) blast
  then obtain w4 where s: "send_value e h t (Some p) ?a w2 = Some w4" and "\<not> pref w4" "q_rb (own w4) = q_rb (own w2)"
    using query_send_no_path [OF assms(6)] by metis
  with assms(12) have w4: "\<not> pref w4" "queue_inv k (q_rb (own w4)) (d # q)" by simp_all
  from query_requests_lost [OF w4] obtain v where
    v: "query_requests e h nsamples w4 = Some (set_own ((own w4)\<lparr>q_rb := v\<rparr>) w4)" "queue_inv k v q" by blast
  have "query_event e h n (t, ev) w1 = Done w4"
    using assms(4,10,11) s patch_set_sends [OF assms(2,3), of t property ?a w2]
    by (simp add: query_event_def body_otype_def object_otype_def object_props_def assms(5))
  then show ?thesis using v w4(1) assms(9)
    by (cases "pforge w") (simp add: query_run_def beside_def case_prod_unfold own_def set_own_def)
qed

section \<open>A plugin\<close>

text \<open>A plugin with its property \<open>query_refresh\<close>, whose URI is no path, and a host that knows one more.\<close>

definition sample_query :: query where
  "sample_query = \<lparr>q_osc = host_urid, q_subject = 300, q_patch_set = 102, q_patch_get = 101, q_patch_subject = 108,
     q_patch_property = 110, q_patch_value = 111, q_patch_wildcard = 105, q_patch_patch = 104, q_patch_add = 106,
     q_patch_remove = 107, q_patch_writable = 301, q_patch_readable = 112, rdfs_label = 302, rdfs_comment = 303,
     rdfs_range = 304, rdf_value = 305, lv2_minimum = 306, lv2_maximum = 307, lv2_scale_point = 308, query_refresh = 200,
     at_query_refresh = 4096\<rparr>"

definition sample_query_host :: "fcall list query_host" where
  "sample_query_host = \<lparr>qh_forge = recording, qh_get = first_value, qh_object = (\<lambda>t. t = 25), qh_map = (\<lambda>s. of_nat (length s) + 400),
     qh_unmap = (\<lambda>k. if k = 402 then Some (cstr ''/a'') else if k = 300 then Some (cstr ''urn:x'') else None),
     qh_strtod = (\<lambda>s. if List.hd s = 49 then 0x3FF0000000000000 else 0), qh_float = ucast, qh_double = ucast\<rparr>"

definition sample_refresh :: props_impl where
  "sample_refresh = \<lparr>p_property = 200, p_type = 23, p_access = 301, value_size = 4, value_body = 4096,
     stash_size = 4, stash_body = 8192, p_def = sample_def, p_state = PROP_STATE_NONE, p_stashing = False\<rparr>"

definition query_ring :: varchunk where
  "query_ring = varchunk_init (replicate (2 ^ 16) 0) (of_nat (2 ^ 16))"

lemma queue_query_ring [simp]: "queue_inv 16 query_ring []"
  unfolding query_ring_def by (rule queue_inv_init) simp_all

definition sample_query_world :: "fcall list query_world" where
  "sample_query_world = \<lparr>pp = (pp sample_world)\<lparr>restoring := False, urid := sample_urid\<lparr>atom_urid := 22, atom_bool := 23\<rparr>, impls := [sample_refresh]\<rparr>,
     pmem = (\<lambda>_. Some 0), pforge = ([], \<lparr>q_rb = query_ring, q_cnt = 7, q_frames = 0, q_tokens = replicate 256 \<lparr>tk_type = JSMN_PRIMITIVE, tk_start = 0, tk_end = 0, tk_size = 0\<rparr>\<rparr>),
     pref = True, plog = []\<rparr>"

lemmas sample_query_defs = sample_query_def sample_query_host_def sample_query_world_def

lemma sample_query_simps [simp]:
  "q_osc sample_query = host_urid" "qh_get sample_query_host = first_value" "qh_forge sample_query_host = recording"
  "q_patch_set sample_query = 102" "pref sample_query_world" "q_cnt (own sample_query_world) = 7" "proper_keys sample_query"
  "q_rb (own sample_query_world) = query_ring"
  by (simp_all add: sample_query_defs own_def proper_keys_def)

lemma host_urid_simps [simp]: "u_Object host_urid = 25" "u_URID host_urid = 22" "u_Bool host_urid = 23" "u_Message host_urid = 5" "u_Bundle host_urid = 2"
  by (simp_all add: host_urid_def lv2_osc_urid_init_def)

theorem query_value_roundtrip_witness:
  "query_patch_set sample_query_host sample_query 3 (set_atom sample_query 402 (arg_atom (q_osc sample_query) (\<lambda>_. 0) ATrue)) sample_query_world =
      Some (q_forged (counted sample_query_world) (FFrameTime 3 # packet_calls (q_osc sample_query) (\<lambda>_. 0)
        (PMessage (cstr ''/a'') [AInt (q_cnt (own sample_query_world)), AInt 1]))) \<and>
    query_event sample_query_host sample_query 1 (4, packet_atom (q_osc sample_query) (\<lambda>_. 0) (PMessage (cstr ''/success'') [AInt 7, AString (cstr ''/a''), AInt 1]))
        sample_query_world =
      Done (q_forged (at_frame 4 sample_query_world) (query_set sample_query 4 402 (arg_atom (q_osc sample_query) (\<lambda>_. 0) (AInt 1))))"
  by (rule query_value_roundtrip)
    (simp_all add: sample_query_host_def sent_as_def forge_arg_ok_def lv2_osc_check_path_def slash_def c8_def c_isprint_def invalid_path_chars_def)

definition query_waiting :: "varchunk \<Rightarrow> fcall list query_world" where
  "query_waiting v = set_own ((own sample_query_world)\<lparr>q_rb := v\<rparr>) sample_query_world"

theorem query_no_path_clears_witness:
  "\<exists>v w3. queue_inv 16 v [cstr ''/!'' @ [0]] \<and> query_run sample_query_host sample_query 1 64
      [(0, Atom (u_Object (q_osc sample_query)) (Object 0 (q_patch_set sample_query) (set_atom sample_query 300 (arg_atom (q_osc sample_query) (\<lambda>_. 0) ATrue))))]
      (query_waiting v) = Done (False, w3) \<and> queue_inv 16 (q_rb (own w3)) []"
proof -
  obtain v where v: "ring_send (cstr ''/!'' @ [0]) query_ring = Some (True, v)" "queue_inv 16 v [cstr ''/!'' @ [0]]"
    by (rule ring_send_empty [OF queue_query_ring, of "cstr ''/!'' @ [0]"]) (simp_all add: pad8_def)
  let ?w = "(query_waiting v)\<lparr>pforge := ([FSequenceHead 0], own (query_waiting v)), pref := True\<rparr>"
  have "\<exists>w3. query_run sample_query_host sample_query 1 64
      [(0, Atom (u_Object (q_osc sample_query)) (Object 0 (q_patch_set sample_query) (set_atom sample_query 300 (arg_atom (q_osc sample_query) (\<lambda>_. 0) ATrue))))]
      (query_waiting v) = Done (False, w3) \<and> queue_inv 16 (q_rb (own w3)) []"
  proof (rule query_no_path_clears [where ?w1.0 = ?w and ?w2.0 = ?w and handled = False and d = "cstr ''/!'' @ [0]" and p = "cstr ''urn:x''" and b = "AInt 1", OF _ _ _ _ _ _ _ _ _ refl])
    show "props_idle (beside (qh_forge sample_query_host)) (intercept_refresh sample_query_host sample_query) 0
        ((query_waiting v)\<lparr>pforge := (snd (qh_forge sample_query_host (FSequenceHead 0) (fst (pforge (query_waiting v)))), own (query_waiting v)),
          pref := fst (qh_forge sample_query_host (FSequenceHead 0) (fst (pforge (query_waiting v))))\<rparr>) = Some ?w"
      by (simp add: props_idle_def props_restoring_get_def Let_def query_waiting_def recording_def)
        (simp add: sample_query_world_def sample_world_def)
    show "props_advance (beside (qh_forge sample_query_host)) (intercept_refresh sample_query_host sample_query) (qh_get sample_query_host)
        (qh_object sample_query_host) (ucast (0 :: u64))
        (Atom (u_Object (q_osc sample_query)) (Object 0 (q_patch_set sample_query) (set_atom sample_query 300 (arg_atom (q_osc sample_query) (\<lambda>_. 0) ATrue))))
        ?w = Some (False, ?w)"
      by (simp add: sample_query_defs sample_world_def sample_urid_def sample_refresh_def sample_def_def props_advance_def Let_def advance_set_def
        set_atom_def first_value_def other_subject_def sequence_number_def body_u32_def props_impl_get_def impl_get_loop.simps query_waiting_def set_own_def
        le32_def reply_error_def)
    show "queue_inv 16 (q_rb (own ?w)) [cstr ''/!'' @ [0]]" using v(2) by (simp add: query_waiting_def own_def set_own_def del: cstr_simps)
  qed ( simp_all add: sample_query_host_def sent_as_def forge_arg_ok_def lv2_osc_check_path_def slash_def c8_def query_waiting_def
    lv2_osc_is_message_or_bundle_type_def lv2_osc_is_message_type_def lv2_osc_is_bundle_type_def)
  with v(2) show ?thesis by blast
qed

end
