(* ===== verification/Jsmn_Trees.thy ===== *)
theory Jsmn_Trees
  imports Jsmn
begin

text \<open>
  What the tokenizer is for: JSON values as trees, how they are written (without blanks), and the
  tokens they have, a value before what it contains.
\<close>

section \<open>JSON values\<close>

datatype json = JPrim "u8 list" | JStr "u8 list" | JArr "json list" | JObj "(u8 list \<times> json) list"

abbreviation quoted :: "u8 list \<Rightarrow> u8 list" where
  "quoted s \<equiv> 34 # s @ [34]"

text \<open>What follows the first element or pair: each with a comma before it.\<close>

fun listed :: "u8 list list \<Rightarrow> u8 list" where
  "listed [] = []"
| "listed (x # xs) = x @ concat (map (Cons 44) xs)"

primrec json_text :: "json \<Rightarrow> u8 list" where
  "json_text (JPrim b) = b"
| "json_text (JStr s) = quoted s"
| "json_text (JArr vs) = 91 # listed (map json_text vs) @ [93]"
| "json_text (JObj kvs) = 123 # listed (map (\<lambda>kt. quoted (fst kt) @ 58 # snd kt) (map (map_prod id json_text) kvs)) @ [125]"

definition tok :: "jsmntype \<Rightarrow> nat \<Rightarrow> nat \<Rightarrow> nat \<Rightarrow> jsmntok" where
  "tok t start fin n = \<lparr>tk_type = t, tk_start = int start, tk_end = int fin, tk_size = n\<rparr>"

text \<open>The tokens of values one after the other: each with what it takes of the text, and a separator\<close>

fun spread :: "nat \<Rightarrow> (nat \<times> (nat \<Rightarrow> jsmntok list)) list \<Rightarrow> jsmntok list" where
  "spread p [] = []"
| "spread p ((n, f) # fs) = f p @ spread (p + n + 1) fs"

primrec json_toks :: "json \<Rightarrow> nat \<Rightarrow> jsmntok list" where
  "json_toks (JPrim b) p = [tok JSMN_PRIMITIVE p (p + length b) 0]"
| "json_toks (JStr s) p = [tok JSMN_STRING (p + 1) (p + 1 + length s) 0]"
| "json_toks (JArr vs) p = tok JSMN_ARRAY p (p + length (json_text (JArr vs))) (length vs) #
     spread (p + 1) (map (\<lambda>v. (length (json_text v), json_toks v)) vs)"
| "json_toks (JObj kvs) p = tok JSMN_OBJECT p (p + length (json_text (JObj kvs))) (length kvs) #
     spread (p + 1) (map (\<lambda>kv. (length (fst kv) + 3 + fst (snd kv),
         \<lambda>q. tok JSMN_STRING (q + 1) (q + 1 + length (fst kv)) 1 # snd (snd kv) (q + length (fst kv) + 3)))
       (map (map_prod id (\<lambda>v. (length (json_text v), json_toks v))) kvs))"

text \<open>Strings as they are in the text, escapes included; primitives; values that can be written\<close>

function (sequential) str_ok :: "u8 list \<Rightarrow> bool" where
  "str_ok [] \<longleftrightarrow> True"
| "str_ok (c # cs) \<longleftrightarrow> c \<noteq> 0 \<and> c \<noteq> 34 \<and>
     (if c = 92 then cs \<noteq> [] \<and>
        (if List.hd cs \<in> set plain_escapes then str_ok (tl cs)
         else List.hd cs = 117 \<and> 4 \<le> length (tl cs) \<and> list_all is_hex (take 4 (tl cs)) \<and> str_ok (drop 4 (tl cs)))
      else str_ok cs)"
  by pat_completeness auto
termination
  by (relation "measure length") auto

definition prim_ok :: "u8 list \<Rightarrow> bool" where
  "prim_ok b \<longleftrightarrow> b \<noteq> [] \<and> List.hd b \<notin> {34, 91, 123} \<and> list_all (\<lambda>c. 32 \<le> c \<and> c < 127 \<and> \<not> ends_primitive c) b"

primrec json_ok :: "json \<Rightarrow> bool" where
  "json_ok (JPrim b) \<longleftrightarrow> prim_ok b"
| "json_ok (JStr s) \<longleftrightarrow> str_ok s"
| "json_ok (JArr vs) \<longleftrightarrow> list_all (\<lambda>b. b) (map json_ok vs)"
| "json_ok (JObj kvs) \<longleftrightarrow> list_all (\<lambda>kb. str_ok (fst kb) \<and> snd kb) (map (map_prod id json_ok) kvs)"

lemma j_char_simps [simp]:
  "j_char CHR ''{'' = 123" "j_char CHR ''['' = 91" "j_char CHR ''}'' = 125" "j_char CHR '']'' = 93" "j_char CHR 0x22 = 34"
  "j_char CHR 0x5C = 92" "j_char CHR '':'' = 58" "j_char CHR '','' = 44" "j_char CHR ''u'' = 117" "j_char CHR ''/'' = 47"
  "j_char CHR ''b'' = 98" "j_char CHR ''f'' = 102" "j_char CHR ''r'' = 114" "j_char CHR ''n'' = 110" "j_char CHR ''t'' = 116"
  by (simp_all add: j_char_def)

section \<open>Strings and primitives\<close>

lemma hex_digits_all: "list_all is_hex (take n cs) \<Longrightarrow> n \<le> length cs \<Longrightarrow> hex_digits n (cs @ t) = Some n"
proof (induction n cs rule: hex_digits.induct)
  case (3 n c cs)
  then have "is_hex c" by simp
  then have "c \<noteq> 0" by (auto simp: is_hex_def)
  with 3 show ?case by auto
qed auto

lemma string_end_ok: "str_ok s \<Longrightarrow> string_end (s @ 34 # t) p = Closed (p + length s)"
proof (induction s arbitrary: p rule: str_ok.induct)
  case (2 c cs)
  show ?case
  proof (cases "c = 92")
    case True
    with 2(4) obtain e es where cs: "cs = e # es" by (cases cs) auto
    show ?thesis
    proof (cases "e \<in> set plain_escapes")
      case True
      with \<open>c = 92\<close> 2(1) 2(4) cs show ?thesis by simp
    next
      case False
      with \<open>c = 92\<close> 2(4) cs have "e = 117" "4 \<le> length es" "list_all is_hex (take 4 es)" "str_ok (drop 4 es)" by auto
      with \<open>c = 92\<close> 2(2) 2(4) cs False hex_digits_all [of 4 es "34 # t"] show ?thesis by simp
    qed
  next
    case False
    with 2(3,4) show ?thesis by simp
  qed
qed simp

definition stops :: "u8 list \<Rightarrow> bool" where
  "stops t \<longleftrightarrow> (case t of [] \<Rightarrow> True | c # _ \<Rightarrow> c = 0 \<or> ends_primitive c)"

lemma primitive_end_ok:
  "list_all (\<lambda>c. 32 \<le> c \<and> c < 127 \<and> \<not> ends_primitive c) b \<Longrightarrow> stops t \<Longrightarrow> primitive_end (b @ t) p = Some (p + length b)"
proof (induction b arbitrary: p)
  case Nil
  then show ?case by (cases t) (auto simp: stops_def)
next
  case (Cons c b)
  then have "c \<noteq> 0" "\<not> c < 32" "\<not> 127 \<le> c" by auto
  with Cons show ?case by simp
qed

section \<open>States and steps\<close>

definition jst :: "nat \<Rightarrow> int \<Rightarrow> jsmntok list \<Rightarrow> jsmntok list \<Rightarrow> jsmn_parser" where
  "jst p k dn rest = \<lparr>jpos = p, toknext = length dn, toksuper = k, toks = Some (dn @ rest)\<rparr>"

text \<open>The size of the token above grows by \<open>j\<close>.\<close>

definition bump :: "nat \<Rightarrow> int \<Rightarrow> jsmntok list \<Rightarrow> jsmntok list" where
  "bump j k dn = (if k = - 1 then dn else dn[nat k := (dn ! nat k)\<lparr>tk_size := tk_size (dn ! nat k) + j\<rparr>])"

definition above_ok :: "int \<Rightarrow> jsmntok list \<Rightarrow> bool" where
  "above_ok k dn \<longleftrightarrow> k = - 1 \<or> 0 \<le> k \<and> nat k < length dn"

lemma length_bump [simp]: "length (bump j k dn) = length dn"
  by (simp add: bump_def)

lemma above_ok_bump [simp]: "above_ok k (bump j l dn) = above_ok k dn"
  by (simp add: above_ok_def)

lemma bump_append [simp]: "above_ok k dn \<Longrightarrow> bump j k (dn @ xs) = bump j k dn @ xs"
  by (auto simp: bump_def above_ok_def list_update_append nth_append)

lemma bump_bump [simp]: "above_ok k dn \<Longrightarrow> bump i k (bump j k dn) = bump (i + j) k dn"
  by (auto simp: bump_def above_ok_def ac_simps)

lemma bump_here [simp]: "bump j (int (length dn)) (dn @ [t]) = dn @ [t\<lparr>tk_size := tk_size t + j\<rparr>]"
  by (simp add: bump_def)

lemma bump_kind:
  "i < length dn \<Longrightarrow> tok_open (bump j k dn ! i) = tok_open (dn ! i)" "i < length dn \<Longrightarrow> tk_type (bump j k dn ! i) = tk_type (dn ! i)"
  by (cases "i = nat k"; auto simp: bump_def tok_open_def)+

lemma last_tok_append [simp]: "last_tok P (dn @ xs) (length dn) = last_tok P dn (length dn)"
proof -
  have "n \<le> length dn \<Longrightarrow> last_tok P (dn @ xs) n = last_tok P dn n" for n
    by (induction n) (auto simp: nth_append)
  then show ?thesis by simp
qed

lemma last_tok_none: "list_all (\<lambda>t. \<not> P t) xs \<Longrightarrow> last_tok P (dn @ xs) (length dn + length xs) = last_tok P dn (length dn)"
proof (induction xs rule: rev_induct)
  case (snoc x xs)
  then have "last_tok P (dn @ xs @ [x]) (length (dn @ xs)) = last_tok P (dn @ xs) (length (dn @ xs))"
    using last_tok_append [of P "dn @ xs" "[x]"] by simp
  with snoc show ?case by (simp add: nth_append)
qed simp

lemma last_tok_bump: "last_tok tok_open (bump j k dn) (length dn) = last_tok tok_open dn (length dn)"
proof -
  have "n \<le> length dn \<Longrightarrow> last_tok tok_open (bump j k dn) n = last_tok tok_open dn n" for n
    by (induction n) (auto simp: bump_kind)
  then show ?thesis by simp
qed

lemma last_tok_both: "last_tok P ts n = Some c \<Longrightarrow> Q (ts ! c) \<Longrightarrow> last_tok (\<lambda>t. Q t \<and> P t) ts n = Some c"
  by (induction n) (auto split: if_splits)

lemma jst_simps [simp]: "jpos (jst p k dn rest) = p" "(jst p k dn rest)\<lparr>jpos := q\<rparr> = jst q k dn rest"
  by (simp_all add: jst_def)

lemma loop_step:
  "drop p js = c # cs \<Longrightarrow> c \<noteq> 0 \<Longrightarrow> jsmn_loop js m (jst p k dn rest) =
    (case jsmn_step js (jst p k dn rest) of
       None \<Rightarrow> None
     | Some (Some e, b, s1) \<Rightarrow> Some (Inl e, s1)
     | Some (None, b, s1) \<Rightarrow> jsmn_loop js (if b then m + 1 else m) (s1\<lparr>jpos := jpos s1 + 1\<rparr>))"
  and drop_here: "drop p js = c # cs \<Longrightarrow> js ! p = c"
proof -
  assume d: "drop p js = c # cs"
  then have "p < length js" by (metis drop_all linorder_not_less list.simps(3))
  with d show n: "js ! p = c" by (metis Cons_nth_drop_Suc list.inject)
  assume "c \<noteq> 0"
  with \<open>p < length js\<close> n show "jsmn_loop js m (jst p k dn rest) =
    (case jsmn_step js (jst p k dn rest) of
       None \<Rightarrow> None
     | Some (Some e, b, s1) \<Rightarrow> Some (Inl e, s1)
     | Some (None, b, s1) \<Rightarrow> jsmn_loop js (if b then m + 1 else m) (s1\<lparr>jpos := jpos s1 + 1\<rparr>))"
    by (subst jsmn_loop.simps) (simp add: jst_def)
qed

lemma drop_next: "drop p js = xs @ ys \<Longrightarrow> drop (p + length xs) js = ys"
  by (metis add.commute append_eq_conv_conj drop_drop)

lemma drop_one: "drop p js = c # cs \<Longrightarrow> drop (p + 1) js = cs"
  using drop_next [of p js "[c]" cs] by simp

lemma token_taken:
  "jsmn_token t a b q (jst p k dn (r # rest)) = (None, jst q k (dn @ [tok t a b 0]) rest)"
  by (cases r) (simp add: jsmn_token_def jsmn_alloc_token_def jsmn_fill_token_def tok_def tok_update_def jst_def)

lemma count_taken: "above_ok k dn \<Longrightarrow> count_super (jst p k dn rest) = jst p k (bump 1 k dn) rest"
  by (auto simp: count_super_def tok_update_def jst_def bump_def above_ok_def list_update_append nth_append)

text \<open>A value that is a single token\<close>

lemma value_taken:
  assumes "parse_tok js (jst p k dn (r # rest)) = (None, jst q k (dn @ [t]) rest)" and "above_ok k dn"
  shows "jsmn_value (parse_tok js (jst p k dn (r # rest))) = (None, True, jst q k (bump 1 k dn @ [t]) rest)"
  using assms count_taken [of k "dn @ [t]" q rest]
  by (auto simp: jsmn_value_def above_ok_def jst_def)

lemma string_read:
  assumes d: "drop p js = quoted s @ post" and s: "str_ok s" and k: "above_ok k dn"
  shows "jsmn_loop js m (jst p k dn (r # rest)) =
    jsmn_loop js (m + 1) (jst (p + length s + 2) k (bump 1 k dn @ [tok JSMN_STRING (p + 1) (p + 1 + length s) 0]) rest)"
proof -
  have d1: "drop p js = 34 # s @ 34 # post" using d by simp
  then have "drop (p + 1) js = s @ 34 # post" by (rule drop_one)
  then have "jsmn_parse_string js (jst p k dn (r # rest)) = (None, jst (p + 1 + length s) k (dn @ [tok JSMN_STRING (p + 1) (p + 1 + length s) 0]) rest)"
    using string_end_ok [OF s, of post "p + 1"] token_taken [of JSMN_STRING "p + 1" "p + 1 + length s"]
    by (simp add: jsmn_parse_string_def jst_def)
  from value_taken [where parse_tok = jsmn_parse_string, OF this k]
  show ?thesis using loop_step [OF d1] drop_here [OF d1] by (simp add: jsmn_step_def jst_def Let_def)
qed

lemma primitive_read:
  assumes d: "drop p js = b @ post" and b: "prim_ok b" and post: "stops post" and k: "above_ok k dn"
  shows "jsmn_loop js m (jst p k dn (r # rest)) =
    jsmn_loop js (m + 1) (jst (p + length b) k (bump 1 k dn @ [tok JSMN_PRIMITIVE p (p + length b) 0]) rest)"
proof -
  obtain c cs where c: "b = c # cs" using b by (cases b) (auto simp: prim_ok_def)
  then have d1: "drop p js = c # cs @ post" using d by simp
  have ok: "c \<notin> {34, 91, 123}" "32 \<le> c" "c < 127" "\<not> ends_primitive c" using b c by (simp_all add: prim_ok_def)
  then have nz: "c \<noteq> 0" by auto
  have "list_all (\<lambda>c. 32 \<le> c \<and> c < 127 \<and> \<not> ends_primitive c) b" using b by (simp add: prim_ok_def)
  from primitive_end_ok [OF this post, of p]
  have "jsmn_parse_primitive js (jst p k dn (r # rest)) = (None, jst (p + length b - 1) k (dn @ [tok JSMN_PRIMITIVE p (p + length b) 0]) rest)"
    using d token_taken [of JSMN_PRIMITIVE p "p + length b"] by (simp add: jsmn_parse_primitive_def jst_def)
  from value_taken [where parse_tok = jsmn_parse_primitive, OF this k]
  show ?thesis using loop_step [OF d1 nz] drop_here [OF d1] ok c by (simp add: jsmn_step_def jst_def Let_def ends_primitive_def)
qed

section \<open>Lists in a container\<close>

text \<open>
  \<open>inside c dn\<close>: the last token that is open is the container \<open>c\<close>. \<open>leads c k dn\<close>: the token above is
  that container or none at all, and a comma goes back to it.
\<close>

definition inside :: "nat \<Rightarrow> jsmntok list \<Rightarrow> bool" where
  "inside c dn \<longleftrightarrow> c < length dn \<and> last_tok tok_open dn (length dn) = Some c \<and> tok_container (dn ! c)"

definition leads :: "nat \<Rightarrow> int \<Rightarrow> jsmntok list \<Rightarrow> bool" where
  "leads c k dn \<longleftrightarrow> k = int c \<or> 0 \<le> k \<and> nat k < length dn \<and> \<not> tok_container (dn ! nat k)"

abbreviation all_closed :: "jsmntok list \<Rightarrow> bool" where
  "all_closed xs \<equiv> list_all (\<lambda>t. \<not> tok_open t) xs"

lemma inside_above: "inside c dn \<Longrightarrow> above_ok (int c) dn"
  by (simp add: inside_def above_ok_def)

lemma inside_grows: "inside c dn \<Longrightarrow> all_closed xs \<Longrightarrow> inside c (bump j k dn @ xs)"
  using last_tok_none [of tok_open xs "bump j k dn"] last_tok_bump [of j k dn] bump_kind(2) [of c dn j k]
  by (auto simp: inside_def nth_append tok_container_def)

definition item_read :: "u8 list \<Rightarrow> nat \<Rightarrow> u8 list \<times> (nat \<Rightarrow> jsmntok list) \<Rightarrow> bool" where
  "item_read js c it \<longleftrightarrow> (\<forall>p post dn rest m. drop p js = fst it @ post \<longrightarrow> stops post \<longrightarrow> inside c dn \<longrightarrow>
     length (snd it p) \<le> length rest \<longrightarrow> all_closed (snd it p) \<and>
     (\<exists>k. jsmn_loop js m (jst p (int c) dn rest) = jsmn_loop js (m + length (snd it p))
         (jst (p + length (fst it)) k (bump 1 (int c) dn @ snd it p) (drop (length (snd it p)) rest)) \<and>
       leads c k (bump 1 (int c) dn @ snd it p)))"

definition item_toks :: "nat \<Rightarrow> (u8 list \<times> (nat \<Rightarrow> jsmntok list)) list \<Rightarrow> jsmntok list" where
  "item_toks p its = spread p (map (\<lambda>it. (length (fst it), snd it)) its)"

lemma item_toks_simps [simp]:
  "item_toks p [] = []" "item_toks p (it # its) = snd it p @ item_toks (p + length (fst it) + 1) its"
  by (simp_all add: item_toks_def)

lemma comma_read:
  assumes d: "drop p js = 44 # post" and i: "inside c dn" and k: "leads c k dn"
  shows "jsmn_loop js m (jst p k dn rest) = jsmn_loop js m (jst (p + 1) (int c) dn rest)"
proof -
  have "last_tok (\<lambda>t. tok_container t \<and> tok_open t) (dn @ rest) (length dn) = Some c"
    using i last_tok_both [of tok_open dn "length dn" c tok_container] by (simp add: inside_def)
  moreover have "tok_container (dn ! c)" "c < length dn" using i by (simp_all add: inside_def)
  ultimately have "jsmn_comma (jst p k dn rest) = Some (jst p (int c) dn rest)"
    using k by (auto simp: jsmn_comma_def jst_def leads_def nth_append)
  then show ?thesis using loop_step [OF d] drop_here [OF d] by (simp add: jsmn_step_def jst_def Let_def is_blank_def)
qed

text \<open>The items after the first, and all items\<close>

lemma more_items_read:
  "list_all (item_read js c) its \<Longrightarrow> drop p js = concat (map (Cons 44) (map fst its)) @ post \<Longrightarrow> stops post \<Longrightarrow> inside c dn \<Longrightarrow>
   leads c k dn \<Longrightarrow> length (item_toks (p + 1) its) \<le> length rest \<Longrightarrow> all_closed (item_toks (p + 1) its) \<and>
   (\<exists>k'. jsmn_loop js m (jst p k dn rest) = jsmn_loop js (m + length (item_toks (p + 1) its))
       (jst (p + length (concat (map (Cons 44) (map fst its)))) k' (bump (length its) (int c) dn @ item_toks (p + 1) its)
         (drop (length (item_toks (p + 1) its)) rest)) \<and> leads c k' (bump (length its) (int c) dn @ item_toks (p + 1) its))"
proof (induction its arbitrary: p m dn k rest)
  case Nil
  have "bump 0 (int c) dn = dn" using Nil.prems(4) by (simp add: bump_def)
  with Nil.prems(5) show ?case by auto
next
  case (Cons it its)
  let ?more = "concat (map (Cons 44) (map fst its))" and ?q = "p + 1 + length (fst it)" and ?t = "snd it (p + 1)"
  have d: "drop p js = 44 # fst it @ ?more @ post" using Cons.prems(2) by simp
  then have d1: "drop (p + 1) js = fst it @ ?more @ post" by (rule drop_one)
  then have d2: "drop ?q js = ?more @ post" by (rule drop_next)
  have stop: "stops (?more @ post)" using Cons.prems(3) by (cases its) (simp_all add: stops_def ends_primitive_def)
  have len: "length ?t \<le> length rest" "length (item_toks (?q + 1) its) \<le> length (drop (length ?t) rest)" using Cons.prems(6) by simp_all
  have one: "item_read js c it" using Cons.prems(1) by simp
  obtain k1 where it: "all_closed ?t" "jsmn_loop js m (jst (p + 1) (int c) dn rest) =
      jsmn_loop js (m + length ?t) (jst ?q k1 (bump 1 (int c) dn @ ?t) (drop (length ?t) rest))" "leads c k1 (bump 1 (int c) dn @ ?t)"
    using one d1 stop Cons.prems(4) len(1) unfolding item_read_def by blast
  have i: "inside c (bump 1 (int c) dn @ ?t)" by (rule inside_grows [OF Cons.prems(4) it(1)])
  from Cons.IH [OF _ d2 Cons.prems(3) i it(3) len(2), of "m + length ?t"] Cons.prems(1) obtain k2 where
    "all_closed (item_toks (?q + 1) its)"
    "jsmn_loop js (m + length ?t) (jst ?q k1 (bump 1 (int c) dn @ ?t) (drop (length ?t) rest)) =
      jsmn_loop js (m + length ?t + length (item_toks (?q + 1) its)) (jst (?q + length ?more) k2
        (bump (length its + 1) (int c) dn @ ?t @ item_toks (?q + 1) its) (drop (length (item_toks (?q + 1) its)) (drop (length ?t) rest)))"
    "leads c k2 (bump (length its + 1) (int c) dn @ ?t @ item_toks (?q + 1) its)" by (auto simp: inside_above [OF Cons.prems(4)])
  moreover have "jsmn_loop js m (jst p k dn rest) = jsmn_loop js m (jst (p + 1) (int c) dn rest)"
    by (rule comma_read [OF d Cons.prems(4,5)])
  ultimately show ?case using it(1,2) by (intro conjI exI [of _ k2]) (simp_all add: ac_simps)
qed

lemma items_read:
  assumes its: "list_all (item_read js c) its" and d: "drop p js = listed (map fst its) @ post" and "stops post" and "inside c dn"
    and "length (item_toks p its) \<le> length rest"
  shows "all_closed (item_toks p its) \<and>
   (\<exists>k'. jsmn_loop js m (jst p (int c) dn rest) = jsmn_loop js (m + length (item_toks p its))
       (jst (p + length (listed (map fst its))) k' (bump (length its) (int c) dn @ item_toks p its) (drop (length (item_toks p its)) rest)))"
proof (cases its)
  case Nil
  have "bump 0 (int c) dn = dn" by (simp add: bump_def)
  with Nil show ?thesis by auto
next
  case (Cons it its')
  let ?more = "concat (map (Cons 44) (map fst its'))" and ?q = "p + length (fst it)" and ?t = "snd it p"
  have d1: "drop p js = fst it @ ?more @ post" using d Cons by simp
  then have d2: "drop ?q js = ?more @ post" by (rule drop_next)
  have stop: "stops (?more @ post)" using assms(3) by (cases its') (simp_all add: stops_def ends_primitive_def)
  have len: "length ?t \<le> length rest" "length (item_toks (?q + 1) its') \<le> length (drop (length ?t) rest)" using assms(5) Cons by simp_all
  have one: "item_read js c it" using its Cons by simp
  obtain k1 where it: "all_closed ?t" "jsmn_loop js m (jst p (int c) dn rest) =
      jsmn_loop js (m + length ?t) (jst ?q k1 (bump 1 (int c) dn @ ?t) (drop (length ?t) rest))" "leads c k1 (bump 1 (int c) dn @ ?t)"
    using one d1 stop assms(4) len(1) unfolding item_read_def by blast
  have i: "inside c (bump 1 (int c) dn @ ?t)" by (rule inside_grows [OF assms(4) it(1)])
  from more_items_read [OF _ d2 assms(3) i it(3) len(2), of "m + length ?t"] its Cons obtain k2 where
    "all_closed (item_toks (?q + 1) its')"
    "jsmn_loop js (m + length ?t) (jst ?q k1 (bump 1 (int c) dn @ ?t) (drop (length ?t) rest)) =
      jsmn_loop js (m + length ?t + length (item_toks (?q + 1) its')) (jst (?q + length ?more) k2
        (bump (length its' + 1) (int c) dn @ ?t @ item_toks (?q + 1) its') (drop (length (item_toks (?q + 1) its')) (drop (length ?t) rest)))"
    by (auto simp: inside_above [OF assms(4)])
  with it(1,2) Cons show ?thesis by (intro conjI exI [of _ k2]) (simp_all add: ac_simps)
qed

section \<open>Containers\<close>

definition open_tok :: "jsmntype \<Rightarrow> nat \<Rightarrow> nat \<Rightarrow> jsmntok" where
  "open_tok t p n = \<lparr>tk_type = t, tk_start = int p, tk_end = - 1, tk_size = n\<rparr>"

lemma open_tok_simps [simp]: "tok_open (open_tok t p n)" "tk_type (open_tok t p n) = t" "\<not> tok_open (tok t a b n)" "tk_type (tok t a b n) = t"
  by (simp_all add: open_tok_def tok_def tok_open_def)

lemma open_taken:
  "above_ok k dn \<Longrightarrow> jsmn_open t (jst p k dn (r # rest)) = (None, jst p (int (length dn)) (bump 1 k dn @ [open_tok t p 0]) rest)"
  by (cases r) (auto simp: jsmn_open_def jsmn_alloc_token_def count_super_def tok_update_def jst_def bump_def above_ok_def open_tok_def
      list_update_append nth_append)

lemma close_taken:
  assumes "all_closed xs" and "dn2 = dn @ open_tok t p n # xs"
  shows "jsmn_close t (jst q k dn2 rest) = (None, jst q (super_of (last_tok tok_open dn (length dn))) (dn @ tok t p (q + 1) n # xs) rest)"
proof -
  have "last_tok tok_open ((dn @ [open_tok t p n]) @ xs) (length (dn @ [open_tok t p n]) + length xs) = Some (length dn)"
    using last_tok_none [OF assms(1), of "dn @ [open_tok t p n]"] by simp
  then have "last_tok tok_open (dn2 @ rest) (length dn2) = Some (length dn)"
    using last_tok_append [of tok_open dn2 rest] assms(2) by simp
  moreover have "(dn2 @ rest) ! length dn = open_tok t p n" using assms(2) by (simp add: nth_append)
  moreover have "last_tok tok_open (dn2 @ rest) (length dn) = last_tok tok_open dn (length dn)"
    using last_tok_append [of tok_open dn "open_tok t p n # xs @ rest"] assms(2) by simp
  ultimately show ?thesis using assms(2)
    by (simp add: jsmn_close_def jst_def tok_update_def Let_def nth_append list_update_append open_tok_def tok_def)
qed

definition bracket :: "jsmntype \<Rightarrow> u8 \<Rightarrow> u8 \<Rightarrow> bool" where
  "bracket t a b \<longleftrightarrow> (t, a, b) \<in> {(JSMN_OBJECT, 123, 125), (JSMN_ARRAY, 91, 93)}"

lemma close_step:
  assumes b: "bracket t a z" and T: "all_closed xs" and d: "drop q js = z # post"
  shows "jsmn_loop js m (jst q k (dn @ open_tok t p n # xs) rest) =
    jsmn_loop js m (jst (q + 1) (super_of (last_tok tok_open dn (length dn))) (dn @ tok t p (q + 1) n # xs) rest)"
proof -
  have "jsmn_step js (jst q k (dn @ open_tok t p n # xs) rest) =
      (case jsmn_close t (jst q k (dn @ open_tok t p n # xs) rest) of (e, s1) \<Rightarrow> Some (e, False, s1))"
    using b drop_here [OF d] by (auto simp: jsmn_step_def Let_def bracket_def)
  moreover have "z \<noteq> 0" using b by (auto simp: bracket_def)
  ultimately show ?thesis using loop_step [OF d] close_taken [OF T refl, of t q k dn p n rest] by simp
qed

lemma container_read:
  assumes b: "bracket t a z" and d: "drop p js = a # listed (map fst its) @ z # post" and k: "above_ok k dn"
    and its: "list_all (item_read js (length dn)) its" and n: "length (item_toks (p + 1) its) \<le> length rest"
  shows "all_closed (item_toks (p + 1) its) \<and> jsmn_loop js m (jst p k dn (r # rest)) = jsmn_loop js (m + 1 + length (item_toks (p + 1) its))
    (jst (p + length (listed (map fst its)) + 2) (super_of (last_tok tok_open dn (length dn)))
      (bump 1 k dn @ tok t p (p + length (listed (map fst its)) + 2) (length its) # item_toks (p + 1) its)
      (drop (length (item_toks (p + 1) its)) rest))"
proof -
  let ?dn = "bump 1 k dn @ [open_tok t p 0]" and ?T = "item_toks (p + 1) its" and ?q = "p + 1 + length (listed (map fst its))"
  have d1: "drop (p + 1) js = listed (map fst its) @ z # post" by (rule drop_one [OF d])
  then have d2: "drop ?q js = z # post" by (rule drop_next)
  have nz: "a \<noteq> 0" "z \<noteq> 0" "stops (z # post)" using b by (auto simp: bracket_def stops_def ends_primitive_def)
  have "jsmn_loop js m (jst p k dn (r # rest)) = jsmn_loop js (m + 1) (jst (p + 1) (int (length dn)) ?dn rest)"
    using loop_step [OF d nz(1)] drop_here [OF d] open_taken [OF k] b
    by (auto simp: jsmn_step_def jst_def Let_def bracket_def)
  moreover have "inside (length dn) ?dn"
  proof -
    have "tok_open (?dn ! length dn)" "tok_container (?dn ! length dn)"
      using b by (auto simp: nth_append tok_container_def bracket_def)
    then show ?thesis by (simp add: inside_def)
  qed
  from items_read [OF its d1 nz(3) this n, of "m + 1"] obtain k' where
    T: "all_closed ?T" and it: "jsmn_loop js (m + 1) (jst (p + 1) (int (length dn)) ?dn rest) = jsmn_loop js (m + 1 + length ?T)
      (jst ?q k' (bump (length its) (int (length dn)) ?dn @ ?T) (drop (length ?T) rest))" by blast
  have dn2: "bump (length its) (int (length dn)) ?dn @ ?T = bump 1 k dn @ open_tok t p (length its) # ?T"
    using bump_here [of "length its" "bump 1 k dn" "open_tok t p 0"] by (simp add: open_tok_def)
  moreover have "jsmn_loop js (m + 1 + length ?T) (jst ?q k' (bump 1 k dn @ open_tok t p (length its) # ?T) (drop (length ?T) rest)) =
    jsmn_loop js (m + 1 + length ?T) (jst (?q + 1) (super_of (last_tok tok_open dn (length dn)))
      (bump 1 k dn @ tok t p (?q + 1) (length its) # ?T) (drop (length ?T) rest))"
    using close_step [OF b T d2, where dn = "bump 1 k dn"] by (simp add: last_tok_bump)
  ultimately show ?thesis using T it dn2 by simp
qed

section \<open>Values\<close>

text \<open>After a container the token above is the container it is in; after anything else it is as before.\<close>

definition reads :: "u8 list \<Rightarrow> bool \<Rightarrow> u8 list \<times> (nat \<Rightarrow> jsmntok list) \<Rightarrow> bool" where
  "reads js b it \<longleftrightarrow> (\<forall>p post k dn rest m. drop p js = fst it @ post \<longrightarrow> stops post \<longrightarrow> above_ok k dn \<longrightarrow>
     length (snd it p) \<le> length rest \<longrightarrow> all_closed (snd it p) \<and>
     jsmn_loop js m (jst p k dn rest) = jsmn_loop js (m + length (snd it p)) (jst (p + length (fst it))
       (if b then super_of (last_tok tok_open dn (length dn)) else k) (bump 1 k dn @ snd it p) (drop (length (snd it p)) rest)))"

lemma readsD:
  assumes "reads js b (x, T)" and "drop p js = x @ post" and "stops post" and "above_ok k dn" and "length (T p) \<le> length rest"
  shows "all_closed (T p)" and "jsmn_loop js m (jst p k dn rest) = jsmn_loop js (m + length (T p)) (jst (p + length x)
    (if b then super_of (last_tok tok_open dn (length dn)) else k) (bump 1 k dn @ T p) (drop (length (T p)) rest))"
  using assms unfolding reads_def fst_conv snd_conv by blast+

lemma primitive_reads: "prim_ok b \<Longrightarrow> reads js False (b, \<lambda>p. [tok JSMN_PRIMITIVE p (p + length b) 0])"
  unfolding reads_def fst_conv snd_conv
proof (intro allI impI)
  fix p post k m and dn rest :: "jsmntok list"
  assume a: "prim_ok b" "drop p js = b @ post" "stops post" "above_ok k dn" "length [tok JSMN_PRIMITIVE p (p + length b) 0] \<le> length rest"
  then obtain r rs where "rest = r # rs" by (cases rest) auto
  with primitive_read [OF a(2,1,3,4)] show "all_closed [tok JSMN_PRIMITIVE p (p + length b) 0] \<and> jsmn_loop js m (jst p k dn rest) =
    jsmn_loop js (m + length [tok JSMN_PRIMITIVE p (p + length b) 0]) (jst (p + length b)
      (if False then super_of (last_tok tok_open dn (length dn)) else k) (bump 1 k dn @ [tok JSMN_PRIMITIVE p (p + length b) 0])
      (drop (length [tok JSMN_PRIMITIVE p (p + length b) 0]) rest))" by simp
qed

lemma string_reads: "str_ok s \<Longrightarrow> reads js False (quoted s, \<lambda>p. [tok JSMN_STRING (p + 1) (p + 1 + length s) 0])"
  unfolding reads_def fst_conv snd_conv
proof (intro allI impI)
  fix p post k m and dn rest :: "jsmntok list"
  let ?T = "[tok JSMN_STRING (p + 1) (p + 1 + length s) 0]"
  assume a: "str_ok s" "drop p js = quoted s @ post" "stops post" "above_ok k dn" "length ?T \<le> length rest"
  then obtain r rs where "rest = r # rs" by (cases rest) auto
  with string_read [OF a(2,1,4)] show "all_closed ?T \<and> jsmn_loop js m (jst p k dn rest) =
    jsmn_loop js (m + length ?T) (jst (p + length (quoted s))
      (if False then super_of (last_tok tok_open dn (length dn)) else k) (bump 1 k dn @ ?T) (drop (length ?T) rest))" by simp
qed

lemma container_reads:
  assumes b: "bracket t a z" and its: "\<And>c. list_all (item_read js c) its"
  shows "reads js True (a # listed (map fst its) @ [z],
    \<lambda>p. tok t p (p + length (listed (map fst its)) + 2) (length its) # item_toks (p + 1) its)"
  unfolding reads_def fst_conv snd_conv
proof (intro allI impI)
  fix p post k m and dn rest :: "jsmntok list"
  let ?T = "tok t p (p + length (listed (map fst its)) + 2) (length its) # item_toks (p + 1) its"
  assume a: "drop p js = (a # listed (map fst its) @ [z]) @ post" "stops post" "above_ok k dn" "length ?T \<le> length rest"
  obtain r rs where r: "rest = r # rs" using a(4) by (cases rest) auto
  have d: "drop p js = a # listed (map fst its) @ z # post" using a(1) by simp
  have "length (item_toks (p + 1) its) \<le> length rs" using a(4) r by simp
  with container_read [OF b d a(3) its this, of m r] r show "all_closed ?T \<and> jsmn_loop js m (jst p k dn rest) =
    jsmn_loop js (m + length ?T) (jst (p + length (a # listed (map fst its) @ [z]))
      (if True then super_of (last_tok tok_open dn (length dn)) else k) (bump 1 k dn @ ?T) (drop (length ?T) rest))"
    by simp
qed

definition arr_item :: "json \<Rightarrow> u8 list \<times> (nat \<Rightarrow> jsmntok list)" where
  "arr_item v = (json_text v, json_toks v)"

definition obj_item :: "u8 list \<times> json \<Rightarrow> u8 list \<times> (nat \<Rightarrow> jsmntok list)" where
  "obj_item kv = (quoted (fst kv) @ 58 # json_text (snd kv),
     \<lambda>q. tok JSMN_STRING (q + 1) (q + 1 + length (fst kv)) 1 # json_toks (snd kv) (q + length (fst kv) + 3))"

lemma reads_above: "inside c dn \<Longrightarrow> (if b then super_of (last_tok tok_open dn (length dn)) else int c) = int c"
  by (simp add: inside_def super_of_def)

lemma arr_item_read: "reads js b (x, T) \<Longrightarrow> item_read js c (x, T)"
  unfolding item_read_def fst_conv snd_conv
proof (intro allI impI)
  fix p post m and dn rest :: "jsmntok list"
  assume r: "reads js b (x, T)" and d: "drop p js = x @ post" "stops post" and i: "inside c dn" and n: "length (T p) \<le> length rest"
  have "leads c (int c) (bump 1 (int c) dn @ T p)" by (simp add: leads_def)
  with readsD [OF r d inside_above [OF i] n] show "all_closed (T p) \<and> (\<exists>k. jsmn_loop js m (jst p (int c) dn rest) =
      jsmn_loop js (m + length (T p)) (jst (p + length x) k (bump 1 (int c) dn @ T p) (drop (length (T p)) rest)) \<and>
      leads c k (bump 1 (int c) dn @ T p))"
    unfolding reads_above [OF i] by blast
qed

lemma colon_read:
  assumes d: "drop p js = 58 # post"
  shows "jsmn_loop js m (jst p k (dn @ [t]) rest) = jsmn_loop js m (jst (p + 1) (int (length dn)) (dn @ [t]) rest)"
proof -
  have "jsmn_step js (jst p k (dn @ [t]) rest) = Some (None, False, jst p (int (length dn)) (dn @ [t]) rest)"
    using drop_here [OF d] by (simp add: jsmn_step_def Let_def is_blank_def) (simp add: jst_def)
  with loop_step [OF d] show ?thesis by simp
qed

lemma obj_item_read: "str_ok s \<Longrightarrow> reads js b (json_text v, json_toks v) \<Longrightarrow> item_read js c (obj_item (s, v))"
  unfolding item_read_def obj_item_def fst_conv snd_conv
proof (intro allI impI)
  fix p post m and dn rest :: "jsmntok list"
  let ?r = "p + length s + 3" and ?key = "tok JSMN_STRING (p + 1) (p + 1 + length s)"
  let ?T = "json_toks v ?r" and ?d = "bump 1 (int c) dn"
  assume s: "str_ok s" and v: "reads js b (json_text v, json_toks v)" and d: "drop p js = (quoted s @ 58 # json_text v) @ post"
    and stop: "stops post" and i: "inside c dn" and n: "length (?key 1 # ?T) \<le> length rest"
  obtain r rs where rest: "rest = r # rs" using n by (cases rest) auto
  have len: "length ?T \<le> length rs" using n rest by simp
  have d1: "drop p js = quoted s @ 58 # json_text v @ post" using d by simp
  have d2: "drop (p + length s + 2) js = 58 # json_text v @ post"
    using drop_next [of p js "quoted s" "58 # json_text v @ post"] d1 by (simp add: ac_simps)
  have d3: "drop ?r js = json_text v @ post" using drop_one [OF d2] by (simp add: eval_nat_numeral)
  have above: "above_ok (int (length ?d)) (?d @ [?key 0])" by (simp add: above_ok_def)
  define k where "k = (if b then super_of (last_tok tok_open (?d @ [?key 0]) (length (?d @ [?key 0]))) else int (length ?d))"
  have "inside c (?d @ [?key 0])" using inside_grows [OF i, of "[?key 0]" 1 "int c"] by simp
  then have k: "k \<in> {int c, int (length ?d)}" by (simp add: k_def inside_def super_of_def)
  have "jsmn_loop js m (jst p (int c) dn rest) = jsmn_loop js (m + 1) (jst (p + length s + 2) (int c) (?d @ [?key 0]) rs)"
    using string_read [OF d1 s inside_above [OF i]] rest by simp
  also have "\<dots> = jsmn_loop js (m + 1) (jst ?r (int (length ?d)) (?d @ [?key 0]) rs)"
    using colon_read [OF d2] by (simp add: eval_nat_numeral)
  also have "\<dots> = jsmn_loop js (m + 1 + length ?T) (jst (?r + length (json_text v)) k (?d @ [?key 1] @ ?T) (drop (length ?T) rs))"
    using readsD(2) [OF v d3 stop above len] bump_here [of 1 ?d "?key 0"] by (simp add: tok_def k_def)
  finally have "jsmn_loop js m (jst p (int c) dn rest) = \<dots>" .
  moreover have "leads c k (?d @ ?key 1 # ?T)" using k by (auto simp: leads_def tok_container_def nth_append)
  ultimately show "all_closed (?key 1 # ?T) \<and> (\<exists>k. jsmn_loop js m (jst p (int c) dn rest) =
      jsmn_loop js (m + length (?key 1 # ?T)) (jst (p + length (quoted s @ 58 # json_text v)) k (?d @ ?key 1 # ?T)
        (drop (length (?key 1 # ?T)) rest)) \<and> leads c k (?d @ ?key 1 # ?T))"
    using rest readsD(1) [OF v d3 stop above len] by (intro conjI exI [of _ k]) (simp_all add: ac_simps eval_nat_numeral)
qed

lemma value_reads: "json_ok v \<Longrightarrow> \<exists>b. reads js b (json_text v, json_toks v)"
proof (induction v)
  case (JPrim b)
  then show ?case using primitive_reads [of b js] by auto
next
  case (JStr s)
  then show ?case using string_reads [of s js] by auto
next
  case (JArr vs)
  let ?its = "map (\<lambda>v. (json_text v, json_toks v)) vs"
  have "list_all (item_read js c) ?its" for c
    using JArr by (fastforce simp: list_all_iff intro: arr_item_read)
  from container_reads [OF _ this, of JSMN_ARRAY 91 93] show ?case
    by (auto simp: bracket_def item_toks_def comp_def)
next
  case (JObj kvs)
  have "list_all (item_read js c) (map obj_item kvs)" for c
    using JObj by (fastforce simp: list_all_iff intro: obj_item_read)
  from container_reads [OF _ this, of JSMN_OBJECT 123 125] show ?case
    by (auto simp: bracket_def item_toks_def comp_def obj_item_def map_prod_def case_prod_unfold ac_simps eval_nat_numeral)
qed

section \<open>The whole text\<close>

lemma jsmn_reads_all:
  assumes "json_ok v" and "length (json_toks v 0) \<le> length ts"
  shows "\<exists>s. jsmn_parse (json_text v) (jsmn_init (Some ts)) = Some (Inr (length (json_toks v 0)), s) \<and>
    toks s = Some (json_toks v 0 @ drop (length (json_toks v 0)) ts) \<and> jpos s = length (json_text v)"
proof -
  let ?js = "json_text v" and ?T = "json_toks v 0"
  obtain b where b: "reads ?js b (json_text v, json_toks v)" using value_reads [OF assms(1)] by blast
  have s: "jsmn_init (Some ts) = jst 0 (- 1) [] ts" by (simp add: jsmn_init_def jst_def)
  note r = readsD [OF b, where p = 0 and post = "[]" and k = "- 1" and dn = "[]" and rest = ts]
  have "jsmn_loop ?js 0 (jsmn_init (Some ts)) = jsmn_loop ?js (length ?T) (jst (length ?js) (- 1) ?T (drop (length ?T) ts))"
    using r(2) [of 0] assms(2) unfolding s by (simp add: stops_def above_ok_def super_of_def bump_def)
  then have l: "jsmn_loop ?js 0 (jsmn_init (Some ts)) = Some (Inr (length ?T), jst (length ?js) (- 1) ?T (drop (length ?T) ts))"
    by (subst (asm) (2) jsmn_loop.simps) simp
  have "all_closed ?T" using r(1) assms(2) by (simp add: stops_def above_ok_def)
  then have "last_tok tok_open (?T @ drop (length ?T) ts) (length ?T) = None"
    using last_tok_none [of tok_open ?T "[]"] by simp
  then show ?thesis using l by (simp add: jsmn_parse_def jst_def)
qed

definition nested :: json where
  "nested = JObj [([97], JArr [JPrim [49], JStr [92, 34]]), ([98], JObj [])]"

lemma nested_ok: "json_ok nested"
  by (simp add: nested_def prim_ok_def ends_primitive_def is_blank_def plain_escapes_def)

text \<open>
  C5. Parsing the text of any JSON value with room for its tokens returns their number and stores exactly
  the value's tokens, in order, with their types, positions and sizes; the tokens behind stay as they were.
\<close>

theorem jsmn_roundtrip:
  assumes "json_ok v" and "length (json_toks v 0) \<le> length ts"
  shows "\<exists>s. jsmn_parse (json_text v) (jsmn_init (Some ts)) = Some (Inr (length (json_toks v 0)), s) \<and>
    toks s = Some (json_toks v 0 @ drop (length (json_toks v 0)) ts) \<and> jpos s = length (json_text v)"
  by (rule jsmn_reads_all [OF assms])

theorem jsmn_roundtrip_witness:
  "\<exists>s. jsmn_parse (json_text nested) (jsmn_init (Some (replicate 8 (tok JSMN_STRING 0 0 0)))) = Some (Inr (length (json_toks nested 0)), s) \<and>
    toks s = Some (json_toks nested 0 @ drop (length (json_toks nested 0)) (replicate 8 (tok JSMN_STRING 0 0 0))) \<and>
    jpos s = length (json_text nested)"
  using jsmn_roundtrip [OF nested_ok, of "replicate 8 (tok JSMN_STRING 0 0 0)"] by (simp add: nested_def)

end
