(* ===== verification/Jsmn_Laws.thy ===== *)
theory Jsmn_Laws
  imports Jsmn_Trees
begin

text \<open>
  What holds of the tokenizer on any text: counting without an array agrees with every run that
  succeeds; the tokens it stores lie in the text and in the array; and what it does with a comma
  before the first value.
\<close>

section \<open>Counting\<close>

lemma step_counts:
  assumes "jsmn_step js s = Some (None, b, s1)" and "jpos u = jpos s" and "toks u = None" and "toknext u = 0"
  shows "\<exists>u1. jsmn_step js u = Some (None, b, u1) \<and> jpos u1 = jpos s1 \<and> toks u1 = None \<and> toknext u1 = 0"
  using assms
  by (auto simp: jsmn_step_def jsmn_open_def jsmn_close_def jsmn_comma_def jsmn_value_def jsmn_alloc_token_def Let_def
      jsmn_parse_string_def jsmn_parse_primitive_def jsmn_token_def
      split: if_splits option.splits prod.splits jsmn_string.splits)

lemma loop_counts:
  "jsmn_loop js n s = Some (Inr m, s') \<Longrightarrow> jpos u = jpos s \<Longrightarrow> toks u = None \<Longrightarrow> toknext u = 0 \<Longrightarrow>
   \<exists>u'. jsmn_loop js n u = Some (Inr m, u') \<and> toks u' = None \<and> toknext u' = 0"
proof (induction js n s arbitrary: u rule: jsmn_loop.induct)
  case (1 js n s)
  show ?case
  proof (cases "jpos s < length js \<and> js ! jpos s \<noteq> 0")
    case True
    with 1(2) obtain b s1 where s1: "jsmn_step js s = Some (None, b, s1)"
      "jsmn_loop js (if b then n + 1 else n) (s1\<lparr>jpos := jpos s1 + 1\<rparr>) = Some (Inr m, s')"
      by (subst (asm) jsmn_loop.simps) (auto split: option.splits prod.splits)
    from step_counts [OF s1(1) 1(3-5)] obtain u1 where
      u1: "jsmn_step js u = Some (None, b, u1)" "jpos u1 = jpos s1" "toks u1 = None" "toknext u1 = 0" by blast
    have "jsmn_loop js n u = jsmn_loop js (if b then n + 1 else n) (u1\<lparr>jpos := jpos u1 + 1\<rparr>)"
      using True 1(3) u1(1) by (subst jsmn_loop.simps) simp
    with 1(1) [OF True s1(1) refl refl refl s1(2), of "u1\<lparr>jpos := jpos u1 + 1\<rparr>"] u1 show ?thesis by simp
  next
    case False
    with 1(2-5) show ?thesis by (subst jsmn_loop.simps, subst (asm) jsmn_loop.simps) auto
  qed
qed

text \<open>
  C25. Counting agrees with parsing: if a run with some array of tokens succeeds and returns \<open>n\<close>, a run with no array
  (the dry run that tells how many tokens to allocate) on the same text returns the same \<open>n\<close>.
\<close>

theorem jsmn_counts:
  assumes "jsmn_parse js (jsmn_init (Some ts)) = Some (Inr n, s)"
  shows "map_option fst (jsmn_parse js (jsmn_init None)) = Some (Inr n)"
proof -
  have "jsmn_loop js 0 (jsmn_init (Some ts)) = Some (Inr n, s)"
    using assms by (auto simp: jsmn_parse_def split: option.splits sum.splits prod.splits)
  from loop_counts [OF this, of "jsmn_init None"] obtain u where
    "jsmn_loop js 0 (jsmn_init None) = Some (Inr n, u)" "toks u = None" "toknext u = 0" by (auto simp: jsmn_init_def)
  then show ?thesis by (simp add: jsmn_parse_def)
qed

theorem jsmn_counts_witness:
  "map_option fst (jsmn_parse (json_text nested) (jsmn_init None)) = Some (Inr 7)"
proof -
  from jsmn_reads_all [OF nested_ok, of "replicate 8 (tok JSMN_STRING 0 0 0)"] obtain s where
    "jsmn_parse (json_text nested) (jsmn_init (Some (replicate 8 (tok JSMN_STRING 0 0 0)))) = Some (Inr 7, s)"
    by (auto simp: nested_def)
  then show ?thesis by (rule jsmn_counts)
qed

section \<open>Where tokens are\<close>

text \<open>At a position: the tokens so far lie before it, the rest of the array is as it was.\<close>

definition tok_in :: "nat \<Rightarrow> jsmntok \<Rightarrow> bool" where
  "tok_in p t \<longleftrightarrow> 0 \<le> tk_start t \<and> tk_start t \<le> int p \<and> (tk_end t = - 1 \<or> tk_start t \<le> tk_end t \<and> tk_end t \<le> int p)"

definition toks_in :: "nat \<Rightarrow> jsmntok list \<Rightarrow> jsmn_parser \<Rightarrow> bool" where
  "toks_in p ts s \<longleftrightarrow> (\<exists>xs k. s = jst (jpos s) k xs (drop (length xs) ts) \<and> length xs \<le> length ts \<and> above_ok k xs \<and> list_all (tok_in p) xs)"

lemma tok_in_size [simp]: "tok_in p (t\<lparr>tk_size := n\<rparr>) = tok_in p t"
  by (simp add: tok_in_def)

lemma tok_in_mono: "tok_in p t \<Longrightarrow> p \<le> q \<Longrightarrow> tok_in q t"
  by (auto simp: tok_in_def)

lemma toks_in_mono: "toks_in p ts s \<Longrightarrow> p \<le> q \<Longrightarrow> toks_in q ts s"
  unfolding toks_in_def by (fastforce simp: list_all_iff intro: tok_in_mono)

lemma toks_in_pos [simp]: "toks_in p ts (s\<lparr>jpos := q\<rparr>) = toks_in p ts s"
proof -
  have "s\<lparr>jpos := q\<rparr> = jst q k xs ys \<longleftrightarrow> s = jst (jpos s) k xs ys" for k xs ys
    by (cases s) (auto simp: jst_def)
  then show ?thesis by (simp add: toks_in_def)
qed

lemma bump_in: "list_all (tok_in p) xs \<Longrightarrow> above_ok k xs \<Longrightarrow> list_all (tok_in p) (bump j k xs)"
  by (auto simp: bump_def above_ok_def list_all_length nth_list_update)

lemma toks_in_count: "toks_in p ts s \<Longrightarrow> toks_in p ts (count_super s)"
proof -
  assume "toks_in p ts s"
  then obtain xs k where s: "s = jst (jpos s) k xs (drop (length xs) ts)" and xs: "length xs \<le> length ts" "above_ok k xs" "list_all (tok_in p) xs"
    unfolding toks_in_def by blast
  have "count_super s = jst (jpos s) k (bump 1 k xs) (drop (length (bump 1 k xs)) ts)"
    using count_taken [OF xs(2), of "jpos s" "drop (length xs) ts"] s by simp
  then show ?thesis using xs bump_in [OF xs(3,2), of 1] unfolding toks_in_def
    by (intro exI [of _ "bump 1 k xs"] exI [of _ k]) (simp add: above_ok_def)
qed

lemma drop_cons_next: "drop n ts = r # rest \<Longrightarrow> n < length ts \<and> rest = drop (n + 1) ts"
  using drop_one [of n ts r rest] by (cases "n < length ts") auto

lemma toks_in_token:
  assumes s: "toks_in p ts s" and t: "jsmn_token t a b q s = (e, s')" and ab: "a \<le> b" "b \<le> p"
  shows "toks_in p ts s'"
proof -
  obtain xs k where x: "s = jst (jpos s) k xs (drop (length xs) ts)" "length xs \<le> length ts" "above_ok k xs" "list_all (tok_in p) xs"
    using s unfolding toks_in_def by blast
  show ?thesis
  proof (cases "drop (length xs) ts")
    case Nil
    with x t have "s' = s"
      by (cases s) (auto simp: jsmn_token_def jsmn_alloc_token_def jst_def)
    with s show ?thesis by simp
  next
    case (Cons r rest)
    note n = drop_cons_next [OF Cons]
    have "s' = jst q k (xs @ [tok t a b 0]) rest" using t token_taken [of t a b q "jpos s" k xs r rest] x(1) Cons by simp
    then show ?thesis using x n ab unfolding toks_in_def
      by (intro exI [of _ "xs @ [tok t a b 0]"] exI [of _ k]) (auto simp: above_ok_def tok_in_def tok_def)
  qed
qed

lemma toks_in_open:
  assumes s: "toks_in (jpos s) ts s" and t: "jsmn_open t s = (e, s')"
  shows "toks_in (jpos s) ts s' \<and> jpos s' = jpos s"
proof -
  obtain xs k where x: "s = jst (jpos s) k xs (drop (length xs) ts)" "length xs \<le> length ts" "above_ok k xs" "list_all (tok_in (jpos s)) xs"
    using s unfolding toks_in_def by blast
  show ?thesis
  proof (cases "drop (length xs) ts")
    case Nil
    with x t have "s' = s"
      by (cases s) (auto simp: jsmn_open_def jsmn_alloc_token_def jst_def)
    with s show ?thesis by simp
  next
    case (Cons r rest)
    note n = drop_cons_next [OF Cons]
    have s': "s' = jst (jpos s) (int (length xs)) (bump 1 k xs @ [open_tok t (jpos s) 0]) rest"
      using t open_taken [OF x(3), of t "jpos s" r rest] x(1) Cons by simp
    moreover have "toks_in (jpos s) ts (jst (jpos s) (int (length xs)) (bump 1 k xs @ [open_tok t (jpos s) 0]) rest)"
      using n bump_in [OF x(4,3), of 1] unfolding toks_in_def
      by (intro exI [of _ "bump 1 k xs @ [open_tok t (jpos s) 0]"] exI [of _ "int (length xs)"]) (auto simp: above_ok_def tok_in_def open_tok_def)
    ultimately show ?thesis by simp
  qed
qed

lemma last_tok_some: "last_tok P ts n = Some i \<Longrightarrow> i < n \<and> P (ts ! i)"
  by (induction n) (auto split: if_splits)

lemma last_tok_free: "last_tok P ts n = None \<Longrightarrow> i < n \<Longrightarrow> \<not> P (ts ! i)"
  by (induction n) (auto split: if_splits simp: less_Suc_eq)

lemma above_last: "n \<le> length xs \<Longrightarrow> above_ok (super_of (last_tok P ts n)) xs"
  using last_tok_some [of P ts n] by (cases "last_tok P ts n") (auto simp: above_ok_def super_of_def)

lemma toks_in_close:
  assumes s: "toks_in (jpos s) ts s" and t: "jsmn_close t s = (e, s')"
  shows "toks_in (jpos s + 1) ts s' \<and> jpos s' = jpos s"
proof (cases "s' = s")
  case True
  with toks_in_mono [OF s] show ?thesis by simp
next
  case False
  obtain xs k where x: "s = jst (jpos s) k xs (drop (length xs) ts)" "length xs \<le> length ts" "above_ok k xs" "list_all (tok_in (jpos s)) xs"
    using s unfolding toks_in_def by blast
  let ?r = "drop (length xs) ts"
  from x(1) have f: "toks s = Some (xs @ ?r)" "toknext s = length xs" by (metis jsmn_parser.simps(3,5,2) jst_def jsmn_parser.select_convs)+
  obtain i where i: "last_tok tok_open (xs @ ?r) (length xs) = Some i"
    and s': "s' = (tok_update i (\<lambda>tok. tok\<lparr>tk_end := int (jpos s) + 1\<rparr>) s)\<lparr>toksuper := super_of (last_tok tok_open (xs @ ?r) i)\<rparr>"
    using t False by (auto simp: jsmn_close_def f Let_def split: option.splits if_splits)
  from last_tok_some [OF i] have "i < length xs" by simp
  define ys where "ys = xs[i := (xs ! i)\<lparr>tk_end := int (jpos s) + 1\<rparr>]"
  have "s' = jst (jpos s) (super_of (last_tok tok_open (xs @ ?r) i)) ys (drop (length ys) ts)"
    unfolding s' by (subst x(1)) (simp add: jst_def tok_update_def ys_def list_update_append nth_append \<open>i < length xs\<close>)
  moreover have "list_all (tok_in (jpos s + 1)) ys"
    using x(4) \<open>i < length xs\<close> by (fastforce simp: ys_def list_all_length nth_list_update tok_in_def)
  moreover have "above_ok (super_of (last_tok tok_open (xs @ ?r) i)) ys"
    using above_last [of i ys] \<open>i < length xs\<close> by (simp add: ys_def)
  ultimately show ?thesis using x(2) unfolding toks_in_def
    by (intro conjI exI [of _ ys] exI [of _ "super_of (last_tok tok_open (xs @ ?r) i)"]) (simp_all add: ys_def)
qed

lemma toks_in_super:
  assumes "toks_in p ts s" and "- 1 \<le> k" and "k < int (toknext s)"
  shows "toks_in p ts (s\<lparr>toksuper := k\<rparr>)"
proof -
  obtain xs k' where x: "s = jst (jpos s) k' xs (drop (length xs) ts)" "length xs \<le> length ts" "list_all (tok_in p) xs"
    using assms(1) unfolding toks_in_def by blast
  then have "s\<lparr>toksuper := k\<rparr> = jst (jpos s) k xs (drop (length xs) ts)" "toknext s = length xs" by (cases s; simp add: jst_def)+
  with x assms(2,3) show ?thesis unfolding toks_in_def
    by (intro exI [of _ xs] exI [of _ k]) (auto simp: above_ok_def)
qed

lemma toks_in_comma: "toks_in p ts s \<Longrightarrow> jsmn_comma s = Some s' \<Longrightarrow> toks_in p ts s' \<and> jpos s' = jpos s"
  using toks_in_super [of p ts s] last_tok_some [of "\<lambda>t. tok_container t \<and> tok_open t" _ "toknext s"]
  by (auto simp: jsmn_comma_def split: option.splits if_splits)

lemma toks_in_value:
  assumes "toks_in p ts s1" and "jsmn_value (e, s1) = (e', b, s')"
  shows "toks_in p ts s' \<and> jpos s' = jpos s1"
  using assms toks_in_count [of p ts s1] by (auto simp: jsmn_value_def split: option.splits if_splits)

lemma toks_in_string:
  assumes s: "toks_in (jpos s) ts s" and n: "jpos s < length js" and r: "jsmn_parse_string js s = (e, s1)"
  shows "\<exists>q. toks_in q ts s1 \<and> q \<le> length js \<and> (e = None \<longrightarrow> q = jpos s1 + 1)"
proof (cases "string_end (drop (jpos s + 1) js) (jpos s + 1)")
  case (Closed q)
  then have q: "jpos s + 1 \<le> q" "q < length js" using string_end_le [OF Closed] n by auto
  from r Closed have t: "jsmn_token JSMN_STRING (jpos s + 1) q q s = (e, s1)" by (simp add: jsmn_parse_string_def)
  have "toks_in (q + 1) ts s1" by (rule toks_in_token [OF toks_in_mono [OF s] t]) (use q in simp_all)
  moreover have "e = None \<longrightarrow> jpos s1 = q" using t jsmn_token_pos by auto
  ultimately show ?thesis using q by (intro exI [of _ "q + 1"]) simp
qed (use s n r in \<open>auto simp: jsmn_parse_string_def intro!: exI [of _ "jpos s"]\<close>)

lemma toks_in_primitive:
  assumes s: "toks_in (jpos s) ts s" and n: "jpos s < length js" and c: "js ! jpos s \<noteq> 0" "\<not> ends_primitive (js ! jpos s)"
    and r: "jsmn_parse_primitive js s = (e, s1)"
  shows "\<exists>q. toks_in q ts s1 \<and> q \<le> length js \<and> (e = None \<longrightarrow> q = jpos s1 + 1)"
proof (cases "primitive_end (drop (jpos s) js) (jpos s)")
  case (Some q)
  have d: "drop (jpos s) js = js ! jpos s # drop (Suc (jpos s)) js" using n by (simp add: Cons_nth_drop_Suc)
  have q: "jpos s < q" "q \<le> length js"
    using primitive_end_le [OF Some] primitive_end_start [OF c Some [unfolded d]] n by simp_all
  from r Some have t: "jsmn_token JSMN_PRIMITIVE (jpos s) q (q - 1) s = (e, s1)" by (simp add: jsmn_parse_primitive_def)
  have "toks_in q ts s1" by (rule toks_in_token [OF toks_in_mono [OF s] t]) (use q in simp_all)
  moreover have "e = None \<longrightarrow> q = jpos s1 + 1" using t jsmn_token_pos q by fastforce
  ultimately show ?thesis using q by blast
qed (use s n r in \<open>auto simp: jsmn_parse_primitive_def intro!: exI [of _ "jpos s"]\<close>)

lemma toks_in_step:
  assumes s: "toks_in (jpos s) ts s" and n: "jpos s < length js" and c: "js ! jpos s \<noteq> 0" and r: "jsmn_step js s = Some (e, b, s1)"
  shows "\<exists>q. toks_in q ts s1 \<and> q \<le> length js \<and> (e = None \<longrightarrow> q = jpos s1 + 1)"
proof -
  let ?c = "js ! jpos s"
  have stay: "?thesis" if "toks_in (jpos s) ts s1" "jpos s1 = jpos s"
    using that n toks_in_mono [of "jpos s" ts s1 "jpos s + 1"] by (intro exI [of _ "jpos s + 1"]) simp
  consider (o) t where "jsmn_open t s = (e, s1)" | (c) t where "jsmn_close t s = (e, s1)"
    | (str) "(e, b, s1) = jsmn_value (jsmn_parse_string js s)" | (blank) "s1 = s"
    | (colon) "s1 = s\<lparr>toksuper := int (toknext s) - 1\<rparr>" | (comma) "jsmn_comma s = Some s1"
    | (prim) "(e, b, s1) = jsmn_value (jsmn_parse_primitive js s)" "\<not> ends_primitive ?c"
    using r by (auto simp: jsmn_step_def Let_def ends_primitive_def split: if_splits prod.splits)
  then show ?thesis
  proof cases
    case o
    from toks_in_open [OF s o] stay show ?thesis by simp
  next
    case c
    from toks_in_close [OF s c] n show ?thesis by (intro exI [of _ "jpos s + 1"]) simp
  next
    case str
    obtain e1 s2 where p: "jsmn_parse_string js s = (e1, s2)" by fastforce
    from toks_in_string [OF s n p] toks_in_value [of _ ts s2 e1 e b s1] str p show ?thesis
      by (fastforce simp: jsmn_value_def split: option.splits)
  next
    case prim
    obtain e1 s2 where p: "jsmn_parse_primitive js s = (e1, s2)" by fastforce
    from toks_in_primitive [OF s n c prim(2) p] toks_in_value [of _ ts s2 e1 e b s1] prim(1) p show ?thesis
      by (fastforce simp: jsmn_value_def split: option.splits)
  next
    case comma
    with toks_in_comma [OF s] stay show ?thesis by blast
  next
    case colon
    with toks_in_super [OF s, of "int (toknext s) - 1"] stay show ?thesis by simp
  qed (use s stay in simp)
qed

lemma toks_in_loop:
  "jsmn_loop js n s = Some (r, s') \<Longrightarrow> toks_in (jpos s) ts s \<Longrightarrow> jpos s \<le> length js \<Longrightarrow> toks_in (length js) ts s'"
proof (induction js n s rule: jsmn_loop.induct)
  case (1 js n s)
  show ?case
  proof (cases "jpos s < length js \<and> js ! jpos s \<noteq> 0")
    case True
    with 1(2) obtain e b s1 where s1: "jsmn_step js s = Some (e, b, s1)"
      by (subst (asm) jsmn_loop.simps) (auto split: option.splits prod.splits)
    from toks_in_step [OF 1(3) _ _ s1] True obtain q where
      q: "toks_in q ts s1" "q \<le> length js" "e = None \<Longrightarrow> q = jpos s1 + 1" by blast
    show ?thesis
    proof (cases e)
      case None
      with 1(2) True s1 have "jsmn_loop js (if b then n + 1 else n) (s1\<lparr>jpos := jpos s1 + 1\<rparr>) = Some (r, s')"
        by (subst (asm) jsmn_loop.simps) simp
      with 1(1) [OF True s1 refl None refl] q None show ?thesis by simp
    next
      case (Some x)
      with 1(2) True s1 have "s' = s1" by (subst (asm) jsmn_loop.simps) simp
      with toks_in_mono [OF q(1,2)] show ?thesis by simp
    qed
  next
    case False
    with 1(2) have "s' = s" by (subst (asm) jsmn_loop.simps) auto
    with toks_in_mono [OF 1(3,4)] show ?thesis by simp
  qed
qed

text \<open>
  C21. On any text, valid or not, and whether parsing succeeds or not, the tokens that were taken fit in the array, what is
  behind them is as it was, and every token lies in the text; after a success no token is open.
\<close>

theorem jsmn_tokens_bounded:
  assumes "jsmn_parse js (jsmn_init (Some ts)) = Some (r, s)"
  shows "\<exists>xs. toks s = Some (xs @ drop (length xs) ts) \<and> toknext s = length xs \<and> length xs \<le> length ts \<and>
    list_all (tok_in (length js)) xs \<and> (case r of Inl _ \<Rightarrow> True | Inr _ \<Rightarrow> list_all (\<lambda>t. 0 \<le> tk_end t) xs)"
proof -
  from assms obtain r' where l: "jsmn_loop js 0 (jsmn_init (Some ts)) = Some (r', s)"
    by (auto simp: jsmn_parse_def split: option.splits sum.splits prod.splits)
  have "jsmn_init (Some ts) = jst 0 (- 1) [] (drop 0 ts)" by (simp add: jsmn_init_def jst_def)
  then have "toks_in 0 ts (jsmn_init (Some ts))" unfolding toks_in_def
    by (intro exI [of _ "[]"] exI [of _ "- 1"]) (simp add: above_ok_def)
  with toks_in_loop [OF l, of ts] have "toks_in (length js) ts s" by (simp add: jsmn_init_def)
  then obtain xs k where s: "s = jst (jpos s) k xs (drop (length xs) ts)" and xs: "length xs \<le> length ts" "list_all (tok_in (length js)) xs"
    unfolding toks_in_def by blast
  have f: "toks s = Some (xs @ drop (length xs) ts)" "toknext s = length xs" using s by (metis jsmn_parser.select_convs jst_def)+
  have "list_all (\<lambda>t. 0 \<le> tk_end t) xs" if "r = Inr n" for n
  proof -
    have "last_tok tok_open (xs @ drop (length xs) ts) (length xs) = None"
      using assms l that f by (auto simp: jsmn_parse_def split: sum.splits option.splits)
    then have "\<not> tok_open (xs ! i)" if "i < length xs" for i
      using last_tok_free that last_tok_append [of tok_open xs] by simp
    with xs(2) show ?thesis by (fastforce simp: list_all_length tok_open_def tok_in_def)
  qed
  with f xs show ?thesis by (cases r) auto
qed

definition unclosed :: "u8 list" where
  "unclosed = [91, 49]"

lemma unclosed_parse:
  "map_option fst (jsmn_parse unclosed (jsmn_init (Some [tok JSMN_STRING 0 0 0, tok JSMN_STRING 0 0 0]))) = Some (Inl JSMN_ERROR_PART)"
  by (simp add: unclosed_def jsmn_parse_def jsmn_init_def jsmn_loop.simps jsmn_step_def Let_def jsmn_open_def jsmn_alloc_token_def
      count_super_def tok_update_def tok_def jsmn_value_def jsmn_parse_primitive_def jsmn_token_def jsmn_fill_token_def
      is_blank_def ends_primitive_def tok_open_def)

theorem jsmn_tokens_bounded_witness:
  "\<exists>s xs. jsmn_parse unclosed (jsmn_init (Some [tok JSMN_STRING 0 0 0, tok JSMN_STRING 0 0 0])) = Some (Inl JSMN_ERROR_PART, s) \<and>
    toks s = Some (xs @ drop (length xs) [tok JSMN_STRING 0 0 0, tok JSMN_STRING 0 0 0]) \<and> list_all (tok_in (length unclosed)) xs"
proof -
  from unclosed_parse obtain s where
    s: "jsmn_parse unclosed (jsmn_init (Some [tok JSMN_STRING 0 0 0, tok JSMN_STRING 0 0 0])) = Some (Inl JSMN_ERROR_PART, s)" by auto
  with jsmn_tokens_bounded [OF s] show ?thesis by blast
qed

section \<open>A comma at the top\<close>

text \<open>
  C35. After a complete value, a comma reads the token before the array (undefined), whatever follows it: at the top the
  token above is \<open>-1\<close>, and the comma looks at its type without asking.
\<close>

theorem jsmn_top_comma:
  assumes "json_ok v" and "length (json_toks v 0) \<le> length ts"
  shows "jsmn_parse (json_text v @ 44 # post) (jsmn_init (Some ts)) = None"
proof -
  let ?js = "json_text v @ 44 # post" and ?T = "json_toks v 0" and ?n = "length (json_text v)"
  obtain b where b: "reads ?js b (json_text v, json_toks v)" using value_reads [OF assms(1)] by blast
  have s: "jsmn_init (Some ts) = jst 0 (- 1) [] ts" by (simp add: jsmn_init_def jst_def)
  have "stops (44 # post)" by (simp add: stops_def ends_primitive_def)
  from readsD(2) [OF b _ this, of 0 "- 1" "[]" ts 0] assms(2)
  have l: "jsmn_loop ?js 0 (jsmn_init (Some ts)) = jsmn_loop ?js (length ?T) (jst ?n (- 1) ?T (drop (length ?T) ts))"
    unfolding s by (simp add: above_ok_def super_of_def bump_def)
  have d: "drop ?n ?js = 44 # post" by simp
  have "jsmn_step ?js (jst ?n (- 1) ?T (drop (length ?T) ts)) = None"
    using drop_here [OF d] by (simp add: jsmn_step_def Let_def is_blank_def) (simp add: jsmn_comma_def jst_def)
  then have "jsmn_loop ?js 0 (jsmn_init (Some ts)) = None" using loop_step [OF d] unfolding l by simp
  then show ?thesis by (simp add: jsmn_parse_def)
qed

theorem jsmn_top_comma_witness:
  "jsmn_parse (json_text nested @ 44 # json_text nested) (jsmn_init (Some (replicate 256 (tok JSMN_STRING 0 0 0)))) = None"
  by (rule jsmn_top_comma [OF nested_ok]) (simp add: nested_def)

end
