(* ===== verification/Query_Replies.thy ===== *)
theory Query_Replies
  imports Query_Laws Jsmn_Laws "HOL-Library.Sublist"
begin

text \<open>
  Replies as trees: what a description of a method says, the JSON text that says it, and that walking
  its tokens by index requests the items below the method, in order, and makes its property.
\<close>

section \<open>Values and their tokens\<close>

lemma json_arr:
  "json_text (JArr vs) = 91 # listed (map fst (map arr_item vs)) @ [93]"
  "json_toks (JArr vs) p = tok JSMN_ARRAY p (p + length (json_text (JArr vs))) (length vs) # item_toks (p + 1) (map arr_item vs)"
  by (simp_all add: item_toks_def arr_item_def comp_def)

lemma json_obj:
  "json_text (JObj kvs) = 123 # listed (map fst (map obj_item kvs)) @ [125]"
  "json_toks (JObj kvs) p = tok JSMN_OBJECT p (p + length (json_text (JObj kvs))) (length kvs) # item_toks (p + 1) (map obj_item kvs)"
  by (simp_all add: item_toks_def obj_item_def comp_def map_prod_def case_prod_unfold ac_simps eval_nat_numeral)

text \<open>A value, and items, at a position of the text and an index of the tokens\<close>

definition value_at :: "u8 list \<Rightarrow> jsmntok list \<Rightarrow> nat \<Rightarrow> nat \<Rightarrow> json \<Rightarrow> bool" where
  "value_at js ts p i v \<longleftrightarrow> (\<exists>post. drop p js = json_text v @ post) \<and> (\<exists>more. drop i ts = json_toks v p @ more)"

definition items_at :: "u8 list \<Rightarrow> jsmntok list \<Rightarrow> nat \<Rightarrow> nat \<Rightarrow> (u8 list \<times> (nat \<Rightarrow> jsmntok list)) list \<Rightarrow> bool" where
  "items_at js ts p i its \<longleftrightarrow> (its \<noteq> [] \<longrightarrow> (\<exists>post. drop p js = listed (map fst its) @ post)) \<and> (\<exists>more. drop i ts = item_toks p its @ more)"

lemma drop_add: "drop i ts = xs @ ys \<Longrightarrow> drop (i + length xs) ts = ys"
  by (metis add.commute append_eq_conv_conj drop_drop)

lemma items_at_Cons:
  assumes "items_at js ts p i (it # its)"
  shows "(\<exists>post. drop p js = fst it @ post) \<and> (\<exists>more. drop i ts = snd it p @ more) \<and>
    items_at js ts (p + length (fst it) + 1) (i + length (snd it p)) its"
proof -
  let ?more = "concat (map (Cons 44) (map fst its))"
  from assms obtain post more where d: "drop p js = fst it @ ?more @ post" and t: "drop i ts = snd it p @ item_toks (p + length (fst it) + 1) its @ more"
    by (auto simp: items_at_def)
  have "its \<noteq> [] \<longrightarrow> (\<exists>post. drop (p + length (fst it) + 1) js = listed (map fst its) @ post)"
    using drop_add [OF d] drop_one [of "p + length (fst it)" js 44 "listed (map fst its) @ post"] by (cases its) auto
  with d drop_add [OF t] t show ?thesis by (auto simp: items_at_def)
qed

lemma arr_items_at: "value_at js ts p i (JArr vs) \<Longrightarrow> items_at js ts (p + 1) (i + 1) (map arr_item vs)"
  unfolding value_at_def items_at_def json_arr by (auto dest: drop_one simp: Suc_eq_plus1 [symmetric] simp del: listed.simps)

lemma obj_items_at: "value_at js ts p i (JObj kvs) \<Longrightarrow> items_at js ts (p + 1) (i + 1) (map obj_item kvs)"
  unfolding value_at_def items_at_def json_obj by (auto dest: drop_one simp: Suc_eq_plus1 [symmetric] simp del: listed.simps)

lemma arr_item_at:
  "items_at js ts p i (map arr_item (v # vs)) \<Longrightarrow> value_at js ts p i v \<and>
   items_at js ts (p + length (json_text v) + 1) (i + length (json_toks v p)) (map arr_item vs)"
  using items_at_Cons [of js ts p i "arr_item v" "map arr_item vs"] by (simp add: value_at_def arr_item_def)

text \<open>A member of an object: its key is a token of its own\<close>

definition key_at :: "u8 list \<Rightarrow> jsmntok list \<Rightarrow> nat \<Rightarrow> nat \<Rightarrow> u8 list \<Rightarrow> bool" where
  "key_at js ts p i k \<longleftrightarrow> (\<exists>post. drop (p + 1) js = k @ 34 # post) \<and> tok_at ts i = Some (tok JSMN_STRING (p + 1) (p + 1 + length k) 1)"

lemma tok_at_drop: "drop i ts = t # xs \<Longrightarrow> tok_at ts i = Some t"
proof -
  assume "drop i ts = t # xs"
  moreover from this have "i < length ts" by (cases "i < length ts") auto
  ultimately show ?thesis by (simp add: tok_at_def nth_via_drop)
qed

lemma obj_item_at:
  assumes "items_at js ts p i (map obj_item ((k, v) # kvs))"
  shows "key_at js ts p i k \<and> value_at js ts (p + length k + 3) (i + 1) v \<and>
    items_at js ts (p + length k + 4 + length (json_text v)) (i + 1 + length (json_toks v (p + length k + 3))) (map obj_item kvs)"
proof -
  let ?q = "p + length k + 3"
  from items_at_Cons [of js ts p i "obj_item (k, v)" "map obj_item kvs"] assms obtain post more where
    d: "drop p js = 34 # k @ 34 # 58 # json_text v @ post" and t: "drop i ts = tok JSMN_STRING (p + 1) (p + 1 + length k) 1 # json_toks v ?q @ more"
    and r: "items_at js ts (p + (length k + 3 + length (json_text v)) + 1) (i + (length (json_toks v ?q) + 1)) (map obj_item kvs)"
    by (auto simp: obj_item_def eval_nat_numeral)
  have d1: "drop (p + 1) js = k @ 34 # 58 # json_text v @ post" by (rule drop_one [OF d])
  have d2: "drop (p + 1 + length k) js = 34 # 58 # json_text v @ post" by (rule drop_add [OF d1])
  have "drop ?q js = json_text v @ post" using drop_one [OF drop_one [OF d2]] by (simp add: eval_nat_numeral)
  with d1 r tok_at_drop [OF t] drop_one [OF t] show ?thesis by (auto simp: key_at_def value_at_def ac_simps eval_nat_numeral)
qed

section \<open>Reading tokens\<close>

lemma text_at_drop: "drop n js = a @ post \<Longrightarrow> n \<le> length js \<Longrightarrow> text_at js (int n) = Some (a @ post)"
  by (simp add: text_at_def)

lemma strncmp_eq_prefix: "strncmp_eq (Some (k @ post)) s (length s) = Some (k = s)" if "length k = length s"
  using that by (simp add: strncmp_eq_def)

lemma json_eq_key:
  assumes "drop n js = k @ 34 # post"
  shows "json_eq js (tok JSMN_STRING n (n + length k) m) s = Some (k = s)"
proof (cases "length k = length s")
  case True
  have "n \<le> length js" using assms by (cases "n \<le> length js") auto
  with assms True strncmp_eq_prefix [OF True, of "34 # post"] show ?thesis
    by (simp add: json_eq_def tok_def text_at_drop)
qed (auto simp: json_eq_def tok_def)

lemma json_switch_key:
  assumes "key_at js ts p i k" and "k \<in> set ks"
  shows "json_switch js (tok JSMN_STRING (p + 1) (p + 1 + length k) 1) ks = Some (Some k)"
proof -
  obtain post where "drop (p + 1) js = k @ 34 # post" using assms(1) by (auto simp: key_at_def)
  note eq = json_eq_key [OF this, of 1]
  from assms(2) show ?thesis by (induction ks) (auto simp only: json_switch.simps eq bind.bind_lunit set_simps insert_iff if_True if_False split: if_splits)
qed

lemma string_value:
  assumes "value_at js ts p i (JStr s)" and "length js < 2 ^ 31"
  shows "\<exists>post. json_string js (tok JSMN_STRING (p + 1) (p + 1 + length s) m) n = Some (Some (s @ 34 # post), length s)"
    "tok_at ts i = Some (tok JSMN_STRING (p + 1) (p + 1 + length s) 0)"
proof -
  from assms(1) obtain post xs where d: "drop p js = 34 # s @ 34 # post" and t: "drop i ts = tok JSMN_STRING (p + 1) (p + 1 + length s) 0 # xs"
    by (auto simp: value_at_def)
  have d1: "drop (p + 1) js = s @ 34 # post" by (rule drop_one [OF d])
  then have "p + 1 \<le> length js" by (cases "p + 1 \<le> length js") auto
  moreover have "length s < 2 ^ 31" using arg_cong [OF d1, of length] assms(2) by simp
  then have "unat (word_of_int (int (length s)) :: u64) = length s" by (simp add: unat_of_nat)
  ultimately show "\<exists>post. json_string js (tok JSMN_STRING (p + 1) (p + 1 + length s) m) n = Some (Some (s @ 34 # post), length s)"
    using text_at_drop [OF d1] by (simp add: json_string_def tok_def)
  show "tok_at ts i = Some (tok JSMN_STRING (p + 1) (p + 1 + length s) 0)" by (rule tok_at_drop [OF t])
qed

lemma prim_value:
  assumes "value_at js ts p i (JPrim b)" and "b \<noteq> []"
  shows "\<exists>post. text_at js (int p) = Some (b @ post)" "tok_at ts i = Some (tok JSMN_PRIMITIVE p (p + length b) 0)"
proof -
  from assms(1) obtain post xs where d: "drop p js = b @ post" and t: "drop i ts = tok JSMN_PRIMITIVE p (p + length b) 0 # xs"
    by (auto simp: value_at_def)
  have "p \<le> length js" using d assms(2) by (cases "p \<le> length js") auto
  with text_at_drop [OF d] show "\<exists>post. text_at js (int p) = Some (b @ post)" by blast
  show "tok_at ts i = Some (tok JSMN_PRIMITIVE p (p + length b) 0)" by (rule tok_at_drop [OF t])
qed

section \<open>What a reply says\<close>

datatype arg_says = ArgType "u8 list" | ArgDescription "u8 list" | ArgRead bool | ArgWrite bool | ArgRange "u8 list" "u8 list"

datatype says = SaysType "u8 list" | SaysDescription "u8 list" | SaysPath "u8 list" | SaysItems "u8 list list" | SaysArguments "arg_says list list"

definition truth :: "bool \<Rightarrow> u8 list" where
  "truth b = (if b then cstr ''true'' else cstr ''false'')"

primrec arg_member :: "arg_says \<Rightarrow> u8 list \<times> json" where
  "arg_member (ArgType s) = (cstr ''type'', JStr s)"
| "arg_member (ArgDescription s) = (cstr ''description'', JStr s)"
| "arg_member (ArgRead b) = (cstr ''read'', JPrim (truth b))"
| "arg_member (ArgWrite b) = (cstr ''write'', JPrim (truth b))"
| "arg_member (ArgRange a b) = (cstr ''range'', JArr [JPrim a, JPrim b])"

primrec member :: "says \<Rightarrow> u8 list \<times> json" where
  "member (SaysType s) = (cstr ''type'', JStr s)"
| "member (SaysDescription s) = (cstr ''description'', JStr s)"
| "member (SaysPath s) = (cstr ''path'', JStr s)"
| "member (SaysItems ss) = (cstr ''items'', JArr (map JStr ss))"
| "member (SaysArguments as) = (cstr ''arguments'', JArr (map (\<lambda>a. JObj (map arg_member a)) as))"

definition reply_json :: "says list \<Rightarrow> json" where
  "reply_json fs = JObj (map member fs)"

text \<open>What is kept of it\<close>

record heard =
  h_path :: "u8 list option"
  h_type :: "u8 list option"
  h_desc :: "u8 list option"
  h_args :: nat
  h_char :: u8
  h_read :: bool
  h_write :: bool
  h_range :: "(u8 list \<times> u8 list) option"

definition nothing :: heard where
  "nothing = \<lparr>h_path = None, h_type = None, h_desc = None, h_args = 0, h_char = c8 CHR ''i'', h_read = True, h_write = False, h_range = None\<rparr>"

fun hear_arg :: "nat \<Rightarrow> arg_says \<Rightarrow> heard \<Rightarrow> heard" where
  "hear_arg j (ArgType s) r = (if j = 0 then r\<lparr>h_char := c_char (s @ [34])\<rparr> else r)"
| "hear_arg j (ArgDescription s) r = r"
| "hear_arg j (ArgRead b) r = (if j = 0 then r\<lparr>h_read := b\<rparr> else r)"
| "hear_arg j (ArgWrite b) r = (if j = 0 then r\<lparr>h_write := b\<rparr> else r)"
| "hear_arg j (ArgRange a b) r = r\<lparr>h_range := Some (a, b)\<rparr>"

fun hear_args :: "nat \<Rightarrow> arg_says list list \<Rightarrow> heard \<Rightarrow> heard" where
  "hear_args j [] r = r"
| "hear_args j (a # as) r = hear_args (j + 1) as (fold (hear_arg j) a r)"

fun hear :: "says \<Rightarrow> heard \<Rightarrow> heard" where
  "hear (SaysType s) r = r\<lparr>h_type := Some s\<rparr>"
| "hear (SaysDescription s) r = r\<lparr>h_desc := Some s\<rparr>"
| "hear (SaysPath s) r = r\<lparr>h_path := Some s\<rparr>"
| "hear (SaysItems ss) r = r"
| "hear (SaysArguments as) r = hear_args 0 as (r\<lparr>h_args := length as\<rparr>)"

text \<open>The requests for the items, each as it is in the ring buffer\<close>

definition request :: "u8 list option \<Rightarrow> u8 list \<Rightarrow> u8 list" where
  "request p s = (case p of None \<Rightarrow> [] | Some p \<Rightarrow> p) @ s @ [c8 CHR ''!'', 0]"

fun requests :: "says list \<Rightarrow> heard \<Rightarrow> u8 list list" where
  "requests [] r = []"
| "requests (f # fs) r = (case f of SaysItems ss \<Rightarrow> map (request (h_path r)) ss | _ \<Rightarrow> []) @ requests fs (hear f r)"

text \<open>What can be said: strings that are JSON strings, numbers that are JSON primitives, short descriptions of arguments\<close>

primrec arg_says_ok :: "arg_says \<Rightarrow> bool" where
  "arg_says_ok (ArgType s) \<longleftrightarrow> str_ok s"
| "arg_says_ok (ArgDescription s) \<longleftrightarrow> str_ok s \<and> length s < 1024"
| "arg_says_ok (ArgRead b) \<longleftrightarrow> True"
| "arg_says_ok (ArgWrite b) \<longleftrightarrow> True"
| "arg_says_ok (ArgRange a b) \<longleftrightarrow> prim_ok a \<and> prim_ok b"

primrec says_ok :: "says \<Rightarrow> bool" where
  "says_ok (SaysType s) \<longleftrightarrow> str_ok s"
| "says_ok (SaysDescription s) \<longleftrightarrow> str_ok s"
| "says_ok (SaysPath s) \<longleftrightarrow> str_ok s \<and> length s < 1024"
| "says_ok (SaysItems ss) \<longleftrightarrow> list_all str_ok ss"
| "says_ok (SaysArguments as) \<longleftrightarrow> list_all (list_all arg_says_ok) as"

section \<open>Walking the tokens\<close>

definition pointed :: "u8 list option \<Rightarrow> nat \<Rightarrow> u8 list option \<Rightarrow> bool" where
  "pointed s n b \<longleftrightarrow> (case b of None \<Rightarrow> s = None \<and> n = 0 | Some x \<Rightarrow> (\<exists>post. s = Some (x @ 34 # post)) \<and> n = length x \<and> 0 \<notin> set x)"

definition ranged :: "u8 list \<Rightarrow> jsmntok list \<Rightarrow> (nat \<times> nat) option \<Rightarrow> (u8 list \<times> u8 list) option \<Rightarrow> bool" where
  "ranged js ts x rg \<longleftrightarrow> (case rg of
     None \<Rightarrow> x = None
   | Some (a, b) \<Rightarrow> \<exists>i p q. x = Some (2, i) \<and> tok_at ts i = Some (tok JSMN_PRIMITIVE p (p + length a) 0) \<and>
       tok_at ts (i + 1) = Some (tok JSMN_PRIMITIVE q (q + length b) 0) \<and>
       (\<exists>post. text_at js (int p) = Some (a @ 44 # post)) \<and> (\<exists>post. text_at js (int q) = Some (b @ 93 # post)))"

definition hears :: "u8 list \<Rightarrow> jsmntok list \<Rightarrow> reply \<Rightarrow> heard \<Rightarrow> bool" where
  "hears js ts r x \<longleftrightarrow> pointed (target r) (target_len r) (h_path x) \<and> pointed (rtype r) (rtype_len r) (h_type x) \<and>
     pointed (desc r) (desc_len r) (h_desc x) \<and> arg_n r = h_args x \<and> reply.arg_type r = h_char x \<and> arg_read r = h_read x \<and>
     arg_write r = h_write x \<and> ranged js ts (arg_range r) (h_range x) \<and> arg_values r = None \<and> target_len r < 1024 \<and> desc_len r < 2 ^ 30"

lemma str_ok_nonzero: "str_ok s \<Longrightarrow> 0 \<notin> set s"
proof (induction s rule: str_ok.induct)
  case (2 c cs)
  show ?case
  proof (cases "c = 92")
    case True
    with 2(4) obtain d ds where cs: "cs = d # ds" by (cases cs) auto
    show ?thesis
    proof (cases "d \<in> set plain_escapes")
      case True
      with \<open>c = 92\<close> 2(1) 2(4) cs show ?thesis by (auto simp: plain_escapes_def)
    next
      case False
      with \<open>c = 92\<close> 2(4) cs have "d = 117" "list_all is_hex (take 4 ds)" "str_ok (drop 4 ds)" by auto
      moreover from this have "0 \<notin> set (take 4 ds)" by (auto simp: list_all_iff is_hex_def)
      moreover have "0 \<notin> set (drop 4 ds)" using \<open>c = 92\<close> 2(2) 2(4) cs False by auto
      ultimately have "0 \<notin> set ds" by (metis Un_iff append_take_drop_id set_append)
      with \<open>c = 92\<close> \<open>d = 117\<close> cs show ?thesis by simp
    qed
  next
    case False
    with 2(3,4) show ?thesis by auto
  qed
qed simp

lemma hears_nothing: "hears js ts no_reply nothing"
  by (simp add: hears_def pointed_def ranged_def no_reply_def nothing_def)

lemma range_at:
  assumes v: "value_at js ts p i (JArr [JPrim a, JPrim b])" and ab: "prim_ok a" "prim_ok b"
  shows "ranged js ts (Some (2, i + 1)) (Some (a, b))" "\<exists>t. tok_at ts i = Some t \<and> tk_size t = 2"
proof -
  from v obtain post xs where d: "drop p js = 91 # a @ 44 # b @ 93 # post" and t: "drop i ts = tok JSMN_ARRAY p (p + length a + length b + 3) 2 #
      tok JSMN_PRIMITIVE (p + 1) (p + 1 + length a) 0 # tok JSMN_PRIMITIVE (p + length a + 2) (p + length a + 2 + length b) 0 # xs"
    by (auto simp: value_at_def eval_nat_numeral add.assoc)
  have d1: "drop (p + 1) js = a @ 44 # b @ 93 # post" by (rule drop_one [OF d])
  have d2: "drop (p + 1 + length a + 1) js = b @ 93 # post" by (rule drop_one [OF drop_add [OF d1]])
  have "p + 1 \<le> length js" using d1 by (cases "p + 1 \<le> length js") auto
  moreover have "p + length a + 2 \<le> length js" using d2 by (cases "p + length a + 2 \<le> length js") auto
  ultimately have "text_at js (int (p + 1)) = Some (a @ 44 # b @ 93 # post)" "text_at js (int (p + length a + 2)) = Some (b @ 93 # post)"
    using text_at_drop [OF d1] text_at_drop [of "p + length a + 2" js b "93 # post"] d2 by (simp_all add: ac_simps)
  then show "ranged js ts (Some (2, i + 1)) (Some (a, b))"
    using tok_at_drop [OF drop_one [OF t]] tok_at_drop [OF drop_one [OF drop_one [OF t]]] unfolding ranged_def option.case prod.case
    by (intro exI [of _ "i + 1"] exI [of _ "p + 1"] exI [of _ "p + length a + 2"]) auto
  show "\<exists>t. tok_at ts i = Some t \<and> tk_size t = 2" using tok_at_drop [OF t] by (simp add: tok_def)
qed

lemma c_strncpy_part: "length s = n \<Longrightarrow> c_strncpy (Some (s @ post)) n = Some s"
  by (simp add: c_strncpy_def)

lemma truth_value: "value_at js ts p i (JPrim (truth b)) \<Longrightarrow> \<exists>t. tok_at ts i = Some t \<and> json_bool js t = Some b"
proof -
  assume v: "value_at js ts p i (JPrim (truth b))"
  have "truth b \<noteq> []" by (simp add: truth_def)
  from prim_value [OF v this] obtain post where "text_at js (int p) = Some (truth b @ post)"
    "tok_at ts i = Some (tok JSMN_PRIMITIVE p (p + length (truth b)) 0)" by blast
  then show ?thesis by (auto simp: json_bool_def tok_def truth_def c_char_def c8_def)
qed

abbreviation arg_keys :: "u8 list list" where
  "arg_keys \<equiv> map cstr [''type'', ''description'', ''read'', ''write'', ''range'', ''values'']"

lemma arg_field_cases:
  "json_switch js key arg_keys = Some (Some (cstr ''type'')) \<Longrightarrow> arg_field js j key val i r =
     Option.bind (json_string js val 0) (\<lambda>(s, len). if j = 0 then map_option (\<lambda>a. (i, r\<lparr>reply.arg_type := c_char a\<rparr>)) s else Some (i, r))"
  "json_switch js key arg_keys = Some (Some (cstr ''description'')) \<Longrightarrow> arg_field js j key val i r =
     Option.bind (json_string js val 0) (\<lambda>(s, len). if len < 1024 then map_option (\<lambda>_. (i, r)) (c_strncpy s len) else None)"
  "json_switch js key arg_keys = Some (Some (cstr ''read'')) \<Longrightarrow> arg_field js j key val i r =
     map_option (\<lambda>b. (i, if j = 0 then r\<lparr>arg_read := b\<rparr> else r)) (json_bool js val)"
  "json_switch js key arg_keys = Some (Some (cstr ''write'')) \<Longrightarrow> arg_field js j key val i r =
     map_option (\<lambda>b. (i, if j = 0 then r\<lparr>arg_write := b\<rparr> else r)) (json_bool js val)"
  "json_switch js key arg_keys = Some (Some (cstr ''range'')) \<Longrightarrow> arg_field js j key val i r =
     Some (i + tk_size val, r\<lparr>arg_range := Some (tk_size val, i)\<rparr>)"
  by (simp_all add: arg_field_def c8_def)

lemma arg_field_hears:
  assumes k: "key_at js ts p i (fst (arg_member f))" and v: "value_at js ts q (i + 1) (snd (arg_member f))"
    and ok: "arg_says_ok f" and js: "length js < 2 ^ 31" and r: "hears js ts r x"
  shows "\<exists>key val r1. tok_at ts i = Some key \<and> tok_at ts (i + 1) = Some val \<and>
    arg_field js j key val (i + 2) r = Some (i + 1 + length (json_toks (snd (arg_member f)) q), r1) \<and> hears js ts r1 (hear_arg j f x)"
proof -
  define key where "key = tok JSMN_STRING (p + 1) (p + 1 + length (fst (arg_member f))) 1"
  have key: "tok_at ts i = Some key" using k by (simp add: key_at_def key_def)
  have "fst (arg_member f) \<in> set arg_keys" by (cases f) simp_all
  from json_switch_key [OF k this] have sw: "json_switch js key arg_keys = Some (Some (fst (arg_member f)))"
    unfolding key_def .
  show ?thesis
  proof (cases f)
    case (ArgType s)
    note eq = arg_field_cases(1) [OF sw [unfolded ArgType arg_member.simps fst_conv]]
    have vs: "value_at js ts q (i + 1) (JStr s)" using v ArgType by simp
    obtain post where "json_string js (tok JSMN_STRING (q + 1) (q + 1 + length s) 0) 0 = Some (Some (s @ 34 # post), length s)"
      using string_value(1) [OF vs js] by blast
    moreover have "c_char (s @ 34 # post) = c_char (s @ [34])" by (cases s) (simp_all add: c_char_def)
    ultimately show ?thesis using key string_value(2) [OF vs js] ArgType r
      by (intro exI [of _ key] exI [of _ "tok JSMN_STRING (q + 1) (q + 1 + length s) 0"]) (auto simp: eq hears_def)
  next
    case (ArgDescription s)
    note eq = arg_field_cases(2) [OF sw [unfolded ArgDescription arg_member.simps fst_conv]]
    have vs: "value_at js ts q (i + 1) (JStr s)" using v ArgDescription by simp
    obtain post where "json_string js (tok JSMN_STRING (q + 1) (q + 1 + length s) 0) 0 = Some (Some (s @ 34 # post), length s)"
      using string_value(1) [OF vs js] by blast
    then show ?thesis using key string_value(2) [OF vs js] ArgDescription r ok
      by (intro exI [of _ key] exI [of _ "tok JSMN_STRING (q + 1) (q + 1 + length s) 0"]) (auto simp: eq hears_def c_strncpy_part)
  next
    case (ArgRead b)
    note eq = arg_field_cases(3) [OF sw [unfolded ArgRead arg_member.simps fst_conv]]
    from v ArgRead truth_value obtain t where "tok_at ts (i + 1) = Some t" "json_bool js t = Some b" by fastforce
    with key ArgRead r show ?thesis by (intro exI [of _ key] exI [of _ t]) (auto simp: eq hears_def)
  next
    case (ArgWrite b)
    note eq = arg_field_cases(4) [OF sw [unfolded ArgWrite arg_member.simps fst_conv]]
    from v ArgWrite truth_value obtain t where "tok_at ts (i + 1) = Some t" "json_bool js t = Some b" by fastforce
    with key ArgWrite r show ?thesis by (intro exI [of _ key] exI [of _ t]) (auto simp: eq hears_def)
  next
    case (ArgRange a b)
    note eq = arg_field_cases(5) [OF sw [unfolded ArgRange arg_member.simps fst_conv]]
    from range_at [of js ts q "i + 1" a b] v ok ArgRange obtain t where
      "tok_at ts (i + 1) = Some t" "tk_size t = 2" "ranged js ts (Some (2, i + 2)) (Some (a, b))" by auto
    with key ArgRange r show ?thesis by (intro exI [of _ key] exI [of _ t]) (auto simp: eq hears_def)
  qed
qed

lemma obj_item_toks:
  "length (item_toks p (map obj_item (kv # kvs))) = 1 + length (json_toks (snd kv) (p + length (fst kv) + 3)) +
     length (item_toks (p + length (fst kv) + 4 + length (json_text (snd kv))) (map obj_item kvs))"
  by (simp add: obj_item_def eval_nat_numeral add.assoc)

lemma arg_fields_hear:
  assumes js: "length js < 2 ^ 31"
  shows "items_at js ts p i (map obj_item (map arg_member fs)) \<Longrightarrow> list_all arg_says_ok fs \<Longrightarrow> hears js ts r x \<Longrightarrow>
    \<exists>r1. arg_fields js ts j (length fs) i r = Some (i + length (item_toks p (map obj_item (map arg_member fs))), r1) \<and>
      hears js ts r1 (fold (hear_arg j) fs x)"
proof (induction fs arbitrary: p i r x)
  case (Cons f fs)
  let ?k = "fst (arg_member f)" and ?v = "snd (arg_member f)"
  let ?q = "p + length ?k + 3"
  from obj_item_at [of js ts p i ?k ?v "map arg_member fs"] Cons.prems(1) have
    k: "key_at js ts p i ?k" and v: "value_at js ts ?q (i + 1) ?v"
    and rest: "items_at js ts (p + length ?k + 4 + length (json_text ?v)) (i + 1 + length (json_toks ?v ?q)) (map obj_item (map arg_member fs))"
    by simp_all
  from arg_field_hears [OF k v _ js Cons.prems(3), of j] Cons.prems(2) obtain key val r1 where
    f: "tok_at ts i = Some key" "tok_at ts (i + 1) = Some val" "arg_field js j key val (i + 2) r = Some (i + 1 + length (json_toks ?v ?q), r1)"
      "hears js ts r1 (hear_arg j f x)" by auto
  from Cons.IH [OF rest _ f(4)] Cons.prems(2) obtain r2 where
    "arg_fields js ts j (length fs) (i + 1 + length (json_toks ?v ?q)) r1 =
      Some (i + 1 + length (json_toks ?v ?q) + length (item_toks (p + length ?k + 4 + length (json_text ?v)) (map obj_item (map arg_member fs))), r2)"
    "hears js ts r2 (fold (hear_arg j) fs (hear_arg j f x))" by auto
  moreover have "length (item_toks p (map obj_item (map arg_member (f # fs)))) = 1 + length (json_toks ?v ?q) +
      length (item_toks (p + length ?k + 4 + length (json_text ?v)) (map obj_item (map arg_member fs)))"
    using obj_item_toks [of p "arg_member f" "map arg_member fs"] by simp
  ultimately show ?case using f by (intro exI [of _ r2]) (simp add: add.assoc)
qed simp

text \<open>The descriptions of the arguments\<close>

lemma arr_item_toks:
  "length (item_toks p (map arr_item (v # vs))) = length (json_toks v p) + length (item_toks (p + length (json_text v) + 1) (map arr_item vs))"
  by (simp add: arr_item_def)

definition arg_json :: "arg_says list \<Rightarrow> json" where
  "arg_json a = JObj (map arg_member a)"

lemma query_arguments_hear:
  assumes js: "length js < 2 ^ 31"
  shows "items_at js ts p i (map arr_item (map arg_json as)) \<Longrightarrow> list_all (list_all arg_says_ok) as \<Longrightarrow> hears js ts r x \<Longrightarrow>
    \<exists>r1. query_arguments js ts j (length as) i r = Some (i + length (item_toks p (map arr_item (map arg_json as))), r1) \<and>
      hears js ts r1 (hear_args j as x)"
proof (induction as arbitrary: p i j r x)
  case (Cons a as)
  let ?v = "arg_json a"
  from arr_item_at [of js ts p i ?v "map arg_json as"] Cons.prems(1) have v: "value_at js ts p i ?v"
    and rest: "items_at js ts (p + length (json_text ?v) + 1) (i + length (json_toks ?v p)) (map arr_item (map arg_json as))" by simp_all
  from v obtain xs where "drop i ts = json_toks ?v p @ xs" by (auto simp: value_at_def)
  then have t: "tok_at ts i = Some (tok JSMN_OBJECT p (p + length (json_text ?v)) (length a))"
    by (intro tok_at_drop) (simp add: arg_json_def json_obj del: json_text.simps)
  from arg_fields_hear [OF js obj_items_at [OF v [unfolded arg_json_def]], of r x j] Cons.prems(2,3) obtain r1 where
    f: "arg_fields js ts j (length a) (i + 1) r = Some (i + length (json_toks ?v p), r1)" "hears js ts r1 (fold (hear_arg j) a x)"
    by (auto simp: arg_json_def json_obj(2) simp del: json_text.simps json_toks.simps)
  from Cons.IH [OF rest _ f(2), of "j + 1"] Cons.prems(2) obtain r2 where
    "query_arguments js ts (j + 1) (length as) (i + length (json_toks ?v p)) r1 =
      Some (i + length (json_toks ?v p) + length (item_toks (p + length (json_text ?v) + 1) (map arr_item (map arg_json as))), r2)"
    "hears js ts r2 (hear_args (j + 1) as (fold (hear_arg j) a x))" by auto
  moreover have "length (item_toks p (map arr_item (map arg_json (a # as)))) = length (json_toks ?v p) +
      length (item_toks (p + length (json_text ?v) + 1) (map arr_item (map arg_json as)))"
    using arr_item_toks [of p ?v "map arg_json as"] by simp
  ultimately show ?case using t f by (intro exI [of _ r2]) (simp add: tok_def add.assoc)
qed simp

abbreviation says_keys :: "u8 list list" where
  "says_keys \<equiv> map cstr [''path'', ''type'', ''description'', ''items'', ''arguments'']"

text \<open>The items, whose requests go to the ring buffer as long as there is room\<close>

lemma query_items_request:
  assumes js: "length js < 2 ^ 30" and r: "pointed (target r) (target_len r) path" "target_len r < 1024"
  shows "items_at js ts p i (map arr_item (map JStr ss)) \<Longrightarrow> queue_inv k v q \<Longrightarrow>
    \<exists>v1 oks. query_items js ts r (length ss) i v = Some (i + length (item_toks p (map arr_item (map JStr ss))), v1) \<and>
      queued k v q (map (request path) ss) oks v1"
proof (induction ss arbitrary: p i v q)
  case Nil
  then show ?case by (intro exI [of _ v] exI [of _ "[]"]) (simp add: queued_Nil)
next
  case (Cons s ss)
  have js31: "length js < 2 ^ 31" using js by simp
  from arr_item_at [of js ts p i "JStr s" "map JStr ss"] Cons.prems(1) have vs: "value_at js ts p i (JStr s)"
    and rest: "items_at js ts (p + (length s + 2) + 1) (i + 1) (map arr_item (map JStr ss))" by simp_all
  obtain post where s: "json_string js (tok JSMN_STRING (p + 1) (p + 1 + length s) 0) 0 = Some (Some (s @ 34 # post), length s)"
    using string_value(1) [OF vs js31] by blast
  obtain ys where "drop p js = 34 # s @ 34 # ys" using vs by (auto simp: value_at_def)
  from arg_cong [OF this, of length] js have len: "length s < 2 ^ 30" by simp
  have path: "c_strncpy (target r) (target_len r) = Some (case path of None \<Rightarrow> [] | Some p \<Rightarrow> p)"
    using r(1) by (auto simp: pointed_def c_strncpy_def split: option.splits)
  have send: "send_item (target r) (target_len r) (Some (s @ 34 # post)) (length s) v = ring_send (request path s) v"
    by (simp add: send_item_def path c_strncpy_part request_def)
  have "length (case path of None \<Rightarrow> [] | Some p \<Rightarrow> p) < 1024" using r by (auto simp: pointed_def split: option.splits)
  then have "length (request path s) < 2 ^ 31" using len by (simp add: request_def)
  from queued_send [OF Cons.prems(2) this] obtain ok v1 where
    v1: "ring_send (request path s) v = Some (ok, v1)" "queued k v q [request path s] [ok] v1" .
  then have "queue_inv k v1 (q @ accepted [ok] [request path s])" unfolding queued_def by blast
  from Cons.IH [OF rest this] obtain v2 oks where
    v2: "query_items js ts r (length ss) (i + 1) v1 = Some (i + 1 + length (item_toks (p + (length s + 2) + 1) (map arr_item (map JStr ss))), v2)"
    "queued k v1 (q @ accepted [ok] [request path s]) (map (request path) ss) oks v2" by blast
  have "queued k v q (map (request path) (s # ss)) (ok # oks) v2" using queued_append [OF v1(2) v2(2)] by simp
  with v2(1) show ?case using string_value(2) [OF vs js31] s send v1(1) arr_item_toks [of p "JStr s" "map JStr ss"]
    by (intro exI [of _ v2] exI [of _ "ok # oks"]) (auto simp: add.assoc)
qed

lemma query_field_cases:
  "json_switch js key says_keys = Some (Some (cstr ''path'')) \<Longrightarrow> query_field js ts key val i r v =
     map_option (\<lambda>(s, n). (i, r\<lparr>target := s, target_len := n\<rparr>, v)) (json_string js val (target_len r))"
  "json_switch js key says_keys = Some (Some (cstr ''type'')) \<Longrightarrow> query_field js ts key val i r v =
     map_option (\<lambda>(s, n). (i, r\<lparr>rtype := s, rtype_len := n\<rparr>, v)) (json_string js val (rtype_len r))"
  "json_switch js key says_keys = Some (Some (cstr ''description'')) \<Longrightarrow> query_field js ts key val i r v =
     map_option (\<lambda>(s, n). (i, r\<lparr>desc := s, desc_len := n\<rparr>, v)) (json_string js val (desc_len r))"
  "json_switch js key says_keys = Some (Some (cstr ''items'')) \<Longrightarrow> query_field js ts key val i r v =
     map_option (\<lambda>(i1, v1). (i1, r, v1)) (query_items js ts r (tk_size val) i v)"
  "json_switch js key says_keys = Some (Some (cstr ''arguments'')) \<Longrightarrow> query_field js ts key val i r v =
     map_option (\<lambda>(i1, r1). (i1, r1, v)) (query_arguments js ts 0 (tk_size val) i (r\<lparr>arg_n := tk_size val\<rparr>))"
  by (simp_all add: query_field_def c8_def)

lemma says_member_args: "member (SaysArguments as) = (cstr ''arguments'', JArr (map arg_json as))"
  by (simp add: arg_json_def [abs_def])

lemma query_field_hears:
  assumes k: "key_at js ts p i (fst (member f))" and v: "value_at js ts n (i + 1) (snd (member f))"
    and ok: "says_ok f" and js: "length js < 2 ^ 30" and r: "hears js ts r x" and q: "queue_inv k rb q"
  shows "\<exists>key val r1 rb1 oks. tok_at ts i = Some key \<and> tok_at ts (i + 1) = Some val \<and>
    query_field js ts key val (i + 2) r rb = Some (i + 1 + length (json_toks (snd (member f)) n), r1, rb1) \<and> hears js ts r1 (hear f x) \<and>
    queued k rb q (requests [f] x) oks rb1"
proof -
  define key where "key = tok JSMN_STRING (p + 1) (p + 1 + length (fst (member f))) 1"
  have key: "tok_at ts i = Some key" using k by (simp add: key_at_def key_def)
  have "fst (member f) \<in> set says_keys" by (cases f) simp_all
  from json_switch_key [OF k this] have sw: "json_switch js key says_keys = Some (Some (fst (member f)))"
    unfolding key_def .
  have js31: "length js < 2 ^ 31" using js by simp
  have string: "\<exists>post t. tok_at ts (i + 1) = Some t \<and> json_string js t m = Some (Some (s @ 34 # post), length s)"
    if "value_at js ts n (i + 1) (JStr s)" for s m
    using string_value [OF that js31] by blast
  have arr: "tok_at ts (i + 1) = Some (tok JSMN_ARRAY n (n + length (json_text (JArr vs))) (length vs))" if "value_at js ts n (i + 1) (JArr vs)" for vs
    using that unfolding value_at_def json_arr(2) by (auto intro: tok_at_drop)
  show ?thesis
  proof (cases f)
    case (SaysPath s)
    note eq = query_field_cases(1) [OF sw [unfolded SaysPath member.simps fst_conv]]
    from string [of s "target_len r"] v SaysPath obtain post t where
      "tok_at ts (i + 1) = Some t" "json_string js t (target_len r) = Some (Some (s @ 34 # post), length s)" by auto
    with key SaysPath r ok q str_ok_nonzero show ?thesis
      by (intro exI [of _ key] exI [of _ t] exI [of _ "r\<lparr>target := Some (s @ 34 # post), target_len := length s\<rparr>"] exI [of _ rb] exI [of _ "[]"])
        (auto simp: eq hears_def pointed_def queued_Nil)
  next
    case (SaysType s)
    note eq = query_field_cases(2) [OF sw [unfolded SaysType member.simps fst_conv]]
    from string [of s "rtype_len r"] v SaysType obtain post t where
      "tok_at ts (i + 1) = Some t" "json_string js t (rtype_len r) = Some (Some (s @ 34 # post), length s)" by auto
    with key SaysType r ok q str_ok_nonzero show ?thesis
      by (intro exI [of _ key] exI [of _ t] exI [of _ "r\<lparr>rtype := Some (s @ 34 # post), rtype_len := length s\<rparr>"] exI [of _ rb] exI [of _ "[]"])
        (auto simp: eq hears_def pointed_def queued_Nil)
  next
    case (SaysDescription s)
    note eq = query_field_cases(3) [OF sw [unfolded SaysDescription member.simps fst_conv]]
    from string [of s "desc_len r"] v SaysDescription obtain post t where
      "tok_at ts (i + 1) = Some t" "json_string js t (desc_len r) = Some (Some (s @ 34 # post), length s)" by auto
    moreover have "length s < 2 ^ 30"
    proof -
      from v SaysDescription obtain ys where "drop n js = 34 # s @ 34 # ys" by (auto simp: value_at_def)
      from arg_cong [OF this, of length] js show ?thesis by simp
    qed
    ultimately show ?thesis using key SaysDescription r ok q str_ok_nonzero
      by (intro exI [of _ key] exI [of _ t] exI [of _ "r\<lparr>desc := Some (s @ 34 # post), desc_len := length s\<rparr>"] exI [of _ rb] exI [of _ "[]"])
        (auto simp: eq hears_def pointed_def queued_Nil)
  next
    case (SaysItems ss)
    note eq = query_field_cases(4) [OF sw [unfolded SaysItems member.simps fst_conv]]
    have va: "value_at js ts n (i + 1) (JArr (map JStr ss))" using v SaysItems by simp
    from query_items_request [OF js _ _ arr_items_at [OF va] q, of r "h_path x"] r obtain v1 oks where
      "query_items js ts r (length ss) (i + 1 + 1) rb = Some (i + 1 + 1 + length (item_toks (n + 1) (map arr_item (map JStr ss))), v1)"
      "queued k rb q (map (request (h_path x)) ss) oks v1" by (auto simp: hears_def)
    with key SaysItems r arr [OF va] show ?thesis
      by (intro exI [of _ key] exI [of _ "tok JSMN_ARRAY n (n + length (json_text (JArr (map JStr ss)))) (length ss)"] exI [of _ r] exI [of _ v1] exI [of _ oks])
        (simp add: eq json_arr(2) tok_def del: json_text.simps json_toks.simps)
  next
    case (SaysArguments as)
    note eq = query_field_cases(5) [OF sw [unfolded SaysArguments member.simps fst_conv]]
    have va: "value_at js ts n (i + 1) (JArr (map arg_json as))" using v unfolding SaysArguments says_member_args by simp
    have "hears js ts (r\<lparr>arg_n := length as\<rparr>) (x\<lparr>h_args := length as\<rparr>)" using r by (simp add: hears_def)
    from query_arguments_hear [OF js31 arr_items_at [OF va] _ this, of 0] ok SaysArguments obtain r1 where
      "query_arguments js ts 0 (length as) (i + 1 + 1) (r\<lparr>arg_n := length as\<rparr>) =
        Some (i + 1 + 1 + length (item_toks (n + 1) (map arr_item (map arg_json as))), r1)"
      "hears js ts r1 (hear_args 0 as (x\<lparr>h_args := length as\<rparr>))" by auto
    with key SaysArguments arr [OF va] q show ?thesis unfolding SaysArguments says_member_args
      by (intro exI [of _ key] exI [of _ "tok JSMN_ARRAY n (n + length (json_text (JArr (map arg_json as)))) (length as)"] exI [of _ r1] exI [of _ rb] exI [of _ "[]"])
        (simp add: eq json_arr(2) tok_def queued_Nil del: json_text.simps json_toks.simps)
  qed
qed

section \<open>The whole reply\<close>

lemma query_fields_hear:
  assumes js: "length js < 2 ^ 30"
  shows "items_at js ts p i (map obj_item (map member fs)) \<Longrightarrow> list_all says_ok fs \<Longrightarrow> hears js ts r x \<Longrightarrow> queue_inv k v q \<Longrightarrow>
    n = i + length (item_toks p (map obj_item (map member fs))) \<Longrightarrow>
    \<exists>r1 v1 oks. query_fields js ts n i r v = Some (r1, v1) \<and> hears js ts r1 (fold hear fs x) \<and> queued k v q (requests fs x) oks v1"
proof (induction fs arbitrary: p i r x v q)
  case Nil
  then have "query_fields js ts n i r v = Some (r, v)" by (subst query_fields.simps) simp
  with Nil show ?case by (intro exI [of _ r] exI [of _ v] exI [of _ "[]"]) (simp add: queued_Nil)
next
  case (Cons f fs)
  let ?k = "fst (member f)" and ?v = "snd (member f)"
  let ?q = "p + length ?k + 3"
  let ?i = "i + 1 + length (json_toks ?v ?q)" and ?p = "p + length ?k + 4 + length (json_text ?v)"
  from obj_item_at [of js ts p i ?k ?v "map member fs"] Cons.prems(1) have
    k: "key_at js ts p i ?k" and v: "value_at js ts ?q (i + 1) ?v" and rest: "items_at js ts ?p ?i (map obj_item (map member fs))" by simp_all
  have n: "n = ?i + length (item_toks ?p (map obj_item (map member fs)))"
    using Cons.prems(5) obj_item_toks [of p "member f" "map member fs"] by simp
  from query_field_hears [OF k v _ js Cons.prems(3,4)] Cons.prems(2) obtain key val r1 v1 oks where
    f: "tok_at ts i = Some key" "tok_at ts (i + 1) = Some val" "query_field js ts key val (i + 2) r v = Some (?i, r1, v1)"
      "hears js ts r1 (hear f x)" "queued k v q (requests [f] x) oks v1" by auto
  then have "queue_inv k v1 (q @ accepted oks (requests [f] x))" by (simp add: queued_def)
  from Cons.IH [OF rest _ f(4) this n] Cons.prems(2) obtain r2 v2 oks' where
    ih: "query_fields js ts n ?i r1 v1 = Some (r2, v2)" "hears js ts r2 (fold hear fs (hear f x))"
    "queued k v1 (q @ accepted oks (requests [f] x)) (requests fs (hear f x)) oks' v2" by auto
  have "query_fields js ts n i r v = query_fields js ts n ?i r1 v1"
    using f(1-3) n by (subst query_fields.simps) simp
  moreover have "requests (f # fs) x = requests [f] x @ requests fs (hear f x)" by simp
  then have "queued k v q (requests (f # fs) x) (oks @ oks') v2" using queued_append [OF f(5) ih(3)] by metis
  ultimately show ?case using ih by (intro exI [of _ r2] exI [of _ v2] exI [of _ "oks @ oks'"]) simp
qed

lemma reply_ok: "list_all says_ok fs \<Longrightarrow> json_ok (reply_json fs)"
proof -
  have key: "str_ok (fst (arg_member a))" for a by (cases a) (simp_all add: c8_def plain_escapes_def)
  have arg: "arg_says_ok a \<Longrightarrow> json_ok (snd (arg_member a))" for a
    by (cases a) (simp_all add: truth_def prim_ok_def c8_def ends_primitive_def is_blank_def)
  have args: "list_all (list_all arg_says_ok) as \<Longrightarrow> list_all json_ok (map arg_json as)" for as
    using key arg by (auto simp: list_all_iff arg_json_def comp_def)
  have "str_ok (fst (member f))" for f by (cases f) (simp_all add: c8_def plain_escapes_def)
  moreover have "says_ok f \<Longrightarrow> json_ok (snd (member f))" for f
    using args by (cases f) (auto simp: list_all_iff says_member_args simp del: member.simps(5))
  ultimately show "list_all says_ok fs \<Longrightarrow> json_ok (reply_json fs)"
    by (auto simp: reply_json_def list_all_iff)
qed

section \<open>The property\<close>

text \<open>What the C library's documentation says of \<open>strtod\<close>, where numbers are separated as in JSON: it stops at a comma or bracket.\<close>

definition reads_numbers :: "'f query_host \<Rightarrow> bool" where
  "reads_numbers e \<longleftrightarrow> (\<forall>b c t. prim_ok b \<longrightarrow> c \<in> {44, 93} \<longrightarrow> qh_strtod e (b @ c # t) = qh_strtod e b)"

definition labelled :: "u32 \<Rightarrow> u8 list option \<Rightarrow> fcall list" where
  "labelled key s = (case s of None \<Rightarrow> [] | Some b \<Rightarrow> [FKey key, FString b])"

text \<open>The messages for a method: its access, and its label, comment, type and bounds\<close>

definition heard_type :: "query \<Rightarrow> u8 \<Rightarrow> u64 \<Rightarrow> u64 \<Rightarrow> u32" where
  "heard_type h c lo hi =
     (if osc_range_type h c = u_Int (q_osc h) \<and> double_value lo = Some 0 \<and> double_value hi = Some 1 then u_Bool (q_osc h) else osc_range_type h c)"

definition heard_calls :: "'f query_host \<Rightarrow> query \<Rightarrow> heard \<Rightarrow> u32 \<Rightarrow> fcall list option" where
  "heard_calls e h x property =
     (case h_range x of
        None \<Rightarrow> Some []
      | Some (a, b) \<Rightarrow>
          if h_write x \<and> \<not> h_read x then Some []
          else (let lo = qh_strtod e a; hi = qh_strtod e b; ty = heard_type h (h_char x) lo hi;
                    access = [FKey (if h_write x then q_patch_writable h else q_patch_readable h), FUrid property] in
            map_option (\<lambda>lohi. patch_calls h 0 (q_subject h) access access @
              patch_calls h 0 property
                (wildcards h [rdfs_label h, rdfs_range h, rdfs_comment h, lv2_minimum h, lv2_maximum h, lv2_scale_point h])
                (labelled (rdfs_label h) (h_path x) @ labelled (rdfs_comment h) (h_desc x) @ [FKey (rdfs_range h), FUrid ty] @ lohi))
              (bounds_calls e h ty (Some (lo, hi)))))"

lemma text_calls_pointed: "pointed s n b \<Longrightarrow> n < 2 ^ 30 \<Longrightarrow> text_calls key s n = Some (labelled key b)"
  by (auto simp: pointed_def text_calls_def labelled_def text_bytes_def unat_of_nat split: option.splits)

lemma query_add_hears:
  assumes "hears js ts r x" and "reads_numbers e" and "\<And>a b. h_range x = Some (a, b) \<Longrightarrow> prim_ok a \<and> prim_ok b"
  shows "query_add e h 0 js ts r property = heard_calls e h x property"
proof (cases "h_range x")
  case None
  with assms(1) show ?thesis by (auto simp: hears_def ranged_def query_add_def heard_calls_def count_of_def)
next
  case (Some ab)
  then obtain a b where ab: "h_range x = Some (a, b)" by (cases ab) simp
  with assms(1) obtain i p q ya yb where rg: "arg_range r = Some (2, i)" "tok_at ts i = Some (tok JSMN_PRIMITIVE p (p + length a) 0)"
    "tok_at ts (i + 1) = Some (tok JSMN_PRIMITIVE q (q + length b) 0)" "text_at js (int p) = Some (a @ 44 # ya)" "text_at js (int q) = Some (b @ 93 # yb)"
    by (auto simp: hears_def ranged_def)
  have num: "qh_strtod e (a @ 44 # ya) = qh_strtod e a" "qh_strtod e (b @ 93 # yb) = qh_strtod e b"
    using assms(2) assms(3) [OF ab] by (simp_all add: reads_numbers_def)
  have nums: "range_numbers e js ts (arg_range r) = Some (Some (qh_strtod e a, qh_strtod e b))"
    using rg num by (simp add: range_numbers_def tok_def numeral_2_eq_2)
  have labels: "text_calls key (target r) (target_len r) = Some (labelled key (h_path x))" "text_calls key (desc r) (desc_len r) = Some (labelled key (h_desc x))" for key
    using assms(1) by (auto simp: hears_def intro!: text_calls_pointed)
  have eqs: "reply.arg_type r = h_char x" "arg_read r = h_read x" "arg_write r = h_write x" "arg_values r = None" "count_of (arg_range r) = 2"
    using assms(1) rg(1) by (simp_all add: hears_def count_of_def)
  have points: "points_calls e h ty js ts None = Some []" for ty by (simp add: points_calls_def)
  show ?thesis unfolding query_add_def heard_calls_def ab eqs nums labels points Let_def option.case prod.case bind.bind_lunit heard_type_def [symmetric]
    by (cases "bounds_calls e h (heard_type h (h_char x) (qh_strtod e a) (qh_strtod e b)) (Some (qh_strtod e a, qh_strtod e b))") auto
qed

definition or_none :: "u8 list option \<Rightarrow> u8 list" where
  "or_none s = (case s of None \<Rightarrow> [] | Some b \<Rightarrow> b)"

lemma strncmp_pointed: "pointed s n b \<Longrightarrow> 0 \<notin> set m \<Longrightarrow> strncmp_eq s m n = Some (prefix (or_none b) m)"
proof (cases b)
  case (Some x)
  assume p: "pointed s n b" and m: "0 \<notin> set m"
  from p Some obtain post where s: "s = Some (x @ 34 # post)" "n = length x" "0 \<notin> set x" by (auto simp: pointed_def)
  have "x = take (length x) (m @ [0]) \<longleftrightarrow> prefix x m"
  proof
    assume x: "x = take (length x) (m @ [0])"
    then have "length x \<le> length m" using s(3) by (cases "length x \<le> length m") auto
    with x have "x = take (length x) m" by simp
    then show "prefix x m" by (metis take_is_prefix)
  qed (auto simp: prefix_def)
  then show ?thesis using s Some by (simp add: strncmp_eq_def or_none_def)
qed (simp add: pointed_def strncmp_eq_def or_none_def)

definition is_method :: "heard \<Rightarrow> bool" where
  "is_method x \<longleftrightarrow> prefix (or_none (h_type x)) (cstr ''method'') \<and> h_args x = 1"

lemma range_says:
  "list_all says_ok fs \<Longrightarrow> (\<And>a b. h_range x = Some (a, b) \<Longrightarrow> prim_ok a \<and> prim_ok b) \<Longrightarrow>
   h_range (fold hear fs x) = Some (a, b) \<Longrightarrow> prim_ok a \<and> prim_ok b"
proof -
  define ok where "ok x \<longleftrightarrow> (\<forall>a b. h_range x = Some (a, b) \<longrightarrow> prim_ok a \<and> prim_ok b)" for x :: heard
  have arg: "arg_says_ok f \<Longrightarrow> ok x \<Longrightarrow> ok (hear_arg j f x)" for j f x by (cases f) (auto simp: ok_def)
  have args1: "list_all arg_says_ok a \<Longrightarrow> ok x \<Longrightarrow> ok (fold (hear_arg j) a x)" for j a x
    by (induction a arbitrary: x) (auto intro: arg)
  have args: "list_all (list_all arg_says_ok) as \<Longrightarrow> ok x \<Longrightarrow> ok (hear_args j as x)" for j as x
    by (induction as arbitrary: j x) (auto intro: args1)
  have one: "says_ok f \<Longrightarrow> ok x \<Longrightarrow> ok (hear f x)" for f x
  proof (cases f)
    case (SaysArguments as)
    assume f: "says_ok f" and "ok x"
    then have "ok (x\<lparr>h_args := length as\<rparr>)" by (simp add: ok_def)
    with args [OF _ this, of as 0] f SaysArguments show ?thesis by simp
  qed (simp_all add: ok_def)
  have "list_all says_ok fs \<Longrightarrow> ok x \<Longrightarrow> ok (fold hear fs x)" for x
    by (induction fs arbitrary: x) (auto intro: one)
  then show "list_all says_ok fs \<Longrightarrow> (\<And>a b. h_range x = Some (a, b) \<Longrightarrow> prim_ok a \<and> prim_ok b) \<Longrightarrow>
   h_range (fold hear fs x) = Some (a, b) \<Longrightarrow> prim_ok a \<and> prim_ok b" unfolding ok_def by blast
qed

text \<open>
  C4. The reply to a request, which is the JSON text of what the server says of a method, makes the property of that
  method: when it is a method with one argument, the messages with its access, label, comment, type and bounds are
  forged, and nothing else; and a request for each of the items below it is offered to the ring buffer, in their
  order, which takes each exactly when it has room; when there is room for all, all are queued behind what waits.
\<close>

theorem query_reply_hears:
  assumes "list_all says_ok fs" and "length (json_text (reply_json fs)) < 2 ^ 30" and "length (json_toks (reply_json fs) 0) \<le> MAX_TOKENS"
    and "length (q_tokens (own w)) = MAX_TOKENS" and "queue_inv k (q_rb (own w)) q" and "qh_forge e = recording" and "reads_numbers e"
    and "x = fold hear fs nothing" and "heard_calls e h x (qh_map e (or_none (h_path x))) = Some cs"
  shows "\<exists>w' oks. query_reply e h (json_text (reply_json fs)) w = Some w' \<and>
    fst (pforge w') = fst (pforge w) @ (if is_method x then cs else []) \<and>
    offered k (requests fs nothing) oks (q_rb (own w)) (q_rb (own w')) \<and>
    queue_inv k (q_rb (own w')) (q @ accepted oks (requests fs nothing)) \<and>
    (blocks_size (requests fs nothing) + 8 \<le> room_left k (q_rb (own w)) \<longrightarrow> accepted oks (requests fs nothing) = requests fs nothing)"
proof -
  let ?js = "json_text (reply_json fs)" and ?T = "json_toks (reply_json fs) 0" and ?old = "q_tokens (own w)"
  let ?ts = "?T @ drop (length ?T) ?old"
  from jsmn_reads_all [OF reply_ok [OF assms(1)], of ?old] assms(3,4) obtain s where
    s: "jsmn_parse ?js (jsmn_init (Some ?old)) = Some (Inr (length ?T), s)" "toks s = Some ?ts" by auto
  have "value_at ?js ?ts 0 0 (reply_json fs)" by (simp add: value_at_def)
  then have i: "items_at ?js ?ts 1 1 (map obj_item (map member fs))"
    using obj_items_at [of ?js ?ts 0 0 "map member fs"] by (simp add: reply_json_def)
  have n: "length ?T = 1 + length (item_toks 1 (map obj_item (map member fs)))"
    by (simp add: reply_json_def json_obj(2) del: json_text.simps json_toks.simps)
  from query_fields_hear [OF assms(2) i assms(1) hears_nothing assms(5) n] obtain r v oks where
    r: "query_fields ?js ?ts (length ?T) 1 no_reply (q_rb (own w)) = Some (r, v)" "hears ?js ?ts r x" "queued k (q_rb (own w)) q (requests fs nothing) oks v"
    unfolding assms(8) by blast
  have "h_range x = Some (a, b) \<Longrightarrow> prim_ok a \<and> prim_ok b" for a b
    using range_says [OF assms(1), of nothing a b] by (simp add: assms(8) nothing_def)
  note add = query_add_hears [OF r(2) assms(7) this, of h]
  have "strncmp_eq (rtype r) (cstr ''method'') (rtype_len r) = Some (prefix (or_none (h_type x)) (cstr ''method''))"
    using r(2) by (intro strncmp_pointed) (simp_all add: hears_def c8_def)
  moreover have "arg_n r = h_args x" "target_len r < 1024" using r(2) by (simp_all add: hears_def)
  moreover have "\<exists>d. c_strncpy (target r) (target_len r) = Some d \<and> takeWhile (\<lambda>b. b \<noteq> 0) d = or_none (h_path x)"
    using r(2) by (auto simp: hears_def pointed_def c_strncpy_def or_none_def takeWhile_eq_all_conv split: option.splits)
  ultimately show ?thesis
    using s r(1,3) add assms(6,9)
    by (auto simp: query_reply_def is_method_def Let_def set_own_def own_def q_forged_def queued_def intro!: exI [of _ oks] simp del: cstr_simps)
qed

text \<open>A reply with a method that has items below it\<close>

definition sample_says :: "says list" where
  "sample_says = [SaysPath (cstr ''/a''), SaysType (cstr ''method''), SaysItems [cstr ''/b''],
     SaysArguments [[ArgType (cstr ''f''), ArgWrite True, ArgRange (cstr ''0'') (cstr ''1'')]]]"

lemma sample_reads: "reads_numbers sample_query_host"
  by (auto simp: reads_numbers_def sample_query_host_def prim_ok_def)

lemma sample_heard:
  "fold hear sample_says nothing = \<lparr>h_path = Some (cstr ''/a''), h_type = Some (cstr ''method''), h_desc = None, h_args = 1, h_char = c8 CHR ''f'',
     h_read = True, h_write = True, h_range = Some (cstr ''0'', cstr ''1'')\<rparr>"
  by (simp add: sample_says_def nothing_def c_char_def)

theorem query_reply_hears_witness:
  "\<exists>w' cs. query_reply sample_query_host sample_query (json_text (reply_json sample_says)) sample_query_world = Some w' \<and>
    fst (pforge w') = fst (pforge sample_query_world) @ cs \<and> cs \<noteq> [] \<and> queue_inv 16 (q_rb (own w')) [cstr ''/a/b!'' @ [0]]"
proof -
  have "\<exists>cs. heard_calls sample_query_host sample_query (fold hear sample_says nothing)
      (qh_map sample_query_host (or_none (h_path (fold hear sample_says nothing)))) = Some cs \<and> cs \<noteq> []"
    unfolding sample_heard
    by (simp add: heard_calls_def Let_def bounds_calls_def heard_type_def number_call_def osc_range_type_def patch_calls_def c8_def
      host_urid_def lv2_osc_urid_init_def)
  then obtain cs where cs: "heard_calls sample_query_host sample_query (fold hear sample_says nothing)
      (qh_map sample_query_host (or_none (h_path (fold hear sample_says nothing)))) = Some cs" "cs \<noteq> []" by blast
  have "list_all says_ok sample_says"
    by (simp add: sample_says_def c8_def plain_escapes_def prim_ok_def ends_primitive_def is_blank_def)
  moreover have "length (json_text (reply_json sample_says)) < 2 ^ 30" "length (json_toks (reply_json sample_says) 0) \<le> MAX_TOKENS"
    by (simp_all add: sample_says_def reply_json_def truth_def MAX_TOKENS_def)
  moreover have "length (q_tokens (own sample_query_world)) = MAX_TOKENS" by (simp add: sample_query_world_def own_def MAX_TOKENS_def)
  moreover have ring: "queue_inv 16 (q_rb (own sample_query_world)) []" by (simp add: sample_query_world_def own_def)
  moreover have "qh_forge sample_query_host = recording" by (simp add: sample_query_host_def)
  note query_reply_hears [OF _ _ _ _ ring this sample_reads refl cs(1)]
  ultimately obtain w' oks where w': "query_reply sample_query_host sample_query (json_text (reply_json sample_says)) sample_query_world = Some w'"
    "fst (pforge w') = fst (pforge sample_query_world) @ (if is_method (fold hear sample_says nothing) then cs else [])"
    "queue_inv 16 (q_rb (own w')) (accepted oks (requests sample_says nothing))"
    "blocks_size (requests sample_says nothing) + 8 \<le> room_left 16 (q_rb (own sample_query_world)) \<longrightarrow>
      accepted oks (requests sample_says nothing) = requests sample_says nothing"
    unfolding append_Nil by blast
  have req: "requests sample_says nothing = [cstr ''/a/b!'' @ [0]]"
    by (simp add: sample_says_def nothing_def request_def c8_def)
  have "is_method (fold hear sample_says nothing)" unfolding sample_heard by (simp add: is_method_def or_none_def c8_def)
  moreover have "blocks_size (requests sample_says nothing) + 8 \<le> room_left 16 (q_rb (own sample_query_world))"
    using room_left_empty [OF ring] by (simp add: req pad8_def)
  ultimately show ?thesis using w' cs(2) req by (intro exI [of _ w'] exI [of _ cs]) simp
qed

section \<open>Two replies that are mishandled\<close>

lemma arguments_overrun:
  assumes v: "value_at js ts p i (arg_json [ArgDescription s])" and js: "length js < 2 ^ 31" and s: "1024 \<le> length s"
  shows "query_arguments js ts 0 1 i r = None"
proof -
  let ?k = "cstr ''description''"
  obtain xs where "drop i ts = json_toks (arg_json [ArgDescription s]) p @ xs" using v by (auto simp: value_at_def)
  then have obj: "tok_at ts i = Some (tok JSMN_OBJECT p (p + length (json_text (arg_json [ArgDescription s]))) 1)"
    by (intro tok_at_drop) (simp add: arg_json_def json_obj(2) del: json_text.simps json_toks.simps)
  have "items_at js ts (p + 1) (i + 1) (map obj_item [(?k, JStr s)])"
    using obj_items_at [OF v [unfolded arg_json_def]] by simp
  from obj_item_at [OF this] have k: "key_at js ts (p + 1) (i + 1) ?k" and vs: "value_at js ts (p + 1 + length ?k + 3) (i + 1 + 1) (JStr s)" by blast+
  let ?key = "tok JSMN_STRING (p + 1 + 1) (p + 1 + 1 + length ?k) 1" and ?q = "p + 1 + length ?k + 3"
  have "json_switch js ?key arg_keys = Some (Some ?k)" by (rule json_switch_key [OF k]) simp
  note eq = arg_field_cases(2) [OF this]
  obtain post where "json_string js (tok JSMN_STRING (?q + 1) (?q + 1 + length s) 0) 0 = Some (Some (s @ 34 # post), length s)"
    using string_value(1) [OF vs js] by blast
  then have "arg_field js 0 ?key (tok JSMN_STRING (?q + 1) (?q + 1 + length s) 0) (i + 1 + 2) r = None"
    unfolding eq using s by simp
  moreover have "tok_at ts (i + 1) = Some ?key" using k by (simp add: key_at_def)
  moreover note string_value(2) [OF vs js]
  ultimately have "arg_fields js ts 0 1 (i + 1) r = None" by (simp del: cstr_simps)
  with obj show ?thesis by (simp add: tok_def)
qed

text \<open>
  C37. A description of an argument of 1024 bytes or more is copied beyond the end of a buffer on the stack; the reply comes
  from the network.
\<close>

theorem query_description_overruns:
  assumes "str_ok s" and "1024 \<le> length s" and "length s < 2 ^ 30" and "length (q_tokens (own w)) = MAX_TOKENS"
  shows "query_reply e h (json_text (reply_json [SaysArguments [[ArgDescription s]]])) w = None"
proof -
  let ?k = "cstr ''arguments''" and ?a = "arg_json [ArgDescription s]"
  let ?v = "reply_json [SaysArguments [[ArgDescription s]]]"
  let ?js = "json_text ?v" and ?T = "json_toks ?v 0" and ?old = "q_tokens (own w)"
  let ?ts = "?T @ drop (length ?T) ?old"
  have "json_ok ?v" using assms(1) by (simp add: reply_json_def c8_def plain_escapes_def)
  moreover have T: "length ?T = 6" "length ?js < 2 ^ 31" using assms(3) by (simp_all add: reply_json_def)
  ultimately obtain st where st: "jsmn_parse ?js (jsmn_init (Some ?old)) = Some (Inr 6, st)" "toks st = Some ?ts"
    using jsmn_reads_all [of ?v ?old] assms(4) by (auto simp: MAX_TOKENS_def)
  have "value_at ?js ?ts 0 0 (JObj (map member [SaysArguments [[ArgDescription s]]]))" by (simp add: value_at_def reply_json_def)
  from obj_items_at [OF this] have "items_at ?js ?ts (0 + 1) (0 + 1) (map obj_item [(?k, JArr [?a])])" by (simp add: arg_json_def)
  from obj_item_at [OF this] obtain q where k: "key_at ?js ?ts (0 + 1) (0 + 1) ?k" and v: "value_at ?js ?ts q (0 + 1 + 1) (JArr [?a])" by blast
  from arr_items_at [OF v] have "items_at ?js ?ts (q + 1) (0 + 1 + 1 + 1) (map arr_item [?a])" by simp
  from arr_item_at [OF this] have "value_at ?js ?ts (q + 1) (0 + 1 + 1 + 1) ?a" by blast
  note none = arguments_overrun [OF this T(2) assms(2)]
  let ?key = "tok JSMN_STRING (0 + 1 + 1) (0 + 1 + 1 + length ?k) 1"
  have "json_switch ?js ?key says_keys = Some (Some ?k)" by (rule json_switch_key [OF k]) simp
  note eq = query_field_cases(5) [OF this]
  obtain xs where "drop (0 + 1 + 1) ?ts = json_toks (JArr [?a]) q @ xs" using v by (auto simp: value_at_def)
  then have arr: "tok_at ?ts (0 + 1 + 1) = Some (tok JSMN_ARRAY q (q + length (json_text (JArr [?a]))) 1)"
    by (intro tok_at_drop) (simp add: json_arr(2) del: json_text.simps json_toks.simps)
  have "query_field ?js ?ts ?key (tok JSMN_ARRAY q (q + length (json_text (JArr [?a]))) 1) (0 + 1 + 2) r rb = None" for r rb
    unfolding eq using none by (simp add: tok_def numeral_eq_Suc)
  moreover have "tok_at ?ts (0 + 1) = Some ?key" using k by (simp add: key_at_def)
  ultimately have "query_fields ?js ?ts 6 1 no_reply rb = None" for rb
    using arr by (subst query_fields.simps) (simp del: cstr_simps)
  then show ?thesis using st by (simp add: query_reply_def)
qed

theorem query_description_overruns_witness:
  "query_reply sample_query_host sample_query (json_text (reply_json [SaysArguments [[ArgDescription (replicate 1024 97)]]])) sample_query_world = None"
proof (rule query_description_overruns)
  have "str_ok (replicate n 97)" for n by (induction n) simp_all
  then show "str_ok (replicate 1024 97)" .
qed (simp_all add: sample_query_world_def own_def MAX_TOKENS_def)

end
