(* ===== verification/Atom_Read.thy ===== *)
theory Atom_Read
  imports Osc_Atom
begin

text \<open>
  Sequences of events in memory, and reading them back as trees: what a plugin sees that gets a sequence
  as a copy of its bytes. Tuples and objects are told by their types, as in the atoms of OSC.
\<close>

section \<open>Reading\<close>

definition word_at :: "nat \<Rightarrow> u8 list \<Rightarrow> u32" where
  "word_at p bs = de32 (rev (take 4 (drop p bs)))"

text \<open>The atom at the front: its type, its body, and what is behind its padding\<close>

definition split_atom :: "u8 list \<Rightarrow> (u32 \<times> u8 list \<times> u8 list) option" where
  "split_atom bs =
     (let n = unat (word_at 0 bs) in
      if 8 + n \<le> length bs then Some (word_at 4 bs, take n (drop 8 bs), drop (8 + (n + 7) div 8 * 8) bs) else None)"

fun read_body :: "nat \<Rightarrow> lv2_osc_urid \<Rightarrow> u32 \<Rightarrow> u8 list \<Rightarrow> abody option"
  and read_atoms :: "nat \<Rightarrow> lv2_osc_urid \<Rightarrow> u8 list \<Rightarrow> atom list option"
  and read_props :: "nat \<Rightarrow> lv2_osc_urid \<Rightarrow> u8 list \<Rightarrow> aprop list option" where
  "read_body 0 u t bs = None"
| "read_body (Suc k) u t bs =
     (if t = u_Tuple u then map_option Tuple (read_atoms k u bs)
      else if t = u_Object u
      then if length bs < 8 then None else map_option (Object (word_at 0 bs) (word_at 4 bs)) (read_props k u (drop 8 bs))
      else Some (Bytes bs))"
| "read_atoms 0 u bs = None"
| "read_atoms (Suc k) u bs =
     (if bs = [] then Some []
      else Option.bind (split_atom bs) (\<lambda>(t, b, r). Option.bind (read_body k u t b) (\<lambda>x.
        map_option (Cons (Atom t x)) (read_atoms k u r))))"
| "read_props 0 u bs = None"
| "read_props (Suc k) u bs =
     (if bs = [] then Some []
      else Option.bind (split_atom (drop 8 bs)) (\<lambda>(t, b, r). Option.bind (read_body k u t b) (\<lambda>x.
        map_option (Cons (Prop (word_at 0 bs) (Atom t x))) (read_props k u r))))"

text \<open>\<open>LV2_ATOM_SEQUENCE_FOREACH\<close>\<close>

fun read_events :: "nat \<Rightarrow> lv2_osc_urid \<Rightarrow> u8 list \<Rightarrow> (u64 \<times> atom) list option" where
  "read_events 0 u bs = None"
| "read_events (Suc k) u bs =
     (if bs = [] then Some []
      else Option.bind (split_atom (drop 8 bs)) (\<lambda>(t, b, r). Option.bind (read_body k u t b) (\<lambda>x.
        map_option (Cons (de64 (rev (take 8 bs)), Atom t x)) (read_events k u r))))"

definition read_sequence :: "nat \<Rightarrow> lv2_osc_urid \<Rightarrow> u8 list \<Rightarrow> (u64 \<times> atom) list option" where
  "read_sequence k u bs = Option.bind (split_atom bs) (\<lambda>(t, b, r). if length b < 8 then None else read_events k u (drop 8 b))"

section \<open>Writing and reading\<close>

definition event_bytes :: "u64 \<times> atom \<Rightarrow> u8 list" where
  "event_bytes ev = le64 (fst ev) @ atom_bytes (snd ev)"

definition seq_body :: "(u64 \<times> atom) list \<Rightarrow> u8 list" where
  "seq_body evs = le32 0 @ le32 0 @ concat (map event_bytes evs)"

definition seq_bytes :: "u32 \<Rightarrow> (u64 \<times> atom) list \<Rightarrow> u8 list" where
  "seq_bytes t evs = le32 (of_nat (length (seq_body evs))) @ le32 t @ seq_body evs"

text \<open>Trees whose types say what they are\<close>

primrec atom_typed :: "lv2_osc_urid \<Rightarrow> atom \<Rightarrow> bool" and body_typed :: "lv2_osc_urid \<Rightarrow> abody \<Rightarrow> u32 \<Rightarrow> bool"
  and prop_typed :: "lv2_osc_urid \<Rightarrow> aprop \<Rightarrow> bool" where
  "atom_typed u (Atom t b) \<longleftrightarrow> body_typed u b t"
| "body_typed u (Bytes bs) = (\<lambda>t. t \<noteq> u_Tuple u \<and> t \<noteq> u_Object u)"
| "body_typed u (Tuple as) = (\<lambda>t. t = u_Tuple u \<and> list_all id (map (atom_typed u) as))"
| "body_typed u (Object i ot ps) = (\<lambda>t. t = u_Object u \<and> t \<noteq> u_Tuple u \<and> list_all id (map (prop_typed u) ps))"
| "prop_typed u (Prop k a) \<longleftrightarrow> atom_typed u a"

lemma word_at_le32 [simp]: "word_at 0 (le32 v @ bs) = v" "word_at 4 (le32 x @ le32 v @ bs) = v" "word_at 0 (le32 v) = v"
  by (simp_all add: word_at_def le32_def)

lemma split_atom_bytes: "length (body_bytes b) < 2 ^ 32 \<Longrightarrow> split_atom (atom_bytes (Atom t b) @ rest) = Some (t, body_bytes b, rest)"
proof -
  assume n: "length (body_bytes b) < 2 ^ 32"
  then have "unat (of_nat (length (body_bytes b)) :: u32) = length (body_bytes b)" by (simp add: unat_of_nat)
  moreover have "n \<le> (n + 7) div 8 * 8 + m" for n m :: nat by presburger
  moreover have "drop (8 + n) (le32 x @ le32 y @ bs) = drop n bs" for n x y bs by simp
  ultimately show ?thesis by (simp add: split_atom_def pad_to8_def Let_def)
qed

text \<open>Fuel: more than one byte beyond the body is enough, as every level of nesting has a head.\<close>

definition read_back :: "lv2_osc_urid \<Rightarrow> atom \<Rightarrow> bool" where
  "read_back u a \<longleftrightarrow> length (body_bytes (atom_body a)) < 2 ^ 32 \<and>
     (\<forall>k. length (body_bytes (atom_body a)) + 1 < k \<longrightarrow> read_body k u (atom_type a) (body_bytes (atom_body a)) = Some (atom_body a))"

lemma atom_bytes_simp: "atom_bytes a = le32 (of_nat (length (body_bytes (atom_body a)))) @ le32 (atom_type a) @ pad_to8 (body_bytes (atom_body a))"
  by (cases a) simp

lemma split_front:
  assumes "read_back u a"
  shows "split_atom (atom_bytes a @ rest) = Some (atom_type a, body_bytes (atom_body a), rest)"
    "length (body_bytes (atom_body a)) + 8 \<le> length (atom_bytes a)" "atom_bytes a \<noteq> []"
proof -
  show "split_atom (atom_bytes a @ rest) = Some (atom_type a, body_bytes (atom_body a), rest)"
    using assms split_atom_bytes [of "atom_body a" "atom_type a" rest] by (cases a) (simp add: read_back_def)
  have "n \<le> (n + 7) div 8 * 8" for n :: nat by presburger
  then show "length (body_bytes (atom_body a)) + 8 \<le> length (atom_bytes a)" "atom_bytes a \<noteq> []"
    by (simp_all add: atom_bytes_simp le32_def)
qed

lemma read_atoms_back:
  "list_all (read_back u) as \<Longrightarrow> length (concat (map atom_bytes as)) < k \<Longrightarrow> read_atoms k u (concat (map atom_bytes as)) = Some as"
proof (induction as arbitrary: k)
  case (Cons a as)
  then obtain j where k: "k = Suc j" by (cases k) auto
  have a: "read_back u a" using Cons.prems by simp
  note f = split_front(1) [OF a, of "concat (map atom_bytes as)"] split_front(2,3) [OF a]
  have "read_body j u (atom_type a) (body_bytes (atom_body a)) = Some (atom_body a)"
    using a f(2) Cons.prems(2) k by (simp add: read_back_def)
  moreover have "read_atoms j u (concat (map atom_bytes as)) = Some as" by (rule Cons.IH) (use Cons.prems f(2) k in auto)
  ultimately show ?case using f by (simp add: k)
qed (auto simp: gr0_conv_Suc)

lemma read_props_back:
  "list_all (\<lambda>p. read_back u (prop_value p)) ps \<Longrightarrow> length (concat (map prop_bytes ps)) < k \<Longrightarrow> read_props k u (concat (map prop_bytes ps)) = Some ps"
proof (induction ps arbitrary: k)
  case (Cons p ps)
  obtain x a where p: "p = Prop x a" by (cases p)
  obtain j where k: "k = Suc j" using Cons.prems by (cases k) auto
  have a: "read_back u a" using Cons.prems p by simp
  note f = split_front(1) [OF a, of "concat (map prop_bytes ps)"] split_front(2,3) [OF a]
  have "read_body j u (atom_type a) (body_bytes (atom_body a)) = Some (atom_body a)"
    using a f(2) Cons.prems(2) k p by (simp add: read_back_def)
  moreover have "read_props j u (concat (map prop_bytes ps)) = Some ps" by (rule Cons.IH) (use Cons.prems f(2) k p in auto)
  ultimately show ?case using f by (simp add: k p)
qed (auto simp: gr0_conv_Suc)

lemma length_member: "x \<in> set xs \<Longrightarrow> length (f x) \<le> length (concat (map f xs))"
  by (induction xs) auto

lemma read_ok:
  "atom_typed u a \<Longrightarrow> length (body_bytes (atom_body a)) < 2 ^ 32 \<Longrightarrow> read_back u a"
  "body_typed u b t \<Longrightarrow> length (body_bytes b) < 2 ^ 32 \<Longrightarrow> read_back u (Atom t b)"
  "prop_typed u p \<Longrightarrow> length (body_bytes (atom_body (prop_value p))) < 2 ^ 32 \<Longrightarrow> read_back u (prop_value p)"
proof (induction a and b and p arbitrary: and t and)
  case (Bytes bs)
  have "read_body k u t bs = Some (Bytes bs)" if "1 < k" for k using that Bytes by (cases k) auto
  then show ?case using Bytes by (simp add: read_back_def)
next
  case (Tuple as)
  have "read_back u a" if a: "a \<in> set as" for a
    using Tuple.IH [OF a] Tuple.prems a length_member [OF a, of atom_bytes] length_pad_to8 [of "body_bytes (atom_body a)"]
    by (auto simp: list_all_iff atom_bytes_simp)
  then have "list_all (read_back u) as" by (simp add: list_all_iff)
  note r = read_atoms_back [OF this]
  have "read_body k u t (concat (map atom_bytes as)) = Some (Tuple as)" if "length (concat (map atom_bytes as)) + 1 < k" for k
    using r [of "k - 1"] that Tuple.prems by (cases k) auto
  then show ?case using Tuple by (simp add: read_back_def)
next
  case (Object i ot ps)
  have "read_back u (prop_value p)" if p: "p \<in> set ps" for p
    using Object.IH [OF p] Object.prems p length_member [OF p, of prop_bytes] length_pad_to8 [of "body_bytes (atom_body (prop_value p))"]
    by (cases p) (auto simp: list_all_iff atom_bytes_simp)
  then have "list_all (\<lambda>p. read_back u (prop_value p)) ps" by (simp add: list_all_iff)
  note r = read_props_back [OF this]
  have "read_body k u t (le32 i @ le32 ot @ concat (map prop_bytes ps)) = Some (Object i ot ps)" if "length (concat (map prop_bytes ps)) + 9 < k" for k
    using r [of "k - 1"] that Object.prems by (cases k) auto
  then show ?case using Object by (simp add: read_back_def)
qed auto

lemma read_events_back:
  "list_all (\<lambda>ev. read_back u (snd ev)) evs \<Longrightarrow> length (concat (map event_bytes evs)) < k \<Longrightarrow> read_events k u (concat (map event_bytes evs)) = Some evs"
proof (induction evs arbitrary: k)
  case (Cons ev evs)
  obtain t a where p: "ev = (t, a)" by (cases ev)
  obtain j where k: "k = Suc j" using Cons.prems by (cases k) auto
  have a: "read_back u a" using Cons.prems p by simp
  note f = split_front(1) [OF a, of "concat (map event_bytes evs)"] split_front(2,3) [OF a]
  have "read_body j u (atom_type a) (body_bytes (atom_body a)) = Some (atom_body a)"
    using a f(2) Cons.prems(2) k p by (simp add: read_back_def event_bytes_def)
  moreover have "read_events j u (concat (map event_bytes evs)) = Some evs" by (rule Cons.IH) (use Cons.prems f(2) k p in \<open>auto simp: event_bytes_def\<close>)
  moreover have "de64 (rev (take 8 (le64 t))) = t" by (simp add: le64_def)
  moreover have "event_bytes (t, a) = le64 t @ atom_bytes a" by (simp add: event_bytes_def)
  ultimately show ?case using f by (simp add: k p)
qed (auto simp: gr0_conv_Suc)

text \<open>A sequence is read back from its bytes.\<close>

lemma read_sequence_back:
  assumes "list_all (\<lambda>ev. atom_typed u (snd ev)) evs" and "length (seq_body evs) < 2 ^ 32" and "length (seq_body evs) < k"
  shows "read_sequence k u (seq_bytes t evs) = Some evs"
proof -
  have "read_back u (snd ev)" if ev: "ev \<in> set evs" for ev
  proof (rule read_ok(1))
    show "atom_typed u (snd ev)" using assms(1) ev by (simp add: list_all_iff)
    have "length (body_bytes (atom_body (snd ev))) \<le> length (event_bytes ev)"
      using length_pad_to8 [of "body_bytes (atom_body (snd ev))"] by (simp add: event_bytes_def atom_bytes_simp)
    with length_member [OF ev, of event_bytes] assms(2) show "length (body_bytes (atom_body (snd ev))) < 2 ^ 32"
      by (simp add: seq_body_def)
  qed
  then have "read_events k u (concat (map event_bytes evs)) = Some evs"
    using assms(3) by (intro read_events_back) (simp_all add: list_all_iff seq_body_def)
  moreover have "unat (of_nat (length (seq_body evs)) :: u32) = length (seq_body evs)" using assms(2) by (simp add: unat_of_nat)
  ultimately show ?thesis by (simp add: read_sequence_def split_atom_def seq_bytes_def) (simp add: seq_body_def)
qed

end
