(* ===== verification/Ninja.thy ===== *)
theory Ninja
  imports Complex_Main Plugin Netatom Atom_Read
begin

text \<open>
  The plugin \<open>eteroj_ninja.c\<close>: events that are no OSC become OSC messages that carry them, made ready for the
  network by \<open>netatom.h\<close>, and such messages become events again; in the period itself, or in a worker
  that gets the sequences through ring buffers. The worker forges through a sink that grows.
\<close>

definition NINJA_BUF_SIZE :: nat where "NINJA_BUF_SIZE = 8192"

definition base_path :: "u8 list" where "base_path = cstr ''/ninja''"

section \<open>The sink\<close>

text \<open>\<open>ser_buf\<close> is \<open>None\<close> for \<open>NULL\<close>, else the memory that was allocated.\<close>

record ser =
  ser_size :: u32
  ser_buf :: "u8 list option"
  ser_offset :: u32

text \<open>Memory: \<open>None\<close> when there is none, else what it holds. \<open>realloc\<close> keeps what was there.\<close>

type_synonym alloc = "nat \<Rightarrow> (nat \<Rightarrow> u8) option"

definition c_realloc :: "alloc \<Rightarrow> u8 list \<Rightarrow> nat \<Rightarrow> u8 list option" where
  "c_realloc al b n = map_option (\<lambda>g. take n b @ map g [length b..<n]) (al n)"

text \<open>\<open>while(new_offset > new_size) new_size <<= 1;\<close>\<close>

fun doubled :: "nat \<Rightarrow> u32 \<Rightarrow> u32 \<Rightarrow> u32 run" where
  "doubled 0 want n = Endless"
| "doubled (Suc k) want n = (if n < want then doubled k want (push_bit 1 n) else Done n)"

text \<open>The result is the reference, zero for a failure.\<close>

definition sink_bytes :: "alloc \<Rightarrow> nat \<Rightarrow> u8 list \<Rightarrow> ser \<Rightarrow> (u32 \<times> ser) run" where
  "sink_bytes al k bs s =
     (let ref = ser_offset s + 1; new_offset = ser_offset s + of_nat (length bs) in
      run_bind
        (if ser_size s < new_offset
         then run_bind (doubled k new_offset (push_bit 1 (ser_size s))) (\<lambda>n.
           case c_realloc al (case ser_buf s of None \<Rightarrow> [] | Some b \<Rightarrow> b) (unat n) of
             None \<Rightarrow> Done (False, s\<lparr>ser_buf := None\<rparr>)
           | Some b \<Rightarrow> Done (True, s\<lparr>ser_buf := Some b, ser_size := n\<rparr>))
         else Done (True, s))
        (\<lambda>(ok, s1).
          if \<not> ok then Done (0, s1)
          else case ser_buf s1 of
              None \<Rightarrow> Undefined
            | Some b \<Rightarrow>
                if unat (ser_offset s1) + length bs \<le> length b
                then Done (ref, s1\<lparr>ser_buf := Some (overwrite (unat (ser_offset s1)) bs b), ser_offset := new_offset\<rparr>)
                else Undefined))"

text \<open>The place a reference stands for, as an index of the buffer\<close>

definition sink_deref :: "u32 \<Rightarrow> ser \<Rightarrow> nat option" where
  "sink_deref ref s = map_option (\<lambda>_. unat (ref - 1)) (ser_buf s)"

text \<open>
  A forge that writes through a sink gets the two functions above; \<open>'g\<close> is its stack. What the sink does
  may be undefined, which stays so.
\<close>

type_synonym 'g sink_forge =
  "(u8 list \<Rightarrow> ser \<Rightarrow> (u32 \<times> ser) run) \<Rightarrow> (u32 \<Rightarrow> ser \<Rightarrow> nat option) \<Rightarrow> fcall \<Rightarrow> ser \<times> 'g \<Rightarrow> (bool \<times> ser \<times> 'g) run"

definition sinking :: "'g sink_forge \<Rightarrow> alloc \<Rightarrow> nat \<Rightarrow> (ser \<times> 'g) run forge" where
  "sinking fs al k c f =
     (case run_bind f (fs (sink_bytes al k) sink_deref c) of
        Done (ok, sg) \<Rightarrow> (ok, Done sg)
      | Undefined \<Rightarrow> (False, Undefined)
      | Endless \<Rightarrow> (False, Endless))"

section \<open>State\<close>

record ninja_st =
  nj_buf :: "u8 list"
  nj_to :: varchunk
  nj_from :: varchunk
  nj_ser :: ser
  nj_scheduled :: bool

type_synonym 'f ninja_world = "('f \<times> ninja_st) world"

record ninja =
  nj_osc :: lv2_osc_urid
  nj_net :: netatom
  at_synchronous :: addr

record ('f, 'g) ninja_host =
  jh_forge :: "'f forge"
  jh_get :: object_get
  jh_object :: "u32 \<Rightarrow> bool"
  jh_float :: "u64 \<Rightarrow> u32"
  jh_sink :: "'g sink_forge"
  jh_stack :: 'g
  jh_alloc :: alloc

section \<open>Conversion\<close>

text \<open>The forge that is written to, whether it has had room, and the buffer of the handle\<close>

record 'f conv =
  cv_f :: 'f
  cv_ref :: bool
  cv_buf :: "u8 list"

definition cv_call :: "(unit, 'f) call \<Rightarrow> 'f conv \<Rightarrow> 'f conv option" where
  "cv_call call c =
     (if cv_ref c
      then case call (cv_f c) of
          (Ok _, f) \<Rightarrow> Some (c\<lparr>cv_f := f\<rparr>)
        | (Fail, f) \<Rightarrow> Some (c\<lparr>cv_f := f, cv_ref := False\<rparr>)
        | (Fault, f) \<Rightarrow> None
      else Some c)"

text \<open>\<open>memcpy(handle->buf, \<dots>)\<close>, without a check, as both \<open>_convert_seq\<close> and \<open>_unroll\<close> have it\<close>

definition stage :: "u8 list \<Rightarrow> 'f conv \<Rightarrow> 'f conv option" where
  "stage bs c = (if length bs \<le> length (cv_buf c) then Some (c\<lparr>cv_buf := overwrite 0 bs (cv_buf c)\<rparr>) else None)"

text \<open>The atom at the beginning of a buffer, \<open>lv2_atom_total_size\<close> bytes of it\<close>

definition front_atom :: "u8 list \<Rightarrow> u8 list option" where
  "front_atom b = (let n = unat (8 + word_at 0 b) in if 8 \<le> length b \<and> n \<le> length b then Some (take n b) else None)"

definition ninja_unroll :: "'f forge \<Rightarrow> ninja \<Rightarrow> nat \<Rightarrow> u64 \<Rightarrow> 'f conv run lv2_osc_method" where
  "ninja_unroll fd h k t path body r =
     run_bind r (\<lambda>c.
     run_bind (lift (bytes_str path)) (\<lambda>p.
       if p \<noteq> base_path then Done c
       else case Option.bind body tuple_items of
           Some (a # _) \<Rightarrow>
             if atom_type a \<noteq> u_Chunk (nj_osc h) then Done c
             else let bs = body_bytes (atom_body a) in
               run_bind (lift (stage bs c)) (\<lambda>c1.
               run_bind (netatom_deserialize k (nj_net h) (cv_buf c1) (length bs)) (\<lambda>b.
               run_bind (lift (cv_call (forge_steps fd [Keep (FFrameTime t)]) (c1\<lparr>cv_buf := b\<rparr>))) (\<lambda>c2.
                 if cv_ref c2 then lift (Option.bind (front_atom b) (\<lambda>w. cv_call (forge_steps fd [Keep (FWrite w)]) c2))
                 else Done c2)))
         | _ \<Rightarrow> Undefined))"

definition convert_event :: "'f forge \<Rightarrow> object_get \<Rightarrow> (u64 \<Rightarrow> u32) \<Rightarrow> ninja \<Rightarrow> nat \<Rightarrow> u64 \<times> atom \<Rightarrow> 'f conv \<Rightarrow> 'f conv run" where
  "convert_event fd oget d2f h k ev c = (case ev of (t, a) \<Rightarrow>
     run_bind (lift (body_otype (atom_body a))) (\<lambda>ot.
       if lv2_osc_is_message_or_bundle_type (nj_osc h) ot
       then (case lv2_osc_unroll k (nj_osc h) oget a (Some (ninja_unroll fd h k t)) (Done c) of
               None \<Rightarrow> Endless
             | Some (res, r) \<Rightarrow> if res = Fault then Undefined else r)
       else run_bind (lift (stage (atom_whole a) c)) (\<lambda>c1.
            run_bind (netatom_serialize k (nj_net h) (cv_buf c1) NINJA_BUF_SIZE) (\<lambda>(b, sz).
              let c2 = c1\<lparr>cv_buf := b\<rparr> in
              case sz of
                None \<Rightarrow> Done c2
              | Some n \<Rightarrow>
                  run_bind (lift (cv_call (forge_steps fd [Keep (FFrameTime t)]) c2)) (\<lambda>c3.
                    lift (cv_call (lv2_osc_forge_message_vararg fd (nj_osc h) d2f base_path (cstr ''b'')
                      [Va (VaInt (of_nat n)), Va (VaBytes (take n b))]) c3))))))"

fun convert_seq :: "'f forge \<Rightarrow> object_get \<Rightarrow> (u64 \<Rightarrow> u32) \<Rightarrow> ninja \<Rightarrow> nat \<Rightarrow> (u64 \<times> atom) list \<Rightarrow> 'f conv \<Rightarrow> 'f conv run" where
  "convert_seq fd oget d2f h k [] c = Done c"
| "convert_seq fd oget d2f h k (ev # evs) c = run_bind (convert_event fd oget d2f h k ev c) (convert_seq fd oget d2f h k evs)"

section \<open>The worker\<close>

text \<open>A sequence is converted into the sink's buffer, from its beginning.\<close>

definition work_convert :: "('f, 'g) ninja_host \<Rightarrow> ninja \<Rightarrow> nat \<Rightarrow> (u64 \<times> atom) list \<Rightarrow> u8 list \<Rightarrow> ser \<Rightarrow> (u8 list \<times> ser) run" where
  "work_convert e h k evs buf s =
     (let fd = sinking (jh_sink e) (jh_alloc e) k in
      case fd (FSequenceHead 0) (Done (s\<lparr>ser_offset := 0\<rparr>, jh_stack e)) of (ok, f) \<Rightarrow>
        run_bind (convert_seq fd (jh_get e) (jh_float e) h k evs \<lparr>cv_f = f, cv_ref = ok, cv_buf = buf\<rparr>) (\<lambda>c.
        run_bind (if cv_ref c then snd (fd FPop (cv_f c)) else cv_f c) (\<lambda>(s1, g). Done (cv_buf c, s1))))"

text \<open>What is in the buffer is sent back, unless it is an empty sequence.\<close>

definition work_respond :: "ninja_st \<Rightarrow> ninja_st option" where
  "work_respond x =
     Option.bind (ser_buf (nj_ser x)) (\<lambda>b.
       if length b < 8 then None
       else if word_at 0 b \<le> 8 then Some x
       else Option.bind (front_atom b) (\<lambda>bs. map_option (\<lambda>(ok, v). x\<lparr>nj_from := v\<rparr>) (ring_send bs (nj_from x))))"

fun ninja_work :: "nat \<Rightarrow> ('f, 'g) ninja_host \<Rightarrow> ninja \<Rightarrow> nat \<Rightarrow> ninja_st \<Rightarrow> ninja_st run" where
  "ninja_work 0 e h k x = Endless"
| "ninja_work (Suc j) e h k x =
     run_bind (lift (ring_front (nj_to x))) (\<lambda>(r, v).
       case r of
         None \<Rightarrow> Done (x\<lparr>nj_to := v\<rparr>)
       | Some (p, n) \<Rightarrow>
           run_bind (lift (Option.bind (chunk_load p n v) (read_sequence k (nj_osc h)))) (\<lambda>evs.
           run_bind (work_convert e h k evs (nj_buf x) (nj_ser x)) (\<lambda>(b, s).
           run_bind (lift (work_respond (x\<lparr>nj_to := v, nj_buf := b, nj_ser := s\<rparr>))) (\<lambda>x2.
           run_bind (lift (varchunk_read_advance (nj_to x2))) (\<lambda>v1.
             ninja_work j e h k (x2\<lparr>nj_to := v1\<rparr>))))))"

section \<open>A period\<close>

text \<open>The properties of the plugin have no callback.\<close>

definition no_callback :: "'f callback" where
  "no_callback frames impl w = Some w"

fun ninja_props :: "('f, 'g) ninja_host \<Rightarrow> (u64 \<times> atom) list \<Rightarrow> 'f ninja_world \<Rightarrow> 'f ninja_world option" where
  "ninja_props e [] w = Some w"
| "ninja_props e (ev # evs) w =
     Option.bind (props_advance (beside (jh_forge e)) no_callback (jh_get e) (jh_object e) 0 (snd ev) w) (\<lambda>(handled, w1).
       ninja_props e evs w1)"

definition ninja_sync :: "('f, 'g) ninja_host \<Rightarrow> ninja \<Rightarrow> nat \<Rightarrow> (u64 \<times> atom) list \<Rightarrow> 'f ninja_world \<Rightarrow> 'f ninja_world run" where
  "ninja_sync e h k evs w =
     run_bind (convert_seq (jh_forge e) (jh_get e) (jh_float e) h k evs \<lparr>cv_f = fst (pforge w), cv_ref = pref w, cv_buf = nj_buf (own w)\<rparr>) (\<lambda>c.
       Done (w\<lparr>pforge := (cv_f c, (own w)\<lparr>nj_buf := cv_buf c\<rparr>), pref := cv_ref c\<rparr>))"

text \<open>The input goes to the worker as it is, unless it is empty; when there is no room it is only logged.\<close>

definition ninja_hand_over :: "ninja \<Rightarrow> (u64 \<times> atom) list \<Rightarrow> 'f ninja_world \<Rightarrow> 'f ninja_world option" where
  "ninja_hand_over h evs w =
     (if length (seq_body evs) \<le> 8 then Some w
      else map_option (\<lambda>(ok, v). set_own ((own w)\<lparr>nj_to := v, nj_scheduled := nj_scheduled (own w) \<or> ok\<rparr>) w)
        (ring_send (seq_bytes (n_type (nj_net h) KSequence) evs) (nj_to (own w))))"

fun ninja_emit :: "'f forge \<Rightarrow> (u64 \<times> atom) list \<Rightarrow> ('f \<times> ninja_st) world \<Rightarrow> ('f \<times> ninja_st) world option" where
  "ninja_emit fd [] w = Some w"
| "ninja_emit fd (ev # evs) w =
     Option.bind (w_call (forge_steps (beside fd) [Keep (FFrameTime (fst ev)), Keep (FWrite (atom_whole (snd ev)))]) w) (ninja_emit fd evs)"

text \<open>One sequence of the worker's is taken over.\<close>

definition ninja_take_over :: "('f, 'g) ninja_host \<Rightarrow> ninja \<Rightarrow> nat \<Rightarrow> 'f ninja_world \<Rightarrow> 'f ninja_world option" where
  "ninja_take_over e h k w =
     Option.bind (ring_front (nj_from (own w))) (\<lambda>(r, v).
       let w1 = set_own ((own w)\<lparr>nj_from := v\<rparr>) w in
       case r of
         None \<Rightarrow> Some w1
       | Some (p, n) \<Rightarrow>
           Option.bind (Option.bind (chunk_load p n v) (read_sequence k (nj_osc h))) (\<lambda>evs.
           Option.bind (ninja_emit (jh_forge e) evs w1) (\<lambda>w2.
             map_option (\<lambda>v1. set_own ((own w2)\<lparr>nj_from := v1\<rparr>) w2) (varchunk_read_advance (nj_from (own w2))))))"

definition ninja_run :: "('f, 'g) ninja_host \<Rightarrow> ninja \<Rightarrow> nat \<Rightarrow> (u64 \<times> atom) list \<Rightarrow> 'f ninja_world \<Rightarrow> (bool \<times> 'f ninja_world) run" where
  "ninja_run e h k evs w =
     (case beside (jh_forge e) (FSequenceHead 0) (pforge w) of (ok, f) \<Rightarrow>
      run_bind (lift (props_idle (beside (jh_forge e)) no_callback 0 (w\<lparr>pforge := f, pref := ok\<rparr>))) (\<lambda>w1.
      run_bind (lift (ninja_props e evs w1)) (\<lambda>w2.
      run_bind (lift (ld32 (pmem w2) (at_synchronous h))) (\<lambda>sync.
      run_bind
        (if sync \<noteq> 0 then ninja_sync e h k evs w2
         else run_bind (lift (ninja_hand_over h evs w2)) (\<lambda>w3. lift (ninja_take_over e h k w3)))
        (\<lambda>w4. Done (if pref w4 then (True, w4\<lparr>pforge := snd (beside (jh_forge e) FPop (pforge w4))\<rparr>) else (False, w4)))))))"

end
