(* ===== verification/Ninja_Laws.thy ===== *)
theory Ninja_Laws
  imports Ninja Netatom_Roundtrip Osc_Unroll Props_Contract
begin

text \<open>
  \<open>eteroj_ninja.c\<close>: events that go out as messages and come in as events again.
\<close>

section \<open>Conversion\<close>

definition cv_forged :: "fcall list conv \<Rightarrow> fcall list \<Rightarrow> fcall list conv" where
  "cv_forged c cs = c\<lparr>cv_f := cv_f c @ cs\<rparr>"

lemma cv_forged_simps [simp]:
  "cv_f (cv_forged c cs) = cv_f c @ cs" "cv_ref (cv_forged c cs) = cv_ref c" "cv_buf (cv_forged c cs) = cv_buf c"
  "cv_forged (cv_forged c cs) ds = cv_forged c (cs @ ds)"
  by (simp_all add: cv_forged_def)

lemma cv_call_forges: "cv_ref c \<Longrightarrow> call (cv_f c) = (Ok (), cv_f c @ cs) \<Longrightarrow> cv_call call c = Some (cv_forged c cs)"
  by (simp add: cv_call_def cv_forged_def)

lemma cv_steps: "cv_ref c \<Longrightarrow> cv_call (forge_steps recording [Keep x]) c = Some (cv_forged c [x])"
  by (rule cv_call_forges) simp_all

text \<open>The message that carries a blob\<close>

definition carried :: "u8 list \<Rightarrow> packet" where
  "carried b = PMessage base_path [ABlob b]"

lemma carrier_forges:
  assumes "cv_ref c" and "length b < 2 ^ 31"
  shows "cv_call (lv2_osc_forge_message_vararg recording u d2f base_path (cstr ''b'') [Va (VaInt (of_nat (length b))), Va (VaBytes b)]) c
    = Some (cv_forged c (packet_calls u umap (carried b)))"
proof (rule cv_call_forges [OF assms(1)])
  have path: "lv2_osc_check_path base_path"
    by (simp add: base_path_def lv2_osc_check_path_def slash_def c8_def c_isprint_def invalid_path_chars_def)
  have fmt: "arg_fmt [ABlob b] = cstr ''b''" by (simp add: arg_fmt_def c8_def)
  have "lv2_osc_check_fmt (arg_fmt [ABlob b]) 0"
    using check_fmt_types [of "[OSC_BLOB]"] by (simp add: arg_fmt_def del: type_char.simps)
  from message_vararg_calls [OF path this, of d2f ucast u umap "cv_f c"] assms(2)
  show "lv2_osc_forge_message_vararg recording u d2f base_path (cstr ''b'') [Va (VaInt (of_nat (length b))), Va (VaBytes b)] (cv_f c)
    = (Ok (), cv_f c @ packet_calls u umap (carried b))"
    unfolding fmt by (simp add: forge_arg_ok_def floats_kept_def forge_vas_def carried_def)
qed

lemma stage_bytes:
  assumes "length bs \<le> length (cv_buf c)"
  shows "stage bs c = Some (c\<lparr>cv_buf := bs @ drop (length bs) (cv_buf c)\<rparr>)"
  using assms by (simp add: stage_def overwrite_def)

definition conv_ok :: "'f conv \<Rightarrow> bool" where
  "conv_ok c \<longleftrightarrow> cv_ref c \<and> length (cv_buf c) = NINJA_BUF_SIZE"

text \<open>A run from \<open>c\<close> forges calls, and uses the buffer.\<close>

definition converts :: "fcall list conv run \<Rightarrow> fcall list conv \<Rightarrow> fcall list \<Rightarrow> bool" where
  "converts r c cs \<longleftrightarrow> (\<exists>b. length b = length (cv_buf c) \<and> r = Done ((cv_forged c cs)\<lparr>cv_buf := b\<rparr>))"

lemma convertsI: "length b = length (cv_buf c) \<Longrightarrow> r = Done (cv_forged (c\<lparr>cv_buf := b\<rparr>) cs) \<Longrightarrow> converts r c cs"
  by (cases c) (auto simp: converts_def cv_forged_def)

lemma converts_Nil: "converts (Done c) c []"
  by (rule convertsI [of "cv_buf c"]) (simp_all add: cv_forged_def)

lemma converts_Cons:
  assumes "converts (convert_event recording oget d2f h k ev c) c cs"
    and "\<And>c1. cv_ref c1 = cv_ref c \<Longrightarrow> length (cv_buf c1) = length (cv_buf c) \<Longrightarrow> converts (convert_seq recording oget d2f h k evs c1) c1 ds"
  shows "converts (convert_seq recording oget d2f h k (ev # evs) c) c (cs @ ds)"
proof -
  from assms(1) obtain b where b: "length b = length (cv_buf c)" "convert_event recording oget d2f h k ev c = Done ((cv_forged c cs)\<lparr>cv_buf := b\<rparr>)"
    by (auto simp: converts_def)
  from assms(2) [of "(cv_forged c cs)\<lparr>cv_buf := b\<rparr>"] b show ?thesis by (auto simp: converts_def cv_forged_def)
qed

text \<open>What a sender's atom is, as one for the network: its bytes, and that it fits\<close>

definition carriable :: "ninja \<Rightarrow> atom \<Rightarrow> natom \<Rightarrow> bool" where
  "carriable h a na \<longleftrightarrow> atom_whole a = lay False id na \<and> nwf (ser_kind (nj_net h)) na
     \<and> (\<exists>ot. body_otype (atom_body a) = Some ot \<and> \<not> lv2_osc_is_message_or_bundle_type (nj_osc h) ot)
     \<and> up8 (nsize na) + dsize (dict_of (nj_net h) na) + 8 \<le> NINJA_BUF_SIZE"

definition partners :: "netatom \<Rightarrow> netatom \<Rightarrow> bool" where
  "partners e e' \<longleftrightarrow> urid_host e \<and> urid_host e' \<and> n_uri e' = n_uri e \<and> n_swap e' = n_swap e"

text \<open>A blob from which a host gets the atom\<close>

definition holds_atom :: "nat \<Rightarrow> netatom \<Rightarrow> (u32 \<Rightarrow> u32) \<Rightarrow> natom \<Rightarrow> u8 list \<Rightarrow> bool" where
  "holds_atom k e r na wire \<longleftrightarrow> length wire \<le> NINJA_BUF_SIZE \<and> nsize na < 2 ^ 31 \<and>
     (\<forall>J. \<exists>rest. netatom_deserialize k e (wire @ J) (length wire) = Done (lay False r na @ rest) \<and> nsize na + length rest = length (wire @ J))"

lemma event_goes_out:
  assumes hosts: "partners (nj_net h) net'" and a: "carriable h a na" and c: "conv_ok c" and k: "NINJA_BUF_SIZE \<le> k"
  obtains wire where "converts (convert_event recording oget d2f h k (t, a) c) c (FFrameTime t # packet_calls (nj_osc h) umap (carried wire))"
    "holds_atom k net' (translate (nj_net h) net') na wire"
proof -
  let ?n = "nsize na" and ?B = "cv_buf c"
  from a obtain ot where a: "atom_whole a = lay False id na" "nwf (ser_kind (nj_net h)) na"
    and ot: "body_otype (atom_body a) = Some ot" "\<not> lv2_osc_is_message_or_bundle_type (nj_osc h) ot"
    and size: "up8 ?n + dsize (dict_of (nj_net h) na) + 8 \<le> NINJA_BUF_SIZE" by (auto simp: carriable_def)
  define pad where "pad = take (up8 ?n - ?n) (drop ?n ?B)"
  define R where "R = drop (up8 ?n) ?B"
  have le: "?n \<le> up8 ?n" "length ?B = NINJA_BUF_SIZE" using up8_ge c by (simp_all add: conv_ok_def)
  have pad: "length pad = up8 ?n - ?n" using size le by (simp add: pad_def)
  have "drop ?n ?B = pad @ R" using le by (simp add: pad_def R_def) (metis add_diff_inverse_nat append_take_drop_id drop_drop le_add_diff_inverse2 add.commute)
  then have staged: "stage (atom_whole a) c = Some (c\<lparr>cv_buf := lay False id na @ pad @ R\<rparr>)"
    using stage_bytes [of "lay False id na" c] size le a(1) by simp
  have len: "length (lay False id na @ pad @ R) = NINJA_BUF_SIZE" using size le pad by (simp add: R_def)
  let ?wire = "net_wire (nj_net h) na pad"
  have wire: "length ?wire + 8 \<le> NINJA_BUF_SIZE" using net_wire_length [OF pad] size by simp
  from hosts have "urid_host (nj_net h)" "urid_host net'" "n_uri net' = n_uri (nj_net h)" "n_swap net' = n_swap (nj_net h)"
    by (simp_all add: partners_def)
  note transfer = netatom_transfer [OF this a(2) pad, of R NINJA_BUF_SIZE k]
  have room: "room (length (lay False id na @ pad @ R)) NINJA_BUF_SIZE (length ?wire)" "length (lay False id na @ pad @ R) \<le> k"
    using wire k len by (simp_all add: room_def NINJA_BUF_SIZE_def)
  from transfer [OF this] obtain out where
    out: "netatom_serialize k (nj_net h) (lay False id na @ pad @ R) NINJA_BUF_SIZE = Done (out, Some (length ?wire))" "length out = NINJA_BUF_SIZE"
      "take (length ?wire) out = ?wire" using len by auto
  from transfer [OF room] have recv: "\<forall>J. \<exists>rest. netatom_deserialize k net' (?wire @ J) (length ?wire) = Done (lay False (translate (nj_net h) net') na @ rest)
      \<and> ?n + length rest = length (?wire @ J)" by blast
  have ref: "cv_ref c" using c by (simp add: conv_ok_def)
  let ?c = "cv_forged (c\<lparr>cv_buf := out\<rparr>) [FFrameTime t]"
  have "cv_call (lv2_osc_forge_message_vararg recording (nj_osc h) d2f base_path (cstr ''b'') [Va (VaInt (of_nat (length ?wire))), Va (VaBytes ?wire)]) ?c
      = Some (cv_forged ?c (packet_calls (nj_osc h) umap (carried ?wire)))"
    by (rule carrier_forges) (use ref wire in \<open>simp_all add: NINJA_BUF_SIZE_def\<close>)
  then have "converts (convert_event recording oget d2f h k (t, a) c) c (FFrameTime t # packet_calls (nj_osc h) umap (carried ?wire))"
    using ot staged out cv_steps [of "c\<lparr>cv_buf := out\<rparr>"] ref le
    by (intro convertsI [of out]) (simp_all add: convert_event_def del: cstr_simps)
  moreover have "holds_atom k net' (translate (nj_net h) net') na ?wire"
    using recv wire size le(1) by (simp add: holds_atom_def NINJA_BUF_SIZE_def)
  ultimately show thesis by (rule that)
qed

lemma front_atom_lay: "nsize na < 2 ^ 31 \<Longrightarrow> front_atom (lay False r na @ rest) = Some (lay False r na)"
proof (cases na)
  case (NAtom t b)
  assume "nsize na < 2 ^ 31"
  then have "bsize b + 8 < 2 ^ 31" using NAtom by simp
  moreover from this have "unat (8 + of_nat (bsize b) :: u32) = 8 + bsize b"
    using unat_of_nat_small [where 'w = 32, of "8 + bsize b"] by simp
  ultimately show ?thesis using NAtom by (simp add: front_atom_def Let_def w4_def)
qed

lemma event_comes_in:
  assumes "proper_urid (nj_osc h)" and "finds_values oget" and c: "conv_ok c" and k: "0 < k" and wire: "holds_atom k (nj_net h) r na wire"
  shows "converts (convert_event recording oget d2f h k (t, packet_atom (nj_osc h) umap (carried wire)) c) c [FFrameTime t, FWrite (lay False r na)]"
proof -
  let ?B = "wire @ drop (length wire) (cv_buf c)"
  from wire obtain rest where d: "netatom_deserialize k (nj_net h) ?B (length wire) = Done (lay False r na @ rest)"
    and len: "nsize na + length rest = length ?B" unfolding holds_atom_def by blast
  have ref: "cv_ref c" "length wire \<le> length (cv_buf c)" and n: "nsize na < 2 ^ 31"
    using c wire by (simp_all add: conv_ok_def holds_atom_def)
  let ?c = "c\<lparr>cv_buf := lay False r na @ rest\<rparr>"
  have "bytes_str (base_path @ [0]) = Some base_path" by (rule bytes_str_terminated) (simp add: base_path_def c8_def)
  then have un: "ninja_unroll recording h k t (base_path @ [0]) (Some (tuple_atom (nj_osc h) [arg_atom (nj_osc h) umap (ABlob wire)])) (Done c)
      = Done (cv_forged ?c [FFrameTime t, FWrite (lay False r na)])"
    using ref stage_bytes [of wire c] d cv_steps [of ?c] cv_steps [of "cv_forged ?c [FFrameTime t]"] front_atom_lay [OF n]
    by (simp add: ninja_unroll_def tuple_atom_def tuple_items_def)
  have "lv2_osc_unroll k (nj_osc h) oget (packet_atom (nj_osc h) umap (carried wire)) (Some (ninja_unroll recording h k t)) (Done c)
      = Some (Ok (), Done (cv_forged ?c [FFrameTime t, FWrite (lay False r na)]))"
    using body_unroll_visits [OF assms(1,2), of "carried wire" k umap "ninja_unroll recording h k t" "Done c"] un k
    by (simp add: lv2_osc_unroll_def visit_def carried_def)
  moreover have "body_otype (atom_body (packet_atom (nj_osc h) umap (carried wire))) = Some (u_Message (nj_osc h))"
    by (simp add: body_otype_def object_otype_def carried_def)
  ultimately show ?thesis using len ref(2)
    by (intro convertsI [of "lay False r na @ rest"])
      (simp_all add: convert_event_def lv2_osc_is_message_or_bundle_type_def lv2_osc_is_message_type_def)
qed

section \<open>Sequences\<close>

text \<open>The message events of a sequence of events, and what the receiver writes\<close>

definition messages :: "ninja \<Rightarrow> (u8 list \<Rightarrow> u32) \<Rightarrow> (u64 \<times> u8 list) list \<Rightarrow> (u64 \<times> atom) list" where
  "messages h umap ws = map (\<lambda>(t, w). (t, packet_atom (nj_osc h) umap (carried w))) ws"

definition message_calls :: "ninja \<Rightarrow> (u8 list \<Rightarrow> u32) \<Rightarrow> (u64 \<times> u8 list) list \<Rightarrow> fcall list" where
  "message_calls h umap ws = concat (map (\<lambda>(t, w). FFrameTime t # packet_calls (nj_osc h) umap (carried w)) ws)"

definition written :: "(u32 \<Rightarrow> u32) \<Rightarrow> (u64 \<times> atom \<times> natom) list \<Rightarrow> fcall list" where
  "written r es = concat (map (\<lambda>(t, a, na). [FFrameTime t, FWrite (lay False r na)]) es)"

lemma sequence_goes_out:
  assumes hosts: "partners (nj_net h) net'" and k: "NINJA_BUF_SIZE \<le> k"
  shows "list_all (\<lambda>(t, a, na). carriable h a na) es \<Longrightarrow> conv_ok c \<Longrightarrow>
    \<exists>ws. map fst ws = map fst es \<and> list_all2 (\<lambda>(t, w) (t', a, na). holds_atom k net' (translate (nj_net h) net') na w) ws es \<and>
      converts (convert_seq recording oget d2f h k (map (\<lambda>(t, a, na). (t, a)) es) c) c (message_calls h umap ws)"
proof (induction es arbitrary: c)
  case Nil
  then show ?case by (simp add: message_calls_def converts_Nil)
next
  case (Cons ev es)
  obtain t a na where ev: "ev = (t, a, na)" by (cases ev)
  obtain wire where w: "converts (convert_event recording oget d2f h k (t, a) c) c (FFrameTime t # packet_calls (nj_osc h) umap (carried wire))"
    "holds_atom k net' (translate (nj_net h) net') na wire"
    by (rule event_goes_out [OF hosts _ Cons.prems(2) k]) (use Cons.prems(1) ev in auto)
  from w(1) obtain b where b: "length b = length (cv_buf c)"
    "convert_event recording oget d2f h k (t, a) c = Done ((cv_forged c (FFrameTime t # packet_calls (nj_osc h) umap (carried wire)))\<lparr>cv_buf := b\<rparr>)"
    by (auto simp: converts_def)
  let ?c = "(cv_forged c (FFrameTime t # packet_calls (nj_osc h) umap (carried wire)))\<lparr>cv_buf := b\<rparr>"
  have "conv_ok ?c" using Cons.prems(2) b(1) by (simp add: conv_ok_def)
  with Cons.IH [of ?c] Cons.prems(1) obtain ws where
    ws: "map fst ws = map fst es" "list_all2 (\<lambda>(t, w) (t', a, na). holds_atom k net' (translate (nj_net h) net') na w) ws es"
      "converts (convert_seq recording oget d2f h k (map (\<lambda>(t, a, na). (t, a)) es) ?c) ?c (message_calls h umap ws)" by auto
  then show ?case using w(2) b ev
    by (intro exI [of _ "(t, wire) # ws"]) (auto simp: converts_def cv_forged_def message_calls_def)
qed

lemma sequence_comes_in:
  assumes "proper_urid (nj_osc h)" and "finds_values oget" and "0 < k"
  shows "list_all2 (\<lambda>(t, w) (t', a, na). holds_atom k (nj_net h) r na w) ws es \<Longrightarrow> map fst ws = map fst es \<Longrightarrow> conv_ok c \<Longrightarrow>
    converts (convert_seq recording oget d2f h k (messages h umap ws) c) c (written r es)"
proof (induction ws es arbitrary: c rule: list_all2_induct)
  case Nil
  then show ?case by (simp add: messages_def written_def converts_Nil)
next
  case (Cons x ws y es)
  obtain t w a na where xy: "x = (t, w)" "y = (t, a, na)" using Cons.prems(1) by (cases x, cases y) auto
  have "converts (convert_event recording oget d2f h k (t, packet_atom (nj_osc h) umap (carried w)) c) c [FFrameTime t, FWrite (lay False r na)]"
    by (rule event_comes_in [OF assms(1,2) Cons.prems(2) assms(3)]) (use Cons.hyps(1) xy in simp)
  from converts_Cons [OF this Cons.IH] Cons.prems xy show ?case by (simp add: messages_def written_def conv_ok_def)
qed

section \<open>Periods\<close>

text \<open>The setting of the plugin can be read, its properties have nothing to do, and none of the events is for them.\<close>

definition ninja_ready :: "ninja \<Rightarrow> 'f ninja_world \<Rightarrow> bool" where
  "ninja_ready h w \<longleftrightarrow> \<not> restoring (pp w) \<and> \<not> stashing (pp w) \<and> ld32 (pmem w) (at_synchronous h) \<noteq> None"

definition synchronous :: "ninja \<Rightarrow> 'f ninja_world \<Rightarrow> bool" where
  "synchronous h w \<longleftrightarrow> ld32 (pmem w) (at_synchronous h) \<noteq> Some 0"

definition no_patch :: "(u32 \<Rightarrow> bool) \<Rightarrow> u32 list \<Rightarrow> atom \<Rightarrow> bool" where
  "no_patch is_object ts a \<longleftrightarrow>
     (case atom_body a of Object i ot ps \<Rightarrow> ot \<notin> set ts | _ \<Rightarrow> \<not> is_object (atom_type a))"

lemma ninja_props_quiet:
  "list_all (\<lambda>ev. no_patch (jh_object e) (patch_types (urid (pp w))) (snd ev)) evs \<Longrightarrow> ninja_props e evs w = Some w"
proof (induction evs)
  case (Cons ev evs)
  then have "props_advance fd cb oget (jh_object e) 0 (snd ev) w = Some (False, w)" for fd cb oget
    by (cases "atom_body (snd ev)") (auto simp: props_advance_def no_patch_def patch_types_def Let_def)
  with Cons show ?case by simp
qed simp

lemma ninja_idle_quiet: "ninja_ready h w \<Longrightarrow> props_idle fd cb 0 w = Some w"
  by (cases w) (simp add: ninja_ready_def props_idle_def props_restoring_get_def Let_def)

definition conv_start :: "fcall list ninja_world \<Rightarrow> fcall list conv" where
  "conv_start w = \<lparr>cv_f = fst (pforge w) @ [FSequenceHead 0], cv_ref = True, cv_buf = nj_buf (own w)\<rparr>"

lemma conv_start_ok: "length (nj_buf (own w)) = NINJA_BUF_SIZE \<Longrightarrow> conv_ok (conv_start w)"
  by (simp add: conv_start_def conv_ok_def)

lemma ninja_run_sync:
  assumes "ninja_ready h w" and "synchronous h w" and "jh_forge e = recording"
    and "list_all (\<lambda>ev. no_patch (jh_object e) (patch_types (urid (pp w))) (snd ev)) evs"
    and "converts (convert_seq recording (jh_get e) (jh_float e) h k evs (conv_start w)) (conv_start w) cs"
  shows "\<exists>w1. ninja_run e h k evs w = Done (True, w1) \<and> fst (pforge w1) = fst (pforge w) @ FSequenceHead 0 # cs @ [FPop]"
proof -
  let ?w = "w\<lparr>pforge := (fst (pforge w) @ [FSequenceHead 0], own w), pref := True\<rparr>"
  have own: "own ?w = own w" by (simp add: own_def)
  have idle: "props_idle fd cb 0 ?w = Some ?w" for fd cb
    by (rule ninja_idle_quiet [of h]) (use assms(1) own in \<open>simp add: ninja_ready_def\<close>)
  have quiet: "ninja_props e evs ?w = Some ?w" by (rule ninja_props_quiet) (use assms(4) in simp)
  let ?c = "\<lparr>cv_f = fst (pforge ?w), cv_ref = pref ?w, cv_buf = nj_buf (own ?w)\<rparr>"
  have "conv_start w = ?c" using own by (simp add: conv_start_def)
  with assms(5) obtain b where
    b: "convert_seq recording (jh_get e) (jh_float e) h k evs ?c = Done ((cv_forged ?c cs)\<lparr>cv_buf := b\<rparr>)" by (auto simp: converts_def)
  obtain v where v: "ld32 (pmem w) (at_synchronous h) = Some v" "v \<noteq> 0" using assms(1,2) by (auto simp: ninja_ready_def synchronous_def)
  have head: "beside recording (FSequenceHead 0) (pforge w) = (True, fst (pforge w) @ [FSequenceHead 0], own w)"
    by (simp add: beside_def recording_def own_def)
  from b have "ninja_sync e h k evs ?w = Done (?w\<lparr>pforge := (cv_f ((cv_forged ?c cs)\<lparr>cv_buf := b\<rparr>), (own ?w)\<lparr>nj_buf := b\<rparr>), pref := True\<rparr>)"
    by (simp add: ninja_sync_def assms(3))
  then show ?thesis using idle quiet v
    by (simp add: ninja_run_def assms(3) head) (simp add: beside_def recording_def)
qed

lemma messages_quiet:
  "u_Message (nj_osc h) \<notin> set ts \<Longrightarrow> list_all (\<lambda>ev. no_patch is_object ts (snd ev)) (messages h umap ws)"
  by (auto simp: list_all_iff messages_def no_patch_def carried_def)

text \<open>
  C6. What one ninja sends, another receives: in a period that is converted at once, every event becomes a
  message of its frame, in order; and when these messages arrive at another instance, which may have other
  URIDs, it writes the events, each at its frame, in order, with the same content in its own URIDs.
\<close>

theorem ninja_roundtrip:
  assumes "partners (nj_net h) (nj_net h')" and "list_all (\<lambda>(t, a, na). carriable h a na) es" and "NINJA_BUF_SIZE \<le> k"
    and "proper_urid (nj_osc h')" and "finds_values (jh_get e')" and "jh_forge e = recording" and "jh_forge e' = recording"
    and "ninja_ready h w" and "synchronous h w" and "ninja_ready h' w'" and "synchronous h' w'"
    and "list_all (\<lambda>(t, a, na). no_patch (jh_object e) (patch_types (urid (pp w))) a) es"
    and "u_Message (nj_osc h') \<notin> set (patch_types (urid (pp w')))"
    and "length (nj_buf (own w)) = NINJA_BUF_SIZE" and "length (nj_buf (own w')) = NINJA_BUF_SIZE"
  shows "\<exists>ws w1 w2. map fst ws = map fst es \<and>
    ninja_run e h k (map (\<lambda>(t, a, na). (t, a)) es) w = Done (True, w1) \<and>
    fst (pforge w1) = fst (pforge w) @ FSequenceHead 0 # message_calls h umap ws @ [FPop] \<and>
    ninja_run e' h' k (messages h' umap' ws) w' = Done (True, w2) \<and>
    fst (pforge w2) = fst (pforge w') @ FSequenceHead 0 # written (translate (nj_net h) (nj_net h')) es @ [FPop]"
proof -
  obtain ws where ws: "map fst ws = map fst es" "list_all2 (\<lambda>(t, w) (t', a, na). holds_atom k (nj_net h') (translate (nj_net h) (nj_net h')) na w) ws es"
    "converts (convert_seq recording (jh_get e) (jh_float e) h k (map (\<lambda>(t, a, na). (t, a)) es) (conv_start w)) (conv_start w) (message_calls h umap ws)"
    using sequence_goes_out [OF assms(1,3,2) conv_start_ok [OF assms(14)]] by blast
  have "list_all (\<lambda>ev. no_patch (jh_object e) (patch_types (urid (pp w))) (snd ev)) (map (\<lambda>(t, a, na). (t, a)) es)"
    using assms(12) by (auto simp: list_all_iff)
  note out = ninja_run_sync [OF assms(8,9,6) this ws(3)]
  have "0 < k" using assms(3) by (simp add: NINJA_BUF_SIZE_def)
  from sequence_comes_in [OF assms(4,5) this ws(2,1) conv_start_ok [OF assms(15)]]
  have "converts (convert_seq recording (jh_get e') (jh_float e') h' k (messages h' umap' ws) (conv_start w')) (conv_start w')
    (written (translate (nj_net h) (nj_net h')) es)" .
  note inn = ninja_run_sync [OF assms(10,11,7) messages_quiet [OF assms(13)] this]
  from ws(1) out inn show ?thesis by blast
qed

section \<open>Two instances\<close>

definition ninja_ring :: varchunk where
  "ninja_ring = varchunk_init (replicate (2 ^ 13) 0) (of_nat (2 ^ 13))"

definition sample_ninja :: "u32 \<Rightarrow> ninja" where
  "sample_ninja d = \<lparr>nj_osc = host_urid, nj_net = sample_host True d, at_synchronous = 4096\<rparr>"

definition sample_ninja_host :: "(fcall list, u32 list) ninja_host" where
  "sample_ninja_host = \<lparr>jh_forge = recording, jh_get = first_value, jh_object = (\<lambda>t. t = 11), jh_float = ucast,
     jh_sink = (\<lambda>_ _ _ _. Undefined), jh_stack = [], jh_alloc = (\<lambda>_. None)\<rparr>"

definition sample_ser :: ser where
  "sample_ser = \<lparr>ser_size = 2018, ser_buf = Some (replicate 2018 0), ser_offset = 0\<rparr>"

definition sample_ninja_world :: "u8 \<Rightarrow> fcall list ninja_world" where
  "sample_ninja_world sync = \<lparr>pp = (pp sample_world)\<lparr>restoring := False, stashing := False, urid := sample_urid\<rparr>,
     pmem = (\<lambda>_. Some sync), pforge = ([], \<lparr>nj_buf = replicate NINJA_BUF_SIZE 0, nj_to = ninja_ring, nj_from = ninja_ring, nj_ser = sample_ser, nj_scheduled = False\<rparr>),
     pref = True, plog = []\<rparr>"

text \<open>A MIDI event and an object that nests\<close>

definition sample_midi_event :: "u64 \<times> atom \<times> natom" where
  "sample_midi_event = (3, Atom 9 (Bytes [144, 60, 127]), NAtom 9 (NBytes [144, 60, 127]))"

definition sample_tree :: atom where
  "sample_tree = Atom 11 (Object 0 20 [Prop 21 (Atom 2 (Bytes (le32 7))),
     Prop 22 (Atom 12 (Tuple [Atom 6 (Bytes (le32 23)), Atom 14 (Bytes (le32 8 @ le32 4 @ le64 9))]))])"

lemma sample_tree_bytes: "atom_whole sample_tree = lay False id sample_atom"
  by code_simp

lemma no_osc_type: "ot \<noteq> 5 \<Longrightarrow> ot \<noteq> 2 \<Longrightarrow> \<not> lv2_osc_is_message_or_bundle_type host_urid ot"
  by (simp add: lv2_osc_is_message_or_bundle_type_def lv2_osc_is_message_type_def lv2_osc_is_bundle_type_def host_urid_def lv2_osc_urid_init_def)

lemma sample_carriable:
  "carriable (sample_ninja 0) sample_tree sample_atom" "carriable (sample_ninja 0) (Atom 9 (Bytes [144, 60, 127])) (NAtom 9 (NBytes [144, 60, 127]))"
proof -
  have "body_otype (atom_body sample_tree) = Some 20" by (simp add: sample_tree_def body_otype_def object_otype_def)
  then show "carriable (sample_ninja 0) sample_tree sample_atom"
    using sample_tree_bytes sample_atom_wf [of True] sample_atom_size sample_atom_dict
    by (simp add: carriable_def sample_ninja_def NINJA_BUF_SIZE_def no_osc_type)
  have "body_otype (Bytes [144, 60, 127]) = Some 0" "atom_whole (Atom 9 (Bytes [144, 60, 127])) = lay False id (NAtom 9 (NBytes [144, 60, 127]))"
    "nwf (ser_kind (sample_host True 0)) (NAtom 9 (NBytes [144, 60, 127]))"
    "up8 (nsize (NAtom 9 (NBytes [144, 60, 127]))) + dsize (dict_of (sample_host True 0) (NAtom 9 (NBytes [144, 60, 127]))) + 8 \<le> NINJA_BUF_SIZE"
    by code_simp+
  then show "carriable (sample_ninja 0) (Atom 9 (Bytes [144, 60, 127])) (NAtom 9 (NBytes [144, 60, 127]))"
    by (simp add: carriable_def sample_ninja_def no_osc_type)
qed

lemma sample_ninja_simps [simp]:
  "nj_osc (sample_ninja d) = host_urid" "nj_net (sample_ninja d) = sample_host True d" "jh_forge sample_ninja_host = recording"
  "jh_get sample_ninja_host = first_value" "fst (pforge (sample_ninja_world v)) = []" "length (nj_buf (own (sample_ninja_world v))) = NINJA_BUF_SIZE" "patch_types (urid (pp (sample_ninja_world v))) = [101, 102, 103, 104]"
  by (simp_all add: sample_ninja_def sample_ninja_host_def sample_ninja_world_def patch_types_def sample_urid_def own_def)

lemma sample_ninja_ready: "ninja_ready (sample_ninja d) (sample_ninja_world v)" "synchronous (sample_ninja d) (sample_ninja_world 1)"
  "\<not> synchronous (sample_ninja d) (sample_ninja_world 0)"
  by (simp_all add: ninja_ready_def synchronous_def sample_ninja_def sample_ninja_world_def own_def ld32_def ld_def eval_nat_numeral, code_simp+)

theorem ninja_roundtrip_witness:
  "\<exists>ws w1 w2. map fst ws = [3, 5] \<and>
    ninja_run sample_ninja_host (sample_ninja 0) 8192 [(3, Atom 9 (Bytes [144, 60, 127])), (5, sample_tree)] (sample_ninja_world 1) = Done (True, w1) \<and>
    fst (pforge w1) = FSequenceHead 0 # message_calls (sample_ninja 0) (\<lambda>_. 0) ws @ [FPop] \<and>
    ninja_run sample_ninja_host (sample_ninja 100) 8192 (messages (sample_ninja 100) (\<lambda>_. 0) ws) (sample_ninja_world 1) = Done (True, w2) \<and>
    fst (pforge w2) = FSequenceHead 0 # written (translate (sample_host True 0) (sample_host True 100))
      [(3, Atom 9 (Bytes [144, 60, 127]), NAtom 9 (NBytes [144, 60, 127])), (5, sample_tree, sample_atom)] @ [FPop]"
proof -
  have p: "partners (nj_net (sample_ninja 0)) (nj_net (sample_ninja 100))" by (simp add: partners_def sample_host_ok)
  have m: "u_Message host_urid = 5" by (simp add: host_urid_def lv2_osc_urid_init_def)
  have q: "no_patch (jh_object sample_ninja_host) [101, 102, 103, 104] (Atom 9 (Bytes [144, 60, 127]))" "no_patch (jh_object sample_ninja_host) [101, 102, 103, 104] sample_tree"
    by (simp_all add: no_patch_def sample_ninja_host_def sample_tree_def)
  let ?es = "[(3, Atom 9 (Bytes [144, 60, 127]), NAtom 9 (NBytes [144, 60, 127])), (5, sample_tree, sample_atom)]"
  have "\<exists>ws w1 w2. map fst ws = map fst ?es \<and>
    ninja_run sample_ninja_host (sample_ninja 0) 8192 (map (\<lambda>(t, a, na). (t, a)) ?es) (sample_ninja_world 1) = Done (True, w1) \<and>
    fst (pforge w1) = fst (pforge (sample_ninja_world 1)) @ FSequenceHead 0 # message_calls (sample_ninja 0) (\<lambda>_. 0) ws @ [FPop] \<and>
    ninja_run sample_ninja_host (sample_ninja 100) 8192 (messages (sample_ninja 100) (\<lambda>_. 0) ws) (sample_ninja_world 1) = Done (True, w2) \<and>
    fst (pforge w2) = fst (pforge (sample_ninja_world 1)) @
      FSequenceHead 0 # written (translate (nj_net (sample_ninja 0)) (nj_net (sample_ninja 100))) ?es @ [FPop]"
    by (rule ninja_roundtrip [OF p _ _ _ _ _ _ sample_ninja_ready(1,2) sample_ninja_ready(1,2)])
      (use sample_carriable q m in \<open>simp_all add: NINJA_BUF_SIZE_def\<close>)
  then show ?thesis by simp
qed

section \<open>The buffer\<close>

text \<open>
  C38. The buffer of the handle has 8192 bytes, and what is copied to it is not measured: a longer event, and a
  longer blob that comes from the network, are written beyond it.
\<close>

theorem ninja_buffer_overruns:
  assumes "length (cv_buf c) = NINJA_BUF_SIZE" and "0 < k" and "proper_urid (nj_osc h)" and "finds_values oget"
    and "NINJA_BUF_SIZE < length (atom_whole a)" and "body_otype (atom_body a) = Some ot" and "\<not> lv2_osc_is_message_or_bundle_type (nj_osc h) ot"
    and "NINJA_BUF_SIZE < length b"
  shows "convert_event fd oget d2f h k (t, a) c = Undefined \<and>
    convert_event fd oget d2f h k (t, packet_atom (nj_osc h) umap (carried b)) c = Undefined"
proof
  show "convert_event fd oget d2f h k (t, a) c = Undefined"
    using assms by (simp add: convert_event_def stage_def)
  have "bytes_str (base_path @ [0]) = Some base_path" by (rule bytes_str_terminated) (simp add: base_path_def c8_def)
  with assms(1,8) have "ninja_unroll fd h k t (base_path @ [0]) (Some (tuple_atom (nj_osc h) [arg_atom (nj_osc h) umap (ABlob b)])) (Done c) = Undefined"
    by (simp add: ninja_unroll_def tuple_atom_def tuple_items_def stage_def)
  then have "lv2_osc_unroll k (nj_osc h) oget (packet_atom (nj_osc h) umap (carried b)) (Some (ninja_unroll fd h k t)) (Done c) = Some (Ok (), Undefined)"
    using body_unroll_visits [OF assms(3,4), of "carried b" k umap "ninja_unroll fd h k t" "Done c"] assms(2)
    by (simp add: lv2_osc_unroll_def visit_def carried_def)
  moreover have "body_otype (atom_body (packet_atom (nj_osc h) umap (carried b))) = Some (u_Message (nj_osc h))"
    by (simp add: body_otype_def object_otype_def carried_def)
  ultimately show "convert_event fd oget d2f h k (t, packet_atom (nj_osc h) umap (carried b)) c = Undefined"
    by (simp add: convert_event_def lv2_osc_is_message_or_bundle_type_def lv2_osc_is_message_type_def)
qed

theorem ninja_buffer_overruns_witness:
  "convert_event recording first_value ucast (sample_ninja 0) 1 (3, Atom 9 (Bytes (replicate 8192 0))) (conv_start (sample_ninja_world 1)) = Undefined \<and>
    convert_event recording first_value ucast (sample_ninja 0) 1
      (3, packet_atom (nj_osc (sample_ninja 0)) (\<lambda>_. 0) (carried (replicate 8193 0))) (conv_start (sample_ninja_world 1)) = Undefined"
proof (rule ninja_buffer_overruns)
  have "pad_to8 (replicate 8192 (0 :: u8)) = replicate 8192 0" by (simp add: pad_to8_def)
  moreover have "de32 (replicate 4 0) = 0" by code_simp
  ultimately show "body_otype (atom_body (Atom 9 (Bytes (replicate 8192 0)))) = Some 0"
    by (simp add: body_otype_def object_otype_def)
  show "\<not> lv2_osc_is_message_or_bundle_type (nj_osc (sample_ninja 0)) 0" by (simp add: no_osc_type)
qed (simp_all add: conv_start_def sample_ninja_world_def own_def NINJA_BUF_SIZE_def atom_whole_def)

section \<open>The sink\<close>

text \<open>The sink holds what was written to it.\<close>

definition sink_holds :: "ser \<Rightarrow> u8 list \<Rightarrow> bool" where
  "sink_holds s bs \<longleftrightarrow> 0 < ser_size s \<and> unat (ser_offset s) = length bs \<and> length bs \<le> unat (ser_size s) \<and>
     (\<exists>b. ser_buf s = Some b \<and> length b = unat (ser_size s) \<and> take (length bs) b = bs)"

lemma doubled_ends:
  "0 < n \<Longrightarrow> unat want < 2 ^ 31 \<Longrightarrow> unat want \<le> unat n * 2 ^ j \<Longrightarrow> j < k \<Longrightarrow> \<exists>m. doubled k want n = Done m \<and> want \<le> m \<and> 0 < m"
proof (induction k arbitrary: n j)
  case (Suc k)
  show ?case
  proof (cases "n < want")
    case False
    then show ?thesis using Suc.prems(1) by auto
  next
    case True
    then have lt: "unat n < unat want" by (simp add: word_less_nat_alt)
    then obtain i where j: "j = Suc i" using Suc.prems(3) by (cases j) auto
    have d: "unat (push_bit 1 n) = 2 * unat n" using lt Suc.prems(2) by (simp add: push_bit_eq_mult unat_mult_lem [THEN iffD1])
    moreover have "0 < push_bit 1 n" using d Suc.prems(1) by (simp add: word_less_nat_alt)
    ultimately have "\<exists>m. doubled k want (push_bit 1 n) = Done m \<and> want \<le> m \<and> 0 < m"
      using Suc.IH [of "push_bit 1 n" i] Suc.prems j by simp
    then show ?thesis using True by simp
  qed
qed simp

text \<open>
  C33. The worker's sink holds what is written to it, however often it has to grow: each write is appended, its reference
  is not zero and stands for the place of the written bytes, and the loop that doubles the size ends.
\<close>

theorem sink_appends:
  assumes "sink_holds s bs" and "length bs + length d < 2 ^ 31" and "\<And>n. al n \<noteq> None" and "32 \<le> k"
  shows "\<exists>s'. sink_bytes al k d s = Done (ser_offset s + 1, s') \<and> sink_holds s' (bs @ d) \<and> ser_offset s + 1 \<noteq> 0 \<and>
    sink_deref (ser_offset s + 1) s' = Some (length bs)"
proof -
  let ?new = "ser_offset s + of_nat (length d)"
  from assms(1) obtain b where b: "ser_buf s = Some b" "length b = unat (ser_size s)" "take (length bs) b = bs"
    and off: "unat (ser_offset s) = length bs" "length bs \<le> unat (ser_size s)" "0 < ser_size s" by (auto simp: sink_holds_def)
  have new: "unat ?new = length bs + length d" using assms(2) off(1)
    by (subst unat_add_lem [THEN iffD1]) (simp_all add: unat_of_nat)
  have written_at: "overwrite (length bs) d b' = bs @ d @ drop (length bs + length d) b'" if "take (length bs) b' = bs" for b'
    using that by (simp add: overwrite_def)
  have ref: "ser_offset s + 1 \<noteq> 0" using off(1) assms(2) by (auto simp: unat_eq_0 [symmetric] word_unat_eq_iff unat_word_ariths)
  show ?thesis
  proof (cases "ser_size s < ?new")
    case False
    then have "length bs + length d \<le> length b" using new b(2) by (simp add: word_less_nat_alt)
    then show ?thesis using False b off new ref written_at [OF b(3)]
      by (simp add: sink_bytes_def Let_def sink_holds_def sink_deref_def)
  next
    case True
    then have lt: "unat (ser_size s) < length bs + length d" using new by (simp add: word_less_nat_alt)
    then have "unat (push_bit 1 (ser_size s)) = 2 * unat (ser_size s)" using assms(2)
      by (simp add: push_bit_eq_mult unat_mult_lem [THEN iffD1])
    then have "0 < push_bit 1 (ser_size s)" "unat ?new \<le> unat (push_bit 1 (ser_size s)) * 2 ^ 31"
      using off(3) new assms(2) by (auto simp: word_less_nat_alt)
    with doubled_ends [of "push_bit 1 (ser_size s)" ?new 31 k] new assms(2,4) obtain m where
      m: "doubled k ?new (push_bit 1 (ser_size s)) = Done m" "?new \<le> m" "0 < m" by auto
    from assms(3) obtain g where g: "al (unat m) = Some g" by blast
    let ?b = "take (unat m) b @ map g [length b..<unat m]"
    have le: "length bs + length d \<le> unat m" using m(2) new by (simp add: word_le_nat_alt)
    then have "length b \<le> unat m" "length ?b = unat m" "take (length bs) ?b = bs" using lt b off(2) by simp_all
    then show ?thesis using True m(1,3) g b(1) off(1) new ref le written_at [of ?b]
      by (simp add: sink_bytes_def Let_def sink_holds_def sink_deref_def c_realloc_def)
  qed
qed

theorem sink_appends_witness:
  "\<exists>s'. sink_bytes (\<lambda>n. Some (\<lambda>i. 7)) 32 (replicate 5000 1) sample_ser = Done (1, s') \<and> sink_holds s' (replicate 5000 1) \<and>
    sink_deref 1 s' = Some 0"
  using sink_appends [of sample_ser "[]" "replicate 5000 1" "\<lambda>n. Some (\<lambda>i. 7)" 32]
  by (simp add: sample_ser_def sink_holds_def)

text \<open>
  C39. When there is no memory to grow, the sink loses its buffer but keeps its size: the event that did not fit fails, but the
  worker then reads the sequence through the null pointer, and so would every write that fits.
\<close>

theorem sink_no_memory_crashes:
  assumes "sink_holds s bs" and "length bs + length d < 2 ^ 31" and "unat (ser_size s) < length bs + length d" and "\<And>n. al n = None" and "32 \<le> k"
  shows "\<exists>s'. sink_bytes al k d s = Done (0, s') \<and> work_respond (x\<lparr>nj_ser := s'\<rparr>) = None \<and>
    (\<forall>d'. length bs + length d' \<le> unat (ser_size s) \<longrightarrow> sink_bytes al k d' s' = Undefined)"
proof -
  let ?new = "ser_offset s + of_nat (length d)"
  from assms(1) have off: "unat (ser_offset s) = length bs" "0 < ser_size s" by (auto simp: sink_holds_def)
  have new: "unat ?new = length bs + length d" using assms(2) off(1)
    by (subst unat_add_lem [THEN iffD1]) (simp_all add: unat_of_nat)
  have "unat (push_bit 1 (ser_size s)) = 2 * unat (ser_size s)" using assms(2,3)
    by (simp add: push_bit_eq_mult unat_mult_lem [THEN iffD1])
  then have "0 < push_bit 1 (ser_size s)" "unat ?new \<le> unat (push_bit 1 (ser_size s)) * 2 ^ 31"
    using off(2) new assms(2) by (auto simp: word_less_nat_alt)
  with doubled_ends [of "push_bit 1 (ser_size s)" ?new 31 k] new assms(2,5) obtain m where
    m: "doubled k ?new (push_bit 1 (ser_size s)) = Done m" by auto
  have "ser_size s < ?new" using assms(3) new by (simp add: word_less_nat_alt)
  then have "sink_bytes al k d s = Done (0, s\<lparr>ser_buf := None\<rparr>)" using m assms(4) by (simp add: sink_bytes_def Let_def c_realloc_def)
  moreover have "sink_bytes al k d' (s\<lparr>ser_buf := None\<rparr>) = Undefined" if "length bs + length d' \<le> unat (ser_size s)" for d'
  proof -
    have "length bs + length d' < 2 ^ 31" using that assms(2,3) by linarith
    then have "unat (ser_offset s + of_nat (length d')) = length bs + length d'" using off(1)
      by (subst unat_add_lem [THEN iffD1]) (simp_all add: unat_of_nat)
    then have "\<not> ser_size s < ser_offset s + of_nat (length d')" using that by (simp add: word_less_nat_alt)
    then show ?thesis by (simp add: sink_bytes_def Let_def)
  qed
  ultimately show ?thesis by (auto simp: work_respond_def)
qed

theorem sink_no_memory_crashes_witness:
  "\<exists>s'. sink_bytes (\<lambda>_. None) 32 (replicate 5000 1) sample_ser = Done (0, s') \<and>
    work_respond ((own (sample_ninja_world 0))\<lparr>nj_ser := s'\<rparr>) = None \<and> sink_bytes (\<lambda>_. None) 32 [1] s' = Undefined"
  using sink_no_memory_crashes [of sample_ser "[]" "replicate 5000 1" "\<lambda>_. None" 32 "own (sample_ninja_world 0)"]
  by (auto simp: sample_ser_def sink_holds_def intro!: exI [of _ "[1]"])

end
