(* ===== verification/Ninja_Worker.thy ===== *)
theory Ninja_Worker
  imports Ninja_Laws
begin

text \<open>
  \<open>eteroj_ninja.c\<close> when it is not synchronous: sequences on their way to the worker and back, through the ring
  buffers, and an instance with a forge that writes through the sink.
\<close>

section \<open>Through the worker\<close>

definition relayed :: "(u64 \<times> atom) list \<Rightarrow> fcall list" where
  "relayed evs = concat (map (\<lambda>(t, a). [FFrameTime t, FWrite (atom_whole a)]) evs)"

lemma ninja_emit_relays:
  "pref w \<Longrightarrow> ninja_emit recording evs w = Some (w\<lparr>pforge := (fst (pforge w) @ relayed evs, own w)\<rparr>)"
proof (induction evs arbitrary: w)
  case Nil
  then show ?case by (cases "pforge w") (simp add: relayed_def own_def)
next
  case (Cons ev evs)
  obtain t a where ev: "ev = (t, a)" by (cases ev)
  let ?w = "w\<lparr>pforge := (fst (pforge w) @ [FFrameTime t, FWrite (atom_whole a)], own w)\<rparr>"
  have "w_call (forge_steps (beside recording) [Keep (FFrameTime t), Keep (FWrite (atom_whole a))]) w = Some ?w"
    using Cons.prems by (cases "pforge w") (simp add: w_call_def beside_simps own_def)
  moreover have "own ?w = own w" by (simp add: own_def)
  ultimately show ?case using Cons.IH [of ?w] Cons.prems ev by (simp add: relayed_def)
qed

text \<open>A period of a plugin that is not synchronous\<close>

lemma ninja_run_async:
  assumes "ninja_ready h w" and "\<not> synchronous h w" and "jh_forge e = recording"
    and "list_all (\<lambda>ev. no_patch (jh_object e) (patch_types (urid (pp w))) (snd ev)) evs"
    and "x2 = w\<lparr>pforge := (fst (pforge w) @ [FSequenceHead 0], own w), pref := True\<rparr>"
    and "ninja_hand_over h evs x2 = Some x3" and "ninja_take_over e h k x3 = Some x4" and "pref x4"
  shows "ninja_run e h k evs w = Done (True, x4\<lparr>pforge := (fst (pforge x4) @ [FPop], own x4)\<rparr>)"
proof -
  have own: "own x2 = own w" using assms(5) by (simp add: own_def)
  have idle: "props_idle fd cb 0 x2 = Some x2" for fd cb
    by (rule ninja_idle_quiet [of h]) (use assms(1,5) own in \<open>simp add: ninja_ready_def\<close>)
  have quiet: "ninja_props e evs x2 = Some x2" by (rule ninja_props_quiet) (use assms(4,5) in simp)
  have "ld32 (pmem x2) (at_synchronous h) = Some 0" using assms(1,2,5) by (auto simp: ninja_ready_def synchronous_def)
  moreover have "beside recording (FSequenceHead 0) (pforge w) = (True, fst (pforge w) @ [FSequenceHead 0], own w)"
    by (simp add: beside_def recording_def own_def)
  ultimately show ?thesis using idle quiet assms(3,6,7,8)
    by (simp add: ninja_run_def assms(5) [symmetric]) (simp add: beside_def recording_def own_def)
qed


text \<open>A sequence that fits into an empty ring buffer and can be read back\<close>

definition portable :: "nat \<Rightarrow> nat \<Rightarrow> lv2_osc_urid \<Rightarrow> (u64 \<times> atom) list \<Rightarrow> bool" where
  "portable j k u evs \<longleftrightarrow> evs \<noteq> [] \<and> list_all (\<lambda>ev. atom_typed u (snd ev)) evs \<and> length (seq_body evs) < k \<and>
     length (seq_body evs) + 8 < 2 ^ 31 \<and> 2 * (16 + pad8 (length (seq_body evs) + 8)) \<le> 2 ^ j"

lemma seq_bytes_length [simp]: "length (seq_bytes t evs) = length (seq_body evs) + 8"
  by (simp add: seq_bytes_def)

lemma portable_body: "portable j k u evs \<Longrightarrow> 8 < length (seq_body evs)"
  by (cases evs) (auto simp: portable_def seq_body_def event_bytes_def)

lemma portable_reads: "portable j k u evs \<Longrightarrow> read_sequence k u (seq_bytes t evs) = Some evs"
  by (rule read_sequence_back) (simp_all add: portable_def)

lemma portable_send:
  assumes "queue_inv j v []" and "portable j k u evs"
  obtains v' where "ring_send (seq_bytes t evs) v = Some (True, v')" "queue_inv j v' [seq_bytes t evs]"
  by (rule ring_send_empty [OF assms(1), of "seq_bytes t evs"]) (use assms(2) in \<open>simp_all add: portable_def\<close>)

text \<open>A chunk at the front is read as the sequence it holds, and taken out.\<close>

lemma portable_front:
  assumes "queue_inv j v [seq_bytes t evs]" and "portable j k u evs"
  obtains p n v1 v2 where "ring_front v = Some (Some (p, n), v1)" "Option.bind (chunk_load p n v1) (read_sequence k u) = Some evs"
    "varchunk_read_advance v1 = Some v2" "queue_inv j v2 []"
proof -
  from ring_front_chunk [OF assms(1)] obtain p v1 v2 where
    "ring_front v = Some (Some (p, of_nat (length (seq_bytes t evs))), v1)" "chunk_load p (of_nat (length (seq_bytes t evs))) v1 = Some (seq_bytes t evs)"
    "varchunk_read_advance v1 = Some v2" "queue_inv j v2 []" by metis
  then show thesis using that portable_reads [OF assms(2)] by simp
qed

lemma unat_8_plus: "8 + n < 2 ^ 31 \<Longrightarrow> unat (8 + of_nat n :: u32) = 8 + n"
  using unat_of_nat_small [where 'w = 32, of "8 + n"] by simp

lemma work_respond_sends:
  assumes "portable j k u evs" and "ser_buf (nj_ser x) = Some (seq_bytes t evs @ rest)" and "queue_inv j (nj_from x) []"
  obtains v where "work_respond x = Some (x\<lparr>nj_from := v\<rparr>)" "queue_inv j v [seq_bytes t evs]"
proof -
  let ?n = "length (seq_body evs)" and ?b = "seq_bytes t evs @ rest"
  have n: "8 < ?n" "?n + 8 < 2 ^ 31" using portable_body [OF assms(1)] assms(1) by (simp_all add: portable_def)
  have w: "word_at 0 ?b = of_nat ?n" by (simp add: seq_bytes_def)
  have "unat (of_nat ?n :: u32) = ?n" using n(2) by (simp add: unat_of_nat)
  then have "\<not> (of_nat ?n :: u32) \<le> 8" using n(1) by (simp add: word_le_nat_alt)
  moreover have "unat (8 + of_nat ?n :: u32) = 8 + ?n" using unat_8_plus [of ?n] n(2) by simp
  then have "front_atom ?b = Some (seq_bytes t evs)" using w by (simp add: front_atom_def Let_def)
  moreover obtain v where "ring_send (seq_bytes t evs) (nj_from x) = Some (True, v)" "queue_inv j v [seq_bytes t evs]"
    by (rule portable_send [OF assms(3,1)])
  ultimately show thesis using that w assms(2) by (simp add: work_respond_def)
qed

lemma ninja_work_relays:
  assumes "queue_inv j (nj_to x) [seq_bytes t evs]" and "queue_inv j (nj_from x) []" and "portable j k (nj_osc h) evs"
    and "work_convert e h k evs (nj_buf x) (nj_ser x) = Done (b, s)" and "ser_buf s = Some (seq_bytes t outs @ rest)" and "portable j k (nj_osc h) outs"
  shows "\<exists>y. ninja_work 2 e h k x = Done y \<and> queue_inv j (nj_to y) [] \<and> queue_inv j (nj_from y) [seq_bytes t outs] \<and> nj_buf y = b"
proof -
  from portable_front [OF assms(1,3)] obtain p n v1 v2 where
    f: "ring_front (nj_to x) = Some (Some (p, n), v1)" "Option.bind (chunk_load p n v1) (read_sequence k (nj_osc h)) = Some evs"
      "varchunk_read_advance v1 = Some v2" "queue_inv j v2 []" by metis
  let ?x = "x\<lparr>nj_to := v1, nj_buf := b, nj_ser := s\<rparr>"
  obtain v where v: "work_respond ?x = Some (?x\<lparr>nj_from := v\<rparr>)" "queue_inv j v [seq_bytes t outs]"
    by (rule work_respond_sends [OF assms(6), of ?x t rest]) (use assms(2,5) in simp_all)
  show ?thesis using f v assms(4) ring_front_empty [OF f(4)] by (simp add: numeral_2_eq_2)
qed

text \<open>The two periods\<close>

lemma ninja_hands_over:
  assumes "ninja_ready h w" and "\<not> synchronous h w" and "jh_forge e = recording"
    and "list_all (\<lambda>ev. no_patch (jh_object e) (patch_types (urid (pp w))) (snd ev)) evs"
    and "queue_inv j (nj_to (own w)) []" and "queue_inv j (nj_from (own w)) []" and "portable j k u evs"
  obtains x v where "ninja_run e h k evs w = Done (True, x)" "fst (pforge x) = fst (pforge w) @ [FSequenceHead 0, FPop]"
    "own x = (own w)\<lparr>nj_to := v, nj_scheduled := True\<rparr>" "pp x = pp w" "pmem x = pmem w"
    "queue_inv j v [seq_bytes (n_type (nj_net h) KSequence) evs]"
proof -
  define x2 where "x2 = w\<lparr>pforge := (fst (pforge w) @ [FSequenceHead 0], own w), pref := True\<rparr>"
  have x2: "own x2 = own w" "pref x2" "pp x2 = pp w" "pmem x2 = pmem w" "fst (pforge x2) = fst (pforge w) @ [FSequenceHead 0]"
    by (simp_all add: x2_def own_def)
  obtain v where v: "ring_send (seq_bytes (n_type (nj_net h) KSequence) evs) (nj_to (own w)) = Some (True, v)"
    "queue_inv j v [seq_bytes (n_type (nj_net h) KSequence) evs]" by (rule portable_send [OF assms(5,7)])
  define y where "y = (own w)\<lparr>nj_to := v, nj_scheduled := True\<rparr>"
  define x where "x = set_own y x2"
  have x: "own x = y" "pref x" "pp x = pp w" "pmem x = pmem w" "fst (pforge x) = fst (pforge w) @ [FSequenceHead 0]"
    using x2 by (simp_all add: x_def)
  have hand: "ninja_hand_over h evs x2 = Some x"
    using v portable_body [OF assms(7)] x2(1) by (simp add: ninja_hand_over_def x_def y_def)
  have y: "nj_from (own x) = nj_from (own w)" "y\<lparr>nj_from := nj_from (own w)\<rparr> = y" by (simp_all add: y_def x_def)
  have "set_own y x = x" by (simp add: x_def)
  then have "set_own (y\<lparr>nj_from := nj_from (own w)\<rparr>) x = x" "nj_from (own x) = nj_from (own w)" unfolding y by simp_all
  then have "ninja_take_over e h k x = Some x" using ring_front_empty [OF assms(6)] x(1) by (simp add: ninja_take_over_def Let_def)
  note run = ninja_run_async [OF assms(1-4) x2_def hand this x(2)]
  have "own (x\<lparr>pforge := (fst (pforge x) @ [FPop], own x)\<rparr>) = y" using x(1) by (simp add: own_def)
  then show thesis using x by (intro that [OF run _ _ _ _ v(2)]) (simp_all add: y_def)
qed

lemma ninja_takes_over:
  assumes "ninja_ready h w" and "\<not> synchronous h w" and "jh_forge e = recording"
    and "queue_inv j (nj_from (own w)) [seq_bytes t evs]" and "portable j k (nj_osc h) evs"
  obtains x where "ninja_run e h k [] w = Done (True, x)" "fst (pforge x) = fst (pforge w) @ FSequenceHead 0 # relayed evs @ [FPop]"
    "nj_to (own x) = nj_to (own w)" "queue_inv j (nj_from (own x)) []"
proof -
  define x2 where "x2 = w\<lparr>pforge := (fst (pforge w) @ [FSequenceHead 0], own w), pref := True\<rparr>"
  have x2: "own x2 = own w" "pref x2" "fst (pforge x2) = fst (pforge w) @ [FSequenceHead 0]" by (simp_all add: x2_def own_def)
  from portable_front [OF assms(4,5)] obtain p n v1 v2 where
    f: "ring_front (nj_from (own w)) = Some (Some (p, n), v1)" "Option.bind (chunk_load p n v1) (read_sequence k (nj_osc h)) = Some evs"
      "varchunk_read_advance v1 = Some v2" "queue_inv j v2 []" by metis
  define y where "y = (own w)\<lparr>nj_from := v1\<rparr>"
  define x3 where "x3 = set_own y x2"
  define x4 where "x4 = x3\<lparr>pforge := (fst (pforge x3) @ relayed evs, own x3)\<rparr>"
  have x3: "own x3 = y" "pref x3" "fst (pforge x3) = fst (pforge w) @ [FSequenceHead 0]" using x2 by (simp_all add: x3_def)
  have x4: "own x4 = y" "pref x4" "fst (pforge x4) = fst (pforge w) @ FSequenceHead 0 # relayed evs" using x3 by (simp_all add: x4_def own_def)
  have hand: "ninja_hand_over h [] x2 = Some x2" by (simp add: ninja_hand_over_def seq_body_def)
  have emit: "ninja_emit recording evs x3 = Some x4" unfolding x4_def by (rule ninja_emit_relays [OF x3(2)])
  have "ninja_take_over e h k x2 = Some (set_own (y\<lparr>nj_from := v2\<rparr>) x4)"
    unfolding ninja_take_over_def x2(1) f(1) bind.bind_lunit prod.case option.case f(2) Let_def y_def [symmetric] x3_def [symmetric] assms(3) emit
    using f(3) x4(1) by (simp add: y_def)
  note run = ninja_run_async [OF assms(1-3) _ x2_def hand this]
  define x5 where "x5 = set_own (y\<lparr>nj_from := v2\<rparr>) x4"
  have x5: "own x5 = y\<lparr>nj_from := v2\<rparr>" "pref x5" "fst (pforge x5) = fst (pforge w) @ FSequenceHead 0 # relayed evs"
    using x4 by (simp_all add: x5_def)
  have "ninja_run e h k [] w = Done (True, x5\<lparr>pforge := (fst (pforge x5) @ [FPop], own x5)\<rparr>)"
    unfolding x5_def by (rule run) (use x4 in simp_all)
  moreover have "own (x5\<lparr>pforge := (fst (pforge x5) @ [FPop], own x5)\<rparr>) = y\<lparr>nj_from := v2\<rparr>" using x5(1) by (simp add: own_def)
  ultimately show thesis using x5 f(4) by (intro that [of "x5\<lparr>pforge := (fst (pforge x5) @ [FPop], own x5)\<rparr>"]) (simp_all add: y_def)
qed

text \<open>
  C18. Through the worker: a period that is not synchronous hands its events over and asks for work; the worker
  converts them and sends its sequence back; and the next period writes this sequence, each event at its frame,
  in order. Nothing stays in the ring buffers.
\<close>

theorem ninja_worker_relays:
  assumes "ninja_ready h w" and "\<not> synchronous h w" and "jh_forge e = recording"
    and "list_all (\<lambda>ev. no_patch (jh_object e) (patch_types (urid (pp w))) (snd ev)) evs"
    and "queue_inv j (nj_to (own w)) []" and "queue_inv j (nj_from (own w)) []"
    and "portable j k (nj_osc h) evs" and "portable j k (nj_osc h) outs"
    and "work_convert e h k evs (nj_buf (own w)) (nj_ser (own w)) = Done (b, s)"
    and "ser_buf s = Some (seq_bytes (n_type (nj_net h) KSequence) outs @ rest)"
  shows "\<exists>x1 y x2. ninja_run e h k evs w = Done (True, x1) \<and> nj_scheduled (own x1) \<and>
    fst (pforge x1) = fst (pforge w) @ [FSequenceHead 0, FPop] \<and> ninja_work 2 e h k (own x1) = Done y \<and>
    ninja_run e h k [] (set_own y x1) = Done (True, x2) \<and>
    fst (pforge x2) = fst (pforge x1) @ FSequenceHead 0 # relayed outs @ [FPop] \<and>
    queue_inv j (nj_to (own x2)) [] \<and> queue_inv j (nj_from (own x2)) []"
proof -
  let ?T = "n_type (nj_net h) KSequence"
  obtain x1 v where x1: "ninja_run e h k evs w = Done (True, x1)" "fst (pforge x1) = fst (pforge w) @ [FSequenceHead 0, FPop]"
    "own x1 = (own w)\<lparr>nj_to := v, nj_scheduled := True\<rparr>" "pp x1 = pp w" "pmem x1 = pmem w" "queue_inv j v [seq_bytes ?T evs]"
    by (rule ninja_hands_over [OF assms(1-7)])
  have "queue_inv j (nj_to (own x1)) [seq_bytes ?T evs]" "queue_inv j (nj_from (own x1)) []"
    "work_convert e h k evs (nj_buf (own x1)) (nj_ser (own x1)) = Done (b, s)" using x1(3,6) assms(6,9) by simp_all
  from ninja_work_relays [OF this(1,2) assms(7) this(3) assms(10,8)] obtain y where
    y: "ninja_work 2 e h k (own x1) = Done y" "queue_inv j (nj_to y) []" "queue_inv j (nj_from y) [seq_bytes ?T outs]" "nj_buf y = b" by blast
  have ready: "ninja_ready h (set_own y x1)" "\<not> synchronous h (set_own y x1)"
    using assms(1,2) x1(4,5) by (simp_all add: ninja_ready_def synchronous_def)
  have "queue_inv j (nj_from (own (set_own y x1))) [seq_bytes ?T outs]" using y(3) by simp
  from ninja_takes_over [OF ready assms(3) this assms(8)] obtain x2 where
    "ninja_run e h k [] (set_own y x1) = Done (True, x2)" "fst (pforge x2) = fst (pforge x1) @ FSequenceHead 0 # relayed outs @ [FPop]"
    "nj_to (own x2) = nj_to y" "queue_inv j (nj_from (own x2)) []" by auto
  with x1(1,2,3) y(1,2) show ?thesis by auto
qed


section \<open>A worker\<close>

text \<open>
  A forge that writes sequences of atoms through its sink, and keeps the sizes of its frames; its stack is the
  references of the frames.
\<close>

definition with_raw :: "(u8 list \<Rightarrow> ser \<Rightarrow> (u32 \<times> ser) run) \<Rightarrow> (u32 \<Rightarrow> ser \<Rightarrow> nat option) \<Rightarrow> u8 list \<Rightarrow> u32 list \<Rightarrow> ser \<Rightarrow> (bool \<times> ser) run" where
  "with_raw snk deref bs frames s =
     run_bind (snk bs s) (\<lambda>(ref, s1).
       if ref = 0 then Done (False, s1)
       else Done (True, fold (\<lambda>fr s. case (deref fr s, ser_buf s) of
           (Some p, Some b) \<Rightarrow> s\<lparr>ser_buf := Some (overwrite p (le32 (word_at p b + of_nat (length bs))) b)\<rparr>
         | _ \<Rightarrow> s) frames s1))"

definition sample_sink :: "u32 list sink_forge" where
  "sample_sink snk deref c sg = (case sg of (s, frames) \<Rightarrow>
     (case c of
        FSequenceHead unit \<Rightarrow> run_bind (with_raw snk deref (le32 8 @ le32 113 @ le32 unit @ le32 0) frames s) (\<lambda>(ok, s1). Done (ok, s1, (ser_offset s + 1) # frames))
      | FFrameTime t \<Rightarrow> run_bind (with_raw snk deref (le64 t) frames s) (\<lambda>(ok, s1). Done (ok, s1, frames))
      | FWrite bs \<Rightarrow> run_bind (with_raw snk deref (pad_to8 bs) frames s) (\<lambda>(ok, s1). Done (ok, s1, frames))
      | FPop \<Rightarrow> Done (True, s, tl frames)
      | _ \<Rightarrow> Done (False, s, frames)))"

text \<open>A message that carries a MIDI event comes in; the buffer of the sink has to grow for it.\<close>

definition sample_wire :: "u8 list" where
  "sample_wire = [0, 0, 0, 3, 0, 0, 0, 1, 144, 60, 127, 0, 0, 0, 0, 0, 0, 0, 0, 2, 0, 0, 0, 0, 9, 0, 0, 0, 0, 0, 0, 0]"

definition sample_events :: "(u64 \<times> atom) list" where
  "sample_events = [(4, packet_atom host_urid (\<lambda>_. 0) (carried sample_wire))]"

definition sample_worker_host :: "(fcall list, u32 list) ninja_host" where
  "sample_worker_host = sample_ninja_host\<lparr>jh_sink := sample_sink, jh_alloc := (\<lambda>n. Some (\<lambda>i. 0))\<rparr>"

definition sample_worker_world :: "fcall list ninja_world" where
  "sample_worker_world = set_own ((own (sample_ninja_world 0))\<lparr>nj_buf := replicate 48 0, nj_ser := \<lparr>ser_size = 16, ser_buf = Some (replicate 16 0), ser_offset = 0\<rparr>\<rparr>)
     (sample_ninja_world 0)"

definition converts_to :: "(u8 list \<times> ser) run \<Rightarrow> u8 list \<Rightarrow> bool" where
  "converts_to r bs = (case r of
     Done (b, s) \<Rightarrow> (case ser_buf s of Some m \<Rightarrow> take (length bs) m = bs | None \<Rightarrow> False) | _ \<Rightarrow> False)"

lemma sample_converts:
  "converts_to (work_convert sample_worker_host (sample_ninja 100) 200 sample_events (replicate 48 0) \<lparr>ser_size = 16, ser_buf = Some (replicate 16 0), ser_offset = 0\<rparr>)
     (seq_bytes 113 [(4, Atom 109 (Bytes [144, 60, 127]))])"
  by code_simp

lemma sample_lengths:
  "length (seq_body sample_events) = 112" "length (seq_body [(4, Atom 109 (Bytes [144, 60, 127]))]) = 32"
  "list_all (\<lambda>ev. atom_typed host_urid (snd ev)) sample_events" "list_all (\<lambda>ev. atom_typed host_urid (snd ev)) [(4, Atom 109 (Bytes [144, 60, 127]))]"
  by code_simp+

lemma sample_portable: "portable 13 200 host_urid sample_events" "portable 13 200 host_urid [(4, Atom 109 (Bytes [144, 60, 127]))]"
  using sample_lengths by (simp_all add: portable_def pad8_def sample_events_def del: packet_atom.simps)

lemma queue_ninja_ring: "queue_inv 13 ninja_ring []"
  unfolding ninja_ring_def by (rule queue_inv_init) simp_all

theorem ninja_worker_relays_witness:
  "\<exists>x1 y x2. ninja_run sample_worker_host (sample_ninja 100) 200 sample_events sample_worker_world = Done (True, x1) \<and> nj_scheduled (own x1) \<and>
    fst (pforge x1) = fst (pforge sample_worker_world) @ [FSequenceHead 0, FPop] \<and> ninja_work 2 sample_worker_host (sample_ninja 100) 200 (own x1) = Done y \<and>
    ninja_run sample_worker_host (sample_ninja 100) 200 [] (set_own y x1) = Done (True, x2) \<and>
    fst (pforge x2) = fst (pforge x1) @ FSequenceHead 0 # relayed [(4, Atom 109 (Bytes [144, 60, 127]))] @ [FPop] \<and>
    queue_inv 13 (nj_to (own x2)) [] \<and> queue_inv 13 (nj_from (own x2)) []"
proof -
  have own: "own sample_worker_world = (own (sample_ninja_world 0))\<lparr>nj_buf := replicate 48 0, nj_ser := \<lparr>ser_size = 16, ser_buf = Some (replicate 16 0), ser_offset = 0\<rparr>\<rparr>"
    by (simp add: sample_worker_world_def)
  have rings: "nj_to (own (sample_ninja_world 0)) = ninja_ring" "nj_from (own (sample_ninja_world 0)) = ninja_ring"
    by (simp_all add: sample_ninja_world_def own_def)
  from sample_converts obtain b s m where
    c: "work_convert sample_worker_host (sample_ninja 100) 200 sample_events (nj_buf (own sample_worker_world)) (nj_ser (own sample_worker_world)) = Done (b, s)"
      "ser_buf s = Some m" "take 40 m = seq_bytes 113 [(4, Atom 109 (Bytes [144, 60, 127]))]"
    by (auto simp: converts_to_def own seq_body_def event_bytes_def pad_to8_def split: run.splits option.splits)
  have "n_type (nj_net (sample_ninja 100)) KSequence = 113" by code_simp
  then have m: "ser_buf s = Some (seq_bytes (n_type (nj_net (sample_ninja 100)) KSequence) [(4, Atom 109 (Bytes [144, 60, 127]))] @ drop 40 m)"
    using c(2,3) by (metis append_take_drop_id)
  have q: "list_all (\<lambda>ev. no_patch (jh_object sample_worker_host) (patch_types (urid (pp sample_worker_world))) (snd ev)) sample_events"
    by (simp add: sample_events_def no_patch_def carried_def sample_worker_world_def host_urid_def lv2_osc_urid_init_def)
  have r: "ninja_ready (sample_ninja 100) sample_worker_world" "\<not> synchronous (sample_ninja 100) sample_worker_world"
    using sample_ninja_ready by (simp_all add: ninja_ready_def synchronous_def sample_worker_world_def)
  show ?thesis
    by (rule ninja_worker_relays [OF r _ q _ _ _ _ c(1) m])
      (use sample_portable queue_ninja_ring rings own in \<open>simp_all add: sample_worker_host_def\<close>)
qed

end
