(* ===== verification/Spec2Isabelle.thy ===== *)
theory Spec2Isabelle
  imports Pack Cloak Slip Varchunk Netatom_Roundtrip Io_Send Io_Schedule Io_Url Stream_Laws Query_Replies Ninja_Worker
begin

text \<open>
  Eteroj is a bundle of LV2 plugins that carry OSC (Open Sound Control) in and out of atom
  streams. This development models its C code and proves what makes it correct, or shows where
  it is not.

  The parts of the program, the theories that model them, and what is proved.

  \<^item> \<open>Prelude\<close>: words, calls with errors as values (\<open>Ok\<close>, \<open>Fail\<close> for a call that returns \<open>false\<close>
    or \<open>NULL\<close>, \<open>Fault\<close> for undefined behaviour) and lists overwritten in part. \<open>CMem\<close>: memory as a
    partial map from 64 bit addresses to bytes, loads and stores, C strings.

  \<^item> \<open>Osc_Util\<close> (\<open>osc.lv2/osc.lv2/osc.h\<close>, the first half of \<open>util.h\<close>): argument types, padding, time
    tags, pattern matching and the dispatch to hooks. The pattern's buffer is exactly long enough;
    hook dispatch is right on the last component of a path and misroutes before it.

  \<^item> \<open>Osc_Writer\<close> (\<open>writer.h\<close>): a cursor in a buffer. The locale \<open>writer_op\<close> is the contract of every
    operation: with room it appends its encoding and touches nothing else, without room it fails
    and stays inside the buffer. Each operation is an interpretation. \<open>Osc_Message\<close>: messages,
    items and bundles by composition of the contract.

  \<^item> \<open>Osc_Reader\<close> (\<open>reader.h\<close>): a cursor too; the locale \<open>reader_op\<close> is the contract of the reading
    operations. The loops of the FOREACH macros run on fuel, and \<open>length + 2\<close> is proved enough.
    Tree dispatch is proved against the branches the path reaches. \<open>Osc_Roundtrip\<close>: what was
    written is read back, messages and bundles; and three packets the reader mishandles.

  \<^item> \<open>Atom\<close>: LV2 atoms as trees with their bytes, as the LV2 specification lays them out, and the
    forge, the library that builds them, as a parameter \<open>fd\<close>. \<open>recording\<close> is the forge that has
    room for everything and keeps the calls made. Lookup in an object is the parameter \<open>oget\<close>, of
    which \<open>finds_values\<close> says what its documentation does.

  \<^item> \<open>Osc_Atom\<close> (the URIDs of \<open>osc.h\<close>, the second half of \<open>util.h\<close>), \<open>Osc_Packet\<close>
    (\<open>lv2_osc_writer_packet\<close>), \<open>Osc_Forge\<close> (\<open>forge.h\<close>), \<open>Osc_Bridge\<close> and \<open>Osc_Unroll\<close>: OSC packets that
    come and go as atoms. \<open>packet\<close> is the abstract packet, with its atom (\<open>packet_atom\<close>), its bytes
    (\<open>packet_enc\<close>, \<open>packet_wire\<close>) and the calls that build its atom (\<open>packet_calls\<close>); the code goes
    from one to the other. Recursion into bundles runs on fuel: the depth of the packet is
    enough for the writer, \<open>packet_fuel\<close> and \<open>unroll_fuel\<close>, linear in its size, for the others.

  \<^item> \<open>Slip\<close> (\<open>stream.h\<close>): the SLIP framing of serial and TCP streams, in place on a buffer.

  \<^item> \<open>Runs\<close>: code with loops that follow data is done, undefined, or out of fuel. \<open>Stream\<close>,
    \<open>Stream_Run\<close> (\<open>stream.h\<close>): streams over UDP, TCP and serial lines, with the operating system as a
    record of its calls. \<open>Stream_Open\<close>, \<open>Stream_Laws\<close>: URLs, and that a failed opening leaves no
    descriptor. \<open>Stream_Transfer\<close>: the locale \<open>stream_queue\<close> says of a driver that it is two queues;
    then a run with SLIP framing ends, touches nothing it may not, sends in order and queues what
    arrives; it stops early only when the system does not take a frame (\<open>not_taken\<close>) or the driver has no
    space. Fuel: one more than the packets queued is enough.

  \<^item> \<open>Varchunk\<close> (\<open>varchunk/varchunk.h\<close>): the ring buffer between two threads, as a step relation of
    producer and consumer with an invariant; it is FIFO under every interleaving. \<open>room_left\<close> says
    exactly which requests are granted.

  \<^item> \<open>Props_Table\<close>, \<open>Props\<close>, \<open>Props_State\<close> (\<open>props.lv2/props.h\<close>): the properties of a plugin, their
    table with its sort and search, the answers to patch messages, save and restore. The
    contract \<open>props_assertion\<close> of \<open>Props_Spec\<close> is what every operation keeps; its interpretations
    are the table, the sizes and the messages. \<open>Props_Contract\<close> has the properties; \<open>table_room\<close> is what
    it asks of the memory of a table.

  \<^item> \<open>Cloak_Codec\<close>, \<open>Cloak\<close> (\<open>eteroj_cloak.c\<close>): OSC hidden in MIDI system exclusive messages. The
    codec works in place in both directions; two instances are inverse to each other.

  \<^item> \<open>Pack\<close> (\<open>eteroj_pack.c\<close>): MIDI packed in OSC messages, on top of OSC and the properties.

  \<^item> \<open>Plugin\<close>: a plugin's state next to that of the properties and the forge. \<open>Ring\<close>: how plugins use the
    ring buffers: send a block, write in place, look at the front; \<open>offered\<close> are blocks sent one after the other.
    \<open>Io\<close> (\<open>eteroj_io.c\<close>): packets between an atom port and a stream, two threads and three rings, and
    bundles that wait for their time. \<open>Io_Transfer\<close> interprets \<open>stream_queue\<close> on its rings;
    \<open>Io_Ports\<close> has the packets that come in, \<open>Io_Send\<close> those that go out and the way over the wire,
    \<open>Io_Schedule\<close> the list of bundles, \<open>Io_Url\<close> the URL on its way to the worker, \<open>Io_Sample\<close> the
    instances of the witnesses.

  \<^item> \<open>Netatom\<close> (\<open>netatom.lv2/netatom.lv2/netatom.h\<close>): atoms made ready for the network in place, with a
    dictionary for their URIDs. \<open>Netatom_Layout\<close> has atoms as trees with their bytes and the locale
    \<open>view\<close>, what reads and writes do in a buffer whose beginning is known; \<open>Netatom_Ser\<close>,
    \<open>Netatom_Serialize\<close> and \<open>Netatom_Deserialize\<close> interpret it for the phases of the code and prove what
    each leaves in the buffer; \<open>Netatom_Roundtrip\<close> puts two hosts together. Fuel: the length of the
    buffer is enough.

  \<^item> \<open>Jsmn\<close> (\<open>jsmn/jsmn.c\<close>): the JSON tokenizer. \<open>Jsmn_Trees\<close> has JSON values as trees, with their text and
    their tokens, and proves that parsing the one stores the other; \<open>Jsmn_Laws\<close> has what holds on any text.

  \<^item> \<open>Query\<close>, \<open>Query_Run\<close> (\<open>eteroj_query.c\<close>): the plugin that asks an OSC server for its methods and makes
    properties of them. \<open>Query_Laws\<close> has values on their way out and back, \<open>Query_Replies\<close> says that walking the
    tokens of a reply by index finds what the reply as a tree says. Doubles are their bits; \<open>strtod\<close> is a
    parameter, of which \<open>reads_numbers\<close> says that it stops behind a number.

  \<^item> \<open>Atom_Read\<close>: sequences of events as bytes, and reading them back as trees. \<open>Ninja\<close>
    (\<open>eteroj_ninja.c\<close>): any event in an OSC message, by \<open>netatom.h\<close>, and back. \<open>Ninja_Laws\<close> takes events from one
    instance to another, whose URIDs may differ, and has the sink the worker forges to; \<open>Ninja_Worker\<close> takes them
    through the ring buffers and the worker. The forge that writes through the sink is a parameter.
    Fuel: the size of the buffer, 8192, is enough for a conversion.

  Integers have the width they have in C. A partial access is \<open>None\<close> or \<open>Fault\<close>, never an
  unspecified value. Running out of fuel is a result of its own, and the theorems on what code
  does include that it does not happen.

  Not modelled: set-up, port connection and clean-up of the plugins, which fill in and free the handles that the
  definitions take as parameters; the races of threads beyond the ring buffers; log messages; tests and
  build files.
\<close>

end
